(* ===== verification/Prelude.thy ===== *)
theory Prelude
  imports Main "HOL-Library.Word"
begin

unbundle bit_operations_syntax

text \<open>
  The vocabulary the component theories share: names for the C integer types, big-endian byte
  strings and their numeric value, the rules that read a machine word as a natural number, and
  generic list lemmas.  Unsigned C integers are words of their width; reading one as a natural
  number is \<open>unat\<close>, and every lemma below says under which bound an operation does not wrap.
\<close>

type_synonym u8 = "8 word"
type_synonym u16 = "16 word"
type_synonym u32 = "32 word"
type_synonym u64 = "64 word"
type_synonym u128 = "128 word"
type_synonym bytes = "u8 list"

section \<open>Lemma collections\<close>

named_theorems unat_norm \<open>word operations read as natural numbers\<close>
named_theorems shape \<open>length facts of the fixed-size arrays of the C code\<close>

section \<open>Byte strings as numbers\<close>

text \<open>The value of a byte string, most significant byte first.\<close>

definition be_val :: "bytes \<Rightarrow> nat" where
  "be_val bs = foldl (\<lambda>acc b. acc * 256 + unat b) 0 bs"

text \<open>The \<open>n\<close> lowest bytes of a number, most significant first.\<close>

primrec be_bytes :: "nat \<Rightarrow> nat \<Rightarrow> bytes" where
  "be_bytes 0 v = []"
| "be_bytes (Suc n) v = be_bytes n (v div 256) @ [of_nat v]"

text \<open>The value of little-endian limbs of \<open>w\<close> bits each, and its bits.\<close>

primrec limbs_val :: "nat \<Rightarrow> 'a::len word list \<Rightarrow> nat" where
  "limbs_val w [] = 0"
| "limbs_val w (x # xs) = unat x + limbs_val w xs * 2 ^ w"

section \<open>Words as numbers\<close>

lemma unat_lt_exp: "unat (x :: 'a::len word) < 2 ^ LENGTH('a)"
  by (rule unsigned_less)

lemma unat_add_exact:
  fixes x y :: "'a::len word"
  assumes "unat x + unat y < 2 ^ LENGTH('a)"
  shows "unat (x + y) = unat x + unat y"
  using assms by (simp add: unat_word_ariths)

lemma unat_mult_exact:
  fixes x y :: "'a::len word"
  assumes "unat x * unat y < 2 ^ LENGTH('a)"
  shows "unat (x * y) = unat x * unat y"
  using assms by (simp add: unat_word_ariths)

lemma unat_sub_exact:
  fixes x y :: "'a::len word"
  assumes "unat y \<le> unat x"
  shows "unat (x - y) = unat x - unat y"
  using assms by (simp add: unat_sub word_le_nat_alt)

lemma unat_drop_bit [unat_norm]: "unat (drop_bit n x) = unat x div 2 ^ n"
  by (simp only: unsigned_drop_bit_eq) (simp add: drop_bit_eq_div take_bit_eq_mod)

lemma unat_and_mask [unat_norm]: "unat (x AND mask n) = unat x mod 2 ^ n"
  by (simp only: unsigned_take_bit_eq flip: take_bit_eq_mask) (simp add: take_bit_eq_mod)

lemma unat_push_bit: 
  fixes x :: "'a::len word"
  shows "unat (push_bit n x) = unat x * 2 ^ n mod 2 ^ LENGTH('a)"
  by (simp only: unsigned_push_bit_eq) (simp add: push_bit_eq_mult take_bit_eq_mod)

lemma unat_push_bit_exact:
  fixes x :: "'a::len word"
  assumes "unat x * 2 ^ n < 2 ^ LENGTH('a)"
  shows "unat (push_bit n x) = unat x * 2 ^ n"
  using assms by (simp add: unat_push_bit)

lemma unat_ucast_mod: 
  fixes x :: "'a::len word"
  shows "unat (ucast x :: 'b::len word) = unat x mod 2 ^ LENGTH('b)"
  by (simp add: unsigned_ucast_eq take_bit_eq_mod)

lemma unat_ucast_widen:
  fixes x :: "'a::len word"
  assumes "LENGTH('a) \<le> LENGTH('b)"
  shows "unat (ucast x :: 'b::len word) = unat x"
proof -
  have "unat x < 2 ^ LENGTH('b)"
    using unat_lt_exp[of x] assms by (meson less_le_trans one_le_numeral power_increasing)
  then show ?thesis by (simp add: unat_ucast_mod)
qed

section \<open>Lemmas on byte strings\<close>

lemma be_val_Nil [simp]: "be_val [] = 0"
  by (simp add: be_val_def)

lemma be_val_snoc [simp]: "be_val (bs @ [b]) = be_val bs * 256 + unat b"
  by (simp add: be_val_def)

lemma length_be_bytes [simp, shape]: "length (be_bytes n v) = n"
  by (induction n arbitrary: v) auto

lemma be_val_bound: "be_val bs < 256 ^ length bs"
proof (induction bs rule: rev_induct)
  case Nil
  then show ?case by simp
next
  case (snoc b bs)
  have b: "unat b < 256" using unat_lt_exp[of b] by simp
  from snoc have "Suc (be_val bs) * 256 \<le> 256 ^ length bs * 256"
    by (intro mult_le_mono1) simp
  with b show ?case by (simp add: algebra_simps)
qed

lemma be_val_be_bytes: "be_val (be_bytes n v) = v mod 256 ^ n"
proof (induction n arbitrary: v)
  case 0
  then show ?case by simp
next
  case (Suc n)
  have "be_val (be_bytes (Suc n) v) = (v div 256) mod 256 ^ n * 256 + v mod 256"
    by (simp add: Suc unat_of_nat)
  also have "\<dots> = v mod (256 * 256 ^ n)"
    by (simp add: mod_mult2_eq)
  finally show ?case by simp
qed

lemma be_bytes_be_val: "be_bytes (length bs) (be_val bs) = bs"
proof (induction bs rule: rev_induct)
  case Nil
  then show ?case by simp
next
  case (snoc b bs)
  have b: "unat b < 256" using unat_lt_exp[of b] by simp
  have "(be_val bs * 256 + unat b) div 256 = be_val bs"
    using b by simp
  moreover have "(of_nat (be_val bs * 256 + unat b) :: u8) = b"
  proof -
    have "(of_nat (be_val bs * 256 + unat b) :: u8) = of_nat (be_val bs) * of_nat 256 + of_nat (unat b)"
      by (simp only: of_nat_add of_nat_mult)
    also have "(of_nat 256 :: u8) = 0" by simp
    finally show ?thesis by simp
  qed
  ultimately show ?case using snoc by simp
qed

section \<open>Lists\<close>

lemma nth_eq_append_Cons: "i < length xs \<Longrightarrow> xs = take i xs @ xs ! i # drop (Suc i) xs"
  by (rule id_take_nth_drop)

lemma list8_cases:
  assumes "length xs = 8"
  obtains a b c d e f g h where "xs = [a, b, c, d, e, f, g, h]"
  using assms by (auto simp: numeral_eq_Suc length_Suc_conv)

lemma digit_unique:
  fixes x y X Y B :: nat
  assumes "x < B" "y < B" "x + X * B = y + Y * B"
  shows "x = y" "X = Y"
proof -
  have "x = (x + X * B) mod B" "y = (y + Y * B) mod B" using assms(1,2) by simp_all
  then show "x = y" using assms(3) by simp
  then show "X = Y" using assms(1,3) by simp
qed


lemma digit_mod_div:
  fixes x X B :: nat
  assumes "x < B"
  shows "(x + X * B) mod B = x" "(x + X * B) div B = X"
  using assms by simp_all

lemma digit_eqs:
  fixes k x X B :: nat
  assumes "k = x + X * B" "x < B"
  shows "k div B = X" "k mod B = x"
  using assms by simp_all

lemma digit_less_iff:
  fixes x y X Y B :: nat
  assumes "x < B" "y < B"
  shows "x + X * B < y + Y * B \<longleftrightarrow> X < Y \<or> (X = Y \<and> x < y)"
proof -
  have *: "u + U * B < v + V * B" if "U < V" "u < B" for u v U V
  proof -
    have "u + U * B < (U + 1) * B" using that(2) by simp
    also have "\<dots> \<le> V * B" using that(1) by (intro mult_le_mono1) simp
    finally show ?thesis by simp
  qed
  show ?thesis using *[of X Y x y] *[of Y X y x] assms by (cases X Y rule: linorder_cases) auto
qed

section \<open>Bits of values\<close>

lemma bit_add_shift:
  fixes x y :: nat
  assumes "x < 2 ^ n"
  shows "bit (x + y * 2 ^ n) k \<longleftrightarrow> (if k < n then bit x k else bit y (k - n))"
proof (cases "k < n")
  case True
  have "bit (x + y * 2 ^ n) k \<longleftrightarrow> bit (take_bit n (x + y * 2 ^ n)) k" using True by (simp add: bit_take_bit_iff)
  also have "take_bit n (x + y * 2 ^ n) = x" using assms by (simp add: take_bit_eq_mod)
  finally show ?thesis using True by simp
next
  case False
  then obtain j where k: "k = n + j" using le_Suc_ex not_less by blast
  have "bit (x + y * 2 ^ n) k \<longleftrightarrow> bit (drop_bit n (x + y * 2 ^ n)) j" by (simp add: k bit_drop_bit_eq)
  also have "drop_bit n (x + y * 2 ^ n) = y" using assms by (simp add: drop_bit_eq_div)
  finally show ?thesis by (simp add: k)
qed

lemma bit_unat_less:
  assumes "unat (t :: 'a::len word) < 2 ^ k" "bit t n"
  shows "n < k"
proof (rule ccontr)
  assume "\<not> n < k"
  then have "2 ^ k \<le> (2 :: nat) ^ n" by simp
  moreover have "bit (unat t) n" using assms(2) by (simp add: bit_unsigned_iff)
  then have "2 ^ n \<le> unat t" by (metis bit_iff_odd div_less even_zero leI)
  ultimately show False using assms(1) by linarith
qed

lemma bit_be_val:
  "bit (be_val bs) k \<longleftrightarrow> k < 8 * length bs \<and> bit (bs ! (length bs - 1 - k div 8)) (k mod 8)"
proof (induction bs arbitrary: k rule: rev_induct)
  case Nil
  then show ?case by simp
next
  case (snoc b bs)
  have b: "unat b < 2 ^ 8" using unat_lt_exp[of b] by simp
  have "bit (be_val (bs @ [b])) k \<longleftrightarrow> (if k < 8 then bit (unat b) k else bit (be_val bs) (k - 8))"
    using bit_add_shift[OF b, of "be_val bs" k] by (simp add: add.commute)
  also have "\<dots> \<longleftrightarrow> k < 8 * length (bs @ [b]) \<and> bit ((bs @ [b]) ! (length (bs @ [b]) - 1 - k div 8)) (k mod 8)"
  proof (cases "k < 8")
    case True
    then show ?thesis by (simp add: bit_unsigned_iff nth_append)
  next
    case False
    then have "k div 8 = Suc ((k - 8) div 8)" "k mod 8 = (k - 8) mod 8"  by (simp_all add: le_div_geq le_mod_geq)
    moreover have "length bs - Suc ((k - 8) div 8) < length bs" if "k - 8 < 8 * length bs" using that by (cases "length bs") auto
    moreover have "k - 8 < 8 * length bs \<longleftrightarrow> k < 8 + 8 * length bs" using False by auto
    ultimately show ?thesis using False by (auto simp: snoc.IH nth_append)
  qed
  finally show ?case .
qed

lemma bit_limbs_val:
  assumes "\<forall>x\<in>set xs. unat x < 2 ^ w" "0 < w"
  shows "bit (limbs_val w xs) k \<longleftrightarrow> k < w * length xs \<and> bit (xs ! (k div w)) (k mod w)"
  using assms(1)
proof (induction xs arbitrary: k)
  case Nil
  then show ?case by simp
next
  case (Cons x xs)
  have "bit (limbs_val w (x # xs)) k \<longleftrightarrow> (if k < w then bit (unat x) k else bit (limbs_val w xs) (k - w))"
    using Cons.prems by (simp add: bit_add_shift)
  also have "\<dots> \<longleftrightarrow> k < w * length (x # xs) \<and> bit ((x # xs) ! (k div w)) (k mod w)"
  proof (cases "k < w")
    case True
    then show ?thesis by (simp add: bit_unsigned_iff)
  next
    case False
    then have "k div w = Suc ((k - w) div w)" "k mod w = (k - w) mod w" using assms(2) by (simp_all add: le_div_geq le_mod_geq)
    moreover have "k - w < w * length xs \<longleftrightarrow> k < w + w * length xs" using False by auto
    ultimately show ?thesis using False Cons by simp
  qed
  finally show ?case .
qed

text \<open>Setting a clear bit adds its weight.\<close>

lemma unat_or_bit:
  fixes x :: "'a::len word"
  assumes "\<not> bit x r" "r < LENGTH('a)"
  shows "unat (x OR push_bit r 1) = unat x + 2 ^ r"
proof -
  have "unat (push_bit r (1 :: 'a word)) = 2 ^ r" using assms(2) unfolding unat_push_bit by simp
  moreover have "unat (x OR push_bit r 1) = unat x OR unat (push_bit r (1 :: 'a word))"
    by (simp add: unsigned_or_eq)
  moreover have "unat x AND 2 ^ r = 0"
    using assms(1) by (simp add: and_exp_eq_0_iff_not_bit bit_unsigned_iff)
  ultimately show ?thesis by (simp add: disjunctive_add_eq_or)
qed

lemma unat_or_shift:
  fixes x y :: "'a::len word"
  assumes "unat x < 2 ^ k" "unat y * 2 ^ k < 2 ^ LENGTH('a)"
  shows "unat (x OR push_bit k y) = unat x + unat y * 2 ^ k"
proof -
  have "unat x AND unat y * 2 ^ k = 0"
    using assms(1) by (intro bit_eqI) (auto simp: bit_and_iff bit_push_bit_iff bit_unsigned_iff dest: bit_unat_less simp flip: push_bit_eq_mult)
  then show ?thesis
    using assms(2) by (simp add: unsigned_or_eq unat_push_bit_exact disjunctive_add_eq_or)
qed

text \<open>Clearing a set bit subtracts it.\<close>

lemma unat_clear_bit:
  fixes x :: "'a::len word"
  assumes "bit x k"
  shows "unat (x AND NOT (push_bit k 1)) = unat x - 2 ^ k"
proof -
  let ?m = "push_bit k 1 :: 'a word"
  have k: "k < LENGTH('a)" using assms by (simp add: bit_imp_le_length)
  have m: "bit ?m n \<longleftrightarrow> n = k" for n using k by (auto simp: push_bit_of_1 bit_exp_iff)
  have "\<not> bit (x AND NOT ?m) k" using m by (auto simp: bit_and_iff bit_not_iff)
  moreover have "(x AND NOT ?m) OR ?m = x"
    by (rule bit_word_eqI) (use assms m in \<open>auto simp: bit_and_iff bit_or_iff bit_not_iff\<close>)
  ultimately show ?thesis using unat_or_bit[of "x AND NOT ?m" k] k by simp
qed

lemma sint_small:
  assumes "unat (x :: 'a::len word) < 2 ^ (LENGTH('a) - 1)"
  shows "sint x = int (unat x)"
proof -
  have "- (2 ^ (LENGTH('a) - Suc 0)) \<le> (0 :: int)" by simp
  also have "0 \<le> uint x" by simp
  finally have "signed_take_bit (LENGTH('a) - Suc 0) (uint x) = uint x"
    using assms by (intro signed_take_bit_int_eq_self) (simp_all add: uint_nat less_imp_of_nat_less del: of_nat_unat)
  then show ?thesis by (simp add: sint_uint)
qed

text \<open>The step of the variable-length integer loops decreases.\<close>

lemma varint_step:
  assumes "\<not> n \<le> (0x7F :: 'a::len word)"
  shows "127 < unat n" "unat (drop_bit 7 n - 1) = unat n div 128 - 1"
proof -
  have lt: "unat (0x7F :: 'a word) < unat n" using assms by (simp add: word_less_nat_alt not_le)
  have m: "(0x7F :: 'a word) = mask 7" by (simp add: mask_eq_exp_minus_1)
  have "unat (mask 7 :: 'a word) = mask (min LENGTH('a) 7)" by (rule bit_eqI) (auto simp: bit_unsigned_iff bit_mask_iff)
  then have u: "unat (0x7F :: 'a word) = 2 ^ min LENGTH('a) 7 - 1" unfolding m by (simp only: mask_eq_exp_minus_1)
  have "7 \<le> LENGTH('a)"
  proof (rule ccontr)
    assume "\<not> 7 \<le> LENGTH('a)"
    then have "unat (0x7F :: 'a word) = 2 ^ LENGTH('a) - 1" unfolding u by (simp add: min_def)
    then show False using lt unat_lt_exp[of n] by linarith
  qed
  then show "127 < unat n" using lt unfolding u by (simp add: min_absorb2)
  then show "unat (drop_bit 7 n - 1) = unat n div 128 - 1" by (simp add: unat_sub_exact unat_drop_bit)
qed

lemma varint_step_less: "\<not> n \<le> (0x7F :: 'a::len word) \<Longrightarrow> unat (drop_bit 7 n - 1) < unat n"
  using varint_step[of n] by simp

end
