(* ===== verification/CtAes.thy ===== *)
theory CtAes
  imports Prelude
begin

unbundle bit_operations_syntax

text \<open>
  The bit-sliced AES block cipher of \<^verbatim>\<open>sige/crypto/ctaes/ctaes.c\<close>.  An \<open>AES_state\<close> is
  \<^verbatim>\<open>uint16_t slice[8]\<close>: slice \<open>i\<close> holds bit \<open>i\<close> of the sixteen state bytes, the byte at row
  \<open>r\<close> and column \<open>c\<close> sitting at bit position \<open>4 r + c\<close>.  The array of a state is a list, and
  \<open>wf_state\<close> says that it has its eight elements.  The S-box gate network is written once over
  any type with bitwise operations; \<open>SubBytes\<close> uses it on 16-bit words.
\<close>

section \<open>Data\<close>

record AES_state =
  slice :: "u16 list"

record AES128_ctx =
  rk128 :: "AES_state list"

record AES192_ctx =
  rk192 :: "AES_state list"

record AES256_ctx =
  rk256 :: "AES_state list"

definition wf_state :: "AES_state \<Rightarrow> bool" where
  "wf_state s \<longleftrightarrow> length (slice s) = 8"

definition zero_state :: AES_state where
  "zero_state = \<lparr>slice = replicate 8 0\<rparr>"

section \<open>Loading and saving\<close>

text \<open>\<^verbatim>\<open>for (i = 0; i < 8; i++) { s->slice[i] |= (byte & 1) << (r * 4 + c); byte >>= 1; }\<close>\<close>

primrec LoadByte_loop :: "u16 list \<Rightarrow> u8 \<Rightarrow> nat \<Rightarrow> nat \<Rightarrow> u16 list" where
  "LoadByte_loop [] byte r c = []"
| "LoadByte_loop (x # xs) byte r c =
     (x OR push_bit (r * 4 + c) (ucast (byte AND 1))) # LoadByte_loop xs (drop_bit 1 byte) r c"

definition LoadByte :: "AES_state \<Rightarrow> u8 \<Rightarrow> nat \<Rightarrow> nat \<Rightarrow> AES_state" where
  "LoadByte s byte r c = s\<lparr>slice := LoadByte_loop (slice s) byte r c\<rparr>"

definition LoadBytes :: "AES_state \<Rightarrow> bytes \<Rightarrow> AES_state" where
  "LoadBytes s data16 =
     foldl (\<lambda>s c. foldl (\<lambda>s r. LoadByte s (data16 ! (4 * c + r)) r c) s [0..<4]) s [0..<4]"

definition SaveByte :: "AES_state \<Rightarrow> nat \<Rightarrow> nat \<Rightarrow> u8" where
  "SaveByte s r c =
     foldl (\<lambda>v b. v OR push_bit b (ucast (drop_bit (r * 4 + c) (slice s ! b) AND 1))) 0 [0..<8]"

definition SaveBytes :: "AES_state \<Rightarrow> bytes" where
  "SaveBytes s = concat (map (\<lambda>c. map (\<lambda>r. SaveByte s r c) [0..<4]) [0..<4])"

section \<open>The S-box network\<close>

type_synonym 'g sbox_in = "'g \<times> 'g \<times> 'g \<times> 'g \<times> 'g \<times> 'g \<times> 'g \<times> 'g"

type_synonym 'g sbox_lin =
  "'g \<times> 'g \<times> 'g \<times> 'g \<times> 'g \<times> 'g \<times> 'g \<times> 'g \<times> 'g \<times> 'g \<times> 'g \<times>
    'g \<times> 'g \<times> 'g \<times> 'g \<times> 'g \<times> 'g \<times> 'g \<times> 'g \<times> 'g \<times> 'g \<times> 'g"

type_synonym 'g sbox_mid =
  "'g \<times> 'g \<times> 'g \<times> 'g \<times> 'g \<times> 'g \<times> 'g \<times> 'g \<times> 'g \<times> 'g \<times> 'g \<times>
    'g \<times> 'g \<times> 'g \<times> 'g \<times> 'g \<times> 'g \<times> 'g"

definition SubBytes_unpost ::
  "'g sbox_in \<Rightarrow> ('g::ring_bit_operations) sbox_lin" where
  "SubBytes_unpost = (\<lambda>(U0, U1, U2, U3, U4, U5, U6, U7).
    (let T23 = U0 XOR U3;
         T22 = NOT (U1 XOR U3);
         T2 = NOT (U0 XOR U1);
         T1 = U3 XOR U4;
         T24 = NOT (U4 XOR U7);
         R5 = U6 XOR U7;
         T8 = NOT (U1 XOR T23);
         T19 = T22 XOR R5;
         T9 = NOT (U7 XOR T1);
         T10 = T2 XOR T24;
         T13 = T2 XOR R5;
         T3 = T1 XOR R5;
         T25 = NOT (U2 XOR T1);
         R13 = U1 XOR U6;
         T17 = NOT (U2 XOR T19);
         T20 = T24 XOR R13;
         T4 = U4 XOR T8;
         R17 = NOT (U2 XOR U5);
         R18 = NOT (U5 XOR U6);
         R19 = NOT (U2 XOR U4);
         D = U0 XOR R17;
         T6 = T22 XOR R17;
         T16 = R13 XOR R19;
         T27 = T1 XOR R18;
         T15 = T10 XOR T27;
         T14 = T10 XOR R18;
         T26 = T3 XOR T16
     in (T1, T2, T3, T4, T6, T8, T9, T10, T13, T14, T15,
         T16, T17, T19, T20, T22, T23, T24, T25, T26, T27, D)))"

definition SubBytes_prep ::
  "'g sbox_in \<Rightarrow> ('g::ring_bit_operations) sbox_lin" where
  "SubBytes_prep = (\<lambda>(U0, U1, U2, U3, U4, U5, U6, U7).
    (let T1 = U0 XOR U3;
         T2 = U0 XOR U5;
         T3 = U0 XOR U6;
         T4 = U3 XOR U5;
         T5 = U4 XOR U6;
         T6 = T1 XOR T5;
         T7 = U1 XOR U2;
         T8 = U7 XOR T6;
         T9 = U7 XOR T7;
         T10 = T6 XOR T7;
         T11 = U1 XOR U5;
         T12 = U2 XOR U5;
         T13 = T3 XOR T4;
         T14 = T6 XOR T11;
         T15 = T5 XOR T11;
         T16 = T5 XOR T12;
         T17 = T9 XOR T16;
         T18 = U3 XOR U7;
         T19 = T7 XOR T18;
         T20 = T1 XOR T19;
         T21 = U6 XOR U7;
         T22 = T7 XOR T21;
         T23 = T2 XOR T22;
         T24 = T2 XOR T10;
         T25 = T20 XOR T17;
         T26 = T3 XOR T16;
         T27 = T1 XOR T12;
         D = U7
     in (T1, T2, T3, T4, T6, T8, T9, T10, T13, T14, T15,
         T16, T17, T19, T20, T22, T23, T24, T25, T26, T27, D)))"

definition SubBytes_nonlin :: "('g::ring_bit_operations) sbox_lin \<Rightarrow> 'g sbox_mid" where
  "SubBytes_nonlin = (\<lambda>(T1, T2, T3, T4, T6, T8, T9, T10, T13, T14, T15,
         T16, T17, T19, T20, T22, T23, T24, T25, T26, T27, D).
    (let M1 = T13 AND T6;
         M6 = T3 AND T16;
         M11 = T1 AND T15;
         M13 = (T4 AND T27) XOR M11;
         M15 = (T2 AND T10) XOR M11;
         M20 = T14 XOR M1 XOR (T23 AND T8) XOR M13;
         M21 = (T19 AND D) XOR M1 XOR T24 XOR M15;
         M22 = T26 XOR M6 XOR (T22 AND T9) XOR M13;
         M23 = (T20 AND T17) XOR M6 XOR M15 XOR T25;
         M25 = M22 AND M20;
         M37 = M21 XOR ((M20 XOR M21) AND (M23 XOR M25));
         M38 = M20 XOR M25 XOR (M21 OR (M20 AND M23));
         M39 = M23 XOR ((M22 XOR M23) AND (M21 XOR M25));
         M40 = M22 XOR M25 XOR (M23 OR (M21 AND M22));
         M41 = M38 XOR M40;
         M42 = M37 XOR M39;
         M43 = M37 XOR M38;
         M44 = M39 XOR M40;
         M45 = M42 XOR M41;
         M46 = M44 AND T6;
         M47 = M40 AND T8;
         M48 = M39 AND D;
         M49 = M43 AND T16;
         M50 = M38 AND T9;
         M51 = M37 AND T17;
         M52 = M42 AND T15;
         M53 = M45 AND T27;
         M54 = M41 AND T10;
         M55 = M44 AND T13;
         M56 = M40 AND T23;
         M57 = M39 AND T19;
         M58 = M43 AND T3;
         M59 = M38 AND T22;
         M60 = M37 AND T20;
         M61 = M42 AND T1;
         M62 = M45 AND T4;
         M63 = M41 AND T2
     in (M46, M47, M48, M49, M50, M51, M52, M53, M54, M55, M56,
         M57, M58, M59, M60, M61, M62, M63)))"

definition SubBytes_unprep :: "('g::ring_bit_operations) sbox_mid \<Rightarrow> 'g list" where
  "SubBytes_unprep = (\<lambda>(M46, M47, M48, M49, M50, M51, M52, M53, M54, M55, M56,
         M57, M58, M59, M60, M61, M62, M63).
    (let P0 = M52 XOR M61;
         P1 = M58 XOR M59;
         P2 = M54 XOR M62;
         P3 = M47 XOR M50;
         P4 = M48 XOR M56;
         P5 = M46 XOR M51;
         P6 = M49 XOR M60;
         P7 = P0 XOR P1;
         P8 = M50 XOR M53;
         P9 = M55 XOR M63;
         P10 = M57 XOR P4;
         P11 = P0 XOR P3;
         P12 = M46 XOR M48;
         P13 = M49 XOR M51;
         P14 = M49 XOR M62;
         P15 = M54 XOR M59;
         P16 = M57 XOR M61;
         P17 = M58 XOR P2;
         P18 = M63 XOR P5;
         P19 = P2 XOR P3;
         P20 = P4 XOR P6;
         P22 = P2 XOR P7;
         P23 = P7 XOR P8;
         P24 = P5 XOR P7;
         P25 = P6 XOR P10;
         P26 = P9 XOR P11;
         P27 = P10 XOR P18;
         P28 = P11 XOR P25;
         P29 = P15 XOR P20
     in [P9 XOR P16,
         P14 XOR P23,
         P19 XOR P24,
         P23 XOR P27,
         P12 XOR P22,
         P17 XOR P28,
         P26 XOR P29,
         P13 XOR P22]))"

definition SubBytes_post :: "('g::ring_bit_operations) sbox_mid \<Rightarrow> 'g list" where
  "SubBytes_post = (\<lambda>(M46, M47, M48, M49, M50, M51, M52, M53, M54, M55, M56,
         M57, M58, M59, M60, M61, M62, M63).
    (let L0 = M61 XOR M62;
         L1 = M50 XOR M56;
         L2 = M46 XOR M48;
         L3 = M47 XOR M55;
         L4 = M54 XOR M58;
         L5 = M49 XOR M61;
         L6 = M62 XOR L5;
         L7 = M46 XOR L3;
         L8 = M51 XOR M59;
         L9 = M52 XOR M53;
         L10 = M53 XOR L4;
         L11 = M60 XOR L2;
         L12 = M48 XOR M51;
         L13 = M50 XOR L0;
         L14 = M52 XOR M61;
         L15 = M55 XOR L1;
         L16 = M56 XOR L0;
         L17 = M57 XOR L1;
         L18 = M58 XOR L8;
         L19 = M63 XOR L4;
         L20 = L0 XOR L1;
         L21 = L1 XOR L7;
         L22 = L3 XOR L12;
         L23 = L18 XOR L2;
         L24 = L15 XOR L9;
         L25 = L6 XOR L10;
         L26 = L7 XOR L9;
         L27 = L8 XOR L10;
         L28 = L11 XOR L14;
         L29 = L11 XOR L17
     in [NOT (L6 XOR L23),
         NOT (L13 XOR L27),
         L25 XOR L29,
         L20 XOR L22,
         L6 XOR L21,
         NOT (L19 XOR L28),
         NOT (L16 XOR L26),
         L6 XOR L24]))"

definition SubBytes_gates :: "bool \<Rightarrow> ('g::ring_bit_operations) sbox_in \<Rightarrow> 'g list" where
  "SubBytes_gates is_inv U =
     (if is_inv then SubBytes_unprep (SubBytes_nonlin (SubBytes_unpost U))
      else SubBytes_post (SubBytes_nonlin (SubBytes_prep U)))"

definition SubBytes :: "AES_state \<Rightarrow> bool \<Rightarrow> AES_state" where
  "SubBytes s is_inv =
     (let U0 = slice s ! 7; U1 = slice s ! 6; U2 = slice s ! 5; U3 = slice s ! 4;
          U4 = slice s ! 3; U5 = slice s ! 2; U6 = slice s ! 1; U7 = slice s ! 0
      in s\<lparr>slice := SubBytes_gates is_inv (U0, U1, U2, U3, U4, U5, U6, U7)\<rparr>)"

section \<open>Row and column transformations\<close>

definition BIT_RANGE :: "nat \<Rightarrow> nat \<Rightarrow> u16" where
  "BIT_RANGE from to = push_bit from (push_bit (to - from) 1 - 1)"

definition BIT_RANGE_LEFT :: "u16 \<Rightarrow> nat \<Rightarrow> nat \<Rightarrow> nat \<Rightarrow> u16" where
  "BIT_RANGE_LEFT x from to shift = push_bit shift (x AND BIT_RANGE from to)"

definition BIT_RANGE_RIGHT :: "u16 \<Rightarrow> nat \<Rightarrow> nat \<Rightarrow> nat \<Rightarrow> u16" where
  "BIT_RANGE_RIGHT x from to shift = drop_bit shift (x AND BIT_RANGE from to)"

definition ShiftRows_slice :: "u16 \<Rightarrow> u16" where
  "ShiftRows_slice v =
     (v AND BIT_RANGE 0 4) OR
     BIT_RANGE_LEFT v 4 5 3 OR BIT_RANGE_RIGHT v 5 8 1 OR
     BIT_RANGE_LEFT v 8 10 2 OR BIT_RANGE_RIGHT v 10 12 2 OR
     BIT_RANGE_LEFT v 12 15 1 OR BIT_RANGE_RIGHT v 15 16 3"

definition ShiftRows :: "AES_state \<Rightarrow> AES_state" where
  "ShiftRows s = s\<lparr>slice := map ShiftRows_slice (slice s)\<rparr>"

definition InvShiftRows_slice :: "u16 \<Rightarrow> u16" where
  "InvShiftRows_slice v =
     (v AND BIT_RANGE 0 4) OR
     BIT_RANGE_LEFT v 4 7 1 OR BIT_RANGE_RIGHT v 7 8 3 OR
     BIT_RANGE_LEFT v 8 10 2 OR BIT_RANGE_RIGHT v 10 12 2 OR
     BIT_RANGE_LEFT v 12 13 3 OR BIT_RANGE_RIGHT v 13 16 1"

definition InvShiftRows :: "AES_state \<Rightarrow> AES_state" where
  "InvShiftRows s = s\<lparr>slice := map InvShiftRows_slice (slice s)\<rparr>"

definition ROT :: "u16 \<Rightarrow> nat \<Rightarrow> u16" where
  "ROT x b = drop_bit (b * 4) x OR push_bit ((4 - b) * 4) x"

definition MixColumns_inv_part :: "u16 list \<Rightarrow> u16 list" where
  "MixColumns_inv_part sl =
     (let t0_02 = sl ! 0 XOR ROT (sl ! 0) 2;
          t1_02 = sl ! 1 XOR ROT (sl ! 1) 2;
          t2_02 = sl ! 2 XOR ROT (sl ! 2) 2;
          t3_02 = sl ! 3 XOR ROT (sl ! 3) 2;
          t4_02 = sl ! 4 XOR ROT (sl ! 4) 2;
          t5_02 = sl ! 5 XOR ROT (sl ! 5) 2;
          t6_02 = sl ! 6 XOR ROT (sl ! 6) 2;
          t7_02 = sl ! 7 XOR ROT (sl ! 7) 2
      in [sl ! 0 XOR t6_02,
          sl ! 1 XOR (t6_02 XOR t7_02),
          sl ! 2 XOR (t0_02 XOR t7_02),
          sl ! 3 XOR (t1_02 XOR t6_02),
          sl ! 4 XOR (t2_02 XOR t6_02 XOR t7_02),
          sl ! 5 XOR (t3_02 XOR t7_02),
          sl ! 6 XOR t4_02,
          sl ! 7 XOR t5_02])"

definition MixColumns :: "AES_state \<Rightarrow> bool \<Rightarrow> AES_state" where
  "MixColumns s is_inv =
     (let s0 = slice s ! 0; s1 = slice s ! 1; s2 = slice s ! 2; s3 = slice s ! 3;
          s4 = slice s ! 4; s5 = slice s ! 5; s6 = slice s ! 6; s7 = slice s ! 7;
          s0_01 = s0 XOR ROT s0 1; s0_123 = ROT s0_01 1 XOR ROT s0 3;
          s1_01 = s1 XOR ROT s1 1; s1_123 = ROT s1_01 1 XOR ROT s1 3;
          s2_01 = s2 XOR ROT s2 1; s2_123 = ROT s2_01 1 XOR ROT s2 3;
          s3_01 = s3 XOR ROT s3 1; s3_123 = ROT s3_01 1 XOR ROT s3 3;
          s4_01 = s4 XOR ROT s4 1; s4_123 = ROT s4_01 1 XOR ROT s4 3;
          s5_01 = s5 XOR ROT s5 1; s5_123 = ROT s5_01 1 XOR ROT s5 3;
          s6_01 = s6 XOR ROT s6 1; s6_123 = ROT s6_01 1 XOR ROT s6 3;
          s7_01 = s7 XOR ROT s7 1; s7_123 = ROT s7_01 1 XOR ROT s7 3;
          sl = [s7_01 XOR s0_123,
                s7_01 XOR s0_01 XOR s1_123,
                s1_01 XOR s2_123,
                s7_01 XOR s2_01 XOR s3_123,
                s7_01 XOR s3_01 XOR s4_123,
                s4_01 XOR s5_123,
                s5_01 XOR s6_123,
                s6_01 XOR s7_123]
      in s\<lparr>slice := (if is_inv then MixColumns_inv_part sl else sl)\<rparr>)"

definition AddRoundKey :: "AES_state \<Rightarrow> AES_state \<Rightarrow> AES_state" where
  "AddRoundKey s round = s\<lparr>slice := map2 (XOR) (slice s) (slice round)\<rparr>"

section \<open>Key schedule\<close>

definition GetOneColumn :: "AES_state \<Rightarrow> nat \<Rightarrow> AES_state" where
  "GetOneColumn a c = \<lparr>slice = map (\<lambda>x. drop_bit c x AND 0x1111) (slice a)\<rparr>"

text \<open>Returns the updated column \<open>s\<close> and the updated round key \<open>r\<close>.\<close>

definition KeySetupColumnMix ::
  "AES_state \<Rightarrow> AES_state \<Rightarrow> AES_state \<Rightarrow> nat \<Rightarrow> nat \<Rightarrow> AES_state \<times> AES_state" where
  "KeySetupColumnMix s r a c1 c2 =
     (let sl = map2 (\<lambda>x y. x XOR (drop_bit c2 y AND 0x1111)) (slice s) (slice a)
      in (s\<lparr>slice := sl\<rparr>,
          r\<lparr>slice := map2 (\<lambda>x y. x OR push_bit c1 (y AND 0x1111)) (slice r) sl\<rparr>))"

definition KeySetupTransform :: "AES_state \<Rightarrow> AES_state \<Rightarrow> AES_state" where
  "KeySetupTransform s r =
     s\<lparr>slice := map2 (\<lambda>x y. (drop_bit 4 x OR push_bit 12 x) XOR y) (slice s) (slice r)\<rparr>"

definition MultX :: "AES_state \<Rightarrow> AES_state" where
  "MultX s =
     (let sl = slice s; top = sl ! 7
      in s\<lparr>slice := [top, sl ! 0 XOR top, sl ! 1, sl ! 2 XOR top, sl ! 3 XOR top,
                     sl ! 4, sl ! 5, sl ! 6]\<rparr>)"

record setup_state =
  su_rounds :: "AES_state list"
  su_rcon :: AES_state
  su_pos :: nat
  su_column :: AES_state

definition AES_setup_load :: "AES_state list \<Rightarrow> bytes \<Rightarrow> nat \<Rightarrow> AES_state list" where
  "AES_setup_load rounds key nkeywords =
     foldl (\<lambda>rounds i. foldl (\<lambda>rounds r.
         rounds[i div 4 := LoadByte (rounds ! (i div 4)) (key ! (4 * i + r)) r (i mod 4)])
       rounds [0..<4]) rounds [0..<nkeywords]"

definition AES_setup_step :: "nat \<Rightarrow> setup_state \<Rightarrow> nat \<Rightarrow> setup_state" where
  "AES_setup_step nkeywords st i =
     (let (column, rcon) =
            (if su_pos st = 0
             then (KeySetupTransform (SubBytes (su_column st) False) (su_rcon st),
                   MultX (su_rcon st))
             else if nkeywords > 6 \<and> su_pos st = 4
             then (SubBytes (su_column st) False, su_rcon st)
             else (su_column st, su_rcon st));
          pos = (if su_pos st + 1 = nkeywords then 0 else su_pos st + 1);
          rounds = su_rounds st;
          (column', r') = KeySetupColumnMix column (rounds ! (i div 4))
             (rounds ! ((i - nkeywords) div 4)) (i mod 4) ((i - nkeywords) mod 4)
      in \<lparr>su_rounds = rounds[i div 4 := r'], su_rcon = rcon, su_pos = pos, su_column = column'\<rparr>)"

definition AES_setup :: "bytes \<Rightarrow> nat \<Rightarrow> nat \<Rightarrow> AES_state list" where
  "AES_setup key nkeywords nrounds =
     (let rounds = AES_setup_load (replicate (nrounds + 1) zero_state) key nkeywords;
          column = GetOneColumn (rounds ! ((nkeywords - 1) div 4)) ((nkeywords - 1) mod 4);
          st = \<lparr>su_rounds = rounds, su_rcon = \<lparr>slice = [1, 0, 0, 0, 0, 0, 0, 0]\<rparr>,
                su_pos = 0, su_column = column\<rparr>
      in su_rounds (foldl (AES_setup_step nkeywords) st [nkeywords..<4 * (nrounds + 1)]))"

section \<open>Block encryption and decryption\<close>

definition AES_encrypt :: "AES_state list \<Rightarrow> nat \<Rightarrow> bytes \<Rightarrow> bytes" where
  "AES_encrypt rounds nrounds plain16 =
     (let s = AddRoundKey (LoadBytes zero_state plain16) (rounds ! 0);
          s = foldl (\<lambda>s round. AddRoundKey (MixColumns (ShiftRows (SubBytes s False)) False)
                                 (rounds ! round)) s [1..<nrounds];
          s = AddRoundKey (ShiftRows (SubBytes s False)) (rounds ! nrounds)
      in SaveBytes s)"

text \<open>The pointer \<^verbatim>\<open>rounds\<close> walks down from \<open>nrounds\<close>: iteration \<open>round\<close> uses key \<open>nrounds - round\<close>.\<close>

definition AES_decrypt :: "AES_state list \<Rightarrow> nat \<Rightarrow> bytes \<Rightarrow> bytes" where
  "AES_decrypt rounds nrounds cipher16 =
     (let s = AddRoundKey (LoadBytes zero_state cipher16) (rounds ! nrounds);
          s = foldl (\<lambda>s round. MixColumns (AddRoundKey (SubBytes (InvShiftRows s) True)
                                 (rounds ! (nrounds - round))) True) s [1..<nrounds];
          s = AddRoundKey (SubBytes (InvShiftRows s) True) (rounds ! 0)
      in SaveBytes s)"

text \<open>\<^verbatim>\<open>while (blocks--) { ...; cipher16 += 16; plain16 += 16; }\<close>\<close>

primrec AES_blocks :: "(bytes \<Rightarrow> bytes) \<Rightarrow> nat \<Rightarrow> bytes \<Rightarrow> bytes" where
  "AES_blocks f 0 inp = []"
| "AES_blocks f (Suc blocks) inp = f (take 16 inp) @ AES_blocks f blocks (drop 16 inp)"

definition AES128_init :: "bytes \<Rightarrow> AES128_ctx" where
  "AES128_init key16 = \<lparr>rk128 = AES_setup key16 4 10\<rparr>"

definition AES128_encrypt :: "AES128_ctx \<Rightarrow> nat \<Rightarrow> bytes \<Rightarrow> bytes" where
  "AES128_encrypt ctx blocks plain16 = AES_blocks (AES_encrypt (rk128 ctx) 10) blocks plain16"

definition AES128_decrypt :: "AES128_ctx \<Rightarrow> nat \<Rightarrow> bytes \<Rightarrow> bytes" where
  "AES128_decrypt ctx blocks cipher16 = AES_blocks (AES_decrypt (rk128 ctx) 10) blocks cipher16"

definition AES192_init :: "bytes \<Rightarrow> AES192_ctx" where
  "AES192_init key24 = \<lparr>rk192 = AES_setup key24 6 12\<rparr>"

definition AES192_encrypt :: "AES192_ctx \<Rightarrow> nat \<Rightarrow> bytes \<Rightarrow> bytes" where
  "AES192_encrypt ctx blocks plain16 = AES_blocks (AES_encrypt (rk192 ctx) 12) blocks plain16"

definition AES192_decrypt :: "AES192_ctx \<Rightarrow> nat \<Rightarrow> bytes \<Rightarrow> bytes" where
  "AES192_decrypt ctx blocks cipher16 = AES_blocks (AES_decrypt (rk192 ctx) 12) blocks cipher16"

definition AES256_init :: "bytes \<Rightarrow> AES256_ctx" where
  "AES256_init key32 = \<lparr>rk256 = AES_setup key32 8 14\<rparr>"

definition AES256_encrypt :: "AES256_ctx \<Rightarrow> nat \<Rightarrow> bytes \<Rightarrow> bytes" where
  "AES256_encrypt ctx blocks plain16 = AES_blocks (AES_encrypt (rk256 ctx) 14) blocks plain16"

definition AES256_decrypt :: "AES256_ctx \<Rightarrow> nat \<Rightarrow> bytes \<Rightarrow> bytes" where
  "AES256_decrypt ctx blocks cipher16 = AES_blocks (AES_decrypt (rk256 ctx) 14) blocks cipher16"

section \<open>Notions used in the proofs\<close>

text \<open>
  One bit position of a slice as a one-bit word, the eight bits a state holds at a position, and
  the gate network run on them.
\<close>

definition bit_rel :: "nat \<Rightarrow> u16 \<Rightarrow> 1 word \<Rightarrow> bool" where
  "bit_rel n x y \<longleftrightarrow> y = of_bool (bit x n)"

definition byte_bits :: "u16 list \<Rightarrow> nat \<Rightarrow> 1 word list" where
  "byte_bits xs n = map (\<lambda>x. of_bool (bit x n)) xs"

definition sbox_bits :: "bool \<Rightarrow> 1 word list \<Rightarrow> 1 word list" where
  "sbox_bits is_inv bs = SubBytes_gates is_inv (bs ! 7, bs ! 6, bs ! 5, bs ! 4, bs ! 3, bs ! 2, bs ! 1, bs ! 0)"

text \<open>Well-formed key schedules, and one encryption round with the step that undoes it.\<close>

definition enc_round :: "AES_state list \<Rightarrow> AES_state \<Rightarrow> nat \<Rightarrow> AES_state" where
  "enc_round rounds s round = AddRoundKey (MixColumns (ShiftRows (SubBytes s False)) False) (rounds ! round)"

definition dec_round :: "AES_state list \<Rightarrow> AES_state \<Rightarrow> nat \<Rightarrow> AES_state" where
  "dec_round rounds s round = SubBytes (InvShiftRows (MixColumns (AddRoundKey s (rounds ! round)) True)) True"

definition wf_rounds :: "AES_state list \<Rightarrow> nat \<Rightarrow> bool" where
  "wf_rounds rounds nrounds \<longleftrightarrow> length rounds = nrounds + 1 \<and> list_all wf_state rounds"

definition wf_setup :: "nat \<Rightarrow> setup_state \<Rightarrow> bool" where
  "wf_setup n st \<longleftrightarrow> wf_rounds (su_rounds st) n \<and> wf_state (su_rcon st) \<and> wf_state (su_column st)"

section \<open>The gate network, one bit position at a time\<close>

lemma one_word_cases: "(y :: 1 word) = 0 \<or> y = 1"
  by (cases "bit y 0") (auto intro!: bit_word_eqI simp: bit_1_iff)

lemma one_word_all: "(\<forall>y::1 word. P y) \<longleftrightarrow> P 0 \<and> P 1"
  using one_word_cases by metis

lemma bit_ops:
  "(0::1 word) XOR 0 = 0" "(0::1 word) XOR 1 = 1" "(1::1 word) XOR 0 = 1" "(1::1 word) XOR 1 = 0"
  "(0::1 word) AND 0 = 0" "(0::1 word) AND 1 = 0" "(1::1 word) AND 0 = 0" "(1::1 word) AND 1 = 1"
  "(0::1 word) OR 0 = 0" "(0::1 word) OR 1 = 1" "(1::1 word) OR 0 = 1" "(1::1 word) OR 1 = 1"
  "NOT (0::1 word) = 1" "NOT (1::1 word) = 0"
  by simp_all

lemma Let_bit: "Let (0::1 word) f = f 0" "Let (1::1 word) f = f 1"
  by simp_all

lemma bit_rel_ops:
  assumes "n < 16"
  shows "rel_fun (bit_rel n) (rel_fun (bit_rel n) (bit_rel n)) (XOR) (XOR)"
    and "rel_fun (bit_rel n) (rel_fun (bit_rel n) (bit_rel n)) (AND) (AND)"
    and "rel_fun (bit_rel n) (rel_fun (bit_rel n) (bit_rel n)) (OR) (OR)"
    and "rel_fun (bit_rel n) (bit_rel n) NOT NOT"
  using assms by (simp_all add: rel_fun_def bit_rel_def bit_simps of_bool_def)

lemma SubBytes_gates_rel:
  assumes "n < 16"
  shows "rel_fun (=) (rel_fun (rel_prod (bit_rel n) (rel_prod (bit_rel n) (rel_prod (bit_rel n)
     (rel_prod (bit_rel n) (rel_prod (bit_rel n) (rel_prod (bit_rel n) (rel_prod (bit_rel n)
     (bit_rel n)))))))) (list_all2 (bit_rel n))) SubBytes_gates SubBytes_gates"
proof -
  note [transfer_rule] = bit_rel_ops[OF assms]
  show ?thesis
    unfolding SubBytes_gates_def SubBytes_unprep_def SubBytes_nonlin_def SubBytes_unpost_def
      SubBytes_post_def SubBytes_prep_def
    by transfer_prover
qed

lemma byte_bits_SubBytes:
  assumes "wf_state s" "n < 16"
  shows "byte_bits (slice (SubBytes s is_inv)) n = sbox_bits is_inv (byte_bits (slice s) n)"
proof -
  let ?b = "\<lambda>i. of_bool (bit (slice s ! i) n) :: 1 word"
  have "list_all2 (bit_rel n) (slice (SubBytes s is_inv))
      (SubBytes_gates is_inv (?b 7, ?b 6, ?b 5, ?b 4, ?b 3, ?b 2, ?b 1, ?b 0))"
    using SubBytes_gates_rel[OF assms(2), unfolded rel_fun_def, rule_format, OF refl[of is_inv], of
       "(slice s ! 7, slice s ! 6, slice s ! 5, slice s ! 4, slice s ! 3, slice s ! 2, slice s ! 1, slice s ! 0)"]
    by (simp add: SubBytes_def bit_rel_def Let_def)
  then have "SubBytes_gates is_inv (?b 7, ?b 6, ?b 5, ?b 4, ?b 3, ?b 2, ?b 1, ?b 0) = byte_bits (slice (SubBytes s is_inv)) n"
    unfolding byte_bits_def by (induction rule: list_all2_induct) (simp_all add: bit_rel_def)
  then show ?thesis
    using assms(1) by (simp add: sbox_bits_def byte_bits_def wf_state_def)
qed

lemmas gates_eval = SubBytes_unprep_def SubBytes_nonlin_def SubBytes_unpost_def SubBytes_post_def
  SubBytes_prep_def prod.case Let_bit bit_ops

lemma SubBytes_gates_split:
  "SubBytes_gates False U = SubBytes_post (SubBytes_nonlin (SubBytes_prep U))"
  "SubBytes_gates True U = SubBytes_unprep (SubBytes_nonlin (SubBytes_unpost U))"
  by (simp_all add: SubBytes_gates_def)

lemma sbox_bits_list:
  "sbox_bits is_inv [h, g, f, e, d, c, b, a] = SubBytes_gates is_inv (a, b, c, d, e, f, g, h)"
  by (simp add: sbox_bits_def)

lemma sbox_bits_inverse8:
  "\<forall>a b c d e f g h. sbox_bits True (sbox_bits False [h, g, f, e, d, c, b, a]) = [h, g, f, e, d, c, b, a]"
  unfolding one_word_all
  by (simp only: sbox_bits_list SubBytes_gates_split gates_eval simp_thms cong: let_weak_cong)

lemma length_SubBytes_gates [simp, shape]: "length (SubBytes_gates is_inv U) = 8"
  by (simp add: SubBytes_gates_def SubBytes_unprep_def SubBytes_post_def Let_def split: prod.split)

lemma slices_eqI:
  assumes "length xs = 8" "length ys = 8" "\<And>n. n < 16 \<Longrightarrow> byte_bits xs n = byte_bits ys n"
  shows "xs = ys"
proof (rule nth_equalityI)
  show "length xs = length ys" using assms by simp
  fix i assume i: "i < length xs"
  show "xs ! i = ys ! i"
  proof (rule bit_word_eqI)
    fix n assume "n < LENGTH(16)"
    then have "byte_bits xs n ! i = byte_bits ys n ! i" using assms(3)[of n] by simp
    then show "bit (xs ! i) n = bit (ys ! i) n"
      using i assms(1,2) by (simp add: byte_bits_def of_bool_eq_iff)
  qed
qed

lemma wf_SubBytes [simp, shape]: "wf_state (SubBytes s is_inv)"
  by (simp add: wf_state_def SubBytes_def Let_def)

lemma SubBytes_inverse:
  assumes "wf_state s"
  shows "SubBytes (SubBytes s False) True = s"
proof -
  have "slice (SubBytes (SubBytes s False) True) = slice s"
  proof (rule slices_eqI)
    fix n :: nat assume n: "n < 16"
    have "length (byte_bits (slice s) n) = 8" using assms by (simp add: byte_bits_def wf_state_def)
    then obtain h g f e d c b a where "byte_bits (slice s) n = [h, g, f, e, d, c, b, a]"
      by (rule list8_cases)
    then show "byte_bits (slice (SubBytes (SubBytes s False) True)) n = byte_bits (slice s) n"
      using n assms sbox_bits_inverse8 by (simp add: byte_bits_SubBytes)
  qed (use assms in \<open>simp_all add: wf_state_def SubBytes_def Let_def\<close>)
  then show ?thesis by (simp add: SubBytes_def Let_def)
qed

section \<open>Rows and columns\<close>

lemma bit_BIT_RANGE: "to \<le> 16 \<Longrightarrow> bit (BIT_RANGE from to) n \<longleftrightarrow> from \<le> n \<and> n < to"
  by (auto simp: less_diff_conv2 BIT_RANGE_def push_bit_of_1 bit_push_bit_iff bit_mask_iff simp flip: mask_eq_exp_minus_1)

lemma all_lt16:
  "(\<forall>n<16. P n) \<longleftrightarrow> P 0 \<and> P 1 \<and> P 2 \<and> P 3 \<and> P 4 \<and> P 5 \<and> P 6 \<and> P 7 \<and> P 8 \<and> P 9 \<and>
     P 10 \<and> P 11 \<and> P 12 \<and> P 13 \<and> P 14 \<and> P (15::nat)"
  by (auto simp: All_less_Suc numeral_eq_Suc)

lemma bit_BIT_RANGE_LEFT:
  "to \<le> 16 \<Longrightarrow> bit (BIT_RANGE_LEFT x from to k) n \<longleftrightarrow> k \<le> n \<and> n < 16 \<and> bit x (n - k) \<and> from \<le> n - k \<and> n - k < to"
  by (auto simp: BIT_RANGE_LEFT_def bit_simps bit_BIT_RANGE)

lemma bit_BIT_RANGE_RIGHT:
  "to \<le> 16 \<Longrightarrow> bit (BIT_RANGE_RIGHT x from to k) n \<longleftrightarrow> bit x (n + k) \<and> from \<le> n + k \<and> n + k < to"
  by (auto simp: BIT_RANGE_RIGHT_def bit_simps bit_BIT_RANGE add.commute)

lemmas bit_range_simps = bit_BIT_RANGE bit_BIT_RANGE_LEFT bit_BIT_RANGE_RIGHT bit_or_iff bit_and_iff

lemma bit_ShiftRows_slice:
  "\<forall>n<16. bit (ShiftRows_slice v) n \<longleftrightarrow> bit v (4 * (n div 4) + (n mod 4 + n div 4) mod 4)"
  unfolding all_lt16 by (simp add: ShiftRows_slice_def bit_range_simps flip: numeral_2_eq_2)

lemma bit_InvShiftRows_slice:
  "\<forall>n<16. bit (InvShiftRows_slice v) n \<longleftrightarrow> bit v (4 * (n div 4) + (n mod 4 + 4 - n div 4) mod 4)"
  unfolding all_lt16 by (simp add: InvShiftRows_slice_def bit_range_simps flip: numeral_2_eq_2)

lemma InvShiftRows_slice_inverse: "InvShiftRows_slice (ShiftRows_slice v) = v"
proof -
  have "\<forall>n<16. bit (InvShiftRows_slice (ShiftRows_slice v)) n = bit v n"
    using bit_InvShiftRows_slice[of "ShiftRows_slice v"] bit_ShiftRows_slice[of v]
    unfolding all_lt16 by (simp flip: numeral_2_eq_2)
  then show ?thesis by (intro bit_word_eqI) simp
qed

lemma ShiftRows_inverse: "InvShiftRows (ShiftRows s) = s"
  by (simp add: ShiftRows_def InvShiftRows_def InvShiftRows_slice_inverse comp_def)

lemma bit_ROT:
  assumes "n < 16" "0 < b" "b < 4"
  shows "bit (ROT x b) n \<longleftrightarrow> bit x ((n + 4 * b) mod 16)"
proof (cases "n + 4 * b < 16")
  case True
  then have "\<not> (4 - b) * 4 \<le> n" using assms by simp
  with True show ?thesis using assms by (simp add: ROT_def bit_simps mult.commute add.commute)
next
  case False
  then have "(n + 4 * b) mod 16 = n + 4 * b - 16" using assms by (simp add: mod_if)
  moreover have "\<not> bit x (n + 4 * b)"
    using False bit_imp_le_length[of x "n + 4 * b"] by auto
  moreover have "n + 4 * b - 16 = n - (4 - b) * 4" using assms by simp
  moreover have "(4 - b) * 4 \<le> n" using assms False by simp
  ultimately show ?thesis using assms False
    by (simp add: ROT_def bit_simps mult.commute add.commute)
qed

lemma ROT_xor: "0 < b \<Longrightarrow> b < 4 \<Longrightarrow> ROT (x XOR y) b = ROT x b XOR ROT y b"
  by (rule bit_word_eqI) (simp add: bit_ROT bit_xor_iff)

lemma ROT_ROT:
  assumes "0 < a" "a < 4" "0 < b" "b < 4"
  shows "ROT (ROT x a) b = (if a + b = 4 then x else ROT x ((a + b) mod 4))"
proof (rule bit_word_eqI)
  fix n assume "n < LENGTH(16)"
  then have n: "n < 16" by simp
  have "4 * ((a + b) mod 4) = 4 * (a + b) mod 16" by (simp add: mult_mod_right)
  then have "((n + 4 * b) mod 16 + 4 * a) mod 16 = (n + 4 * ((a + b) mod 4)) mod 16"
    by (simp add: mod_add_left_eq mod_add_right_eq) (simp add: algebra_simps)
  moreover have "(a + b) mod 4 = 0 \<longleftrightarrow> a + b = 4" using assms by (auto simp: mod_if)
  ultimately show "bit (ROT (ROT x a) b) n = bit (if a + b = 4 then x else ROT x ((a + b) mod 4)) n"
    using n assms by (auto simp: bit_ROT)
qed

lemma ROT_ROT_table:
  "ROT (ROT x (Suc 0)) (Suc 0) = ROT x 2" "ROT (ROT x (Suc 0)) 2 = ROT x 3" "ROT (ROT x (Suc 0)) 3 = x"
  "ROT (ROT x 2) (Suc 0) = ROT x 3" "ROT (ROT x 2) 2 = x" "ROT (ROT x 2) 3 = ROT x (Suc 0)"
  "ROT (ROT x 3) (Suc 0) = x" "ROT (ROT x 3) 2 = ROT x (Suc 0)" "ROT (ROT x 3) 3 = ROT x 2"
  by (simp_all add: ROT_ROT flip: numeral_2_eq_2)

lemma xor_cancel: "(a::u16) XOR (a XOR b) = b"
  by (simp flip: xor.assoc)

lemmas xor_norm = xor.assoc xor.commute xor.left_commute xor_self_eq xor_cancel

lemma MixColumns_inverse:
  assumes "wf_state s"
  shows "MixColumns (MixColumns s False) True = s"
proof -
  from assms have "length (slice s) = 8" by (simp add: wf_state_def)
  then obtain a b c d e f g h where s: "slice s = [a, b, c, d, e, f, g, h]"
    by (rule list8_cases)
  show ?thesis
    by (rule AES_state.equality)
      (simp_all add: MixColumns_def MixColumns_inv_part_def s Let_def ROT_xor ROT_ROT_table xor_norm)
qed

lemma AddRoundKey_inverse:
  assumes "wf_state s" "wf_state k"
  shows "AddRoundKey (AddRoundKey s k) k = s"
proof -
  obtain a b c d e f g h where s: "slice s = [a, b, c, d, e, f, g, h]"
    using assms by (auto simp: wf_state_def elim: list8_cases)
  obtain a' b' c' d' e' f' g' h' where k: "slice k = [a', b', c', d', e', f', g', h']"
    using assms by (auto simp: wf_state_def elim: list8_cases)
  show ?thesis
    by (rule AES_state.equality) (simp_all add: AddRoundKey_def s k xor_norm)
qed

lemma foldl_invariant:
  assumes "I s" "\<And>s x. x \<in> set xs \<Longrightarrow> I s \<Longrightarrow> I (f s x)"
  shows "I (foldl f s xs)"
  using assms by (induction xs arbitrary: s) auto

section \<open>Shapes\<close>

lemma length_LoadByte_loop [simp, shape]: "length (LoadByte_loop xs byte r c) = length xs"
  by (induction xs arbitrary: byte) auto

lemma wf_zero_state [simp, shape]: "wf_state zero_state"
  by (simp add: wf_state_def zero_state_def)

lemma wf_LoadByte [simp, shape]: "wf_state (LoadByte s b r c) = wf_state s"
  by (simp add: wf_state_def LoadByte_def)

lemma wf_LoadBytes [simp, shape]: "wf_state s \<Longrightarrow> wf_state (LoadBytes s d)"
  unfolding LoadBytes_def
  by (rule foldl_invariant[where I = wf_state], assumption, rule foldl_invariant[where I = wf_state])
    simp_all

lemma wf_ShiftRows [simp, shape]: "wf_state (ShiftRows s) = wf_state s"
  by (simp add: wf_state_def ShiftRows_def)

lemma wf_InvShiftRows [simp, shape]: "wf_state (InvShiftRows s) = wf_state s"
  by (simp add: wf_state_def InvShiftRows_def)

lemma wf_MixColumns [simp, shape]: "wf_state (MixColumns s is_inv)"
  by (simp add: wf_state_def MixColumns_def MixColumns_inv_part_def Let_def)

lemma wf_AddRoundKey [simp, shape]: "wf_state s \<Longrightarrow> wf_state k \<Longrightarrow> wf_state (AddRoundKey s k)"
  by (simp add: wf_state_def AddRoundKey_def)

section \<open>Loading and saving are inverse\<close>

lemma bit_LoadByte_loop:
  assumes "i < length xs" "length xs \<le> 8" "r < 4" "c < 4" "n < 16"
  shows "bit (LoadByte_loop xs byte r c ! i) n \<longleftrightarrow> bit (xs ! i) n \<or> n = r * 4 + c \<and> bit byte i"
  using assms
proof (induction xs arbitrary: byte i)
  case Nil
  then show ?case by simp
next
  case (Cons x xs)
  show ?case
  proof (cases i)
    case 0
    then show ?thesis using Cons.prems
      by (auto simp: bit_simps bit_1_iff)
  next
    case (Suc j)
    then show ?thesis using Cons by (simp add: bit_drop_bit_eq)
  qed
qed

lemma bit_LoadByte:
  assumes "wf_state s" "i < 8" "r < 4" "c < 4" "n < 16"
  shows "bit (slice (LoadByte s byte r c) ! i) n \<longleftrightarrow> bit (slice s ! i) n \<or> n = r * 4 + c \<and> bit byte i"
  using assms by (simp add: LoadByte_def bit_LoadByte_loop wf_state_def)

lemma upt_0_4: "[0..<4] = [0, 1, 2, 3]"
  by (simp add: upt_rec numeral_eq_Suc)

lemma length_SaveBytes [simp, shape]: "length (SaveBytes s) = 16"
  by (simp add: SaveBytes_def upt_0_4)

lemma upt_0_8: "[0..<8] = [0, 1, 2, 3, 4, 5, 6, 7]"
  by (simp add: upt_rec numeral_eq_Suc)

lemma bit_LoadBytes:
  assumes "wf_state s" "i < 8"
  shows "\<forall>n<16. bit (slice (LoadBytes s d) ! i) n \<longleftrightarrow> bit (slice s ! i) n \<or> bit (d ! (4 * (n mod 4) + n div 4)) i"
  using assms unfolding all_lt16 LoadBytes_def upt_0_4 foldl.simps
  by (simp add: bit_LoadByte)

lemma all_lt8: "(\<forall>i<8. P i) \<longleftrightarrow> P 0 \<and> P 1 \<and> P 2 \<and> P 3 \<and> P 4 \<and> P 5 \<and> P 6 \<and> P (7::nat)"
  by (auto simp: All_less_Suc numeral_eq_Suc)

lemma bit_put:
  "bit (push_bit k (ucast (drop_bit m (x::u16) AND 1) :: u8)) i \<longleftrightarrow> i < 8 \<and> i = k \<and> bit x m"
  by (auto simp: bit_simps bit_1_iff)

lemma bit_SaveByte_all: "\<forall>i<8. bit (SaveByte s r c) i \<longleftrightarrow> bit (slice s ! i) (r * 4 + c)"
  unfolding SaveByte_def upt_0_8 foldl.simps all_lt8 by (simp only: bit_or_iff bit_put) simp

lemma bit_SaveByte: "i < 8 \<Longrightarrow> bit (SaveByte s r c) i \<longleftrightarrow> bit (slice s ! i) (r * 4 + c)"
  using bit_SaveByte_all by blast

lemma nth_SaveBytes:
  assumes "r < 4" "c < 4"
  shows "SaveBytes s ! (4 * c + r) = SaveByte s r c"
proof -
  have "r \<in> set [0..<4]" "c \<in> set [0..<4]" using assms by auto
  then show ?thesis unfolding SaveBytes_def upt_0_4 by auto
qed

lemma SaveByte_LoadBytes:
  assumes "length d = 16" "r < 4" "c < 4"
  shows "SaveByte (LoadBytes zero_state d) r c = d ! (4 * c + r)"
proof (rule bit_word_eqI)
  fix i assume "i < LENGTH(8)"
  then have i: "i < 8" by simp
  have "r * 4 + c < 16" "(r * 4 + c) mod 4 = c" "(r * 4 + c) div 4 = r" using assms by auto
  with i show "bit (SaveByte (LoadBytes zero_state d) r c) i = bit (d ! (4 * c + r)) i"
    using bit_LoadBytes[OF wf_zero_state i, of d, rule_format, of "r * 4 + c"]
    by (simp add: bit_SaveByte zero_state_def)
qed

lemma Save_Load:
  assumes "length d = 16"
  shows "SaveBytes (LoadBytes zero_state d) = d"
proof (rule nth_equalityI)
  fix k assume "k < length (SaveBytes (LoadBytes zero_state d))"
  then have k: "k < 16" by (simp add: shape)
  have "k = 4 * (k div 4) + k mod 4" by simp
  then show "SaveBytes (LoadBytes zero_state d) ! k = d ! k"
    using nth_SaveBytes[of "k mod 4" "k div 4" "LoadBytes zero_state d"] k
      SaveByte_LoadBytes[OF assms, of "k mod 4" "k div 4"] by simp
qed (simp add: assms)

lemma wf_state_eqI:
  assumes "wf_state s" "wf_state t" "\<And>i n. i < 8 \<Longrightarrow> n < 16 \<Longrightarrow> bit (slice s ! i) n = bit (slice t ! i) n"
  shows "s = t"
proof -
  have "slice s = slice t"
    by (rule nth_equalityI) (use assms in \<open>auto simp: wf_state_def intro: bit_word_eqI\<close>)
  then show ?thesis by (simp add: AES_state.equality)
qed

lemma Load_Save:
  assumes "wf_state s"
  shows "LoadBytes zero_state (SaveBytes s) = s"
proof (rule wf_state_eqI)
  fix i n :: nat assume i: "i < 8" and n: "n < 16"
  have "SaveBytes s ! (4 * (n mod 4) + n div 4) = SaveByte s (n div 4) (n mod 4)"
    using n by (intro nth_SaveBytes) auto
  then show "bit (slice (LoadBytes zero_state (SaveBytes s)) ! i) n = bit (slice s ! i) n"
    using bit_LoadBytes[OF wf_zero_state i, of "SaveBytes s", rule_format, OF n] i
    by (simp add: bit_SaveByte zero_state_def)
qed (simp_all add: assms)

section \<open>Decryption inverts encryption\<close>

lemma wf_rounds_nth [simp]: "wf_rounds rounds nrounds \<Longrightarrow> i \<le> nrounds \<Longrightarrow> wf_state (rounds ! i)"
  by (simp add: wf_rounds_def list_all_length)

lemma dec_enc_round:
  assumes "wf_state s" "wf_state (rounds ! k)"
  shows "dec_round rounds (enc_round rounds s k) k = s"
  using assms by (simp add: dec_round_def enc_round_def AddRoundKey_inverse MixColumns_inverse
      ShiftRows_inverse SubBytes_inverse)

lemma dec_rounds_enc_rounds:
  assumes "wf_state s" "\<forall>k\<in>set ks. wf_state (rounds ! k)"
  shows "foldl (dec_round rounds) (foldl (enc_round rounds) s ks) (rev ks) = s"
  using assms
proof (induction ks arbitrary: s)
  case Nil
  then show ?case by simp
next
  case (Cons k ks)
  have "wf_state (enc_round rounds s k)" using Cons.prems by (simp add: enc_round_def)
  with Cons have "foldl (dec_round rounds) (foldl (enc_round rounds) (enc_round rounds s k) ks) (rev ks) = enc_round rounds s k"
    by simp
  then show ?case using Cons.prems by (simp add: dec_enc_round)
qed

text \<open>The decryption loop, with its two halves regrouped around the loop boundary.\<close>

lemma dec_loop_regroup:
  "SubBytes (InvShiftRows
      (foldl (\<lambda>s round. MixColumns (AddRoundKey (SubBytes (InvShiftRows s) True) (K round)) True) t ks)) True =
   foldl (\<lambda>s round. SubBytes (InvShiftRows (MixColumns (AddRoundKey s (K round)) True)) True)
     (SubBytes (InvShiftRows t) True) ks"
  by (induction ks arbitrary: t) simp_all

lemma foldl_cong_map: "foldl f s (map g xs) = foldl (\<lambda>s x. f s (g x)) s xs"
  by (induction xs arbitrary: s) simp_all

lemma rev_upt_map: "rev [1..<n] = map (\<lambda>k. n - k) [1..<n]"
  by (rule nth_equalityI) (auto simp: rev_nth)

lemma AES_decrypt_encrypt:
  assumes rk: "wf_rounds rounds nrounds" and p: "length plain16 = 16"
  shows "AES_decrypt rounds nrounds (AES_encrypt rounds nrounds plain16) = plain16"
proof -
  define s0 where "s0 = AddRoundKey (LoadBytes zero_state plain16) (rounds ! 0)"
  define s1 where "s1 = foldl (enc_round rounds) s0 [1..<nrounds]"
  define s2 where "s2 = AddRoundKey (ShiftRows (SubBytes s1 False)) (rounds ! nrounds)"
  have wf0: "wf_state s0" using rk by (simp add: s0_def)
  have wf1: "wf_state s1"
    unfolding s1_def using rk wf0
    by (intro foldl_invariant[where I = wf_state]) (simp_all add: enc_round_def)
  have wf2: "wf_state s2" using rk wf1 by (simp add: s2_def)
  have enc: "AES_encrypt rounds nrounds plain16 = SaveBytes s2"
    by (simp add: AES_encrypt_def s0_def s1_def s2_def enc_round_def[abs_def] Let_def)
  have "foldl (dec_round rounds) s1 (rev [1..<nrounds]) = s0"
    unfolding s1_def using wf0 rk by (intro dec_rounds_enc_rounds) auto
  then have loop: "foldl (\<lambda>s round. SubBytes (InvShiftRows (MixColumns (AddRoundKey s (rounds ! (nrounds - round))) True)) True) s1 [1..<nrounds] = s0"
    unfolding rev_upt_map foldl_cong_map dec_round_def[abs_def] .
  have first: "SubBytes (InvShiftRows (AddRoundKey s2 (rounds ! nrounds))) True = s1"
    using wf1 rk by (simp add: s2_def AddRoundKey_inverse ShiftRows_inverse SubBytes_inverse)
  have "AES_decrypt rounds nrounds (SaveBytes s2) = SaveBytes (AddRoundKey s0 (rounds ! 0))"
    using wf2 by (simp add: AES_decrypt_def Let_def Load_Save dec_loop_regroup first loop[simplified])
  also have "AddRoundKey s0 (rounds ! 0) = LoadBytes zero_state plain16"
    using rk by (simp add: s0_def AddRoundKey_inverse)
  finally show ?thesis using enc p by (simp add: Save_Load)
qed

section \<open>The key schedule yields well-formed round keys\<close>

lemma wf_setup_load:
  assumes "list_all wf_state rounds"
  shows "list_all wf_state (AES_setup_load rounds key n) \<and> length (AES_setup_load rounds key n) = length rounds"
proof -
  let ?I = "\<lambda>rs. list_all wf_state rs \<and> length rs = length rounds"
  have upd: "?I (rs[i := LoadByte (rs ! i) b r c])" if "?I rs" for rs i b r c
    using that by (cases "i < length rs") (auto simp: list_all_length nth_list_update)
  show ?thesis
    unfolding AES_setup_load_def
    by (rule foldl_invariant[where I = ?I]) (use assms upd in \<open>auto intro!: foldl_invariant[where I = ?I]\<close>)
qed

lemma wf_AES_setup_step:
  assumes "wf_setup nrounds st" "i < 4 * (nrounds + 1)"
  shows "wf_setup nrounds (AES_setup_step nkeywords st i)"
proof -
  have k: "i div 4 \<le> nrounds" "(i - nkeywords) div 4 \<le> nrounds" using assms(2) by auto
  have len: "length (slice (su_rounds st ! (i div 4))) = 8"
    "length (slice (su_rounds st ! ((i - nkeywords) div 4))) = 8"
    using assms(1) k by (auto simp: wf_setup_def wf_rounds_def list_all_length wf_state_def)
  show ?thesis
    using assms(1) len k
    by (auto simp: AES_setup_step_def wf_setup_def wf_rounds_def Let_def KeySetupColumnMix_def
        KeySetupTransform_def MultX_def wf_state_def SubBytes_def list_all_length nth_list_update)
qed

lemma wf_AES_setup:
  assumes "0 < nkeywords" "nkeywords \<le> 4 * (nrounds + 1)"
  shows "wf_rounds (AES_setup key nkeywords nrounds) nrounds"
proof -
  let ?r = "AES_setup_load (replicate (nrounds + 1) zero_state) key nkeywords"
  have r: "list_all wf_state ?r" "length ?r = nrounds + 1"
    using wf_setup_load[of "replicate (nrounds + 1) zero_state" key nkeywords]
    by (simp_all add: list_all_iff)
  have "(nkeywords - 1) div 4 < nrounds + 1" using assms by auto
  then have "length (slice (?r ! ((nkeywords - 1) div 4))) = 8"
    using r by (simp add: list_all_length wf_state_def)
  then have "wf_setup nrounds \<lparr>su_rounds = ?r, su_rcon = \<lparr>slice = [1, 0, 0, 0, 0, 0, 0, 0]\<rparr>,
      su_pos = 0, su_column = GetOneColumn (?r ! ((nkeywords - 1) div 4)) ((nkeywords - 1) mod 4)\<rparr>"
    using r by (simp add: wf_setup_def wf_rounds_def GetOneColumn_def wf_state_def)
  then have "wf_setup nrounds (foldl (AES_setup_step nkeywords) \<lparr>su_rounds = ?r, su_rcon = \<lparr>slice = [1, 0, 0, 0, 0, 0, 0, 0]\<rparr>,
      su_pos = 0, su_column = GetOneColumn (?r ! ((nkeywords - 1) div 4)) ((nkeywords - 1) mod 4)\<rparr> [nkeywords..<4 * (nrounds + 1)])"
    by (rule foldl_invariant[where I = "wf_setup nrounds"]) (auto intro: wf_AES_setup_step)
  then show ?thesis by (simp add: AES_setup_def Let_def wf_setup_def)
qed

lemma AES_blocks_inverse:
  assumes "\<And>b. length b = 16 \<Longrightarrow> length (f b) = 16 \<and> g (f b) = b" "length inp = 16 * blocks"
  shows "AES_blocks g blocks (AES_blocks f blocks inp) = inp"
  using assms(2)
proof (induction blocks arbitrary: inp)
  case 0
  then show ?case by simp
next
  case (Suc n)
  have "length (f (take 16 inp)) = 16" "g (f (take 16 inp)) = take 16 inp"
    using assms(1)[of "take 16 inp"] Suc.prems by auto
  then show ?case using Suc by simp
qed

end
