(* ===== verification/CtAes_Fips.thy ===== *)
theory CtAes_Fips
  imports CtAes
begin

unbundle bit_operations_syntax

text \<open>
  The byte-oriented AES of FIPS 197 as a reference (substitution box, row shift, column mixing,
  key expansion), and the refinement: the bit-sliced code of theory \<open>CtAes\<close> computes it.  A
  state is related to a matrix of bytes by \<open>cells_eq\<close>; word \<open>j\<close> of the key schedule sits in
  column \<open>j mod 4\<close> of round key \<open>j div 4\<close> (\<open>sched_cell\<close>).
\<close>

section \<open>The reference cipher\<close>

definition fips_sbox :: "u8 list list" where
  "fips_sbox =
    [[0x63, 0x7c, 0x77, 0x7b, 0xf2, 0x6b, 0x6f, 0xc5, 0x30, 0x01, 0x67, 0x2b, 0xfe, 0xd7, 0xab, 0x76],
     [0xca, 0x82, 0xc9, 0x7d, 0xfa, 0x59, 0x47, 0xf0, 0xad, 0xd4, 0xa2, 0xaf, 0x9c, 0xa4, 0x72, 0xc0],
     [0xb7, 0xfd, 0x93, 0x26, 0x36, 0x3f, 0xf7, 0xcc, 0x34, 0xa5, 0xe5, 0xf1, 0x71, 0xd8, 0x31, 0x15],
     [0x04, 0xc7, 0x23, 0xc3, 0x18, 0x96, 0x05, 0x9a, 0x07, 0x12, 0x80, 0xe2, 0xeb, 0x27, 0xb2, 0x75],
     [0x09, 0x83, 0x2c, 0x1a, 0x1b, 0x6e, 0x5a, 0xa0, 0x52, 0x3b, 0xd6, 0xb3, 0x29, 0xe3, 0x2f, 0x84],
     [0x53, 0xd1, 0x00, 0xed, 0x20, 0xfc, 0xb1, 0x5b, 0x6a, 0xcb, 0xbe, 0x39, 0x4a, 0x4c, 0x58, 0xcf],
     [0xd0, 0xef, 0xaa, 0xfb, 0x43, 0x4d, 0x33, 0x85, 0x45, 0xf9, 0x02, 0x7f, 0x50, 0x3c, 0x9f, 0xa8],
     [0x51, 0xa3, 0x40, 0x8f, 0x92, 0x9d, 0x38, 0xf5, 0xbc, 0xb6, 0xda, 0x21, 0x10, 0xff, 0xf3, 0xd2],
     [0xcd, 0x0c, 0x13, 0xec, 0x5f, 0x97, 0x44, 0x17, 0xc4, 0xa7, 0x7e, 0x3d, 0x64, 0x5d, 0x19, 0x73],
     [0x60, 0x81, 0x4f, 0xdc, 0x22, 0x2a, 0x90, 0x88, 0x46, 0xee, 0xb8, 0x14, 0xde, 0x5e, 0x0b, 0xdb],
     [0xe0, 0x32, 0x3a, 0x0a, 0x49, 0x06, 0x24, 0x5c, 0xc2, 0xd3, 0xac, 0x62, 0x91, 0x95, 0xe4, 0x79],
     [0xe7, 0xc8, 0x37, 0x6d, 0x8d, 0xd5, 0x4e, 0xa9, 0x6c, 0x56, 0xf4, 0xea, 0x65, 0x7a, 0xae, 0x08],
     [0xba, 0x78, 0x25, 0x2e, 0x1c, 0xa6, 0xb4, 0xc6, 0xe8, 0xdd, 0x74, 0x1f, 0x4b, 0xbd, 0x8b, 0x8a],
     [0x70, 0x3e, 0xb5, 0x66, 0x48, 0x03, 0xf6, 0x0e, 0x61, 0x35, 0x57, 0xb9, 0x86, 0xc1, 0x1d, 0x9e],
     [0xe1, 0xf8, 0x98, 0x11, 0x69, 0xd9, 0x8e, 0x94, 0x9b, 0x1e, 0x87, 0xe9, 0xce, 0x55, 0x28, 0xdf],
     [0x8c, 0xa1, 0x89, 0x0d, 0xbf, 0xe6, 0x42, 0x68, 0x41, 0x99, 0x2d, 0x0f, 0xb0, 0x54, 0xbb, 0x16]]"

type_synonym matrix = "nat \<Rightarrow> nat \<Rightarrow> u8"

definition fips_S :: "u8 \<Rightarrow> u8" where
  "fips_S b = fips_sbox ! (unat b div 16) ! (unat b mod 16)"

definition fips_xtime :: "u8 \<Rightarrow> u8" where
  "fips_xtime b = push_bit 1 b XOR (if bit b 7 then 0x1b else 0)"

definition fips_SubBytes :: "matrix \<Rightarrow> matrix" where
  "fips_SubBytes m = (\<lambda>r c. fips_S (m r c))"

definition fips_ShiftRows :: "matrix \<Rightarrow> matrix" where
  "fips_ShiftRows m = (\<lambda>r c. m r ((c + r) mod 4))"

definition fips_MixColumns :: "matrix \<Rightarrow> matrix" where
  "fips_MixColumns m = (\<lambda>r c. fips_xtime (m r c) XOR
     (fips_xtime (m ((r + 1) mod 4) c) XOR m ((r + 1) mod 4) c) XOR
     m ((r + 2) mod 4) c XOR m ((r + 3) mod 4) c)"

definition fips_AddRoundKey :: "matrix \<Rightarrow> matrix \<Rightarrow> matrix" where
  "fips_AddRoundKey m k = (\<lambda>r c. m r c XOR k r c)"

definition fips_Cipher :: "(nat \<Rightarrow> matrix) \<Rightarrow> nat \<Rightarrow> bytes \<Rightarrow> bytes" where
  "fips_Cipher w Nr inp =
     (let m = fips_AddRoundKey (\<lambda>r c. inp ! (r + 4 * c)) (w 0);
          m = foldl (\<lambda>m i. fips_AddRoundKey (fips_MixColumns (fips_ShiftRows (fips_SubBytes m))) (w i)) m [1..<Nr];
          m = fips_AddRoundKey (fips_ShiftRows (fips_SubBytes m)) (w Nr)
      in concat (map (\<lambda>c. map (\<lambda>r. m r c) [0..<4]) [0..<4]))"

definition fips_rcon :: "nat \<Rightarrow> u8" where
  "fips_rcon k = (fips_xtime ^^ (k - 1)) 1"

text \<open>Row \<open>r\<close> of word \<open>i\<close> of the key expansion with \<open>Nk\<close> key words.\<close>

function fips_word :: "bytes \<Rightarrow> nat \<Rightarrow> nat \<Rightarrow> nat \<Rightarrow> u8" where
  "fips_word key Nk i r =
     (if i < Nk \<or> Nk = 0 then key ! (4 * i + r)
      else fips_word key Nk (i - Nk) r XOR
        (if i mod Nk = 0
         then fips_S (fips_word key Nk (i - 1) ((r + 1) mod 4)) XOR (if r = 0 then fips_rcon (i div Nk) else 0)
         else if Nk > 6 \<and> i mod Nk = 4 then fips_S (fips_word key Nk (i - 1) r)
         else fips_word key Nk (i - 1) r))"
  by pat_completeness auto
termination
  by (relation "measure (\<lambda>(key, Nk, i, r). i)") auto

declare fips_word.simps [simp del]

text \<open>The whole cipher: the round keys are four consecutive words of the expansion.\<close>

definition fips_AES :: "nat \<Rightarrow> nat \<Rightarrow> bytes \<Rightarrow> bytes \<Rightarrow> bytes" where
  "fips_AES Nk Nr key inp = fips_Cipher (\<lambda>i r c. fips_word key Nk (4 * i + c) r) Nr inp"

section \<open>Notions used in the proofs\<close>

definition nibble :: "1 word \<Rightarrow> 1 word \<Rightarrow> 1 word \<Rightarrow> 1 word \<Rightarrow> nat" where
  "nibble a b c d = (if a = 1 then 8 else 0) + (if b = 1 then 4 else 0) + (if c = 1 then 2 else 0) + (if d = 1 then 1 else 0)"

definition bits8 :: "u8 \<Rightarrow> 1 word list" where
  "bits8 b = map (\<lambda>i. of_bool (bit b i)) [0..<8]"

definition cells_eq :: "AES_state \<Rightarrow> matrix \<Rightarrow> bool" where
  "cells_eq s m \<longleftrightarrow> wf_state s \<and> (\<forall>r<4. \<forall>c<4. SaveByte s r c = m r c)"

definition sched_cell :: "AES_state list \<Rightarrow> nat \<Rightarrow> nat \<Rightarrow> u8" where
  "sched_cell rounds j r = SaveByte (rounds ! (j div 4)) r (j mod 4)"

text \<open>The invariant of the expansion loop before it generates word \<open>i\<close>, and the column it then mixes in.\<close>

definition setup_inv :: "bytes \<Rightarrow> nat \<Rightarrow> nat \<Rightarrow> nat \<Rightarrow> setup_state \<Rightarrow> bool" where
  "setup_inv key Nk n i st \<longleftrightarrow> wf_setup n st \<and> su_pos st = i mod Nk \<and>
     (\<forall>r<4. SaveByte (su_column st) r 0 = fips_word key Nk (i - 1) r) \<and>
     (\<forall>r<4. SaveByte (su_rcon st) r 0 = (if r = 0 then fips_rcon ((i + Nk - 1) div Nk) else 0)) \<and>
     (\<forall>j<4 * (n + 1). \<forall>r<4. sched_cell (su_rounds st) j r = (if j < i then fips_word key Nk j r else 0))"

definition setup_temp :: "nat \<Rightarrow> setup_state \<Rightarrow> AES_state" where
  "setup_temp Nk st =
     (if su_pos st = 0 then KeySetupTransform (SubBytes (su_column st) False) (su_rcon st)
      else if Nk > 6 \<and> su_pos st = 4 then SubBytes (su_column st) False else su_column st)"

section \<open>One round\<close>

lemma nibble_eval:
  "nibble 0 0 0 0 = 0" "nibble 0 0 0 1 = 1" "nibble 0 0 1 0 = 2" "nibble 0 0 1 1 = 3"
  "nibble 0 1 0 0 = 4" "nibble 0 1 0 1 = 5" "nibble 0 1 1 0 = 6" "nibble 0 1 1 1 = 7"
  "nibble 1 0 0 0 = 8" "nibble 1 0 0 1 = 9" "nibble 1 0 1 0 = 10" "nibble 1 0 1 1 = 11"
  "nibble 1 1 0 0 = 12" "nibble 1 1 0 1 = 13" "nibble 1 1 1 0 = 14" "nibble 1 1 1 1 = 15"
  by (simp_all add: nibble_def)

lemma sbox_bits_table:
  "\<forall>a b c d e f g h. sbox_bits False [h, g, f, e, d, c, b, a] = bits8 (fips_sbox ! nibble a b c d ! nibble e f g h)"
  unfolding one_word_all
  apply (simp only: sbox_bits_list SubBytes_gates_split gates_eval simp_thms nibble_eval cong: let_weak_cong)
  by (simp add: fips_sbox_def bits8_def upt_0_8 bit_numeral_rec)

lemma unat_bits8: "unat (b::u8) = of_bool (bit b 0) + 2 * (of_bool (bit b 1) + 2 * (of_bool (bit b 2) + 2 * (of_bool (bit b 3) +
   2 * (of_bool (bit b 4) + 2 * (of_bool (bit b 5) + 2 * (of_bool (bit b 6) + 2 * of_bool (bit b 7)))))))"
proof -
  have "unat b = horner_sum of_bool 2 (map (bit (unat b)) [0..<8])"
    using unat_lt_exp[of b] by (simp only: horner_sum_bit_eq_take_bit) (simp add: take_bit_eq_mod)
  then show ?thesis by (simp add: upt_0_8 bit_unsigned_iff)
qed

lemma fips_S_nibble:
  "fips_S b = fips_sbox ! nibble (of_bool (bit b 7)) (of_bool (bit b 6)) (of_bool (bit b 5)) (of_bool (bit b 4))
     ! nibble (of_bool (bit b 3)) (of_bool (bit b 2)) (of_bool (bit b 1)) (of_bool (bit b 0))"
proof -
  have "unat b div 16 = nibble (of_bool (bit b 7)) (of_bool (bit b 6)) (of_bool (bit b 5)) (of_bool (bit b 4))"
    unfolding unat_bits8 nibble_def
    by (cases "bit b 0"; cases "bit b 1"; cases "bit b 2"; cases "bit b 3") (simp_all add: of_bool_def)
  moreover have "unat b mod 16 = nibble (of_bool (bit b 3)) (of_bool (bit b 2)) (of_bool (bit b 1)) (of_bool (bit b 0))"
    unfolding unat_bits8 nibble_def
    by (cases "bit b 0"; cases "bit b 1"; cases "bit b 2"; cases "bit b 3") (simp_all add: of_bool_def)
  ultimately show ?thesis by (simp add: fips_S_def)
qed

lemma bits8_eq_iff: "bits8 a = bits8 b \<longleftrightarrow> a = b"
proof
  assume "bits8 a = bits8 b"
  then have "\<forall>i<8. bit a i = bit b i" unfolding all_lt8 by (simp add: bits8_def upt_0_8 of_bool_eq_iff)
  then show "a = b" by (intro bit_word_eqI) simp
qed simp

lemma bits8_SaveByte:
  assumes "wf_state s"
  shows "bits8 (SaveByte s r c) = byte_bits (slice s) (r * 4 + c)"
  using assms by (intro nth_equalityI) (simp_all add: bits8_def byte_bits_def bit_SaveByte wf_state_def)

lemma SaveByte_SubBytes:
  assumes "wf_state s" "r < 4" "c < 4"
  shows "SaveByte (SubBytes s False) r c = fips_S (SaveByte s r c)"
proof -
  let ?b = "SaveByte s r c"
  have "r * 4 + c < 16" using assms by simp
  then have "bits8 (SaveByte (SubBytes s False) r c) = sbox_bits False (bits8 ?b)"
    using assms by (simp add: bits8_SaveByte byte_bits_SubBytes)
  also have "bits8 ?b = [of_bool (bit ?b 0), of_bool (bit ?b 1), of_bool (bit ?b 2), of_bool (bit ?b 3),
     of_bool (bit ?b 4), of_bool (bit ?b 5), of_bool (bit ?b 6), of_bool (bit ?b 7)]"
    by (simp add: bits8_def upt_0_8)
  also have "sbox_bits False \<dots> = bits8 (fips_S ?b)"
    unfolding fips_S_nibble using sbox_bits_table by blast
  finally show ?thesis by (simp only: bits8_eq_iff)
qed

lemma SaveByte_ShiftRows:
  assumes "wf_state s" "r < 4" "c < 4"
  shows "SaveByte (ShiftRows s) r c = SaveByte s r ((c + r) mod 4)"
proof (rule bit_word_eqI)
  fix i assume "i < LENGTH(8)"
  then have i: "i < 8" by simp
  have "r * 4 + c < 16" "(r * 4 + c) mod 4 = c" "(r * 4 + c) div 4 = r" using assms by auto
  with i assms show "bit (SaveByte (ShiftRows s) r c) i = bit (SaveByte s r ((c + r) mod 4)) i"
    by (simp add: bit_SaveByte ShiftRows_def wf_state_def bit_ShiftRows_slice[rule_format] mult.commute)
qed

lemma SaveByte_AddRoundKey:
  assumes "wf_state s" "wf_state k"
  shows "SaveByte (AddRoundKey s k) r c = SaveByte s r c XOR SaveByte k r c"
  using assms by (intro bit_word_eqI) (simp add: bit_SaveByte AddRoundKey_def wf_state_def bit_xor_iff)

lemma bit_fips_xtime:
  "\<forall>i<8. bit (fips_xtime b) i \<longleftrightarrow> (i \<noteq> 0 \<and> bit b (i - 1)) \<noteq> (bit b 7 \<and> i \<in> {0, 1, 3, 4})"
proof -
  have "bit (push_bit 1 b) i \<longleftrightarrow> i < 8 \<and> 1 \<le> i \<and> bit b (i - 1)" for i
    by (simp only: bit_push_bit_iff) (auto dest: bit_imp_le_length)
  then show ?thesis
    unfolding all_lt8 fips_xtime_def by (simp only: bit_xor_iff) (simp add: bit_numeral_rec)
qed

lemma SaveByte_MixColumns:
  assumes "wf_state s" "r < 4" "c < 4"
  shows "SaveByte (MixColumns s False) r c = fips_MixColumns (SaveByte s) r c"
proof (rule bit_word_eqI)
  fix i assume "i < LENGTH(8)"
  then have i: "i < 8" by simp
  have n: "r * 4 + c < 16" using assms by simp
  have rot: "(r * 4 + c + 4 * k) mod 16 = (r + k) mod 4 * 4 + c" if "0 < k" "k < 4" for k
    using assms that by (auto simp: mod_if)
  obtain x0 x1 x2 x3 x4 x5 x6 x7 where s: "slice s = [x0, x1, x2, x3, x4, x5, x6, x7]"
    using assms(1) by (auto simp: wf_state_def elim: list8_cases)
  have "\<forall>i<8. bit (slice (MixColumns s False) ! i) (r * 4 + c) = bit (fips_MixColumns (SaveByte s) r c) i"
    unfolding all_lt8
    using n rot[of 1] rot[of 2] rot[of 3] assms(2)
    by (simp add: MixColumns_def s Let_def bit_xor_iff ROT_xor ROT_ROT_table bit_ROT fips_MixColumns_def
        bit_fips_xtime[rule_format] bit_SaveByte) auto
  with i show "bit (SaveByte (MixColumns s False) r c) i = bit (fips_MixColumns (SaveByte s) r c) i"
    by (simp add: bit_SaveByte)
qed

lemma cells_eq_wf: "cells_eq s m \<Longrightarrow> wf_state s"
  by (simp add: cells_eq_def)

lemma cells_eq_SubBytes: "cells_eq s m \<Longrightarrow> cells_eq (SubBytes s False) (fips_SubBytes m)"
  by (simp add: cells_eq_def SaveByte_SubBytes fips_SubBytes_def)

lemma cells_eq_ShiftRows: "cells_eq s m \<Longrightarrow> cells_eq (ShiftRows s) (fips_ShiftRows m)"
  by (simp add: cells_eq_def SaveByte_ShiftRows fips_ShiftRows_def)

lemma cells_eq_MixColumns: "cells_eq s m \<Longrightarrow> cells_eq (MixColumns s False) (fips_MixColumns m)"
  by (simp add: cells_eq_def SaveByte_MixColumns) (simp add: fips_MixColumns_def)

lemma cells_eq_AddRoundKey:
  "cells_eq s m \<Longrightarrow> cells_eq k km \<Longrightarrow> cells_eq (AddRoundKey s k) (fips_AddRoundKey m km)"
  by (simp add: cells_eq_def SaveByte_AddRoundKey fips_AddRoundKey_def)

lemma cells_eq_LoadBytes:
  "length d = 16 \<Longrightarrow> cells_eq (LoadBytes zero_state d) (\<lambda>r c. d ! (r + 4 * c))"
  by (simp add: cells_eq_def SaveByte_LoadBytes add.commute)

lemmas cells_eq_steps = cells_eq_SubBytes cells_eq_ShiftRows cells_eq_MixColumns cells_eq_AddRoundKey

lemma foldl_rel:
  assumes "R s t" "\<And>s t x. x \<in> set xs \<Longrightarrow> R s t \<Longrightarrow> R (f s x) (g t x)"
  shows "R (foldl f s xs) (foldl g t xs)"
  using assms by (induction xs arbitrary: s t) auto

lemma SaveBytes_cells_eq:
  assumes "cells_eq s m"
  shows "SaveBytes s = concat (map (\<lambda>c. map (\<lambda>r. m r c) [0..<4]) [0..<4])"
  using assms by (simp add: SaveBytes_def cells_eq_def upt_0_4)

lemma AES_encrypt_fips:
  assumes rk: "wf_rounds rounds nrounds" and p: "length plain16 = 16"
  shows "AES_encrypt rounds nrounds plain16 = fips_Cipher (\<lambda>i. SaveByte (rounds ! i)) nrounds plain16"
proof -
  have key: "cells_eq (rounds ! i) (SaveByte (rounds ! i))" if "i \<le> nrounds" for i
    using rk that by (simp add: cells_eq_def)
  have loop: "cells_eq
     (foldl (\<lambda>s round. AddRoundKey (MixColumns (ShiftRows (SubBytes s False)) False) (rounds ! round))
        (AddRoundKey (LoadBytes zero_state plain16) (rounds ! 0)) [1..<nrounds])
     (foldl (\<lambda>m i. fips_AddRoundKey (fips_MixColumns (fips_ShiftRows (fips_SubBytes m))) (SaveByte (rounds ! i)))
        (fips_AddRoundKey (\<lambda>r c. plain16 ! (r + 4 * c)) (SaveByte (rounds ! 0))) [1..<nrounds])"
    by (rule foldl_rel[where R = cells_eq]) (use p key in \<open>auto intro!: cells_eq_steps cells_eq_LoadBytes\<close>)
  show ?thesis
    unfolding AES_encrypt_def fips_Cipher_def Let_def
    by (intro SaveBytes_cells_eq cells_eq_steps loop key order_refl)
qed

section \<open>The key schedule\<close>

text \<open>The byte cells of the key schedule's operations.\<close>

lemma bit_0x1111: "bit (0x1111 :: u16) n \<longleftrightarrow> n < 16 \<and> n mod 4 = 0"
proof (cases "n < 16")
  case True
  have "\<forall>n<16. bit (0x1111 :: u16) n \<longleftrightarrow> n mod 4 = 0"
    unfolding all_lt16 by (simp add: bit_numeral_rec)
  with True show ?thesis by simp
qed (auto dest: bit_imp_le_length)

lemma bit_and_0x1111: "bit ((x :: u16) AND 0x1111) n \<longleftrightarrow> bit x n \<and> n mod 4 = 0"
  unfolding bit_and_iff bit_0x1111 by (auto dest: bit_imp_le_length)

lemma SaveByte_eqI:
  assumes "\<And>i. i < 8 \<Longrightarrow> bit (slice s ! i) (r * 4 + c) = bit b i"
  shows "SaveByte s r c = b"
  by (rule bit_word_eqI) (simp add: bit_SaveByte assms)

lemma SaveByte_GetOneColumn:
  assumes "wf_state a" "r < 4" "c < 4"
  shows "SaveByte (GetOneColumn a c) r 0 = SaveByte a r c"
  using assms by (intro SaveByte_eqI)
    (simp add: GetOneColumn_def wf_state_def bit_SaveByte bit_drop_bit_eq bit_and_0x1111 add.commute)

lemma SaveByte_ColumnMix_fst:
  assumes "wf_state s" "wf_state a" "r < 4" "c2 < 4"
  shows "SaveByte (fst (KeySetupColumnMix s k a c1 c2)) r 0 = SaveByte s r 0 XOR SaveByte a r c2"
  using assms by (intro SaveByte_eqI)
    (simp add: KeySetupColumnMix_def Let_def wf_state_def bit_SaveByte bit_xor_iff
      bit_drop_bit_eq bit_and_0x1111 add.commute)

lemma SaveByte_ColumnMix_snd:
  assumes "wf_state s" "wf_state k" "wf_state a" "r < 4" "c < 4" "c1 < 4" "c2 < 4"
  shows "SaveByte (snd (KeySetupColumnMix s k a c1 c2)) r c =
     (if c = c1 then SaveByte k r c OR (SaveByte s r 0 XOR SaveByte a r c2) else SaveByte k r c)"
proof -
  have m: "(r * 4 + c - c1) mod 4 = 0 \<longleftrightarrow> c = c1" if "c1 \<le> r * 4 + c"
  proof -
    have "(r * 4 + c - c1) mod 4 = 0 \<longleftrightarrow> (r * 4 + c) mod 4 = c1 mod 4"
      using that by (metis mod_eq_dvd_iff_nat mod_eq_0_iff_dvd)
    then show ?thesis using assms by simp
  qed
  have place: "bit (push_bit c1 (y AND 0x1111)) (r * 4 + c) \<longleftrightarrow> c = c1 \<and> bit y (r * 4)" for y :: u16
    unfolding bit_push_bit_iff bit_and_0x1111 using assms m by auto
  show ?thesis
  proof (rule SaveByte_eqI)
    fix i :: nat assume i: "i < 8"
    have "bit (slice (snd (KeySetupColumnMix s k a c1 c2)) ! i) (r * 4 + c) \<longleftrightarrow>
        bit (slice k ! i) (r * 4 + c) \<or>
        c = c1 \<and> bit (slice s ! i XOR (drop_bit c2 (slice a ! i) AND 0x1111)) (r * 4)"
      using assms i by (simp only: place bit_or_iff flip: place)
        (simp add: KeySetupColumnMix_def Let_def wf_state_def place bit_or_iff del: push_bit_and push_bit_xor)
    then show "bit (slice (snd (KeySetupColumnMix s k a c1 c2)) ! i) (r * 4 + c) =
        bit (if c = c1 then SaveByte k r c OR (SaveByte s r 0 XOR SaveByte a r c2) else SaveByte k r c) i"
      using i assms by (simp add: bit_SaveByte bit_or_iff bit_xor_iff bit_and_0x1111 bit_drop_bit_eq add.commute)
  qed
qed

lemma SaveByte_KeySetupTransform:
  assumes "wf_state s" "wf_state k" "r < 4"
  shows "SaveByte (KeySetupTransform s k) r 0 = SaveByte s ((r + 1) mod 4) 0 XOR SaveByte k r 0"
proof -
  have rot: "drop_bit 4 x OR push_bit 12 x = ROT x 1" for x :: u16
    by (simp add: ROT_def)
  have "(r * 4 + 4) mod 16 = (r + 1) mod 4 * 4" using assms by (auto simp: mod_if)
  then show ?thesis
    using assms unfolding KeySetupTransform_def rot
    by (intro SaveByte_eqI) (simp add: wf_state_def bit_SaveByte bit_xor_iff bit_ROT)
qed

lemma SaveByte_MultX:
  assumes "wf_state s"
  shows "SaveByte (MultX s) r c = fips_xtime (SaveByte s r c)"
proof -
  obtain x0 x1 x2 x3 x4 x5 x6 x7 where s: "slice s = [x0, x1, x2, x3, x4, x5, x6, x7]"
    using assms(1) by (auto simp: wf_state_def elim: list8_cases)
  have "\<forall>i<8. bit (slice (MultX s) ! i) (r * 4 + c) = bit (fips_xtime (SaveByte s r c)) i"
    unfolding all_lt8
    by (simp add: MultX_def s Let_def bit_xor_iff bit_fips_xtime[rule_format] bit_SaveByte)
  then show ?thesis by (intro SaveByte_eqI) simp
qed

lemma SaveByte_LoadByte:
  assumes "wf_state s" "r < 4" "c < 4" "r' < 4" "c' < 4"
  shows "SaveByte (LoadByte s b r c) r' c' = (if r' = r \<and> c' = c then SaveByte s r' c' OR b else SaveByte s r' c')"
proof -
  have "(x * 4 + y) div 4 = x \<and> (x * 4 + y) mod 4 = y" if "y < 4" for x y :: nat
    using that by simp
  with assms have "r' * 4 + c' = r * 4 + c \<longleftrightarrow> r' = r \<and> c' = c" by metis
  then show ?thesis
    using assms by (intro SaveByte_eqI) (auto simp: bit_LoadByte bit_SaveByte bit_or_iff)
qed

lemma SaveByte_zero [simp]: "SaveByte zero_state r c = 0"
  by (intro SaveByte_eqI) (simp add: zero_state_def)

lemma sched_cell_update:
  assumes "k < length rounds" "r < 4"
    "\<And>c. c < 4 \<Longrightarrow> SaveByte x r c = (if c = i mod 4 then v else SaveByte (rounds ! k) r c)" "k = i div 4"
  shows "sched_cell (rounds[k := x]) j r = (if j = i then v else sched_cell rounds j r)"
proof -
  have "j div 4 = i div 4 \<Longrightarrow> j mod 4 = i mod 4 \<Longrightarrow> j = i" by (metis div_mod_decomp)
  then show ?thesis using assms by (auto simp: sched_cell_def nth_list_update)
qed

lemma sched_cell_load_byte:
  assumes "list_all wf_state rounds" "i div 4 < length rounds" "r < 4" "r' < 4"
  shows "sched_cell (rounds[i div 4 := LoadByte (rounds ! (i div 4)) b r (i mod 4)]) j r' =
     (if j = i \<and> r' = r then sched_cell rounds j r' OR b else sched_cell rounds j r')"
proof -
  have "wf_state (rounds ! (i div 4))" using assms by (simp add: list_all_length)
  then have "sched_cell (rounds[i div 4 := LoadByte (rounds ! (i div 4)) b r (i mod 4)]) j r' =
     (if j = i then (if r' = r then sched_cell rounds i r' OR b else sched_cell rounds i r') else sched_cell rounds j r')"
    using assms by (intro sched_cell_update) (auto simp: SaveByte_LoadByte sched_cell_def)
  then show ?thesis by auto
qed

lemma sched_load_bytes:
  assumes "list_all wf_state rounds" "i div 4 < length rounds" "distinct xs" "set xs \<subseteq> {0..<4}" "r' < 4"
  shows "sched_cell (foldl (\<lambda>rounds r. rounds[i div 4 := LoadByte (rounds ! (i div 4)) (key ! (4 * i + r)) r (i mod 4)])
       rounds xs) j r' =
     (if j = i \<and> r' \<in> set xs then sched_cell rounds j r' OR key ! (4 * i + r') else sched_cell rounds j r')"
  using assms
proof (induction xs arbitrary: rounds)
  case Nil
  then show ?case by simp
next
  case (Cons r xs)
  let ?rs = "rounds[i div 4 := LoadByte (rounds ! (i div 4)) (key ! (4 * i + r)) r (i mod 4)]"
  have wf: "list_all wf_state ?rs" using Cons.prems(1,2) by (auto simp: list_all_length nth_list_update)
  have "sched_cell ?rs j r' = (if j = i \<and> r' = r then sched_cell rounds j r' OR key ! (4 * i + r) else sched_cell rounds j r')"
    using Cons.prems by (intro sched_cell_load_byte) auto
  then show ?case using Cons.IH[OF wf] Cons.prems by auto
qed

lemma sched_load:
  assumes "nk \<le> 4 * n" "j < 4 * n" "r < 4"
  shows "sched_cell (AES_setup_load (replicate n zero_state) key nk) j r = (if j < nk then key ! (4 * j + r) else 0)"
  using assms
proof (induction nk)
  case 0
  then show ?case by (simp add: AES_setup_load_def sched_cell_def less_mult_imp_div_less mult.commute)
next
  case (Suc nk)
  let ?rs = "AES_setup_load (replicate n zero_state) key nk"
  have rs: "list_all wf_state ?rs" "length ?rs = n"
    using wf_setup_load[of "replicate n zero_state" key nk] by (simp_all add: list_all_iff)
  have IH: "sched_cell ?rs j r = (if j < nk then key ! (4 * j + r) else 0)" using Suc by simp
  have "AES_setup_load (replicate n zero_state) key (Suc nk) =
     foldl (\<lambda>rounds r. rounds[nk div 4 := LoadByte (rounds ! (nk div 4)) (key ! (4 * nk + r)) r (nk mod 4)]) ?rs [0..<4]"
    by (simp add: AES_setup_load_def)
  moreover have "nk div 4 < n" using Suc.prems(1) by auto
  ultimately have "sched_cell (AES_setup_load (replicate n zero_state) key (Suc nk)) j r =
     (if j = nk then sched_cell ?rs j r OR key ! (4 * nk + r) else sched_cell ?rs j r)"
    using sched_load_bytes[OF rs(1), of nk "[0..<4]" r key j] rs(2) Suc.prems by simp
  then show ?case using IH by auto
qed

lemma fips_xtime_0 [simp]: "fips_xtime 0 = 0"
  by (simp add: fips_xtime_def)

lemma fips_rcon_Suc: "0 < k \<Longrightarrow> fips_xtime (fips_rcon k) = fips_rcon (Suc k)"
  by (cases k) (simp_all add: fips_rcon_def)

lemma rcon_index:
  assumes "(Nk::nat) > 0" "i \<ge> Nk"
  shows "(Suc i + Nk - 1) div Nk = (if i mod Nk = 0 then Suc ((i + Nk - 1) div Nk) else (i + Nk - 1) div Nk)"
    and "i mod Nk = 0 \<Longrightarrow> (i + Nk - 1) div Nk = i div Nk"
proof -
  obtain q m where i: "i = q * Nk + m" and m: "m < Nk" using assms(1) by (metis div_mod_decomp mod_less_divisor)
  have "(q * Nk + (Nk - 1)) div Nk = q" using assms(1) by (intro div_nat_eqI) (simp_all add: mult.commute)
  then have a: "(i + Nk - 1) div Nk = q" if "m = 0" using that i assms(1) by simp
  have b: "(i + Nk - 1) div Nk = Suc q" if "m \<noteq> 0"
  proof -
    have "i + Nk - 1 = Suc q * Nk + (m - 1)" using that i by simp
    then show ?thesis using m by (intro div_nat_eqI) (simp_all add: mult.commute)
  qed
  have c: "(Suc i + Nk - 1) div Nk = Suc q"
  proof -
    have "Suc i + Nk - 1 = Suc q * Nk + m" using i assms(1) by simp
    then show ?thesis using m by (intro div_nat_eqI) (simp_all add: mult.commute)
  qed
  have mm: "i mod Nk = m" using i m by simp
  show "(Suc i + Nk - 1) div Nk = (if i mod Nk = 0 then Suc ((i + Nk - 1) div Nk) else (i + Nk - 1) div Nk)"
    using a b c mm by auto
  show "i mod Nk = 0 \<Longrightarrow> (i + Nk - 1) div Nk = i div Nk" using a mm i assms(1) by simp
qed

lemma pos_index: "(Nk::nat) > 0 \<Longrightarrow> (if i mod Nk + 1 = Nk then 0 else i mod Nk + 1) = Suc i mod Nk"
  by (simp add: mod_Suc)

lemma AES_setup_step_fields:
  fixes Nk st i
  defines "M \<equiv> KeySetupColumnMix (setup_temp Nk st) (su_rounds st ! (i div 4))
      (su_rounds st ! ((i - Nk) div 4)) (i mod 4) ((i - Nk) mod 4)"
  shows "su_rounds (AES_setup_step Nk st i) = (su_rounds st)[i div 4 := snd M]"
    and "su_column (AES_setup_step Nk st i) = fst M"
    and "su_pos (AES_setup_step Nk st i) = (if su_pos st + 1 = Nk then 0 else su_pos st + 1)"
    and "su_rcon (AES_setup_step Nk st i) = (if su_pos st = 0 then MultX (su_rcon st) else su_rcon st)"
  by (auto simp: M_def AES_setup_step_def setup_temp_def Let_def split: prod.split)

lemma setup_temp_cell:
  assumes inv: "setup_inv key Nk n i st" and i: "Nk \<le> i" "0 < Nk" and r: "r < 4"
  shows "fips_word key Nk i r = fips_word key Nk (i - Nk) r XOR SaveByte (setup_temp Nk st) r 0"
proof -
  have "wf_state (su_column st)" "wf_state (su_rcon st)"
    using inv by (auto simp: setup_inv_def wf_setup_def)
  moreover have "(r + 1) mod 4 < 4" by simp
  ultimately have "SaveByte (setup_temp Nk st) r 0 =
     (if i mod Nk = 0 then fips_S (fips_word key Nk (i - 1) ((r + 1) mod 4)) XOR (if r = 0 then fips_rcon (i div Nk) else 0)
      else if Nk > 6 \<and> i mod Nk = 4 then fips_S (fips_word key Nk (i - 1) r)
      else fips_word key Nk (i - 1) r)"
    using inv r rcon_index(2)[OF i(2,1)] 
    by (simp add: setup_temp_def setup_inv_def SaveByte_KeySetupTransform SaveByte_SubBytes)
  then show ?thesis using i by (subst fips_word.simps) simp
qed

lemma setup_inv_step:
  assumes inv: "setup_inv key Nk n i st" and i: "Nk \<le> i" "0 < Nk" "i < 4 * (n + 1)"
  shows "setup_inv key Nk n (Suc i) (AES_setup_step Nk st i)"
proof -
  have wfs: "wf_setup n st" using inv by (simp add: setup_inv_def)
  then have wf: "wf_state (setup_temp Nk st)"
    by (auto simp: setup_temp_def wf_setup_def KeySetupTransform_def wf_state_def SubBytes_def Let_def)
  have k: "i div 4 \<le> n" "(i - Nk) div 4 \<le> n" using i(3) by auto
  have wfr: "wf_state (su_rounds st ! (i div 4))" "wf_state (su_rounds st ! ((i - Nk) div 4))"
    using wfs k by (auto simp: wf_setup_def)
  have len: "length (su_rounds st) = n + 1" using wfs by (simp add: wf_setup_def wf_rounds_def)
  have prev: "SaveByte (su_rounds st ! ((i - Nk) div 4)) r ((i - Nk) mod 4) = fips_word key Nk (i - Nk) r" if "r < 4" for r
    using inv i that by (auto simp: setup_inv_def sched_cell_def)
  have cur: "SaveByte (su_rounds st ! (i div 4)) r (i mod 4) = 0" if "r < 4" for r
    using inv i that by (auto simp: setup_inv_def sched_cell_def)
  note new = setup_temp_cell[OF inv i(1,2)]
  have col: "SaveByte (su_column (AES_setup_step Nk st i)) r 0 = fips_word key Nk i r" if "r < 4" for r
    using that wf wfr by (simp add: AES_setup_step_fields SaveByte_ColumnMix_fst prev new xor.commute)
  have rounds: "sched_cell (su_rounds (AES_setup_step Nk st i)) j r =
     (if j = i then fips_word key Nk i r else sched_cell (su_rounds st) j r)" if "r < 4" for j r
    unfolding AES_setup_step_fields
    using that wf wfr k len by (intro sched_cell_update) (auto simp: SaveByte_ColumnMix_snd prev cur new xor.commute)
  have "wf_state (su_rcon st)" using wfs by (simp add: wf_setup_def)
  then have rcon: "SaveByte (su_rcon (AES_setup_step Nk st i)) r 0 =
      (if r = 0 then fips_rcon ((Suc i + Nk - 1) div Nk) else 0)" if "r < 4" for r
    using inv that i rcon_index[OF i(2,1)]
    by (auto simp: AES_setup_step_fields setup_inv_def SaveByte_MultX fips_rcon_Suc div_greater_zero_iff)
  show ?thesis
    using wf_AES_setup_step[OF wfs i(3)] col rounds rcon inv i(2) pos_index[OF i(2), of i]
    by (auto simp: setup_inv_def AES_setup_step_fields(3) less_Suc_eq)
qed

lemma AES_setup_fips:
  assumes "0 < Nk" "Nk \<le> 4 * (n + 1)" "j < 4 * (n + 1)" "r < 4"
  shows "sched_cell (AES_setup key Nk n) j r = fips_word key Nk j r"
proof -
  let ?r = "AES_setup_load (replicate (n + 1) zero_state) key Nk"
  let ?st = "\<lparr>su_rounds = ?r, su_rcon = \<lparr>slice = [1, 0, 0, 0, 0, 0, 0, 0]\<rparr>,
      su_pos = 0, su_column = GetOneColumn (?r ! ((Nk - 1) div 4)) ((Nk - 1) mod 4)\<rparr>"
  have r: "list_all wf_state ?r" "length ?r = n + 1"
    using wf_setup_load[of "replicate (n + 1) zero_state" key Nk] by (simp_all add: list_all_iff)
  have "(Nk - 1) div 4 < n + 1" using assms by auto
  then have wfl: "wf_state (?r ! ((Nk - 1) div 4))" using r by (simp add: list_all_length)
  have col: "SaveByte (GetOneColumn (?r ! ((Nk - 1) div 4)) ((Nk - 1) mod 4)) r 0 = fips_word key Nk (Nk - 1) r"
    if "r < 4" for r
    using that wfl sched_load[OF assms(2), of "Nk - 1" r key] assms
    by (simp add: SaveByte_GetOneColumn sched_cell_def fips_word.simps)
  have rc: "SaveByte \<lparr>slice = [1, 0, 0, 0, 0, 0, 0, 0]\<rparr> r 0 = (if r = 0 then 1 else 0)" if "r < 4" for r
  proof (rule SaveByte_eqI)
    fix i :: nat assume "i < 8"
    moreover have "\<forall>i<8. bit ([1, 0, 0, 0, 0, 0, 0, 0::u16] ! i) (r * 4 + 0) = bit (if r = 0 then 1 else 0 :: u8) i"
      unfolding all_lt8 by (auto simp: bit_1_iff)
    ultimately show "bit (slice \<lparr>slice = [1, 0, 0, 0, 0, 0, 0, 0]\<rparr> ! i) (r * 4 + 0) = bit (if r = 0 then 1 else 0 :: u8) i"
      by simp
  qed
  have one: "(Nk + Nk - 1) div Nk = 1" using assms(1) by (intro div_nat_eqI) simp_all
  have base: "setup_inv key Nk n Nk ?st"
    using r wfl col rc one sched_load[OF assms(2)] assms(1)
    by (auto simp: setup_inv_def wf_setup_def wf_rounds_def GetOneColumn_def wf_state_def fips_rcon_def fips_word.simps)
  have loop: "setup_inv key Nk n (Nk + d) (foldl (AES_setup_step Nk) ?st [Nk..<Nk + d])" if "Nk + d \<le> 4 * (n + 1)" for d
    using that base assms(1) by (induction d) (auto intro!: setup_inv_step)
  have "setup_inv key Nk n (4 * (n + 1)) (foldl (AES_setup_step Nk) ?st [Nk..<4 * (n + 1)])"
    using loop[of "4 * (n + 1) - Nk"] assms(2) by simp
  then show ?thesis using assms by (simp add: AES_setup_def Let_def setup_inv_def)
qed

section \<open>The cipher\<close>

lemma fips_Cipher_cong:
  assumes "\<And>i r c. i \<le> Nr \<Longrightarrow> r < 4 \<Longrightarrow> c < 4 \<Longrightarrow> w i r c = w' i r c"
  shows "fips_Cipher w Nr inp = fips_Cipher w' Nr inp"
proof -
  let ?R = "\<lambda>m m' :: matrix. \<forall>r<4. \<forall>c<4. m r c = m' r c"
  have key: "?R (fips_AddRoundKey m (w i)) (fips_AddRoundKey m' (w' i))" if "?R m m'" "i \<le> Nr" for m m' i
    using that assms by (simp add: fips_AddRoundKey_def)
  have sub: "?R (fips_ShiftRows (fips_SubBytes m)) (fips_ShiftRows (fips_SubBytes m'))" if "?R m m'" for m m'
    using that by (simp add: fips_ShiftRows_def fips_SubBytes_def)
  have mix: "?R (fips_MixColumns m) (fips_MixColumns m')" if "?R m m'" for m m'
    using that by (simp add: fips_MixColumns_def)
  have "?R (foldl (\<lambda>m i. fips_AddRoundKey (fips_MixColumns (fips_ShiftRows (fips_SubBytes m))) (w i))
         (fips_AddRoundKey (\<lambda>r c. inp ! (r + 4 * c)) (w 0)) [1..<Nr])
       (foldl (\<lambda>m i. fips_AddRoundKey (fips_MixColumns (fips_ShiftRows (fips_SubBytes m))) (w' i))
         (fips_AddRoundKey (\<lambda>r c. inp ! (r + 4 * c)) (w' 0)) [1..<Nr])"
  proof (rule foldl_rel[where R = ?R])
    show "?R (fips_AddRoundKey (\<lambda>r c. inp ! (r + 4 * c)) (w 0)) (fips_AddRoundKey (\<lambda>r c. inp ! (r + 4 * c)) (w' 0))"
      by (rule key) simp_all
  next
    fix s t i assume "i \<in> set [1..<Nr]" "?R s t"
    then show "?R (fips_AddRoundKey (fips_MixColumns (fips_ShiftRows (fips_SubBytes s))) (w i))
       (fips_AddRoundKey (fips_MixColumns (fips_ShiftRows (fips_SubBytes t))) (w' i))"
      by (intro key mix sub) auto
  qed
  from key[OF sub[OF this] order_refl] show ?thesis
    by (simp add: fips_Cipher_def Let_def upt_0_4)
qed

lemma AES_setup_encrypt_fips:
  assumes "0 < Nk" "Nk \<le> 4 * (Nr + 1)" "length inp = 16"
  shows "AES_encrypt (AES_setup key Nk Nr) Nr inp = fips_AES Nk Nr key inp"
proof -
  have "AES_encrypt (AES_setup key Nk Nr) Nr inp = fips_Cipher (\<lambda>i. SaveByte (AES_setup key Nk Nr ! i)) Nr inp"
    using assms by (intro AES_encrypt_fips wf_AES_setup)
  also have "\<dots> = fips_AES Nk Nr key inp"
    unfolding fips_AES_def
  proof (rule fips_Cipher_cong)
    fix i r c :: nat assume "i \<le> Nr" "r < 4" "c < 4"
    then show "SaveByte (AES_setup key Nk Nr ! i) r c = fips_word key Nk (4 * i + c) r"
      using AES_setup_fips[OF assms(1,2), of "4 * i + c" r key] by (simp add: sched_cell_def)
  qed
  finally show ?thesis .
qed

lemma AES_blocks_nth:
  assumes "\<And>b. length b = 16 \<Longrightarrow> f b = g b \<and> length (f b) = 16" "length inp = 16 * blocks"
  shows "length (AES_blocks f blocks inp) = 16 * blocks \<and>
    (\<forall>i. i < blocks \<longrightarrow> take 16 (drop (16 * i) (AES_blocks f blocks inp)) = g (take 16 (drop (16 * i) inp)))"
  using assms(2)
proof (induction blocks arbitrary: inp)
  case 0
  then show ?case by simp
next
  case (Suc n)
  have f: "f (take 16 inp) = g (take 16 inp)" "length (f (take 16 inp)) = 16"
    using assms(1)[of "take 16 inp"] Suc.prems by auto
  have IH: "length (AES_blocks f n (drop 16 inp)) = 16 * n"
    "\<And>i. i < n \<Longrightarrow> take 16 (drop (16 * i) (AES_blocks f n (drop 16 inp))) = g (take 16 (drop (16 * i) (drop 16 inp)))"
    using Suc.IH[of "drop 16 inp"] Suc.prems by auto
  have "take 16 (drop (16 * i) (AES_blocks f (Suc n) inp)) = g (take 16 (drop (16 * i) inp))" if "i < Suc n" for i
  proof (cases i)
    case 0
    then show ?thesis using f by simp
  next
    case (Suc j)
    then show ?thesis using f IH(2)[of j] that by (simp add: drop_drop add.commute)
  qed
  then show ?case using IH(1) f(2) by simp
qed

lemma length_AES_encrypt [simp, shape]: "length (AES_encrypt rounds n p) = 16"
  by (simp add: AES_encrypt_def Let_def)

section \<open>Properties\<close>

text \<open>
  C15. The constant-time bit-sliced AES computes FIPS 197: for each of the three key sizes, the
  context set up from a key and applied to a buffer of whole blocks writes, block by block, exactly
  the bytes that the standard's byte-oriented cipher with the standard's key expansion gives.
\<close>

theorem ctaes_implements_fips197:
  assumes "length inp = 16 * blocks" "i < blocks"
  shows "length (AES256_encrypt (AES256_init key) blocks inp) = 16 * blocks \<and>
    take 16 (drop (16 * i) (AES128_encrypt (AES128_init key) blocks inp)) = fips_AES 4 10 key (take 16 (drop (16 * i) inp)) \<and>
    take 16 (drop (16 * i) (AES192_encrypt (AES192_init key) blocks inp)) = fips_AES 6 12 key (take 16 (drop (16 * i) inp)) \<and>
    take 16 (drop (16 * i) (AES256_encrypt (AES256_init key) blocks inp)) = fips_AES 8 14 key (take 16 (drop (16 * i) inp))"
proof -
  have blocks: "length (AES_blocks (AES_encrypt (AES_setup key Nk Nr) Nr) blocks inp) = 16 * blocks \<and>
    take 16 (drop (16 * i) (AES_blocks (AES_encrypt (AES_setup key Nk Nr) Nr) blocks inp)) = fips_AES Nk Nr key (take 16 (drop (16 * i) inp))"
    if N: "0 < Nk" "Nk \<le> 4 * (Nr + 1)" for Nk Nr
  proof -
    have "AES_encrypt (AES_setup key Nk Nr) Nr b = fips_AES Nk Nr key b \<and> length (AES_encrypt (AES_setup key Nk Nr) Nr b) = 16"
      if "length b = 16" for b using AES_setup_encrypt_fips[OF N that] length_AES_encrypt by blast
    from AES_blocks_nth[of "AES_encrypt (AES_setup key Nk Nr) Nr" "fips_AES Nk Nr key", OF this assms(1)] show ?thesis using assms(2) by blast
  qed
  from blocks[of 4 10] blocks[of 6 12] blocks[of 8 14] show ?thesis
    by (simp add: AES128_encrypt_def AES128_init_def AES192_encrypt_def AES192_init_def AES256_encrypt_def AES256_init_def)
qed

theorem ctaes_implements_fips197_witness:
  "take 16 (drop 16 (AES256_encrypt (AES256_init (replicate 32 7)) 2 (replicate 32 1))) =
     fips_AES 8 14 (replicate 32 7) (replicate 16 1)"
  using ctaes_implements_fips197[of "replicate 32 1" 2 1 "replicate 32 7"] by simp

text \<open>
  C3. The key schedule is the standard's key expansion: word \<open>j\<close> of the expanded key, in column
  \<open>j mod 4\<close> of round key \<open>j div 4\<close>, is word \<open>j\<close> of FIPS 197's expansion, for every supported key
  length and every word the schedule holds.
\<close>

theorem key_schedule_is_fips197:
  assumes "nkeywords \<in> {4, 6, 8}" "nrounds = nkeywords + 6" "j < 4 * (nrounds + 1)" "r < 4"
  shows "sched_cell (AES_setup key nkeywords nrounds) j r = fips_word key nkeywords j r"
  using assms by (intro AES_setup_fips) auto

theorem key_schedule_is_fips197_witness:
  "sched_cell (AES_setup (replicate 16 9) 4 10) 43 3 = fips_word (replicate 16 9) 4 43 3"
  by (rule key_schedule_is_fips197) simp_all

text \<open>
  C4. The boolean circuit of \<^verbatim>\<open>SubBytes\<close> substitutes every one of the 16 cells by the standard's
  substitution box.
\<close>

theorem SubBytes_is_sbox:
  assumes "wf_state s" "r < 4" "c < 4"
  shows "SaveByte (SubBytes s False) r c = fips_S (SaveByte s r c)"
  using assms by (rule SaveByte_SubBytes)

theorem SubBytes_is_sbox_witness: "SaveByte (SubBytes zero_state False) 2 3 = 0x63"
proof -
  have "SaveByte zero_state 2 3 = 0" "fips_S 0 = 0x63" by (simp, simp add: fips_S_def fips_sbox_def)
  then show ?thesis using SubBytes_is_sbox[of zero_state 2 3] by simp
qed

end
