(* ===== verification/Interfaces.thy ===== *)
theory Interfaces
  imports Prelude
begin

text \<open>
  The contracts between components, as locales: what a client component relies on and what the
  component that provides it promises.  Each is interpreted in the theory of the provider.
\<close>

text \<open>
  A 16-byte block cipher under a fixed key, as the CBC code of \<^verbatim>\<open>sige/crypto/aes.cpp\<close> (a template
  over the cipher class) needs it.
\<close>

locale block_cipher =
  fixes enc :: "bytes \<Rightarrow> bytes"
    and dec :: "bytes \<Rightarrow> bytes"
  assumes enc_length: "length b = 16 \<Longrightarrow> length (enc b) = 16"
    and dec_enc: "length b = 16 \<Longrightarrow> dec (enc b) = b"

text \<open>
  Multiplication and squaring modulo \<open>m\<close> on a representation type: what the addition chains of the
  field and scalar inverses, the square root and the batch inverse rely on.  \<open>ok\<close> is the range of
  representations the operations accept and \<open>val\<close> their value; \<open>mod_rep\<close> says that \<open>x\<close> represents the
  residue of \<open>v\<close>.
\<close>

definition mod_rep :: "('a \<Rightarrow> bool) \<Rightarrow> ('a \<Rightarrow> nat) \<Rightarrow> nat \<Rightarrow> 'a \<Rightarrow> nat \<Rightarrow> bool" where
  "mod_rep ok val m x v \<longleftrightarrow> ok x \<and> val x mod m = v mod m"

lemma mod_rep_cong: "mod_rep ok val m x v \<Longrightarrow> v mod m = w mod m \<Longrightarrow> mod_rep ok val m x w"
  by (simp add: mod_rep_def)

lemma mod_rep_eq: "mod_rep ok val m x v \<Longrightarrow> v = w \<Longrightarrow> mod_rep ok val m x w"
  by simp

locale mod_mult =
  fixes ok :: "'a \<Rightarrow> bool"
    and val :: "'a \<Rightarrow> nat"
    and m :: nat
    and mul :: "'a \<Rightarrow> 'a \<Rightarrow> 'a"
    and sqr :: "'a \<Rightarrow> 'a"
  assumes mul_ok: "ok x \<Longrightarrow> ok y \<Longrightarrow> ok (mul x y)"
    and mul_val: "ok x \<Longrightarrow> ok y \<Longrightarrow> val (mul x y) mod m = val x * val y mod m"
    and sqr_ok: "ok x \<Longrightarrow> ok (sqr x)"
    and sqr_val: "ok x \<Longrightarrow> val (sqr x) mod m = val x * val x mod m"
begin

lemma rep_self: "ok x \<Longrightarrow> mod_rep ok val m x (val x)"
  by (simp add: mod_rep_def)

lemma rep_mul:
  assumes "mod_rep ok val m x v" "mod_rep ok val m y w"
  shows "mod_rep ok val m (mul x y) (v * w)"
proof -
  have "val (mul x y) mod m = val x * val y mod m" using assms mul_val by (simp add: mod_rep_def)
  also have "\<dots> = v * w mod m" using assms by (intro mod_mult_cong) (simp_all add: mod_rep_def)
  finally show ?thesis using assms mul_ok by (simp add: mod_rep_def)
qed

lemma rep_sqr:
  assumes "mod_rep ok val m x v"
  shows "mod_rep ok val m (sqr x) (v * v)"
proof -
  have "val (sqr x) mod m = val x * val x mod m" using assms sqr_val by (simp add: mod_rep_def)
  also have "\<dots> = v * v mod m" using assms by (intro mod_mult_cong) (simp_all add: mod_rep_def)
  finally show ?thesis using assms sqr_ok by (simp add: mod_rep_def)
qed

text \<open>Powers of a base \<open>b\<close>: a product adds exponents, \<open>n\<close> squarings multiply by \<open>2^n\<close>.\<close>

lemma pow_one: "mod_rep ok val m x b \<Longrightarrow> mod_rep ok val m x (b ^ 1)"
  by simp

lemma pow_mul:
  "mod_rep ok val m x (b ^ e) \<Longrightarrow> mod_rep ok val m y (b ^ f) \<Longrightarrow> mod_rep ok val m (mul x y) (b ^ (e + f))"
  unfolding power_add by (rule rep_mul)

lemma pow_sqr: "mod_rep ok val m x (b ^ e) \<Longrightarrow> mod_rep ok val m (sqr x) (b ^ (2 * e))"
  unfolding mult_2 power_add by (rule rep_sqr)

lemma pow_sqr_n: "mod_rep ok val m x (b ^ e) \<Longrightarrow> mod_rep ok val m ((sqr ^^ n) x) (b ^ (2 ^ n * e))"
proof (induction n)
  case (Suc n)
  then show ?case using pow_sqr[of _ b "2 ^ n * e"] by (simp add: mult.assoc)
qed simp

text \<open>Blocks of ones: the exponents \<open>2^k - 1\<close> compose by concatenation.\<close>

lemma pow_ones:
  assumes "mod_rep ok val m x (b ^ (2 ^ k - 1))" "mod_rep ok val m y (b ^ (2 ^ n - 1))"
  shows "mod_rep ok val m (mul ((sqr ^^ n) x) y) (b ^ (2 ^ (k + n) - 1))"
proof -
  have "(1::nat) \<le> 2 ^ k" "(1::nat) \<le> 2 ^ n" by simp_all
  then have "2 ^ n * (2 ^ k - 1) + (2 ^ n - 1) = (2 ^ (k + n) - 1 :: nat)"
    by (simp add: power_add diff_mult_distrib2 mult.commute)
  then show ?thesis using pow_mul[OF pow_sqr_n[OF assms(1)] assms(2), of n] by simp
qed

end

end
