(* ===== verification/AesCbc.thy ===== *)
theory AesCbc
  imports CtAes_Fips Interfaces
begin

unbundle bit_operations_syntax

text \<open>
  The C++ wrapper \<^verbatim>\<open>sige/crypto/aes.cpp\<close> around the block cipher: the AES-128 and AES-256 classes
  and CBC mode with the padding the wallet uses.  The template functions take the cipher as a
  function argument.  A buffer is a byte list, \<^verbatim>\<open>size\<close> is its length and a null pointer is the
  empty buffer; the output buffer is the bytes written.  Input and output do not overlap, as in
  every call of the repository.
\<close>

section \<open>The cipher classes\<close>

definition AES_BLOCKSIZE :: nat where "AES_BLOCKSIZE = 16"

definition AES128Encrypt_Encrypt :: "bytes \<Rightarrow> bytes \<Rightarrow> bytes" where
  "AES128Encrypt_Encrypt key plaintext = AES128_encrypt (AES128_init key) 1 plaintext"

definition AES128Decrypt_Decrypt :: "bytes \<Rightarrow> bytes \<Rightarrow> bytes" where
  "AES128Decrypt_Decrypt key ciphertext = AES128_decrypt (AES128_init key) 1 ciphertext"

definition AES256Encrypt_Encrypt :: "bytes \<Rightarrow> bytes \<Rightarrow> bytes" where
  "AES256Encrypt_Encrypt key plaintext = AES256_encrypt (AES256_init key) 1 plaintext"

definition AES256Decrypt_Decrypt :: "bytes \<Rightarrow> bytes \<Rightarrow> bytes" where
  "AES256Decrypt_Decrypt key ciphertext = AES256_decrypt (AES256_init key) 1 ciphertext"

section \<open>CBC mode\<close>

text \<open>The loop over whole blocks: returns what it wrote, the last block and the rest of the data.\<close>

function CBCEncrypt_loop :: "(bytes \<Rightarrow> bytes) \<Rightarrow> bytes \<Rightarrow> bytes \<Rightarrow> bytes \<times> bytes \<times> bytes" where
  "CBCEncrypt_loop enc mixed data =
     (if AES_BLOCKSIZE \<le> length data
      then let c = enc (map2 (XOR) mixed (take AES_BLOCKSIZE data));
               (out, m, rest) = CBCEncrypt_loop enc c (drop AES_BLOCKSIZE data)
           in (c @ out, m, rest)
      else ([], mixed, data))"
  by pat_completeness auto
termination
  by (relation "measure (\<lambda>(enc, mixed, data). length data)") (auto simp: AES_BLOCKSIZE_def)

text \<open>Returns the number of bytes written and the output.\<close>

definition CBCEncrypt :: "(bytes \<Rightarrow> bytes) \<Rightarrow> bytes \<Rightarrow> bytes \<Rightarrow> bool \<Rightarrow> nat \<times> bytes" where
  "CBCEncrypt enc iv data pad =
     (let size = length data; padsize = size mod AES_BLOCKSIZE
      in if size = 0 then (0, [])
         else if \<not> pad \<and> padsize \<noteq> 0 then (0, [])
         else let (out, mixed, rest) = CBCEncrypt_loop enc iv data
              in if pad
                 then let fill = replicate (AES_BLOCKSIZE - padsize) (of_nat (AES_BLOCKSIZE - padsize));
                          c = enc (map2 (XOR) mixed (rest @ fill))
                      in (length out + AES_BLOCKSIZE, out @ c)
                 else (length out, out))"

function CBCDecrypt_loop :: "(bytes \<Rightarrow> bytes) \<Rightarrow> bytes \<Rightarrow> bytes \<Rightarrow> bytes" where
  "CBCDecrypt_loop dec prev data =
     (if data = [] then []
      else map2 (XOR) (dec (take AES_BLOCKSIZE data)) prev
           @ CBCDecrypt_loop dec (take AES_BLOCKSIZE data) (drop AES_BLOCKSIZE data))"
  by pat_completeness auto
termination
  by (relation "measure (\<lambda>(dec, prev, data). length data)") (auto simp: AES_BLOCKSIZE_def)

text \<open>
  The padding check: \<open>padsize\<close> is the last byte, set to 0 when it is not between 1 and the block
  size, and each of the last \<open>padsize\<close> bytes (all positions \<open>i > AES_BLOCKSIZE - padsize\<close> of the
  last block, counted from 1) must equal it.  Returns the failure flag and the padding size.
\<close>

definition CBC_padding :: "bytes \<Rightarrow> bool \<times> nat" where
  "CBC_padding out =
     (let padsize = unat (last out);
          bad = (padsize = 0 \<or> padsize > AES_BLOCKSIZE);
          padsize = (if bad then 0 else padsize);
          fail = foldl (\<lambda>fail i. fail \<or>
                   (AES_BLOCKSIZE - padsize < i \<and>
                    unat (out ! (length out - 1 - (AES_BLOCKSIZE - i))) \<noteq> padsize))
                 bad (rev [1..<AES_BLOCKSIZE + 1])
      in (fail, padsize))"

definition CBCDecrypt :: "(bytes \<Rightarrow> bytes) \<Rightarrow> bytes \<Rightarrow> bytes \<Rightarrow> bool \<Rightarrow> nat \<times> bytes" where
  "CBCDecrypt dec iv data pad =
     (let size = length data
      in if size = 0 then (0, [])
         else if size mod AES_BLOCKSIZE \<noteq> 0 then (0, [])
         else let out = CBCDecrypt_loop dec iv data
              in if pad
                 then let (fail, padsize) = CBC_padding out
                      in ((size - padsize) * (if fail then 0 else 1), out)
                 else (size, out))"

record AES256CBC =
  cbc_key :: bytes
  cbc_iv :: bytes
  cbc_pad :: bool

definition AES256CBCEncrypt_Encrypt :: "AES256CBC \<Rightarrow> bytes \<Rightarrow> nat \<times> bytes" where
  "AES256CBCEncrypt_Encrypt c data = CBCEncrypt (AES256Encrypt_Encrypt (cbc_key c)) (cbc_iv c) data (cbc_pad c)"

definition AES256CBCDecrypt_Decrypt :: "AES256CBC \<Rightarrow> bytes \<Rightarrow> nat \<times> bytes" where
  "AES256CBCDecrypt_Decrypt c data = CBCDecrypt (AES256Decrypt_Decrypt (cbc_key c)) (cbc_iv c) data (cbc_pad c)"

definition AES128CBCEncrypt_Encrypt :: "AES256CBC \<Rightarrow> bytes \<Rightarrow> nat \<times> bytes" where
  "AES128CBCEncrypt_Encrypt c data = CBCEncrypt (AES128Encrypt_Encrypt (cbc_key c)) (cbc_iv c) data (cbc_pad c)"

definition AES128CBCDecrypt_Decrypt :: "AES256CBC \<Rightarrow> bytes \<Rightarrow> nat \<times> bytes" where
  "AES128CBCDecrypt_Decrypt c data = CBCDecrypt (AES128Decrypt_Decrypt (cbc_key c)) (cbc_iv c) data (cbc_pad c)"

declare CBCEncrypt_loop.simps [simp del] CBCDecrypt_loop.simps [simp del]

section \<open>The padding check accepts exactly well-formed padding\<close>

text \<open>The padding PKCS\#7 prescribes for a message of the given length.\<close>

definition pkcs7_pad :: "bytes \<Rightarrow> bytes" where
  "pkcs7_pad m = (let k = 16 - length m mod 16 in m @ replicate k (of_nat k))"

lemma foldl_or: "foldl (\<lambda>f i. f \<or> P i) b xs \<longleftrightarrow> b \<or> (\<exists>i\<in>set xs. P i)"
  by (induction xs arbitrary: b) auto

lemma CBC_padding_replicate:
  assumes "0 < k" "k \<le> 16" "16 \<le> length m + k"
  shows "CBC_padding (m @ replicate k (of_nat k)) = (False, k)"
proof -
  let ?out = "m @ replicate k (of_nat k :: u8)"
  have "k mod 256 = k" using assms by simp
  then have u: "unat (of_nat k :: u8) = k" by (simp add: unat_of_nat)
  have l: "last ?out = of_nat k" using assms(1) by (simp add: last_append)
  have "?out ! (length ?out - 1 - (16 - i)) = of_nat k" if "16 - k < i" "i < 17" for i
  proof -
    have "length m \<le> length ?out - 1 - (16 - i)" using that assms by simp
    moreover have "length ?out - 1 - (16 - i) - length m < k" using that assms by simp
    ultimately show ?thesis by (simp only: nth_append) simp
  qed
  with u have "\<not> (16 - k < i \<and> unat (?out ! (length ?out - 1 - (16 - i))) \<noteq> k)" if "i < 17" for i
    using that by metis
  then show ?thesis
    unfolding CBC_padding_def Let_def foldl_or l u AES_BLOCKSIZE_def using assms by auto
qed

section \<open>CBC over any block cipher\<close>

lemma xor_block: "length a = n \<Longrightarrow> length b = n \<Longrightarrow> map2 (XOR) (map2 (XOR) a b) a = (b :: bytes)"
  by (intro nth_equalityI) (auto simp: xor.assoc xor.commute xor.left_commute)

lemma length_map2_block [simp]: "length a = 16 \<Longrightarrow> length b = 16 \<Longrightarrow> length (map2 (XOR) a (b :: bytes)) = 16"
  by simp

context block_cipher
begin

text \<open>What the encryption loop has written decrypts to the whole blocks it read.\<close>

lemma decrypt_encrypt_loop:
  assumes "length mixed = 16" "CBCEncrypt_loop enc mixed data = (out, m, rest)"
  shows "length m = 16" "length out + length rest = length data" "length rest = length data mod 16"
    "\<exists>whole. data = whole @ rest \<and> length whole = length out \<and>
       (\<forall>tail. CBCDecrypt_loop dec mixed (out @ tail) = whole @ CBCDecrypt_loop dec m tail)"
proof -
  have "length m = 16 \<and> length out + length rest = length data \<and> length rest = length data mod 16 \<and>
     (\<exists>whole. data = whole @ rest \<and> length whole = length out \<and>
       (\<forall>tail. CBCDecrypt_loop dec mixed (out @ tail) = whole @ CBCDecrypt_loop dec m tail))"
    using assms
  proof (induction "length data" arbitrary: mixed data out rule: less_induct)
    case less
    show ?case
    proof (cases "16 \<le> length data")
      case False
      then show ?thesis using less.prems
        by (auto simp: CBCEncrypt_loop.simps[of enc mixed data] AES_BLOCKSIZE_def)
    next
      case True
      let ?x = "map2 (XOR) mixed (take 16 data)"
      let ?c = "enc ?x"
      have x: "length ?x = 16" using True less.prems(1) by simp
      then have c: "length ?c = 16" by (rule enc_length)
      obtain out' where loop: "CBCEncrypt_loop enc ?c (drop 16 data) = (out', m, rest)" and out: "out = ?c @ out'"
        using less.prems(2) True
        by (auto simp: CBCEncrypt_loop.simps[of enc mixed data] AES_BLOCKSIZE_def Let_def split: prod.splits)
      have "length (drop 16 data) < length data" using True by simp
      note H = less.hyps[OF this c loop]
      obtain whole where IH: "length m = 16" "length out' + length rest = length data - 16"
        "length rest = (length data - 16) mod 16" "drop 16 data = whole @ rest" "length whole = length out'"
        "\<And>tail. CBCDecrypt_loop dec ?c (out' @ tail) = whole @ CBCDecrypt_loop dec m tail"
        using H unfolding length_drop by blast
      have deq: "CBCDecrypt_loop dec mixed (out @ tail) = (take 16 data @ whole) @ CBCDecrypt_loop dec m tail" for tail
      proof -
        have "CBCDecrypt_loop dec mixed (out @ tail) = map2 (XOR) (dec ?c) mixed @ CBCDecrypt_loop dec ?c (out' @ tail)"
          using c by (subst CBCDecrypt_loop.simps) (auto simp: out AES_BLOCKSIZE_def)
        also have "map2 (XOR) (dec ?c) mixed = take 16 data"
          using dec_enc[OF x] less.prems(1) True by (simp add: xor_block[where n = 16])
        finally show ?thesis using IH(6) by simp
      qed
      have split: "data = (take 16 data @ whole) @ rest" using append_take_drop_id[of 16 data] by (simp add: IH(4)[symmetric])
      have "length data mod 16 = (length data - 16) mod 16" using True le_mod_geq by blast
      moreover have "length out + length rest = length data"
      proof -
        have "length out = 16 + length out'" using out c by simp
        with IH(2) True show ?thesis by linarith
      qed
      ultimately have "length m = 16 \<and> length out + length rest = length data \<and> length rest = length data mod 16"
        using IH(1,3) by metis
      moreover have "length (take 16 data @ whole) = length out" using IH(5) True out c by simp
      ultimately show ?thesis using deq split by blast
    qed
  qed
  then show "length m = 16" "length out + length rest = length data" "length rest = length data mod 16"
    "\<exists>whole. data = whole @ rest \<and> length whole = length out \<and>
       (\<forall>tail. CBCDecrypt_loop dec mixed (out @ tail) = whole @ CBCDecrypt_loop dec m tail)"
    by blast+
qed

lemma decrypt_last_block:
  assumes "length m = 16" "length b = 16"
  shows "CBCDecrypt_loop dec m (enc (map2 (XOR) m b)) = b"
proof -
  have x: "length (map2 (XOR) m b) = 16" using assms by simp
  then have "length (enc (map2 (XOR) m b)) = 16" by (rule enc_length)
  then have "CBCDecrypt_loop dec m (enc (map2 (XOR) m b)) = map2 (XOR) (dec (enc (map2 (XOR) m b))) m"
    by (subst CBCDecrypt_loop.simps) (auto simp: AES_BLOCKSIZE_def CBCDecrypt_loop.simps[of dec _ "[]"])
  then show ?thesis using dec_enc[OF x] assms by (simp add: xor_block[where n = 16])
qed

text \<open>With padding, decryption returns the message length and the padded message.\<close>

lemma cbc_round_trip_pad:
  assumes "length iv = 16" "data \<noteq> []"
  shows "fst (CBCEncrypt enc iv data True) = length (snd (CBCEncrypt enc iv data True))"
    "CBCDecrypt dec iv (snd (CBCEncrypt enc iv data True)) True = (length data, pkcs7_pad data)"
proof -
  obtain out m rest where loop: "CBCEncrypt_loop enc iv data = (out, m, rest)" by (metis prod_cases3)
  note L = decrypt_encrypt_loop[OF assms(1) loop]
  define k where "k = 16 - length data mod 16"
  define b where "b = rest @ replicate k (of_nat k :: u8)"
  define c where "c = enc (map2 (XOR) m b)"
  have lastlen: "length b = 16" using L(3) by (simp add: b_def k_def)
  have clen: "length c = 16" unfolding c_def using L(1) lastlen by (intro enc_length) simp
  have enc_eq: "CBCEncrypt enc iv data True = (length out + 16, out @ c)"
    using assms(2) by (simp add: CBCEncrypt_def loop Let_def AES_BLOCKSIZE_def c_def b_def k_def)
  then show "fst (CBCEncrypt enc iv data True) = length (snd (CBCEncrypt enc iv data True))"
    using clen by simp
  obtain whole where w: "data = whole @ rest" "length whole = length out"
     "CBCDecrypt_loop dec iv (out @ c) = whole @ CBCDecrypt_loop dec m c" using L(4) by blast
  have pad_eq: "pkcs7_pad data = data @ replicate k (of_nat k)"
    by (simp add: pkcs7_pad_def Let_def k_def)
  have dec_out: "CBCDecrypt_loop dec iv (out @ c) = pkcs7_pad data"
  proof -
    have "CBCDecrypt_loop dec m c = b" unfolding c_def by (rule decrypt_last_block[OF L(1) lastlen])
    then show ?thesis unfolding w(3) pad_eq using w(1) by (simp add: b_def)
  qed
  have "CBC_padding (pkcs7_pad data) = (False, k)"
    unfolding pad_eq using mod_less_eq_dividend[of "length data" 16]
    by (intro CBC_padding_replicate) (auto simp: k_def)
  moreover have "length out + 16 - k = length data" "(length out + 16) mod 16 = 0"
    using L(2,3) by (auto simp: k_def) presburger
  ultimately show "CBCDecrypt dec iv (snd (CBCEncrypt enc iv data True)) True = (length data, pkcs7_pad data)"
    using clen by (simp add: enc_eq CBCDecrypt_def Let_def dec_out AES_BLOCKSIZE_def)
qed

lemma cbc_round_trip_nopad:
  assumes "length iv = 16" "length data mod 16 = 0"
  shows "CBCDecrypt dec iv (snd (CBCEncrypt enc iv data False)) False = (length data, data)"
proof (cases "data = []")
  case True
  then show ?thesis by (simp add: CBCEncrypt_def CBCDecrypt_def Let_def)
next
  case False
  obtain out m rest where loop: "CBCEncrypt_loop enc iv data = (out, m, rest)" by (metis prod_cases3)
  note L = decrypt_encrypt_loop[OF assms(1) loop]
  have rest: "rest = []" using L(3) assms(2) by simp
  obtain whole where "data = whole @ rest" "length whole = length out"
     "CBCDecrypt_loop dec iv (out @ []) = whole @ CBCDecrypt_loop dec m []" using L(4) by blast
  then have "CBCDecrypt_loop dec iv out = data" using rest by (simp add: CBCDecrypt_loop.simps[of dec m "[]"])
  then show ?thesis
    using False rest L(2) assms(2) by (simp add: CBCEncrypt_def CBCDecrypt_def loop Let_def AES_BLOCKSIZE_def)
qed

end

section \<open>The AES classes are block ciphers\<close>

interpretation aes256: block_cipher "AES256Encrypt_Encrypt key" "AES256Decrypt_Decrypt key" for key
proof
  fix b :: bytes assume b: "length b = 16"
  show "length (AES256Encrypt_Encrypt key b) = 16"
    by (simp add: AES256Encrypt_Encrypt_def AES256_encrypt_def)
  show "AES256Decrypt_Decrypt key (AES256Encrypt_Encrypt key b) = b"
    using b wf_AES_setup[of 8 14 key]
    by (simp add: AES256Encrypt_Encrypt_def AES256Decrypt_Decrypt_def AES256_encrypt_def AES256_decrypt_def
        AES256_init_def AES_decrypt_encrypt)
qed

interpretation aes128: block_cipher "AES128Encrypt_Encrypt key" "AES128Decrypt_Decrypt key" for key
proof
  fix b :: bytes assume b: "length b = 16"
  show "length (AES128Encrypt_Encrypt key b) = 16"
    by (simp add: AES128Encrypt_Encrypt_def AES128_encrypt_def)
  show "AES128Decrypt_Decrypt key (AES128Encrypt_Encrypt key b) = b"
    using b wf_AES_setup[of 4 10 key]
    by (simp add: AES128Encrypt_Encrypt_def AES128Decrypt_Decrypt_def AES128_encrypt_def AES128_decrypt_def
        AES128_init_def AES_decrypt_encrypt)
qed

section \<open>Properties\<close>

text \<open>
  Decryption inverts encryption: for each key size, any key and any buffer of whole blocks,
  decrypting what the encryption of that buffer wrote gives the buffer back.
\<close>

theorem ctaes_decrypt_encrypt:
  assumes "length inp = 16 * blocks"
  shows "AES128_decrypt (AES128_init key) blocks (AES128_encrypt (AES128_init key) blocks inp) = inp \<and>
    AES192_decrypt (AES192_init key) blocks (AES192_encrypt (AES192_init key) blocks inp) = inp \<and>
    AES256_decrypt (AES256_init key) blocks (AES256_encrypt (AES256_init key) blocks inp) = inp"
proof -
  have "AES_blocks (AES_decrypt (AES_setup key Nk Nr) Nr) blocks (AES_blocks (AES_encrypt (AES_setup key Nk Nr) Nr) blocks inp) = inp"
    if "0 < Nk" "Nk \<le> 4 * (Nr + 1)" for Nk Nr
    using AES_decrypt_encrypt[OF wf_AES_setup[OF that]] assms by (intro AES_blocks_inverse) auto
  from this[of 4 10] this[of 6 12] this[of 8 14] show ?thesis
    by (simp add: AES128_decrypt_def AES128_encrypt_def AES128_init_def AES192_decrypt_def AES192_encrypt_def
        AES192_init_def AES256_decrypt_def AES256_encrypt_def AES256_init_def)
qed

theorem ctaes_decrypt_encrypt_witness:
  "AES256_decrypt (AES256_init (replicate 32 1)) 2 (AES256_encrypt (AES256_init (replicate 32 1)) 2 (replicate 32 5))
     = replicate 32 5"
  using ctaes_decrypt_encrypt[of "replicate 32 5" 2 "replicate 32 1"] by simp

text \<open>
  C16. CBC with padding round trips: for any key, initialisation vector and non-empty message, the
  bytes written by \<^verbatim>\<open>AES256CBCEncrypt::Encrypt\<close> decrypt to the message's length and the message
  followed by its PKCS\#7 padding, so the first \<open>length data\<close> output bytes are the message.
\<close>

theorem cbc256_pad_round_trip:
  assumes "length iv = 16" "data \<noteq> []"
  shows "AES256CBCDecrypt_Decrypt \<lparr>cbc_key = key, cbc_iv = iv, cbc_pad = True\<rparr>
      (snd (AES256CBCEncrypt_Encrypt \<lparr>cbc_key = key, cbc_iv = iv, cbc_pad = True\<rparr> data)) = (length data, pkcs7_pad data) \<and>
    take (length data) (pkcs7_pad data) = data"
  using aes256.cbc_round_trip_pad(2)[OF assms, of key]
  by (simp add: AES256CBCDecrypt_Decrypt_def AES256CBCEncrypt_Encrypt_def pkcs7_pad_def Let_def)

theorem cbc256_pad_round_trip_witness:
  "AES256CBCDecrypt_Decrypt \<lparr>cbc_key = replicate 32 3, cbc_iv = replicate 16 9, cbc_pad = True\<rparr>
     (snd (AES256CBCEncrypt_Encrypt \<lparr>cbc_key = replicate 32 3, cbc_iv = replicate 16 9, cbc_pad = True\<rparr> [1, 2, 3]))
   = (3, [1, 2, 3, 13, 13, 13, 13, 13, 13, 13, 13, 13, 13, 13, 13, 13])"
proof -
  have pad: "pkcs7_pad [1, 2, 3] = [1, 2, 3, 13, 13, 13, 13, 13, 13, 13, 13, 13, 13, 13, 13, 13]" by code_simp
  have "length (replicate 16 (9 :: u8)) = 16" "[1, 2, 3 :: u8] \<noteq> []" "length [1, 2, 3 :: u8] = 3" by simp_all
  with cbc256_pad_round_trip[of "replicate 16 9" "[1, 2, 3]" "replicate 32 3"] show ?thesis
    unfolding pad by metis
qed

text \<open>
  C17. The padding check rejects exactly malformed padding: for a decrypted buffer of at least one
  block, the check fails unless the last byte is a number \<open>k\<close> between 1 and 16 and the last \<open>k\<close>
  bytes all equal it, in which case the padding size is \<open>k\<close>.
\<close>

theorem CBC_padding_exact:
  assumes "16 \<le> length out"
  shows "((\<not> fst (CBC_padding out)) \<longleftrightarrow>
      (let k = unat (last out) in 0 < k \<and> k \<le> 16 \<and> drop (length out - k) out = replicate k (last out))) \<and>
    (fst (CBC_padding out) \<or> snd (CBC_padding out) = unat (last out))"
proof -
  let ?k = "unat (last out)"
  have tail: "(\<forall>i\<in>{1..<17}. \<not> (16 - ?k < i \<and> unat (out ! (length out - 1 - (16 - i))) \<noteq> ?k)) \<longleftrightarrow>
      drop (length out - ?k) out = replicate ?k (last out)" if k: "0 < ?k" "?k \<le> 16"
  proof
    assume ok: "\<forall>i\<in>{1..<17}. \<not> (16 - ?k < i \<and> unat (out ! (length out - 1 - (16 - i))) \<noteq> ?k)"
    show "drop (length out - ?k) out = replicate ?k (last out)"
    proof (rule nth_equalityI)
      fix j assume "j < length (drop (length out - ?k) out)"
      then have j: "j < ?k" using assms k by simp
      have "16 - (?k - 1 - j) \<in> {1..<17}" "16 - ?k < 16 - (?k - 1 - j)" using j k by auto
      moreover have "length out - 1 - (16 - (16 - (?k - 1 - j))) = length out - ?k + j" using j k assms by auto
      ultimately have "unat (out ! (length out - ?k + j)) = ?k" using ok by metis
      then have "out ! (length out - ?k + j) = last out" by (simp only: word_unat_eq_iff)
      then show "drop (length out - ?k) out ! j = replicate ?k (last out) ! j"
        using j k assms by simp
    qed (use assms k in simp)
  next
    assume eq: "drop (length out - ?k) out = replicate ?k (last out)"
    have "unat (out ! (length out - 1 - (16 - i))) = ?k" if i: "16 - ?k < i" "i < 17" for i
    proof -
      have j: "?k - 1 - (16 - i) < ?k" "length out - 1 - (16 - i) = length out - ?k + (?k - 1 - (16 - i))"
        using i k assms by auto
      then have "out ! (length out - 1 - (16 - i)) = drop (length out - ?k) out ! (?k - 1 - (16 - i))"
        using assms k by simp
      then show ?thesis using eq j(1) by simp
    qed
    then show "\<forall>i\<in>{1..<17}. \<not> (16 - ?k < i \<and> unat (out ! (length out - 1 - (16 - i))) \<noteq> ?k)" by auto
  qed
  have "(\<not> fst (CBC_padding out)) \<longleftrightarrow>
    (let k = unat (last out) in 0 < k \<and> k \<le> 16 \<and> drop (length out - k) out = replicate k (last out))"
    unfolding CBC_padding_def Let_def foldl_or fst_conv using tail by (auto simp: AES_BLOCKSIZE_def)
  moreover have "fst (CBC_padding out) \<or> snd (CBC_padding out) = unat (last out)"
    unfolding CBC_padding_def Let_def foldl_or by (auto simp: AES_BLOCKSIZE_def)
  ultimately show ?thesis by blast
qed

theorem CBC_padding_exact_witness:
  "CBC_padding (replicate 14 5 @ [2, 2]) = (False, 2)"
proof -
  let ?out = "replicate 14 5 @ [2, 2 :: u8]"
  have "drop (length ?out - 2) ?out = replicate 2 (2 :: u8)" by code_simp
  moreover have "unat (last ?out) = 2" "last ?out = 2" "16 \<le> length ?out" by simp_all
  ultimately have "\<not> fst (CBC_padding ?out)" "snd (CBC_padding ?out) = 2"
    using CBC_padding_exact[of ?out] unfolding Let_def by auto
  then show ?thesis by (simp add: prod_eq_iff)
qed

end
