(* ===== verification/Field5x52.thy ===== *)
theory Field5x52
  imports Prelude
begin

unbundle bit_operations_syntax

text \<open>
  The field arithmetic of \<^verbatim>\<open>secp256k1/src/field_5x52_impl.h\<close> and
  \<^verbatim>\<open>secp256k1/src/field_5x52_int128_impl.h\<close>, the representation the Linux build selects
  (\<^verbatim>\<open>USE_FIELD_5X52\<close>, \<^verbatim>\<open>HAVE___INT128\<close>).  A field element is five 64-bit limbs in base
  \<open>2^52\<close>; \<open>fe_val\<close> is the number it stands for and \<open>fe_mag m\<close> is the magnitude bound that the
  \<^verbatim>\<open>VERIFY\<close> build checks at run time (the \<^verbatim>\<open>magnitude\<close> and \<^verbatim>\<open>normalized\<close> fields exist only there).
  The magnitude arguments of the C code are small non-negative \<^verbatim>\<open>int\<close>s, here natural numbers.
\<close>

section \<open>Data\<close>

record secp256k1_fe =
  fe_n0 :: u64
  fe_n1 :: u64
  fe_n2 :: u64
  fe_n3 :: u64
  fe_n4 :: u64

record secp256k1_fe_storage =
  fes_n0 :: u64
  fes_n1 :: u64
  fes_n2 :: u64
  fes_n3 :: u64

abbreviation mk_fe :: "u64 \<Rightarrow> u64 \<Rightarrow> u64 \<Rightarrow> u64 \<Rightarrow> u64 \<Rightarrow> secp256k1_fe" where
  "mk_fe a b c d e \<equiv> \<lparr>fe_n0 = a, fe_n1 = b, fe_n2 = c, fe_n3 = d, fe_n4 = e\<rparr>"

text \<open>The array \<^verbatim>\<open>n[5]\<close>, for the loops that index it.\<close>

definition fe_limbs :: "secp256k1_fe \<Rightarrow> u64 list" where
  "fe_limbs a = [fe_n0 a, fe_n1 a, fe_n2 a, fe_n3 a, fe_n4 a]"

definition fe_of_limbs :: "u64 list \<Rightarrow> secp256k1_fe" where
  "fe_of_limbs l = mk_fe (l ! 0) (l ! 1) (l ! 2) (l ! 3) (l ! 4)"

definition fe_val :: "secp256k1_fe \<Rightarrow> nat" where
  "fe_val a = unat (fe_n0 a) + unat (fe_n1 a) * 2 ^ 52 + unat (fe_n2 a) * 2 ^ 104 +
     unat (fe_n3 a) * 2 ^ 156 + unat (fe_n4 a) * 2 ^ 208"

text \<open>The field prime, \<open>2^256 - 2^32 - 977\<close>.\<close>

definition fe_p :: nat where
  "fe_p = 0xFFFFFFFFFFFFFFFFFFFFFFFFFFFFFFFFFFFFFFFFFFFFFFFFFFFFFFFEFFFFFC2F"

definition fe_mag :: "nat \<Rightarrow> secp256k1_fe \<Rightarrow> bool" where
  "fe_mag m a \<longleftrightarrow>
     unat (fe_n0 a) \<le> 0xFFFFFFFFFFFFF * (2 * m) \<and> unat (fe_n1 a) \<le> 0xFFFFFFFFFFFFF * (2 * m) \<and>
     unat (fe_n2 a) \<le> 0xFFFFFFFFFFFFF * (2 * m) \<and> unat (fe_n3 a) \<le> 0xFFFFFFFFFFFFF * (2 * m) \<and>
     unat (fe_n4 a) \<le> 0x0FFFFFFFFFFFF * (2 * m)"

definition fe_normalized :: "secp256k1_fe \<Rightarrow> bool" where
  "fe_normalized a \<longleftrightarrow>
     unat (fe_n0 a) < 2 ^ 52 \<and> unat (fe_n1 a) < 2 ^ 52 \<and> unat (fe_n2 a) < 2 ^ 52 \<and>
     unat (fe_n3 a) < 2 ^ 52 \<and> unat (fe_n4 a) < 2 ^ 48 \<and> fe_val a < fe_p"

text \<open>The checks \<^verbatim>\<open>secp256k1_fe_verify\<close> makes in the \<^verbatim>\<open>VERIFY\<close> build, on the two tracked fields.\<close>

definition secp256k1_fe_verify :: "secp256k1_fe \<Rightarrow> int \<Rightarrow> bool \<Rightarrow> bool" where
  "secp256k1_fe_verify a magnitude normalized =
     (let m = (if normalized then 1 else 2 * magnitude);
          r = (uint (fe_n0 a) \<le> 0xFFFFFFFFFFFFF * m \<and> uint (fe_n1 a) \<le> 0xFFFFFFFFFFFFF * m \<and>
               uint (fe_n2 a) \<le> 0xFFFFFFFFFFFFF * m \<and> uint (fe_n3 a) \<le> 0xFFFFFFFFFFFFF * m \<and>
               uint (fe_n4 a) \<le> 0x0FFFFFFFFFFFF * m \<and> 0 \<le> magnitude \<and> magnitude \<le> 2048)
      in if normalized
         then r \<and> magnitude \<le> 1 \<and>
              (fe_n4 a = 0x0FFFFFFFFFFFF \<and> (fe_n3 a AND fe_n2 a AND fe_n1 a) = 0xFFFFFFFFFFFFF
               \<longrightarrow> fe_n0 a < 0xFFFFEFFFFFC2F)
         else r)"

section \<open>Normalization\<close>

text \<open>
  The first pass, which every normalizing routine starts with: fold the bits of \<open>t4\<close> above 48
  back into \<open>t0\<close> and propagate the carries.
\<close>

definition fe_first_pass :: "secp256k1_fe \<Rightarrow> secp256k1_fe" where
  "fe_first_pass r =
     (let t0 = fe_n0 r; t1 = fe_n1 r; t2 = fe_n2 r; t3 = fe_n3 r; t4 = fe_n4 r;
          x = drop_bit 48 t4; t4 = t4 AND 0x0FFFFFFFFFFFF;
          t0 = t0 + x * 0x1000003D1;
          t1 = t1 + drop_bit 52 t0; t0 = t0 AND 0xFFFFFFFFFFFFF;
          t2 = t2 + drop_bit 52 t1; t1 = t1 AND 0xFFFFFFFFFFFFF;
          t3 = t3 + drop_bit 52 t2; t2 = t2 AND 0xFFFFFFFFFFFFF;
          t4 = t4 + drop_bit 52 t3; t3 = t3 AND 0xFFFFFFFFFFFFF
      in mk_fe t0 t1 t2 t3 t4)"

text \<open>Whether a final reduction is needed, as 0 or 1.\<close>

definition fe_overflow_bit :: "secp256k1_fe \<Rightarrow> u64" where
  "fe_overflow_bit t =
     (let m = fe_n1 t AND fe_n2 t AND fe_n3 t
      in drop_bit 48 (fe_n4 t) OR
         (of_bool (fe_n4 t = 0x0FFFFFFFFFFFF) AND of_bool (m = 0xFFFFFFFFFFFFF)
          AND of_bool (fe_n0 t \<ge> 0xFFFFEFFFFFC2F)))"

definition fe_final_pass :: "secp256k1_fe \<Rightarrow> u64 \<Rightarrow> secp256k1_fe" where
  "fe_final_pass t x =
     (let t0 = fe_n0 t; t1 = fe_n1 t; t2 = fe_n2 t; t3 = fe_n3 t; t4 = fe_n4 t;
          t0 = t0 + x * 0x1000003D1;
          t1 = t1 + drop_bit 52 t0; t0 = t0 AND 0xFFFFFFFFFFFFF;
          t2 = t2 + drop_bit 52 t1; t1 = t1 AND 0xFFFFFFFFFFFFF;
          t3 = t3 + drop_bit 52 t2; t2 = t2 AND 0xFFFFFFFFFFFFF;
          t4 = t4 + drop_bit 52 t3; t3 = t3 AND 0xFFFFFFFFFFFFF;
          t4 = t4 AND 0x0FFFFFFFFFFFF
      in mk_fe t0 t1 t2 t3 t4)"

definition secp256k1_fe_normalize :: "secp256k1_fe \<Rightarrow> secp256k1_fe" where
  "secp256k1_fe_normalize r =
     (let t = fe_first_pass r; x = fe_overflow_bit t in fe_final_pass t x)"

definition secp256k1_fe_normalize_weak :: "secp256k1_fe \<Rightarrow> secp256k1_fe" where
  "secp256k1_fe_normalize_weak r = fe_first_pass r"

definition secp256k1_fe_normalize_var :: "secp256k1_fe \<Rightarrow> secp256k1_fe" where
  "secp256k1_fe_normalize_var r =
     (let t = fe_first_pass r; x = fe_overflow_bit t
      in if x \<noteq> 0 then fe_final_pass t 1 else t)"

definition secp256k1_fe_normalizes_to_zero :: "secp256k1_fe \<Rightarrow> bool" where
  "secp256k1_fe_normalizes_to_zero r =
     (let t = fe_first_pass r;
          z0 = fe_n0 t OR fe_n1 t OR fe_n2 t OR fe_n3 t OR fe_n4 t;
          z1 = (fe_n0 t XOR 0x1000003D0) AND fe_n1 t AND fe_n2 t AND fe_n3 t
               AND (fe_n4 t XOR 0xF000000000000)
      in z0 = 0 \<or> z1 = 0xFFFFFFFFFFFFF)"

definition secp256k1_fe_normalizes_to_zero_var :: "secp256k1_fe \<Rightarrow> bool" where
  "secp256k1_fe_normalizes_to_zero_var r =
     (let t0 = fe_n0 r; t4 = fe_n4 r; x = drop_bit 48 t4;
          t0 = t0 + x * 0x1000003D1;
          z0 = t0 AND 0xFFFFFFFFFFFFF; z1 = z0 XOR 0x1000003D0
      in if z0 \<noteq> 0 \<and> z1 \<noteq> 0xFFFFFFFFFFFFF then False
         else let t1 = fe_n1 r; t2 = fe_n2 r; t3 = fe_n3 r; t4 = t4 AND 0x0FFFFFFFFFFFF;
                  t1 = t1 + drop_bit 52 t0;
                  t2 = t2 + drop_bit 52 t1; t1 = t1 AND 0xFFFFFFFFFFFFF; z0 = z0 OR t1; z1 = z1 AND t1;
                  t3 = t3 + drop_bit 52 t2; t2 = t2 AND 0xFFFFFFFFFFFFF; z0 = z0 OR t2; z1 = z1 AND t2;
                  t4 = t4 + drop_bit 52 t3; t3 = t3 AND 0xFFFFFFFFFFFFF; z0 = z0 OR t3; z1 = z1 AND t3;
                  z0 = z0 OR t4; z1 = z1 AND (t4 XOR 0xF000000000000)
              in z0 = 0 \<or> z1 = 0xFFFFFFFFFFFFF)"

section \<open>Simple operations\<close>

definition secp256k1_fe_set_int :: "int \<Rightarrow> secp256k1_fe" where
  "secp256k1_fe_set_int a = mk_fe (word_of_int a) 0 0 0 0"

definition secp256k1_fe_is_zero :: "secp256k1_fe \<Rightarrow> bool" where
  "secp256k1_fe_is_zero a \<longleftrightarrow> (fe_n0 a OR fe_n1 a OR fe_n2 a OR fe_n3 a OR fe_n4 a) = 0"

definition secp256k1_fe_is_odd :: "secp256k1_fe \<Rightarrow> bool" where
  "secp256k1_fe_is_odd a \<longleftrightarrow> fe_n0 a AND 1 \<noteq> 0"

definition secp256k1_fe_clear :: "secp256k1_fe \<Rightarrow> secp256k1_fe" where
  "secp256k1_fe_clear a = mk_fe 0 0 0 0 0"

text \<open>The comparison loop runs over the limbs from the most significant one.\<close>

fun fe_cmp_loop :: "(u64 \<times> u64) list \<Rightarrow> int" where
  "fe_cmp_loop [] = 0"
| "fe_cmp_loop ((x, y) # ps) = (if x > y then 1 else if x < y then -1 else fe_cmp_loop ps)"

definition secp256k1_fe_cmp_var :: "secp256k1_fe \<Rightarrow> secp256k1_fe \<Rightarrow> int" where
  "secp256k1_fe_cmp_var a b = fe_cmp_loop (rev (zip (fe_limbs a) (fe_limbs b)))"

definition secp256k1_fe_negate :: "secp256k1_fe \<Rightarrow> nat \<Rightarrow> secp256k1_fe" where
  "secp256k1_fe_negate a m =
     mk_fe (0xFFFFEFFFFFC2F * 2 * of_nat (m + 1) - fe_n0 a)
           (0xFFFFFFFFFFFFF * 2 * of_nat (m + 1) - fe_n1 a)
           (0xFFFFFFFFFFFFF * 2 * of_nat (m + 1) - fe_n2 a)
           (0xFFFFFFFFFFFFF * 2 * of_nat (m + 1) - fe_n3 a)
           (0x0FFFFFFFFFFFF * 2 * of_nat (m + 1) - fe_n4 a)"

definition secp256k1_fe_mul_int :: "secp256k1_fe \<Rightarrow> nat \<Rightarrow> secp256k1_fe" where
  "secp256k1_fe_mul_int r a =
     mk_fe (fe_n0 r * of_nat a) (fe_n1 r * of_nat a) (fe_n2 r * of_nat a)
           (fe_n3 r * of_nat a) (fe_n4 r * of_nat a)"

definition secp256k1_fe_add :: "secp256k1_fe \<Rightarrow> secp256k1_fe \<Rightarrow> secp256k1_fe" where
  "secp256k1_fe_add r a =
     mk_fe (fe_n0 r + fe_n0 a) (fe_n1 r + fe_n1 a) (fe_n2 r + fe_n2 a)
           (fe_n3 r + fe_n3 a) (fe_n4 r + fe_n4 a)"

definition cmov_limb :: "bool \<Rightarrow> u64 \<Rightarrow> u64 \<Rightarrow> u64" where
  "cmov_limb flag r a =
     (let mask0 = of_bool flag + NOT 0; mask1 = NOT mask0 in (r AND mask0) OR (a AND mask1))"

definition secp256k1_fe_cmov :: "secp256k1_fe \<Rightarrow> secp256k1_fe \<Rightarrow> bool \<Rightarrow> secp256k1_fe" where
  "secp256k1_fe_cmov r a flag =
     mk_fe (cmov_limb flag (fe_n0 r) (fe_n0 a)) (cmov_limb flag (fe_n1 r) (fe_n1 a))
           (cmov_limb flag (fe_n2 r) (fe_n2 a)) (cmov_limb flag (fe_n3 r) (fe_n3 a))
           (cmov_limb flag (fe_n4 r) (fe_n4 a))"

section \<open>Bytes and storage\<close>

definition fe_set_b32_limbs :: "bytes \<Rightarrow> u64 list" where
  "fe_set_b32_limbs a =
     foldl (\<lambda>n i. foldl (\<lambda>n j.
         let limb = (8 * i + 4 * j) div 52; shift = (8 * i + 4 * j) mod 52
         in n[limb := n ! limb OR push_bit shift (ucast (drop_bit (4 * j) (a ! (31 - i)) AND 0xF))])
       n [0..<2]) (replicate 5 0) [0..<32]"

text \<open>Returns the element and whether it is below the field prime.\<close>

definition secp256k1_fe_set_b32 :: "bytes \<Rightarrow> secp256k1_fe \<times> bool" where
  "secp256k1_fe_set_b32 a =
     (let r = fe_of_limbs (fe_set_b32_limbs a)
      in (r, \<not> (fe_n4 r = 0x0FFFFFFFFFFFF \<and> (fe_n3 r AND fe_n2 r AND fe_n1 r) = 0xFFFFFFFFFFFFF
                 \<and> fe_n0 r \<ge> 0xFFFFEFFFFFC2F)))"

definition fe_get_byte :: "u64 list \<Rightarrow> nat \<Rightarrow> u8" where
  "fe_get_byte n i =
     foldl (\<lambda>c j.
       let limb = (8 * i + 4 * j) div 52; shift = (8 * i + 4 * j) mod 52
       in c OR push_bit (4 * j) (ucast (drop_bit shift (n ! limb) AND 0xF))) 0 [0..<2]"

definition secp256k1_fe_get_b32 :: "secp256k1_fe \<Rightarrow> bytes" where
  "secp256k1_fe_get_b32 a = map (\<lambda>k. fe_get_byte (fe_limbs a) (31 - k)) [0..<32]"

definition secp256k1_fe_storage_cmov ::
  "secp256k1_fe_storage \<Rightarrow> secp256k1_fe_storage \<Rightarrow> bool \<Rightarrow> secp256k1_fe_storage" where
  "secp256k1_fe_storage_cmov r a flag =
     \<lparr>fes_n0 = cmov_limb flag (fes_n0 r) (fes_n0 a), fes_n1 = cmov_limb flag (fes_n1 r) (fes_n1 a),
      fes_n2 = cmov_limb flag (fes_n2 r) (fes_n2 a), fes_n3 = cmov_limb flag (fes_n3 r) (fes_n3 a)\<rparr>"

definition secp256k1_fe_to_storage :: "secp256k1_fe \<Rightarrow> secp256k1_fe_storage" where
  "secp256k1_fe_to_storage a =
     \<lparr>fes_n0 = fe_n0 a OR push_bit 52 (fe_n1 a),
      fes_n1 = drop_bit 12 (fe_n1 a) OR push_bit 40 (fe_n2 a),
      fes_n2 = drop_bit 24 (fe_n2 a) OR push_bit 28 (fe_n3 a),
      fes_n3 = drop_bit 36 (fe_n3 a) OR push_bit 16 (fe_n4 a)\<rparr>"

definition secp256k1_fe_from_storage :: "secp256k1_fe_storage \<Rightarrow> secp256k1_fe" where
  "secp256k1_fe_from_storage a =
     mk_fe (fes_n0 a AND 0xFFFFFFFFFFFFF)
           (drop_bit 52 (fes_n0 a) OR (push_bit 12 (fes_n1 a) AND 0xFFFFFFFFFFFFF))
           (drop_bit 40 (fes_n1 a) OR (push_bit 24 (fes_n2 a) AND 0xFFFFFFFFFFFFF))
           (drop_bit 28 (fes_n2 a) OR (push_bit 36 (fes_n3 a) AND 0xFFFFFFFFFFFFF))
           (drop_bit 16 (fes_n3 a))"

section \<open>Multiplication\<close>

text \<open>\<^verbatim>\<open>(uint128_t)a * b\<close> and the narrowing \<^verbatim>\<open>x & M\<close> of a 128-bit value.\<close>

definition mul128 :: "u64 \<Rightarrow> u64 \<Rightarrow> u128" where
  "mul128 a b = ucast a * ucast b"

definition secp256k1_fe_mul_inner :: "secp256k1_fe \<Rightarrow> secp256k1_fe \<Rightarrow> secp256k1_fe" where
  "secp256k1_fe_mul_inner a b =
     (let M = 0xFFFFFFFFFFFFF :: u128; R = 0x1000003D10 :: u128;
          a0 = fe_n0 a; a1 = fe_n1 a; a2 = fe_n2 a; a3 = fe_n3 a; a4 = fe_n4 a;
          b0 = fe_n0 b; b1 = fe_n1 b; b2 = fe_n2 b; b3 = fe_n3 b; b4 = fe_n4 b;
          d = mul128 a0 b3 + mul128 a1 b2 + mul128 a2 b1 + mul128 a3 b0;
          c = mul128 a4 b4;
          d = d + (c AND M) * R; c = drop_bit 52 c;
          t3 = (ucast (d AND M) :: u64); d = drop_bit 52 d;
          d = d + (mul128 a0 b4 + mul128 a1 b3 + mul128 a2 b2 + mul128 a3 b1 + mul128 a4 b0);
          d = d + c * R;
          t4 = (ucast (d AND M) :: u64); d = drop_bit 52 d;
          tx = drop_bit 48 t4; t4 = t4 AND drop_bit 4 0xFFFFFFFFFFFFF;
          c = mul128 a0 b0;
          d = d + (mul128 a1 b4 + mul128 a2 b3 + mul128 a3 b2 + mul128 a4 b1);
          u0 = (ucast (d AND M) :: u64); d = drop_bit 52 d;
          u0 = push_bit 4 u0 OR tx;
          c = c + mul128 u0 (drop_bit 4 0x1000003D10);
          r0 = (ucast (c AND M) :: u64); c = drop_bit 52 c;
          c = c + (mul128 a0 b1 + mul128 a1 b0);
          d = d + (mul128 a2 b4 + mul128 a3 b3 + mul128 a4 b2);
          c = c + (d AND M) * R; d = drop_bit 52 d;
          r1 = (ucast (c AND M) :: u64); c = drop_bit 52 c;
          c = c + (mul128 a0 b2 + mul128 a1 b1 + mul128 a2 b0);
          d = d + (mul128 a3 b4 + mul128 a4 b3);
          c = c + (d AND M) * R; d = drop_bit 52 d;
          r2 = (ucast (c AND M) :: u64); c = drop_bit 52 c;
          c = c + (d * R + ucast t3);
          r3 = (ucast (c AND M) :: u64); c = drop_bit 52 c;
          c = c + ucast t4;
          r4 = (ucast c :: u64)
      in mk_fe r0 r1 r2 r3 r4)"

definition secp256k1_fe_sqr_inner :: "secp256k1_fe \<Rightarrow> secp256k1_fe" where
  "secp256k1_fe_sqr_inner a =
     (let M = 0xFFFFFFFFFFFFF :: u128; R = 0x1000003D10 :: u128;
          a0 = fe_n0 a; a1 = fe_n1 a; a2 = fe_n2 a; a3 = fe_n3 a; a4 = fe_n4 a;
          d = mul128 (a0 * 2) a3 + mul128 (a1 * 2) a2;
          c = mul128 a4 a4;
          d = d + (c AND M) * R; c = drop_bit 52 c;
          t3 = (ucast (d AND M) :: u64); d = drop_bit 52 d;
          a4 = a4 * 2;
          d = d + (mul128 a0 a4 + mul128 (a1 * 2) a3 + mul128 a2 a2);
          d = d + c * R;
          t4 = (ucast (d AND M) :: u64); d = drop_bit 52 d;
          tx = drop_bit 48 t4; t4 = t4 AND drop_bit 4 0xFFFFFFFFFFFFF;
          c = mul128 a0 a0;
          d = d + (mul128 a1 a4 + mul128 (a2 * 2) a3);
          u0 = (ucast (d AND M) :: u64); d = drop_bit 52 d;
          u0 = push_bit 4 u0 OR tx;
          c = c + mul128 u0 (drop_bit 4 0x1000003D10);
          r0 = (ucast (c AND M) :: u64); c = drop_bit 52 c;
          a0 = a0 * 2;
          c = c + mul128 a0 a1;
          d = d + (mul128 a2 a4 + mul128 a3 a3);
          c = c + (d AND M) * R; d = drop_bit 52 d;
          r1 = (ucast (c AND M) :: u64); c = drop_bit 52 c;
          c = c + (mul128 a0 a2 + mul128 a1 a1);
          d = d + mul128 a3 a4;
          c = c + (d AND M) * R; d = drop_bit 52 d;
          r2 = (ucast (c AND M) :: u64); c = drop_bit 52 c;
          c = c + (d * R + ucast t3);
          r3 = (ucast (c AND M) :: u64); c = drop_bit 52 c;
          c = c + ucast t4;
          r4 = (ucast c :: u64)
      in mk_fe r0 r1 r2 r3 r4)"

definition secp256k1_fe_mul :: "secp256k1_fe \<Rightarrow> secp256k1_fe \<Rightarrow> secp256k1_fe" where
  "secp256k1_fe_mul a b = secp256k1_fe_mul_inner a b"

definition secp256k1_fe_sqr :: "secp256k1_fe \<Rightarrow> secp256k1_fe" where
  "secp256k1_fe_sqr a = secp256k1_fe_sqr_inner a"

end
