(* ===== verification/Field5x52_Mul.thy ===== *)
theory Field5x52_Mul
  imports Field5x52
begin

unbundle bit_operations_syntax

text \<open>
  Correctness of the 5x52 multiplication and squaring.  Both are an instance of one reduction of
  nine column sums; the reduction is exact (no 128-bit or 64-bit word wraps) and its result is
  congruent to the weighted sum of the columns modulo the field prime.
\<close>

section \<open>The reduction of the column sums\<close>

definition fe_reduce ::
  "u128 \<Rightarrow> u128 \<Rightarrow> u128 \<Rightarrow> u128 \<Rightarrow> u128 \<Rightarrow> u128 \<Rightarrow> u128 \<Rightarrow> u128 \<Rightarrow> u128 \<Rightarrow> secp256k1_fe" where
  "fe_reduce p0 p1 p2 p3 p4 p5 p6 p7 p8 =
     (let M = 0xFFFFFFFFFFFFF :: u128; R = 0x1000003D10 :: u128;
          d1 = p3 + (p8 AND M) * R;
          d4 = drop_bit 52 d1 + p4 + drop_bit 52 p8 * R;
          t4 = (ucast (d4 AND M) :: u64);
          d6 = drop_bit 52 d4 + p5;
          c3 = p0 + mul128 (push_bit 4 (ucast (d6 AND M)) OR drop_bit 48 t4) (drop_bit 4 0x1000003D10);
          d8 = drop_bit 52 d6 + p6;
          c6 = drop_bit 52 c3 + p1 + (d8 AND M) * R;
          d10 = drop_bit 52 d8 + p7;
          c9 = drop_bit 52 c6 + p2 + (d10 AND M) * R;
          c11 = drop_bit 52 c9 + (drop_bit 52 d10 * R + ucast (ucast (d1 AND M) :: u64))
      in mk_fe (ucast (c3 AND M)) (ucast (c6 AND M)) (ucast (c9 AND M)) (ucast (c11 AND M))
           (ucast (drop_bit 52 c11 + ucast (t4 AND drop_bit 4 0xFFFFFFFFFFFFF))))"

text \<open>The limb bounds under which the column sums fit, what magnitude 8 gives.\<close>

definition fe_lt56 :: "secp256k1_fe \<Rightarrow> bool" where
  "fe_lt56 a \<longleftrightarrow> unat (fe_n0 a) < 2 ^ 56 \<and> unat (fe_n1 a) < 2 ^ 56 \<and> unat (fe_n2 a) < 2 ^ 56 \<and>
     unat (fe_n3 a) < 2 ^ 56 \<and> unat (fe_n4 a) < 2 ^ 52"

text \<open>The limb bounds of every result of the reduction.\<close>

definition fe_reduced :: "secp256k1_fe \<Rightarrow> bool" where
  "fe_reduced r \<longleftrightarrow> unat (fe_n0 r) < 2 ^ 52 \<and> unat (fe_n1 r) < 2 ^ 52 \<and> unat (fe_n2 r) < 2 ^ 52 \<and>
     unat (fe_n3 r) < 2 ^ 52 \<and> unat (fe_n4 r) < 2 ^ 49 - 2"

lemma fe_mul_inner_reduce:
  "secp256k1_fe_mul_inner a b =
     (let a0 = fe_n0 a; a1 = fe_n1 a; a2 = fe_n2 a; a3 = fe_n3 a; a4 = fe_n4 a;
          b0 = fe_n0 b; b1 = fe_n1 b; b2 = fe_n2 b; b3 = fe_n3 b; b4 = fe_n4 b
      in fe_reduce (mul128 a0 b0) (mul128 a0 b1 + mul128 a1 b0)
           (mul128 a0 b2 + mul128 a1 b1 + mul128 a2 b0)
           (mul128 a0 b3 + mul128 a1 b2 + mul128 a2 b1 + mul128 a3 b0)
           (mul128 a0 b4 + mul128 a1 b3 + mul128 a2 b2 + mul128 a3 b1 + mul128 a4 b0)
           (mul128 a1 b4 + mul128 a2 b3 + mul128 a3 b2 + mul128 a4 b1)
           (mul128 a2 b4 + mul128 a3 b3 + mul128 a4 b2) (mul128 a3 b4 + mul128 a4 b3) (mul128 a4 b4))"
  unfolding secp256k1_fe_mul_inner_def fe_reduce_def Let_def by (rule refl)

lemma fe_sqr_inner_reduce:
  "secp256k1_fe_sqr_inner a =
     (let a0 = fe_n0 a; a1 = fe_n1 a; a2 = fe_n2 a; a3 = fe_n3 a; a4 = fe_n4 a
      in fe_reduce (mul128 a0 a0) (mul128 (a0 * 2) a1) (mul128 (a0 * 2) a2 + mul128 a1 a1)
           (mul128 (a0 * 2) a3 + mul128 (a1 * 2) a2)
           (mul128 a0 (a4 * 2) + mul128 (a1 * 2) a3 + mul128 a2 a2)
           (mul128 a1 (a4 * 2) + mul128 (a2 * 2) a3)
           (mul128 a2 (a4 * 2) + mul128 a3 a3) (mul128 a3 (a4 * 2)) (mul128 a4 a4))"
  unfolding secp256k1_fe_sqr_inner_def fe_reduce_def Let_def by (rule refl)

lemma M52: "(0xFFFFFFFFFFFFF :: 'a::len word) = mask 52"
  by (simp add: mask_eq_exp_minus_1)

lemma unat_mul128 [unat_norm]: "unat (mul128 a b) = unat a * unat b"
proof -
  have "unat a < 2 ^ 64" "unat b < 2 ^ 64" using unat_lt_exp[of a] unat_lt_exp[of b] by simp_all
  then have "unat a * unat b < 2 ^ 64 * 2 ^ 64" by (intro mult_strict_mono) simp_all
  then show ?thesis
    unfolding mul128_def by (subst unat_mult_exact) (simp_all add: unat_ucast_widen)
qed

lemma unat_and_M52 [unat_norm]: "unat ((x :: u128) AND 0xFFFFFFFFFFFFF) = unat x mod 2 ^ 52"
  unfolding M52 by (rule unat_and_mask)

lemma unat_lo52 [unat_norm]: "unat (ucast ((x :: u128) AND 0xFFFFFFFFFFFFF) :: u64) = unat x mod 2 ^ 52"
proof -
  have "unat x mod 2 ^ 52 < 2 ^ 64" by (rule order.strict_trans[of _ "2 ^ 52"]) simp_all
  then show ?thesis unfolding unat_ucast_mod unat_and_M52 by simp
qed

lemma word_add128:
  fixes x y :: u128
  assumes "unat x = m" "unat y = k" "m + k < 2 ^ 128"
  shows "unat (x + y) = m + k"
  using assms by (simp add: unat_add_exact)

lemma word_mulR:
  fixes x :: u128
  assumes "unat x = m" "m * 0x1000003D10 < 2 ^ 128"
  shows "unat (x * 0x1000003D10) = m * 0x1000003D10"
  using assms by (subst unat_mult_exact) simp_all

lemma div52_bound: "(x::nat) < k * 2 ^ 52 \<Longrightarrow> x div 2 ^ 52 < k"
  by (simp add: less_mult_imp_div_less)

lemma or_shift4:
  fixes u t :: u64
  assumes "unat u < 2 ^ 52" "unat t < 16"
  shows "unat (push_bit 4 u OR t) = unat u * 16 + unat t"
proof -
  have t: "unat t < 2 ^ 4" using assms(2) by simp
  have eq: "push_bit 4 u OR t = push_bit 4 u + t"
  proof (rule disjunctive_add[symmetric])
    fix n
    show "\<not> bit (push_bit 4 u) n \<or> \<not> bit t n"
      using bit_unat_less[OF t, of n] by (auto simp: bit_push_bit_iff)
  qed
  have "unat (push_bit 4 u) = unat u * 16"
    using assms(1) by (subst unat_push_bit_exact) simp_all
  then show ?thesis using assms unfolding eq by (subst unat_add_exact) simp_all
qed

text \<open>The weighted sum of the columns against the result, with every quotient that is dropped.\<close>

lemma reduce_identity:
  fixes p0 p1 p2 p3 p4 p5 p6 p7 p8 :: int
  assumes d1: "p3 + cl * 0x1000003D10 = dh1 * 2 ^ 52 + t3"
    and c0: "p8 = c1 * 2 ^ 52 + cl"
    and d4: "dh1 + p4 + c1 * 0x1000003D10 = d5 * 2 ^ 52 + tx * 2 ^ 48 + t4"
    and d6: "d5 + p5 = d7 * 2 ^ 52 + u"
    and c3: "p0 + (u * 16 + tx) * 0x1000003D1 = c4 * 2 ^ 52 + r0"
    and d8: "d7 + p6 = d9 * 2 ^ 52 + dl8"
    and c6: "c4 + p1 + dl8 * 0x1000003D10 = c7 * 2 ^ 52 + r1"
    and d10: "d9 + p7 = d11 * 2 ^ 52 + dl10"
    and c9: "c7 + p2 + dl10 * 0x1000003D10 = c10 * 2 ^ 52 + r2"
    and c11: "c10 + (d11 * 0x1000003D10 + t3) = c12 * 2 ^ 52 + r3"
    and c13: "c12 + t4 = r4"
  shows "p0 + p1 * 2 ^ 52 + p2 * 2 ^ 104 + p3 * 2 ^ 156 + p4 * 2 ^ 208 + p5 * 2 ^ 260 + p6 * 2 ^ 312 + p7 * 2 ^ 364 + p8 * 2 ^ 416 =
     r0 + r1 * 2 ^ 52 + r2 * 2 ^ 104 + r3 * 2 ^ 156 + r4 * 2 ^ 208 +
     (2 ^ 256 - 0x1000003D1) * (16 * (cl * 2 ^ 156 + c1 * 2 ^ 208 + dl8 * 2 ^ 52 + dl10 * 2 ^ 104 + d11 * 2 ^ 156) + (u * 16 + tx))"
  using assms by (simp add: algebra_simps)

lemma reduce_exact:
  fixes p0 p1 p2 p3 p4 p5 p6 p7 p8 :: u128
  assumes b: "unat p0 < 2 ^ 112" "unat p1 < 2 ^ 113" "unat p2 < 2 ^ 114" "unat p3 < 2 ^ 114" "unat p4 < 2 ^ 115"
    "unat p5 < 2 ^ 114" "unat p6 < 2 ^ 113" "unat p7 < 2 ^ 110" "unat p8 < 2 ^ 104"
  defines "d1 \<equiv> p3 + (p8 AND 0xFFFFFFFFFFFFF) * 0x1000003D10"
  defines "d4 \<equiv> drop_bit 52 d1 + p4 + drop_bit 52 p8 * 0x1000003D10"
  defines "t4 \<equiv> (ucast (d4 AND 0xFFFFFFFFFFFFF) :: u64)"
  defines "d6 \<equiv> drop_bit 52 d4 + p5"
  defines "c3 \<equiv> p0 + mul128 (push_bit 4 (ucast (d6 AND 0xFFFFFFFFFFFFF)) OR drop_bit 48 t4) (drop_bit 4 0x1000003D10)"
  shows "unat d1 = unat p3 + unat p8 mod 2 ^ 52 * 0x1000003D10" "unat d1 < 2 ^ 115"
    "unat d4 = unat d1 div 2 ^ 52 + unat p4 + unat p8 div 2 ^ 52 * 0x1000003D10" "unat d4 < 2 ^ 116"
    "unat d6 = unat d4 div 2 ^ 52 + unat p5" "unat d6 < 2 ^ 115"
    "unat c3 = unat p0 + (unat d6 mod 2 ^ 52 * 16 + unat d4 mod 2 ^ 52 div 2 ^ 48) * 0x1000003D1" "unat c3 < 2 ^ 113"
    "unat (t4 AND drop_bit 4 0xFFFFFFFFFFFFF) = unat d4 mod 2 ^ 48"
proof -
  have m: "unat p8 mod 2 ^ 52 < 2 ^ 52" by simp
  show d1: "unat d1 = unat p3 + unat p8 mod 2 ^ 52 * 0x1000003D10"
    unfolding d1_def using b(4) m by (intro word_add128 word_mulR unat_and_M52 refl) simp_all
  show d1b: "unat d1 < 2 ^ 115" unfolding d1 using b(4) m by simp
  have c1b: "unat p8 div 2 ^ 52 < 2 ^ 52" using b(9) by (intro div52_bound) simp
  have dh: "unat d1 div 2 ^ 52 < 2 ^ 63" using d1b by (intro div52_bound) simp
  show d4: "unat d4 = unat d1 div 2 ^ 52 + unat p4 + unat p8 div 2 ^ 52 * 0x1000003D10"
    unfolding d4_def using b(5) dh c1b
    by (intro word_add128 word_mulR unat_drop_bit refl) simp_all
  show d4b: "unat d4 < 2 ^ 116" unfolding d4 using b(5) dh c1b by simp
  have dh4: "unat d4 div 2 ^ 52 < 2 ^ 64" using d4b by (intro div52_bound) simp
  show d6: "unat d6 = unat d4 div 2 ^ 52 + unat p5"
    unfolding d6_def using b(6) dh4 by (intro word_add128 unat_drop_bit refl) simp_all
  show d6b: "unat d6 < 2 ^ 115" unfolding d6 using b(6) dh4 by simp
  have tx: "unat (drop_bit 48 t4) = unat d4 mod 2 ^ 52 div 2 ^ 48" by (simp add: t4_def unat_drop_bit unat_lo52)
  have "drop_bit 4 (0xFFFFFFFFFFFFF :: u64) = mask 48" by (simp add: mask_eq_exp_minus_1)
  then have "unat (t4 AND drop_bit 4 0xFFFFFFFFFFFFF) = unat t4 mod 2 ^ 48" by (simp only: unat_and_mask)
  then show "unat (t4 AND drop_bit 4 0xFFFFFFFFFFFFF) = unat d4 mod 2 ^ 48" by (simp add: t4_def unat_lo52 mod_mod_cancel)
  have "unat (drop_bit 48 t4) < 16" unfolding tx by (rule less_mult_imp_div_less) simp
  moreover have "unat (ucast (d6 AND 0xFFFFFFFFFFFFF) :: u64) = unat d6 mod 2 ^ 52" by (rule unat_lo52)
  ultimately have u0: "unat (push_bit 4 (ucast (d6 AND 0xFFFFFFFFFFFFF)) OR drop_bit 48 t4) = unat d6 mod 2 ^ 52 * 16 + unat (drop_bit 48 t4)"
      and u0b: "unat d6 mod 2 ^ 52 * 16 + unat (drop_bit 48 t4) < 2 ^ 56"
    by (simp_all add: or_shift4)
  have R4: "unat (drop_bit 4 0x1000003D10 :: u64) = 0x1000003D1" by simp
  have "unat (mul128 (push_bit 4 (ucast (d6 AND 0xFFFFFFFFFFFFF)) OR drop_bit 48 t4) (drop_bit 4 0x1000003D10)) =
      (unat d6 mod 2 ^ 52 * 16 + unat (drop_bit 48 t4)) * 0x1000003D1" by (simp only: unat_mul128 R4 u0)
  then show c3: "unat c3 = unat p0 + (unat d6 mod 2 ^ 52 * 16 + unat d4 mod 2 ^ 52 div 2 ^ 48) * 0x1000003D1"
    unfolding c3_def tx using b(1) u0b by (intro word_add128 refl) (simp_all add: tx)
  show "unat c3 < 2 ^ 113" unfolding c3 using b(1) u0b by (simp add: tx)
qed

lemma reduce_exact2:
  fixes d6 c3 p1 p2 p6 p7 :: u128 and t3 t4 :: u64
  assumes b: "unat p1 < 2 ^ 113" "unat p2 < 2 ^ 114" "unat p6 < 2 ^ 113" "unat p7 < 2 ^ 110" "unat d6 < 2 ^ 115" "unat c3 < 2 ^ 113"
    "unat t3 < 2 ^ 52" "unat t4 < 2 ^ 48"
  defines "d8 \<equiv> drop_bit 52 d6 + p6"
  defines "c6 \<equiv> drop_bit 52 c3 + p1 + (d8 AND 0xFFFFFFFFFFFFF) * 0x1000003D10"
  defines "d10 \<equiv> drop_bit 52 d8 + p7"
  defines "c9 \<equiv> drop_bit 52 c6 + p2 + (d10 AND 0xFFFFFFFFFFFFF) * 0x1000003D10"
  defines "c11 \<equiv> drop_bit 52 c9 + (drop_bit 52 d10 * 0x1000003D10 + ucast t3)"
  defines "r4 \<equiv> (ucast (drop_bit 52 c11 + ucast t4) :: u64)"
  shows "unat d8 = unat d6 div 2 ^ 52 + unat p6"
    "unat c6 = unat c3 div 2 ^ 52 + unat p1 + unat d8 mod 2 ^ 52 * 0x1000003D10"
    "unat d10 = unat d8 div 2 ^ 52 + unat p7"
    "unat c9 = unat c6 div 2 ^ 52 + unat p2 + unat d10 mod 2 ^ 52 * 0x1000003D10"
    "unat c11 = unat c9 div 2 ^ 52 + (unat d10 div 2 ^ 52 * 0x1000003D10 + unat t3)"
    "unat r4 = unat c11 div 2 ^ 52 + unat t4" "unat r4 < 2 ^ 49 - 2"
proof -
  have h6: "unat d6 div 2 ^ 52 < 2 ^ 63" using b(5) by (intro div52_bound) simp
  show d8: "unat d8 = unat d6 div 2 ^ 52 + unat p6"
    unfolding d8_def using b(3) h6 by (intro word_add128 unat_drop_bit refl) simp_all
  have d8b: "unat d8 < 2 ^ 114" unfolding d8 using b(3) h6 by simp
  have h3: "unat c3 div 2 ^ 52 < 2 ^ 61" using b(6) by (intro div52_bound) simp
  have m8: "unat d8 mod 2 ^ 52 < 2 ^ 52" "unat d10 mod 2 ^ 52 < 2 ^ 52" by simp_all
  show c6: "unat c6 = unat c3 div 2 ^ 52 + unat p1 + unat d8 mod 2 ^ 52 * 0x1000003D10"
    unfolding c6_def using b(1) h3 m8 by (intro word_add128 word_mulR unat_drop_bit unat_and_M52 refl) simp_all
  have c6b: "unat c6 < 2 ^ 114" unfolding c6 using b(1) h3 m8 by simp
  have h8: "unat d8 div 2 ^ 52 < 2 ^ 62" using d8b by (intro div52_bound) simp
  show d10: "unat d10 = unat d8 div 2 ^ 52 + unat p7"
    unfolding d10_def using b(4) h8 by (intro word_add128 unat_drop_bit refl) simp_all
  have d10b: "unat d10 < 2 ^ 111" unfolding d10 using b(4) h8 by simp
  have hc6: "unat c6 div 2 ^ 52 < 2 ^ 62" using c6b by (intro div52_bound) simp
  show c9: "unat c9 = unat c6 div 2 ^ 52 + unat p2 + unat d10 mod 2 ^ 52 * 0x1000003D10"
    unfolding c9_def using b(2) hc6 m8 by (intro word_add128 word_mulR unat_drop_bit unat_and_M52 refl) simp_all
  have c9b: "unat c9 < 2 ^ 115" unfolding c9 using b(2) hc6 m8 by simp
  have h10: "unat d10 div 2 ^ 52 < 2 ^ 59" using d10b by (intro div52_bound) simp
  have h9: "unat c9 div 2 ^ 52 < 2 ^ 63" using c9b by (intro div52_bound) simp
  have w3: "unat (ucast t3 :: u128) = unat t3" "unat (ucast t4 :: u128) = unat t4" by (simp_all add: unat_ucast_widen)
  show c11: "unat c11 = unat c9 div 2 ^ 52 + (unat d10 div 2 ^ 52 * 0x1000003D10 + unat t3)"
    unfolding c11_def using b(7) h10 h9 by (intro word_add128 word_mulR unat_drop_bit w3 refl) simp_all
  have c11b: "unat c11 < 2 ^ 97" unfolding c11 using b(7) h9 h10 by simp
  have h11: "unat c11 div 2 ^ 52 < 2 ^ 45" using c11b by (intro div52_bound) simp
  have s: "unat (drop_bit 52 c11 + ucast t4) = unat c11 div 2 ^ 52 + unat t4"
    using h11 b(8) by (intro word_add128 unat_drop_bit w3) simp
  have sb: "unat c11 div 2 ^ 52 + unat t4 < 2 ^ 49 - 2" using h11 b(8) by simp
  show r4: "unat r4 = unat c11 div 2 ^ 52 + unat t4"
    unfolding r4_def unat_ucast_mod s using sb by simp
  show "unat r4 < 2 ^ 49 - 2" unfolding r4 by (rule sb)
qed

lemma div_mod_int: "int x = int (x div n) * int n + int (x mod n)"
  by (metis div_mult_mod_eq of_nat_add of_nat_mult)

lemma mod_eq_from_int:
  assumes "int x = int y + int m * k"
  shows "x mod m = y mod m"
proof -
  have "int x mod int m = int y mod int m" unfolding assms by simp
  then show ?thesis by (metis of_nat_eq_iff zmod_int)
qed

lemma fe_reduce_correct:
  fixes p0 p1 p2 p3 p4 p5 p6 p7 p8 :: u128
  assumes b: "unat p0 < 2 ^ 112" "unat p1 < 2 ^ 113" "unat p2 < 2 ^ 114" "unat p3 < 2 ^ 114" "unat p4 < 2 ^ 115"
    "unat p5 < 2 ^ 114" "unat p6 < 2 ^ 113" "unat p7 < 2 ^ 110" "unat p8 < 2 ^ 104"
  shows "fe_reduced (fe_reduce p0 p1 p2 p3 p4 p5 p6 p7 p8)"
    "fe_val (fe_reduce p0 p1 p2 p3 p4 p5 p6 p7 p8) mod fe_p =
      (unat p0 + unat p1 * 2 ^ 52 + unat p2 * 2 ^ 104 + unat p3 * 2 ^ 156 + unat p4 * 2 ^ 208 + unat p5 * 2 ^ 260 +
       unat p6 * 2 ^ 312 + unat p7 * 2 ^ 364 + unat p8 * 2 ^ 416) mod fe_p"
proof -
  define d1 where "d1 = p3 + (p8 AND 0xFFFFFFFFFFFFF) * 0x1000003D10"
  define d4 where "d4 = drop_bit 52 d1 + p4 + drop_bit 52 p8 * 0x1000003D10"
  define t4 where "t4 = (ucast (d4 AND 0xFFFFFFFFFFFFF) :: u64)"
  define d6 where "d6 = drop_bit 52 d4 + p5"
  define c3 where "c3 = p0 + mul128 (push_bit 4 (ucast (d6 AND 0xFFFFFFFFFFFFF)) OR drop_bit 48 t4) (drop_bit 4 0x1000003D10)"
  define t3 where "t3 = (ucast (d1 AND 0xFFFFFFFFFFFFF) :: u64)"
  define t4' where "t4' = t4 AND drop_bit 4 0xFFFFFFFFFFFFF"
  note e1 = reduce_exact[OF b, folded d1_def, folded d4_def, folded t4_def d6_def, folded c3_def t4'_def]
  have t3: "unat t3 = unat d1 mod 2 ^ 52" unfolding t3_def by (rule unat_lo52)
  have tb: "unat t3 < 2 ^ 52" "unat t4' < 2 ^ 48" unfolding t3 e1(9) by simp_all
  define d8 where "d8 = drop_bit 52 d6 + p6"
  define c6 where "c6 = drop_bit 52 c3 + p1 + (d8 AND 0xFFFFFFFFFFFFF) * 0x1000003D10"
  define d10 where "d10 = drop_bit 52 d8 + p7"
  define c9 where "c9 = drop_bit 52 c6 + p2 + (d10 AND 0xFFFFFFFFFFFFF) * 0x1000003D10"
  define c11 where "c11 = drop_bit 52 c9 + (drop_bit 52 d10 * 0x1000003D10 + ucast t3)"
  define r4 where "r4 = (ucast (drop_bit 52 c11 + ucast t4') :: u64)"
  note e2 = reduce_exact2[OF b(2,3,7,8) e1(6,8) tb, folded d8_def, folded c6_def d10_def, folded c9_def, folded c11_def, folded r4_def]
  have r: "fe_reduce p0 p1 p2 p3 p4 p5 p6 p7 p8 = mk_fe (ucast (c3 AND 0xFFFFFFFFFFFFF)) (ucast (c6 AND 0xFFFFFFFFFFFFF))
      (ucast (c9 AND 0xFFFFFFFFFFFFF)) (ucast (c11 AND 0xFFFFFFFFFFFFF)) r4"
    unfolding fe_reduce_def Let_def r4_def c11_def c9_def d10_def c6_def d8_def t4'_def t3_def c3_def d6_def t4_def d4_def d1_def by (rule refl)
  show "fe_reduced (fe_reduce p0 p1 p2 p3 p4 p5 p6 p7 p8)"
    unfolding r fe_reduced_def using e2(7) by (simp add: unat_lo52)
  note I = div_mod_int[of _ "2 ^ 52"]
  have P: "int fe_p = 2 ^ 256 - 0x1000003D1" by (simp add: fe_p_def)
  have tx: "int (unat d4) = int (unat d4 div 2 ^ 52) * 2 ^ 52 + int (unat d4 mod 2 ^ 52 div 2 ^ 48) * 2 ^ 48 + int (unat t4')"
    using I[of "unat d4"] div_mod_int[of "unat d4 mod 2 ^ 52" "2 ^ 48"] unfolding e1(9) by (simp add: mod_mod_cancel)
  have "int (unat p0) + int (unat p1) * 2 ^ 52 + int (unat p2) * 2 ^ 104 + int (unat p3) * 2 ^ 156 + int (unat p4) * 2 ^ 208 +
      int (unat p5) * 2 ^ 260 + int (unat p6) * 2 ^ 312 + int (unat p7) * 2 ^ 364 + int (unat p8) * 2 ^ 416 =
     int (unat c3 mod 2 ^ 52) + int (unat c6 mod 2 ^ 52) * 2 ^ 52 + int (unat c9 mod 2 ^ 52) * 2 ^ 104 +
     int (unat c11 mod 2 ^ 52) * 2 ^ 156 + int (unat r4) * 2 ^ 208 +
     (2 ^ 256 - 0x1000003D1) * (16 * (int (unat p8 mod 2 ^ 52) * 2 ^ 156 + int (unat p8 div 2 ^ 52) * 2 ^ 208 +
       int (unat d8 mod 2 ^ 52) * 2 ^ 52 + int (unat d10 mod 2 ^ 52) * 2 ^ 104 + int (unat d10 div 2 ^ 52) * 2 ^ 156) +
      (int (unat d6 mod 2 ^ 52) * 16 + int (unat d4 mod 2 ^ 52 div 2 ^ 48)))"
  proof (rule reduce_identity)
    show "int (unat p3) + int (unat p8 mod 2 ^ 52) * 0x1000003D10 = int (unat d1 div 2 ^ 52) * 2 ^ 52 + int (unat t3)"
      using I[of "unat d1"] e1(1) t3 by simp
    show "int (unat p8) = int (unat p8 div 2 ^ 52) * 2 ^ 52 + int (unat p8 mod 2 ^ 52)" using I[of "unat p8"] by simp
    show "int (unat d1 div 2 ^ 52) + int (unat p4) + int (unat p8 div 2 ^ 52) * 0x1000003D10 =
        int (unat d4 div 2 ^ 52) * 2 ^ 52 + int (unat d4 mod 2 ^ 52 div 2 ^ 48) * 2 ^ 48 + int (unat t4')"
      using tx e1(3) by simp
    show "int (unat d4 div 2 ^ 52) + int (unat p5) = int (unat d6 div 2 ^ 52) * 2 ^ 52 + int (unat d6 mod 2 ^ 52)"
      using I[of "unat d6"] e1(5) by simp
    show "int (unat p0) + (int (unat d6 mod 2 ^ 52) * 16 + int (unat d4 mod 2 ^ 52 div 2 ^ 48)) * 0x1000003D1 =
        int (unat c3 div 2 ^ 52) * 2 ^ 52 + int (unat c3 mod 2 ^ 52)"
      using I[of "unat c3"] e1(7) by simp
    show "int (unat d6 div 2 ^ 52) + int (unat p6) = int (unat d8 div 2 ^ 52) * 2 ^ 52 + int (unat d8 mod 2 ^ 52)"
      using I[of "unat d8"] e2(1) by simp
    show "int (unat c3 div 2 ^ 52) + int (unat p1) + int (unat d8 mod 2 ^ 52) * 0x1000003D10 =
        int (unat c6 div 2 ^ 52) * 2 ^ 52 + int (unat c6 mod 2 ^ 52)"
      using I[of "unat c6"] e2(2) by simp
    show "int (unat d8 div 2 ^ 52) + int (unat p7) = int (unat d10 div 2 ^ 52) * 2 ^ 52 + int (unat d10 mod 2 ^ 52)"
      using I[of "unat d10"] e2(3) by simp
    show "int (unat c6 div 2 ^ 52) + int (unat p2) + int (unat d10 mod 2 ^ 52) * 0x1000003D10 =
        int (unat c9 div 2 ^ 52) * 2 ^ 52 + int (unat c9 mod 2 ^ 52)"
      using I[of "unat c9"] e2(4) by simp
    show "int (unat c9 div 2 ^ 52) + (int (unat d10 div 2 ^ 52) * 0x1000003D10 + int (unat t3)) =
        int (unat c11 div 2 ^ 52) * 2 ^ 52 + int (unat c11 mod 2 ^ 52)"
      using I[of "unat c11"] e2(5) by simp
    show "int (unat c11 div 2 ^ 52) + int (unat t4') = int (unat r4)" using e2(6) by simp
  qed
  then show "fe_val (fe_reduce p0 p1 p2 p3 p4 p5 p6 p7 p8) mod fe_p =
      (unat p0 + unat p1 * 2 ^ 52 + unat p2 * 2 ^ 104 + unat p3 * 2 ^ 156 + unat p4 * 2 ^ 208 + unat p5 * 2 ^ 260 +
       unat p6 * 2 ^ 312 + unat p7 * 2 ^ 364 + unat p8 * 2 ^ 416) mod fe_p"
    unfolding r by (intro mod_eq_from_int[symmetric]) (simp only: fe_val_def P unat_lo52 secp256k1_fe.simps of_nat_add of_nat_mult of_nat_power of_nat_numeral)
qed

section \<open>Multiplication and squaring\<close>

lemma fe_mag_lt56: "fe_mag 8 a \<Longrightarrow> fe_lt56 a"
  by (simp add: fe_mag_def fe_lt56_def)

lemma fe_reduced_mag: "fe_reduced r \<Longrightarrow> fe_mag 1 r"
  by (simp add: fe_mag_def fe_reduced_def)

lemma prod_bound: "(x::nat) < 2 ^ i \<Longrightarrow> y < 2 ^ j \<Longrightarrow> x * y < 2 ^ (i + j)"
  unfolding power_add by (rule mult_strict_mono) simp_all

lemma fe_mul_correct:
  assumes "fe_mag 8 a" "fe_mag 8 b"
  shows "fe_reduced (secp256k1_fe_mul a b)"
    "fe_val (secp256k1_fe_mul a b) mod fe_p = fe_val a * fe_val b mod fe_p"
proof -
  obtain a0 a1 a2 a3 a4 where a: "a = mk_fe a0 a1 a2 a3 a4" by (cases a) auto
  obtain b0 b1 b2 b3 b4 where b: "b = mk_fe b0 b1 b2 b3 b4" by (cases b) auto
  have A: "unat a0 < 2 ^ 56" "unat a1 < 2 ^ 56" "unat a2 < 2 ^ 56" "unat a3 < 2 ^ 56" "unat a4 < 2 ^ 52"
    using fe_mag_lt56[OF assms(1)] by (simp_all add: fe_lt56_def a)
  have B: "unat b0 < 2 ^ 56" "unat b1 < 2 ^ 56" "unat b2 < 2 ^ 56" "unat b3 < 2 ^ 56" "unat b4 < 2 ^ 52"
    using fe_mag_lt56[OF assms(2)] by (simp_all add: fe_lt56_def b)
  have P: "unat x * unat y < 2 ^ 112" if "x \<in> {a0, a1, a2, a3}" "y \<in> {b0, b1, b2, b3}" for x y
    using that A B prod_bound[of "unat x" 56 "unat y" 56] by auto
  have P4: "unat x * unat b4 < 2 ^ 108" if "x \<in> {a0, a1, a2, a3}" for x
    using that A B prod_bound[of "unat x" 56 "unat b4" 52] by auto
  have Q4: "unat a4 * unat x < 2 ^ 108" if "x \<in> {b0, b1, b2, b3}" for x
    using that A B prod_bound[of "unat a4" 52 "unat x" 56] by auto
  have S4: "unat a4 * unat b4 < 2 ^ 104" using A B prod_bound[of "unat a4" 52 "unat b4" 52] by simp
  define p0 where "p0 = mul128 a0 b0"
  define p1 where "p1 = mul128 a0 b1 + mul128 a1 b0"
  define p2 where "p2 = mul128 a0 b2 + mul128 a1 b1 + mul128 a2 b0"
  define p3 where "p3 = mul128 a0 b3 + mul128 a1 b2 + mul128 a2 b1 + mul128 a3 b0"
  define p4 where "p4 = mul128 a0 b4 + mul128 a1 b3 + mul128 a2 b2 + mul128 a3 b1 + mul128 a4 b0"
  define p5 where "p5 = mul128 a1 b4 + mul128 a2 b3 + mul128 a3 b2 + mul128 a4 b1"
  define p6 where "p6 = mul128 a2 b4 + mul128 a3 b3 + mul128 a4 b2"
  define p7 where "p7 = mul128 a3 b4 + mul128 a4 b3"
  define p8 where "p8 = mul128 a4 b4"
  have u0: "unat p0 = unat a0 * unat b0" "unat p0 < 2 ^ 112"
    unfolding p0_def unat_mul128 using P[of a0 b0] by simp_all
  have u1: "unat p1 = unat a0 * unat b1 + unat a1 * unat b0"
    unfolding p1_def using P[of a0 b1] P[of a1 b0] by (intro word_add128 unat_mul128) simp
  have v1: "unat p1 < 2 ^ 113" unfolding u1 using P[of a0 b1] P[of a1 b0] by simp
  have u2: "unat p2 = unat a0 * unat b2 + unat a1 * unat b1 + unat a2 * unat b0"
    unfolding p2_def using P[of a0 b2] P[of a1 b1] P[of a2 b0] by (intro word_add128 unat_mul128) simp_all
  have v2: "unat p2 < 2 ^ 114" unfolding u2 using P[of a0 b2] P[of a1 b1] P[of a2 b0] by simp
  have u3: "unat p3 = unat a0 * unat b3 + unat a1 * unat b2 + unat a2 * unat b1 + unat a3 * unat b0"
    unfolding p3_def using P[of a0 b3] P[of a1 b2] P[of a2 b1] P[of a3 b0] by (intro word_add128 unat_mul128) simp_all
  have v3: "unat p3 < 2 ^ 114" unfolding u3 using P[of a0 b3] P[of a1 b2] P[of a2 b1] P[of a3 b0] by simp
  have u4: "unat p4 = unat a0 * unat b4 + unat a1 * unat b3 + unat a2 * unat b2 + unat a3 * unat b1 + unat a4 * unat b0"
    unfolding p4_def using P4[of a0] P[of a1 b3] P[of a2 b2] P[of a3 b1] Q4[of b0] by (intro word_add128 unat_mul128) simp_all
  have v4: "unat p4 < 2 ^ 115" unfolding u4 using P4[of a0] P[of a1 b3] P[of a2 b2] P[of a3 b1] Q4[of b0] by simp
  have u5: "unat p5 = unat a1 * unat b4 + unat a2 * unat b3 + unat a3 * unat b2 + unat a4 * unat b1"
    unfolding p5_def using P4[of a1] P[of a2 b3] P[of a3 b2] Q4[of b1] by (intro word_add128 unat_mul128) simp_all
  have v5: "unat p5 < 2 ^ 114" unfolding u5 using P4[of a1] P[of a2 b3] P[of a3 b2] Q4[of b1] by simp
  have u6: "unat p6 = unat a2 * unat b4 + unat a3 * unat b3 + unat a4 * unat b2"
    unfolding p6_def using P4[of a2] P[of a3 b3] Q4[of b2] by (intro word_add128 unat_mul128) simp_all
  have v6: "unat p6 < 2 ^ 113" unfolding u6 using P4[of a2] P[of a3 b3] Q4[of b2] by simp
  have u7: "unat p7 = unat a3 * unat b4 + unat a4 * unat b3"
    unfolding p7_def using P4[of a3] Q4[of b3] by (intro word_add128 unat_mul128) simp
  have v7: "unat p7 < 2 ^ 110" unfolding u7 using P4[of a3] Q4[of b3] by simp
  have u8: "unat p8 = unat a4 * unat b4" "unat p8 < 2 ^ 104" unfolding p8_def unat_mul128 using S4 by simp_all
  have r: "secp256k1_fe_mul a b = fe_reduce p0 p1 p2 p3 p4 p5 p6 p7 p8"
    unfolding secp256k1_fe_mul_def fe_mul_inner_reduce p0_def p1_def p2_def p3_def p4_def p5_def p6_def p7_def p8_def
    by (simp add: a b)
  note c = fe_reduce_correct[OF u0(2) v1 v2 v3 v4 v5 v6 v7 u8(2), folded r]
  show "fe_reduced (secp256k1_fe_mul a b)" by (rule c(1))
  have "unat p0 + unat p1 * 2 ^ 52 + unat p2 * 2 ^ 104 + unat p3 * 2 ^ 156 + unat p4 * 2 ^ 208 + unat p5 * 2 ^ 260 +
       unat p6 * 2 ^ 312 + unat p7 * 2 ^ 364 + unat p8 * 2 ^ 416 = fe_val a * fe_val b"
    unfolding u0(1) u1 u2 u3 u4 u5 u6 u7 u8(1) by (simp add: fe_val_def a b algebra_simps)
  then show "fe_val (secp256k1_fe_mul a b) mod fe_p = fe_val a * fe_val b mod fe_p" using c(2) by simp
qed

lemma fe_sqr_eq_mul:
  assumes "fe_mag 8 a"
  shows "secp256k1_fe_sqr a = secp256k1_fe_mul a a"
proof -
  obtain a0 a1 a2 a3 a4 where a: "a = mk_fe a0 a1 a2 a3 a4" by (cases a) auto
  have A: "unat a0 < 2 ^ 56" "unat a1 < 2 ^ 56" "unat a2 < 2 ^ 56" "unat a3 < 2 ^ 56" "unat a4 < 2 ^ 52"
    using fe_mag_lt56[OF assms] by (simp_all add: fe_lt56_def a)
  have D: "mul128 (x * 2) y = mul128 x y + mul128 y x" "mul128 y (x * 2) = mul128 x y + mul128 y x"
    if "unat x < 2 ^ 63" for x y
  proof -
    have "ucast (x * 2) = (ucast x * 2 :: u128)"
      using that by (simp add: word_unat_eq_iff unat_ucast_widen unat_mult_exact)
    then show "mul128 (x * 2) y = mul128 x y + mul128 y x" "mul128 y (x * 2) = mul128 x y + mul128 y x"
      by (simp_all add: mul128_def algebra_simps)
  qed
  have "unat a0 < 2 ^ 63" "unat a1 < 2 ^ 63" "unat a2 < 2 ^ 63" "unat a4 < 2 ^ 63" using A by simp_all
  note D = this[THEN D(1)] this[THEN D(2)]
  show ?thesis
    unfolding secp256k1_fe_mul_def secp256k1_fe_sqr_def fe_mul_inner_reduce fe_sqr_inner_reduce
    by (simp add: a D Let_def) (simp add: ac_simps)
qed

lemma fe_sqr_correct:
  assumes "fe_mag 8 a"
  shows "fe_reduced (secp256k1_fe_sqr a)"
    "fe_val (secp256k1_fe_sqr a) mod fe_p = fe_val a * fe_val a mod fe_p"
  using fe_mul_correct[OF assms assms] by (simp_all add: fe_sqr_eq_mul[OF assms])

end
