(* ===== verification/Field5x52_Norm.thy ===== *)
theory Field5x52_Norm
  imports Field5x52_Mul
begin

unbundle bit_operations_syntax

text \<open>
  Correctness of the normalization routines and of the linear operations on 5x52 field elements:
  no limb wraps for the magnitudes the code allows, and the value modulo the field prime is the
  one the operation is named after.
\<close>

section \<open>One carry pass\<close>

definition fe_carry :: "u64 \<Rightarrow> u64 \<Rightarrow> u64 \<Rightarrow> u64 \<Rightarrow> u64 \<Rightarrow> secp256k1_fe" where
  "fe_carry t0 t1 t2 t3 t4 =
     (let t1 = t1 + drop_bit 52 t0; t2 = t2 + drop_bit 52 t1; t3 = t3 + drop_bit 52 t2; t4 = t4 + drop_bit 52 t3
      in mk_fe (t0 AND 0xFFFFFFFFFFFFF) (t1 AND 0xFFFFFFFFFFFFF) (t2 AND 0xFFFFFFFFFFFFF) (t3 AND 0xFFFFFFFFFFFFF) t4)"

text \<open>What the first pass leaves: four full limbs and at most one bit above 256.\<close>

definition fe_weak :: "secp256k1_fe \<Rightarrow> bool" where
  "fe_weak r \<longleftrightarrow> unat (fe_n0 r) < 2 ^ 52 \<and> unat (fe_n1 r) < 2 ^ 52 \<and> unat (fe_n2 r) < 2 ^ 52 \<and>
     unat (fe_n3 r) < 2 ^ 52 \<and> unat (fe_n4 r) < 2 ^ 48 + 2 ^ 12"

lemma fe_first_pass_carry:
  "fe_first_pass r = fe_carry (fe_n0 r + drop_bit 48 (fe_n4 r) * 0x1000003D1) (fe_n1 r) (fe_n2 r) (fe_n3 r)
     (fe_n4 r AND 0x0FFFFFFFFFFFF)"
  unfolding fe_first_pass_def fe_carry_def Let_def by (rule refl)

lemma fe_final_pass_carry:
  "fe_final_pass t x = (let r = fe_carry (fe_n0 t + x * 0x1000003D1) (fe_n1 t) (fe_n2 t) (fe_n3 t) (fe_n4 t)
     in r\<lparr>fe_n4 := fe_n4 r AND 0x0FFFFFFFFFFFF\<rparr>)"
  unfolding fe_final_pass_def fe_carry_def Let_def by simp

lemma M48: "(0xFFFFFFFFFFFF :: 'a::len word) = mask 48"
  by (simp add: mask_eq_exp_minus_1)

lemma unat_and64_M52 [unat_norm]: "unat ((x :: u64) AND 0xFFFFFFFFFFFFF) = unat x mod 2 ^ 52"
  unfolding M52 by (rule unat_and_mask)

lemma unat_and64_M48 [unat_norm]: "unat ((x :: u64) AND 0xFFFFFFFFFFFF) = unat x mod 2 ^ 48"
  unfolding M48 by (rule unat_and_mask)

lemma word_add64:
  fixes x y :: u64
  assumes "unat x = m" "unat y = k" "m + k < 2 ^ 64"
  shows "unat (x + y) = m + k"
  using assms by (simp add: unat_add_exact)

lemma carry_identity:
  fixes t0 t1 t2 t3 t4 :: nat
  assumes "t0 = h0 * 2 ^ 52 + l0" "t1 + h0 = h1 * 2 ^ 52 + l1" "t2 + h1 = h2 * 2 ^ 52 + l2" "t3 + h2 = h3 * 2 ^ 52 + l3"
  shows "l0 + l1 * 2 ^ 52 + l2 * 2 ^ 104 + l3 * 2 ^ 156 + (t4 + h3) * 2 ^ 208 =
    t0 + t1 * 2 ^ 52 + t2 * 2 ^ 104 + t3 * 2 ^ 156 + t4 * 2 ^ 208"
  using assms by simp

lemma fe_carry_correct:
  assumes b: "unat t0 < 2 ^ 63 + 2 ^ 62" "unat t1 < 2 ^ 63" "unat t2 < 2 ^ 63" "unat t3 < 2 ^ 63" "unat t4 < 2 ^ 63"
  shows "fe_val (fe_carry t0 t1 t2 t3 t4) =
      unat t0 + unat t1 * 2 ^ 52 + unat t2 * 2 ^ 104 + unat t3 * 2 ^ 156 + unat t4 * 2 ^ 208"
    "unat (fe_n0 (fe_carry t0 t1 t2 t3 t4)) < 2 ^ 52" "unat (fe_n1 (fe_carry t0 t1 t2 t3 t4)) < 2 ^ 52"
    "unat (fe_n2 (fe_carry t0 t1 t2 t3 t4)) < 2 ^ 52" "unat (fe_n3 (fe_carry t0 t1 t2 t3 t4)) < 2 ^ 52"
    "unat (fe_n4 (fe_carry t0 t1 t2 t3 t4)) < unat t4 + 2 ^ 12"
proof -
  define s1 where "s1 = t1 + drop_bit 52 t0"
  define s2 where "s2 = t2 + drop_bit 52 s1"
  define s3 where "s3 = t3 + drop_bit 52 s2"
  define s4 where "s4 = t4 + drop_bit 52 s3"
  have h: "unat (x :: u64) div 2 ^ 52 < 2 ^ 12" for x
    using unat_lt_exp[of x] by (intro div52_bound) simp
  have s1: "unat s1 = unat t1 + unat t0 div 2 ^ 52" unfolding s1_def
    using b(2) h[of t0] by (intro word_add64 unat_drop_bit refl) simp
  have s2: "unat s2 = unat t2 + unat s1 div 2 ^ 52" unfolding s2_def
    using b(3) h[of s1] by (intro word_add64 unat_drop_bit refl) simp
  have s3: "unat s3 = unat t3 + unat s2 div 2 ^ 52" unfolding s3_def
    using b(4) h[of s2] by (intro word_add64 unat_drop_bit refl) simp
  have s4: "unat s4 = unat t4 + unat s3 div 2 ^ 52" unfolding s4_def
    using b(5) h[of s3] by (intro word_add64 unat_drop_bit refl) simp
  have r: "fe_carry t0 t1 t2 t3 t4 = mk_fe (t0 AND 0xFFFFFFFFFFFFF) (s1 AND 0xFFFFFFFFFFFFF) (s2 AND 0xFFFFFFFFFFFFF) (s3 AND 0xFFFFFFFFFFFFF) s4"
    unfolding fe_carry_def Let_def s4_def s3_def s2_def s1_def by (rule refl)
  note D = div_mult_mod_eq[of _ "2 ^ 52 :: nat"]
  show "fe_val (fe_carry t0 t1 t2 t3 t4) =
      unat t0 + unat t1 * 2 ^ 52 + unat t2 * 2 ^ 104 + unat t3 * 2 ^ 156 + unat t4 * 2 ^ 208"
    unfolding r fe_val_def secp256k1_fe.simps unat_and64_M52 s4
    by (rule carry_identity[of _ "unat t0 div 2 ^ 52" _ _ "unat s1 div 2 ^ 52" _ _ "unat s2 div 2 ^ 52" _ _ "unat s3 div 2 ^ 52"])
      (simp_all only: D s1[symmetric] s2[symmetric] s3[symmetric])
  show "unat (fe_n0 (fe_carry t0 t1 t2 t3 t4)) < 2 ^ 52" "unat (fe_n1 (fe_carry t0 t1 t2 t3 t4)) < 2 ^ 52"
    "unat (fe_n2 (fe_carry t0 t1 t2 t3 t4)) < 2 ^ 52" "unat (fe_n3 (fe_carry t0 t1 t2 t3 t4)) < 2 ^ 52"
    unfolding r by (simp_all add: unat_and64_M52)
  show "unat (fe_n4 (fe_carry t0 t1 t2 t3 t4)) < unat t4 + 2 ^ 12" unfolding r using s4 h[of s3] by simp
qed

lemma fe_first_pass_correct:
  assumes "fe_mag 1024 a"
  shows "fe_weak (fe_first_pass a)" "fe_val (fe_first_pass a) mod fe_p = fe_val a mod fe_p"
proof -
  obtain a0 a1 a2 a3 a4 where a: "a = mk_fe a0 a1 a2 a3 a4" by (cases a) auto
  let ?x = "drop_bit 48 a4"
  have x: "unat ?x = unat a4 div 2 ^ 48" by (rule unat_drop_bit)
  have xb: "unat ?x < 2 ^ 16" unfolding x using unat_lt_exp[of a4] by (intro less_mult_imp_div_less) simp
  have A: "unat a0 < 2 ^ 63" "unat a1 < 2 ^ 63" "unat a2 < 2 ^ 63" "unat a3 < 2 ^ 63"
    using assms by (simp_all add: fe_mag_def a)
  have m: "unat (?x * 0x1000003D1) = unat ?x * 0x1000003D1" using xb by (subst unat_mult_exact) simp_all
  have t0: "unat (a0 + ?x * 0x1000003D1) = unat a0 + unat ?x * 0x1000003D1"
    using A(1) xb by (intro word_add64 m refl) simp
  have t4: "unat (a4 AND 0xFFFFFFFFFFFF) = unat a4 mod 2 ^ 48" by (rule unat_and64_M48)
  have b: "unat (a0 + ?x * 0x1000003D1) < 2 ^ 63 + 2 ^ 62" "unat (a4 AND 0xFFFFFFFFFFFF) < 2 ^ 63"
    unfolding t0 t4 using A(1) xb by (simp_all add: order.strict_trans[of _ "2 ^ 48"])
  note c = fe_carry_correct[OF b(1) A(2-4) b(2)]
  have r: "fe_first_pass a = fe_carry (a0 + ?x * 0x1000003D1) a1 a2 a3 (a4 AND 0xFFFFFFFFFFFF)"
    by (simp add: fe_first_pass_carry a)
  have "unat (a4 AND 0xFFFFFFFFFFFF) < 2 ^ 48" unfolding t4 by simp
  then show "fe_weak (fe_first_pass a)" unfolding r fe_weak_def using c(2-6) by linarith
  have "int (fe_val a) = int (fe_val (fe_first_pass a)) + int fe_p * int (unat ?x)"
  proof -
    obtain q l where q: "unat a4 div 2 ^ 48 = q" "unat a4 mod 2 ^ 48 = l" "unat a4 = q * 2 ^ 48 + l"
      by (metis div_mult_mod_eq)
    have "fe_val (fe_first_pass a) = unat a0 + q * 0x1000003D1 + unat a1 * 2 ^ 52 + unat a2 * 2 ^ 104 + unat a3 * 2 ^ 156 + l * 2 ^ 208"
      by (simp only: r c(1) t0 t4 x q(1,2))
    moreover have "fe_val a = unat a0 + unat a1 * 2 ^ 52 + unat a2 * 2 ^ 104 + unat a3 * 2 ^ 156 + (q * 2 ^ 48 + l) * 2 ^ 208"
      by (simp only: fe_val_def a secp256k1_fe.simps flip: q(3))
    moreover have "unat ?x = q" by (simp only: x q(1))
    ultimately show ?thesis by (simp add: fe_p_def)
  qed
  then show "fe_val (fe_first_pass a) mod fe_p = fe_val a mod fe_p" by (rule mod_eq_from_int[symmetric])
qed

section \<open>The final reduction\<close>

lemma and_eq_mask52:
  fixes x y :: u64
  assumes "unat x < 2 ^ 52" "unat y < 2 ^ 52"
  shows "x AND y = 0xFFFFFFFFFFFFF \<longleftrightarrow> x = 0xFFFFFFFFFFFFF \<and> y = 0xFFFFFFFFFFFFF"
proof
  assume eq: "x AND y = 0xFFFFFFFFFFFFF"
  have "bit x n \<and> bit y n" if "n < 52" for n
  proof -
    have "bit (x AND y) n" unfolding eq M52 using that by (simp add: bit_mask_iff)
    then show ?thesis by (simp add: bit_and_iff)
  qed
  moreover have "bit x n \<Longrightarrow> n < 52" "bit y n \<Longrightarrow> n < 52" for n
    using bit_unat_less[OF assms(1)] bit_unat_less[OF assms(2)] by blast+
  ultimately have "bit x n \<longleftrightarrow> n < 52" "bit y n \<longleftrightarrow> n < 52" for n by blast+
  note B = this
  have "x = mask 52" "y = mask 52"
    by (rule bit_word_eqI, simp add: bit_mask_iff B)+
  then show "x = 0xFFFFFFFFFFFFF \<and> y = 0xFFFFFFFFFFFFF" unfolding M52 by blast
qed simp

lemma top_limbs_split:
  assumes "n0 < 2 ^ 52" "n1 < 2 ^ 52" "n2 < 2 ^ 52" "n3 < 2 ^ 52" "(n4::nat) < 2 ^ 48"
  shows "fe_p \<le> n0 + n1 * 2 ^ 52 + n2 * 2 ^ 104 + n3 * 2 ^ 156 + n4 * 2 ^ 208 \<longleftrightarrow>
    n4 = 0xFFFFFFFFFFFF \<and> n3 = 0xFFFFFFFFFFFFF \<and> n2 = 0xFFFFFFFFFFFFF \<and> n1 = 0xFFFFFFFFFFFFF \<and> 0xFFFFEFFFFFC2F \<le> n0"
proof
  assume L: "fe_p \<le> n0 + n1 * 2 ^ 52 + n2 * 2 ^ 104 + n3 * 2 ^ 156 + n4 * 2 ^ 208"
  then have "\<not> n4 \<le> 0xFFFFFFFFFFFE" using assms by (auto simp: fe_p_def)
  then have n4: "n4 = 0xFFFFFFFFFFFF" using assms(5) by simp
  have "\<not> n3 \<le> 0xFFFFFFFFFFFFE" using assms L unfolding n4 by (auto simp: fe_p_def)
  then have n3: "n3 = 0xFFFFFFFFFFFFF" using assms(4) by simp
  have "\<not> n2 \<le> 0xFFFFFFFFFFFFE" using assms L unfolding n4 n3 by (auto simp: fe_p_def)
  then have n2: "n2 = 0xFFFFFFFFFFFFF" using assms(3) by simp
  have "\<not> n1 \<le> 0xFFFFFFFFFFFFE" using assms L unfolding n4 n3 n2 by (auto simp: fe_p_def)
  then have n1: "n1 = 0xFFFFFFFFFFFFF" using assms(2) by simp
  show "n4 = 0xFFFFFFFFFFFF \<and> n3 = 0xFFFFFFFFFFFFF \<and> n2 = 0xFFFFFFFFFFFFF \<and> n1 = 0xFFFFFFFFFFFFF \<and> 0xFFFFEFFFFFC2F \<le> n0"
    using L unfolding n4 n3 n2 n1 by (simp add: fe_p_def)
qed (simp add: fe_p_def)

lemma fe_ge_p_iff:
  assumes "fe_weak t" "unat (fe_n4 t) < 2 ^ 48"
  shows "fe_p \<le> fe_val t \<longleftrightarrow>
    fe_n4 t = 0x0FFFFFFFFFFFF \<and> (fe_n1 t AND fe_n2 t AND fe_n3 t) = 0xFFFFFFFFFFFFF \<and> fe_n0 t \<ge> 0xFFFFEFFFFFC2F"
proof -
  have w: "unat (fe_n0 t) < 2 ^ 52" "unat (fe_n1 t) < 2 ^ 52" "unat (fe_n2 t) < 2 ^ 52" "unat (fe_n3 t) < 2 ^ 52"
    using assms(1) by (simp_all add: fe_weak_def)
  have "unat (fe_n2 t AND fe_n3 t) \<le> unat (fe_n2 t)" by (simp add: word_le_nat_alt[symmetric] word_and_le2)
  then have "unat (fe_n2 t AND fe_n3 t) < 2 ^ 52" using w by linarith
  then have "fe_n1 t AND fe_n2 t AND fe_n3 t = 0xFFFFFFFFFFFFF \<longleftrightarrow>
      fe_n1 t = 0xFFFFFFFFFFFFF \<and> fe_n2 t = 0xFFFFFFFFFFFFF \<and> fe_n3 t = 0xFFFFFFFFFFFFF"
    using w by (simp only: and_eq_mask52)
  then show ?thesis
    unfolding fe_val_def top_limbs_split[OF w assms(2)] by (auto simp: word_unat_eq_iff word_le_nat_alt)
qed

lemma fe_overflow_bit_eq:
  assumes "fe_weak t"
  shows "fe_overflow_bit t = of_bool (fe_p \<le> fe_val t)"
proof (cases "unat (fe_n4 t) < 2 ^ 48")
  case True
  then have "drop_bit 48 (fe_n4 t) = 0" by (simp add: word_unat_eq_iff unat_drop_bit)
  then show ?thesis
    unfolding fe_ge_p_iff[OF assms True] fe_overflow_bit_def Let_def by simp
next
  case False
  moreover have "unat (fe_n4 t) < 2 ^ 48 + 2 ^ 12" using assms by (simp add: fe_weak_def)
  ultimately have "unat (fe_n4 t) div 2 ^ 48 = 1" by (intro div_nat_eqI) simp_all
  then have d: "drop_bit 48 (fe_n4 t) = 1" by (simp add: word_unat_eq_iff unat_drop_bit)
  have "fe_n4 t \<noteq> 0xFFFFFFFFFFFF" using False by (auto simp: word_unat_eq_iff)
  moreover have "fe_p \<le> fe_val t"
    using False by (simp add: fe_val_def fe_p_def)
  ultimately show ?thesis unfolding fe_overflow_bit_def Let_def d by simp
qed

lemma fe_weak_lt_2p: "fe_weak t \<Longrightarrow> fe_val t < 2 * fe_p"
  by (simp add: fe_weak_def fe_val_def fe_p_def)

text \<open>Masking the top limb takes the value modulo \<open>2^256\<close>.\<close>

lemma fe_val_mask_top:
  assumes "unat (fe_n0 r) < 2 ^ 52" "unat (fe_n1 r) < 2 ^ 52" "unat (fe_n2 r) < 2 ^ 52" "unat (fe_n3 r) < 2 ^ 52"
  shows "fe_val (r\<lparr>fe_n4 := fe_n4 r AND 0x0FFFFFFFFFFFF\<rparr>) = fe_val r mod 2 ^ 256"
proof -
  define L where "L = unat (fe_n0 r) + unat (fe_n1 r) * 2 ^ 52 + unat (fe_n2 r) * 2 ^ 104 + unat (fe_n3 r) * 2 ^ 156"
  have L: "L < 2 ^ 208" using assms by (simp add: L_def)
  define q l where "q = unat (fe_n4 r) div 2 ^ 48" and "l = unat (fe_n4 r) mod 2 ^ 48"
  have n4: "unat (fe_n4 r) = q * 2 ^ 48 + l" "l < 2 ^ 48" by (simp_all add: q_def l_def)
  have "fe_val r = q * 2 ^ 256 + (L + l * 2 ^ 208)"
    unfolding fe_val_def n4(1) L_def by simp
  moreover have "L + l * 2 ^ 208 < 2 ^ 256" using L n4(2) by simp
  ultimately have "fe_val r mod 2 ^ 256 = L + l * 2 ^ 208" by simp
  moreover have "unat (fe_n4 r AND 0x0FFFFFFFFFFFF) = l" unfolding l_def by (rule unat_and64_M48)
  ultimately show ?thesis by (simp add: fe_val_def L_def)
qed

lemma fe_final_pass_correct:
  assumes t: "fe_weak t" and x: "x = of_bool (fe_p \<le> fe_val t)"
  shows "fe_normalized (fe_final_pass t x)" "fe_val (fe_final_pass t x) = fe_val t mod fe_p"
proof -
  define n where "n = unat x"
  have n: "n = (if fe_p \<le> fe_val t then 1 else 0)" by (simp add: n_def x)
  let ?t0 = "fe_n0 t + x * 0x1000003D1"
  have m: "unat (x * 0x1000003D1) = n * 0x1000003D1" by (simp add: n_def x)
  have t0: "unat ?t0 = unat (fe_n0 t) + n * 0x1000003D1"
    using t by (intro word_add64 m refl) (simp add: fe_weak_def n)
  have b: "unat ?t0 < 2 ^ 63 + 2 ^ 62" "unat (fe_n1 t) < 2 ^ 63" "unat (fe_n2 t) < 2 ^ 63" "unat (fe_n3 t) < 2 ^ 63"
    "unat (fe_n4 t) < 2 ^ 63"
    unfolding t0 using t by (simp_all add: fe_weak_def n)
  define r where "r = fe_carry ?t0 (fe_n1 t) (fe_n2 t) (fe_n3 t) (fe_n4 t)"
  note c = fe_carry_correct[OF b, folded r_def]
  have fr: "fe_final_pass t x = r\<lparr>fe_n4 := fe_n4 r AND 0x0FFFFFFFFFFFF\<rparr>"
    unfolding fe_final_pass_carry r_def Let_def by (rule refl)
  have vr: "fe_val r = fe_val t + n * 0x1000003D1" unfolding c(1) t0 by (simp add: fe_val_def)
  have v: "fe_val (fe_final_pass t x) = (fe_val t + n * 0x1000003D1) mod 2 ^ 256"
    unfolding fr fe_val_mask_top[OF c(2-5)] vr by (rule refl)
  have "fe_val (fe_final_pass t x) = fe_val t mod fe_p"
  proof (cases "fe_p \<le> fe_val t")
    case True
    then obtain d where d: "fe_val t = fe_p + d" using le_Suc_ex by blast
    moreover have "d < fe_p" using d fe_weak_lt_2p[OF t] by simp
    ultimately show ?thesis unfolding v using True by (simp add: n fe_p_def)
  next
    case False
    then show ?thesis unfolding v by (simp add: n fe_p_def)
  qed
  then show "fe_val (fe_final_pass t x) = fe_val t mod fe_p" .
  moreover have "unat (fe_n4 (fe_final_pass t x)) < 2 ^ 48" unfolding fr by (simp add: unat_and64_M48)
  moreover have "0 < fe_p" by (simp add: fe_p_def)
  ultimately show "fe_normalized (fe_final_pass t x)"
    unfolding fe_normalized_def fr using c(2-5) by simp
qed

lemma fe_normalize_correct:
  assumes "fe_mag 1024 a"
  shows "fe_normalized (secp256k1_fe_normalize a)" "fe_val (secp256k1_fe_normalize a) = fe_val a mod fe_p"
  using fe_final_pass_correct[OF fe_first_pass_correct(1)[OF assms] fe_overflow_bit_eq[OF fe_first_pass_correct(1)[OF assms]]]
    fe_first_pass_correct(2)[OF assms]
  by (simp_all add: secp256k1_fe_normalize_def Let_def)

lemma fe_weak_normalized:
  assumes "fe_weak t" "fe_val t < fe_p"
  shows "fe_normalized t"
proof -
  have "unat (fe_n4 t) < 2 ^ 48"
  proof (rule ccontr)
    assume "\<not> unat (fe_n4 t) < 2 ^ 48"
    then show False using assms(2) by (simp add: fe_val_def fe_p_def)
  qed
  then show ?thesis using assms by (simp add: fe_weak_def fe_normalized_def)
qed

lemma fe_val_inj:
  assumes "unat (fe_n0 a) < 2 ^ 52" "unat (fe_n1 a) < 2 ^ 52" "unat (fe_n2 a) < 2 ^ 52" "unat (fe_n3 a) < 2 ^ 52"
    "unat (fe_n0 b) < 2 ^ 52" "unat (fe_n1 b) < 2 ^ 52" "unat (fe_n2 b) < 2 ^ 52" "unat (fe_n3 b) < 2 ^ 52"
    "fe_val a = fe_val b"
  shows "a = b"
proof -
  have H: "fe_val r = unat (fe_n0 r) + (unat (fe_n1 r) + (unat (fe_n2 r) + (unat (fe_n3 r) + unat (fe_n4 r) * 2 ^ 52) * 2 ^ 52) * 2 ^ 52) * 2 ^ 52" for r
    by (simp add: fe_val_def)
  note eq = assms(9)[unfolded H]
  note e0 = digit_unique[OF assms(1,5) eq]
  note e1 = digit_unique[OF assms(2,6) e0(2)]
  note e2 = digit_unique[OF assms(3,7) e1(2)]
  note e3 = digit_unique[OF assms(4,8) e2(2)]
  show ?thesis using e0(1) e1(1) e2(1) e3 by (simp add: word_unat_eq_iff)
qed

lemma fe_normalize_var_eq:
  assumes "fe_mag 1024 a"
  shows "secp256k1_fe_normalize_var a = secp256k1_fe_normalize a"
proof -
  let ?t = "fe_first_pass a"
  note w = fe_first_pass_correct(1)[OF assms]
  note f = fe_final_pass_correct[OF w fe_overflow_bit_eq[OF w]]
  show ?thesis
  proof (cases "fe_p \<le> fe_val ?t")
    case True
    then show ?thesis by (simp add: secp256k1_fe_normalize_var_def secp256k1_fe_normalize_def Let_def fe_overflow_bit_eq[OF w])
  next
    case False
    then have "fe_final_pass ?t (fe_overflow_bit ?t) = ?t"
      using f fe_weak_normalized[OF w] by (intro fe_val_inj) (simp_all add: fe_normalized_def)
    then show ?thesis using False
      by (simp add: secp256k1_fe_normalize_var_def secp256k1_fe_normalize_def Let_def fe_overflow_bit_eq[OF w])
  qed
qed

lemma or_eq_0_iff64: "(x :: u64) OR y = 0 \<longleftrightarrow> x = 0 \<and> y = 0"
  by (auto simp: bit_eq_iff bit_or_iff)

lemma xor_flip:
  fixes x :: u64
  shows "x XOR 0x1000003D0 = 0xFFFFFFFFFFFFF \<longleftrightarrow> x = 0xFFFFEFFFFFC2F"
    "x XOR 0xF000000000000 = 0xFFFFFFFFFFFFF \<longleftrightarrow> x = 0x0FFFFFFFFFFFF"
proof -
  have k: "x XOR k = m \<longleftrightarrow> x = m XOR k" for k m
    by (auto simp: xor.assoc)
  show "x XOR 0x1000003D0 = 0xFFFFFFFFFFFFF \<longleftrightarrow> x = 0xFFFFEFFFFFC2F"
    "x XOR 0xF000000000000 = 0xFFFFFFFFFFFFF \<longleftrightarrow> x = 0x0FFFFFFFFFFFF"
    unfolding k by simp_all
qed

lemma unat_xor_lt:
  fixes x y :: u64
  assumes "unat x < 2 ^ k" "unat y < 2 ^ k"
  shows "unat (x XOR y) < 2 ^ k"
proof -
  have "x XOR y = (x XOR y) AND mask k"
    using bit_unat_less[OF assms(1)] bit_unat_less[OF assms(2)]
    by (intro bit_word_eqI) (auto simp: bit_xor_iff bit_and_iff bit_mask_iff)
  then have "unat (x XOR y) = unat (x XOR y) mod 2 ^ k" by (metis unat_and_mask)
  then show ?thesis by (metis mod_less_divisor zero_less_numeral zero_less_power)
qed

lemma unat_and_lt: "unat (x :: u64) < k \<Longrightarrow> unat (x AND y) < k" 
  by (meson le_less_trans word_and_le2 word_le_nat_alt)

lemma fe_zero_test:
  assumes "fe_weak t"
  shows "fe_n0 t OR fe_n1 t OR fe_n2 t OR fe_n3 t OR fe_n4 t = 0 \<longleftrightarrow> fe_val t = 0"
    "(fe_n0 t XOR 0x1000003D0) AND fe_n1 t AND fe_n2 t AND fe_n3 t AND (fe_n4 t XOR 0xF000000000000) = 0xFFFFFFFFFFFFF
      \<longleftrightarrow> fe_val t = fe_p"
proof -
  have w: "unat (fe_n0 t) < 2 ^ 52" "unat (fe_n1 t) < 2 ^ 52" "unat (fe_n2 t) < 2 ^ 52" "unat (fe_n3 t) < 2 ^ 52"
    "unat (fe_n4 t) < 2 ^ 52"
    using assms by (simp_all add: fe_weak_def)
  show "fe_n0 t OR fe_n1 t OR fe_n2 t OR fe_n3 t OR fe_n4 t = 0 \<longleftrightarrow> fe_val t = 0"
    unfolding or_eq_0_iff64 by (auto simp: fe_val_def unat_eq_0)
  have x: "unat (fe_n0 t XOR 0x1000003D0) < 2 ^ 52" "unat (fe_n4 t XOR 0xF000000000000) < 2 ^ 52"
    using w by (intro unat_xor_lt; simp)+
  have "(fe_n0 t XOR 0x1000003D0) AND fe_n1 t AND fe_n2 t AND fe_n3 t AND (fe_n4 t XOR 0xF000000000000) = 0xFFFFFFFFFFFFF \<longleftrightarrow>
      fe_n0 t = 0xFFFFEFFFFFC2F \<and> fe_n1 t = 0xFFFFFFFFFFFFF \<and> fe_n2 t = 0xFFFFFFFFFFFFF \<and> fe_n3 t = 0xFFFFFFFFFFFFF \<and> fe_n4 t = 0x0FFFFFFFFFFFF"
    using w x by (simp only: and_eq_mask52 unat_and_lt xor_flip)
  also have "\<dots> \<longleftrightarrow> t = mk_fe 0xFFFFEFFFFFC2F 0xFFFFFFFFFFFFF 0xFFFFFFFFFFFFF 0xFFFFFFFFFFFFF 0x0FFFFFFFFFFFF"
    by (cases t) simp
  also have "\<dots> \<longleftrightarrow> fe_val t = fe_p"
    using fe_val_inj[OF w(1-4), of "mk_fe 0xFFFFEFFFFFC2F 0xFFFFFFFFFFFFF 0xFFFFFFFFFFFFF 0xFFFFFFFFFFFFF 0x0FFFFFFFFFFFF"]
    by (auto simp: fe_val_def fe_p_def)
  finally show "(fe_n0 t XOR 0x1000003D0) AND fe_n1 t AND fe_n2 t AND fe_n3 t AND (fe_n4 t XOR 0xF000000000000) = 0xFFFFFFFFFFFFF
      \<longleftrightarrow> fe_val t = fe_p" .
qed

lemma mod_0_iff_lt_2p: "(v::nat) < 2 * p \<Longrightarrow> v mod p = 0 \<longleftrightarrow> v = 0 \<or> v = p"
  by (cases "v < p") (auto simp: mod_if)

lemma fe_normalizes_to_zero_correct:
  assumes "fe_mag 1024 a"
  shows "secp256k1_fe_normalizes_to_zero a \<longleftrightarrow> fe_val a mod fe_p = 0"
proof -
  note w = fe_first_pass_correct(1)[OF assms]
  have "secp256k1_fe_normalizes_to_zero a \<longleftrightarrow> fe_val (fe_first_pass a) = 0 \<or> fe_val (fe_first_pass a) = fe_p"
    unfolding secp256k1_fe_normalizes_to_zero_def Let_def fe_zero_test[OF w] by (rule refl)
  then show ?thesis using mod_0_iff_lt_2p[OF fe_weak_lt_2p[OF w]] fe_first_pass_correct(2)[OF assms] by simp
qed

text \<open>The early exit of the variable-time test is only taken when the answer is no.\<close>

lemma fe_normalizes_to_zero_var_eq: "secp256k1_fe_normalizes_to_zero_var a = secp256k1_fe_normalizes_to_zero a"
proof -
  let ?t = "fe_first_pass a"
  let ?z0 = "fe_n0 ?t" and ?z1 = "fe_n0 ?t XOR 0x1000003D0"
  have n0: "fe_n0 ?t = (fe_n0 a + drop_bit 48 (fe_n4 a) * 0x1000003D1) AND 0xFFFFFFFFFFFFF"
    by (simp add: fe_first_pass_def Let_def)
  have v: "secp256k1_fe_normalizes_to_zero_var a = (if ?z0 \<noteq> 0 \<and> ?z1 \<noteq> 0xFFFFFFFFFFFFF then False
      else (((?z0 OR fe_n1 ?t) OR fe_n2 ?t) OR fe_n3 ?t) OR fe_n4 ?t = 0 \<or>
        (((?z1 AND fe_n1 ?t) AND fe_n2 ?t) AND fe_n3 ?t) AND (fe_n4 ?t XOR 0xF000000000000) = 0xFFFFFFFFFFFFF)"
    unfolding secp256k1_fe_normalizes_to_zero_var_def fe_first_pass_def Let_def by simp
  have "?z1 = 0xFFFFFFFFFFFFF" if "?z1 AND y = 0xFFFFFFFFFFFFF" for y
  proof -
    have "unat (fe_n0 ?t) < 2 ^ 52" unfolding n0 unat_and64_M52 by simp
    then have "unat ?z1 < 2 ^ 52" by (intro unat_xor_lt) simp_all
    moreover have "unat ?z1 \<ge> unat (?z1 AND y)" by (simp add: word_le_nat_alt[symmetric] word_and_le2)
    ultimately have "unat ?z1 = unat (0xFFFFFFFFFFFFF :: u64)" unfolding that by simp
    then show ?thesis by (simp only: word_unat_eq_iff)
  qed
  then show ?thesis
    unfolding v secp256k1_fe_normalizes_to_zero_def Let_def by (auto simp: or.assoc and.assoc or_eq_0_iff64)
qed

section \<open>Linear operations and comparison\<close>

lemma fe_add_correct:
  assumes "fe_mag m a" "fe_mag k b" "m + k \<le> 1024"
  shows "fe_val (secp256k1_fe_add a b) = fe_val a + fe_val b" "fe_mag (m + k) (secp256k1_fe_add a b)"
proof -
  have s: "unat (x + y) = unat x + unat y" if "unat x \<le> M * (2 * m)" "unat y \<le> M * (2 * k)" "M < 2 ^ 52" for x y :: u64 and M
  proof -
    have "unat x + unat y \<le> M * (2 * (m + k))" using that by (simp add: algebra_simps)
    also have "\<dots> \<le> (2 ^ 52 - 1) * (2 * 1024)" using that(3) assms(3) by (intro mult_le_mono) simp_all
    finally show ?thesis by (intro unat_add_exact) simp
  qed
  note A = assms(1,2)[unfolded fe_mag_def]
  have e: "unat (fe_n0 a + fe_n0 b) = unat (fe_n0 a) + unat (fe_n0 b)" "unat (fe_n1 a + fe_n1 b) = unat (fe_n1 a) + unat (fe_n1 b)"
    "unat (fe_n2 a + fe_n2 b) = unat (fe_n2 a) + unat (fe_n2 b)" "unat (fe_n3 a + fe_n3 b) = unat (fe_n3 a) + unat (fe_n3 b)"
    "unat (fe_n4 a + fe_n4 b) = unat (fe_n4 a) + unat (fe_n4 b)"
    using A by (intro s[where M = "0xFFFFFFFFFFFFF"]; simp)+
  show "fe_val (secp256k1_fe_add a b) = fe_val a + fe_val b"
    by (simp add: secp256k1_fe_add_def fe_val_def e)
  show "fe_mag (m + k) (secp256k1_fe_add a b)"
    using A by (simp add: secp256k1_fe_add_def fe_mag_def e)
qed

lemma fe_mul_int_correct:
  assumes "fe_mag m a" "m * k \<le> 1024" "k \<le> 1024"
  shows "fe_val (secp256k1_fe_mul_int a k) = fe_val a * k" "fe_mag (m * k) (secp256k1_fe_mul_int a k)"
proof -
  have k: "unat (of_nat k :: u64) = k" using assms(3) by (simp add: unat_of_nat take_bit_eq_mod)
  have s: "unat (x * of_nat k) = unat x * k" if "unat x \<le> M * (2 * m)" "M < 2 ^ 52" for x :: u64 and M
  proof -
    have "unat x * k \<le> M * (2 * m) * k" using that by simp
    also have "\<dots> = M * (2 * (m * k))" by simp
    also have "\<dots> \<le> (2 ^ 52 - 1) * (2 * 1024)" using that(2) assms(2) by (intro mult_le_mono) simp_all
    finally show ?thesis by (subst unat_mult_exact) (simp_all add: k)
  qed
  note A = assms(1)[unfolded fe_mag_def]
  have e: "unat (fe_n0 a * of_nat k) = unat (fe_n0 a) * k" "unat (fe_n1 a * of_nat k) = unat (fe_n1 a) * k"
    "unat (fe_n2 a * of_nat k) = unat (fe_n2 a) * k" "unat (fe_n3 a * of_nat k) = unat (fe_n3 a) * k"
    "unat (fe_n4 a * of_nat k) = unat (fe_n4 a) * k"
    using A by (intro s[where M = "0xFFFFFFFFFFFFF"]; simp)+
  show "fe_val (secp256k1_fe_mul_int a k) = fe_val a * k"
    by (simp add: secp256k1_fe_mul_int_def fe_val_def e algebra_simps)
  have "x \<le> M * (2 * m) \<Longrightarrow> x * k \<le> M * (2 * (m * k))" for x M :: nat
    using mult_le_mono1[of x "M * (2 * m)" k] by (simp add: ac_simps)
  then show "fe_mag (m * k) (secp256k1_fe_mul_int a k)"
    using A by (simp add: secp256k1_fe_mul_int_def fe_mag_def e)
qed

lemma fe_negate_correct:
  assumes "fe_mag m a" "m < 1024"
  shows "(fe_val (secp256k1_fe_negate a m) + fe_val a) mod fe_p = 0" "fe_mag (m + 1) (secp256k1_fe_negate a m)"
proof -
  have s: "unat (M * 2 * of_nat (m + 1) - x) = unat M * 2 * (m + 1) - unat x"
      "unat x \<le> unat M * 2 * (m + 1)" if "unat x \<le> unat M * 2 * (m + 1)" "unat M < 2 ^ 52" for x M :: u64
  proof -
    have k: "unat (of_nat (m + 1) :: u64) = m + 1" "unat (2 :: u64) = 2"
      using assms(2) by (simp_all only: unat_of_nat take_bit_eq_mod) simp_all
    have b: "unat M * 2 * (m + 1) \<le> (2 ^ 52 - 1) * 2 * 1024" using that(2) assms(2) by (intro mult_le_mono) simp_all
    have "unat (M * 2) = unat M * 2" using that(2) by (subst unat_mult_exact) (simp_all add: k)
    then have "unat (M * 2 * of_nat (m + 1)) = unat M * 2 * (m + 1)" using b by (subst unat_mult_exact) (simp_all only: k, simp)
    then show "unat (M * 2 * of_nat (m + 1) - x) = unat M * 2 * (m + 1) - unat x" using that(1) by (simp add: unat_sub_exact)
  qed (rule that(1))
  note A = assms(1)[unfolded fe_mag_def]
  have b0: "unat (fe_n0 a) \<le> unat (0xFFFFEFFFFFC2F :: u64) * 2 * (m + 1)" using A assms(2) by simp
  have b1: "unat (fe_n1 a) \<le> unat (0xFFFFFFFFFFFFF :: u64) * 2 * (m + 1)" "unat (fe_n2 a) \<le> unat (0xFFFFFFFFFFFFF :: u64) * 2 * (m + 1)"
     "unat (fe_n3 a) \<le> unat (0xFFFFFFFFFFFFF :: u64) * 2 * (m + 1)"  "unat (fe_n4 a) \<le> unat (0x0FFFFFFFFFFFF :: u64) * 2 * (m + 1)" using A by simp_all
  note e = s[OF b0] s[OF b1(1)] s[OF b1(2)] s[OF b1(3)] s[OF b1(4)]
  have "fe_val (secp256k1_fe_negate a m) + fe_val a = fe_p * (2 * (m + 1))"
    using e unfolding secp256k1_fe_negate_def fe_val_def by (simp add: fe_p_def)
  then show "(fe_val (secp256k1_fe_negate a m) + fe_val a) mod fe_p = 0" by simp
  show "fe_mag (m + 1) (secp256k1_fe_negate a m)"
    using e unfolding secp256k1_fe_negate_def fe_mag_def by simp
qed

lemma fe_cmp_var_correct:
  assumes "unat (fe_n0 a) < 2 ^ 52" "unat (fe_n1 a) < 2 ^ 52" "unat (fe_n2 a) < 2 ^ 52" "unat (fe_n3 a) < 2 ^ 52"
    "unat (fe_n0 b) < 2 ^ 52" "unat (fe_n1 b) < 2 ^ 52" "unat (fe_n2 b) < 2 ^ 52" "unat (fe_n3 b) < 2 ^ 52"
  shows "secp256k1_fe_cmp_var a b = (if fe_val a < fe_val b then -1 else if fe_val a = fe_val b then 0 else 1)"
proof -
  have H: "fe_val r = unat (fe_n0 r) + (unat (fe_n1 r) + (unat (fe_n2 r) + (unat (fe_n3 r) + unat (fe_n4 r) * 2 ^ 52) * 2 ^ 52) * 2 ^ 52) * 2 ^ 52" for r
    by (simp add: fe_val_def)
  have eq: "fe_val a = fe_val b \<longleftrightarrow> a = b" using fe_val_inj[OF assms] by blast
  have "fe_val a < fe_val b \<longleftrightarrow> fe_n4 a < fe_n4 b \<or> fe_n4 a = fe_n4 b \<and> (fe_n3 a < fe_n3 b \<or> fe_n3 a = fe_n3 b \<and>
      (fe_n2 a < fe_n2 b \<or> fe_n2 a = fe_n2 b \<and> (fe_n1 a < fe_n1 b \<or> fe_n1 a = fe_n1 b \<and> fe_n0 a < fe_n0 b)))"
    unfolding H digit_less_iff[OF assms(1,5)] digit_less_iff[OF assms(2,6)] digit_less_iff[OF assms(3,7)] digit_less_iff[OF assms(4,8)]
    using digit_unique[OF assms(4,8)] digit_unique[OF assms(3,7)] digit_unique[OF assms(2,6)]
    unfolding word_less_nat_alt word_unat_eq_iff by metis
  then show ?thesis unfolding eq
    by (cases a; cases b) (auto simp: secp256k1_fe_cmp_var_def fe_limbs_def)
qed
end
