(* ===== verification/Field5x52_Bytes.thy ===== *)
theory Field5x52_Bytes
  imports Field5x52_Norm
begin

unbundle bit_operations_syntax

text \<open>
  Reading and writing field elements: the 32-byte big-endian form and the packed storage form.
  The loops over nibbles are followed bit by bit.
\<close>

section \<open>The 32-byte form\<close>

text \<open>The invariant of the reading loop after \<open>k\<close> nibbles.\<close>

definition fe_nibbles :: "bytes \<Rightarrow> nat \<Rightarrow> u64 list \<Rightarrow> bool" where
  "fe_nibbles a k n \<longleftrightarrow> length n = 5 \<and> (\<forall>l<5. \<forall>m. bit (n ! l) m \<longleftrightarrow>
     m < 52 \<and> (52 * l + m) div 4 < k \<and> bit (a ! (31 - (52 * l + m) div 8)) ((52 * l + m) mod 8))"

lemma bit_F: "bit ((x::u8) AND 0xF) m \<longleftrightarrow> bit x m \<and> m < 4"
proof -
  have "(0xF :: u8) = mask 4" by (simp add: mask_eq_exp_minus_1)
  then show ?thesis by (simp only: bit_and_iff bit_mask_iff) (auto dest: bit_imp_le_length)
qed

lemma fe_nibbles_step:
  assumes I: "fe_nibbles a (2 * i + j) n" and i: "i < 32" and j: "j < 2"
  defines "limb \<equiv> (8 * i + 4 * j) div 52" and "shift \<equiv> (8 * i + 4 * j) mod 52"
  shows "fe_nibbles a (2 * i + Suc j) (n[limb := n ! limb OR push_bit shift (ucast (drop_bit (4 * j) (a ! (31 - i)) AND 0xF))])"
proof -
  have len: "length n = 5" using I by (simp add: fe_nibbles_def)
  have k: "8 * i + 4 * j = 52 * limb + shift" "shift < 52" by (simp_all add: limb_def shift_def)
  have limb: "limb < 5" unfolding limb_def using i j by (intro less_mult_imp_div_less) simp
  have s4: "shift mod 4 = 0" using k(1) by presburger
  have nib: "bit (push_bit shift (ucast (drop_bit (4 * j) (a ! (31 - i)) AND 0xF)) :: u64) m \<longleftrightarrow>
      m < 52 \<and> (52 * limb + m) div 4 = 2 * i + j \<and> bit (a ! (31 - (52 * limb + m) div 8)) ((52 * limb + m) mod 8)" for m
  proof (cases "(52 * limb + m) div 4 = 2 * i + j")
    case True
    then obtain r where r: "52 * limb + m = (2 * i + j) * 4 + r" "r < 4"
      by (metis div_mult_mod_eq mod_less_divisor zero_less_numeral)
    then have "m = shift + r" using k(1) by simp
    then have e: "52 * limb + m = 8 * i + 4 * j + (m - shift)" "m - shift < 4" "shift \<le> m" using r by simp_all
    obtain h where h: "shift = 4 * h" using s4 by (metis mod_0_imp_dvd dvdE)
    have "h < 13" using k(2) h by simp
    then have m: "m < 52" using e(2,3) h by linarith
    have d: "(52 * limb + m) div 8 = i" using e(1,2) j by (intro div_nat_eqI) simp_all
    then have d': "(52 * limb + m) mod 8 = 4 * j + (m - shift)" using e(1) div_mult_mod_eq[of "52 * limb + m" 8] by linarith
    note d = d d'
    have "bit (push_bit shift (ucast (drop_bit (4 * j) (a ! (31 - i)) AND 0xF)) :: u64) m \<longleftrightarrow>
      bit (a ! (31 - i)) (4 * j + (m - shift))"
      using e m by (simp add: bit_push_bit_iff bit_ucast_iff bit_drop_bit_eq bit_F)
    then show ?thesis using True m d by simp
  next
    case False
    have "\<not> (shift \<le> m \<and> m - shift < 4)"
    proof
      assume a: "shift \<le> m \<and> m - shift < 4"
      then have "m < shift + 4" "shift \<le> m" by auto
      then have "(52 * limb + m) div 4 = 2 * i + j" using k(1) by (intro div_nat_eqI) simp_all
      then show False using False by simp
    qed
    then show ?thesis using False by (auto simp: bit_push_bit_iff bit_ucast_iff bit_F)
  qed
  have "bit (n[limb := n ! limb OR push_bit shift (ucast (drop_bit (4 * j) (a ! (31 - i)) AND 0xF))] ! l) m \<longleftrightarrow>
     m < 52 \<and> (52 * l + m) div 4 < 2 * i + Suc j \<and> bit (a ! (31 - (52 * l + m) div 8)) ((52 * l + m) mod 8)" if l: "l < 5" for l m
  proof (cases "l = limb")
    case True
    then show ?thesis using I len limb nib[of m]
      by (auto simp: fe_nibbles_def bit_or_iff)
  next
    case False
    have "(52 * l + m) div 4 \<noteq> 2 * i + j" if m: "m < 52"
    proof
      assume "(52 * l + m) div 4 = 2 * i + j"
      then obtain r where r: "52 * l + m = (2 * i + j) * 4 + r" "r < 4"
        by (metis div_mult_mod_eq mod_less_divisor zero_less_numeral)
      obtain h where h: "shift = 4 * h" using s4 by (metis mod_0_imp_dvd dvdE)
      have "h < 13" using k(2) h by simp
      moreover have "52 * l + m = 52 * limb + 4 * h + r" using r(1) k(1) h by simp
      ultimately have "52 * l + m = 52 * limb + (4 * h + r)" "4 * h + r < 52" using r(2) by simp_all
      then have "(52 * l + m) div 52 = limb" by (intro div_nat_eqI) simp_all
      moreover have "(52 * l + m) div 52 = l" using m by simp
      ultimately have "l = limb" by simp
      then show False using False by simp
    qed
    then show ?thesis using I len False l by (auto simp: fe_nibbles_def)
  qed
  then show ?thesis using len by (simp add: fe_nibbles_def)
qed

lemma fe_nibbles_set_b32:
  shows "fe_nibbles a 64 (fe_set_b32_limbs a)"
proof -
  have "fe_nibbles a (2 * k) (foldl (\<lambda>n i. foldl (\<lambda>n j.
         let limb = (8 * i + 4 * j) div 52; shift = (8 * i + 4 * j) mod 52
         in n[limb := n ! limb OR push_bit shift (ucast (drop_bit (4 * j) (a ! (31 - i)) AND 0xF))])
       n [0..<2]) (replicate 5 0) [0..<k])" if "k \<le> 32" for k
    using that
  proof (induction k)
    case 0
    then show ?case by (simp add: fe_nibbles_def)
  next
    case (Suc k)
    have "[0..<2] = [0, 1::nat]" by (simp add: upt_rec)
    moreover have "fe_nibbles a (2 * k + Suc 0) n' \<Longrightarrow> fe_nibbles a (2 * k + 1) n'" for n' by simp
    ultimately show ?case
      using fe_nibbles_step[of a k 1] fe_nibbles_step[of a k 0] Suc by (simp add: Let_def)
  qed
  from this[of 32] show ?thesis by (simp add: fe_set_b32_limbs_def)
qed

lemma limb_lt52: 
  assumes "fe_nibbles a k n" "l < 5"
  shows "unat (n ! l) < 2 ^ 52"
proof -
  have "n ! l = n ! l AND mask 52"
    using assms by (intro bit_word_eqI) (auto simp: fe_nibbles_def bit_and_iff bit_mask_iff)
  then have "unat (n ! l) = unat (n ! l) mod 2 ^ 52" by (metis unat_and_mask)
  then show ?thesis by (metis mod_less_divisor zero_less_numeral zero_less_power)
qed

lemma fe_val_limbs: "fe_val r = limbs_val 52 (fe_limbs r)"
  by (simp add: fe_val_def fe_limbs_def)

lemma fe_limbs_of_limbs:
  assumes "length n = 5"
  shows "fe_limbs (fe_of_limbs n) = n"
proof (rule nth_equalityI)
  fix i assume "i < length (fe_limbs (fe_of_limbs n))"
  then have "i = 0 \<or> i = 1 \<or> i = 2 \<or> i = 3 \<or> i = 4" by (auto simp: fe_limbs_def)
  then show "fe_limbs (fe_of_limbs n) ! i = n ! i" by (elim disjE) (simp_all add: fe_limbs_def fe_of_limbs_def)
qed (simp add: fe_limbs_def assms)

lemma fe_set_b32_val:
  assumes "length a = 32"
  shows "fe_val (fe_of_limbs (fe_set_b32_limbs a)) = be_val a"
    "fe_weak (fe_of_limbs (fe_set_b32_limbs a))" "unat (fe_n4 (fe_of_limbs (fe_set_b32_limbs a))) < 2 ^ 48"
proof -
  let ?n = "fe_set_b32_limbs a"
  note I = fe_nibbles_set_b32[of a]
  have l: "fe_limbs (fe_of_limbs ?n) = ?n"
    using I by (intro fe_limbs_of_limbs) (simp add: fe_nibbles_def)
  have len: "length ?n = 5" using I by (simp add: fe_nibbles_def)
  have "\<forall>x\<in>set ?n. unat x < 2 ^ 52"
    using limb_lt52[OF I] len by (metis in_set_conv_nth)
  note B = bit_limbs_val[OF this, simplified, unfolded len]
  have "bit (limbs_val 52 ?n) k \<longleftrightarrow> bit (be_val a) k" for k
  proof (cases "k < 260")
    case True
    then have "k div 52 < 5" by (simp add: less_mult_imp_div_less)
    note J = I[unfolded fe_nibbles_def, THEN conjunct2, rule_format, OF this, of "k mod 52"]
    have m: "52 * (k div 52) + k mod 52 = k" "k mod 52 < 52" by simp_all
    have "k div 4 < 64 \<longleftrightarrow> k < 256" by (simp add: div_less_iff_less_mult)
    then show ?thesis using True J[unfolded m(1)] m(2) assms by (simp add: B bit_be_val)
  qed (use assms in \<open>simp add: B bit_be_val\<close>)
  then have "limbs_val 52 ?n = be_val a" by (rule bit_eqI)
  then show v: "fe_val (fe_of_limbs ?n) = be_val a" by (simp add: fe_val_limbs l)
  have w: "unat (?n ! 0) < 2 ^ 52" "unat (?n ! 1) < 2 ^ 52" "unat (?n ! 2) < 2 ^ 52" "unat (?n ! 3) < 2 ^ 52"
    using limb_lt52[OF I] by simp_all
  have "fe_val (fe_of_limbs ?n) < 2 ^ 256" unfolding v using be_val_bound[of a] assms by simp
  then have "unat (fe_n4 (fe_of_limbs ?n)) * 2 ^ 208 < 2 ^ 48 * 2 ^ 208" unfolding fe_val_def by simp
  then show n4: "unat (fe_n4 (fe_of_limbs ?n)) < 2 ^ 48" by simp
  show "fe_weak (fe_of_limbs ?n)" using w n4 by (simp add: fe_weak_def fe_of_limbs_def)
qed

lemma fe_set_b32_correct:
  assumes "length a = 32"
  shows "fe_val (fst (secp256k1_fe_set_b32 a)) = be_val a" "snd (secp256k1_fe_set_b32 a) \<longleftrightarrow> be_val a < fe_p"
    "be_val a < fe_p \<Longrightarrow> fe_normalized (fst (secp256k1_fe_set_b32 a))"
proof -
  note s = fe_set_b32_val[OF assms]
  show v: "fe_val (fst (secp256k1_fe_set_b32 a)) = be_val a" using s(1) by (simp add: secp256k1_fe_set_b32_def Let_def)
  show "snd (secp256k1_fe_set_b32 a) \<longleftrightarrow> be_val a < fe_p"
    using fe_ge_p_iff[OF s(2,3)] unfolding s(1) secp256k1_fe_set_b32_def Let_def snd_conv
    by (auto simp: ac_simps not_le)
  show "be_val a < fe_p \<Longrightarrow> fe_normalized (fst (secp256k1_fe_set_b32 a))"
    using fe_weak_normalized[OF s(2)] s(1) by (simp add: secp256k1_fe_set_b32_def Let_def)
qed
lemma bit_F64: "bit ((x::u64) AND 0xF) m \<longleftrightarrow> bit x m \<and> m < 4"
proof -
  have "(0xF :: u64) = mask 4" by (simp add: mask_eq_exp_minus_1)
  then show ?thesis by (simp only: bit_and_iff bit_mask_iff) (auto dest: bit_imp_le_length)
qed

lemma bit_fe_nibble:
  fixes n :: "u64 list"
  assumes "8 * i + 4 * j < 260"
  shows "bit (push_bit (4 * j) (ucast (drop_bit ((8 * i + 4 * j) mod 52) (n ! ((8 * i + 4 * j) div 52)) AND 0xF) :: u8)) m \<longleftrightarrow>
    m < 8 \<and> 4 * j \<le> m \<and> m < 4 * j + 4 \<and> bit (n ! ((8 * i + m) div 52)) ((8 * i + m) mod 52)"
proof (cases "4 * j \<le> m \<and> m < 4 * j + 4")
  case True
  define r where "r = m - 4 * j"
  have r: "m = 4 * j + r" "r < 4" using True by (auto simp: r_def)
  define h where "h = (2 * i + j) mod 13"
  have h: "(8 * i + 4 * j) mod 52 = 4 * h" using mult_mod_right[of 4 "2 * i + j" 13] by (simp add: h_def algebra_simps)
  have hb: "h < 13" by (simp add: h_def)
  have e: "8 * i + m = 52 * ((8 * i + 4 * j) div 52) + (4 * h + r)"
    using div_mult_mod_eq[of "8 * i + 4 * j" 52] unfolding h r(1) by simp
  have "(8 * i + m) div 52 = (8 * i + 4 * j) div 52" "(8 * i + m) mod 52 = 4 * h + r"
    unfolding e using hb r(2) by simp_all
  then show ?thesis using True r
    by (simp add: bit_push_bit_iff bit_ucast_iff bit_drop_bit_eq bit_F64 h)
next
  case False
  then show ?thesis by (auto simp: bit_push_bit_iff bit_ucast_iff bit_F64)
qed

lemma bit_fe_get_byte:
  assumes "i < 32"
  shows "bit (fe_get_byte n i) m \<longleftrightarrow> m < 8 \<and> bit (n ! ((8 * i + m) div 52)) ((8 * i + m) mod 52)"
proof -
  have u: "[0..<2] = [0, 1::nat]" by (simp add: upt_rec)
  have "fe_get_byte n i = push_bit (4 * 0) (ucast (drop_bit ((8 * i + 4 * 0) mod 52) (n ! ((8 * i + 4 * 0) div 52)) AND 0xF)) OR
      push_bit (4 * 1) (ucast (drop_bit ((8 * i + 4 * 1) mod 52) (n ! ((8 * i + 4 * 1) div 52)) AND 0xF))"
    unfolding fe_get_byte_def Let_def u by simp
  moreover have "8 * i + 4 * 0 < 260" "8 * i + 4 * 1 < 260" using assms by simp_all
  ultimately show ?thesis
    by (simp only: bit_or_iff bit_fe_nibble) auto
qed

lemma fe_get_b32_correct:
  assumes "fe_normalized a"
  shows "secp256k1_fe_get_b32 a = be_bytes 32 (fe_val a)"
proof -
  have "\<forall>x\<in>set (fe_limbs a). unat x < 2 ^ 52" using assms by (simp add: fe_limbs_def fe_normalized_def)
  note B = bit_limbs_val[OF this, simplified, folded fe_val_limbs]
  have len: "length (fe_limbs a) = 5" by (simp add: fe_limbs_def)
  have "bit (be_val (secp256k1_fe_get_b32 a)) k \<longleftrightarrow> bit (fe_val a) k" for k
  proof (cases "k < 256")
    case True
    then have "k div 8 < 32" by (simp add: less_mult_imp_div_less)
    moreover have "8 * (k div 8) + k mod 8 = k" by simp
    moreover have "31 - (31 - k div 8) = k div 8" using \<open>k div 8 < 32\<close> by simp
    ultimately show ?thesis using True
      by (simp add: bit_be_val secp256k1_fe_get_b32_def bit_fe_get_byte B len)
  next
    case False
    have "fe_val a < 2 ^ 256" using assms by (simp add: fe_normalized_def fe_p_def)
    moreover have "(2::nat) ^ 256 \<le> 2 ^ k" using False by (intro power_increasing) simp_all
    ultimately have "fe_val a < 2 ^ k" by linarith
    then have "\<not> bit (fe_val a) k" by (simp add: bit_iff_odd)
    then show ?thesis using False by (simp add: bit_be_val secp256k1_fe_get_b32_def)
  qed
  then have v: "be_val (secp256k1_fe_get_b32 a) = fe_val a" by (rule bit_eqI)
  have "length (secp256k1_fe_get_b32 a) = 32" by (simp add: secp256k1_fe_get_b32_def)
  then show ?thesis using be_bytes_be_val[of "secp256k1_fe_get_b32 a"] v by simp
qed

lemma cmov_limb_eq [simp]: "cmov_limb flag r a = (if flag then a else r)"
  by (simp add: cmov_limb_def)

lemma fe_storage_round_trip:
  assumes "unat (fe_n0 a) < 2 ^ 52" "unat (fe_n1 a) < 2 ^ 52" "unat (fe_n2 a) < 2 ^ 52" "unat (fe_n3 a) < 2 ^ 52" "unat (fe_n4 a) < 2 ^ 48"
  shows "secp256k1_fe_from_storage (secp256k1_fe_to_storage a) = a"
proof -
  note b = assms[THEN bit_unat_less]
  note st = secp256k1_fe_from_storage_def secp256k1_fe_to_storage_def M52
  have "fe_n0 (secp256k1_fe_from_storage (secp256k1_fe_to_storage a)) = fe_n0 a"
    by (rule bit_word_eqI) (auto simp: st bit_simps dest: b)
  moreover have "fe_n1 (secp256k1_fe_from_storage (secp256k1_fe_to_storage a)) = fe_n1 a"
    by (rule bit_word_eqI) (auto simp: st bit_simps dest: b)
  moreover have "fe_n2 (secp256k1_fe_from_storage (secp256k1_fe_to_storage a)) = fe_n2 a"
    by (rule bit_word_eqI) (auto simp: st bit_simps dest: b)
  moreover have "fe_n3 (secp256k1_fe_from_storage (secp256k1_fe_to_storage a)) = fe_n3 a"
    by (rule bit_word_eqI) (auto simp: st bit_simps dest: b)
  moreover have "fe_n4 (secp256k1_fe_from_storage (secp256k1_fe_to_storage a)) = fe_n4 a"
    by (rule bit_word_eqI) (auto simp: st bit_simps dest: b)
  ultimately show ?thesis by simp
qed

end
