(* ===== verification/Field.thy ===== *)
theory Field
  imports Field5x52_Bytes Interfaces
begin

unbundle bit_operations_syntax

text \<open>
  The representation-independent field routines of \<^verbatim>\<open>secp256k1/src/field_impl.h\<close> in the build with
  the built-in inverse and without the bignum library: equality, square root, inverse and batch
  inverse.  A loop of squarings is an iterate of \<open>secp256k1_fe_sqr\<close>; the two long addition chains
  share their common prefix.  The chains are proved through the interface \<open>mod_mult\<close>.
\<close>

section \<open>Definitions\<close>

definition secp256k1_fe_equal :: "secp256k1_fe \<Rightarrow> secp256k1_fe \<Rightarrow> bool" where
  "secp256k1_fe_equal a b =
     (let na = secp256k1_fe_negate a 1; na = secp256k1_fe_add na b in secp256k1_fe_normalizes_to_zero na)"

definition secp256k1_fe_equal_var :: "secp256k1_fe \<Rightarrow> secp256k1_fe \<Rightarrow> bool" where
  "secp256k1_fe_equal_var a b =
     (let na = secp256k1_fe_negate a 1; na = secp256k1_fe_add na b in secp256k1_fe_normalizes_to_zero_var na)"

abbreviation fe_sqr_n :: "nat \<Rightarrow> secp256k1_fe \<Rightarrow> secp256k1_fe" where
  "fe_sqr_n n x \<equiv> (secp256k1_fe_sqr ^^ n) x"

text \<open>The common prefix of the two chains: the powers \<open>x2\<close>, \<open>x22\<close> and \<open>x223\<close>.\<close>

definition fe_chain223 :: "secp256k1_fe \<Rightarrow> secp256k1_fe \<times> secp256k1_fe \<times> secp256k1_fe" where
  "fe_chain223 a =
     (let x2 = secp256k1_fe_sqr a; x2 = secp256k1_fe_mul x2 a;
          x3 = secp256k1_fe_sqr x2; x3 = secp256k1_fe_mul x3 a;
          x6 = fe_sqr_n 3 x3; x6 = secp256k1_fe_mul x6 x3;
          x9 = fe_sqr_n 3 x6; x9 = secp256k1_fe_mul x9 x3;
          x11 = fe_sqr_n 2 x9; x11 = secp256k1_fe_mul x11 x2;
          x22 = fe_sqr_n 11 x11; x22 = secp256k1_fe_mul x22 x11;
          x44 = fe_sqr_n 22 x22; x44 = secp256k1_fe_mul x44 x22;
          x88 = fe_sqr_n 44 x44; x88 = secp256k1_fe_mul x88 x44;
          x176 = fe_sqr_n 88 x88; x176 = secp256k1_fe_mul x176 x88;
          x220 = fe_sqr_n 44 x176; x220 = secp256k1_fe_mul x220 x44;
          x223 = fe_sqr_n 3 x220; x223 = secp256k1_fe_mul x223 x3
      in (x2, x22, x223))"

text \<open>Returns the candidate root and whether its square is the input.\<close>

definition secp256k1_fe_sqrt :: "secp256k1_fe \<Rightarrow> secp256k1_fe \<times> bool" where
  "secp256k1_fe_sqrt a =
     (let (x2, x22, x223) = fe_chain223 a;
          t1 = fe_sqr_n 23 x223; t1 = secp256k1_fe_mul t1 x22;
          t1 = fe_sqr_n 6 t1; t1 = secp256k1_fe_mul t1 x2;
          t1 = secp256k1_fe_sqr t1; r = secp256k1_fe_sqr t1;
          t1 = secp256k1_fe_sqr r
      in (r, secp256k1_fe_equal t1 a))"

definition secp256k1_fe_inv :: "secp256k1_fe \<Rightarrow> secp256k1_fe" where
  "secp256k1_fe_inv a =
     (let (x2, x22, x223) = fe_chain223 a;
          t1 = fe_sqr_n 23 x223; t1 = secp256k1_fe_mul t1 x22;
          t1 = fe_sqr_n 5 t1; t1 = secp256k1_fe_mul t1 a;
          t1 = fe_sqr_n 3 t1; t1 = secp256k1_fe_mul t1 x2;
          t1 = fe_sqr_n 2 t1
      in secp256k1_fe_mul a t1)"

definition secp256k1_fe_inv_var :: "secp256k1_fe \<Rightarrow> secp256k1_fe" where
  "secp256k1_fe_inv_var a = secp256k1_fe_inv a"

text \<open>
  The batch inverse on arrays \<open>r\<close> and \<open>a\<close> of length \<open>len\<close>: the forward loop of prefix products, one
  inversion and the backward loop, on the index \<open>i\<close> counting down.
\<close>

definition fe_inv_all_forward :: "secp256k1_fe list \<Rightarrow> secp256k1_fe list" where
  "fe_inv_all_forward a =
     foldl (\<lambda>r i. r @ [secp256k1_fe_mul (r ! (i - 1)) (a ! i)]) [a ! 0] [1..<length a]"

primrec fe_inv_all_backward ::
  "secp256k1_fe list \<Rightarrow> secp256k1_fe list \<Rightarrow> secp256k1_fe \<Rightarrow> nat \<Rightarrow> secp256k1_fe list \<times> secp256k1_fe" where
  "fe_inv_all_backward a r u 0 = (r, u)"
| "fe_inv_all_backward a r u (Suc i) =
     fe_inv_all_backward a (r[Suc i := secp256k1_fe_mul (r ! i) u]) (secp256k1_fe_mul u (a ! Suc i)) i"

definition secp256k1_fe_inv_all_var :: "secp256k1_fe list \<Rightarrow> secp256k1_fe list" where
  "secp256k1_fe_inv_all_var a =
     (if length a < 1 then []
      else let r = fe_inv_all_forward a;
               i = length a - 1;
               u = secp256k1_fe_inv_var (r ! i);
               (r, u) = fe_inv_all_backward a r u i
           in r[0 := u])"

definition secp256k1_fe_is_quad_var :: "secp256k1_fe \<Rightarrow> bool" where
  "secp256k1_fe_is_quad_var a = snd (secp256k1_fe_sqrt a)"

section \<open>Equality\<close>

lemma fe_mag_mono: "fe_mag m a \<Longrightarrow> m \<le> k \<Longrightarrow> fe_mag k a"
  unfolding fe_mag_def by (meson le_trans mult_le_mono2)

lemma fe_normalized_mag: "fe_normalized a \<Longrightarrow> fe_mag 1 a"
  by (simp add: fe_mag_def fe_normalized_def)

lemma fe_p_pos [simp]: "0 < fe_p"
  by (simp add: fe_p_def)

lemma mod_add_zero_eq:
  fixes n a b p :: nat
  assumes "(n + a) mod p = 0"
  shows "(n + b) mod p = 0 \<longleftrightarrow> a mod p = b mod p"
proof -
  have "(n + b) mod p = 0 \<longleftrightarrow> int (n + b) mod int p = int (n + a) mod int p"
    using assms by (metis of_nat_eq_iff zmod_int)
  also have "\<dots> \<longleftrightarrow> int b mod int p = int a mod int p" by (simp add: mod_eq_dvd_iff)
  also have "\<dots> \<longleftrightarrow> a mod p = b mod p" by (metis of_nat_eq_iff zmod_int)
  finally show ?thesis .
qed

lemma fe_equal_correct:
  assumes "fe_mag 1 a" "fe_mag m b" "m \<le> 1000"
  shows "secp256k1_fe_equal a b \<longleftrightarrow> fe_val a mod fe_p = fe_val b mod fe_p"
    "secp256k1_fe_equal_var a b \<longleftrightarrow> fe_val a mod fe_p = fe_val b mod fe_p"
proof -
  note n = fe_negate_correct[OF assms(1), simplified]
  have ad: "fe_val (secp256k1_fe_add (secp256k1_fe_negate a 1) b) = fe_val (secp256k1_fe_negate a 1) + fe_val b"
    "fe_mag (2 + m) (secp256k1_fe_add (secp256k1_fe_negate a 1) b)"
    using fe_add_correct[OF n(2) assms(2)] assms(3) by (simp_all add: numeral_2_eq_2)
  have "fe_mag 1024 (secp256k1_fe_add (secp256k1_fe_negate a 1) b)"
    using ad(2) assms(3) by (auto intro: fe_mag_mono)
  note z = fe_normalizes_to_zero_correct[OF this]
  show "secp256k1_fe_equal a b \<longleftrightarrow> fe_val a mod fe_p = fe_val b mod fe_p"
    "secp256k1_fe_equal_var a b \<longleftrightarrow> fe_val a mod fe_p = fe_val b mod fe_p"
    using z mod_add_zero_eq[OF n(1)] unfolding secp256k1_fe_equal_def secp256k1_fe_equal_var_def Let_def
      fe_normalizes_to_zero_var_eq ad(1) by simp_all
qed

section \<open>Powers\<close>

interpretation fe: mod_mult "fe_mag 8" fe_val fe_p secp256k1_fe_mul secp256k1_fe_sqr
proof
  fix x y assume xy: "fe_mag 8 x" "fe_mag 8 y"
  show "fe_mag 8 (secp256k1_fe_mul x y)" "fe_mag 8 (secp256k1_fe_sqr x)"
    using fe_mul_correct(1)[OF xy] fe_sqr_correct(1)[OF xy(1)] by (auto intro: fe_mag_mono dest!: fe_reduced_mag)
  show "fe_val (secp256k1_fe_mul x y) mod fe_p = fe_val x * fe_val y mod fe_p" by (rule fe_mul_correct(2)[OF xy])
  show "fe_val (secp256k1_fe_sqr x) mod fe_p = fe_val x * fe_val x mod fe_p" by (rule fe_sqr_correct(2)[OF xy(1)])
qed

abbreviation fe_rep :: "secp256k1_fe \<Rightarrow> nat \<Rightarrow> bool" where
  "fe_rep \<equiv> mod_rep (fe_mag 8) fe_val fe_p"

lemma fe_chain223_pow:
  assumes "fe_rep a b" "fe_chain223 a = (x2, x22, x223)"
  shows "fe_rep x2 (b ^ (2 ^ 2 - 1))" "fe_rep x22 (b ^ (2 ^ 22 - 1))" "fe_rep x223 (b ^ (2 ^ 223 - 1))"
proof -
  have p1: "fe_rep a (b ^ (2 ^ 1 - 1))" using assms(1) by simp
  note J = fe.pow_ones
  define y2 where "y2 = secp256k1_fe_mul (secp256k1_fe_sqr a) a"
  have p2: "fe_rep y2 (b ^ (2 ^ 2 - 1))" unfolding y2_def using J[OF p1 p1] by simp
  define y3 where "y3 = secp256k1_fe_mul (secp256k1_fe_sqr y2) a"
  have p3: "fe_rep y3 (b ^ (2 ^ 3 - 1))" unfolding y3_def using J[OF p2 p1] by simp
  define y6 where "y6 = secp256k1_fe_mul (fe_sqr_n 3 y3) y3"
  have p6: "fe_rep y6 (b ^ (2 ^ 6 - 1))" unfolding y6_def using J[OF p3 p3] by simp
  define y9 where "y9 = secp256k1_fe_mul (fe_sqr_n 3 y6) y3"
  have p9: "fe_rep y9 (b ^ (2 ^ 9 - 1))" unfolding y9_def using J[OF p6 p3] by simp
  define y11 where "y11 = secp256k1_fe_mul (fe_sqr_n 2 y9) y2"
  have p11: "fe_rep y11 (b ^ (2 ^ 11 - 1))" unfolding y11_def using J[OF p9 p2] by simp
  define y22 where "y22 = secp256k1_fe_mul (fe_sqr_n 11 y11) y11"
  have p22: "fe_rep y22 (b ^ (2 ^ 22 - 1))" unfolding y22_def using J[OF p11 p11] by simp
  define y44 where "y44 = secp256k1_fe_mul (fe_sqr_n 22 y22) y22"
  have p44: "fe_rep y44 (b ^ (2 ^ 44 - 1))" unfolding y44_def using J[OF p22 p22] by simp
  define y88 where "y88 = secp256k1_fe_mul (fe_sqr_n 44 y44) y44"
  have p88: "fe_rep y88 (b ^ (2 ^ 88 - 1))" unfolding y88_def using J[OF p44 p44] by simp
  define y176 where "y176 = secp256k1_fe_mul (fe_sqr_n 88 y88) y88"
  have p176: "fe_rep y176 (b ^ (2 ^ 176 - 1))" unfolding y176_def using J[OF p88 p88] by simp
  define y220 where "y220 = secp256k1_fe_mul (fe_sqr_n 44 y176) y44"
  have p220: "fe_rep y220 (b ^ (2 ^ 220 - 1))" unfolding y220_def using J[OF p176 p44] by simp
  define y223 where "y223 = secp256k1_fe_mul (fe_sqr_n 3 y220) y3"
  have p223: "fe_rep y223 (b ^ (2 ^ 223 - 1))" unfolding y223_def using J[OF p220 p3] by simp
  have "fe_chain223 a = (y2, y22, y223)"
    unfolding fe_chain223_def Let_def y223_def y220_def y176_def y88_def y44_def y22_def y11_def y9_def y6_def y3_def y2_def
    by (rule refl)
  then show "fe_rep x2 (b ^ (2 ^ 2 - 1))" "fe_rep x22 (b ^ (2 ^ 22 - 1))" "fe_rep x223 (b ^ (2 ^ 223 - 1))"
    using p2 p22 p223 assms(2) by simp_all
qed

lemma fe_inv_pow:
  assumes "fe_rep a b"
  shows "fe_rep (secp256k1_fe_inv a) (b ^ (fe_p - 2))"
proof -
  obtain x2 x22 x223 where c: "fe_chain223 a = (x2, x22, x223)" by (metis prod_cases3)
  note p = fe_chain223_pow[OF assms c]
  have "fe_rep (secp256k1_fe_inv a)
      (b ^ (1 + 2 ^ 2 * (2 ^ 3 * (2 ^ 5 * (2 ^ 23 * (2 ^ 223 - 1) + (2 ^ 22 - 1)) + 1) + (2 ^ 2 - 1))))"
    unfolding secp256k1_fe_inv_def c Let_def prod.case
    by (intro fe.pow_mul fe.pow_sqr_n p fe.pow_one assms)
  then show ?thesis by (simp add: fe_p_def)
qed

lemma fe_sqrt_pow:
  assumes "fe_rep a b"
  shows "fe_rep (fst (secp256k1_fe_sqrt a)) (b ^ ((fe_p + 1) div 4))"
proof -
  obtain x2 x22 x223 where c: "fe_chain223 a = (x2, x22, x223)" by (metis prod_cases3)
  note p = fe_chain223_pow[OF assms c]
  have "fe_rep (fst (secp256k1_fe_sqrt a))
      (b ^ (2 * (2 * (2 ^ 6 * (2 ^ 23 * (2 ^ 223 - 1) + (2 ^ 22 - 1)) + (2 ^ 2 - 1)))))"
    unfolding secp256k1_fe_sqrt_def c Let_def prod.case fst_conv
    by (intro fe.pow_mul fe.pow_sqr_n fe.pow_sqr p)
  then show ?thesis by (simp add: fe_p_def)
qed

lemma fe_sqrt_flag:
  assumes "fe_mag 8 a"
  shows "snd (secp256k1_fe_sqrt a) \<longleftrightarrow> fe_val (fst (secp256k1_fe_sqrt a)) ^ 2 mod fe_p = fe_val a mod fe_p"
proof -
  let ?r = "fst (secp256k1_fe_sqrt a)"
  have "fe_mag 8 ?r" using fe_sqrt_pow[OF fe.rep_self[OF assms]] by (simp add: mod_rep_def)
  note s = fe_sqr_correct[OF this]
  have "snd (secp256k1_fe_sqrt a) = secp256k1_fe_equal (secp256k1_fe_sqr ?r) a"
    by (simp add: secp256k1_fe_sqrt_def Let_def split: prod.splits)
  then show ?thesis
    using fe_equal_correct(1)[OF fe_reduced_mag[OF s(1)] assms] s(2) by (simp add: power2_eq_square)
qed

section \<open>The batch inverse\<close>

abbreviation fe_prod :: "secp256k1_fe list \<Rightarrow> nat" where
  "fe_prod xs \<equiv> prod_list (map fe_val xs)"

lemma fe_inv_all_forward_prefix:
  assumes "a \<noteq> []" "list_all (fe_mag 8) a"
  shows "length (fe_inv_all_forward a) = length a"
    "i < length a \<Longrightarrow> fe_rep (fe_inv_all_forward a ! i) (fe_prod (take (Suc i) a))"
proof -
  define F where "F n = foldl (\<lambda>r i. r @ [secp256k1_fe_mul (r ! (i - 1)) (a ! i)]) [a ! 0] [1..<n]" for n
  have rep: "fe_rep (a ! i) (fe_val (a ! i))" if "i < length a" for i
    using assms(2) that by (intro fe.rep_self) (simp add: list_all_length)
  have "length (F n) = n \<and> (\<forall>i<n. fe_rep (F n ! i) (fe_prod (take (Suc i) a)))" if "0 < n" "n \<le> length a" for n
    using that
  proof (induction n rule: nat_induct_non_zero)
    case 1
    have "take (Suc 0) a = [a ! 0]" using assms(1) by (cases a) simp_all
    then show ?case using rep[of 0] assms(1) by (simp add: F_def)
  next
    case (Suc n)
    then have IH: "length (F n) = n" "\<And>i. i < n \<Longrightarrow> fe_rep (F n ! i) (fe_prod (take (Suc i) a))" by auto
    have F: "F (Suc n) = F n @ [secp256k1_fe_mul (F n ! (n - 1)) (a ! n)]" using Suc.hyps by (simp add: F_def)
    have "fe_rep (secp256k1_fe_mul (F n ! (n - 1)) (a ! n)) (fe_prod (take n a) * fe_val (a ! n))"
      using IH(2)[of "n - 1"] Suc.hyps Suc.prems by (intro fe.rep_mul rep) simp_all
    then have "fe_rep (secp256k1_fe_mul (F n ! (n - 1)) (a ! n)) (fe_prod (take (Suc n) a))"
      using Suc.prems by (simp add: take_Suc_conv_app_nth)
    then show ?case unfolding F using IH by (auto simp: nth_append less_Suc_eq)
  qed
  from this[of "length a"] show "length (fe_inv_all_forward a) = length a"
    "i < length a \<Longrightarrow> fe_rep (fe_inv_all_forward a ! i) (fe_prod (take (Suc i) a))"
    using assms(1) by (simp_all add: F_def fe_inv_all_forward_def)
qed

lemma fe_inv_all_backward_correct:
  assumes "list_all (fe_mag 8) a" "length r = length a" "i < length a"
    "\<And>k. k < i \<Longrightarrow> fe_rep (r ! k) (fe_prod (take (Suc k) a))"
    "fe_rep u (v * fe_prod (drop (Suc i) a))"
    "\<And>j. i < j \<Longrightarrow> j < length a \<Longrightarrow> fe_rep (r ! j) (fe_prod (take j a) * (v * fe_prod (drop (Suc j) a)))"
    "fe_inv_all_backward a r u i = (r', u')"
  shows "length r' = length a" "fe_rep u' (v * fe_prod (drop (Suc 0) a))"
    "\<And>j. 0 < j \<Longrightarrow> j < length a \<Longrightarrow> fe_rep (r' ! j) (fe_prod (take j a) * (v * fe_prod (drop (Suc j) a)))"
proof -
  have "length r' = length a \<and> fe_rep u' (v * fe_prod (drop (Suc 0) a)) \<and>
    (\<forall>j. 0 < j \<longrightarrow> j < length a \<longrightarrow> fe_rep (r' ! j) (fe_prod (take j a) * (v * fe_prod (drop (Suc j) a))))"
    using assms(2-)
  proof (induction i arbitrary: r u)
    case 0
    then show ?case by simp
  next
    case (Suc i)
    have a: "fe_rep (a ! Suc i) (fe_val (a ! Suc i))"
      using assms(1) Suc.prems(2) by (intro fe.rep_self) (simp add: list_all_length)
    have "fe_rep (secp256k1_fe_mul u (a ! Suc i)) (v * fe_prod (drop (Suc (Suc i)) a) * fe_val (a ! Suc i))"
      by (intro fe.rep_mul Suc.prems a)
    moreover have "fe_prod (drop (Suc i) a) = fe_val (a ! Suc i) * fe_prod (drop (Suc (Suc i)) a)"
      using Suc.prems(2) by (simp flip: Cons_nth_drop_Suc)
    ultimately have u: "fe_rep (secp256k1_fe_mul u (a ! Suc i)) (v * fe_prod (drop (Suc i) a))" by (simp add: ac_simps)
    have r: "fe_rep (secp256k1_fe_mul (r ! i) u) (fe_prod (take (Suc i) a) * (v * fe_prod (drop (Suc (Suc i)) a)))"
      using Suc.prems by (intro fe.rep_mul) simp_all
    show ?case
    proof (rule Suc.IH[OF _ _ _ u])
      show "length (r[Suc i := secp256k1_fe_mul (r ! i) u]) = length a" "i < length a" using Suc.prems by simp_all
      show "fe_rep (r[Suc i := secp256k1_fe_mul (r ! i) u] ! k) (fe_prod (take (Suc k) a))" if "k < i" for k
        using Suc.prems(3)[of k] that by simp
      show "fe_rep (r[Suc i := secp256k1_fe_mul (r ! i) u] ! j) (fe_prod (take j a) * (v * fe_prod (drop (Suc j) a)))"
        if "i < j" "j < length a" for j
        using r Suc.prems(1,5) that by (cases "j = Suc i") simp_all
      show "fe_inv_all_backward a (r[Suc i := secp256k1_fe_mul (r ! i) u]) (secp256k1_fe_mul u (a ! Suc i)) i = (r', u')"
        using Suc.prems(6) by simp
    qed
  qed
  then show "length r' = length a" "fe_rep u' (v * fe_prod (drop (Suc 0) a))"
    "\<And>j. 0 < j \<Longrightarrow> j < length a \<Longrightarrow> fe_rep (r' ! j) (fe_prod (take j a) * (v * fe_prod (drop (Suc j) a)))"
    by blast+
qed

lemma fe_inv_all_rep:
  assumes "list_all (fe_mag 8) a" "j < length a"
  shows "length (secp256k1_fe_inv_all_var a) = length a"
    "fe_rep (secp256k1_fe_inv_all_var a ! j) (fe_prod (take j a) * (fe_prod a ^ (fe_p - 2) * fe_prod (drop (Suc j) a)))"
proof -
  have ne: "a \<noteq> []" using assms(2) by auto
  note f = fe_inv_all_forward_prefix[OF ne assms(1)]
  let ?i = "length a - 1" and ?r = "fe_inv_all_forward a"
  have i: "?i < length a" using ne by simp
  have u: "fe_rep (secp256k1_fe_inv_var (?r ! ?i)) (fe_prod a ^ (fe_p - 2) * fe_prod (drop (Suc ?i) a))"
    unfolding secp256k1_fe_inv_var_def using fe_inv_pow[OF f(2)[OF i]] ne by simp
  obtain r' u' where b: "fe_inv_all_backward a ?r (secp256k1_fe_inv_var (?r ! ?i)) ?i = (r', u')" by force
  note c = fe_inv_all_backward_correct[OF assms(1) f(1) i _ u _ b]
  have F: "fe_rep (?r ! k) (fe_prod (take (Suc k) a))" if "k < ?i" for k using f(2)[of k] that by simp
  have E: "fe_rep (?r ! k) (fe_prod (take k a) * (fe_prod a ^ (fe_p - 2) * fe_prod (drop (Suc k) a)))"
    if "?i < k" "k < length a" for k using that by simp
  note c = c[OF F E, simplified]
  have res: "secp256k1_fe_inv_all_var a = r'[0 := u']"
    using ne b by (simp add: secp256k1_fe_inv_all_var_def Let_def Suc_le_eq)
  show "length (secp256k1_fe_inv_all_var a) = length a" unfolding res using c(1) by simp
  show "fe_rep (secp256k1_fe_inv_all_var a ! j) (fe_prod (take j a) * (fe_prod a ^ (fe_p - 2) * fe_prod (drop (Suc j) a)))"
    unfolding res using c assms(2) ne by (cases j) simp_all
qed

section \<open>Properties\<close>

text \<open>
  C18. Field multiplication and squaring: for operands of magnitude at most 8, the code's own bound,
  no 64-bit or 128-bit intermediate wraps, the result has magnitude 1 and is the product modulo the
  field prime, and the dedicated squaring routine returns limb for limb what multiplication returns.
\<close>

theorem fe_mul_sqr_mod_p:
  assumes "fe_mag 8 a" "fe_mag 8 b"
  shows "fe_mag 1 (secp256k1_fe_mul a b) \<and>
    fe_val (secp256k1_fe_mul a b) mod fe_p = fe_val a * fe_val b mod fe_p \<and>
    secp256k1_fe_sqr a = secp256k1_fe_mul a a"
  using fe_mul_correct[OF assms] fe_reduced_mag fe_sqr_eq_mul[OF assms(1)] by blast

theorem fe_mul_sqr_mod_p_witness:
  "fe_val (secp256k1_fe_mul (secp256k1_fe_set_int 5) (mk_fe 0 0 0 0 (2 ^ 51))) mod fe_p = 5 * (2 ^ 51 * 2 ^ 208) mod fe_p"
  using fe_mul_sqr_mod_p[of "secp256k1_fe_set_int 5" "mk_fe 0 0 0 0 (2 ^ 51)"]
  by (simp add: fe_mag_def secp256k1_fe_set_int_def fe_val_def)

text \<open>
  C19. Normalization is canonical: from any magnitude up to 1024 both normalizing routines return the
  same limbs, in range and below the prime, with the residue of the input as value; the weak one
  returns magnitude 1 and keeps the residue.
\<close>

theorem fe_normalize_canonical:
  assumes "fe_mag m a" "m \<le> 1024"
  shows "secp256k1_fe_normalize_var a = secp256k1_fe_normalize a \<and>
    fe_normalized (secp256k1_fe_normalize a) \<and> fe_val (secp256k1_fe_normalize a) = fe_val a mod fe_p \<and>
    fe_mag 1 (secp256k1_fe_normalize_weak a) \<and> fe_val (secp256k1_fe_normalize_weak a) mod fe_p = fe_val a mod fe_p"
proof -
  have a: "fe_mag 1024 a" by (rule fe_mag_mono[OF assms])
  have "fe_mag 1 (secp256k1_fe_normalize_weak a)"
    using fe_first_pass_correct(1)[OF a] by (simp add: secp256k1_fe_normalize_weak_def fe_mag_def fe_weak_def)
  then show ?thesis
    using fe_normalize_var_eq[OF a] fe_normalize_correct[OF a] fe_first_pass_correct(2)[OF a]
    by (simp add: secp256k1_fe_normalize_weak_def)
qed

theorem fe_normalize_canonical_witness:
  "fe_val (secp256k1_fe_normalize_var (mk_fe 0xFFFFEFFFFFC30 0xFFFFFFFFFFFFF 0xFFFFFFFFFFFFF 0xFFFFFFFFFFFFF 0x0FFFFFFFFFFFF)) = 1"
  using fe_normalize_canonical[of 1 "mk_fe 0xFFFFEFFFFFC30 0xFFFFFFFFFFFFF 0xFFFFFFFFFFFFF 0xFFFFFFFFFFFFF 0x0FFFFFFFFFFFF"]
  by (simp add: fe_mag_def fe_val_def fe_p_def)

text \<open>
  Zero test and equality: both zero tests decide whether the value is a multiple of the prime
  (so the early exit of the variable-time one never changes the answer), and both equality tests
  decide congruence modulo the prime.
\<close>

theorem fe_equality_exact:
  assumes "fe_mag m a" "m \<le> 1000" "fe_mag 1 b"
  shows "(secp256k1_fe_normalizes_to_zero a \<longleftrightarrow> fe_val a mod fe_p = 0) \<and>
    (secp256k1_fe_normalizes_to_zero_var a \<longleftrightarrow> fe_val a mod fe_p = 0) \<and>
    (secp256k1_fe_equal b a \<longleftrightarrow> fe_val b mod fe_p = fe_val a mod fe_p) \<and>
    (secp256k1_fe_equal_var b a \<longleftrightarrow> fe_val b mod fe_p = fe_val a mod fe_p)"
proof -
  have a: "fe_mag 1024 a" using assms(1,2) by (auto intro: fe_mag_mono)
  show ?thesis
    using fe_normalizes_to_zero_correct[OF a] fe_equal_correct[OF assms(3,1,2)]
    by (simp add: fe_normalizes_to_zero_var_eq)
qed

theorem fe_equality_exact_witness:
  "secp256k1_fe_normalizes_to_zero_var (mk_fe 0xFFFFEFFFFFC2F 0xFFFFFFFFFFFFF 0xFFFFFFFFFFFFF 0xFFFFFFFFFFFFF 0x0FFFFFFFFFFFF) \<and>
   \<not> secp256k1_fe_equal (secp256k1_fe_set_int 1) (secp256k1_fe_set_int 3)"
  using fe_equality_exact[of 1 "mk_fe 0xFFFFEFFFFFC2F 0xFFFFFFFFFFFFF 0xFFFFFFFFFFFFF 0xFFFFFFFFFFFFF 0x0FFFFFFFFFFFF" "secp256k1_fe_set_int 1"]
    fe_equality_exact[of 1 "secp256k1_fe_set_int 3" "secp256k1_fe_set_int 1"]
  by (simp add: fe_mag_def fe_val_def fe_p_def secp256k1_fe_set_int_def)

text \<open>
  C20. Serialization of field elements: a 32-byte string is accepted exactly when its big-endian value
  is below the prime, writing back what was accepted gives the same bytes, and reading back what a
  normalized element wrote, in the byte form or the storage form, gives the element.
\<close>

theorem fe_serialization_round_trip:
  assumes "length b = 32" "fe_normalized a"
  shows "snd (secp256k1_fe_set_b32 b) = (be_val b < fe_p) \<and>
    (snd (secp256k1_fe_set_b32 b) \<longrightarrow> secp256k1_fe_get_b32 (fst (secp256k1_fe_set_b32 b)) = b) \<and>
    secp256k1_fe_set_b32 (secp256k1_fe_get_b32 a) = (a, True) \<and>
    secp256k1_fe_from_storage (secp256k1_fe_to_storage a) = a"
proof -
  note s = fe_set_b32_correct[OF assms(1)]
  have "secp256k1_fe_get_b32 (fst (secp256k1_fe_set_b32 b)) = b" if "be_val b < fe_p"
    using fe_get_b32_correct[OF s(3)[OF that]] s(1) be_bytes_be_val[of b] assms(1) by simp
  moreover have "secp256k1_fe_set_b32 (secp256k1_fe_get_b32 a) = (a, True)"
  proof -
    have g: "secp256k1_fe_get_b32 a = be_bytes 32 (fe_val a)" by (rule fe_get_b32_correct[OF assms(2)])
    have v: "be_val (be_bytes 32 (fe_val a)) = fe_val a" "fe_val a < fe_p"
      using assms(2) by (simp_all add: be_val_be_bytes fe_normalized_def fe_p_def)
    note t = fe_set_b32_correct[of "be_bytes 32 (fe_val a)", simplified v(1)]
    have "fst (secp256k1_fe_set_b32 (be_bytes 32 (fe_val a))) = a"
      using t assms(2) v(2) by (intro fe_val_inj) (simp_all add: fe_normalized_def)
    moreover have "snd (secp256k1_fe_set_b32 (be_bytes 32 (fe_val a)))" using t(2) v(2) by simp
    ultimately show ?thesis unfolding g by (simp add: prod_eq_iff)
  qed
  moreover have "secp256k1_fe_from_storage (secp256k1_fe_to_storage a) = a"
    using assms(2) by (intro fe_storage_round_trip) (simp_all add: fe_normalized_def)
  ultimately show ?thesis using s(2) by blast
qed

theorem fe_serialization_round_trip_witness:
  "\<not> snd (secp256k1_fe_set_b32 (be_bytes 32 fe_p)) \<and>
   secp256k1_fe_set_b32 (secp256k1_fe_get_b32 (secp256k1_fe_set_int 7)) = (secp256k1_fe_set_int 7, True)"
proof -
  have "be_val (be_bytes 32 fe_p) = fe_p" by (simp add: be_val_be_bytes fe_p_def)
  moreover have "fe_normalized (secp256k1_fe_set_int 7)"
    by (simp add: fe_normalized_def secp256k1_fe_set_int_def fe_val_def fe_p_def)
  ultimately show ?thesis using fe_serialization_round_trip[of "be_bytes 32 fe_p" "secp256k1_fe_set_int 7"] by simp
qed

text \<open>
  C21. The addition chains: the field inverse computes the power \<open>p - 2\<close> of its argument and the square
  root the power \<open>(p + 1) / 4\<close>, modulo the prime \<open>p\<close>; so whenever the argument satisfies Fermat's
  congruence, argument times inverse is 1.  The flag of the square root tells exactly whether the
  square of the result is the argument, and it is the answer of \<^verbatim>\<open>secp256k1_fe_is_quad_var\<close>.
\<close>

theorem fe_inv_sqrt_powers:
  assumes "fe_mag 8 a"
  shows "fe_val (secp256k1_fe_inv a) mod fe_p = fe_val a ^ (fe_p - 2) mod fe_p \<and>
    (fe_val a ^ (fe_p - 1) mod fe_p = 1 \<longrightarrow> fe_val a * fe_val (secp256k1_fe_inv_var a) mod fe_p = 1) \<and>
    fe_val (fst (secp256k1_fe_sqrt a)) mod fe_p = fe_val a ^ ((fe_p + 1) div 4) mod fe_p \<and>
    (snd (secp256k1_fe_sqrt a) \<longleftrightarrow> fe_val (fst (secp256k1_fe_sqrt a)) ^ 2 mod fe_p = fe_val a mod fe_p) \<and>
    secp256k1_fe_is_quad_var a = snd (secp256k1_fe_sqrt a)"
proof -
  note inv = fe_inv_pow[OF fe.rep_self[OF assms]]
  have "fe_val a * fe_val (secp256k1_fe_inv a) mod fe_p = fe_val a * fe_val a ^ (fe_p - 2) mod fe_p"
    using inv by (intro mod_mult_cong) (simp_all add: mod_rep_def)
  also have "fe_val a * fe_val a ^ (fe_p - 2) = fe_val a ^ (fe_p - 1)"
    by (simp add: fe_p_def flip: power_Suc)
  finally show ?thesis
    using inv fe_sqrt_pow[OF fe.rep_self[OF assms]] fe_sqrt_flag[OF assms]
    by (simp add: mod_rep_def secp256k1_fe_inv_var_def secp256k1_fe_is_quad_var_def)
qed

theorem fe_inv_sqrt_powers_witness:
  "fe_val (secp256k1_fe_set_int 1) * fe_val (secp256k1_fe_inv_var (secp256k1_fe_set_int 1)) mod fe_p = 1"
  using fe_inv_sqrt_powers[of "secp256k1_fe_set_int 1"]
  by (simp add: fe_mag_def fe_val_def fe_p_def secp256k1_fe_set_int_def)

text \<open>
  C9. The batch inverse: for a non-empty array of elements of magnitude at most 8, with \<open>P\<close> the
  product of all of them, every output times its input is \<open>P^(p - 1)\<close> modulo the prime, which is 1
  when \<open>P\<close> satisfies Fermat's congruence: one field inversion yields all the inverses.
\<close>

theorem fe_inv_all_correct:
  assumes "list_all (fe_mag 8) a" "j < length a"
  shows "length (secp256k1_fe_inv_all_var a) = length a \<and>
    fe_val (secp256k1_fe_inv_all_var a ! j) * fe_val (a ! j) mod fe_p =
      prod_list (map fe_val a) ^ (fe_p - 1) mod fe_p"
proof -
  note r = fe_inv_all_rep[OF assms]
  have "fe_val (secp256k1_fe_inv_all_var a ! j) * fe_val (a ! j) mod fe_p =
      fe_prod (take j a) * (fe_prod a ^ (fe_p - 2) * fe_prod (drop (Suc j) a)) * fe_val (a ! j) mod fe_p"
    using r(2) by (intro mod_mult_cong) (simp_all add: mod_rep_def)
  also have "fe_prod (take j a) * (fe_prod a ^ (fe_p - 2) * fe_prod (drop (Suc j) a)) * fe_val (a ! j) =
      fe_prod a ^ (fe_p - 2) * fe_prod (take j a @ a ! j # drop (Suc j) a)" by simp
  also have "take j a @ a ! j # drop (Suc j) a = a" using assms(2) by (simp add: id_take_nth_drop[symmetric])
  also have "fe_prod a ^ (fe_p - 2) * fe_prod a = fe_prod a ^ (fe_p - 1)"
    by (simp add: fe_p_def mult.commute flip: power_Suc)
  finally show ?thesis using r(1) by simp
qed

theorem fe_inv_all_correct_witness:
  "fe_val (secp256k1_fe_inv_all_var [secp256k1_fe_set_int 1, secp256k1_fe_set_int 1] ! 1) * 1 mod fe_p = 1"
  using fe_inv_all_correct[of "[secp256k1_fe_set_int 1, secp256k1_fe_set_int 1]" 1]
  by (simp add: fe_mag_def fe_val_def fe_p_def secp256k1_fe_set_int_def)

end
