(* ===== verification/Scalar4x64.thy ===== *)
theory Scalar4x64
  imports Field5x52_Norm
begin

unbundle bit_operations_syntax

text \<open>
  Scalars modulo the group order, \<^verbatim>\<open>secp256k1/src/scalar_4x64_impl.h\<close> without assembly: four 64-bit
  limbs, carries through 128-bit words, and the accumulator macros (\<^verbatim>\<open>muladd\<close>, \<^verbatim>\<open>sumadd\<close>, \<^verbatim>\<open>extract\<close>)
  of the 512-bit product and its reduction.  The third accumulator word is 64 bits wide in the
  reduction and 32 bits wide in the product, so the macros are polymorphic in its width.
\<close>

section \<open>Representation\<close>

record secp256k1_scalar =
  sc_d0 :: u64
  sc_d1 :: u64
  sc_d2 :: u64
  sc_d3 :: u64

abbreviation mk_sc :: "u64 \<Rightarrow> u64 \<Rightarrow> u64 \<Rightarrow> u64 \<Rightarrow> secp256k1_scalar" where
  "mk_sc a b c d \<equiv> \<lparr>sc_d0 = a, sc_d1 = b, sc_d2 = c, sc_d3 = d\<rparr>"

definition sc_limbs :: "secp256k1_scalar \<Rightarrow> u64 list" where
  "sc_limbs a = [sc_d0 a, sc_d1 a, sc_d2 a, sc_d3 a]"

definition sc_val :: "secp256k1_scalar \<Rightarrow> nat" where
  "sc_val a = unat (sc_d0 a) + unat (sc_d1 a) * 2 ^ 64 + unat (sc_d2 a) * 2 ^ 128 + unat (sc_d3 a) * 2 ^ 192"

text \<open>The group order and the limbs the code spells out.\<close>

definition sc_n :: nat where
  "sc_n = 0xFFFFFFFFFFFFFFFFFFFFFFFFFFFFFFFEBAAEDCE6AF48A03BBFD25E8CD0364141"

definition SECP256K1_N_0 :: u64 where "SECP256K1_N_0 = 0xBFD25E8CD0364141"
definition SECP256K1_N_1 :: u64 where "SECP256K1_N_1 = 0xBAAEDCE6AF48A03B"
definition SECP256K1_N_2 :: u64 where "SECP256K1_N_2 = 0xFFFFFFFFFFFFFFFE"
definition SECP256K1_N_3 :: u64 where "SECP256K1_N_3 = 0xFFFFFFFFFFFFFFFF"
definition SECP256K1_N_C_0 :: u64 where "SECP256K1_N_C_0 = NOT SECP256K1_N_0 + 1"
definition SECP256K1_N_C_1 :: u64 where "SECP256K1_N_C_1 = NOT SECP256K1_N_1"
definition SECP256K1_N_C_2 :: u64 where "SECP256K1_N_C_2 = 1"
definition SECP256K1_N_H_0 :: u64 where "SECP256K1_N_H_0 = 0xDFE92F46681B20A0"
definition SECP256K1_N_H_1 :: u64 where "SECP256K1_N_H_1 = 0x5D576E7357A4501D"
definition SECP256K1_N_H_2 :: u64 where "SECP256K1_N_H_2 = 0xFFFFFFFFFFFFFFFF"
definition SECP256K1_N_H_3 :: u64 where "SECP256K1_N_H_3 = 0x7FFFFFFFFFFFFFFF"

text \<open>\<^verbatim>\<open>(uint64_t)x\<close> of a 128-bit value, that is \<^verbatim>\<open>x & 0xFFFFFFFFFFFFFFFF\<close>, and widening.\<close>

abbreviation lo64 :: "u128 \<Rightarrow> u64" where "lo64 t \<equiv> ucast (t AND 0xFFFFFFFFFFFFFFFF)"
abbreviation w128 :: "u64 \<Rightarrow> u128" where "w128 x \<equiv> ucast x"

section \<open>Simple operations\<close>

definition secp256k1_scalar_clear :: "secp256k1_scalar \<Rightarrow> secp256k1_scalar" where
  "secp256k1_scalar_clear r = mk_sc 0 0 0 0"

definition secp256k1_scalar_set_int :: "u32 \<Rightarrow> secp256k1_scalar" where
  "secp256k1_scalar_set_int v = mk_sc (ucast v) 0 0 0"

definition secp256k1_scalar_get_bits :: "secp256k1_scalar \<Rightarrow> nat \<Rightarrow> nat \<Rightarrow> u32" where
  "secp256k1_scalar_get_bits a offset cnt =
     ucast (drop_bit (offset mod 64) (sc_limbs a ! (offset div 64)) AND (push_bit cnt 1 - 1))"

definition secp256k1_scalar_get_bits_var :: "secp256k1_scalar \<Rightarrow> nat \<Rightarrow> nat \<Rightarrow> u32" where
  "secp256k1_scalar_get_bits_var a offset cnt =
     (if (offset + cnt - 1) div 64 = offset div 64 then secp256k1_scalar_get_bits a offset cnt
      else ucast ((drop_bit (offset mod 64) (sc_limbs a ! (offset div 64)) OR
                   push_bit (64 - offset mod 64) (sc_limbs a ! (offset div 64 + 1))) AND (push_bit cnt 1 - 1)))"

definition secp256k1_scalar_check_overflow :: "secp256k1_scalar \<Rightarrow> bool" where
  "secp256k1_scalar_check_overflow a =
     (let no = (sc_d3 a < SECP256K1_N_3);
          no = (no \<or> sc_d2 a < SECP256K1_N_2);
          yes = (sc_d2 a > SECP256K1_N_2 \<and> \<not> no);
          no = (no \<or> sc_d1 a < SECP256K1_N_1);
          yes = (yes \<or> (sc_d1 a > SECP256K1_N_1 \<and> \<not> no));
          yes = (yes \<or> (sc_d0 a \<ge> SECP256K1_N_0 \<and> \<not> no))
      in yes)"

text \<open>\<open>secp256k1_scalar_reduce\<close> returns the reduced scalar; its return value is \<open>overflow\<close> itself.\<close>

definition secp256k1_scalar_reduce :: "secp256k1_scalar \<Rightarrow> u32 \<Rightarrow> secp256k1_scalar" where
  "secp256k1_scalar_reduce r overflow =
     (let t = w128 (sc_d0 r) + w128 (ucast overflow * SECP256K1_N_C_0);
          d0 = lo64 t; t = drop_bit 64 t;
          t = t + (w128 (sc_d1 r) + w128 (ucast overflow * SECP256K1_N_C_1));
          d1 = lo64 t; t = drop_bit 64 t;
          t = t + (w128 (sc_d2 r) + w128 (ucast overflow * SECP256K1_N_C_2));
          d2 = lo64 t; t = drop_bit 64 t;
          t = t + w128 (sc_d3 r);
          d3 = lo64 t
      in mk_sc d0 d1 d2 d3)"

definition secp256k1_scalar_add :: "secp256k1_scalar \<Rightarrow> secp256k1_scalar \<Rightarrow> secp256k1_scalar \<times> u32" where
  "secp256k1_scalar_add a b =
     (let t = w128 (sc_d0 a) + w128 (sc_d0 b);
          d0 = lo64 t; t = drop_bit 64 t;
          t = t + (w128 (sc_d1 a) + w128 (sc_d1 b));
          d1 = lo64 t; t = drop_bit 64 t;
          t = t + (w128 (sc_d2 a) + w128 (sc_d2 b));
          d2 = lo64 t; t = drop_bit 64 t;
          t = t + (w128 (sc_d3 a) + w128 (sc_d3 b));
          d3 = lo64 t; t = drop_bit 64 t;
          r = mk_sc d0 d1 d2 d3;
          overflow = ucast (t + of_bool (secp256k1_scalar_check_overflow r))
      in (secp256k1_scalar_reduce r overflow, overflow))"

text \<open>\<open>bit\<close> is the shift count: adding 256 to it when the flag is clear makes every selector false.\<close>

definition secp256k1_scalar_cadd_bit :: "secp256k1_scalar \<Rightarrow> nat \<Rightarrow> bool \<Rightarrow> secp256k1_scalar" where
  "secp256k1_scalar_cadd_bit r bitno flag =
     (let bitno = bitno + (if flag then 0 else 0x100);
          sel = (\<lambda>k. push_bit (bitno mod 64) (of_bool (bitno div 64 = k)) :: u64);
          t = w128 (sc_d0 r) + w128 (sel 0);
          d0 = lo64 t; t = drop_bit 64 t;
          t = t + (w128 (sc_d1 r) + w128 (sel 1));
          d1 = lo64 t; t = drop_bit 64 t;
          t = t + (w128 (sc_d2 r) + w128 (sel 2));
          d2 = lo64 t; t = drop_bit 64 t;
          t = t + (w128 (sc_d3 r) + w128 (sel 3));
          d3 = lo64 t
      in mk_sc d0 d1 d2 d3)"

text \<open>Limb \<open>k\<close> of the big-endian string: bytes \<open>31 - 8k\<close> down to \<open>24 - 8k\<close>, lowest first.\<close>

definition sc_read_limb :: "bytes \<Rightarrow> nat \<Rightarrow> u64" where
  "sc_read_limb b32 k =
     ucast (b32 ! (31 - 8 * k)) OR push_bit 8 (ucast (b32 ! (30 - 8 * k))) OR
     push_bit 16 (ucast (b32 ! (29 - 8 * k))) OR push_bit 24 (ucast (b32 ! (28 - 8 * k))) OR
     push_bit 32 (ucast (b32 ! (27 - 8 * k))) OR push_bit 40 (ucast (b32 ! (26 - 8 * k))) OR
     push_bit 48 (ucast (b32 ! (25 - 8 * k))) OR push_bit 56 (ucast (b32 ! (24 - 8 * k)))"

definition secp256k1_scalar_set_b32 :: "bytes \<Rightarrow> secp256k1_scalar \<times> bool" where
  "secp256k1_scalar_set_b32 b32 =
     (let r = mk_sc (sc_read_limb b32 0) (sc_read_limb b32 1) (sc_read_limb b32 2) (sc_read_limb b32 3);
          over = secp256k1_scalar_check_overflow r
      in (secp256k1_scalar_reduce r (of_bool over), over))"

definition sc_write_limb :: "u64 \<Rightarrow> bytes" where
  "sc_write_limb d = [ucast (drop_bit 56 d), ucast (drop_bit 48 d), ucast (drop_bit 40 d), ucast (drop_bit 32 d),
     ucast (drop_bit 24 d), ucast (drop_bit 16 d), ucast (drop_bit 8 d), ucast d]"

definition secp256k1_scalar_get_b32 :: "secp256k1_scalar \<Rightarrow> bytes" where
  "secp256k1_scalar_get_b32 a =
     sc_write_limb (sc_d3 a) @ sc_write_limb (sc_d2 a) @ sc_write_limb (sc_d1 a) @ sc_write_limb (sc_d0 a)"

definition secp256k1_scalar_is_zero :: "secp256k1_scalar \<Rightarrow> bool" where
  "secp256k1_scalar_is_zero a \<longleftrightarrow> (sc_d0 a OR sc_d1 a OR sc_d2 a OR sc_d3 a) = 0"

definition secp256k1_scalar_negate :: "secp256k1_scalar \<Rightarrow> secp256k1_scalar" where
  "secp256k1_scalar_negate a =
     (let nonzero = 0xFFFFFFFFFFFFFFFF * of_bool (\<not> secp256k1_scalar_is_zero a);
          t = w128 (NOT (sc_d0 a)) + w128 SECP256K1_N_0 + 1;
          d0 = ucast (t AND w128 nonzero); t = drop_bit 64 t;
          t = t + (w128 (NOT (sc_d1 a)) + w128 SECP256K1_N_1);
          d1 = ucast (t AND w128 nonzero); t = drop_bit 64 t;
          t = t + (w128 (NOT (sc_d2 a)) + w128 SECP256K1_N_2);
          d2 = ucast (t AND w128 nonzero); t = drop_bit 64 t;
          t = t + (w128 (NOT (sc_d3 a)) + w128 SECP256K1_N_3);
          d3 = ucast (t AND w128 nonzero)
      in mk_sc d0 d1 d2 d3)"

definition secp256k1_scalar_is_one :: "secp256k1_scalar \<Rightarrow> bool" where
  "secp256k1_scalar_is_one a \<longleftrightarrow> ((sc_d0 a XOR 1) OR sc_d1 a OR sc_d2 a OR sc_d3 a) = 0"

definition secp256k1_scalar_is_high :: "secp256k1_scalar \<Rightarrow> bool" where
  "secp256k1_scalar_is_high a =
     (let no = (sc_d3 a < SECP256K1_N_H_3);
          yes = (sc_d3 a > SECP256K1_N_H_3 \<and> \<not> no);
          no = (no \<or> (sc_d2 a < SECP256K1_N_H_2 \<and> \<not> yes));
          no = (no \<or> (sc_d1 a < SECP256K1_N_H_1 \<and> \<not> yes));
          yes = (yes \<or> (sc_d1 a > SECP256K1_N_H_1 \<and> \<not> no));
          yes = (yes \<or> (sc_d0 a > SECP256K1_N_H_0 \<and> \<not> no))
      in yes)"

text \<open>Returns the scalar and 1 (unchanged) or -1 (negated).\<close>

definition secp256k1_scalar_cond_negate :: "secp256k1_scalar \<Rightarrow> bool \<Rightarrow> secp256k1_scalar \<times> int" where
  "secp256k1_scalar_cond_negate r flag =
     (let mask = of_bool (\<not> flag) - 1 :: u64;
          nonzero = of_bool (secp256k1_scalar_is_zero r) - 1 :: u64;
          t = w128 (sc_d0 r XOR mask) + w128 ((SECP256K1_N_0 + 1) AND mask);
          d0 = ucast (t AND w128 nonzero); t = drop_bit 64 t;
          t = t + (w128 (sc_d1 r XOR mask) + w128 (SECP256K1_N_1 AND mask));
          d1 = ucast (t AND w128 nonzero); t = drop_bit 64 t;
          t = t + (w128 (sc_d2 r XOR mask) + w128 (SECP256K1_N_2 AND mask));
          d2 = ucast (t AND w128 nonzero); t = drop_bit 64 t;
          t = t + (w128 (sc_d3 r XOR mask) + w128 (SECP256K1_N_3 AND mask));
          d3 = ucast (t AND w128 nonzero)
      in (mk_sc d0 d1 d2 d3, 2 * of_bool (mask = 0) - 1))"

section \<open>The accumulator macros\<close>

type_synonym 'c acc = "u64 \<times> u64 \<times> 'c word"

definition muladd :: "u64 \<Rightarrow> u64 \<Rightarrow> 'c::len acc \<Rightarrow> 'c acc" where
  "muladd a b = (\<lambda>(c0, c1, c2).
     let t = mul128 a b; th = (ucast (drop_bit 64 t) :: u64); tl = (ucast t :: u64);
         c0 = c0 + tl; th = th + (if c0 < tl then 1 else 0);
         c1 = c1 + th; c2 = c2 + (if c1 < th then 1 else 0)
     in (c0, c1, c2))"

definition muladd_fast :: "u64 \<Rightarrow> u64 \<Rightarrow> 'c::len acc \<Rightarrow> 'c acc" where
  "muladd_fast a b = (\<lambda>(c0, c1, c2).
     let t = mul128 a b; th = (ucast (drop_bit 64 t) :: u64); tl = (ucast t :: u64);
         c0 = c0 + tl; th = th + (if c0 < tl then 1 else 0);
         c1 = c1 + th
     in (c0, c1, c2))"

definition muladd2 :: "u64 \<Rightarrow> u64 \<Rightarrow> 'c::len acc \<Rightarrow> 'c acc" where
  "muladd2 a b = (\<lambda>(c0, c1, c2).
     let t = mul128 a b; th = (ucast (drop_bit 64 t) :: u64); tl = (ucast t :: u64);
         th2 = th + th; c2 = c2 + (if th2 < th then 1 else 0);
         tl2 = tl + tl; th2 = th2 + (if tl2 < tl then 1 else 0);
         c0 = c0 + tl2; th2 = th2 + (if c0 < tl2 then 1 else 0);
         c2 = c2 + of_bool (c0 < tl2 \<and> th2 = 0);
         c1 = c1 + th2; c2 = c2 + (if c1 < th2 then 1 else 0)
     in (c0, c1, c2))"

definition sumadd :: "u64 \<Rightarrow> 'c::len acc \<Rightarrow> 'c acc" where
  "sumadd a = (\<lambda>(c0, c1, c2).
     let c0 = c0 + a; over = (if c0 < a then 1 else 0);
         c1 = c1 + over; c2 = c2 + (if c1 < over then 1 else 0)
     in (c0, c1, c2))"

definition sumadd_fast :: "u64 \<Rightarrow> 'c::len acc \<Rightarrow> 'c acc" where
  "sumadd_fast a = (\<lambda>(c0, c1, c2).
     let c0 = c0 + a; c1 = c1 + (if c0 < a then 1 else 0)
     in (c0, c1, c2))"

text \<open>\<^verbatim>\<open>extract\<close> returns the low word and the shifted accumulator.\<close>

definition extract_acc :: "'c::len acc \<Rightarrow> u64 \<times> 'c acc" where
  "extract_acc = (\<lambda>(c0, c1, c2). (c0, (c1, ucast c2, 0)))"

definition extract_fast :: "'c::len acc \<Rightarrow> u64 \<times> 'c acc" where
  "extract_fast = (\<lambda>(c0, c1, c2). (c0, (c1, 0, c2)))"

section \<open>Multiplication and reduction\<close>

definition secp256k1_scalar_mul_512 :: "secp256k1_scalar \<Rightarrow> secp256k1_scalar \<Rightarrow> u64 list" where
  "secp256k1_scalar_mul_512 a b =
     (let a0 = sc_d0 a; a1 = sc_d1 a; a2 = sc_d2 a; a3 = sc_d3 a;
          b0 = sc_d0 b; b1 = sc_d1 b; b2 = sc_d2 b; b3 = sc_d3 b;
          c = (0, 0, 0 :: u32);
          c = muladd_fast a0 b0 c;
          (l0, c) = extract_fast c;
          c = muladd a0 b1 c; c = muladd a1 b0 c;
          (l1, c) = extract_acc c;
          c = muladd a0 b2 c; c = muladd a1 b1 c; c = muladd a2 b0 c;
          (l2, c) = extract_acc c;
          c = muladd a0 b3 c; c = muladd a1 b2 c; c = muladd a2 b1 c; c = muladd a3 b0 c;
          (l3, c) = extract_acc c;
          c = muladd a1 b3 c; c = muladd a2 b2 c; c = muladd a3 b1 c;
          (l4, c) = extract_acc c;
          c = muladd a2 b3 c; c = muladd a3 b2 c;
          (l5, c) = extract_acc c;
          c = muladd_fast a3 b3 c;
          (l6, c) = extract_fast c
      in [l0, l1, l2, l3, l4, l5, l6, fst c])"

definition secp256k1_scalar_sqr_512 :: "secp256k1_scalar \<Rightarrow> u64 list" where
  "secp256k1_scalar_sqr_512 a =
     (let a0 = sc_d0 a; a1 = sc_d1 a; a2 = sc_d2 a; a3 = sc_d3 a;
          c = (0, 0, 0 :: u32);
          c = muladd_fast a0 a0 c;
          (l0, c) = extract_fast c;
          c = muladd2 a0 a1 c;
          (l1, c) = extract_acc c;
          c = muladd2 a0 a2 c; c = muladd a1 a1 c;
          (l2, c) = extract_acc c;
          c = muladd2 a0 a3 c; c = muladd2 a1 a2 c;
          (l3, c) = extract_acc c;
          c = muladd2 a1 a3 c; c = muladd a2 a2 c;
          (l4, c) = extract_acc c;
          c = muladd2 a2 a3 c;
          (l5, c) = extract_acc c;
          c = muladd_fast a3 a3 c;
          (l6, c) = extract_fast c
      in [l0, l1, l2, l3, l4, l5, l6, fst c])"

text \<open>From 512 to 385 bits: \<^verbatim>\<open>m[0..6] = l[0..3] + n[0..3] * SECP256K1_N_C\<close>.\<close>

definition reduce_512_385 :: "u64 list \<Rightarrow> u64 \<times> u64 \<times> u64 \<times> u64 \<times> u64 \<times> u64 \<times> u32" where
  "reduce_512_385 l =
     (let n0 = l ! 4; n1 = l ! 5; n2 = l ! 6; n3 = l ! 7;
          c = (l ! 0, 0, 0 :: u64);
          c = muladd_fast n0 SECP256K1_N_C_0 c;
          (m0, c) = extract_fast c;
          c = sumadd_fast (l ! 1) c; c = muladd n1 SECP256K1_N_C_0 c; c = muladd n0 SECP256K1_N_C_1 c;
          (m1, c) = extract_acc c;
          c = sumadd (l ! 2) c; c = muladd n2 SECP256K1_N_C_0 c; c = muladd n1 SECP256K1_N_C_1 c; c = sumadd n0 c;
          (m2, c) = extract_acc c;
          c = sumadd (l ! 3) c; c = muladd n3 SECP256K1_N_C_0 c; c = muladd n2 SECP256K1_N_C_1 c; c = sumadd n1 c;
          (m3, c) = extract_acc c;
          c = muladd n3 SECP256K1_N_C_1 c; c = sumadd n2 c;
          (m4, c) = extract_acc c;
          c = sumadd_fast n3 c;
          (m5, c) = extract_fast c;
          m6 = ucast (fst c)
      in (m0, m1, m2, m3, m4, m5, m6))"

text \<open>From 385 to 258 bits: \<^verbatim>\<open>p[0..4] = m[0..3] + m[4..6] * SECP256K1_N_C\<close>.\<close>

definition reduce_385_258 ::
  "u64 \<times> u64 \<times> u64 \<times> u64 \<times> u64 \<times> u64 \<times> u32 \<Rightarrow> u64 \<times> u64 \<times> u64 \<times> u64 \<times> u32" where
  "reduce_385_258 = (\<lambda>(m0, m1, m2, m3, m4, m5, m6).
     let c = (m0, 0, 0 :: u64);
         c = muladd_fast m4 SECP256K1_N_C_0 c;
         (p0, c) = extract_fast c;
         c = sumadd_fast m1 c; c = muladd m5 SECP256K1_N_C_0 c; c = muladd m4 SECP256K1_N_C_1 c;
         (p1, c) = extract_acc c;
         c = sumadd m2 c; c = muladd (ucast m6) SECP256K1_N_C_0 c; c = muladd m5 SECP256K1_N_C_1 c; c = sumadd m4 c;
         (p2, c) = extract_acc c;
         c = sumadd_fast m3 c; c = muladd_fast (ucast m6) SECP256K1_N_C_1 c; c = sumadd_fast m5 c;
         (p3, c) = extract_fast c;
         p4 = ucast (fst c + ucast m6)
     in (p0, p1, p2, p3, p4))"

text \<open>From 258 to 256 bits: \<^verbatim>\<open>r[0..3] = p[0..3] + p[4] * SECP256K1_N_C\<close>, then the final reduction.\<close>

definition secp256k1_scalar_reduce_512 :: "u64 list \<Rightarrow> secp256k1_scalar" where
  "secp256k1_scalar_reduce_512 l =
     (let (p0, p1, p2, p3, p4) = reduce_385_258 (reduce_512_385 l);
          c = w128 p0 + w128 SECP256K1_N_C_0 * ucast p4;
          d0 = lo64 c; c = drop_bit 64 c;
          c = c + (w128 p1 + w128 SECP256K1_N_C_1 * ucast p4);
          d1 = lo64 c; c = drop_bit 64 c;
          c = c + (w128 p2 + ucast p4);
          d2 = lo64 c; c = drop_bit 64 c;
          c = c + w128 p3;
          d3 = lo64 c; c = drop_bit 64 c;
          r = mk_sc d0 d1 d2 d3
      in secp256k1_scalar_reduce r (ucast (c + of_bool (secp256k1_scalar_check_overflow r))))"

definition secp256k1_scalar_mul :: "secp256k1_scalar \<Rightarrow> secp256k1_scalar \<Rightarrow> secp256k1_scalar" where
  "secp256k1_scalar_mul a b = secp256k1_scalar_reduce_512 (secp256k1_scalar_mul_512 a b)"

definition secp256k1_scalar_sqr :: "secp256k1_scalar \<Rightarrow> secp256k1_scalar" where
  "secp256k1_scalar_sqr a = secp256k1_scalar_reduce_512 (secp256k1_scalar_sqr_512 a)"

text \<open>Returns the shifted scalar and the bits shifted out.\<close>

definition secp256k1_scalar_shr_int :: "secp256k1_scalar \<Rightarrow> nat \<Rightarrow> secp256k1_scalar \<times> u64" where
  "secp256k1_scalar_shr_int r n =
     (mk_sc (drop_bit n (sc_d0 r) + push_bit (64 - n) (sc_d1 r))
            (drop_bit n (sc_d1 r) + push_bit (64 - n) (sc_d2 r))
            (drop_bit n (sc_d2 r) + push_bit (64 - n) (sc_d3 r))
            (drop_bit n (sc_d3 r)),
      sc_d0 r AND (push_bit n 1 - 1))"

definition secp256k1_scalar_eq :: "secp256k1_scalar \<Rightarrow> secp256k1_scalar \<Rightarrow> bool" where
  "secp256k1_scalar_eq a b \<longleftrightarrow>
     ((sc_d0 a XOR sc_d0 b) OR (sc_d1 a XOR sc_d1 b) OR (sc_d2 a XOR sc_d2 b) OR (sc_d3 a XOR sc_d3 b)) = 0"

definition secp256k1_scalar_mul_shift_var ::
  "secp256k1_scalar \<Rightarrow> secp256k1_scalar \<Rightarrow> nat \<Rightarrow> secp256k1_scalar" where
  "secp256k1_scalar_mul_shift_var a b shift =
     (let l = secp256k1_scalar_mul_512 a b;
          shiftlimbs = shift div 64; shiftlow = shift mod 64; shifthigh = 64 - shiftlow;
          d0 = (if shift < 512 then drop_bit shiftlow (l ! (0 + shiftlimbs)) OR
                  (if shift < 448 \<and> shiftlow \<noteq> 0 then push_bit shifthigh (l ! (1 + shiftlimbs)) else 0) else 0);
          d1 = (if shift < 448 then drop_bit shiftlow (l ! (1 + shiftlimbs)) OR
                  (if shift < 384 \<and> shiftlow \<noteq> 0 then push_bit shifthigh (l ! (2 + shiftlimbs)) else 0) else 0);
          d2 = (if shift < 384 then drop_bit shiftlow (l ! (2 + shiftlimbs)) OR
                  (if shift < 320 \<and> shiftlow \<noteq> 0 then push_bit shifthigh (l ! (3 + shiftlimbs)) else 0) else 0);
          d3 = (if shift < 320 then drop_bit shiftlow (l ! (3 + shiftlimbs)) else 0)
      in secp256k1_scalar_cadd_bit (mk_sc d0 d1 d2 d3) 0
           (drop_bit ((shift - 1) mod 64) (l ! ((shift - 1) div 64)) AND 1 \<noteq> 0))"

end
