(* ===== verification/Scalar4x64_Mul.thy ===== *)
theory Scalar4x64_Mul
  imports Scalar4x64
begin

unbundle bit_operations_syntax

text \<open>
  Correctness of the scalar product and its reduction: each accumulator macro adds exactly what it
  is documented to add as long as the total fits, the product is exact in 512 bits and the reduction
  is congruent to it modulo the group order, with a final result below the order.
\<close>

section \<open>The accumulator\<close>

definition acc_val :: "'c::len acc \<Rightarrow> nat" where
  "acc_val c = unat (fst c) + unat (fst (snd c)) * 2 ^ 64 + unat (snd (snd c)) * 2 ^ 128"

text \<open>The accumulator holds \<open>v\<close>.\<close>

definition acc_is :: "'c::len acc \<Rightarrow> nat \<Rightarrow> bool" where
  "acc_is c v \<longleftrightarrow> acc_val c = v"

text \<open>A carry out of a 64-bit addition, detected the way the code does.\<close>

lemma add_carry64:
  fixes x y :: u64
  shows "unat (x + y) + (if x + y < y then 2 ^ 64 else 0) = unat x + unat y"
proof (cases "unat x + unat y < 2 ^ 64")
  case True
  then have "unat (x + y) = unat x + unat y" by (simp add: unat_add_exact)
  then show ?thesis by (simp add: word_less_nat_alt)
next
  case False
  have "unat x < 2 ^ 64" "unat y < 2 ^ 64" using unat_lt_exp[of x] unat_lt_exp[of y] by simp_all
  then have "unat (x + y) = unat x + unat y - 2 ^ 64"
    using False by (simp add: unat_word_ariths mod_if)
  then show ?thesis using False \<open>unat x < 2 ^ 64\<close> by (simp add: word_less_nat_alt)
qed

lemma add_carry64_cases:
  fixes x y :: u64
  obtains "\<not> x + y < y" "unat (x + y) = unat x + unat y" "unat x + unat y < 2 ^ 64"
  | "x + y < y" "unat (x + y) + 2 ^ 64 = unat x + unat y" 
  using add_carry64[of x y] unat_lt_exp[of "x + y"] by (cases "x + y < y") simp_all

lemma unat64: "unat (x :: u64) < 2 ^ 64"
  using unat_lt_exp[of x] by simp

lemma mul128_split:
  "unat (ucast (drop_bit 64 (mul128 a b)) :: u64) * 2 ^ 64 + unat (ucast (mul128 a b) :: u64) = unat a * unat b"
  "unat (ucast (drop_bit 64 (mul128 a b)) :: u64) \<le> 2 ^ 64 - 2"
proof -
  have p: "unat a * unat b \<le> (2 ^ 64 - 1) * (2 ^ 64 - 1)"
    using unat64[of a] unat64[of b] by (intro mult_le_mono) simp_all
  then have "unat a * unat b div 2 ^ 64 \<le> (2 ^ 64 - 1) * (2 ^ 64 - 1) div 2 ^ 64" by (rule div_le_mono)
  then have h: "unat a * unat b div 2 ^ 64 \<le> 2 ^ 64 - 2" by simp
  then have "unat (ucast (drop_bit 64 (mul128 a b)) :: u64) = unat a * unat b div 2 ^ 64"
    unfolding unat_ucast_mod unat_drop_bit unat_mul128 by simp
  moreover have "unat (ucast (mul128 a b) :: u64) = unat a * unat b mod 2 ^ 64"
    unfolding unat_ucast_mod unat_mul128 by simp
  ultimately show "unat (ucast (drop_bit 64 (mul128 a b)) :: u64) * 2 ^ 64 + unat (ucast (mul128 a b) :: u64) = unat a * unat b"
    "unat (ucast (drop_bit 64 (mul128 a b)) :: u64) \<le> 2 ^ 64 - 2"
    using h by (simp_all add: div_mult_mod_eq)
qed

text \<open>Adding a two-word number \<open>(tl, th)\<close>, with \<open>th\<close> not maximal, to the accumulator.\<close>

lemma acc_add2_eq:
  fixes c0 c1 tl th :: u64 and c2 :: "'c::len word"
  assumes th: "unat th \<le> 2 ^ 64 - 2"
  defines "th' \<equiv> th + (if c0 + tl < tl then 1 else 0)"
  shows "acc_val (c0, c1, c2) + (unat th * 2 ^ 64 + unat tl) =
      unat (c0 + tl) + unat (c1 + th') * 2 ^ 64 + (unat c2 + (if c1 + th' < th' then 1 else 0)) * 2 ^ 128"
proof -
  have th': "unat th' = unat th + (if c0 + tl < tl then 1 else 0)"
    unfolding th'_def using th by (auto intro!: word_add64[of _ "unat th" 1 1, simplified])
  have c0: "unat (c0 + tl) + (if c0 + tl < tl then 2 ^ 64 else 0) = unat c0 + unat tl" by (rule add_carry64)
  have c1: "unat (c1 + th') + (if c1 + th' < th' then 2 ^ 64 else 0) = unat c1 + unat th'" by (rule add_carry64)
  show ?thesis using c0 c1 th' by (simp add: acc_val_def split: if_splits)
qed

lemma acc_c2_exact:
  fixes c2 :: "'c::len word"
  assumes "lo + (unat c2 + k) * 2 ^ 128 < 2 ^ 128 * 2 ^ LENGTH('c)"
  shows "unat (c2 + of_nat k) = unat c2 + k"
proof -
  have "(unat c2 + k) * 2 ^ 128 < 2 ^ LENGTH('c) * 2 ^ 128" using assms by simp
  then have b: "unat c2 + k < 2 ^ LENGTH('c)" by (simp only: mult_less_cancel2)
  then have "unat (of_nat k :: 'c word) = k" by (simp add: unat_of_nat take_bit_eq_mod)
  then show ?thesis using b by (simp add: unat_add_exact)
qed

lemma acc_add2:
  fixes c0 c1 tl th :: u64 and c2 :: "'c::len word"
  assumes th: "unat th \<le> 2 ^ 64 - 2" and b: "acc_val (c0, c1, c2) + (unat th * 2 ^ 64 + unat tl) < 2 ^ 128 * 2 ^ LENGTH('c)"
  defines "th' \<equiv> th + (if c0 + tl < tl then 1 else 0)"
  shows "acc_val (c0 + tl, c1 + th', c2 + (if c1 + th' < th' then 1 else 0)) = acc_val (c0, c1, c2) + (unat th * 2 ^ 64 + unat tl)"
  using acc_c2_exact[OF b[unfolded acc_add2_eq[OF th]]] unfolding acc_add2_eq[OF th] th'_def[symmetric]
  by (simp add: acc_val_def split: if_splits)

lemma acc_add2_fast:
  fixes c0 c1 tl th :: u64 and c2 :: "'c::len word"
  assumes th: "unat th \<le> 2 ^ 64 - 2" and b: "acc_val (c0, c1, c2) + (unat th * 2 ^ 64 + unat tl) < 2 ^ 128"
  defines "th' \<equiv> th + (if c0 + tl < tl then 1 else 0)"
  shows "acc_val (c0 + tl, c1 + th', c2) = acc_val (c0, c1, c2) + (unat th * 2 ^ 64 + unat tl)"
  using b unfolding acc_add2_eq[OF th] th'_def[symmetric] by (simp add: acc_val_def split: if_splits)

lemma muladd_is:
  fixes c :: "'c::len acc"
  assumes "acc_is c v" "v + unat a * unat b < 2 ^ 128 * 2 ^ LENGTH('c)"
  shows "acc_is (muladd a b c) (v + unat a * unat b)"
proof (cases c)
  case (fields c0 c1 c2)
  show ?thesis
    using acc_add2[OF mul128_split(2), of c0 c1 c2 a b "ucast (mul128 a b)"] assms mul128_split(1)[of a b]
    by (simp add: muladd_def acc_is_def fields Let_def)
qed

lemma sumadd_is:
  fixes c :: "'c::len acc"
  assumes "acc_is c v" "v + unat a < 2 ^ 128 * 2 ^ LENGTH('c)"
  shows "acc_is (sumadd a c) (v + unat a)"
proof (cases c)
  case (fields c0 c1 c2)
  show ?thesis using acc_add2[of 0 c0 c1 c2 a] assms
    by (simp add: sumadd_def acc_is_def fields Let_def)
qed

lemma muladd_fast_is:
  fixes c :: "'c::len acc"
  assumes "acc_is c v" "v + unat a * unat b < 2 ^ 128"
  shows "acc_is (muladd_fast a b c) (v + unat a * unat b)"
proof (cases c)
  case (fields c0 c1 c2)
  show ?thesis
    using acc_add2_fast[OF mul128_split(2), of c0 c1 c2 a b "ucast (mul128 a b)"] assms mul128_split(1)[of a b]
    by (simp add: muladd_fast_def acc_is_def fields Let_def)
qed

lemma sumadd_fast_is:
  fixes c :: "'c::len acc"
  assumes "acc_is c v" "v + unat a < 2 ^ 128"
  shows "acc_is (sumadd_fast a c) (v + unat a)"
proof (cases c)
  case (fields c0 c1 c2)
  show ?thesis using acc_add2_fast[of 0 c0 c1 c2 a] assms
    by (simp add: sumadd_fast_def acc_is_def fields Let_def)
qed

lemma muladd2_is:
  fixes c :: "'c::len acc"
  assumes "acc_is c v" "v + 2 * (unat a * unat b) < 2 ^ 128 * 2 ^ LENGTH('c)"
  shows "acc_is (muladd2 a b c) (v + 2 * (unat a * unat b))"
proof (cases c)
  case (fields c0 c1 c2)
  define th where "th = (ucast (drop_bit 64 (mul128 a b)) :: u64)"
  define tl where "tl = (ucast (mul128 a b) :: u64)"
  have ab: "unat a * unat b = unat th * 2 ^ 64 + unat tl" "unat th \<le> 2 ^ 64 - 2"
    using mul128_split[of a b] by (simp_all add: th_def tl_def)
  define k1 where "k1 = (if th + th < th then 1 else 0 :: nat)"
  define k2 where "k2 = (if tl + tl < tl then 1 else 0 :: nat)"
  define t2 where "t2 = th + th + (if tl + tl < tl then 1 else 0)"
  define k3 where "k3 = (if c0 + (tl + tl) < tl + tl then 1 else 0 :: nat)"
  define t3 where "t3 = t2 + (if c0 + (tl + tl) < tl + tl then 1 else 0)"
  define k4 where "k4 = (of_bool (c0 + (tl + tl) < tl + tl \<and> t3 = 0) :: nat)"
  define k5 where "k5 = (if c1 + t3 < t3 then 1 else 0 :: nat)"
  have e1: "unat (th + th) + k1 * 2 ^ 64 = 2 * unat th" using add_carry64[of th th] unfolding k1_def by (cases "th + th < th") simp_all
  have e2: "unat (tl + tl) + k2 * 2 ^ 64 = 2 * unat tl" using add_carry64[of tl tl] unfolding k2_def by (cases "tl + tl < tl") simp_all
  have "even (unat (th + th) + k1 * 2 ^ 64)" unfolding e1 by simp
  then have "unat (th + th) \<noteq> 2 ^ 64 - 1" by auto
  then have le: "unat (th + th) \<le> 2 ^ 64 - 2" using unat64[of "th + th"] by simp
  have e3: "unat t2 = unat (th + th) + k2"
    unfolding t2_def k2_def using le by (auto intro!: word_add64[of _ _ 1 1, simplified])
  have e4: "unat (c0 + (tl + tl)) + k3 * 2 ^ 64 = unat c0 + unat (tl + tl)" using add_carry64[of c0 "tl + tl"] unfolding k3_def by (cases "c0 + (tl + tl) < tl + tl") simp_all
  have e5: "unat t3 + k4 * 2 ^ 64 = unat t2 + k3"
  proof (cases "c0 + (tl + tl) < tl + tl")
    case True
    then have t3: "t3 = t2 + 1" "k3 = 1" "k4 = of_bool (t3 = 0)" by (simp_all add: t3_def k3_def k4_def)
    show ?thesis unfolding t3(2,3) using add_carry64[of t2 1]
      by (cases "t2 + 1 = 0") (simp_all add: t3(1) word_less_nat_alt unat_eq_0)
  next
    case False
    then show ?thesis by (simp add: t3_def k3_def k4_def)
  qed
  have e6: "unat (c1 + t3) + k5 * 2 ^ 64 = unat c1 + unat t3" using add_carry64[of c1 t3] unfolding k5_def by (cases "c1 + t3 < t3") simp_all
  have eq: "v + 2 * (unat a * unat b) = unat (c0 + (tl + tl)) + unat (c1 + t3) * 2 ^ 64 + (unat c2 + (k1 + k4 + k5)) * 2 ^ 128"
    using assms(1) unfolding acc_is_def acc_val_def fields ab(1) fst_conv snd_conv using e1 e2 e3 e4 e5 e6 by simp
  have "c2 + (if th + th < th then 1 else 0) + of_bool (c0 + (tl + tl) < tl + tl \<and> t3 = 0) + (if c1 + t3 < t3 then 1 else 0) =
      c2 + of_nat (k1 + k4 + k5)" by (simp add: k1_def k4_def k5_def)
  then have m: "muladd2 a b c = (c0 + (tl + tl), c1 + t3, c2 + of_nat (k1 + k4 + k5))"
    by (simp add: muladd2_def fields Let_def t3_def t2_def th_def tl_def)
  show ?thesis unfolding acc_is_def m acc_val_def fst_conv snd_conv
    using acc_c2_exact[OF assms(2)[unfolded eq]] eq by simp
qed

lemma extract_acc_is:
  fixes c :: "'c::len acc"
  assumes "acc_is c v" "extract_acc c = (n, c')" "LENGTH('c) \<le> 64"
  shows "unat n = v mod 2 ^ 64" "acc_is c' (v div 2 ^ 64)"
proof -
  obtain c0 c1 c2 where c: "c = (c0, c1, c2)" by (cases c)
  have w: "unat (ucast c2 :: u64) = unat c2" using assms(3) by (simp add: unat_ucast_widen)
  have v: "v = unat c0 + (unat c1 + unat c2 * 2 ^ 64) * 2 ^ 64" using assms(1) by (simp add: acc_is_def acc_val_def c)
  have e: "n = c0" "c' = (c1, ucast c2, 0)" using assms(2) by (simp_all add: extract_acc_def c)
  have "v mod 2 ^ 64 = unat c0" "v div 2 ^ 64 = unat c1 + unat c2 * 2 ^ 64"
    unfolding v by (rule digit_mod_div[OF unat64])+
  then show "unat n = v mod 2 ^ 64" "acc_is c' (v div 2 ^ 64)" by (simp_all add: e acc_is_def acc_val_def w)
qed

lemma extract32_is:
  assumes "acc_is (c :: 32 acc) v" "extract_acc c = (n, c')"
  shows "unat n = v mod 2 ^ 64" "acc_is c' (v div 2 ^ 64)"
  by (rule extract_acc_is[OF assms], simp)+

lemma extract64_is:
  assumes "acc_is (c :: 64 acc) v" "extract_acc c = (n, c')"
  shows "unat n = v mod 2 ^ 64" "acc_is c' (v div 2 ^ 64)"
  by (rule extract_acc_is[OF assms], simp)+

lemma extract_fast_is:
  fixes c :: "'c::len acc"
  assumes "acc_is c v" "extract_fast c = (n, c')" "v < 2 ^ 128"
  shows "unat n = v mod 2 ^ 64" "acc_is c' (v div 2 ^ 64)"
proof -
  obtain c0 c1 c2 where c: "c = (c0, c1, c2)" by (cases c)
  have "unat c2 = 0" using assms(1,3) by (simp add: acc_is_def acc_val_def c)
  then have v: "v = unat c0 + unat c1 * 2 ^ 64" and z: "unat c2 = 0" using assms(1) by (simp_all add: acc_is_def acc_val_def c)
  have e: "n = c0" "c' = (c1, 0, c2)" using assms(2) by (simp_all add: extract_fast_def c)
  have "v mod 2 ^ 64 = unat c0" "v div 2 ^ 64 = unat c1" unfolding v using unat64[of c0] by simp_all
  then show "unat n = v mod 2 ^ 64" "acc_is c' (v div 2 ^ 64)" by (simp_all add: e acc_is_def acc_val_def z)
qed

section \<open>The 512-bit product\<close>

text \<open>Columns of the product, each extracted from the carried sum: the words are the product's digits.\<close>

lemma digits8:
  fixes v0 v1 v2 v3 v4 v5 v6 :: nat
  assumes "v0 = h0 * 2 ^ 64 + l0" "h0 + v1 = h1 * 2 ^ 64 + l1" "h1 + v2 = h2 * 2 ^ 64 + l2" "h2 + v3 = h3 * 2 ^ 64 + l3"
    "h3 + v4 = h4 * 2 ^ 64 + l4" "h4 + v5 = h5 * 2 ^ 64 + l5" "h5 + v6 = h6 * 2 ^ 64 + l6"
  shows "l0 + l1 * 2 ^ 64 + l2 * 2 ^ 128 + l3 * 2 ^ 192 + l4 * 2 ^ 256 + l5 * 2 ^ 320 + l6 * 2 ^ 384 + h6 * 2 ^ 448 =
    v0 + v1 * 2 ^ 64 + v2 * 2 ^ 128 + v3 * 2 ^ 192 + v4 * 2 ^ 256 + v5 * 2 ^ 320 + v6 * 2 ^ 384"
  using assms by simp

lemma prod64: "unat (a :: u64) * unat (b :: u64) \<le> 340282366920938463426481119284349108225"
  using mult_le_mono[of "unat a" "2 ^ 64 - 1" "unat b" "2 ^ 64 - 1"] unat64[of a] unat64[of b] by simp

lemma div64_bound: "(x::nat) < k * 2 ^ 64 \<Longrightarrow> x div 2 ^ 64 < k"
  by (simp add: less_mult_imp_div_less)

lemma acc_is_0: "acc_is (0, 0, 0) 0"
  by (simp add: acc_is_def acc_val_def)

lemma low_digit:
  fixes q x A B :: nat
  assumes "q < 2 ^ 64" "x + (A * 2 ^ 64 + B * 2 ^ 128) = q"
  shows "x = q"
proof -
  have "A * 2 ^ 64 < 1 * 2 ^ 64" "B * 2 ^ 128 < 1 * 2 ^ 128" using assms by simp_all
  then have "A < 1" "B < 1" by (simp_all only: mult_less_cancel2)
  then show ?thesis using assms(2) by simp
qed

lemma product_words:
  fixes f1 f2 f3 f4 f5 f6 :: "32 acc \<Rightarrow> 32 acc"
  assumes x: "extract_fast c = (l0, d1)" "extract_acc (f1 d1) = (l1, d2)" "extract_acc (f2 d2) = (l2, d3)" "extract_acc (f3 d3) = (l3, d4)"
      "extract_acc (f4 d4) = (l4, d5)" "extract_acc (f5 d5) = (l5, d6)" "extract_fast (f6 d6) = (l6, d7)"
    and c: "acc_is c p0" "p0 < 2 ^ 128"
    and f1: "\<And>d h. acc_is d h \<Longrightarrow> h < 2 ^ 68 \<Longrightarrow> acc_is (f1 d) (h + p1)"
    and f2: "\<And>d h. acc_is d h \<Longrightarrow> h < 2 ^ 68 \<Longrightarrow> acc_is (f2 d) (h + p2)"
    and f3: "\<And>d h. acc_is d h \<Longrightarrow> h < 2 ^ 68 \<Longrightarrow> acc_is (f3 d) (h + p3)"
    and f4: "\<And>d h. acc_is d h \<Longrightarrow> h < 2 ^ 68 \<Longrightarrow> acc_is (f4 d) (h + p4)"
    and f5: "\<And>d h. acc_is d h \<Longrightarrow> h < 2 ^ 68 \<Longrightarrow> acc_is (f5 d) (h + p5)"
    and f6: "\<And>d h. acc_is d h \<Longrightarrow> h + p6 < 2 ^ 128 \<Longrightarrow> acc_is (f6 d) (h + p6)"
    and pb: "p1 < 2 ^ 131" "p2 < 2 ^ 131" "p3 < 2 ^ 131" "p4 < 2 ^ 131" "p5 < 2 ^ 131"
    and tot: "p0 + p1 * 2 ^ 64 + p2 * 2 ^ 128 + p3 * 2 ^ 192 + p4 * 2 ^ 256 + p5 * 2 ^ 320 + p6 * 2 ^ 384 < 2 ^ 512"
  shows "limbs_val 64 [l0, l1, l2, l3, l4, l5, l6, fst d7] =
    p0 + p1 * 2 ^ 64 + p2 * 2 ^ 128 + p3 * 2 ^ 192 + p4 * 2 ^ 256 + p5 * 2 ^ 320 + p6 * 2 ^ 384"
proof -
  note D = div_mult_mod_eq[of _ "2 ^ 64 :: nat", symmetric]
  have B: "(h + p) div 2 ^ 64 < 2 ^ 68" if "h < 2 ^ 68" "p < 2 ^ 131" for h p :: nat
    using that by (intro div64_bound) simp
  have h0: "p0 div 2 ^ 64 < 2 ^ 68" using c(2) by (intro div64_bound) simp
  note y0 = extract_fast_is[OF c(1) x(1) c(2)]
  note y1 = extract32_is[OF f1[OF y0(2) h0] x(2)]
  note h1 = B[OF h0 pb(1)]
  note y2 = extract32_is[OF f2[OF y1(2) h1] x(3)]
  note h2 = B[OF h1 pb(2)]
  note y3 = extract32_is[OF f3[OF y2(2) h2] x(4)]
  note h3 = B[OF h2 pb(3)]
  note y4 = extract32_is[OF f4[OF y3(2) h3] x(5)]
  note h4 = B[OF h3 pb(4)]
  note y5 = extract32_is[OF f5[OF y4(2) h4] x(6)]
  define v1 where "v1 = p0 div 2 ^ 64 + p1"
  define v2 where "v2 = v1 div 2 ^ 64 + p2"
  define v3 where "v3 = v2 div 2 ^ 64 + p3"
  define v4 where "v4 = v3 div 2 ^ 64 + p4"
  define v5 where "v5 = v4 div 2 ^ 64 + p5"
  define v6 where "v6 = v5 div 2 ^ 64 + p6"
  note F = v1_def[symmetric]
  have S: "p0 mod 2 ^ 64 + v1 mod 2 ^ 64 * 2 ^ 64 + v2 mod 2 ^ 64 * 2 ^ 128 + v3 mod 2 ^ 64 * 2 ^ 192 + v4 mod 2 ^ 64 * 2 ^ 256 +
      v5 mod 2 ^ 64 * 2 ^ 320 + v6 mod 2 ^ 64 * 2 ^ 384 + v6 div 2 ^ 64 * 2 ^ 448 =
    p0 + p1 * 2 ^ 64 + p2 * 2 ^ 128 + p3 * 2 ^ 192 + p4 * 2 ^ 256 + p5 * 2 ^ 320 + p6 * 2 ^ 384"
    by (rule digits8[OF D trans[OF v1_def[symmetric] D] trans[OF v2_def[symmetric] D] trans[OF v3_def[symmetric] D]
        trans[OF v4_def[symmetric] D] trans[OF v5_def[symmetric] D] trans[OF v6_def[symmetric] D]])
  have "v6 div 2 ^ 64 * 2 ^ 448 < 2 ^ 64 * 2 ^ 448" using S tot by simp
  then have "v6 div 2 ^ 64 < 2 ^ 64" by (simp only: mult_less_cancel2)
  then have v6: "v6 < 2 ^ 128" by (simp add: div_less_iff_less_mult)
  have "acc_is (f6 d6) v6" unfolding v6_def v5_def v4_def v3_def v2_def v1_def
    by (rule f6[OF y5(2)]) (use v6 in \<open>simp only: v6_def v5_def v4_def v3_def v2_def v1_def\<close>)
  note y6 = extract_fast_is[OF this x(7) v6]
  have "unat (fst d7) + (unat (fst (snd d7)) * 2 ^ 64 + unat (snd (snd d7)) * 2 ^ 128) = v6 div 2 ^ 64"
    using y6(2) by (simp add: acc_is_def acc_val_def)
  with \<open>v6 div 2 ^ 64 < 2 ^ 64\<close> have "unat (fst d7) = v6 div 2 ^ 64" by (rule low_digit)
  moreover have "unat l0 = p0 mod 2 ^ 64" "unat l1 = v1 mod 2 ^ 64" "unat l2 = v2 mod 2 ^ 64" "unat l3 = v3 mod 2 ^ 64"
    "unat l4 = v4 mod 2 ^ 64" "unat l5 = v5 mod 2 ^ 64" "unat l6 = v6 mod 2 ^ 64"
    using y0(1) y1(1) y2(1) y3(1) y4(1) y5(1) y6(1)
    by (simp_all only: v6_def v5_def v4_def v3_def v2_def v1_def)
  moreover have "limbs_val 64 [l0, l1, l2, l3, l4, l5, l6, fst d7] = unat l0 + unat l1 * 2 ^ 64 + unat l2 * 2 ^ 128 + unat l3 * 2 ^ 192 +
      unat l4 * 2 ^ 256 + unat l5 * 2 ^ 320 + unat l6 * 2 ^ 384 + unat (fst d7) * 2 ^ 448" by simp
  ultimately show ?thesis using S by (simp only:)
qed

lemma sc_val_bound: "sc_val a < 2 ^ 256"
  using unat64[of "sc_d0 a"] unat64[of "sc_d1 a"] unat64[of "sc_d2 a"] unat64[of "sc_d3 a"] by (simp add: sc_val_def)

lemma sc_prod_bound: "sc_val a * sc_val b < 2 ^ 512"
  using prod_bound[OF sc_val_bound sc_val_bound, of a b] by simp

lemma mul_512_correct:
  "length (secp256k1_scalar_mul_512 a b) = 8" "limbs_val 64 (secp256k1_scalar_mul_512 a b) = sc_val a * sc_val b"
proof -
  obtain a0 a1 a2 a3 where a: "a = mk_sc a0 a1 a2 a3" by (cases a) auto
  obtain b0 b1 b2 b3 where b: "b = mk_sc b0 b1 b2 b3" by (cases b) auto
  let ?p = "\<lambda>x y. unat (x :: u64) * unat (y :: u64)"
  let ?f1 = "\<lambda>c. muladd a1 b0 (muladd a0 b1 c)"
  let ?f2 = "\<lambda>c. muladd a2 b0 (muladd a1 b1 (muladd a0 b2 c))"
  let ?f3 = "\<lambda>c. muladd a3 b0 (muladd a2 b1 (muladd a1 b2 (muladd a0 b3 c)))"
  let ?f4 = "\<lambda>c. muladd a3 b1 (muladd a2 b2 (muladd a1 b3 c))"
  let ?f5 = "\<lambda>c. muladd a3 b2 (muladd a2 b3 c)"
  let ?f6 = "\<lambda>c. muladd_fast a3 b3 c"
  let ?c = "muladd_fast a0 b0 (0, 0, 0) :: 32 acc"
  obtain l0 d1 where x0: "extract_fast ?c = (l0, d1)" by (cases "extract_fast ?c")
  obtain l1 d2 where x1: "extract_acc (?f1 d1) = (l1, d2)" by (cases "extract_acc (?f1 d1)")
  obtain l2 d3 where x2: "extract_acc (?f2 d2) = (l2, d3)" by (cases "extract_acc (?f2 d2)")
  obtain l3 d4 where x3: "extract_acc (?f3 d3) = (l3, d4)" by (cases "extract_acc (?f3 d3)")
  obtain l4 d5 where x4: "extract_acc (?f4 d4) = (l4, d5)" by (cases "extract_acc (?f4 d4)")
  obtain l5 d6 where x5: "extract_acc (?f5 d5) = (l5, d6)" by (cases "extract_acc (?f5 d5)")
  obtain l6 d7 where x6: "extract_fast (?f6 d6) = (l6, d7)" by (cases "extract_fast (?f6 d6)")
  have l: "secp256k1_scalar_mul_512 a b = [l0, l1, l2, l3, l4, l5, l6, fst d7]"
    by (simp add: secp256k1_scalar_mul_512_def Let_def a b x0 x1 x2 x3 x4 x5 x6)
  then show "length (secp256k1_scalar_mul_512 a b) = 8" by simp
  have eq: "?p a0 b0 + (?p a0 b1 + ?p a1 b0) * 2 ^ 64 + (?p a0 b2 + ?p a1 b1 + ?p a2 b0) * 2 ^ 128 +
      (?p a0 b3 + ?p a1 b2 + ?p a2 b1 + ?p a3 b0) * 2 ^ 192 + (?p a1 b3 + ?p a2 b2 + ?p a3 b1) * 2 ^ 256 +
      (?p a2 b3 + ?p a3 b2) * 2 ^ 320 + ?p a3 b3 * 2 ^ 384 = sc_val a * sc_val b"
    by (simp add: sc_val_def a b algebra_simps)
  show "limbs_val 64 (secp256k1_scalar_mul_512 a b) = sc_val a * sc_val b"
    unfolding l eq[symmetric]
  proof (rule product_words[where c = ?c and ?f1.0 = ?f1 and ?f2.0 = ?f2 and ?f3.0 = ?f3 and ?f4.0 = ?f4 and ?f5.0 = ?f5 and ?f6.0 = ?f6, OF x0 x1 x2 x3 x4 x5 x6])
    show "acc_is ?c (?p a0 b0)" using muladd_fast_is[OF acc_is_0, of a0 b0] prod64[of a0 b0] by simp
    show "?p a0 b0 < 2 ^ 128" using prod64[of a0 b0] by simp
    fix d :: "32 acc" and h :: nat
    assume d: "acc_is d h"
    show "acc_is (?f6 d) (h + ?p a3 b3)" if "h + ?p a3 b3 < 2 ^ 128" by (rule muladd_fast_is[OF d that])
    assume h: "h < 2 ^ 68"
    show "acc_is (?f1 d) (h + (?p a0 b1 + ?p a1 b0))"
      using muladd_is[OF muladd_is[OF d]] h prod64[of a0 b1] prod64[of a1 b0] by (simp add: add.assoc)
    show "acc_is (?f2 d) (h + (?p a0 b2 + ?p a1 b1 + ?p a2 b0))"
      using muladd_is[OF muladd_is[OF muladd_is[OF d]]] h prod64[of a0 b2] prod64[of a1 b1] prod64[of a2 b0] by (simp add: add.assoc)
    show "acc_is (?f3 d) (h + (?p a0 b3 + ?p a1 b2 + ?p a2 b1 + ?p a3 b0))"
      using muladd_is[OF muladd_is[OF muladd_is[OF muladd_is[OF d]]]] h prod64[of a0 b3] prod64[of a1 b2] prod64[of a2 b1] prod64[of a3 b0]
      by (simp add: add.assoc)
    show "acc_is (?f4 d) (h + (?p a1 b3 + ?p a2 b2 + ?p a3 b1))"
      using muladd_is[OF muladd_is[OF muladd_is[OF d]]] h prod64[of a1 b3] prod64[of a2 b2] prod64[of a3 b1] by (simp add: add.assoc)
    show "acc_is (?f5 d) (h + (?p a2 b3 + ?p a3 b2))"
      using muladd_is[OF muladd_is[OF d]] h prod64[of a2 b3] prod64[of a3 b2] by (simp add: add.assoc)
  next
    show "?p a0 b1 + ?p a1 b0 < 2 ^ 131" "?p a0 b2 + ?p a1 b1 + ?p a2 b0 < 2 ^ 131" "?p a0 b3 + ?p a1 b2 + ?p a2 b1 + ?p a3 b0 < 2 ^ 131"
      "?p a1 b3 + ?p a2 b2 + ?p a3 b1 < 2 ^ 131" "?p a2 b3 + ?p a3 b2 < 2 ^ 131"
      using prod64[of a0 b1] prod64[of a1 b0] prod64[of a0 b2] prod64[of a1 b1] prod64[of a2 b0] prod64[of a0 b3] prod64[of a1 b2]
        prod64[of a2 b1] prod64[of a3 b0] prod64[of a1 b3] prod64[of a2 b2] prod64[of a3 b1] prod64[of a2 b3] prod64[of a3 b2]
      by simp_all
  qed (use sc_prod_bound[of a b] eq in simp)
qed

lemma sqr_512_correct:
  "length (secp256k1_scalar_sqr_512 a) = 8" "limbs_val 64 (secp256k1_scalar_sqr_512 a) = sc_val a * sc_val a"
proof -
  obtain a0 a1 a2 a3 where a: "a = mk_sc a0 a1 a2 a3" by (cases a) auto
  let ?p = "\<lambda>x y. unat (x :: u64) * unat (y :: u64)"
  let ?f1 = "\<lambda>c. muladd2 a0 a1 c"
  let ?f2 = "\<lambda>c. muladd a1 a1 (muladd2 a0 a2 c)"
  let ?f3 = "\<lambda>c. muladd2 a1 a2 (muladd2 a0 a3 c)"
  let ?f4 = "\<lambda>c. muladd a2 a2 (muladd2 a1 a3 c)"
  let ?f5 = "\<lambda>c. muladd2 a2 a3 c"
  let ?f6 = "\<lambda>c. muladd_fast a3 a3 c"
  let ?c = "muladd_fast a0 a0 (0, 0, 0) :: 32 acc"
  obtain l0 d1 where x0: "extract_fast ?c = (l0, d1)" by (cases "extract_fast ?c")
  obtain l1 d2 where x1: "extract_acc (?f1 d1) = (l1, d2)" by (cases "extract_acc (?f1 d1)")
  obtain l2 d3 where x2: "extract_acc (?f2 d2) = (l2, d3)" by (cases "extract_acc (?f2 d2)")
  obtain l3 d4 where x3: "extract_acc (?f3 d3) = (l3, d4)" by (cases "extract_acc (?f3 d3)")
  obtain l4 d5 where x4: "extract_acc (?f4 d4) = (l4, d5)" by (cases "extract_acc (?f4 d4)")
  obtain l5 d6 where x5: "extract_acc (?f5 d5) = (l5, d6)" by (cases "extract_acc (?f5 d5)")
  obtain l6 d7 where x6: "extract_fast (?f6 d6) = (l6, d7)" by (cases "extract_fast (?f6 d6)")
  have l: "secp256k1_scalar_sqr_512 a = [l0, l1, l2, l3, l4, l5, l6, fst d7]"
    by (simp add: secp256k1_scalar_sqr_512_def Let_def a x0 x1 x2 x3 x4 x5 x6)
  then show "length (secp256k1_scalar_sqr_512 a) = 8" by simp
  have eq: "?p a0 a0 + 2 * ?p a0 a1 * 2 ^ 64 + (2 * ?p a0 a2 + ?p a1 a1) * 2 ^ 128 + (2 * ?p a0 a3 + 2 * ?p a1 a2) * 2 ^ 192 +
      (2 * ?p a1 a3 + ?p a2 a2) * 2 ^ 256 + 2 * ?p a2 a3 * 2 ^ 320 + ?p a3 a3 * 2 ^ 384 = sc_val a * sc_val a"
    by (simp add: sc_val_def a algebra_simps)
  show "limbs_val 64 (secp256k1_scalar_sqr_512 a) = sc_val a * sc_val a"
    unfolding l eq[symmetric]
  proof (rule product_words[where c = ?c and ?f1.0 = ?f1 and ?f2.0 = ?f2 and ?f3.0 = ?f3 and ?f4.0 = ?f4 and ?f5.0 = ?f5 and ?f6.0 = ?f6,
        OF x0 x1 x2 x3 x4 x5 x6])
    show "acc_is ?c (?p a0 a0)" using muladd_fast_is[OF acc_is_0, of a0 a0] prod64[of a0 a0] by simp
    show "?p a0 a0 < 2 ^ 128" using prod64[of a0 a0] by simp
    fix d :: "32 acc" and h :: nat
    assume d: "acc_is d h"
    show "acc_is (?f6 d) (h + ?p a3 a3)" if "h + ?p a3 a3 < 2 ^ 128" by (rule muladd_fast_is[OF d that])
    assume h: "h < 2 ^ 68"
    show "acc_is (?f1 d) (h + 2 * ?p a0 a1)" "acc_is (?f5 d) (h + 2 * ?p a2 a3)"
      using muladd2_is[OF d] h prod64[of a0 a1] prod64[of a2 a3] by simp_all
    show "acc_is (?f2 d) (h + (2 * ?p a0 a2 + ?p a1 a1))"
      using muladd_is[OF muladd2_is[OF d]] h prod64[of a0 a2] prod64[of a1 a1] by (simp add: add.assoc)
    show "acc_is (?f3 d) (h + (2 * ?p a0 a3 + 2 * ?p a1 a2))"
      using muladd2_is[OF muladd2_is[OF d]] h prod64[of a0 a3] prod64[of a1 a2] by (simp add: add.assoc)
    show "acc_is (?f4 d) (h + (2 * ?p a1 a3 + ?p a2 a2))"
      using muladd_is[OF muladd2_is[OF d]] h prod64[of a1 a3] prod64[of a2 a2] by (simp add: add.assoc)
  next
    show "2 * ?p a0 a1 < 2 ^ 131" "2 * ?p a0 a2 + ?p a1 a1 < 2 ^ 131" "2 * ?p a0 a3 + 2 * ?p a1 a2 < 2 ^ 131"
      "2 * ?p a1 a3 + ?p a2 a2 < 2 ^ 131" "2 * ?p a2 a3 < 2 ^ 131"
      using prod64[of a0 a1] prod64[of a0 a2] prod64[of a1 a1] prod64[of a0 a3] prod64[of a1 a2]
        prod64[of a1 a3] prod64[of a2 a2] prod64[of a2 a3] by simp_all
  qed (use sc_prod_bound[of a a] eq in simp)
qed
end
