(* ===== verification/Scalar4x64_Red.thy ===== *)
theory Scalar4x64_Red
  imports Scalar4x64_Mul
begin

unbundle bit_operations_syntax

text \<open>
  The operations that carry through four limbs (conditional reduction, addition, conditional bit
  addition, negation) and the reduction of the 512-bit product.
\<close>

section \<open>One carry chain\<close>

text \<open>Four 128-bit addends, carried limb by limb; the last component is the carry out.\<close>

definition carry4 :: "u128 \<Rightarrow> u128 \<Rightarrow> u128 \<Rightarrow> u128 \<Rightarrow> secp256k1_scalar \<times> u128" where
  "carry4 e0 e1 e2 e3 =
     (let t1 = drop_bit 64 e0 + e1; t2 = drop_bit 64 t1 + e2; t3 = drop_bit 64 t2 + e3
      in (mk_sc (lo64 e0) (lo64 t1) (lo64 t2) (lo64 t3), drop_bit 64 t3))"

lemma M64: "(0xFFFFFFFFFFFFFFFF :: 'a::len word) = mask 64"
  by (simp add: mask_eq_exp_minus_1)

lemma unat_lo64 [unat_norm]: "unat (lo64 t) = unat t mod 2 ^ 64"
  unfolding unat_ucast_mod M64 unat_and_mask by simp

lemma unat_w128 [unat_norm, simp]: "unat (w128 x) = unat x"
  by (rule unat_ucast_widen) simp

lemma digits4:
  fixes e0 e1 e2 e3 :: nat
  assumes "e0 = h0 * 2 ^ 64 + l0" "h0 + e1 = h1 * 2 ^ 64 + l1" "h1 + e2 = h2 * 2 ^ 64 + l2" "h2 + e3 = h3 * 2 ^ 64 + l3"
  shows "l0 + l1 * 2 ^ 64 + l2 * 2 ^ 128 + l3 * 2 ^ 192 + h3 * 2 ^ 256 = e0 + e1 * 2 ^ 64 + e2 * 2 ^ 128 + e3 * 2 ^ 192"
  using assms by simp

lemma carry4_val:
  assumes "unat e0 < 2 ^ 127" "unat e1 < 2 ^ 127" "unat e2 < 2 ^ 127" "unat e3 < 2 ^ 127"
  shows "sc_val (fst (carry4 e0 e1 e2 e3)) + unat (snd (carry4 e0 e1 e2 e3)) * 2 ^ 256 =
    unat e0 + unat e1 * 2 ^ 64 + unat e2 * 2 ^ 128 + unat e3 * 2 ^ 192"
proof -
  define t1 t2 t3 where "t1 = drop_bit 64 e0 + e1" and "t2 = drop_bit 64 t1 + e2" and "t3 = drop_bit 64 t2 + e3"
  note D = div_mult_mod_eq[of _ "2 ^ 64 :: nat", symmetric]
  have H: "unat (x :: u128) div 2 ^ 64 < 2 ^ 64" for x using unat_lt_exp[of x] by (intro div64_bound) simp
  have t1: "unat t1 = unat e0 div 2 ^ 64 + unat e1"
    unfolding t1_def using assms H[of e0] by (intro word_add128 unat_drop_bit refl) simp
  have t2: "unat t2 = unat t1 div 2 ^ 64 + unat e2"
    unfolding t2_def using assms H[of t1] by (intro word_add128 unat_drop_bit refl) simp
  have t3: "unat t3 = unat t2 div 2 ^ 64 + unat e3"
    unfolding t3_def using assms H[of t2] by (intro word_add128 unat_drop_bit refl) simp
  have "unat e0 mod 2 ^ 64 + unat t1 mod 2 ^ 64 * 2 ^ 64 + unat t2 mod 2 ^ 64 * 2 ^ 128 + unat t3 mod 2 ^ 64 * 2 ^ 192 +
      unat t3 div 2 ^ 64 * 2 ^ 256 = unat e0 + unat e1 * 2 ^ 64 + unat e2 * 2 ^ 128 + unat e3 * 2 ^ 192"
    by (rule digits4[OF D trans[OF t1[symmetric] D] trans[OF t2[symmetric] D] trans[OF t3[symmetric] D]])
  moreover have "carry4 e0 e1 e2 e3 = (mk_sc (lo64 e0) (lo64 t1) (lo64 t2) (lo64 t3), drop_bit 64 t3)"
    by (simp add: carry4_def Let_def t1_def t2_def t3_def)
  ultimately show ?thesis by (simp only: sc_val_def fst_conv snd_conv secp256k1_scalar.simps unat_lo64 unat_drop_bit)
qed

lemma carry4_mod_div:
  assumes "unat e0 < 2 ^ 127" "unat e1 < 2 ^ 127" "unat e2 < 2 ^ 127" "unat e3 < 2 ^ 127"
    "unat e0 + unat e1 * 2 ^ 64 + unat e2 * 2 ^ 128 + unat e3 * 2 ^ 192 = s"
  shows "sc_val (fst (carry4 e0 e1 e2 e3)) = s mod 2 ^ 256" "unat (snd (carry4 e0 e1 e2 e3)) = s div 2 ^ 256"
proof -
  have s: "s = sc_val (fst (carry4 e0 e1 e2 e3)) + unat (snd (carry4 e0 e1 e2 e3)) * 2 ^ 256"
    using carry4_val[OF assms(1-4)] assms(5) by simp
  show "sc_val (fst (carry4 e0 e1 e2 e3)) = s mod 2 ^ 256" "unat (snd (carry4 e0 e1 e2 e3)) = s div 2 ^ 256"
    unfolding s digit_mod_div[OF sc_val_bound] by simp_all
qed

section \<open>Comparison with the order\<close>

lemmas sc_N = SECP256K1_N_0_def SECP256K1_N_1_def SECP256K1_N_2_def SECP256K1_N_3_def
  SECP256K1_N_C_0_def SECP256K1_N_C_1_def SECP256K1_N_C_2_def
  SECP256K1_N_H_0_def SECP256K1_N_H_1_def SECP256K1_N_H_2_def SECP256K1_N_H_3_def

lemma sc_val_horner:
  "sc_val a = unat (sc_d0 a) + (unat (sc_d1 a) + (unat (sc_d2 a) + unat (sc_d3 a) * 2 ^ 64) * 2 ^ 64) * 2 ^ 64"
  by (simp add: sc_val_def)

lemma sc_val_less_iff:
  "sc_val a < sc_val b \<longleftrightarrow> sc_d3 a < sc_d3 b \<or> sc_d3 a = sc_d3 b \<and> (sc_d2 a < sc_d2 b \<or> sc_d2 a = sc_d2 b \<and>
     (sc_d1 a < sc_d1 b \<or> sc_d1 a = sc_d1 b \<and> sc_d0 a < sc_d0 b))"
  unfolding sc_val_horner digit_less_iff[OF unat64 unat64]
  using digit_unique[OF unat64 unat64, of "sc_d2 a" "unat (sc_d3 a)" "sc_d2 b" "unat (sc_d3 b)"]
    digit_unique[OF unat64 unat64, of "sc_d1 a" _ "sc_d1 b"]
  unfolding word_less_nat_alt word_unat_eq_iff by metis

lemma sc_val_inj: "sc_val a = sc_val b \<Longrightarrow> a = b"
proof -
  assume "sc_val a = sc_val b"
  note e0 = digit_unique[OF unat64 unat64 this[unfolded sc_val_horner]]
  note e1 = digit_unique[OF unat64 unat64 e0(2)]
  note e2 = digit_unique[OF unat64 unat64 e1(2)]
  show ?thesis using e0(1) e1(1) e2 by (simp add: word_unat_eq_iff)
qed

lemma check_overflow_iff: "secp256k1_scalar_check_overflow a \<longleftrightarrow> sc_n \<le> sc_val a"
proof -
  let ?n = "mk_sc SECP256K1_N_0 SECP256K1_N_1 SECP256K1_N_2 SECP256K1_N_3"
  have n: "sc_val ?n = sc_n" by (simp add: sc_val_def sc_N sc_n_def)
  have "sc_d3 a \<le> SECP256K1_N_3" unfolding SECP256K1_N_3_def word_le_nat_alt using unat64[of "sc_d3 a"] by simp
  then have "secp256k1_scalar_check_overflow a \<longleftrightarrow> \<not> sc_val a < sc_val ?n"
    unfolding sc_val_less_iff secp256k1_scalar_check_overflow_def Let_def by auto
  then show ?thesis unfolding n by auto
qed

lemma is_high_iff: "secp256k1_scalar_is_high a \<longleftrightarrow> sc_n div 2 < sc_val a"
proof -
  let ?h = "mk_sc SECP256K1_N_H_0 SECP256K1_N_H_1 SECP256K1_N_H_2 SECP256K1_N_H_3"
  have n: "sc_val ?h = sc_n div 2" by (simp add: sc_val_def sc_N sc_n_def)
  have "sc_d2 a \<le> SECP256K1_N_H_2" unfolding SECP256K1_N_H_2_def word_le_nat_alt using unat64[of "sc_d2 a"] by simp
  then have "secp256k1_scalar_is_high a \<longleftrightarrow> sc_val ?h < sc_val a"
    unfolding sc_val_less_iff secp256k1_scalar_is_high_def Let_def by auto
  then show ?thesis unfolding n .
qed

section \<open>Conditional reduction and addition\<close>

lemma scalar_reduce_val:
  assumes "ov = 0 \<or> ov = 1"
  shows "sc_val (secp256k1_scalar_reduce r ov) = (sc_val r + unat ov * (2 ^ 256 - sc_n)) mod 2 ^ 256"
proof -
  let ?e = "\<lambda>d c. w128 d + w128 (ucast ov * c)"
  have u: "unat (?e d c) = unat d + unat ov * unat c" "unat (?e d c) < 2 ^ 127" for d c :: u64
    using assms unat64[of d] unat64[of c] by (auto simp: unat_add_exact)
  have r: "secp256k1_scalar_reduce r ov = fst (carry4 (?e (sc_d0 r) SECP256K1_N_C_0) (?e (sc_d1 r) SECP256K1_N_C_1) (?e (sc_d2 r) SECP256K1_N_C_2) (w128 (sc_d3 r)))"
    by (simp add: secp256k1_scalar_reduce_def carry4_def Let_def)
  have d3: "unat (w128 (sc_d3 r)) < 2 ^ 127" using unat64[of "sc_d3 r"] by simp
  show ?thesis unfolding r
    by (rule carry4_mod_div(1)[OF u(2) u(2) u(2) d3], unfold u(1) unat_w128) (simp add: sc_val_def sc_N sc_n_def)
qed

lemma mod_absorb: "(x + k * M + y) mod M = (x + y) mod (M::nat)"
  by (metis add.assoc add.commute mod_mult_self1)

lemma reduce_once:
  fixes t :: u128 and ov :: u32
  assumes "v < 2 * sc_n" "v = sc_val r + unat t * 2 ^ 256" "ov = ucast (t + of_bool (secp256k1_scalar_check_overflow r))"
  shows "sc_val (secp256k1_scalar_reduce r ov) = v mod sc_n" "ov = of_bool (sc_n \<le> v)"
proof -
  have n: "sc_n < 2 ^ 256" "2 * sc_n < 2 * 2 ^ 256" "2 ^ 256 < 2 * sc_n" by (simp_all add: sc_n_def)
  have "unat t * 2 ^ 256 < 2 * 2 ^ 256" using assms(1,2) n by linarith
  then have "unat t < 2" by (simp only: mult_less_cancel2)
  then have k: "t = 0 \<or> t = 1" by (auto simp: word_unat_eq_iff less_2_cases_iff)
  show ov: "ov = of_bool (sc_n \<le> v)"
    using k
  proof
    assume "t = 1"
    then have "\<not> sc_n \<le> sc_val r" "sc_n \<le> v" using assms(1,2) by (simp_all add: sc_n_def)
    then show ?thesis using \<open>t = 1\<close> by (simp add: assms(3) check_overflow_iff)
  qed (simp add: assms(2,3) check_overflow_iff)
  then have "ov = 0 \<or> ov = 1" by auto
  note s = scalar_reduce_val[OF this]
  have uo: "unat ov = (if sc_n \<le> v then 1 else 0)" by (simp add: ov)
  have "(sc_val r + unat ov * (2 ^ 256 - sc_n)) mod 2 ^ 256 = (v + unat ov * (2 ^ 256 - sc_n)) mod 2 ^ 256"
    unfolding assms(2) mod_absorb by (rule refl)
  also have "\<dots> = v mod sc_n"
  proof (cases "sc_n \<le> v")
    case True
    then obtain d where d: "v = sc_n + d" using le_Suc_ex by blast
    then have "d < sc_n" using assms(1) by simp
    moreover have e: "v + unat ov * (2 ^ 256 - sc_n) = d + 1 * 2 ^ 256" using n True by (simp add: uo d)
    ultimately have "(v + unat ov * (2 ^ 256 - sc_n)) mod 2 ^ 256 = d" unfolding e using n by (intro digit_mod_div) linarith
    then show ?thesis using \<open>d < sc_n\<close> by (simp add: d)
  next
    case False
    then show ?thesis using n by (simp add: uo)
  qed
  finally show "sc_val (secp256k1_scalar_reduce r ov) = v mod sc_n" using s by simp
qed

lemma scalar_add_correct:
  assumes "sc_val a < sc_n" "sc_val b < sc_n"
  shows "sc_val (fst (secp256k1_scalar_add a b)) = (sc_val a + sc_val b) mod sc_n"
    "snd (secp256k1_scalar_add a b) = of_bool (sc_n \<le> sc_val a + sc_val b)"
proof -
  let ?e = "\<lambda>x y. w128 x + w128 y"
  have u: "unat (?e x y) = unat x + unat y" "unat (?e x y) < 2 ^ 127" for x y :: u64
    using unat64[of x] unat64[of y] by (simp_all add: unat_add_exact)
  define c where "c = carry4 (?e (sc_d0 a) (sc_d0 b)) (?e (sc_d1 a) (sc_d1 b)) (?e (sc_d2 a) (sc_d2 b)) (?e (sc_d3 a) (sc_d3 b))"
  have v: "sc_val (fst c) + unat (snd c) * 2 ^ 256 = sc_val a + sc_val b"
    unfolding c_def carry4_val[OF u(2) u(2) u(2) u(2)] u(1) by (simp add: sc_val_def)
  have a: "secp256k1_scalar_add a b = (let ov = ucast (snd c + of_bool (secp256k1_scalar_check_overflow (fst c))) in (secp256k1_scalar_reduce (fst c) ov, ov))"
    by (simp add: secp256k1_scalar_add_def carry4_def Let_def c_def)
  then show "sc_val (fst (secp256k1_scalar_add a b)) = (sc_val a + sc_val b) mod sc_n"
    "snd (secp256k1_scalar_add a b) = of_bool (sc_n \<le> sc_val a + sc_val b)"
    using reduce_once[of "sc_val a + sc_val b" "fst c" "snd c", OF _ v[symmetric] refl] assms by (simp_all add: Let_def)
qed

section \<open>Reduction of the product\<close>

lemma nc_vals: "unat SECP256K1_N_C_0 = 0x402DA1732FC9BEBF" "unat SECP256K1_N_C_1 = 0x4551231950B75FC4"
  by (simp_all add: sc_N)

lemma prod_nc:
  "unat (x :: u64) * unat SECP256K1_N_C_0 \<le> 0xFFFFFFFFFFFFFFFF * 0x402DA1732FC9BEBF"
  "unat (x :: u64) * unat SECP256K1_N_C_1 \<le> 0xFFFFFFFFFFFFFFFF * 0x4551231950B75FC4"
  unfolding nc_vals using unat64[of x] by simp_all

lemma fst_acc_small: "acc_is c v \<Longrightarrow> v < 2 ^ 64 \<Longrightarrow> unat (fst c) = v"
  using low_digit[of v "unat (fst c)" "unat (fst (snd c))" "unat (snd (snd c))"] by (simp add: acc_is_def acc_val_def)

lemma digits6:
  fixes v0 v1 v2 v3 v4 v5 :: nat
  assumes "v0 = h0 * 2 ^ 64 + l0" "h0 + v1 = h1 * 2 ^ 64 + l1" "h1 + v2 = h2 * 2 ^ 64 + l2" "h2 + v3 = h3 * 2 ^ 64 + l3"
    "h3 + v4 = h4 * 2 ^ 64 + l4" "h4 + v5 = h5 * 2 ^ 64 + l5"
  shows "l0 + l1 * 2 ^ 64 + l2 * 2 ^ 128 + l3 * 2 ^ 192 + l4 * 2 ^ 256 + l5 * 2 ^ 320 + h5 * 2 ^ 384 =
    v0 + v1 * 2 ^ 64 + v2 * 2 ^ 128 + v3 * 2 ^ 192 + v4 * 2 ^ 256 + v5 * 2 ^ 320"
  using assms by simp

lemma reduce_512_385_correct:
  assumes r: "reduce_512_385 [l0, l1, l2, l3, n0, n1, n2, n3] = (m0, m1, m2, m3, m4, m5, m6)"
  shows "unat m0 + unat m1 * 2 ^ 64 + unat m2 * 2 ^ 128 + unat m3 * 2 ^ 192 + unat m4 * 2 ^ 256 + unat m5 * 2 ^ 320 + unat m6 * 2 ^ 384 =
      limbs_val 64 [l0, l1, l2, l3] + limbs_val 64 [n0, n1, n2, n3] * (2 ^ 256 - sc_n)" "unat m6 \<le> 1"
proof -
  let ?N0 = "SECP256K1_N_C_0" and ?N1 = "SECP256K1_N_C_1"
  define f0 where "f0 = muladd_fast n0 ?N0 (l0, 0, 0 :: u64)"
  obtain k0 d0 where x0: "extract_fast f0 = (k0, d0)" by (cases "extract_fast f0")
  define f1 where "f1 = muladd n0 ?N1 (muladd n1 ?N0 (sumadd_fast l1 d0))"
  obtain k1 d1 where x1: "extract_acc f1 = (k1, d1)" by (cases "extract_acc f1")
  define f2 where "f2 = sumadd n0 (muladd n1 ?N1 (muladd n2 ?N0 (sumadd l2 d1)))"
  obtain k2 d2 where x2: "extract_acc f2 = (k2, d2)" by (cases "extract_acc f2")
  define f3 where "f3 = sumadd n1 (muladd n2 ?N1 (muladd n3 ?N0 (sumadd l3 d2)))"
  obtain k3 d3 where x3: "extract_acc f3 = (k3, d3)" by (cases "extract_acc f3")
  define f4 where "f4 = sumadd n2 (muladd n3 ?N1 d3)"
  obtain k4 d4 where x4: "extract_acc f4 = (k4, d4)" by (cases "extract_acc f4")
  define f5 where "f5 = sumadd_fast n3 d4"
  obtain k5 d5 where x5: "extract_fast f5 = (k5, d5)" by (cases "extract_fast f5")
  have "reduce_512_385 [l0, l1, l2, l3, n0, n1, n2, n3] = (k0, k1, k2, k3, k4, k5, ucast (fst d5))"
    by (simp add: reduce_512_385_def Let_def x0 x1 x2 x3 x4 x5 flip: f0_def f1_def f2_def f3_def f4_def f5_def)
  then have m: "m0 = k0" "m1 = k1" "m2 = k2" "m3 = k3" "m4 = k4" "m5 = k5" "m6 = ucast (fst d5)" using r by simp_all
  note P = prod_nc[of n0] prod_nc[of n1] prod_nc[of n2] prod_nc[of n3] unat64[of l1] unat64[of l2] unat64[of l3]
    unat64[of n0] unat64[of n1] unat64[of n2] unat64[of n3]
  define u0 where "u0 = unat l0 + unat n0 * unat ?N0"
  define u1 where "u1 = u0 div 2 ^ 64 + unat l1 + unat n1 * unat ?N0 + unat n0 * unat ?N1"
  define u2 where "u2 = u1 div 2 ^ 64 + unat l2 + unat n2 * unat ?N0 + unat n1 * unat ?N1 + unat n0"
  define u3 where "u3 = u2 div 2 ^ 64 + unat l3 + unat n3 * unat ?N0 + unat n2 * unat ?N1 + unat n1"
  define u4 where "u4 = u3 div 2 ^ 64 + unat n3 * unat ?N1 + unat n2"
  define u5 where "u5 = u4 div 2 ^ 64 + unat n3"
  have u0: "u0 < 2 ^ 128" using prod_nc(1)[of n0] unat64[of l0] by (simp add: u0_def)
  have "acc_is (l0, 0, 0 :: u64) (unat l0)" by (simp add: acc_is_def acc_val_def)
  from muladd_fast_is[OF this, of n0 ?N0] u0 have "acc_is f0 u0" by (simp add: f0_def u0_def)
  note y0 = extract_fast_is[OF this x0 u0]
  have h0: "u0 div 2 ^ 64 < 2 ^ 68" using u0 by (intro div64_bound) simp
  have "acc_is f1 u1" unfolding f1_def u1_def using h0 P by (intro muladd_is sumadd_fast_is y0) simp_all
  note y1 = extract64_is[OF this x1]
  have h1: "u1 div 2 ^ 64 < 2 ^ 68" using h0 P unfolding u1_def by (intro div64_bound) simp
  have "acc_is f2 u2" unfolding f2_def u2_def using h1 P by (intro muladd_is sumadd_is y1) simp_all
  note y2 = extract64_is[OF this x2]
  have h2: "u2 div 2 ^ 64 < 2 ^ 68" using h1 P unfolding u2_def by (intro div64_bound) simp
  have "acc_is f3 u3" unfolding f3_def u3_def using h2 P by (intro muladd_is sumadd_is y2) simp_all
  note y3 = extract64_is[OF this x3]
  have h3: "u3 div 2 ^ 64 < 2 ^ 68" using h2 P unfolding u3_def by (intro div64_bound) simp
  have "acc_is f4 u4" unfolding f4_def u4_def using h3 P by (intro muladd_is sumadd_is y3) simp_all
  note y4 = extract64_is[OF this x4]
  have h4: "u4 div 2 ^ 64 < 2 ^ 68" using h3 P unfolding u4_def by (intro div64_bound) simp
  have u5: "u5 < 2 ^ 128" using h4 P by (simp add: u5_def)
  have "acc_is f5 u5" unfolding f5_def u5_def using h4 P by (intro sumadd_fast_is y4) simp
  note y5 = extract_fast_is[OF this x5 u5]
  have "u5 div 2 ^ 64 < 2 ^ 64" using u5 by (intro div64_bound) simp
  note c = fst_acc_small[OF y5(2) this]
  let ?L = "limbs_val 64 [l0, l1, l2, l3]" and ?N = "limbs_val 64 [n0, n1, n2, n3]"
  have S: "u0 mod 2 ^ 64 + u1 mod 2 ^ 64 * 2 ^ 64 + u2 mod 2 ^ 64 * 2 ^ 128 + u3 mod 2 ^ 64 * 2 ^ 192 + u4 mod 2 ^ 64 * 2 ^ 256 +
      u5 mod 2 ^ 64 * 2 ^ 320 + u5 div 2 ^ 64 * 2 ^ 384 = ?L + ?N * (2 ^ 256 - sc_n)"
  proof -
    note D = div_mult_mod_eq[of _ "2 ^ 64 :: nat", symmetric]
    note E = trans[OF _ D]
    show ?thesis
      by (rule trans[OF digits6[OF D E[of _ u1] E[of _ u2] E[of _ u3] E[of _ u4] E[of _ u5]]])
        (simp_all only: u1_def u2_def u3_def u4_def u5_def u0_def add.assoc,
         simp add: nc_vals sc_n_def algebra_simps)
  qed
  have mm: "unat m0 = u0 mod 2 ^ 64" "unat m1 = u1 mod 2 ^ 64" "unat m2 = u2 mod 2 ^ 64" "unat m3 = u3 mod 2 ^ 64"
    "unat m4 = u4 mod 2 ^ 64" "unat m5 = u5 mod 2 ^ 64"
    unfolding m by (rule y0 y1 y2 y3 y4 y5)+
  have LN: "?L < 2 ^ 256" "?N < 2 ^ 256"
    using unat64[of l0] unat64[of l1] unat64[of l2] unat64[of l3] unat64[of n0] unat64[of n1] unat64[of n2] unat64[of n3] by simp_all
  have "u5 div 2 ^ 64 * 2 ^ 384 < 2 * 2 ^ 384"
  proof -
    have "?N * (2 ^ 256 - sc_n) \<le> (2 ^ 256 - 1) * (2 ^ 256 - sc_n)" using LN(2) by (intro mult_le_mono1) simp
    then have "?L + ?N * (2 ^ 256 - sc_n) < 2 * 2 ^ 384" using LN(1) by (simp add: sc_n_def)
    then show ?thesis using S by linarith
  qed
  then have "u5 div 2 ^ 64 < 2" by (simp only: mult_less_cancel2)
  then have le: "u5 div 2 ^ 64 \<le> 1" by linarith
  then have m6: "unat m6 = u5 div 2 ^ 64" unfolding m unat_ucast_mod c by simp
  show "unat m6 \<le> 1" unfolding m6 by (rule le)
  show "unat m0 + unat m1 * 2 ^ 64 + unat m2 * 2 ^ 128 + unat m3 * 2 ^ 192 + unat m4 * 2 ^ 256 + unat m5 * 2 ^ 320 + unat m6 * 2 ^ 384 =
      ?L + ?N * (2 ^ 256 - sc_n)" unfolding mm m6 by (rule S)
qed

lemma reduce_385_258_correct:
  assumes r: "reduce_385_258 (m0, m1, m2, m3, m4, m5, m6) = (p0, p1, p2, p3, p4)" and m6: "unat m6 \<le> 1"
  shows "limbs_val 64 [p0, p1, p2, p3] + unat p4 * 2 ^ 256 =
      limbs_val 64 [m0, m1, m2, m3] + (unat m4 + unat m5 * 2 ^ 64 + unat m6 * 2 ^ 128) * (2 ^ 256 - sc_n)" "unat p4 \<le> 8"
proof -
  let ?N0 = "SECP256K1_N_C_0" and ?N1 = "SECP256K1_N_C_1" and ?m6 = "ucast m6 :: u64"
  define f0 where "f0 = muladd_fast m4 ?N0 (m0, 0, 0 :: u64)"
  obtain k0 d0 where x0: "extract_fast f0 = (k0, d0)" by (cases "extract_fast f0")
  define f1 where "f1 = muladd m4 ?N1 (muladd m5 ?N0 (sumadd_fast m1 d0))"
  obtain k1 d1 where x1: "extract_acc f1 = (k1, d1)" by (cases "extract_acc f1")
  define f2 where "f2 = sumadd m4 (muladd m5 ?N1 (muladd ?m6 ?N0 (sumadd m2 d1)))"
  obtain k2 d2 where x2: "extract_acc f2 = (k2, d2)" by (cases "extract_acc f2")
  define f3 where "f3 = sumadd_fast m5 (muladd_fast ?m6 ?N1 (sumadd_fast m3 d2))"
  obtain k3 d3 where x3: "extract_fast f3 = (k3, d3)" by (cases "extract_fast f3")
  have "reduce_385_258 (m0, m1, m2, m3, m4, m5, m6) = (k0, k1, k2, k3, ucast (fst d3 + ucast m6))"
    by (simp add: reduce_385_258_def Let_def x0 x1 x2 x3 flip: f0_def f1_def f2_def f3_def)
  then have p: "p0 = k0" "p1 = k1" "p2 = k2" "p3 = k3" "p4 = ucast (fst d3 + ucast m6)" using r by simp_all
  have w: "unat ?m6 = unat m6" by (rule unat_ucast_widen) simp
  have q: "unat m6 * unat ?N0 \<le> 0x402DA1732FC9BEBF" "unat m6 * unat ?N1 \<le> 0x4551231950B75FC4"
    using m6 mult_le_mono1[OF m6, of "unat ?N0"] mult_le_mono1[OF m6, of "unat ?N1"] by (simp_all add: nc_vals)
  note P = prod_nc[of m4] prod_nc[of m5] q unat64[of m1] unat64[of m2] unat64[of m3] unat64[of m4] unat64[of m5]
  define u0 where "u0 = unat m0 + unat m4 * unat ?N0"
  define u1 where "u1 = u0 div 2 ^ 64 + unat m1 + unat m5 * unat ?N0 + unat m4 * unat ?N1"
  define u2 where "u2 = u1 div 2 ^ 64 + unat m2 + unat m6 * unat ?N0 + unat m5 * unat ?N1 + unat m4"
  define u3 where "u3 = u2 div 2 ^ 64 + unat m3 + unat m6 * unat ?N1 + unat m5"
  have u0: "u0 < 2 ^ 128" using prod_nc(1)[of m4] unat64[of m0] by (simp add: u0_def)
  have "acc_is (m0, 0, 0 :: u64) (unat m0)" by (simp add: acc_is_def acc_val_def)
  from muladd_fast_is[OF this, of m4 ?N0] u0 have "acc_is f0 u0" by (simp add: f0_def u0_def)
  note y0 = extract_fast_is[OF this x0 u0]
  have h0: "u0 div 2 ^ 64 < 2 ^ 68" using u0 by (intro div64_bound) simp
  have "acc_is f1 u1" unfolding f1_def u1_def using h0 P by (intro muladd_is sumadd_fast_is y0) simp_all
  note y1 = extract64_is[OF this x1]
  have h1: "u1 div 2 ^ 64 < 2 ^ 68" using h0 P unfolding u1_def by (intro div64_bound) simp
  have "acc_is f2 u2" unfolding f2_def u2_def w[symmetric] using h1 P by (intro muladd_is sumadd_is y1) (simp_all add: w)
  note y2 = extract64_is[OF this x2]
  have h2: "u2 div 2 ^ 64 < 2 ^ 68" using h1 P unfolding u2_def by (intro div64_bound) simp
  have u3: "u3 < 2 ^ 69" using h2 P by (simp add: u3_def)
  have "acc_is f3 u3" unfolding f3_def u3_def w[symmetric] using h2 P by (intro muladd_fast_is sumadd_fast_is y2) (simp_all add: w)
  note y3 = extract_fast_is[OF this x3]
  have h3: "u3 div 2 ^ 64 < 2 ^ 5" using u3 by (intro div64_bound) simp
  have u3': "u3 < 2 ^ 128" using u3 by simp
  have c: "unat (fst d3) = u3 div 2 ^ 64" using h3 by (intro fst_acc_small[OF y3(2)[OF u3']]) simp
  have "unat (fst d3 + ucast m6) = u3 div 2 ^ 64 + unat m6" using h3 m6 by (intro word_add64 c w) simp
  then have p4: "unat p4 = u3 div 2 ^ 64 + unat m6" unfolding p unat_ucast_mod using h3 m6 by simp
  have S: "u0 mod 2 ^ 64 + u1 mod 2 ^ 64 * 2 ^ 64 + u2 mod 2 ^ 64 * 2 ^ 128 + u3 mod 2 ^ 64 * 2 ^ 192 + u3 div 2 ^ 64 * 2 ^ 256 + unat m6 * 2 ^ 256 =
      limbs_val 64 [m0, m1, m2, m3] + (unat m4 + unat m5 * 2 ^ 64 + unat m6 * 2 ^ 128) * (2 ^ 256 - sc_n)"
  proof -
    note D = div_mult_mod_eq[of _ "2 ^ 64 :: nat", symmetric]
    note E = trans[OF _ D]
    have "u0 mod 2 ^ 64 + u1 mod 2 ^ 64 * 2 ^ 64 + u2 mod 2 ^ 64 * 2 ^ 128 + u3 mod 2 ^ 64 * 2 ^ 192 + u3 div 2 ^ 64 * 2 ^ 256 =
      unat m0 + unat m4 * unat ?N0 + (unat m1 + unat m5 * unat ?N0 + unat m4 * unat ?N1) * 2 ^ 64 +
      (unat m2 + unat m6 * unat ?N0 + unat m5 * unat ?N1 + unat m4) * 2 ^ 128 + (unat m3 + unat m6 * unat ?N1 + unat m5) * 2 ^ 192"
      by (rule trans[OF digits4[OF D E[of _ u1] E[of _ u2] E[of _ u3]]])
        (simp_all only: u1_def u2_def u3_def u0_def add.assoc)
    then show ?thesis by (simp add: nc_vals sc_n_def algebra_simps)
  qed
  have pp: "unat p0 = u0 mod 2 ^ 64" "unat p1 = u1 mod 2 ^ 64" "unat p2 = u2 mod 2 ^ 64" "unat p3 = u3 mod 2 ^ 64"
    unfolding p by (rule y0 y1 y2 y3[OF u3'])+
  show "limbs_val 64 [p0, p1, p2, p3] + unat p4 * 2 ^ 256 =
      limbs_val 64 [m0, m1, m2, m3] + (unat m4 + unat m5 * 2 ^ 64 + unat m6 * 2 ^ 128) * (2 ^ 256 - sc_n)"
    unfolding S[symmetric] p4 by (simp add: pp algebra_simps)
  have h1': "u1 div 2 ^ 64 < 2 ^ 65" using h0 P unfolding u1_def by (intro div64_bound) simp
  have "u2 div 2 ^ 64 < 2 ^ 65" using h1' P unfolding u2_def by (intro div64_bound) simp
  then have "u3 div 2 ^ 64 < 6" using P unfolding u3_def by (intro div64_bound) simp
  then show "unat p4 \<le> 8" unfolding p4 using m6 by simp
qed

lemma mod_swap:
  fixes x k :: nat
  shows "(x + k * 2 ^ 256) mod sc_n = (x + k * (2 ^ 256 - sc_n)) mod sc_n"
proof -
  have "x + k * 2 ^ 256 = x + k * sc_n + k * (2 ^ 256 - sc_n)" by (simp add: sc_n_def)
  then show ?thesis by (simp only: mod_absorb)
qed

lemma reduce_512_correct:
  assumes "length l = 8"
  shows "sc_val (secp256k1_scalar_reduce_512 l) = limbs_val 64 l mod sc_n"
proof -
  obtain l0 l1 l2 l3 n0 n1 n2 n3 where l: "l = [l0, l1, l2, l3, n0, n1, n2, n3]" using assms by (rule list8_cases)
  obtain m0 m1 m2 m3 m4 m5 m6 where m: "reduce_512_385 l = (m0, m1, m2, m3, m4, m5, m6)" by (cases "reduce_512_385 l")
  note A = reduce_512_385_correct[OF m[unfolded l]]
  obtain p0 p1 p2 p3 p4 where p: "reduce_385_258 (m0, m1, m2, m3, m4, m5, m6) = (p0, p1, p2, p3, p4)"
    by (cases "reduce_385_258 (m0, m1, m2, m3, m4, m5, m6)")
  note B = reduce_385_258_correct[OF p A(2)]
  define v where "v = limbs_val 64 [p0, p1, p2, p3] + unat p4 * (2 ^ 256 - sc_n)"
  let ?e0 = "w128 p0 + w128 SECP256K1_N_C_0 * ucast p4" and ?e1 = "w128 p1 + w128 SECP256K1_N_C_1 * ucast p4"
  have p4: "unat (ucast p4 :: u128) = unat p4" by (rule unat_ucast_widen) simp
  have mu: "unat (w128 c * ucast p4) = unat c * unat p4" "unat c * unat p4 < 2 ^ 68" for c :: u64
  proof -
    have "unat c * unat p4 \<le> (2 ^ 64 - 1) * 8" using unat64[of c] B(2) by (intro mult_le_mono) simp_all
    then show "unat c * unat p4 < 2 ^ 68" by simp
    then show "unat (w128 c * ucast p4) = unat c * unat p4" by (subst unat_mult_exact) (simp_all add: p4)
  qed
  have e: "unat (w128 x + w128 c * ucast p4) = unat x + unat c * unat p4" "unat (w128 x + w128 c * ucast p4) < 2 ^ 127" for x c :: u64
  proof -
    show "unat (w128 x + w128 c * ucast p4) = unat x + unat c * unat p4"
      using mu(2)[of c] unat64[of x] by (intro word_add128 mu unat_w128) simp
    then show "unat (w128 x + w128 c * ucast p4) < 2 ^ 127" using mu(2)[of c] unat64[of x] by simp
  qed
  have e2: "unat (w128 p2 + ucast p4) = unat p2 + unat p4" using unat64[of p2] B(2) by (intro word_add128 p4 unat_w128) simp
  have b: "unat (w128 p2 + ucast p4) < 2 ^ 127" "unat (w128 p3) < 2 ^ 127"
    unfolding e2 using unat64[of p2] unat64[of p3] B(2) by simp_all
  define c where "c = carry4 ?e0 ?e1 (w128 p2 + ucast p4) (w128 p3)"
  have v: "v = sc_val (fst c) + unat (snd c) * 2 ^ 256"
    unfolding c_def carry4_val[OF e(2) e(2) b] e(1) e2 by (simp add: v_def nc_vals sc_n_def algebra_simps)
  have "limbs_val 64 [p0, p1, p2, p3] < 2 ^ 256" using unat64[of p0] unat64[of p1] unat64[of p2] unat64[of p3] by simp
  then have lt: "v < 2 * sc_n" using B(2) by (simp add: v_def sc_n_def)
  have r: "secp256k1_scalar_reduce_512 l = secp256k1_scalar_reduce (fst c) (ucast (snd c + of_bool (secp256k1_scalar_check_overflow (fst c))))"
    by (simp add: secp256k1_scalar_reduce_512_def m p Let_def c_def carry4_def)
  let ?M = "limbs_val 64 [m0, m1, m2, m3]" and ?K = "unat m4 + unat m5 * 2 ^ 64 + unat m6 * 2 ^ 128"
  have "limbs_val 64 l = limbs_val 64 [l0, l1, l2, l3] + limbs_val 64 [n0, n1, n2, n3] * 2 ^ 256" by (simp add: l)
  then have "limbs_val 64 l mod sc_n = (limbs_val 64 [l0, l1, l2, l3] + limbs_val 64 [n0, n1, n2, n3] * (2 ^ 256 - sc_n)) mod sc_n"
    by (simp only: mod_swap)
  also have "\<dots> = (?M + ?K * 2 ^ 256) mod sc_n" unfolding A(1)[symmetric] by (simp add: algebra_simps)
  also have "\<dots> = (limbs_val 64 [p0, p1, p2, p3] + unat p4 * 2 ^ 256) mod sc_n" unfolding mod_swap B(1) by (rule refl)
  also have "\<dots> = v mod sc_n" unfolding mod_swap v_def by (rule refl)
  finally show ?thesis unfolding r using reduce_once(1)[OF lt v refl] by simp
qed

lemma scalar_mul_correct: "sc_val (secp256k1_scalar_mul a b) = sc_val a * sc_val b mod sc_n"
  unfolding secp256k1_scalar_mul_def by (simp add: reduce_512_correct mul_512_correct)

lemma scalar_sqr_correct: "sc_val (secp256k1_scalar_sqr a) = sc_val a * sc_val a mod sc_n"
  unfolding secp256k1_scalar_sqr_def by (simp add: reduce_512_correct sqr_512_correct)
end
