(* ===== verification/Scalar4x64_Ops.thy ===== *)
theory Scalar4x64_Ops
  imports Scalar4x64_Red
begin

unbundle bit_operations_syntax

text \<open>
  The remaining scalar operations: negation, conditional negation and bit addition, the byte form,
  bit extraction and shifts.
\<close>

text \<open>A limb of the product shifted right, the expression \<open>secp256k1_scalar_mul_shift_var\<close> has four times.\<close>

definition shifted_limb :: "u64 list \<Rightarrow> nat \<Rightarrow> nat \<Rightarrow> u64" where
  "shifted_limb l shift i =
     (if shift < 512 - 64 * i then drop_bit (shift mod 64) (l ! (i + shift div 64)) OR
        (if shift < 448 - 64 * i \<and> shift mod 64 \<noteq> 0 then push_bit (64 - shift mod 64) (l ! (i + 1 + shift div 64)) else 0) else 0)"

section \<open>Negation\<close>

lemma unat_not64: "unat (NOT x :: u64) = 2 ^ 64 - 1 - unat x"
proof -
  have "NOT x = 0xFFFFFFFFFFFFFFFF - x" by (simp add: not_eq_complement)
  moreover have "unat x \<le> unat (0xFFFFFFFFFFFFFFFF :: u64)" using unat64[of x] by simp
  ultimately show ?thesis by (simp add: unat_sub_exact)
qed

lemma and_w128_ones: "ucast (t AND w128 0xFFFFFFFFFFFFFFFF) = lo64 t"
  by simp

lemma is_zero_iff: "secp256k1_scalar_is_zero a \<longleftrightarrow> sc_val a = 0"
  unfolding secp256k1_scalar_is_zero_def or_eq_0_iff64 by (auto simp: sc_val_def unat_eq_0)

lemma negate_chain:
  "sc_val (fst (carry4 (w128 (NOT (sc_d0 a)) + w128 SECP256K1_N_0 + 1) (w128 (NOT (sc_d1 a)) + w128 SECP256K1_N_1)
     (w128 (NOT (sc_d2 a)) + w128 SECP256K1_N_2) (w128 (NOT (sc_d3 a)) + w128 SECP256K1_N_3))) =
   (2 ^ 256 + sc_n - sc_val a) mod 2 ^ 256"
proof -
  have u: "unat (w128 x + w128 y) = unat x + unat y" "unat (w128 x + w128 y) < 2 ^ 127" for x y :: u64
    using unat64[of x] unat64[of y] by (simp_all add: unat_add_exact)
  have u1: "unat (w128 x + w128 y + 1) = unat x + unat y + 1" "unat (w128 x + w128 y + 1) < 2 ^ 127" for x y :: u64
    using unat64[of x] unat64[of y] u[of x y] by (simp_all add: unat_add_exact)
  have "unat (NOT (sc_d0 a)) + unat SECP256K1_N_0 + 1 + (unat (NOT (sc_d1 a)) + unat SECP256K1_N_1) * 2 ^ 64 +
      (unat (NOT (sc_d2 a)) + unat SECP256K1_N_2) * 2 ^ 128 + (unat (NOT (sc_d3 a)) + unat SECP256K1_N_3) * 2 ^ 192 = 2 ^ 256 + sc_n - sc_val a"
    using unat64[of "sc_d0 a"] unat64[of "sc_d1 a"] unat64[of "sc_d2 a"] unat64[of "sc_d3 a"]
    unfolding unat_not64 by (simp add: sc_N sc_n_def sc_val_def)
  then show ?thesis by (intro carry4_mod_div(1) u1 u) (simp only: u1(1) u(1))
qed

lemma scalar_negate_correct:
  assumes "sc_val a < sc_n"
  shows "sc_val (secp256k1_scalar_negate a) = (sc_n - sc_val a) mod sc_n"
proof (cases "sc_val a = 0")
  case True
  then have "secp256k1_scalar_negate a = mk_sc 0 0 0 0"
    by (simp add: secp256k1_scalar_negate_def is_zero_iff Let_def)
  then show ?thesis using True by (simp add: sc_val_def)
next
  case False
  then have "secp256k1_scalar_negate a = fst (carry4 (w128 (NOT (sc_d0 a)) + w128 SECP256K1_N_0 + 1) (w128 (NOT (sc_d1 a)) + w128 SECP256K1_N_1)
     (w128 (NOT (sc_d2 a)) + w128 SECP256K1_N_2) (w128 (NOT (sc_d3 a)) + w128 SECP256K1_N_3))"
    unfolding secp256k1_scalar_negate_def is_zero_iff Let_def carry4_def by simp
  then have "sc_val (secp256k1_scalar_negate a) = (2 ^ 256 + sc_n - sc_val a) mod 2 ^ 256" using negate_chain[of a] by simp
  also have "2 ^ 256 + sc_n - sc_val a = (sc_n - sc_val a) + 1 * 2 ^ 256" using assms by simp
  also have "\<dots> mod 2 ^ 256 = sc_n - sc_val a" by (rule digit_mod_div) (simp add: sc_n_def)
  finally show ?thesis using False assms by simp
qed

lemma scalar_cond_negate_eq:
  "secp256k1_scalar_cond_negate r flag = (if flag then secp256k1_scalar_negate r else r, if flag then -1 else 1)"
proof -
  have n1: "(SECP256K1_N_0 + 1 :: u64) = 0xBFD25E8CD0364142" by (simp add: sc_N)
  have n: "w128 (SECP256K1_N_0 + 1) = w128 SECP256K1_N_0 + 1" unfolding n1 by (simp add: sc_N)
  show ?thesis
  proof (cases flag)
    case True
    have x: "x XOR (- 1) = NOT x" for x :: u64
      by (rule bit_word_eqI) (simp add: bit_xor_iff bit_not_iff)
    have z: "0xFFFFFFFFFFFFFFFF * of_bool (\<not> secp256k1_scalar_is_zero r) = (of_bool (secp256k1_scalar_is_zero r) - 1 :: u64)"
      by simp
    show ?thesis unfolding secp256k1_scalar_cond_negate_def secp256k1_scalar_negate_def Let_def z
      using True by (simp add: x n add.assoc)
  next
    case False
    have k: "drop_bit 64 (w128 x) = 0" for x :: u64
      using unat64[of x] by (simp add: word_unat_eq_iff unat_drop_bit)
    have l: "ucast (w128 x AND w128 (- 1)) = x" for x :: u64
      by (rule bit_word_eqI) (auto simp: bit_ucast_iff bit_and_iff)
    show ?thesis
    proof (cases "secp256k1_scalar_is_zero r")
      case True
      then have "sc_val r = 0" by (simp add: is_zero_iff)
      then have "r = mk_sc 0 0 0 0" by (intro sc_val_inj) (simp add: sc_val_def)
      then show ?thesis using False by (simp add: secp256k1_scalar_cond_negate_def Let_def secp256k1_scalar_is_zero_def)
    next
      case nz: False
      then show ?thesis using False
        by (simp add: secp256k1_scalar_cond_negate_def Let_def k l)
    qed
  qed
qed

section \<open>Bit addition\<close>

lemma cadd_bit_correct:
  assumes "b < 256" "sc_val r + 2 ^ b < 2 ^ 256"
  shows "sc_val (secp256k1_scalar_cadd_bit r b flag) = sc_val r + (if flag then 2 ^ b else 0)"
proof -
  define bn where "bn = b + (if flag then 0 else 256)"
  define sel where "sel k = (push_bit (bn mod 64) (of_bool (bn div 64 = k)) :: u64)" for k
  have us: "unat (sel k) = of_bool (bn div 64 = k) * 2 ^ (bn mod 64)" for k
  proof (cases "bn div 64 = k")
    case True
    have "(2::nat) ^ (bn mod 64) < 2 ^ 64" by (rule power_strict_increasing) simp_all
    then show ?thesis unfolding sel_def using True by (subst unat_push_bit_exact) simp_all
  qed (simp add: sel_def)
  have u: "unat (w128 x + w128 y) = unat x + unat y" "unat (w128 x + w128 y) < 2 ^ 127" for x y :: u64
    using unat64[of x] unat64[of y] by (simp_all add: unat_add_exact)
  have r: "secp256k1_scalar_cadd_bit r b flag = fst (carry4 (w128 (sc_d0 r) + w128 (sel 0)) (w128 (sc_d1 r) + w128 (sel 1))
      (w128 (sc_d2 r) + w128 (sel 2)) (w128 (sc_d3 r) + w128 (sel 3)))"
    by (simp add: secp256k1_scalar_cadd_bit_def Let_def carry4_def sel_def bn_def)
  have sum: "unat (sel 0) + unat (sel 1) * 2 ^ 64 + unat (sel 2) * 2 ^ 128 + unat (sel 3) * 2 ^ 192 = (if flag then 2 ^ b else 0)"
  proof (cases flag)
    case True
    then have bn: "bn = 64 * (b div 64) + b mod 64" "bn div 64 = b div 64" "bn mod 64 = b mod 64" by (simp_all add: bn_def)
    have "b div 64 < 4" using assms(1) by (simp add: less_mult_imp_div_less)
    then consider "b div 64 = 0" | "b div 64 = 1" | "b div 64 = 2" | "b div 64 = 3" by linarith
    moreover have "(2::nat) ^ b = 2 ^ (64 * (b div 64)) * 2 ^ (b mod 64)" by (simp flip: power_add)
    ultimately show ?thesis using True by cases (simp_all add: us bn(2,3))
  next
    case False
    then have "bn div 64 \<ge> 4" using assms(1) by (simp add: bn_def)
    then show ?thesis using False by (simp add: us)
  qed
  have "sc_val (secp256k1_scalar_cadd_bit r b flag) = (sc_val r + (if flag then 2 ^ b else 0)) mod 2 ^ 256"
    unfolding r by (intro carry4_mod_div(1) u) (simp add: u(1) sum[symmetric] sc_val_def algebra_simps)
  then show ?thesis using assms(2) by (auto split: if_splits)
qed

section \<open>Bytes\<close>

lemma sc_val_limbs: "sc_val a = limbs_val 64 (sc_limbs a)"
  by (simp add: sc_val_def sc_limbs_def)

lemma bit_sc_val: "bit (sc_val a) k \<longleftrightarrow> k < 256 \<and> bit (sc_limbs a ! (k div 64)) (k mod 64)"
proof -
  have "\<forall>x\<in>set (sc_limbs a). unat x < 2 ^ 64" using unat64 by blast
  then show ?thesis unfolding sc_val_limbs by (subst bit_limbs_val) (simp_all add: sc_limbs_def)
qed

lemma lt8_cases:
  assumes "(j::nat) < 8"
  obtains "j = 0" | "j = 1" | "j = 2" | "j = 3" | "j = 4" | "j = 5" | "j = 6" | "j = 7"
  using assms by linarith

lemma sc_write_limb_nth: "j < 8 \<Longrightarrow> sc_write_limb d ! j = ucast (drop_bit (56 - 8 * j) d)"
  by (erule lt8_cases) (simp_all add: sc_write_limb_def)

lemma length_sc_write_limb [simp, shape]: "length (sc_write_limb d) = 8"
  by (simp add: sc_write_limb_def)

lemma be_val_write_limb: "be_val (sc_write_limb d) = unat d"
proof (rule bit_eqI)
  fix k
  show "bit (be_val (sc_write_limb d)) k \<longleftrightarrow> bit (unat d) k"
  proof (cases "k < 64")
    case True
    then have k: "k div 8 < 8" by (simp add: less_mult_imp_div_less)
    then have "56 - 8 * (7 - k div 8) = 8 * (k div 8)" by simp
    moreover have "8 * (k div 8) + k mod 8 = k" by simp
    ultimately show ?thesis
      using True k by (simp add: bit_be_val sc_write_limb_nth bit_ucast_iff bit_drop_bit_eq bit_unsigned_iff)
  next
    case False
    then show ?thesis using bit_imp_le_length[of d k] by (auto simp: bit_be_val bit_unsigned_iff)
  qed
qed

lemma be_val_append: "be_val (xs @ ys) = be_val xs * 256 ^ length ys + be_val ys"
proof (induction ys rule: rev_induct)
  case Nil
  then show ?case by simp
next
  case (snoc y ys)
  show ?case unfolding append_assoc[symmetric] be_val_snoc snoc.IH by (simp add: algebra_simps)
qed

lemma scalar_get_b32_correct: "secp256k1_scalar_get_b32 a = be_bytes 32 (sc_val a)"
proof -
  have "be_val (secp256k1_scalar_get_b32 a) = sc_val a"
    by (simp add: secp256k1_scalar_get_b32_def be_val_append be_val_write_limb sc_val_def)
  moreover have "length (secp256k1_scalar_get_b32 a) = 32" by (simp add: secp256k1_scalar_get_b32_def)
  ultimately show ?thesis using be_bytes_be_val[of "secp256k1_scalar_get_b32 a"] by simp
qed

lemma bit_byte_at:
  fixes x :: u8
  shows "bit (push_bit s (ucast x) :: u64) n \<longleftrightarrow> s \<le> n \<and> n < s + 8 \<and> n < 64 \<and> bit x (n - s)"
  using bit_imp_le_length[of x "n - s"] by (auto simp: bit_push_bit_iff bit_ucast_iff)

lemma bit_byte_at0:
  fixes x :: u8
  shows "bit (ucast x :: u64) n \<longleftrightarrow> n < 8 \<and> bit x n"
  using bit_imp_le_length[of x n] by (auto simp: bit_ucast_iff)

lemma bit_read_limb:
  assumes "n < 64"
  shows "bit (sc_read_limb b k) n \<longleftrightarrow> bit (b ! (31 - 8 * k - n div 8)) (n mod 8)"
proof -
  define j r where "j = n div 8" and "r = n mod 8"
  have n: "n = 8 * j + r" "r < 8" "n div 8 = j" "n mod 8 = r" by (simp_all add: j_def r_def)
  have "j < 8" using assms by (simp add: j_def less_mult_imp_div_less)
  moreover have "31 - 8 * k - i = 31 - i - 8 * k" for i by simp
  ultimately show ?thesis
    unfolding sc_read_limb_def bit_or_iff bit_byte_at bit_byte_at0 n(3,4) using n(1,2)
    by (cases rule: lt8_cases) simp_all
qed

lemma div_mod_64_8: "8 * (k div 64) + k mod 64 div 8 = k div 8" "k mod 64 mod 8 = k mod (8::nat)"
proof -
  have "k mod (8 * 8) div 8 = k div 8 mod 8" unfolding mod_mult2_eq by simp
  moreover have "k div (8 * 8) = k div 8 div 8" by (rule div_mult2_eq)
  ultimately show "8 * (k div 64) + k mod 64 div 8 = k div 8" by simp
  show "k mod 64 mod 8 = k mod 8" by (simp add: mod_mod_cancel)
qed

lemma sc_limbs_nth:
  assumes "i < 4"
  shows "sc_limbs (mk_sc (f 0) (f 1) (f 2) (f 3)) ! i = f i"
proof -
  consider "i = 0" | "i = 1" | "i = 2" | "i = 3" using assms by linarith
  then show ?thesis by cases (simp_all add: sc_limbs_def)
qed

lemma scalar_read_val:
  assumes "length b = 32"
  shows "sc_val (mk_sc (sc_read_limb b 0) (sc_read_limb b 1) (sc_read_limb b 2) (sc_read_limb b 3)) = be_val b" (is "sc_val ?r = _")
proof (rule bit_eqI)
  fix k
  show "bit (sc_val ?r) k \<longleftrightarrow> bit (be_val b) k"
  proof (cases "k < 256")
    case True
    then have "k div 64 < 4" by (simp add: less_mult_imp_div_less)
    then have l: "sc_limbs ?r ! (k div 64) = sc_read_limb b (k div 64)"
      by (rule sc_limbs_nth)
    show ?thesis unfolding bit_sc_val l using True assms div_mod_64_8[of k]
      by (simp add: bit_be_val bit_read_limb diff_diff_left)
  next
    case False
    then show ?thesis using assms by (simp add: bit_sc_val bit_be_val)
  qed
qed

lemma scalar_set_b32_correct:
  assumes "length b = 32"
  shows "sc_val (fst (secp256k1_scalar_set_b32 b)) = be_val b mod sc_n" "snd (secp256k1_scalar_set_b32 b) \<longleftrightarrow> sc_n \<le> be_val b"
proof -
  define r where "r = mk_sc (sc_read_limb b 0) (sc_read_limb b 1) (sc_read_limb b 2) (sc_read_limb b 3)"
  have v: "be_val b = sc_val r + unat (0 :: u128) * 2 ^ 256" using scalar_read_val[OF assms] by (simp add: r_def)
  have s: "secp256k1_scalar_set_b32 b = (secp256k1_scalar_reduce r (ucast (0 + of_bool (secp256k1_scalar_check_overflow r) :: u128)), secp256k1_scalar_check_overflow r)"
    by (simp add: secp256k1_scalar_set_b32_def Let_def r_def)
  have "be_val b < 2 * sc_n" using be_val_bound[of b] assms by (simp add: sc_n_def)
  from reduce_once(1)[OF this v refl] show "sc_val (fst (secp256k1_scalar_set_b32 b)) = be_val b mod sc_n" by (simp only: s fst_conv)
  show "snd (secp256k1_scalar_set_b32 b) \<longleftrightarrow> sc_n \<le> be_val b" unfolding s using v by (simp add: check_overflow_iff)
qed

section \<open>Bit extraction and shifts\<close>

lemma push_1_minus_1: "push_bit n 1 - 1 = (mask n :: 'a::len word)"
  by (simp add: mask_eq_exp_minus_1 push_bit_eq_mult)

lemma bit_div_mod: "bit ((v::nat) div 2 ^ off mod 2 ^ cnt) i \<longleftrightarrow> i < cnt \<and> bit v (off + i)"
  by (simp add: bit_take_bit_iff bit_drop_bit_eq flip: take_bit_eq_mod drop_bit_eq_div)

lemma window_bits:
  assumes "0 < cnt" "cnt < 32" "offset + cnt \<le> 256"
    and w: "\<And>i. i < cnt \<Longrightarrow> bit w i \<longleftrightarrow> bit (sc_limbs a ! ((offset + i) div 64)) ((offset + i) mod 64)"
  shows "unat (ucast ((w :: u64) AND (push_bit cnt 1 - 1)) :: u32) = sc_val a div 2 ^ offset mod 2 ^ cnt"
proof (rule bit_eqI)
  fix i
  show "bit (unat (ucast (w AND (push_bit cnt 1 - 1)) :: u32)) i \<longleftrightarrow> bit (sc_val a div 2 ^ offset mod 2 ^ cnt) i"
    unfolding push_1_minus_1 using assms(2,3) w[of i]
    by (auto simp: bit_unsigned_iff bit_ucast_iff bit_and_iff bit_mask_iff bit_div_mod bit_sc_val)
qed

lemma scalar_get_bits_correct:
  assumes "0 < cnt" "cnt < 32" "offset + cnt \<le> 256" "(offset + cnt - 1) div 64 = offset div 64"
  shows "unat (secp256k1_scalar_get_bits a offset cnt) = sc_val a div 2 ^ offset mod 2 ^ cnt"
  unfolding secp256k1_scalar_get_bits_def
proof (rule window_bits[OF assms(1-3)])
  fix i assume i: "i < cnt"
  have "offset div 64 \<le> (offset + i) div 64" "(offset + i) div 64 \<le> (offset + cnt - 1) div 64"
    using i by (intro div_le_mono; simp)+
  then have d: "(offset + i) div 64 = offset div 64" using assms(4) by simp
  have "(offset + i) mod 64 = offset mod 64 + i"
    using div_mult_mod_eq[of offset 64] div_mult_mod_eq[of "offset + i" 64] unfolding d by linarith
  then show "bit (drop_bit (offset mod 64) (sc_limbs a ! (offset div 64))) i \<longleftrightarrow> bit (sc_limbs a ! ((offset + i) div 64)) ((offset + i) mod 64)"
    by (simp add: d bit_drop_bit_eq)
qed

lemma scalar_get_bits_var_correct:
  assumes "0 < cnt" "cnt < 32" "offset + cnt \<le> 256"
  shows "unat (secp256k1_scalar_get_bits_var a offset cnt) = sc_val a div 2 ^ offset mod 2 ^ cnt"
proof (cases "(offset + cnt - 1) div 64 = offset div 64")
  case True
  then show ?thesis using scalar_get_bits_correct[OF assms True] by (simp add: secp256k1_scalar_get_bits_var_def)
next
  case False
  define q r where "q = offset div 64" and "r = offset mod 64"
  have o: "offset = r + q * 64" "r < 64" by (simp_all add: q_def r_def)
  have "unat (ucast ((drop_bit r (sc_limbs a ! q) OR push_bit (64 - r) (sc_limbs a ! (q + 1))) AND (push_bit cnt 1 - 1)) :: u32)
      = sc_val a div 2 ^ offset mod 2 ^ cnt"
  proof (rule window_bits[OF assms])
    fix i assume i: "i < cnt"
    show "bit (drop_bit r (sc_limbs a ! q) OR push_bit (64 - r) (sc_limbs a ! (q + 1))) i \<longleftrightarrow>
        bit (sc_limbs a ! ((offset + i) div 64)) ((offset + i) mod 64)"
    proof (cases "r + i < 64")
      case True
      have "offset + i = (r + i) + q * 64" using o(1) by simp
      note e = digit_eqs[OF this True]
      show ?thesis unfolding e using True i by (auto simp: bit_or_iff bit_drop_bit_eq bit_push_bit_iff)
    next
      case False
      define j where "j = r + i - 64"
      have j: "r + i = 64 + j" "j < 64" using False i assms(2) o(2) by (simp_all add: j_def)
      have "offset + i = j + (q + 1) * 64" using o(1) j(1) by simp
      note e = digit_eqs[OF this j(2)]
      have "\<not> bit (sc_limbs a ! q) (r + i)" using bit_imp_le_length[of "sc_limbs a ! q" "r + i"] False by auto
      moreover have "i - (64 - r) = j" "64 - r \<le> i" "i < 64" using j(1) o(2) i assms(2) by simp_all
      ultimately show ?thesis unfolding e by (simp add: bit_or_iff bit_drop_bit_eq bit_push_bit_iff)
    qed
  qed
  then show ?thesis using False by (simp add: secp256k1_scalar_get_bits_var_def q_def r_def)
qed

lemma sc_eqI_bits:
  assumes "\<And>k. k < 256 \<Longrightarrow> bit (sc_limbs a ! (k div 64)) (k mod 64) \<longleftrightarrow> bit v k" "v < 2 ^ 256"
  shows "sc_val a = (v::nat)"
proof (rule bit_eqI)
  fix k
  have "\<not> bit v k" if "\<not> k < 256"
  proof -
    have "(2::nat) ^ 256 \<le> 2 ^ k" using that by (intro power_increasing) simp_all
    then have "v < 2 ^ k" using assms(2) by linarith
    then show ?thesis by (simp add: bit_iff_odd)
  qed
  then show "bit (sc_val a) k \<longleftrightarrow> bit v k" using assms(1)[of k] by (auto simp: bit_sc_val)
qed

lemma add_shifted:
  fixes x y :: u64
  assumes "0 < n" "n < 64"
  shows "drop_bit n x + push_bit (64 - n) y = drop_bit n x OR push_bit (64 - n) y"
  by (rule disjunctive_add) (use assms bit_imp_le_length in \<open>auto simp: bit_drop_bit_eq bit_push_bit_iff dest!: bit_imp_le_length\<close>)

lemma bit_two_limbs:
  fixes x y :: u64
  assumes "0 < n" "n < 64" "j < 64"
  shows "bit (drop_bit n x OR push_bit (64 - n) y) j \<longleftrightarrow> (if j + n < 64 then bit x (j + n) else bit y (j + n - 64))"
  using assms bit_imp_le_length[of x "n + j"]
  by (auto simp: bit_or_iff bit_drop_bit_eq bit_push_bit_iff add.commute)

lemma scalar_shr_int_correct:
  assumes "0 < n" "n < 16"
  shows "sc_val (fst (secp256k1_scalar_shr_int r n)) = sc_val r div 2 ^ n" "unat (snd (secp256k1_scalar_shr_int r n)) = sc_val r mod 2 ^ n"
proof -
  define L where "L i = (if i < 4 then sc_limbs r ! i else 0)" for i
  define d where "d i = drop_bit n (L i) OR push_bit (64 - n) (L (i + 1))" for i
  have L: "L 0 = sc_d0 r" "L 1 = sc_d1 r" "L 2 = sc_d2 r" "L 3 = sc_d3 r" "L 4 = 0" by (simp_all add: L_def sc_limbs_def)
  have n64: "n < 64" using assms(2) by simp
  have s: "fst (secp256k1_scalar_shr_int r n) = mk_sc (d 0) (d 1) (d 2) (d 3)"
    unfolding secp256k1_scalar_shr_int_def fst_conv add_shifted[OF assms(1) n64] d_def
    by (simp add: L(1-4) L(2)[unfolded One_nat_def] L(5) numeral_3_eq_3[symmetric] numeral_2_eq_2[symmetric])
  have "sc_val (mk_sc (d 0) (d 1) (d 2) (d 3)) = sc_val r div 2 ^ n"
  proof (rule sc_eqI_bits)
    fix k :: nat assume k: "k < 256"
    define q j where "q = k div 64" and "j = k mod 64"
    have kq: "k = j + q * 64" "j < 64" "q < 4" using k by (simp_all add: q_def j_def less_mult_imp_div_less)
    have "bit (d q) j \<longleftrightarrow> bit (sc_val r) (k + n)"
    proof (cases "j + n < 64")
      case True
      have "k + n = (j + n) + q * 64" using kq(1) by simp
      note e = digit_eqs[OF this True]
      have "k + n < 256" using kq True by simp
      then show ?thesis unfolding d_def bit_two_limbs[OF assms(1) n64 kq(2)] bit_sc_val e
        using True kq(3) by (simp add: L_def)
    next
      case False
      have j': "j + n - 64 < 64" using kq(2) n64 by simp
      have "k + n = (j + n - 64) + (q + 1) * 64" using kq(1) False by simp
      note e = digit_eqs[OF this j']
      have "k + n < 256 \<longleftrightarrow> q + 1 < 4" using kq False n64 by auto
      then show ?thesis unfolding d_def bit_two_limbs[OF assms(1) n64 kq(2)] bit_sc_val e
        using False by (simp add: L_def)
    qed
    then show "bit (sc_limbs (mk_sc (d 0) (d 1) (d 2) (d 3)) ! (k div 64)) (k mod 64) \<longleftrightarrow> bit (sc_val r div 2 ^ n) k"
      unfolding q_def[symmetric] j_def[symmetric] sc_limbs_nth[OF kq(3)]
      by (simp add: bit_drop_bit_eq add.commute flip: drop_bit_eq_div)
  next
    show "sc_val r div 2 ^ n < 2 ^ 256" using sc_val_bound[of r] by (meson div_le_dividend le_less_trans)
  qed
  then show "sc_val (fst (secp256k1_scalar_shr_int r n)) = sc_val r div 2 ^ n" unfolding s .
  have "unat (snd (secp256k1_scalar_shr_int r n)) = unat (sc_d0 r) mod 2 ^ n"
    by (simp only: secp256k1_scalar_shr_int_def snd_conv push_1_minus_1 unat_and_mask)
  also have "\<dots> = sc_val r mod 2 ^ n"
  proof -
    have "(2::nat) ^ n dvd 2 ^ 64" using n64 by (intro le_imp_power_dvd) simp
    moreover have "sc_val r mod 2 ^ 64 = unat (sc_d0 r)" unfolding sc_val_horner by (rule digit_mod_div[OF unat64])
    ultimately show ?thesis by (metis mod_mod_cancel)
  qed
  finally show "unat (snd (secp256k1_scalar_shr_int r n)) = sc_val r mod 2 ^ n" .
qed

lemma scalar_eq_iff: "secp256k1_scalar_eq a b \<longleftrightarrow> a = b"
proof -
  have "x XOR y = 0 \<longleftrightarrow> x = y" for x y :: u64 by (metis xor.assoc xor.left_neutral xor_self_eq)
  then show ?thesis unfolding secp256k1_scalar_eq_def or_eq_0_iff64 by (cases a; cases b) simp
qed

lemma scalar_is_one_iff: "secp256k1_scalar_is_one a \<longleftrightarrow> sc_val a = 1"
proof -
  have "x XOR 1 = 0 \<longleftrightarrow> x = 1" for x :: u64 by (metis xor.assoc xor.left_neutral xor_self_eq)
  then have "secp256k1_scalar_is_one a \<longleftrightarrow> a = mk_sc 1 0 0 0"
    unfolding secp256k1_scalar_is_one_def or_eq_0_iff64 by (cases a) simp
  then show ?thesis using sc_val_inj[of a "mk_sc 1 0 0 0"] by (auto simp: sc_val_def)
qed

lemma bit_words8:
  assumes "length (l :: u64 list) = 8"
  shows "bit (limbs_val 64 l) k \<longleftrightarrow> k < 512 \<and> bit (l ! (k div 64)) (k mod 64)"
  using assms unat64 by (subst bit_limbs_val) auto

lemma bit_shifted_limb:
  assumes "length l = 8" "i < 4" "j < 64"
  shows "bit (shifted_limb l shift i) j \<longleftrightarrow> bit (limbs_val 64 l) (shift + (j + i * 64))"
proof -
  define q r where "q = shift div 64" and "r = shift mod 64"
  have o: "shift = r + q * 64" "r < 64" by (simp_all add: q_def r_def)
  have c: "shift < 512 - 64 * i \<longleftrightarrow> i + q < 8" "shift < 448 - 64 * i \<longleftrightarrow> i + 1 + q < 8"
    using o assms(2) by auto
  show ?thesis
  proof (cases "r + j < 64")
    case True
    have "shift + (j + i * 64) = (r + j) + (i + q) * 64" using o(1) by (simp add: algebra_simps)
    note e = digit_eqs[OF this True]
    have "shift + (j + i * 64) < 512 \<longleftrightarrow> i + q < 8" using o True by auto
    then show ?thesis unfolding bit_words8[OF assms(1)] e shifted_limb_def c q_def[symmetric] r_def[symmetric]
      using True assms(3) by (auto simp: bit_or_iff bit_drop_bit_eq bit_push_bit_iff)
  next
    case False
    define k where "k = r + j - 64"
    have k: "r + j = 64 + k" "k < 64" using False assms(3) o(2) by (simp_all add: k_def)
    have "shift + (j + i * 64) = k + (i + 1 + q) * 64" using o(1) k(1) by (simp add: algebra_simps)
    note e = digit_eqs[OF this k(2)]
    have "shift + (j + i * 64) < 512 \<longleftrightarrow> i + 1 + q < 8" using o k by auto
    moreover have "\<not> bit x (r + j)" for x :: u64 using bit_imp_le_length[of x "r + j"] False by auto
    moreover have "j - (64 - r) = k" "64 - r \<le> j" "r \<noteq> 0" using k(1) o(2) assms(3) by auto
    ultimately show ?thesis unfolding bit_words8[OF assms(1)] e shifted_limb_def c q_def[symmetric] r_def[symmetric]
      using assms(3) by (auto simp: bit_or_iff bit_drop_bit_eq bit_push_bit_iff)
  qed
qed

lemma scalar_mul_shift_var_correct:
  assumes "256 \<le> shift" "shift \<le> 512" "sc_val a < sc_n" "sc_val b < sc_n"
  shows "sc_val (secp256k1_scalar_mul_shift_var a b shift) = (sc_val a * sc_val b + 2 ^ (shift - 1)) div 2 ^ shift"
proof -
  define l where "l = secp256k1_scalar_mul_512 a b"
  have l: "length l = 8" "limbs_val 64 l = sc_val a * sc_val b" unfolding l_def by (rule mul_512_correct)+
  let ?P = "sc_val a * sc_val b"
  define d where "d = mk_sc (shifted_limb l shift 0) (shifted_limb l shift 1) (shifted_limb l shift 2) (shifted_limb l shift 3)"
  have P: "?P < sc_n * 2 ^ 256" using assms(3,4) mult_strict_mono[of "sc_val a" sc_n "sc_val b" "2 ^ 256"] by (simp add: sc_n_def)
  have "?P div 2 ^ shift \<le> ?P div 2 ^ 256" using assms(1) by (intro div_le_mono2 power_increasing) simp_all
  also have "?P div 2 ^ 256 < sc_n" using P by (rule less_mult_imp_div_less)
  finally have lt: "?P div 2 ^ shift < sc_n" .
  have d: "sc_val d = ?P div 2 ^ shift"
  proof (rule sc_eqI_bits)
    fix k :: nat assume "k < 256"
    then have q: "k div 64 < 4" by (simp add: less_mult_imp_div_less)
    show "bit (sc_limbs d ! (k div 64)) (k mod 64) \<longleftrightarrow> bit (?P div 2 ^ shift) k"
      unfolding d_def sc_limbs_nth[OF q] using bit_shifted_limb[OF l(1) q, of "k mod 64" shift]
      by (simp add: l(2) bit_drop_bit_eq flip: drop_bit_eq_div)
  next
    show "?P div 2 ^ shift < 2 ^ 256" using lt by (simp add: sc_n_def)
  qed
  have s: "shift - 1 < 512" using assms(1,2) by simp
  have flag: "drop_bit ((shift - 1) mod 64) (l ! ((shift - 1) div 64)) AND 1 \<noteq> 0 \<longleftrightarrow> bit ?P (shift - 1)"
    unfolding l(2)[symmetric] bit_words8[OF l(1)] using s by (simp add: and_one_eq bit_iff_odd drop_bit_eq_div odd_iff_mod_2_eq_one)
  have "secp256k1_scalar_mul_shift_var a b shift = secp256k1_scalar_cadd_bit d 0 (bit ?P (shift - 1))"
    unfolding flag[symmetric] secp256k1_scalar_mul_shift_var_def Let_def l_def[symmetric] d_def shifted_limb_def
    using assms(1) by simp
  moreover have "sc_val d + 2 ^ 0 < 2 ^ 256" using lt by (simp add: d sc_n_def)
  ultimately have "sc_val (secp256k1_scalar_mul_shift_var a b shift) = ?P div 2 ^ shift + of_bool (bit ?P (shift - 1))"
    using cadd_bit_correct[of 0 d "bit ?P (shift - 1)"] by (simp add: d)
  also have "\<dots> = (?P + 2 ^ (shift - 1)) div 2 ^ shift"
  proof -
    have p: "(2::nat) ^ shift = 2 ^ (shift - 1) * 2" using assms(1) by (simp flip: power_Suc2)
    have "(?P + 2 ^ (shift - 1)) div 2 ^ (shift - 1) = ?P div 2 ^ (shift - 1) + 1" by (rule div_add_self2) simp
    then have "(?P + 2 ^ (shift - 1)) div 2 ^ shift = (?P div 2 ^ (shift - 1) + 1) div 2"
      unfolding p div_mult2_eq by (simp only:)
    also have "\<dots> = ?P div 2 ^ (shift - 1) div 2 + of_bool (odd (?P div 2 ^ (shift - 1)))" by (cases "even (?P div 2 ^ (shift - 1))") auto
    finally show ?thesis by (simp add: bit_iff_odd p div_mult2_eq)
  qed
  finally show ?thesis .
qed
end
