(* ===== verification/Scalar.thy ===== *)
theory Scalar
  imports Scalar4x64_Ops Interfaces
begin

unbundle bit_operations_syntax

text \<open>
  The representation-independent scalar routines of \<^verbatim>\<open>secp256k1/src/scalar_impl.h\<close> with the built-in
  inverse: the inverse by an addition chain for the exponent \<open>n - 2\<close>, parity, and the properties of
  the scalar component.
\<close>

abbreviation sc_sqr_n :: "nat \<Rightarrow> secp256k1_scalar \<Rightarrow> secp256k1_scalar" where
  "sc_sqr_n n x \<equiv> (secp256k1_scalar_sqr ^^ n) x"

definition secp256k1_scalar_inverse :: "secp256k1_scalar \<Rightarrow> secp256k1_scalar" where
  "secp256k1_scalar_inverse x =
     (let x2 = secp256k1_scalar_sqr x; x2 = secp256k1_scalar_mul x2 x;
          x3 = secp256k1_scalar_sqr x2; x3 = secp256k1_scalar_mul x3 x;
          x4 = secp256k1_scalar_sqr x3; x4 = secp256k1_scalar_mul x4 x;
          x6 = secp256k1_scalar_sqr x4; x6 = secp256k1_scalar_sqr x6; x6 = secp256k1_scalar_mul x6 x2;
          x7 = secp256k1_scalar_sqr x6; x7 = secp256k1_scalar_mul x7 x;
          x8 = secp256k1_scalar_sqr x7; x8 = secp256k1_scalar_mul x8 x;
          x15 = secp256k1_scalar_sqr x8; x15 = sc_sqr_n 6 x15; x15 = secp256k1_scalar_mul x15 x7;
          x30 = secp256k1_scalar_sqr x15; x30 = sc_sqr_n 14 x30; x30 = secp256k1_scalar_mul x30 x15;
          x60 = secp256k1_scalar_sqr x30; x60 = sc_sqr_n 29 x60; x60 = secp256k1_scalar_mul x60 x30;
          x120 = secp256k1_scalar_sqr x60; x120 = sc_sqr_n 59 x120; x120 = secp256k1_scalar_mul x120 x60;
          x127 = secp256k1_scalar_sqr x120; x127 = sc_sqr_n 6 x127; x127 = secp256k1_scalar_mul x127 x7;
          t = x127;
          t = sc_sqr_n 2 t; t = secp256k1_scalar_mul t x;
          t = sc_sqr_n 4 t; t = secp256k1_scalar_mul t x3;
          t = sc_sqr_n 2 t; t = secp256k1_scalar_mul t x;
          t = sc_sqr_n 2 t; t = secp256k1_scalar_mul t x;
          t = sc_sqr_n 2 t; t = secp256k1_scalar_mul t x;
          t = sc_sqr_n 4 t; t = secp256k1_scalar_mul t x3;
          t = sc_sqr_n 3 t; t = secp256k1_scalar_mul t x2;
          t = sc_sqr_n 4 t; t = secp256k1_scalar_mul t x3;
          t = sc_sqr_n 5 t; t = secp256k1_scalar_mul t x3;
          t = sc_sqr_n 4 t; t = secp256k1_scalar_mul t x2;
          t = sc_sqr_n 2 t; t = secp256k1_scalar_mul t x;
          t = sc_sqr_n 2 t; t = secp256k1_scalar_mul t x;
          t = sc_sqr_n 5 t; t = secp256k1_scalar_mul t x4;
          t = sc_sqr_n 2 t; t = secp256k1_scalar_mul t x;
          t = sc_sqr_n 3 t; t = secp256k1_scalar_mul t x;
          t = sc_sqr_n 4 t; t = secp256k1_scalar_mul t x;
          t = sc_sqr_n 2 t; t = secp256k1_scalar_mul t x;
          t = sc_sqr_n 10 t; t = secp256k1_scalar_mul t x3;
          t = sc_sqr_n 4 t; t = secp256k1_scalar_mul t x3;
          t = sc_sqr_n 9 t; t = secp256k1_scalar_mul t x8;
          t = sc_sqr_n 2 t; t = secp256k1_scalar_mul t x;
          t = sc_sqr_n 3 t; t = secp256k1_scalar_mul t x;
          t = sc_sqr_n 3 t; t = secp256k1_scalar_mul t x;
          t = sc_sqr_n 5 t; t = secp256k1_scalar_mul t x4;
          t = sc_sqr_n 2 t; t = secp256k1_scalar_mul t x;
          t = sc_sqr_n 5 t; t = secp256k1_scalar_mul t x2;
          t = sc_sqr_n 4 t; t = secp256k1_scalar_mul t x2;
          t = sc_sqr_n 2 t; t = secp256k1_scalar_mul t x;
          t = sc_sqr_n 8 t; t = secp256k1_scalar_mul t x2;
          t = sc_sqr_n 3 t; t = secp256k1_scalar_mul t x2;
          t = sc_sqr_n 3 t; t = secp256k1_scalar_mul t x;
          t = sc_sqr_n 6 t; t = secp256k1_scalar_mul t x;
          t = sc_sqr_n 8 t
      in secp256k1_scalar_mul t x6)"

definition secp256k1_scalar_is_even :: "secp256k1_scalar \<Rightarrow> bool" where
  "secp256k1_scalar_is_even a \<longleftrightarrow> \<not> (sc_d0 a AND 1 \<noteq> 0)"

definition secp256k1_scalar_inverse_var :: "secp256k1_scalar \<Rightarrow> secp256k1_scalar" where
  "secp256k1_scalar_inverse_var x = secp256k1_scalar_inverse x"

section \<open>The inverse\<close>

interpretation sc: mod_mult "\<lambda>_. True" sc_val sc_n secp256k1_scalar_mul secp256k1_scalar_sqr
  by unfold_locales (simp_all add: scalar_mul_correct scalar_sqr_correct)

abbreviation sc_rep :: "secp256k1_scalar \<Rightarrow> nat \<Rightarrow> bool" where
  "sc_rep \<equiv> mod_rep (\<lambda>_. True) sc_val sc_n"

lemma scalar_inverse_pow:
  assumes "sc_rep x b"
  shows "sc_rep (secp256k1_scalar_inverse x) (b ^ (sc_n - 2))"
proof -
  have p1: "sc_rep x (b ^ (2 ^ 1 - 1))" using assms by simp
  note J = sc.pow_ones
  have S: "secp256k1_scalar_sqr z = sc_sqr_n 1 z" "sc_sqr_n n (secp256k1_scalar_sqr z) = sc_sqr_n (Suc n) z" for n z
    by (simp_all add: funpow_swap1)
  define y2 where "y2 = secp256k1_scalar_mul (secp256k1_scalar_sqr x) x"
  have p2: "sc_rep y2 (b ^ (2 ^ 2 - 1))" unfolding y2_def using J[OF p1 p1] by simp
  define y3 where "y3 = secp256k1_scalar_mul (secp256k1_scalar_sqr y2) x"
  have p3: "sc_rep y3 (b ^ (2 ^ 3 - 1))" unfolding y3_def using J[OF p2 p1] by simp
  define y4 where "y4 = secp256k1_scalar_mul (secp256k1_scalar_sqr y3) x"
  have p4: "sc_rep y4 (b ^ (2 ^ 4 - 1))" unfolding y4_def using J[OF p3 p1] by simp
  define y6 where "y6 = secp256k1_scalar_mul (secp256k1_scalar_sqr (secp256k1_scalar_sqr y4)) y2"
  have p6: "sc_rep y6 (b ^ (2 ^ 6 - 1))" unfolding y6_def using J[OF p4 p2] by (simp add: numeral_2_eq_2)
  define y7 where "y7 = secp256k1_scalar_mul (secp256k1_scalar_sqr y6) x"
  have p7: "sc_rep y7 (b ^ (2 ^ 7 - 1))" unfolding y7_def using J[OF p6 p1] by simp
  define y8 where "y8 = secp256k1_scalar_mul (secp256k1_scalar_sqr y7) x"
  have p8: "sc_rep y8 (b ^ (2 ^ 8 - 1))" unfolding y8_def using J[OF p7 p1] by simp
  define y15 where "y15 = secp256k1_scalar_mul (sc_sqr_n 6 (secp256k1_scalar_sqr y8)) y7"
  have p15: "sc_rep y15 (b ^ (2 ^ 15 - 1))" unfolding y15_def S(2) using J[OF p8 p7] by simp
  define y30 where "y30 = secp256k1_scalar_mul (sc_sqr_n 14 (secp256k1_scalar_sqr y15)) y15"
  have p30: "sc_rep y30 (b ^ (2 ^ 30 - 1))" unfolding y30_def S(2) using J[OF p15 p15] by simp
  define y60 where "y60 = secp256k1_scalar_mul (sc_sqr_n 29 (secp256k1_scalar_sqr y30)) y30"
  have p60: "sc_rep y60 (b ^ (2 ^ 60 - 1))" unfolding y60_def S(2) using J[OF p30 p30] by simp
  define y120 where "y120 = secp256k1_scalar_mul (sc_sqr_n 59 (secp256k1_scalar_sqr y60)) y60"
  have p120: "sc_rep y120 (b ^ (2 ^ 120 - 1))" unfolding y120_def S(2) using J[OF p60 p60] by simp
  define y127 where "y127 = secp256k1_scalar_mul (sc_sqr_n 6 (secp256k1_scalar_sqr y120)) y7"
  have p127: "sc_rep y127 (b ^ (2 ^ 127 - 1))" unfolding y127_def S(2) using J[OF p120 p7] by simp
  have inv: "secp256k1_scalar_inverse x =
      secp256k1_scalar_mul (sc_sqr_n 8 (secp256k1_scalar_mul (sc_sqr_n 6 (secp256k1_scalar_mul (sc_sqr_n 3 (secp256k1_scalar_mul (sc_sqr_n 3 (secp256k1_scalar_mul (sc_sqr_n 8 (secp256k1_scalar_mul (sc_sqr_n 2 (secp256k1_scalar_mul (sc_sqr_n 4 (secp256k1_scalar_mul (sc_sqr_n 5 (secp256k1_scalar_mul (sc_sqr_n 2 (secp256k1_scalar_mul (sc_sqr_n 5 (secp256k1_scalar_mul (sc_sqr_n 3 (secp256k1_scalar_mul (sc_sqr_n 3 (secp256k1_scalar_mul (sc_sqr_n 2 (secp256k1_scalar_mul (sc_sqr_n 9 (secp256k1_scalar_mul (sc_sqr_n 4 (secp256k1_scalar_mul (sc_sqr_n 10 (secp256k1_scalar_mul (sc_sqr_n 2 (secp256k1_scalar_mul (sc_sqr_n 4 (secp256k1_scalar_mul (sc_sqr_n 3 (secp256k1_scalar_mul (sc_sqr_n 2 (secp256k1_scalar_mul (sc_sqr_n 5 (secp256k1_scalar_mul (sc_sqr_n 2 (secp256k1_scalar_mul (sc_sqr_n 2 (secp256k1_scalar_mul (sc_sqr_n 4 (secp256k1_scalar_mul (sc_sqr_n 5 (secp256k1_scalar_mul (sc_sqr_n 4 (secp256k1_scalar_mul (sc_sqr_n 3 (secp256k1_scalar_mul (sc_sqr_n 4 (secp256k1_scalar_mul (sc_sqr_n 2 (secp256k1_scalar_mul (sc_sqr_n 2 (secp256k1_scalar_mul (sc_sqr_n 2 (secp256k1_scalar_mul (sc_sqr_n 4 (secp256k1_scalar_mul (sc_sqr_n 2 (y127)) x)) y3)) x)) x)) x)) y3)) y2)) y3)) y3)) y2)) x)) x)) y4)) x)) x)) x)) x)) y3)) y3)) y8)) x)) x)) x)) y4)) x)) y2)) y2)) x)) y2)) y2)) x)) x)) y6"
    unfolding secp256k1_scalar_inverse_def Let_def y127_def y120_def y60_def y30_def y15_def y8_def y7_def y6_def y4_def y3_def y2_def
    by (rule refl)
  have "sc_rep (secp256k1_scalar_inverse x)
      (b ^ (2 ^ 8 * (2 ^ 6 * (2 ^ 3 * (2 ^ 3 * (2 ^ 8 * (2 ^ 2 * (2 ^ 4 * (2 ^ 5 * (2 ^ 2 * (2 ^ 5 * (2 ^ 3 * (2 ^ 3 * (2 ^ 2 * (2 ^ 9 * (2 ^ 4 * (2 ^ 10 * (2 ^ 2 * (2 ^ 4 * (2 ^ 3 * (2 ^ 2 * (2 ^ 5 * (2 ^ 2 * (2 ^ 2 * (2 ^ 4 * (2 ^ 5 * (2 ^ 4 * (2 ^ 3 * (2 ^ 4 * (2 ^ 2 * (2 ^ 2 * (2 ^ 2 * (2 ^ 4 * (2 ^ 2 * (2 ^ 127 - 1) + 1) + (2 ^ 3 - 1)) + 1) + 1) + 1) + (2 ^ 3 - 1)) + (2 ^ 2 - 1)) + (2 ^ 3 - 1)) + (2 ^ 3 - 1)) + (2 ^ 2 - 1)) + 1) + 1) + (2 ^ 4 - 1)) + 1) + 1) + 1) + 1) + (2 ^ 3 - 1)) + (2 ^ 3 - 1)) + (2 ^ 8 - 1)) + 1) + 1) + 1) + (2 ^ 4 - 1)) + 1) + (2 ^ 2 - 1)) + (2 ^ 2 - 1)) + 1) + (2 ^ 2 - 1)) + (2 ^ 2 - 1)) + 1) + 1) + (2 ^ 6 - 1)))"
    unfolding inv by (intro sc.pow_mul sc.pow_sqr_n p127 p8 p6 p4 p3 p2 sc.pow_one assms)
  then show ?thesis by (simp add: sc_n_def)
qed

lemma scalar_sqr_eq_mul: "secp256k1_scalar_sqr a = secp256k1_scalar_mul a a"
  by (rule sc_val_inj) (simp add: scalar_mul_correct scalar_sqr_correct)

section \<open>Properties\<close>

text \<open>
  C22. Scalar multiplication and squaring: for any operands the 512-bit product is exact, its
  three-stage reduction returns the product modulo the group order, and squaring returns the same
  limbs as multiplication.
\<close>

theorem scalar_mul_mod_n:
  "length (secp256k1_scalar_mul_512 a b) = 8 \<and> limbs_val 64 (secp256k1_scalar_mul_512 a b) = sc_val a * sc_val b \<and>
   sc_val (secp256k1_scalar_mul a b) = sc_val a * sc_val b mod sc_n \<and>
   secp256k1_scalar_sqr a = secp256k1_scalar_mul a a"
  using mul_512_correct[of a b] scalar_mul_correct[of a b] scalar_sqr_eq_mul[of a] by simp

text \<open>
  Scalar addition and negation: on reduced operands addition returns the reduced sum and whether
  it wrapped past the order, negation the additive inverse, and conditional negation is negation or
  the identity, with the sign reported.
\<close>

theorem scalar_add_negate:
  assumes "sc_val a < sc_n" "sc_val b < sc_n"
  shows "sc_val (fst (secp256k1_scalar_add a b)) = (sc_val a + sc_val b) mod sc_n \<and>
    snd (secp256k1_scalar_add a b) = of_bool (sc_n \<le> sc_val a + sc_val b) \<and>
    sc_val (secp256k1_scalar_negate a) = (sc_n - sc_val a) mod sc_n \<and>
    secp256k1_scalar_cond_negate a flag = (if flag then (secp256k1_scalar_negate a, -1) else (a, 1))"
  using scalar_add_correct[OF assms] scalar_negate_correct[OF assms(1)] scalar_cond_negate_eq[of a flag] by simp

theorem scalar_add_negate_witness:
  "sc_val (fst (secp256k1_scalar_add (secp256k1_scalar_set_int 5) (secp256k1_scalar_set_int 7))) = 12 \<and>
   sc_val (secp256k1_scalar_negate (secp256k1_scalar_set_int 5)) = sc_n - 5"
  using scalar_add_negate[of "secp256k1_scalar_set_int 5" "secp256k1_scalar_set_int 7"]
  by (simp add: sc_val_def sc_n_def secp256k1_scalar_set_int_def)

text \<open>
  Scalars and bytes: reading 32 bytes gives their big-endian value modulo the order and reports
  exactly whether it was reduced; writing gives the big-endian form, and reading back a written
  reduced scalar gives it unchanged and unflagged.
\<close>

theorem scalar_b32_round_trip:
  assumes "length b = 32" "sc_val a < sc_n"
  shows "sc_val (fst (secp256k1_scalar_set_b32 b)) = be_val b mod sc_n \<and>
    (snd (secp256k1_scalar_set_b32 b) \<longleftrightarrow> sc_n \<le> be_val b) \<and>
    secp256k1_scalar_get_b32 a = be_bytes 32 (sc_val a) \<and>
    secp256k1_scalar_set_b32 (secp256k1_scalar_get_b32 a) = (a, False)"
proof -
  have g: "secp256k1_scalar_get_b32 a = be_bytes 32 (sc_val a)" by (rule scalar_get_b32_correct)
  have v: "be_val (be_bytes 32 (sc_val a)) = sc_val a" using assms(2) by (simp add: be_val_be_bytes sc_n_def)
  have "sc_val (fst (secp256k1_scalar_set_b32 (be_bytes 32 (sc_val a)))) = sc_val a"
    "\<not> snd (secp256k1_scalar_set_b32 (be_bytes 32 (sc_val a)))"
    using scalar_set_b32_correct[of "be_bytes 32 (sc_val a)"] assms(2) v by simp_all
  then have "secp256k1_scalar_set_b32 (be_bytes 32 (sc_val a)) = (a, False)" by (simp add: prod_eq_iff sc_val_inj)
  then show ?thesis using scalar_set_b32_correct[OF assms(1)] g by simp
qed

theorem scalar_b32_round_trip_witness:
  "snd (secp256k1_scalar_set_b32 (be_bytes 32 sc_n)) \<and> sc_val (fst (secp256k1_scalar_set_b32 (be_bytes 32 sc_n))) = 0"
proof -
  have "be_val (be_bytes 32 sc_n) = sc_n" by (simp add: be_val_be_bytes sc_n_def)
  then show ?thesis using scalar_b32_round_trip[of "be_bytes 32 sc_n" "secp256k1_scalar_set_int 1"]
    by (simp add: sc_val_def sc_n_def secp256k1_scalar_set_int_def)
qed

text \<open>
  Windows and shifts of a scalar: a window of fewer than 32 bits is read correctly, also across a
  limb boundary; a right shift by 1 to 15 divides and returns the bits shifted out; the multiply and
  shift returns the product divided by the power of two, rounded to nearest; the order and half-order
  comparisons are exact.
\<close>

theorem scalar_windows:
  assumes "0 < cnt" "cnt < 32" "offset + cnt \<le> 256" "0 < n" "n < 16"
    "sc_val a < sc_n" "sc_val b < sc_n" "256 \<le> shift" "shift \<le> 512"
  shows "unat (secp256k1_scalar_get_bits_var a offset cnt) = sc_val a div 2 ^ offset mod 2 ^ cnt \<and>
    sc_val (fst (secp256k1_scalar_shr_int a n)) = sc_val a div 2 ^ n \<and>
    unat (snd (secp256k1_scalar_shr_int a n)) = sc_val a mod 2 ^ n \<and>
    sc_val (secp256k1_scalar_mul_shift_var a b shift) = (sc_val a * sc_val b + 2 ^ (shift - 1)) div 2 ^ shift \<and>
    (secp256k1_scalar_check_overflow c \<longleftrightarrow> sc_n \<le> sc_val c) \<and>
    (secp256k1_scalar_is_high a \<longleftrightarrow> sc_n div 2 < sc_val a)"
  using scalar_get_bits_var_correct[OF assms(1-3)] scalar_shr_int_correct[OF assms(4,5)]
    scalar_mul_shift_var_correct[OF assms(8,9,6,7)] check_overflow_iff is_high_iff by blast

theorem scalar_windows_witness:
  "unat (secp256k1_scalar_get_bits_var (mk_sc 0 1 0 0) 62 4) = 4 \<and>
   sc_val (fst (secp256k1_scalar_shr_int (mk_sc 0 1 0 0) 4)) = 2 ^ 60"
  using scalar_windows[of 4 62 4 "mk_sc 0 1 0 0" "secp256k1_scalar_set_int 3" 300]
  by (simp add: sc_val_def sc_n_def secp256k1_scalar_set_int_def)

text \<open>
  C11. The scalar inverse: the addition chain computes the power \<open>n - 2\<close> of its argument modulo the
  order \<open>n\<close>, so argument times inverse is 1 whenever the argument satisfies Fermat's congruence.
\<close>

theorem scalar_inverse_power:
  "sc_val (secp256k1_scalar_inverse a) = sc_val a ^ (sc_n - 2) mod sc_n \<and>
   secp256k1_scalar_inverse_var a = secp256k1_scalar_inverse a \<and>
   sc_val (secp256k1_scalar_mul a (secp256k1_scalar_inverse a)) = sc_val a ^ (sc_n - 1) mod sc_n"
proof -
  have lt: "sc_val (secp256k1_scalar_inverse a) < sc_n"
    unfolding secp256k1_scalar_inverse_def Let_def scalar_mul_correct by (simp add: sc_n_def)
  have r: "sc_rep (secp256k1_scalar_inverse a) (sc_val a ^ (sc_n - 2))"
    by (rule scalar_inverse_pow) (simp add: mod_rep_def)
  then have e: "sc_val (secp256k1_scalar_inverse a) = sc_val a ^ (sc_n - 2) mod sc_n" using lt by (simp add: mod_rep_def)
  have "sc_val a * sc_val a ^ (sc_n - 2) = sc_val a ^ (sc_n - 1)" by (simp add: sc_n_def flip: power_Suc)
  then have "sc_val (secp256k1_scalar_mul a (secp256k1_scalar_inverse a)) = sc_val a ^ (sc_n - 1) mod sc_n"
    unfolding scalar_mul_correct e by (simp add: mod_mult_right_eq)
  then show ?thesis using e by (simp add: secp256k1_scalar_inverse_var_def)
qed

end
