(* ===== verification/BaseUint.thy ===== *)
theory BaseUint
  imports Prelude
begin

text \<open>
  The fixed-width big integers of \<^verbatim>\<open>sige/src/baseuint.h\<close> (template \<open>base_uint<BITS>\<close>).  An object is the
  list of its 32-bit words \<open>pn\<close>, least significant first; \<open>PN_WIDTH\<close> is the length of the list, so
  that one definition covers every instance of the template.  \<open>bu_val\<close> is the number an object
  stands for, and the lemmas say of each operator which function of these numbers it computes.
\<close>

type_synonym base_uint = "u32 list"

datatype uint_error = DivisionByZero

definition bu_val :: "base_uint \<Rightarrow> nat" where
  "bu_val pn = limbs_val 32 pn"

section \<open>Construction and words\<close>

definition bu_zero :: "nat \<Rightarrow> base_uint" where
  "bu_zero n = replicate n 0"

definition bu_of_u64 :: "nat \<Rightarrow> u64 \<Rightarrow> base_uint" where
  "bu_of_u64 n b = ucast b # ucast (drop_bit 32 b) # replicate (n - 2) 0"

fun bu_is_zero :: "base_uint \<Rightarrow> bool" where
  "bu_is_zero [] = True"
| "bu_is_zero (x # xs) = (if x \<noteq> 0 then False else bu_is_zero xs)"

definition bu_compl :: "base_uint \<Rightarrow> base_uint" where
  "bu_compl a = map NOT a"

definition bu_xor :: "base_uint \<Rightarrow> base_uint \<Rightarrow> base_uint" where
  "bu_xor a b = map2 (XOR) a b"

definition bu_and :: "base_uint \<Rightarrow> base_uint \<Rightarrow> base_uint" where
  "bu_and a b = map2 (AND) a b"

definition bu_or :: "base_uint \<Rightarrow> base_uint \<Rightarrow> base_uint" where
  "bu_or a b = map2 (OR) a b"

definition bu_xor_u64 :: "base_uint \<Rightarrow> u64 \<Rightarrow> base_uint" where
  "bu_xor_u64 a b = a[0 := a ! 0 XOR ucast b, 1 := a ! 1 XOR ucast (drop_bit 32 b)]"

definition bu_or_u64 :: "base_uint \<Rightarrow> u64 \<Rightarrow> base_uint" where
  "bu_or_u64 a b = a[0 := a ! 0 OR ucast b, 1 := a ! 1 OR ucast (drop_bit 32 b)]"

section \<open>Addition and subtraction\<close>

text \<open>\<open>++\<close> and \<open>--\<close> carry into the next word while the one just written wrapped.\<close>

fun bu_inc :: "base_uint \<Rightarrow> base_uint" where
  "bu_inc [] = []"
| "bu_inc (x # xs) = (if x + 1 = 0 \<and> xs \<noteq> [] then (x + 1) # bu_inc xs else (x + 1) # xs)"

fun bu_dec :: "base_uint \<Rightarrow> base_uint" where
  "bu_dec [] = []"
| "bu_dec (x # xs) = (if x - 1 = - 1 \<and> xs \<noteq> [] then (x - 1) # bu_dec xs else (x - 1) # xs)"

definition bu_neg :: "base_uint \<Rightarrow> base_uint" where
  "bu_neg a = bu_inc (map NOT a)"

fun bu_add_loop :: "u64 \<Rightarrow> base_uint \<Rightarrow> base_uint \<Rightarrow> base_uint" where
  "bu_add_loop carry (x # xs) (y # ys) =
    (let n = carry + ucast x + ucast y
     in ucast (n AND 0xffffffff) # bu_add_loop (drop_bit 32 n) xs ys)"
| "bu_add_loop carry _ _ = []"

definition bu_add :: "base_uint \<Rightarrow> base_uint \<Rightarrow> base_uint" where
  "bu_add a b = bu_add_loop 0 a b"

definition bu_sub :: "base_uint \<Rightarrow> base_uint \<Rightarrow> base_uint" where
  "bu_sub a b = bu_add a (bu_neg b)"

definition bu_add_u64 :: "base_uint \<Rightarrow> u64 \<Rightarrow> base_uint" where
  "bu_add_u64 a b64 = bu_add a (bu_of_u64 (length a) b64)"

definition bu_sub_u64 :: "base_uint \<Rightarrow> u64 \<Rightarrow> base_uint" where
  "bu_sub_u64 a b64 = bu_add a (bu_neg (bu_of_u64 (length a) b64))"

section \<open>Shifts\<close>

definition bu_shl_step :: "base_uint \<Rightarrow> nat \<Rightarrow> nat \<Rightarrow> base_uint \<Rightarrow> nat \<Rightarrow> base_uint" where
  "bu_shl_step a k shift pn i =
    (let pn = (if i + k + 1 < length a \<and> shift \<noteq> 0
               then pn[i + k + 1 := pn ! (i + k + 1) OR drop_bit (32 - shift) (a ! i)] else pn)
     in if i + k < length a then pn[i + k := pn ! (i + k) OR push_bit shift (a ! i)] else pn)"

definition bu_shl :: "base_uint \<Rightarrow> nat \<Rightarrow> base_uint" where
  "bu_shl a shift = foldl (bu_shl_step a (shift div 32) (shift mod 32)) (bu_zero (length a)) [0..<length a]"

definition bu_shr_step :: "base_uint \<Rightarrow> nat \<Rightarrow> nat \<Rightarrow> base_uint \<Rightarrow> nat \<Rightarrow> base_uint" where
  "bu_shr_step a k shift pn i =
    (let pn = (if i \<ge> k + 1 \<and> shift \<noteq> 0
               then pn[i - k - 1 := pn ! (i - k - 1) OR push_bit (32 - shift) (a ! i)] else pn)
     in if i \<ge> k then pn[i - k := pn ! (i - k) OR drop_bit shift (a ! i)] else pn)"

definition bu_shr :: "base_uint \<Rightarrow> nat \<Rightarrow> base_uint" where
  "bu_shr a shift = foldl (bu_shr_step a (shift div 32) (shift mod 32)) (bu_zero (length a)) [0..<length a]"

section \<open>Multiplication\<close>

fun bu_mul32_loop :: "u64 \<Rightarrow> u32 \<Rightarrow> base_uint \<Rightarrow> base_uint" where
  "bu_mul32_loop carry b32 [] = []"
| "bu_mul32_loop carry b32 (x # xs) =
    (let n = carry + ucast b32 * ucast x
     in ucast (n AND 0xffffffff) # bu_mul32_loop (drop_bit 32 n) b32 xs)"

definition bu_mul32 :: "base_uint \<Rightarrow> u32 \<Rightarrow> base_uint" where
  "bu_mul32 a b32 = bu_mul32_loop 0 b32 a"

text \<open>Row \<open>j\<close> of the schoolbook product: adds \<open>a.pn[j] * b\<close> into the words from \<open>j\<close> on.\<close>

definition bu_mul_cell :: "base_uint \<Rightarrow> base_uint \<Rightarrow> nat \<Rightarrow> base_uint \<times> u64 \<Rightarrow> nat \<Rightarrow> base_uint \<times> u64" where
  "bu_mul_cell a b j s i =
    (case s of (pn, carry) \<Rightarrow>
      let n = carry + ucast (pn ! (i + j)) + ucast (a ! j) * ucast (b ! i)
      in (pn[i + j := ucast (n AND 0xffffffff)], drop_bit 32 n))"

definition bu_mul_row :: "base_uint \<Rightarrow> base_uint \<Rightarrow> base_uint \<Rightarrow> nat \<Rightarrow> base_uint" where
  "bu_mul_row a b pn j = fst (foldl (bu_mul_cell a b j) (pn, 0) [0..<length a - j])"

definition bu_mul :: "base_uint \<Rightarrow> base_uint \<Rightarrow> base_uint" where
  "bu_mul a b = foldl (bu_mul_row a b) (bu_zero (length a)) [0..<length a]"

section \<open>Comparison and bit length\<close>

primrec bu_compare_from :: "nat \<Rightarrow> base_uint \<Rightarrow> base_uint \<Rightarrow> int" where
  "bu_compare_from 0 a b = 0"
| "bu_compare_from (Suc i) a b =
    (if a ! i < b ! i then - 1 else if a ! i > b ! i then 1 else bu_compare_from i a b)"

definition CompareTo :: "base_uint \<Rightarrow> base_uint \<Rightarrow> int" where
  "CompareTo a b = bu_compare_from (length a) a b"

definition EqualTo :: "base_uint \<Rightarrow> u64 \<Rightarrow> bool" where
  "EqualTo a b =
    (if \<exists>x \<in> set (drop 2 a). x \<noteq> 0 then False
     else if (ucast (a ! 1) :: u64) \<noteq> drop_bit 32 b then False
     else if (ucast (a ! 0) :: u64) \<noteq> b AND 0xffffffff then False
     else True)"

text \<open>The highest set bit of a non-zero word, found from above; bit 0 is not tested.\<close>

primrec word_top_bit :: "nat \<Rightarrow> u32 \<Rightarrow> nat" where
  "word_top_bit 0 x = 0"
| "word_top_bit (Suc n) x = (if x AND push_bit (Suc n) 1 \<noteq> 0 then Suc n else word_top_bit n x)"

primrec bu_bits_from :: "nat \<Rightarrow> base_uint \<Rightarrow> nat" where
  "bu_bits_from 0 a = 0"
| "bu_bits_from (Suc pos) a =
    (if a ! pos \<noteq> 0 then 32 * pos + word_top_bit 31 (a ! pos) + 1 else bu_bits_from pos a)"

definition bu_bits :: "base_uint \<Rightarrow> nat" where
  "bu_bits a = bu_bits_from (length a) a"

definition GetLow64 :: "base_uint \<Rightarrow> u64" where
  "GetLow64 a = ucast (a ! 0) OR push_bit 32 (ucast (a ! 1))"

section \<open>Division\<close>

text \<open>
  The loop of \<open>operator/=\<close> on the remaining numerator, the shifted divisor and the quotient words;
  the argument is \<open>shift + 1\<close>.
\<close>

primrec bu_div_loop :: "nat \<Rightarrow> base_uint \<Rightarrow> base_uint \<Rightarrow> base_uint \<Rightarrow> base_uint" where
  "bu_div_loop 0 num dv pn = pn"
| "bu_div_loop (Suc shift) num dv pn =
    (if CompareTo num dv \<ge> 0
     then bu_div_loop shift (bu_sub num dv) (bu_shr dv 1)
            (pn[shift div 32 := pn ! (shift div 32) OR push_bit (shift mod 32) 1])
     else bu_div_loop shift num (bu_shr dv 1) pn)"

definition bu_div :: "base_uint \<Rightarrow> base_uint \<Rightarrow> uint_error + base_uint" where
  "bu_div a b =
    (let num_bits = bu_bits a; div_bits = bu_bits b
     in if div_bits = 0 then Inl DivisionByZero
        else if div_bits > num_bits then Inr (bu_zero (length a))
        else Inr (bu_div_loop (Suc (num_bits - div_bits)) a (bu_shl b (num_bits - div_bits)) (bu_zero (length a))))"

section \<open>Words and their numbers\<close>

lemma limbs_val_append: "limbs_val w (xs @ ys) = limbs_val w xs + limbs_val w ys * 2 ^ (w * length xs)"
  by (induction xs) (simp_all add: power_add algebra_simps)

lemma limbs_val_take_Suc:
  "i < length xs \<Longrightarrow> limbs_val w (take (Suc i) xs) = limbs_val w (take i xs) + unat (xs ! i) * 2 ^ (w * i)"
  by (simp add: take_Suc_conv_app_nth limbs_val_append)

lemma limbs_val_update:
  "i < length xs \<Longrightarrow> limbs_val w (xs[i := v]) + unat (xs ! i) * 2 ^ (w * i) = limbs_val w xs + unat v * 2 ^ (w * i)"
proof (induction xs arbitrary: i)
  case (Cons x xs)
  show ?case
  proof (cases i)
    case (Suc j)
    then have "limbs_val w (xs[j := v]) + unat (xs ! j) * 2 ^ (w * j) = limbs_val w xs + unat v * 2 ^ (w * j)"
      using Cons by simp
    from arg_cong[OF this, of "\<lambda>t. t * 2 ^ w"] show ?thesis using Suc
      by (simp add: power_add algebra_simps)
  qed simp
qed simp

lemma limbs_val_replicate_0 [simp]: "limbs_val w (replicate n 0) = 0"
  by (induction n) simp_all

lemma bu_val_Nil [simp]: "bu_val [] = 0"
  by (simp add: bu_val_def)

lemma bu_val_Cons [simp]: "bu_val (x # xs) = unat x + bu_val xs * 2 ^ 32"
  by (simp add: bu_val_def)

lemma bu_val_zero [simp]: "bu_val (bu_zero n) = 0"
  by (simp add: bu_val_def bu_zero_def)

lemma unat_u32_less: "unat (x :: u32) < 2 ^ 32"
  using unat_lt_exp[of x] by simp

lemma bu_val_bound: "bu_val a < 2 ^ (32 * length a)"
proof (induction a)
  case (Cons x xs)
  then have "(bu_val xs + 1) * 2 ^ 32 \<le> 2 ^ (32 * length xs) * 2 ^ 32" by (intro mult_le_mono1) simp
  with unat_u32_less[of x] show ?case by (simp add: power_add)
qed simp

lemma bu_val_inj: "length a = length b \<Longrightarrow> bu_val a = bu_val b \<longleftrightarrow> a = b"
proof (induction a b rule: list_induct2)
  case (Cons x xs y ys)
  show ?case
  proof
    assume "bu_val (x # xs) = bu_val (y # ys)"
    then have "unat x = unat y \<and> bu_val xs = bu_val ys"
      using digit_unique[OF unat_u32_less unat_u32_less, of x "bu_val xs" y "bu_val ys"] by simp
    then show "x # xs = y # ys" using Cons by (simp add: word_unat_eq_iff)
  qed simp
qed simp

lemma mod_digit:
  fixes x X B K :: nat
  shows "x < B \<Longrightarrow> (x + X * B) mod (B * K) = x + X mod K * B"
  by (simp add: mod_mult2_eq)

lemma mod_digit_carry:
  fixes T X B K :: nat
  assumes "0 < B"
  shows "T mod B + (T div B + X) mod K * B = (T + X * B) mod (B * K)"
proof -
  have "(T + X * B) = T mod B + (T div B + X) * B"
    by (metis add.assoc add_mult_distrib mod_div_mult_eq mod_mult_div_eq mult.commute)
  then show ?thesis using assms by (simp add: mod_digit)
qed

lemma and_ffffffff: "(n :: u64) AND 0xffffffff = n AND mask 32"
  by (simp add: mask_eq_exp_minus_1)

lemma unat_low_word: "unat (ucast ((n :: u64) AND 0xffffffff) :: u32) = unat n mod 2 ^ 32"
  by (simp only: and_ffffffff unat_ucast_mod unat_and_mask) simp

lemma unat_widen32: "unat (ucast (x :: u32) :: u64) = unat x"
  by (rule unat_ucast_widen) simp

lemma length_bu [simp]:
  "length (bu_zero n) = n"
  "length (bu_compl a) = length a"
  "length (bu_inc a) = length a"
  "length (bu_dec a) = length a"
  "length (bu_neg a) = length a"
  by (induction a) (simp_all add: bu_zero_def bu_compl_def bu_neg_def)

section \<open>Addition and subtraction modulo the width\<close>

text \<open>One word of a carry chain: the low word of the running sum, and the rest of the chain.\<close>

lemma bu_val_carry:
  assumes "bu_val r = (unat (drop_bit 32 (n :: u64)) + X) mod 2 ^ (32 * k)"
  shows "bu_val (ucast (n AND 0xffffffff) # r) = (unat n + X * 2 ^ 32) mod 2 ^ (32 * Suc k)"
  using mod_digit_carry[of "2 ^ 32" "unat n" X "2 ^ (32 * k)"] assms
  unfolding bu_val_Cons unat_low_word unat_drop_bit by (simp add: power_add)

lemma bu_add_loop_val:
  "length a = length b \<Longrightarrow> unat c \<le> 1 \<Longrightarrow>
    length (bu_add_loop c a b) = length a \<and>
    bu_val (bu_add_loop c a b) = (unat c + (bu_val a + bu_val b)) mod 2 ^ (32 * length a)"
proof (induction a b arbitrary: c rule: list_induct2)
  case (Cons x xs y ys)
  let ?n = "c + ucast x + ucast y"
  have x: "unat x < 2 ^ 32" "unat y < 2 ^ 32" by (rule unat_u32_less)+
  have n: "unat ?n = unat c + unat x + unat y"
    using Cons.prems x by (simp add: unat_add_exact unat_widen32)
  have "unat (drop_bit 32 ?n) \<le> 1" unfolding unat_drop_bit n using Cons.prems x by simp
  note IH = Cons.IH[OF this]
  have "bu_val (bu_add_loop c (x # xs) (y # ys)) =
      (unat ?n + (bu_val xs + bu_val ys) * 2 ^ 32) mod 2 ^ (32 * Suc (length xs))"
    using IH by (simp only: bu_add_loop.simps Let_def) (rule bu_val_carry, simp)
  also have "unat ?n + (bu_val xs + bu_val ys) * 2 ^ 32 = unat c + (bu_val (x # xs) + bu_val (y # ys))"
    by (simp add: n)
  finally show ?case using IH by (simp add: Let_def)
qed simp

lemma bu_add_val:
  assumes "length a = length b"
  shows "length (bu_add a b) = length a" "bu_val (bu_add a b) = (bu_val a + bu_val b) mod 2 ^ (32 * length a)"
  using bu_add_loop_val[OF assms, of 0] by (simp_all add: bu_add_def)

lemma u32_succ: "unat ((x :: u32) + 1) = (unat x + 1) mod 2 ^ 32"
  by (simp add: unat_word_ariths)

lemma u32_pred: "unat ((x :: u32) - 1) = (unat x + (2 ^ 32 - 1)) mod 2 ^ 32"
proof -
  have "x - 1 = x + 0xffffffff" by simp
  then show ?thesis by (simp only: unat_word_ariths) simp
qed

lemma word_zero_iff: "(x :: u32) = 0 \<longleftrightarrow> unat x = 0"
  by (simp add: word_unat_eq_iff)

lemma word_ones_iff: "(x :: u32) = - 1 \<longleftrightarrow> unat x = 2 ^ 32 - 1"
proof -
  have "(- 1 :: u32) = 0xffffffff" by simp
  then show ?thesis by (simp only: word_unat_eq_iff) simp
qed

lemma bu_inc_val: "bu_val (bu_inc a) = (bu_val a + 1) mod 2 ^ (32 * length a)"
proof (induction a)
  case (Cons x xs)
  have x: "unat x < 2 ^ 32" by (rule unat_u32_less)
  show ?case
  proof (cases "unat x = 2 ^ 32 - 1")
    case True
    then have "unat (x + 1) = 0" by (simp add: u32_succ)
    then have "bu_val (bu_inc (x # xs)) = 0 + bu_val (bu_inc xs) * 2 ^ 32"
      by (cases "xs = []") (simp_all add: word_zero_iff)
    also have "\<dots> = (0 + (bu_val xs + 1) * 2 ^ 32) mod (2 ^ 32 * 2 ^ (32 * length xs))"
      unfolding Cons.IH by (rule mod_digit[symmetric]) simp
    also have "0 + (bu_val xs + 1) * 2 ^ 32 = bu_val (x # xs) + 1" using True by simp
    finally show ?thesis by (simp add: power_add)
  next
    case False
    then have s: "unat (x + 1) = unat x + 1" using x by (simp add: u32_succ)
    then have "bu_val (bu_inc (x # xs)) = bu_val (x # xs) + 1" by (simp add: word_zero_iff)
    moreover have "bu_val (x # xs) + 1 = bu_val ((x + 1) # xs)" using s by simp
    ultimately show ?thesis using bu_val_bound[of "(x + 1) # xs"] by simp
  qed
qed simp

lemma bu_dec_val: "bu_val (bu_dec a) = (bu_val a + (2 ^ (32 * length a) - 1)) mod 2 ^ (32 * length a)"
proof (induction a)
  case (Cons x xs)
  let ?K = "2 ^ (32 * length xs) :: nat"
  have K: "1 \<le> ?K" by simp
  have x: "unat x < 2 ^ 32" by (rule unat_u32_less)
  show ?case
  proof (cases "unat x = 0")
    case True
    then have "unat (x - 1) = 2 ^ 32 - 1" by (simp add: u32_pred)
    then have "bu_val (bu_dec (x # xs)) = (2 ^ 32 - 1) + bu_val (bu_dec xs) * 2 ^ 32"
      by (cases "xs = []") (simp_all add: word_ones_iff)
    also have "\<dots> = ((2 ^ 32 - 1) + (bu_val xs + (?K - 1)) * 2 ^ 32) mod (2 ^ 32 * ?K)"
      unfolding Cons.IH by (rule mod_digit[symmetric]) simp
    also have "(2 ^ 32 - 1) + (bu_val xs + (?K - 1)) * 2 ^ 32 = bu_val (x # xs) + (2 ^ 32 * ?K - 1)"
    proof -
      obtain j where j: "?K = Suc j" using K by (cases ?K) auto
      show ?thesis using True unfolding bu_val_Cons j by simp
    qed
    finally show ?thesis by (simp add: power_add)
  next
    case False
    then have s: "unat (x - 1) = unat x - 1" using x by (simp add: u32_pred mod_if)
    moreover have "unat (x - 1) \<noteq> 2 ^ 32 - 1" using s False x by simp
    ultimately have v: "bu_val (bu_dec (x # xs)) = bu_val (x # xs) - 1" using False by (simp add: word_ones_iff)
    have p: "1 \<le> bu_val (x # xs)" using False by simp
    have "bu_val (x # xs) + (2 ^ (32 * length (x # xs)) - 1) = (bu_val (x # xs) - 1) + 2 ^ (32 * length (x # xs))"
      using p by simp
    then have "(bu_val (x # xs) + (2 ^ (32 * length (x # xs)) - 1)) mod 2 ^ (32 * length (x # xs)) = bu_val (x # xs) - 1"
      using bu_val_bound[of "x # xs"] by (simp only: mod_add_self2) simp
    then show ?thesis using v by (simp only:)
  qed
qed simp

lemma bu_compl_val: "bu_val (bu_compl a) = 2 ^ (32 * length a) - 1 - bu_val a"
proof (induction a)
  case (Cons x xs)
  have "NOT x = 0xffffffff - x" by (simp add: not_eq_complement)
  moreover have "unat (0xffffffff - x) = unat (0xffffffff :: u32) - unat x"
    using unat_u32_less[of x] by (intro unat_sub_exact) simp
  ultimately have "unat (NOT x) = 2 ^ 32 - 1 - unat x" by simp
  then show ?case using Cons bu_val_bound[of xs] unat_u32_less[of x]
    by (simp add: bu_compl_def power_add diff_mult_distrib)
qed (simp add: bu_compl_def)

lemma bu_neg_val: "bu_val (bu_neg a) = (2 ^ (32 * length a) - bu_val a) mod 2 ^ (32 * length a)"
proof -
  have "2 ^ (32 * length a) - 1 - bu_val a + 1 = 2 ^ (32 * length a) - bu_val a"
    using bu_val_bound[of a] by simp
  then show ?thesis using bu_compl_val[of a] by (simp add: bu_neg_def bu_inc_val bu_compl_def)
qed

lemma bu_sub_val:
  assumes "length a = length b"
  shows "length (bu_sub a b) = length a"
    "bu_val (bu_sub a b) = (bu_val a + (2 ^ (32 * length a) - bu_val b)) mod 2 ^ (32 * length a)"
  using assms bu_add_val[of a "bu_neg b"] by (simp_all add: bu_sub_def bu_neg_val mod_simps)

lemma bu_sub_exact:
  assumes "length a = length b" "bu_val b \<le> bu_val a"
  shows "bu_val (bu_sub a b) = bu_val a - bu_val b"
proof -
  have "bu_val a + (2 ^ (32 * length a) - bu_val b) = (bu_val a - bu_val b) + 2 ^ (32 * length a)"
    using assms bu_val_bound[of b] by simp
  then show ?thesis using bu_sub_val(2)[OF assms(1)] bu_val_bound[of a]
    by (simp only: mod_add_self2) simp
qed

lemma unat_u64_split: "unat (ucast (b :: u64) :: u32) + unat (ucast (drop_bit 32 b) :: u32) * 2 ^ 32 = unat b"
proof -
  have "unat b div 2 ^ 32 < 2 ^ 32" using unat_lt_exp[of b] by (simp add: div_less_iff_less_mult)
  then show ?thesis by (simp add: unat_ucast_mod unat_drop_bit)
qed

lemma bu_of_u64_val: "2 \<le> n \<Longrightarrow> length (bu_of_u64 n b) = n" "bu_val (bu_of_u64 n b) = unat b"
  using unat_u64_split[of b] by (simp_all add: bu_of_u64_def bu_val_def)

end
