(* ===== verification/BaseUint_Mul.thy ===== *)
theory BaseUint_Mul
  imports BaseUint
begin

text \<open>
  Multiplication, comparison and bit length of the big integers: the schoolbook product is exact
  modulo the width, the comparison decides the order of the numbers, and \<open>bits()\<close> is the bit length.
\<close>

section \<open>Multiplication modulo the width\<close>

lemma u64_mul_add_bound:
  fixes a b c d :: nat
  assumes "a < 2 ^ 32" "b < 2 ^ 32" "c < 2 ^ 32" "d < 2 ^ 32"
  shows "c + d + a * b < 2 ^ 64"
proof -
  have "a * b \<le> (2 ^ 32 - 1) * (2 ^ 32 - 1)" using assms by (intro mult_le_mono) simp_all
  then show ?thesis using assms by simp
qed

lemma unat_mul_add:
  fixes c :: u64 and x y z :: u32
  assumes "unat c < 2 ^ 32"
  shows "unat (c + ucast z + ucast x * ucast y) = unat c + unat z + unat x * unat y"
    "unat (drop_bit 32 (c + ucast z + ucast x * ucast y)) < 2 ^ 32"
proof -
  have m: "unat (ucast x * ucast y :: u64) = unat x * unat y"
    using u64_mul_add_bound[OF unat_u32_less[of x] unat_u32_less[of y], of 0 0]
    by (simp add: unat_mult_exact unat_widen32)
  have cz: "unat (c + ucast z) = unat c + unat z"
    using assms unat_u32_less[of z] by (simp add: unat_add_exact unat_widen32)
  have b: "unat c + unat z + unat x * unat y < 2 ^ 64"
    by (rule u64_mul_add_bound) (use assms unat_u32_less in auto)
  then show "unat (c + ucast z + ucast x * ucast y) = unat c + unat z + unat x * unat y"
    by (subst unat_add_exact) (simp_all add: m cz)
  then show "unat (drop_bit 32 (c + ucast z + ucast x * ucast y)) < 2 ^ 32"
    using b by (simp add: unat_drop_bit div_less_iff_less_mult)
qed

lemma bu_mul32_loop_val:
  "unat c < 2 ^ 32 \<Longrightarrow>
    length (bu_mul32_loop c b a) = length a \<and>
    bu_val (bu_mul32_loop c b a) = (unat c + unat b * bu_val a) mod 2 ^ (32 * length a)"
proof (induction a arbitrary: c)
  case (Cons x xs)
  let ?n = "c + ucast b * ucast x"
  have n: "unat ?n = unat c + unat b * unat x" "unat (drop_bit 32 ?n) < 2 ^ 32"
    using unat_mul_add[OF Cons.prems, of 0 b x] by simp_all
  note IH = Cons.IH[OF n(2)]
  have "bu_val (bu_mul32_loop c b (x # xs)) =
      (unat ?n + (unat b * bu_val xs) * 2 ^ 32) mod 2 ^ (32 * Suc (length xs))"
    using IH by (simp only: bu_mul32_loop.simps Let_def) (rule bu_val_carry, simp)
  also have "unat ?n + (unat b * bu_val xs) * 2 ^ 32 = unat c + unat b * bu_val (x # xs)"
    by (simp add: n algebra_simps)
  finally show ?case using IH by (simp add: Let_def)
qed simp

lemma bu_mul32_val: "length (bu_mul32 a b) = length a" "bu_val (bu_mul32 a b) = bu_val a * unat b mod 2 ^ (32 * length a)"
  using bu_mul32_loop_val[of 0 b a] by (simp_all add: bu_mul32_def mult.commute)

lemma mul_cell_arith:
  fixes X Y Z J P B T W c p a b :: nat
  assumes "X + c * B = Y + a * Z * J" "B = P * J" "T = c + p + a * b"
  shows "X + T mod W * B + T div W * (W * B) = Y + p * B + a * (Z + b * P) * J"
proof -
  have "X + T mod W * B + T div W * (W * B) = X + (T mod W + T div W * W) * B"
    by (simp only: add_mult_distrib mult.assoc add.assoc)
  also have "\<dots> = X + c * B + p * B + a * b * B" by (simp only: mod_div_mult_eq assms(3) add_mult_distrib add.assoc)
  also have "\<dots> = Y + p * B + a * (Z + b * P) * J" unfolding assms(1) by (simp add: assms(2) algebra_simps)
  finally show ?thesis .
qed

text \<open>After \<open>m\<close> cells of row \<open>j\<close>: the words below \<open>j + m\<close> and the carry hold the exact partial sum.\<close>

lemma bu_mul_cells_val:
  assumes "length b = length a" "length pn = length a" "j < length a" "m \<le> length a - j"
  shows "case foldl (bu_mul_cell a b j) (pn, 0) [0..<m] of (pn', c) \<Rightarrow>
    length pn' = length a \<and> unat c < 2 ^ 32 \<and> drop (j + m) pn' = drop (j + m) pn \<and>
    limbs_val 32 (take (j + m) pn') + unat c * 2 ^ (32 * (j + m)) =
      limbs_val 32 (take (j + m) pn) + unat (a ! j) * limbs_val 32 (take m b) * 2 ^ (32 * j)"
  using assms(4)
proof (induction m)
  case 0
  then show ?case using assms by simp
next
  case (Suc m)
  obtain q c where q: "foldl (bu_mul_cell a b j) (pn, 0) [0..<m] = (q, c)" by (cases "foldl (bu_mul_cell a b j) (pn, 0) [0..<m]")
  have IH: "length q = length a" "unat c < 2 ^ 32" "drop (j + m) q = drop (j + m) pn"
    "limbs_val 32 (take (j + m) q) + unat c * 2 ^ (32 * (j + m)) =
      limbs_val 32 (take (j + m) pn) + unat (a ! j) * limbs_val 32 (take m b) * 2 ^ (32 * j)"
    using Suc.IH Suc.prems by (simp_all add: q)
  have jm: "j + m < length a" using Suc.prems by simp
  have qjm: "q ! (j + m) = pn ! (j + m)"
    using IH(1,3) jm assms(2) by (metis hd_drop_conv_nth)
  let ?n = "c + ucast (q ! (m + j)) + ucast (a ! j) * ucast (b ! m)"
  let ?B = "2 ^ (32 * (j + m)) :: nat"
  define T where "T = unat c + unat (pn ! (j + m)) + unat (a ! j) * unat (b ! m)"
  have n: "unat ?n = T" "unat (drop_bit 32 ?n) < 2 ^ 32" "unat (drop_bit 32 ?n) = T div 2 ^ 32"
    using unat_mul_add[OF IH(2), of "q ! (m + j)" "a ! j" "b ! m"]
    by (simp_all add: T_def qjm[symmetric] add.commute[of m j] unat_drop_bit)
  let ?q' = "q[m + j := ucast (?n AND 0xffffffff)]"
  have dr: "drop (j + Suc m) ?q' = drop (j + Suc m) pn"
  proof -
    have "drop (j + Suc m) ?q' = drop 1 (drop (j + m) q)" by (simp add: add.commute[of m j])
    also have "\<dots> = drop (j + Suc m) pn" unfolding IH(3) by simp
    finally show ?thesis .
  qed
  have "limbs_val 32 (take (j + Suc m) ?q') = limbs_val 32 (take (j + m) q) + T mod 2 ^ 32 * ?B"
    using jm IH(1) limbs_val_take_Suc[of "j + m" ?q' 32]
    by (simp add: unat_low_word n(1)[unfolded add.commute[of m j]] add.commute[of m j])
  moreover have "limbs_val 32 (take (j + Suc m) pn) = limbs_val 32 (take (j + m) pn) + unat (pn ! (j + m)) * ?B"
    using jm assms(2) limbs_val_take_Suc[of "j + m" pn 32] by simp
  moreover have "limbs_val 32 (take (Suc m) b) = limbs_val 32 (take m b) + unat (b ! m) * 2 ^ (32 * m)"
    using jm assms(1) by (intro limbs_val_take_Suc) simp
  moreover have "2 ^ (32 * (j + Suc m)) = 2 ^ 32 * ?B" "?B = 2 ^ (32 * m) * 2 ^ (32 * j)"
    by (simp only: mult_Suc_right add_Suc_right power_add) (simp only: add.commute[of j m] distrib_left power_add)
  ultimately have "limbs_val 32 (take (j + Suc m) ?q') + unat (drop_bit 32 ?n) * 2 ^ (32 * (j + Suc m)) =
      limbs_val 32 (take (j + Suc m) pn) + unat (a ! j) * limbs_val 32 (take (Suc m) b) * 2 ^ (32 * j)"
    using mul_cell_arith[OF IH(4) _ T_def, of "2 ^ (32 * m)" "2 ^ 32"] unfolding n(3) by (simp only:)
  moreover have "foldl (bu_mul_cell a b j) (pn, 0) [0..<Suc m] = (?q', drop_bit 32 ?n)"
    by (simp add: q) (simp add: bu_mul_cell_def Let_def)
  ultimately show ?case using IH(1) n(2) dr by simp
qed

lemma pow_width: "j \<le> k \<Longrightarrow> (2 :: nat) ^ (32 * k) = 2 ^ (32 * (k - j)) * 2 ^ (32 * j)"
  by (simp flip: power_add distrib_left)

lemma bu_val_take_mod: "bu_val a mod 2 ^ (32 * k) = limbs_val 32 (take k a)"
proof -
  have "limbs_val 32 (take k a) < 2 ^ (32 * k)"
    using bu_val_bound[of "take k a"] power_increasing[of "32 * min (length a) k" "32 * k" "2::nat"]
    by (simp add: bu_val_def less_le_trans)
  moreover have "bu_val a = limbs_val 32 (take k a) + limbs_val 32 (drop k a) * 2 ^ (32 * length (take k a))"
    unfolding bu_val_def by (metis append_take_drop_id limbs_val_append)
  ultimately show ?thesis by (cases "k \<le> length a") (simp_all add: bu_val_def)
qed

lemma bu_mul_row_val:
  assumes "length b = length a" "length pn = length a" "j < length a"
  shows "length (bu_mul_row a b pn j) = length a"
    "bu_val (bu_mul_row a b pn j) = (bu_val pn + unat (a ! j) * 2 ^ (32 * j) * bu_val b) mod 2 ^ (32 * length a)"
proof -
  let ?N = "2 ^ (32 * length a) :: nat" and ?J = "2 ^ (32 * j) :: nat" and ?t = "limbs_val 32 (take (length a - j) b)"
  obtain q c where q: "foldl (bu_mul_cell a b j) (pn, 0) [0..<length a - j] = (q, c)"
    by (cases "foldl (bu_mul_cell a b j) (pn, 0) [0..<length a - j]")
  have cells: "length q = length a \<and> limbs_val 32 (take (length a) q) + unat c * ?N = limbs_val 32 (take (length a) pn) + unat (a ! j) * ?t * ?J"
    using bu_mul_cells_val[OF assms, of "length a - j"] assms(3) by (simp add: q del: take_all)
  then have inv: "length q = length a" "bu_val q + unat c * ?N = bu_val pn + unat (a ! j) * ?t * ?J"
    using assms(2) cells[THEN conjunct1] cells[THEN conjunct2] unfolding bu_val_def by (metis, metis order_refl take_all)
  show "length (bu_mul_row a b pn j) = length a" using inv(1) by (simp add: bu_mul_row_def q)
  have "bu_val q = (bu_val q + unat c * ?N) mod ?N" using bu_val_bound[of q] inv(1) by simp
  also have "\<dots> = (bu_val pn + unat (a ! j) * (?t * ?J mod ?N)) mod ?N"
    unfolding inv(2) mult.assoc by (metis mod_add_right_eq mod_mult_right_eq)
  also have "?t * ?J mod ?N = bu_val b * ?J mod ?N"
    unfolding pow_width[OF less_imp_le[OF assms(3)]] mod_mult_mult2[symmetric] bu_val_take_mod[symmetric] by simp
  also have "(bu_val pn + unat (a ! j) * (bu_val b * ?J mod ?N)) mod ?N = (bu_val pn + unat (a ! j) * ?J * bu_val b) mod ?N"
    unfolding mult.assoc mult.commute[of ?J "bu_val b"] by (metis mod_add_right_eq mod_mult_right_eq)
  finally show "bu_val (bu_mul_row a b pn j) = (bu_val pn + unat (a ! j) * ?J * bu_val b) mod ?N"
    by (simp add: bu_mul_row_def q)
qed

lemma bu_mul_rows_val:
  assumes "length b = length a" "m \<le> length a"
  shows "length (foldl (bu_mul_row a b) (bu_zero (length a)) [0..<m]) = length a \<and>
    bu_val (foldl (bu_mul_row a b) (bu_zero (length a)) [0..<m]) =
      limbs_val 32 (take m a) * bu_val b mod 2 ^ (32 * length a)"
  using assms(2)
proof (induction m)
  case (Suc m)
  let ?q = "foldl (bu_mul_row a b) (bu_zero (length a)) [0..<m]"
  have IH: "length ?q = length a" "bu_val ?q = limbs_val 32 (take m a) * bu_val b mod 2 ^ (32 * length a)"
    using Suc by simp_all
  have m: "m < length a" using Suc.prems by simp
  show ?case using bu_mul_row_val[OF assms(1) IH(1) m] IH(2)
    by (simp add: limbs_val_take_Suc[OF m] mod_simps add_mult_distrib)
qed simp

lemma bu_mul_val:
  assumes "length b = length a"
  shows "length (bu_mul a b) = length a" "bu_val (bu_mul a b) = bu_val a * bu_val b mod 2 ^ (32 * length a)"
  using bu_mul_rows_val[OF assms, of "length a"] by (simp_all add: bu_mul_def bu_val_def)

section \<open>Comparison and bit length\<close>

lemma limbs_val_take_bound: "limbs_val 32 (take i (a :: u32 list)) < 2 ^ (32 * i)"
  using bu_val_take_mod[of a i] by (metis mod_less_divisor zero_less_numeral zero_less_power)

lemma bu_compare_from_val:
  assumes "length a = length b" "i \<le> length a"
  shows "bu_compare_from i a b =
    (if limbs_val 32 (take i a) < limbs_val 32 (take i b) then - 1
     else if limbs_val 32 (take i a) > limbs_val 32 (take i b) then 1 else 0)"
  using assms(2)
proof (induction i)
  case (Suc i)
  then have i: "i < length a" "i < length b" using assms by simp_all
  note t = limbs_val_take_bound[of i a] limbs_val_take_bound[of i b]
  show ?case using Suc i digit_less_iff[OF t, of "unat (a ! i)" "unat (b ! i)"] digit_less_iff[OF t(2,1), of "unat (b ! i)" "unat (a ! i)"]
    by (simp add: limbs_val_take_Suc word_less_nat_alt)
qed simp

lemma CompareTo_val:
  "length a = length b \<Longrightarrow> CompareTo a b = (if bu_val a < bu_val b then - 1 else if bu_val a > bu_val b then 1 else 0)"
  using bu_compare_from_val[of a b "length a"] by (simp add: CompareTo_def bu_val_def)

lemma bu_is_zero_val: "bu_is_zero a \<longleftrightarrow> bu_val a = 0"
  by (induction a) (simp_all add: word_zero_iff)

lemma bu_val_zero_iff: "bu_val a = 0 \<longleftrightarrow> (\<forall>x \<in> set a. x = 0)"
  by (induction a) (simp_all add: word_zero_iff)

lemma EqualTo_val: "2 \<le> length a \<Longrightarrow> EqualTo a b \<longleftrightarrow> bu_val a = unat b"
proof -
  assume "2 \<le> length a"
  then obtain x y r where a: "a = x # y # r" by (metis Suc_le_length_iff numeral_2_eq_2)
  have xy: "unat x < 2 ^ 32" "unat y < 2 ^ 32" by (rule unat_u32_less)+
  have b: "unat b = unat b mod 2 ^ 32 + unat b div 2 ^ 32 * 2 ^ 32" "unat b mod 2 ^ 32 < 2 ^ 32" by simp_all
  have b2: "unat b div 2 ^ 32 < 2 ^ 32" using unat_lt_exp[of b] by (simp add: div_less_iff_less_mult)
  have "EqualTo a b \<longleftrightarrow> bu_val r = 0 \<and> unat y = unat b div 2 ^ 32 \<and> unat x = unat b mod 2 ^ 32"
    by (simp only: EqualTo_def a bu_val_zero_iff word_unat_eq_iff[of "ucast _"] unat_widen32 and_ffffffff unat_and_mask unat_drop_bit) auto
  also have "\<dots> \<longleftrightarrow> unat x + (unat y + bu_val r * 2 ^ 32) * 2 ^ 32 = unat b mod 2 ^ 32 + (unat b div 2 ^ 32 + 0 * 2 ^ 32) * 2 ^ 32"
    using digit_unique[OF xy(1) b(2), of "unat y + bu_val r * 2 ^ 32" "unat b div 2 ^ 32 + 0 * 2 ^ 32"]
      digit_unique[OF xy(2) b2, of "bu_val r" 0] by fastforce
  finally show ?thesis using b(1) by (simp add: a)
qed

text \<open>\<open>bits()\<close> is the bit length: one more than the position of the highest set bit, and 0 for 0.\<close>

lemma word_top_bit_spec:
  assumes "0 < unat x" "unat x < 2 ^ Suc n"
  shows "2 ^ word_top_bit n x \<le> unat x \<and> unat x < 2 ^ Suc (word_top_bit n x) \<and> word_top_bit n x \<le> n"
  using assms(2)
proof (induction n)
  case 0
  then show ?case using assms(1) by simp
next
  case (Suc n)
  have t: "x AND push_bit (Suc n) 1 \<noteq> 0 \<longleftrightarrow> bit x (Suc n)"
    by (simp only: push_bit_of_1 and_exp_eq_0_iff_not_bit) simp
  show ?case
  proof (cases "bit x (Suc n)")
    case True
    then have "bit (unat x) (Suc n)" by (simp add: bit_unsigned_iff)
    then have "2 ^ Suc n \<le> unat x" by (metis bit_iff_odd div_less even_zero leI)
    then show ?thesis using True t Suc.prems by simp
  next
    case False
    then have "\<not> bit (unat x) (Suc n)" by (simp add: bit_unsigned_iff)
    then have "even (unat x div 2 ^ Suc n)" by (simp add: bit_iff_odd)
    moreover have "unat x div 2 ^ Suc n < 2" using Suc.prems by (simp add: div_less_iff_less_mult)
    ultimately have "unat x div 2 ^ Suc n = 0" using less_2_cases odd_one by (metis One_nat_def)
    then have "unat x < 2 ^ Suc n" by (simp add: div_eq_0_iff)
    then show ?thesis using False t Suc.IH by simp
  qed
qed

lemma bu_bits_from_spec:
  assumes "i \<le> length a"
  shows "limbs_val 32 (take i a) < 2 ^ bu_bits_from i a \<and> bu_bits_from i a \<le> 32 * i \<and>
    (0 < bu_bits_from i a \<longrightarrow> 2 ^ (bu_bits_from i a - 1) \<le> limbs_val 32 (take i a))"
  using assms
proof (induction i)
  case (Suc i)
  then have i: "i < length a" by simp
  note v = limbs_val_take_Suc[OF i, of 32]
  show ?case
  proof (cases "a ! i = 0")
    case True
    then show ?thesis using Suc v by simp
  next
    case False
    let ?t = "word_top_bit 31 (a ! i)" and ?X = "limbs_val 32 (take i a)" and ?J = "2 ^ (32 * i) :: nat"
    have t: "2 ^ ?t \<le> unat (a ! i)" "unat (a ! i) < 2 ^ Suc ?t" "?t \<le> 31"
      using word_top_bit_spec[of "a ! i" 31] unat_u32_less[of "a ! i"] False by (simp_all add: word_zero_iff)
    have "2 ^ (32 * i + ?t) \<le> unat (a ! i) * ?J" using mult_le_mono1[OF t(1), of ?J] by (simp add: power_add mult.commute)
    moreover have "?X + unat (a ! i) * ?J < 2 ^ (32 * i + ?t + 1)"
    proof -
      have "(unat (a ! i) + 1) * ?J \<le> 2 ^ Suc ?t * ?J" using t(2) by (intro mult_le_mono1) simp
      then show ?thesis using limbs_val_take_bound[of i a] by (simp add: power_add mult.commute)
    qed
    ultimately show ?thesis using False t(3) v by simp
  qed
qed simp

lemma bu_bits_spec:
  "bu_val a < 2 ^ bu_bits a" "bu_bits a \<le> 32 * length a" "0 < bu_bits a \<Longrightarrow> 2 ^ (bu_bits a - 1) \<le> bu_val a"
  using bu_bits_from_spec[of "length a" a] by (simp_all add: bu_bits_def bu_val_def)

lemma bu_bits_zero_iff: "bu_bits a = 0 \<longleftrightarrow> bu_val a = 0"
  using bu_bits_spec[of a] by (cases "bu_bits a") (auto simp: not_less_eq)

lemma GetLow64_val:
  assumes "2 \<le> length a"
  shows "unat (GetLow64 a) = bu_val a mod 2 ^ 64"
proof -
  obtain x y r where a: "a = x # y # r" using assms by (metis Suc_le_length_iff numeral_2_eq_2)
  have xy: "unat x < 2 ^ 32" "unat y < 2 ^ 32" by (rule unat_u32_less)+
  have p: "unat (push_bit 32 (ucast y :: u64)) = unat y * 2 ^ 32"
    using xy by (subst unat_push_bit_exact) (simp_all add: unat_widen32)
  have "(ucast x :: u64) AND push_bit 32 (ucast y) = 0"
    by (rule bit_eqI) (auto simp: bit_simps dest: bit_imp_le_length)
  then have "ucast x OR push_bit 32 (ucast y :: u64) = ucast x + push_bit 32 (ucast y)"
    by (simp add: disjunctive_add_eq_or)
  then have "unat (GetLow64 a) = unat x + unat y * 2 ^ 32"
    using xy by (simp add: GetLow64_def a unat_add_exact unat_widen32 p)
  moreover have "bu_val a = (unat x + unat y * 2 ^ 32) + bu_val r * 2 ^ 64" by (simp add: a)
  ultimately show ?thesis using xy by simp
qed

end
