(* ===== verification/BaseUint_Div.thy ===== *)
theory BaseUint_Div
  imports BaseUint_Mul
begin

text \<open>
  Shifts and division of the big integers: shifting multiplies or divides by a power of two, and
  the bit-by-bit long division returns the exact quotient, with an error only for divisor zero.
\<close>

section \<open>Shifts\<close>

lemma bit_bu_val: "bit (bu_val a) p \<longleftrightarrow> p < 32 * length a \<and> bit (a ! (p div 32)) (p mod 32)"
  using bit_limbs_val[of a 32 p] unat_u32_less by (simp add: bu_val_def)

lemma length_bu_shl_steps [simp]: "length (foldl (bu_shl_step a k r) pn is) = length pn"
  by (induction "is" arbitrary: pn) (simp_all add: bu_shl_step_def Let_def)

lemma length_bu_shr_steps [simp]: "length (foldl (bu_shr_step a k r) pn is) = length pn"
  by (induction "is" arbitrary: pn) (simp_all add: bu_shr_step_def Let_def)

lemma length_bu_shift [simp]: "length (bu_shl a s) = length a" "length (bu_shr a s) = length a"
  by (simp_all add: bu_shl_def bu_shr_def)

lemma bu_shl_step_nth:
  assumes "length pn = length a" "j < length a"
  shows "bu_shl_step a k s pn m ! j =
    (if j = m + k then pn ! j OR push_bit s (a ! m)
     else if j = m + k + 1 \<and> s \<noteq> 0 then pn ! j OR drop_bit (32 - s) (a ! m) else pn ! j)"
  using assms by (auto simp: bu_shl_step_def Let_def nth_list_update)

lemma bu_shr_step_nth:
  assumes "length pn = length a" "j < length a"
  shows "bu_shr_step a k s pn m ! j =
    (if m = j + k then pn ! j OR drop_bit s (a ! m)
     else if m = j + k + 1 \<and> s \<noteq> 0 then pn ! j OR push_bit (32 - s) (a ! m) else pn ! j)"
  using assms by (auto simp: bu_shr_step_def Let_def nth_list_update)

lemma bu_shl_steps_nth:
  assumes "j < length a"
  shows "foldl (bu_shl_step a k s) (bu_zero (length a)) [0..<m] ! j =
      (if k \<le> j \<and> j - k < m then push_bit s (a ! (j - k)) else 0) OR
      (if k + 1 \<le> j \<and> j - k - 1 < m \<and> s \<noteq> 0 then drop_bit (32 - s) (a ! (j - k - 1)) else 0)"
proof (induction m)
  case 0
  then show ?case using assms by (simp add: bu_zero_def)
next
  case (Suc m)
  define P where "P = foldl (bu_shl_step a k s) (bu_zero (length a)) [0..<m]"
  have st: "foldl (bu_shl_step a k s) (bu_zero (length a)) [0..<Suc m] = bu_shl_step a k s P m" by (simp add: P_def)
  have P: "length P = length a" by (simp add: P_def)
  note IH = Suc[folded P_def]
  consider (same) "j = m + k" | (succ) "j = m + k + 1" | (other) "j \<noteq> m + k" "j \<noteq> m + k + 1" by blast
  then show ?case
  proof cases
    case other
    then have "k \<le> j \<Longrightarrow> j - k \<noteq> m" "k + 1 \<le> j \<Longrightarrow> j - k - 1 \<noteq> m" by auto
    then show ?thesis using other unfolding st by (auto simp: bu_shl_step_nth[OF P assms] IH less_Suc_eq)
  qed (unfold st bu_shl_step_nth[OF P assms] IH, auto simp: or.commute)
qed

lemma bu_shr_steps_nth:
  assumes "j < length a"
  shows "foldl (bu_shr_step a k s) (bu_zero (length a)) [0..<m] ! j =
      (if j + k < m then drop_bit s (a ! (j + k)) else 0) OR
      (if j + k + 1 < m \<and> s \<noteq> 0 then push_bit (32 - s) (a ! (j + k + 1)) else 0)"
proof (induction m)
  case 0
  then show ?case using assms by (simp add: bu_zero_def)
next
  case (Suc m)
  define P where "P = foldl (bu_shr_step a k s) (bu_zero (length a)) [0..<m]"
  have st: "foldl (bu_shr_step a k s) (bu_zero (length a)) [0..<Suc m] = bu_shr_step a k s P m" by (simp add: P_def)
  have P: "length P = length a" by (simp add: P_def)
  note IH = Suc[folded P_def]
  consider (same) "m = j + k" | (succ) "m = j + k + 1" | (other) "m \<noteq> j + k" "m \<noteq> j + k + 1" by blast
  then show ?case
    by cases (unfold st, simp_all add: bu_shr_step_nth[OF P assms] IH or.commute less_Suc_eq)
qed

lemma bit_u32_shifts:
  fixes x :: u32
  assumes "r < 32"
  shows "bit (push_bit t x) r \<longleftrightarrow> t \<le> r \<and> bit x (r - t)" "bit (drop_bit t x) r \<longleftrightarrow> bit x (r + t)"
  using assms by (simp_all add: bit_push_bit_iff bit_drop_bit_eq add.commute)

lemma shift_index:
  fixes p s B :: nat
  assumes "s \<le> p" "0 < B"
  shows "s div B \<le> p div B"
    "s mod B \<le> p mod B \<Longrightarrow> (p - s) div B = p div B - s div B"
    "s mod B \<le> p mod B \<Longrightarrow> (p - s) mod B = p mod B - s mod B"
    "\<not> s mod B \<le> p mod B \<Longrightarrow> s div B + 1 \<le> p div B"
    "\<not> s mod B \<le> p mod B \<Longrightarrow> (p - s) div B = p div B - s div B - 1"
    "\<not> s mod B \<le> p mod B \<Longrightarrow> (p - s) mod B = B + p mod B - s mod B"
proof -
  show le: "s div B \<le> p div B" using assms(1) by (rule div_le_mono)
  obtain e where e: "p div B = s div B + e" using le le_Suc_ex by blast
  define r k t where d: "r = p mod B" "k = s div B" "t = s mod B"
  have p: "p = r + k * B + e * B" using div_mult_mod_eq[of p B] e by (simp add: d add_mult_distrib)
  have s: "s = t + k * B" by (simp add: d)
  have m: "r < B" "t < B" using assms(2) by (simp_all add: d)
  { assume c: "s mod B \<le> p mod B"
    then have c': "t \<le> r" by (simp add: d)
    have "p - s = (r - t) + e * B" using c' unfolding p s by simp
    moreover have "r - t < B" using m by simp
    ultimately show "(p - s) div B = p div B - s div B" "(p - s) mod B = p mod B - s mod B"
      using e by (simp_all add: digit_eqs d) }
  { assume c: "\<not> s mod B \<le> p mod B"
    then have c': "r < t" by (simp add: d)
    have "e \<noteq> 0" using p s c' assms(1) by (cases e) auto
    then obtain f where f: "e = Suc f" by (cases e) auto
    then show "s div B + 1 \<le> p div B" using e by simp
    have "p - s = (B + r - t) + f * B" using c' m unfolding p s f by simp
    moreover have "B + r - t < B" using c' m by simp
    ultimately show "(p - s) div B = p div B - s div B - 1" "(p - s) mod B = B + p mod B - s mod B"
      using e f by (simp_all add: digit_eqs d) }
qed

lemma bu_shl_bit:
  assumes "p < 32 * length a"
  shows "bit (bu_val (bu_shl a s)) p \<longleftrightarrow> s \<le> p \<and> bit (bu_val a) (p - s)"
proof -
  let ?q = "p div 32" and ?r = "p mod 32" and ?k = "s div 32" and ?t = "s mod 32"
  have q: "?q < length a" using assms by simp
  have "bit (bu_val (bu_shl a s)) p \<longleftrightarrow> bit (bu_shl a s ! ?q) ?r" using assms by (simp add: bit_bu_val)
  also have "\<dots> \<longleftrightarrow> (?k \<le> ?q \<and> ?t \<le> ?r \<and> bit (a ! (?q - ?k)) (?r - ?t)) \<or>
      (?k + 1 \<le> ?q \<and> ?t \<noteq> 0 \<and> bit (a ! (?q - ?k - 1)) (32 - ?t + ?r))"
  proof -
    have "?q - ?k < length a" "?q - ?k - 1 < length a" using q by simp_all
    then show ?thesis
      unfolding bu_shl_def bu_shl_steps_nth[OF q] bit_or_iff by (auto simp: bit_u32_shifts add.commute)
  qed
  also have "\<dots> \<longleftrightarrow> s \<le> p \<and> bit (bu_val a) (p - s)"
  proof (cases "s \<le> p")
    case True
    note si = shift_index[OF True, of 32, simplified]
    have b: "bit (bu_val a) (p - s) \<longleftrightarrow> bit (a ! ((p - s) div 32)) ((p - s) mod 32)" using assms True unfolding bit_bu_val by linarith
    show ?thesis
    proof (cases "?t \<le> ?r")
      case t: True
      then have "\<not> bit (a ! (?q - ?k - 1)) (32 - ?t + ?r)" by (intro notI) (drule bit_imp_le_length, simp)
      then show ?thesis using True t si(1) unfolding b si(2,3)[OF t] by simp
    next
      case t: False
      then have e: "32 - ?t + ?r = 32 + ?r - ?t" "?t \<noteq> 0" by simp_all
      show ?thesis using True t e(2) si(4)[OF t] unfolding b si(5,6)[OF t] e(1) by simp
    qed
  next
    case False
    then have "?q * 32 + ?r < ?k * 32 + ?t" by simp
    then have "\<not> ?k + 1 \<le> ?q" "?k \<le> ?q \<Longrightarrow> ?r < ?t"
      using digit_less_iff[of ?r 32 ?t ?q ?k] by (auto simp: add.commute)
    then show ?thesis using False by auto
  qed
  finally show ?thesis .
qed

lemma bu_shl_val: "bu_val (bu_shl a s) = bu_val a * 2 ^ s mod 2 ^ (32 * length a)"
proof -
  have "bu_val (bu_shl a s) = take_bit (32 * length a) (push_bit s (bu_val a))"
  proof (rule bit_eqI)
    fix p
    show "bit (bu_val (bu_shl a s)) p \<longleftrightarrow> bit (take_bit (32 * length a) (push_bit s (bu_val a))) p"
      using bu_shl_bit[of p a s] bit_bu_val[of "bu_shl a s" p] by (auto simp: bit_take_bit_iff bit_push_bit_iff)
  qed
  then show ?thesis by (simp add: take_bit_eq_mod push_bit_eq_mult)
qed

lemma add_index:
  fixes p s B :: nat
  assumes "0 < B"
  shows "p mod B + s mod B < B \<Longrightarrow> (p + s) div B = p div B + s div B"
    "p mod B + s mod B < B \<Longrightarrow> (p + s) mod B = p mod B + s mod B"
    "\<not> p mod B + s mod B < B \<Longrightarrow> (p + s) div B = p div B + s div B + 1"
    "\<not> p mod B + s mod B < B \<Longrightarrow> (p + s) mod B = p mod B + s mod B - B"
proof -
  define r t q k where d: "r = p mod B" "t = s mod B" "q = p div B" "k = s div B"
  have ps: "p + s = (r + t) + (q + k) * B" by (simp add: d add_mult_distrib)
  have m: "r < B" "t < B" using assms by (simp_all add: d)
  { assume c: "p mod B + s mod B < B"
    then have "r + t < B" by (simp add: d)
    from digit_eqs[OF ps this] show "(p + s) div B = p div B + s div B" "(p + s) mod B = p mod B + s mod B"
      by (simp_all add: d) }
  { assume "\<not> p mod B + s mod B < B"
    then have c: "B \<le> r + t" by (simp add: d)
    have "p + s = (r + t - B) + (q + k + 1) * B" using c unfolding ps by simp
    moreover have "r + t - B < B" using c m by simp
    ultimately have "(p + s) div B = q + k + 1" "(p + s) mod B = r + t - B" by (rule digit_eqs)+
    then show "(p + s) div B = p div B + s div B + 1" "(p + s) mod B = p mod B + s mod B - B"
      by (simp_all add: d) }
qed

lemma bu_shr_bit:
  assumes "p < 32 * length a"
  shows "bit (bu_val (bu_shr a s)) p \<longleftrightarrow> bit (bu_val a) (p + s)"
proof -
  let ?q = "p div 32" and ?r = "p mod 32" and ?k = "s div 32" and ?t = "s mod 32"
  have q: "?q < length a" using assms by simp
  have "bit (bu_val (bu_shr a s)) p \<longleftrightarrow> bit (bu_shr a s ! ?q) ?r" using assms by (simp add: bit_bu_val)
  also have "\<dots> \<longleftrightarrow> (?q + ?k < length a \<and> bit (a ! (?q + ?k)) (?r + ?t)) \<or>
      (?q + ?k + 1 < length a \<and> ?t \<noteq> 0 \<and> 32 - ?t \<le> ?r \<and> bit (a ! (?q + ?k + 1)) (?r - (32 - ?t)))"
    unfolding bu_shr_def bu_shr_steps_nth[OF q] bit_or_iff by (auto simp: bit_u32_shifts)
  also have "\<dots> \<longleftrightarrow> bit (bu_val a) (p + s)"
  proof (cases "?r + ?t < 32")
    case True
    then have "\<not> 32 - ?t \<le> ?r" by linarith
    then show ?thesis using True add_index(1,2)[of 32 p s] by (auto simp: bit_bu_val div_less_iff_less_mult[symmetric] mult.commute)
  next
    case False
    then have "\<not> bit (a ! (?q + ?k)) (?r + ?t)" by (intro notI) (drule bit_imp_le_length, simp)
    moreover have "?t \<noteq> 0" "32 - ?t \<le> ?r" "?r - (32 - ?t) = ?r + ?t - 32" using False by (auto simp: not_less)
    ultimately show ?thesis using add_index(3,4)[of 32 p s] False
      by (auto simp: bit_bu_val div_less_iff_less_mult[symmetric] mult.commute)
  qed
  finally show ?thesis .
qed

lemma bu_shr_val: "bu_val (bu_shr a s) = bu_val a div 2 ^ s"
proof -
  have "bu_val (bu_shr a s) = drop_bit s (bu_val a)"
  proof (rule bit_eqI)
    fix p
    show "bit (bu_val (bu_shr a s)) p \<longleftrightarrow> bit (drop_bit s (bu_val a)) p"
    proof (cases "p < 32 * length a")
      case True
      then show ?thesis by (simp add: bu_shr_bit bit_drop_bit_eq add.commute)
    next
      case False
      then show ?thesis by (simp add: bit_bu_val[of "bu_shr a s"] bit_drop_bit_eq bit_bu_val[of a])
    qed
  qed
  then show ?thesis by (simp add: drop_bit_eq_div)
qed

section \<open>Division\<close>

lemma bu_set_bit_val:
  assumes "p < 32 * length pn" "\<not> bit (bu_val pn) p"
  shows "bu_val (pn[p div 32 := pn ! (p div 32) OR push_bit (p mod 32) 1]) = bu_val pn + 2 ^ p"
proof -
  have i: "p div 32 < length pn" using assms(1) by simp
  have "unat (pn ! (p div 32) OR push_bit (p mod 32) 1) = unat (pn ! (p div 32)) + 2 ^ (p mod 32)"
    using assms by (intro unat_or_bit) (simp_all add: bit_bu_val)
  moreover have "2 ^ (p mod 32) * 2 ^ (32 * (p div 32)) = (2 :: nat) ^ p"
    by (simp flip: power_add)
  ultimately show ?thesis
    using limbs_val_update[OF i, of 32 "pn ! (p div 32) OR push_bit (p mod 32) 1"]
    by (simp add: bu_val_def add_mult_distrib)
qed

lemma bu_div_loop_val:
  assumes "length num = length dv" "length pn = length dv" "m \<le> 32 * length dv" "0 < D"
    "bu_val num < D * 2 ^ m" "0 < m \<longrightarrow> bu_val dv = D * 2 ^ (m - 1)" "2 ^ m dvd bu_val pn"
  shows "length (bu_div_loop m num dv pn) = length dv \<and>
    bu_val (bu_div_loop m num dv pn) = bu_val pn + bu_val num div D"
  using assms
proof (induction m arbitrary: num dv pn)
  case (Suc m)
  have dv: "bu_val dv = D * 2 ^ m" using Suc.prems by simp
  have dv': "0 < m \<longrightarrow> bu_val (bu_shr dv 1) = D * 2 ^ (m - 1)" by (cases m) (simp_all add: bu_shr_val dv)
  have dvd: "2 ^ m dvd bu_val pn" using Suc.prems(7) by (rule power_le_dvd) simp
  show ?case
  proof (cases "bu_val dv \<le> bu_val num")
    case True
    let ?pn = "pn[m div 32 := pn ! (m div 32) OR push_bit (m mod 32) 1]"
    have "\<not> bit (bu_val pn) m"
    proof -
      obtain c where "bu_val pn = 2 ^ Suc m * c" using Suc.prems(7) by (rule dvdE)
      then have "bu_val pn = push_bit (Suc m) c" by (simp add: push_bit_eq_mult)
      then show ?thesis by (simp add: bit_push_bit_iff bit_0)
    qed
    then have pn: "bu_val ?pn = bu_val pn + 2 ^ m" using Suc.prems by (intro bu_set_bit_val) simp_all
    have pd: "2 ^ m dvd bu_val ?pn" unfolding pn using dvd by simp
    have n: "bu_val (bu_sub num dv) = bu_val num - D * 2 ^ m"
      using Suc.prems(1) True by (simp add: bu_sub_exact dv)
    have q: "bu_val num div D = 2 ^ m + (bu_val num - D * 2 ^ m) div D"
    proof -
      have "bu_val num = (bu_val num - D * 2 ^ m) + 2 ^ m * D" using True by (simp add: dv mult.commute)
      then show ?thesis using Suc.prems(4) by (metis add.commute div_mult_self1 less_not_refl)
    qed
    have "length (bu_div_loop m (bu_sub num dv) (bu_shr dv 1) ?pn) = length (bu_shr dv 1) \<and>
        bu_val (bu_div_loop m (bu_sub num dv) (bu_shr dv 1) ?pn) = bu_val ?pn + bu_val (bu_sub num dv) div D"
      by (rule Suc.IH[OF _ _ _ _ _ dv' pd])
        (use Suc.prems True in \<open>simp_all add: bu_sub_val n dv less_diff_conv2\<close>)
    then show ?thesis using True Suc.prems(1) by (simp add: CompareTo_val pn[simplified] n q)
  next
    case False
    have "length (bu_div_loop m num (bu_shr dv 1) pn) = length (bu_shr dv 1) \<and>
        bu_val (bu_div_loop m num (bu_shr dv 1) pn) = bu_val pn + bu_val num div D"
      using Suc.prems dvd False dv' by (intro Suc.IH) (simp_all add: dv)
    then show ?thesis using False Suc.prems(1) by (simp add: CompareTo_val)
  qed
qed simp

lemma bu_div_val:
  assumes "length a = length b"
  shows "bu_val b = 0 \<Longrightarrow> bu_div a b = Inl DivisionByZero"
    "bu_val b \<noteq> 0 \<Longrightarrow> \<exists>q. bu_div a b = Inr q \<and> length q = length a \<and> bu_val q = bu_val a div bu_val b"
proof -
  show "bu_val b = 0 \<Longrightarrow> bu_div a b = Inl DivisionByZero" by (simp add: bu_div_def bu_bits_zero_iff)
  assume nz: "bu_val b \<noteq> 0"
  then have d0: "0 < bu_bits b" using bu_bits_zero_iff[of b] by linarith
  show "\<exists>q. bu_div a b = Inr q \<and> length q = length a \<and> bu_val q = bu_val a div bu_val b"
  proof (cases "bu_bits b > bu_bits a")
    case True
    then have "2 ^ bu_bits a \<le> (2 :: nat) ^ (bu_bits b - 1)" by (intro power_increasing) simp_all
    then have "bu_val a < bu_val b" using bu_bits_spec(1)[of a] bu_bits_spec(3)[OF d0] by linarith
    then show ?thesis using True d0 by (simp add: bu_div_def)
  next
    case False
    let ?s = "bu_bits a - bu_bits b"
    have "bu_val b * 2 ^ ?s < 2 ^ bu_bits b * 2 ^ ?s" using bu_bits_spec(1)[of b] by simp
    also have "\<dots> = 2 ^ bu_bits a" using False by (simp flip: power_add)
    also have "\<dots> \<le> 2 ^ (32 * length b)" using bu_bits_spec(2)[of a] assms by simp
    finally have shl: "bu_val (bu_shl b ?s) = bu_val b * 2 ^ ?s" by (simp add: bu_shl_val)
    have "bu_val a < 2 ^ (bu_bits b - 1) * 2 ^ Suc ?s"
    proof -
      have "bu_bits b - 1 + Suc ?s = bu_bits a" using False d0 by simp
      then show ?thesis using bu_bits_spec(1)[of a] by (metis power_add)
    qed
    also have "\<dots> \<le> bu_val b * 2 ^ Suc ?s" using bu_bits_spec(3)[OF d0] by (rule mult_le_mono1)
    finally have "bu_val a < bu_val b * 2 ^ Suc ?s" .
    then have "length (bu_div_loop (Suc ?s) a (bu_shl b ?s) (bu_zero (length a))) = length (bu_shl b ?s) \<and>
        bu_val (bu_div_loop (Suc ?s) a (bu_shl b ?s) (bu_zero (length a))) = bu_val (bu_zero (length a)) + bu_val a div bu_val b"
      using assms nz d0 bu_bits_spec(2)[of a] False by (intro bu_div_loop_val) (simp_all add: shl)
    then show ?thesis using False d0 assms by (simp add: bu_div_def Let_def del: bu_div_loop.simps)
  qed
qed

section \<open>The operators compute the arithmetic of their width\<close>

text \<open>
  C23.  Addition, subtraction, negation, complement, increment, decrement and both multiplications
  of two integers of the same width compute the corresponding operation on their values modulo
  2 to the width, and keep the width.
\<close>

theorem base_uint_arith_mod:
  assumes "length b = length a"
  shows "bu_val (bu_add a b) = (bu_val a + bu_val b) mod 2 ^ (32 * length a) \<and>
    bu_val (bu_sub a b) = (bu_val a + (2 ^ (32 * length a) - bu_val b)) mod 2 ^ (32 * length a) \<and>
    bu_val (bu_mul a b) = bu_val a * bu_val b mod 2 ^ (32 * length a) \<and>
    bu_val (bu_mul32 a c) = bu_val a * unat c mod 2 ^ (32 * length a) \<and>
    bu_val (bu_neg a) = (2 ^ (32 * length a) - bu_val a) mod 2 ^ (32 * length a) \<and>
    bu_val (bu_compl a) = 2 ^ (32 * length a) - 1 - bu_val a \<and>
    bu_val (bu_inc a) = (bu_val a + 1) mod 2 ^ (32 * length a) \<and>
    bu_val (bu_dec a) = (bu_val a + (2 ^ (32 * length a) - 1)) mod 2 ^ (32 * length a) \<and>
    length (bu_add a b) = length a \<and> length (bu_sub a b) = length a \<and> length (bu_mul a b) = length a"
  using assms bu_add_val[of a b] bu_sub_val[of a b] bu_mul_val[of b a] bu_mul32_val bu_neg_val bu_compl_val
    bu_inc_val bu_dec_val by (intro conjI) (simp_all only:)

theorem base_uint_arith_mod_witness:
  "bu_val (bu_add [0xffffffff, 1] [1, 2]) = (bu_val [0xffffffff, 1] + bu_val [1, 2]) mod 2 ^ (32 * length [0xffffffff, 1 :: u32]) \<and>
   bu_add [0xffffffff, 1] [1, 2] = [0, 4]"
  using base_uint_arith_mod[of "[1, 2]" "[0xffffffff, 1]" 0] by (simp add: bu_add_def Let_def drop_bit_eq_div)

text \<open>
  C24.  Division by a non-zero integer returns the exact quotient at the same width, whatever the
  operands; division by zero is the only error.
\<close>

theorem base_uint_division_exact:
  assumes "length b = length a"
  shows "if bu_val b = 0 then bu_div a b = Inl DivisionByZero
    else \<exists>q. bu_div a b = Inr q \<and> length q = length a \<and> bu_val q = bu_val a div bu_val b"
  using bu_div_val[of a b] assms by simp

theorem base_uint_division_exact_witness:
  "\<exists>q. bu_div [5, 3] [7, 0] = Inr q \<and> length q = length [5, 3 :: u32] \<and> bu_val q = bu_val [5, 3] div bu_val [7, 0]"
  using base_uint_division_exact[of "[7, 0]" "[5, 3]"] by simp

text \<open>
  C20.  The shifts multiply and divide by a power of two (bits that leave the width are lost), the
  comparisons decide the order and equality of the values, and \<open>bits()\<close> is the length of the value
  in binary.
\<close>

theorem base_uint_shift_compare:
  assumes "length b = length a" "2 \<le> length a"
  shows "bu_val (bu_shl a s) = bu_val a * 2 ^ s mod 2 ^ (32 * length a) \<and>
    bu_val (bu_shr a s) = bu_val a div 2 ^ s \<and>
    CompareTo a b = (if bu_val a < bu_val b then - 1 else if bu_val a > bu_val b then 1 else 0) \<and>
    (CompareTo a b = 0 \<longleftrightarrow> a = b) \<and>
    (EqualTo a c \<longleftrightarrow> bu_val a = unat c) \<and>
    (bu_is_zero a \<longleftrightarrow> bu_val a = 0) \<and>
    bu_val a < 2 ^ bu_bits a \<and> (bu_val a \<noteq> 0 \<longrightarrow> 2 ^ (bu_bits a - 1) \<le> bu_val a) \<and>
    unat (GetLow64 a) = bu_val a mod 2 ^ 64"
proof -
  have "CompareTo a b = 0 \<longleftrightarrow> a = b" using assms bu_val_inj[of a b] by (auto simp: CompareTo_val)
  moreover have "bu_val a \<noteq> 0 \<longrightarrow> 2 ^ (bu_bits a - 1) \<le> bu_val a"
    using bu_bits_zero_iff[of a] bu_bits_spec(3)[of a] by auto
  ultimately show ?thesis
    using assms bu_shl_val bu_shr_val CompareTo_val[of a b] EqualTo_val bu_is_zero_val bu_bits_spec(1) GetLow64_val
    by (intro conjI) (simp_all only:)
qed

theorem base_uint_shift_compare_witness:
  "bu_val (bu_shl [1, 0] 33) = bu_val [1, 0] * 2 ^ 33 mod 2 ^ (32 * length [1, 0 :: u32]) \<and> CompareTo [1, 0] [0, 1] = - 1"
  using base_uint_shift_compare[of "[0, 1]" "[1, 0]" 33 0] by simp

end
