(* ===== verification/Uint256.thy ===== *)
theory Uint256
  imports BaseUint_Div
begin

text \<open>
  The 256-bit integers of \<^verbatim>\<open>sige/src/uint256.h\<close> and their compact 32-bit encoding
  (\<^verbatim>\<open>sige/src/uint256.cpp\<close>): the floating-point like format in which block headers carry the
  proof-of-work target.  A \<open>uint256\<close> is a \<open>base_uint\<close> of eight words; \<open>arith_uint256\<close> is the same
  type and the conversions between the two are the identity.
\<close>

type_synonym uint256 = base_uint

definition uint256_ok :: "uint256 \<Rightarrow> bool" where
  "uint256_ok x \<longleftrightarrow> length x = 8"

definition uint256_of_u64 :: "u64 \<Rightarrow> uint256" where
  "uint256_of_u64 b = bu_of_u64 8 b"

definition UintToArith256 :: "uint256 \<Rightarrow> uint256" where
  "UintToArith256 u = u"

text \<open>The result is the new value with the two flags written through \<open>pfNegative\<close> and \<open>pfOverflow\<close>.\<close>

definition SetCompact :: "u32 \<Rightarrow> uint256 \<times> bool \<times> bool" where
  "SetCompact nCompact =
    (let nSize = unat (drop_bit 24 nCompact);
         nWord0 = nCompact AND 0x007fffff;
         nWord = (if nSize \<le> 3 then drop_bit (8 * (3 - nSize)) nWord0 else nWord0);
         this = (if nSize \<le> 3 then uint256_of_u64 (ucast nWord)
                 else bu_shl (uint256_of_u64 (ucast nWord)) (8 * (nSize - 3)));
         fNegative = (nWord \<noteq> 0 \<and> nCompact AND 0x00800000 \<noteq> 0);
         fOverflow = (nWord \<noteq> 0 \<and> (nSize > 34 \<or> (nWord > 0xff \<and> nSize > 33) \<or> (nWord > 0xffff \<and> nSize > 32)))
     in (this, fNegative, fOverflow))"

text \<open>\<open>None\<close> is a failed assertion.\<close>

definition GetCompact :: "uint256 \<Rightarrow> bool \<Rightarrow> u32 option" where
  "GetCompact x fNegative =
    (let nSize0 = (bu_bits x + 7) div 8;
         nCompact0 = (if nSize0 \<le> 3 then ucast (push_bit (8 * (3 - nSize0)) (GetLow64 x))
                      else ucast (GetLow64 (bu_shr x (8 * (nSize0 - 3)))) :: u32);
         sgn = (nCompact0 AND 0x00800000 \<noteq> 0);
         nCompact1 = (if sgn then drop_bit 8 nCompact0 else nCompact0);
         nSize = (if sgn then nSize0 + 1 else nSize0)
     in if nCompact1 AND NOT 0x007fffff \<noteq> 0 then None
        else if \<not> nSize < 256 then None
        else let nCompact2 = nCompact1 OR push_bit 24 (of_nat nSize)
             in Some (nCompact2 OR (if fNegative \<and> nCompact2 AND 0x007fffff \<noteq> 0 then 0x00800000 else 0)))"

section \<open>Decoding\<close>

text \<open>The fields of a compact word: exponent, sign bit and mantissa.\<close>

definition compact_exp :: "u32 \<Rightarrow> nat" where
  "compact_exp c = unat c div 2 ^ 24"

definition compact_mant :: "u32 \<Rightarrow> nat" where
  "compact_mant c = unat c mod 2 ^ 23"

lemma and_7fffff: "(c :: u32) AND 0x007fffff = c AND mask 23"
  by (simp add: mask_eq_exp_minus_1)

lemma SetCompact_fields:
  "unat (drop_bit 24 c) = compact_exp c" "unat (c AND 0x007fffff) = compact_mant c"
  by (simp_all only: and_7fffff unat_drop_bit unat_and_mask compact_exp_def compact_mant_def)

lemma compact_mant_less: "compact_mant c < 2 ^ 23"
  by (simp add: compact_mant_def)

lemma compact_exp_less: "compact_exp c < 256"
  using unat_lt_exp[of c] by (simp add: compact_exp_def div_less_iff_less_mult)

text \<open>The number a compact word stands for, before it is cut to 256 bits.\<close>

definition compact_number :: "u32 \<Rightarrow> nat" where
  "compact_number c =
    (if compact_exp c \<le> 3 then compact_mant c div 256 ^ (3 - compact_exp c)
     else compact_mant c * 256 ^ (compact_exp c - 3))"

lemma pow_8: "(2 :: nat) ^ (8 * k) = 256 ^ k"
  by (simp add: power_mult)

lemma SetCompact_val:
  "bu_val (fst (SetCompact c)) = compact_number c mod 2 ^ 256" "length (fst (SetCompact c)) = 8"
proof -
  have m: "compact_mant c div n < 2 ^ 256" for n
  proof -
    have "compact_mant c div n \<le> compact_mant c" by (rule div_le_dividend)
    also have "\<dots> < 2 ^ 23" by (rule compact_mant_less)
    also have "\<dots> \<le> (2 :: nat) ^ 256" by (rule power_increasing) simp_all
    finally show ?thesis .
  qed
  have w: "unat (ucast (c AND 0x007fffff) :: u64) = compact_mant c"
    "unat (ucast (drop_bit n (c AND 0x007fffff)) :: u64) = compact_mant c div 2 ^ n" for n
    by (simp_all only: unat_widen32 unat_drop_bit SetCompact_fields)
  show "bu_val (fst (SetCompact c)) = compact_number c mod 2 ^ 256"
    using m[of "256 ^ (3 - compact_exp c)"]
    unfolding SetCompact_def Let_def SetCompact_fields compact_number_def
    by (simp add: bu_shl_val bu_of_u64_val uint256_of_u64_def w[simplified] pow_8)
  show "length (fst (SetCompact c)) = 8"
    by (simp add: SetCompact_def Let_def uint256_of_u64_def bu_of_u64_val)
qed

lemma less_256_pow:
  fixes m j k :: nat
  assumes "m < 256 ^ j" "j + k \<le> n"
  shows "m * 256 ^ k < 256 ^ n"
proof -
  have "m * 256 ^ k < 256 ^ j * 256 ^ k" using assms(1) by simp
  also have "\<dots> = 256 ^ (j + k)" by (simp add: power_add)
  also have "\<dots> \<le> (256 :: nat) ^ n" using assms(2) by (intro power_increasing) simp_all
  finally show ?thesis .
qed

lemma ge_256_pow:
  fixes m j k :: nat
  assumes "256 ^ j \<le> m" "n \<le> j + k"
  shows "256 ^ n \<le> m * 256 ^ k"
proof -
  have "(256 :: nat) ^ n \<le> 256 ^ (j + k)" using assms(2) by (intro power_increasing) simp_all
  also have "\<dots> = 256 ^ j * 256 ^ k" by (simp add: power_add)
  also have "\<dots> \<le> m * 256 ^ k" using assms(1) by (rule mult_le_mono1)
  finally show ?thesis .
qed

lemma SetCompact_overflow: "snd (snd (SetCompact c)) \<longleftrightarrow> 2 ^ 256 \<le> compact_number c"
proof -
  let ?e = "compact_exp c" and ?m = "compact_mant c"
  have P: "(2 :: nat) ^ 256 = 256 ^ 32" by simp
  have flag: "snd (snd (SetCompact c)) \<longleftrightarrow>
      ?e > 3 \<and> ?m \<noteq> 0 \<and> (?e > 34 \<or> (?m > 0xff \<and> ?e > 33) \<or> (?m > 0xffff \<and> ?e > 32))"
    unfolding SetCompact_def Let_def SetCompact_fields
    by (auto simp: word_less_nat_alt SetCompact_fields word_zero_iff)
  show ?thesis
  proof (cases "?e \<le> 3")
    case True
    have "compact_number c \<le> ?m" using True by (simp add: compact_number_def)
    also have "\<dots> < 2 ^ 23" by (rule compact_mant_less)
    also have "\<dots> \<le> (2 :: nat) ^ 256" by (rule power_increasing) simp_all
    finally show ?thesis using True by (simp add: flag del: power_numeral)
  next
    case False
    then have n: "compact_number c = ?m * 256 ^ (?e - 3)" by (simp add: compact_number_def)
    consider (big) "?m > 0xffff" | (mid) "?m > 0xff" "?m \<le> 0xffff" | (small) "?m \<le> 0xff" "?m \<noteq> 0" | (zero) "?m = 0" by linarith
    then show ?thesis
    proof cases
      case big
      then show ?thesis using less_256_pow[of ?m 3 "?e - 3" 32] ge_256_pow[of 2 ?m 32 "?e - 3"] compact_mant_less[of c] False
        unfolding flag n P by (cases "?e > 32") auto
    next
      case mid
      have "?m * 256 ^ (?e - 3) < 256 ^ 32" if "\<not> ?e > 33" using less_256_pow[of ?m 2 "?e - 3" 32] mid that by simp
      then show ?thesis using ge_256_pow[of 1 ?m 32 "?e - 3"] mid False
        unfolding flag n P by (cases "?e > 33") auto
    next
      case small
      have "?m * 256 ^ (?e - 3) < 256 ^ 32" if "\<not> ?e > 34" using less_256_pow[of ?m 1 "?e - 3" 32] small that by simp
      then show ?thesis using ge_256_pow[of 0 ?m 32 "?e - 3"] small False
        unfolding flag n P by (cases "?e > 34") auto
    next
      case zero
      then show ?thesis unfolding flag n by simp
    qed
  qed
qed

section \<open>Encoding\<close>

text \<open>The byte length of a number: \<open>256^(n-1) <= v < 256^n\<close>.\<close>

lemma byte_length:
  assumes "nSize = (bu_bits x + 7) div 8"
  shows "bu_val x < 256 ^ nSize" "0 < bu_val x \<Longrightarrow> 0 < nSize \<and> 256 ^ (nSize - 1) \<le> bu_val x"
    "length x = 8 \<Longrightarrow> nSize \<le> 32"
proof -
  have b: "bu_bits x \<le> 8 * nSize" "8 * (nSize - 1) \<le> bu_bits x - 1" unfolding assms by linarith+
  have "bu_val x < 2 ^ bu_bits x" by (rule bu_bits_spec)
  also have "\<dots> \<le> 2 ^ (8 * nSize)" using b(1) by (intro power_increasing) simp_all
  finally show "bu_val x < 256 ^ nSize" by (simp add: pow_8)
  show "length x = 8 \<Longrightarrow> nSize \<le> 32" using bu_bits_spec(2)[of x] by (simp add: assms)
  assume "0 < bu_val x"
  then have pos: "0 < bu_bits x" using bu_bits_zero_iff[of x] by linarith
  have "(256 :: nat) ^ (nSize - 1) \<le> 2 ^ (bu_bits x - 1)" unfolding pow_8[symmetric] using b(2) by (intro power_increasing) simp_all
  also have "\<dots> \<le> bu_val x" using bu_bits_spec(3)[OF pos] .
  finally show "0 < nSize \<and> 256 ^ (nSize - 1) \<le> bu_val x" using pos by (simp add: assms)
qed

text \<open>The encoder on numbers: three leading bytes, one fewer when their top bit is set.\<close>

definition enc_size0 :: "nat \<Rightarrow> nat \<Rightarrow> nat" where
  "enc_size0 n v = (if n \<le> 3 then v * 256 ^ (3 - n) else v div 256 ^ (n - 3))"

lemma enc_size0_bound:
  assumes "v < 256 ^ n"
  shows "enc_size0 n v < 2 ^ 24"
proof (cases "n \<le> 3")
  case True
  then show ?thesis using less_256_pow[OF assms, of "3 - n" 3] by (simp add: enc_size0_def)
next
  case False
  then have "256 ^ n = 256 ^ 3 * (256 :: nat) ^ (n - 3)" using power_add[of "256 :: nat" 3 "n - 3"] by simp
  then show ?thesis using assms False by (simp add: enc_size0_def div_less_iff_less_mult)
qed

lemma enc_size0_lower:
  assumes "0 < n" "256 ^ (n - 1) \<le> v"
  shows "2 ^ 16 \<le> enc_size0 n v"
proof (cases "n \<le> 3")
  case True
  then show ?thesis using ge_256_pow[OF assms(2), of 2 "3 - n"] assms(1) by (simp add: enc_size0_def)
next
  case False
  then have "256 ^ (n - 1) = 256 ^ 2 * (256 :: nat) ^ (n - 3)" 
  proof -
    have "n - 1 = 2 + (n - 3)" using False by simp
    then show ?thesis by (simp only: power_add)
  qed
  then show ?thesis using assms False by (simp add: enc_size0_def div_le_mono less_eq_div_iff_mult_less_eq)
qed

lemma sign_bit: "(w :: u32) AND 0x00800000 \<noteq> 0 \<longleftrightarrow> odd (unat w div 2 ^ 23)"
proof -
  have "w AND 0x00800000 \<noteq> 0 \<longleftrightarrow> bit w 23" using and_exp_eq_0_iff_not_bit[of w 23] by simp
  then show ?thesis using bit_iff_odd[of "unat w" 23] by (simp add: bit_unsigned_iff)
qed

lemma bit23: "unat (w :: u32) < 2 ^ 24 \<Longrightarrow> w AND 0x00800000 \<noteq> 0 \<longleftrightarrow> 2 ^ 23 \<le> unat w"
proof -
  assume "unat w < 2 ^ 24"
  then have "unat w div 2 ^ 23 < 2" by (simp add: div_less_iff_less_mult)
  then have "unat w div 2 ^ 23 = 0 \<or> unat w div 2 ^ 23 = 1" by linarith
  then show ?thesis unfolding sign_bit by (auto simp: div_eq_0_iff)
qed

lemma above_mant: "unat (w :: u32) < 2 ^ 23 \<Longrightarrow> w AND NOT 0x007fffff = 0"
proof -
  assume w: "unat w < 2 ^ 23"
  have "w AND NOT (mask 23) = 0"
    by (rule bit_eqI) (auto simp: bit_and_iff bit_not_iff bit_mask_iff dest: bit_unat_less[OF w])
  moreover have "(0x007fffff :: u32) = mask 23" by (simp add: mask_eq_exp_minus_1)
  ultimately show ?thesis by (simp only:)
qed

text \<open>The mantissa and exponent that \<open>GetCompact\<close> writes.\<close>

definition enc_mant :: "nat \<Rightarrow> nat \<Rightarrow> nat" where
  "enc_mant n v = (if 2 ^ 23 \<le> enc_size0 n v then enc_size0 n v div 256 else enc_size0 n v)"

definition enc_exp :: "nat \<Rightarrow> nat \<Rightarrow> nat" where
  "enc_exp n v = (if 2 ^ 23 \<le> enc_size0 n v then n + 1 else n)"

lemma enc_mant_less: "v < 256 ^ n \<Longrightarrow> enc_mant n v < 2 ^ 23"
  using enc_size0_bound[of v n] by (auto simp: enc_mant_def)

lemma unat_nCompact0:
  assumes "length x = 8" "n = (bu_bits x + 7) div 8"
  shows "unat (if n \<le> 3 then ucast (push_bit (8 * (3 - n)) (GetLow64 x)) else ucast (GetLow64 (bu_shr x (8 * (n - 3)))) :: u32)
    = enc_size0 n (bu_val x)"
proof -
  note b = byte_length(1)[OF assms(2)]
  have c: "enc_size0 n (bu_val x) < 2 ^ 24" by (rule enc_size0_bound[OF b])
  have c32: "enc_size0 n (bu_val x) mod 2 ^ 64 = enc_size0 n (bu_val x)" "enc_size0 n (bu_val x) mod 2 ^ 32 = enc_size0 n (bu_val x)"
    using c by simp_all
  show ?thesis
  proof (cases "n \<le> 3")
    case True
    have "256 ^ n \<le> (256 :: nat) ^ 3" using True by (intro power_increasing) simp_all
    then have "bu_val x mod 2 ^ 64 = bu_val x" using b by simp
    then have "unat (push_bit (8 * (3 - n)) (GetLow64 x)) = enc_size0 n (bu_val x) mod 2 ^ 64"
      using True assms(1) by (simp only: unat_push_bit GetLow64_val pow_8 enc_size0_def) simp
    then show ?thesis using True by (simp only: if_True unat_ucast_mod c32) (simp add: c32[simplified])
  next
    case False
    have "unat (GetLow64 (bu_shr x (8 * (n - 3)))) = enc_size0 n (bu_val x) mod 2 ^ 64"
      using False assms(1) by (simp add: GetLow64_val bu_shr_val pow_8 enc_size0_def)
    then show ?thesis using False by (simp only: if_False unat_ucast_mod c32) (simp add: c32[simplified])
  qed
qed

lemma or_exp_field:
  fixes w :: u32
  assumes "unat w < 2 ^ 24" "n < 256"
  shows "unat (w OR push_bit 24 (of_nat n)) = unat w + n * 2 ^ 24"
proof -
  have e: "unat (push_bit 24 (of_nat n :: u32)) = n * 2 ^ 24"
    using assms(2) unfolding unat_push_bit by (simp add: unat_of_nat)
  have "w AND push_bit 24 (of_nat n) = 0"
    by (rule bit_eqI) (auto simp: bit_and_iff bit_push_bit_iff dest: bit_unat_less[OF assms(1)])
  then have "w OR push_bit 24 (of_nat n) = w + push_bit 24 (of_nat n)" by (simp add: disjunctive_add_eq_or)
  then show ?thesis using assms by (simp add: unat_add_exact e)
qed

lemma GetCompact_fields:
  assumes "length x = 8" "n = (bu_bits x + 7) div 8"
  shows "\<exists>c. GetCompact x False = Some c \<and> compact_mant c = enc_mant n (bu_val x) \<and>
    compact_exp c = enc_exp n (bu_val x) \<and> c AND 0x00800000 = 0"
proof -
  let ?v = "bu_val x"
  define w where "w = (if n \<le> 3 then ucast (push_bit (8 * (3 - n)) (GetLow64 x)) else ucast (GetLow64 (bu_shr x (8 * (n - 3)))) :: u32)"
  have w: "unat w = enc_size0 n ?v" unfolding w_def by (rule unat_nCompact0[OF assms])
  note b = byte_length(1)[OF assms(2)] byte_length(3)[OF assms(2,1)]
  have w24: "unat w < 2 ^ 24" unfolding w by (rule enc_size0_bound[OF b(1)])
  note sgn = bit23[OF w24]
  define w1 where "w1 = (if w AND 0x00800000 \<noteq> 0 then drop_bit 8 w else w)"
  have w1: "unat w1 = enc_mant n ?v" unfolding w1_def enc_mant_def sgn w[symmetric] by (simp add: unat_drop_bit)
  have w1_less: "unat w1 < 2 ^ 23" unfolding w1 by (rule enc_mant_less[OF b(1)])
  define n1 where "n1 = (if w AND 0x00800000 \<noteq> 0 then n + 1 else n)"
  have n1: "n1 = enc_exp n ?v" unfolding n1_def enc_exp_def sgn w[symmetric] by simp
  have n1_less: "n1 < 256" using b(2) by (simp add: n1_def)
  let ?c = "w1 OR push_bit 24 (of_nat n1)"
  have c: "unat ?c = unat w1 + n1 * 2 ^ 24" using w1_less n1_less by (intro or_exp_field) simp_all
  have "GetCompact x False = Some ?c"
    using above_mant[OF w1_less] n1_less
    unfolding GetCompact_def Let_def assms(2)[symmetric] w_def[symmetric] w1_def[symmetric] n1_def[symmetric] by simp
  moreover have c': "unat ?c = unat w1 + (2 * n1) * 2 ^ 23" using c by simp
  then have "compact_mant ?c = unat w1" "\<not> ?c AND 0x00800000 \<noteq> 0"
    using digit_eqs[OF c' w1_less] unfolding compact_mant_def sign_bit by simp_all
  moreover have "compact_exp ?c = n1" using digit_eqs(1)[OF c] w1_less by (simp add: compact_exp_def)
  ultimately show ?thesis using w1 n1 by auto
qed

lemma div_div_256: "v div 256 ^ k div 256 = (v :: nat) div 256 ^ Suc k"
  by (simp add: div_mult2_eq mult.commute flip: div_mult2_eq)

lemma enc_decode:
  "(if enc_exp n v \<le> 3 then enc_mant n v div 256 ^ (3 - enc_exp n v) else enc_mant n v * 256 ^ (enc_exp n v - 3))
    = v div 256 ^ (enc_exp n v - 3) * 256 ^ (enc_exp n v - 3)"
proof (cases "2 ^ 23 \<le> enc_size0 n v")
  case False
  then have "enc_exp n v = n" "enc_mant n v = enc_size0 n v" by (simp_all add: enc_exp_def enc_mant_def)
  then show ?thesis by (simp add: enc_size0_def)
next
  case True
  consider (a) "n \<le> 2" | (b) "n = 3" | (c) "n > 3" by linarith
  then show ?thesis
  proof cases
    case a
    then have "3 - n = Suc (2 - n)" by simp
    then have "v * 256 ^ (3 - n) div 256 = v * 256 ^ (2 - n)" by simp
    then show ?thesis using True a by (simp add: enc_exp_def enc_mant_def enc_size0_def)
  next
    case b
    then show ?thesis using True by (simp add: enc_exp_def enc_mant_def enc_size0_def)
  next
    case c
    then obtain j where j: "n = 4 + j" using le_Suc_ex[of 4 n] by auto
    then have i: "n - 3 = Suc j" "Suc n - 3 = Suc (Suc j)" by simp_all
    have "enc_exp n v = Suc n" "enc_mant n v = v div 256 ^ Suc (Suc j)"
      using True c by (simp add: enc_exp_def) (use True c in \<open>simp only: enc_mant_def enc_size0_def i div_div_256 if_True if_False not_le[symmetric]\<close>)
    then show ?thesis using c by (simp only: i) simp
  qed
qed

lemma SetCompact_GetCompact:
  assumes "length x = 8" "GetCompact x False = Some c" "n = (bu_bits x + 7) div 8"
  shows "compact_exp c = enc_exp n (bu_val x)" "compact_mant c = enc_mant n (bu_val x)" "c AND 0x00800000 = 0"
    "compact_number c = bu_val x div 256 ^ (compact_exp c - 3) * 256 ^ (compact_exp c - 3)"
    "bu_val (fst (SetCompact c)) = compact_number c" "snd (SetCompact c) = (False, False)"
proof -
  show f: "compact_exp c = enc_exp n (bu_val x)" "compact_mant c = enc_mant n (bu_val x)" and s: "c AND 0x00800000 = 0"
    using GetCompact_fields[OF assms(1,3)] assms(2) by auto
  show num: "compact_number c = bu_val x div 256 ^ (compact_exp c - 3) * 256 ^ (compact_exp c - 3)"
    unfolding compact_number_def f by (rule enc_decode)
  have "compact_number c \<le> bu_val x" unfolding num by simp
  then have less: "compact_number c < 2 ^ 256" using bu_val_bound[of x] assms(1) by simp
  then show "bu_val (fst (SetCompact c)) = compact_number c" by (simp only: SetCompact_val) simp
  have "\<not> snd (snd (SetCompact c))" using less SetCompact_overflow[of c] by linarith
  moreover have "\<not> fst (snd (SetCompact c))" using s by (simp add: SetCompact_def Let_def)
  ultimately show "snd (SetCompact c) = (False, False)" by (simp add: prod_eq_iff)
qed

lemma enc_mant_lower:
  assumes "0 < n" "256 ^ (n - 1) \<le> v"
  shows "2 ^ 15 \<le> enc_mant n v"
  using enc_size0_lower[OF assms] by (auto simp: enc_mant_def)

text \<open>The part the encoding drops is at most the value over \<open>2^15\<close>.\<close>

lemma compact_loss:
  assumes "length x = 8" "GetCompact x False = Some c"
  shows "compact_number c \<le> bu_val x" "(bu_val x - compact_number c) * 2 ^ 15 \<le> bu_val x"
proof -
  obtain n where n: "n = (bu_bits x + 7) div 8" by blast
  let ?k = "compact_exp c - 3"
  note r = SetCompact_GetCompact[OF assms n]
  show le: "compact_number c \<le> bu_val x" unfolding r(4) by simp
  show "(bu_val x - compact_number c) * 2 ^ 15 \<le> bu_val x"
  proof (cases "?k = 0 \<or> bu_val x = 0")
    case True
    then show ?thesis using r(4) by auto
  next
    case False
    have "bu_val x - compact_number c = bu_val x mod 256 ^ ?k" unfolding r(4) by (simp add: minus_div_mult_eq_mod)
    also have "\<dots> \<le> 256 ^ ?k" by (simp add: less_imp_le)
    finally have "(bu_val x - compact_number c) * 2 ^ 15 \<le> 256 ^ ?k * 2 ^ 15" by (rule mult_le_mono1)
    also have "\<dots> \<le> compact_mant c * 256 ^ ?k"
      using enc_mant_lower[of n "bu_val x"] byte_length(2)[OF n] False unfolding r(2) by (simp add: mult.commute)
    also have "\<dots> = compact_number c" using False by (simp add: compact_number_def)
    finally show ?thesis using le by linarith
  qed
qed

text \<open>Encoding the decoded value again gives the same word: the truncated value has the same leading bytes.\<close>

lemma byte_length_unique:
  fixes v :: nat
  assumes "0 < n" "256 ^ (n - 1) \<le> v" "v < 256 ^ n" "0 < m" "256 ^ (m - 1) \<le> v" "v < 256 ^ m"
  shows "n = m"
proof -
  have "(256 :: nat) ^ (n - 1) < 256 ^ m" "(256 :: nat) ^ (m - 1) < 256 ^ n" using assms by linarith+
  then have "n - 1 < m" "m - 1 < n" by (simp_all add: power_less_imp_less_exp)
  then show ?thesis using assms(1,4) by linarith
qed

lemma enc_size0_trunc:
  assumes "0 < n" "k = enc_exp n v - 3"
  shows "enc_size0 n (v div 256 ^ k * 256 ^ k) = (if 2 ^ 23 \<le> enc_size0 n v then enc_size0 n v div 256 * 256 else enc_size0 n v)"
proof (cases "2 ^ 23 \<le> enc_size0 n v")
  case False
  then show ?thesis using assms(2) by (cases "n \<le> 3") (simp_all add: enc_exp_def, simp_all add: enc_size0_def)
next
  case True
  then have k: "k = Suc n - 3" using assms(2) by (simp add: enc_exp_def)
  consider (a) "n \<le> 2" | (b) "n = 3" | (c) "n > 3" by linarith
  then show ?thesis
  proof cases
    case a
    then have "3 - n = Suc (2 - n)" by simp
    then show ?thesis using True a k by (simp add: enc_size0_def)
  next
    case b
    then show ?thesis using True k by (simp add: enc_size0_def)
  next
    case c
    then obtain j where j: "n = 4 + j" using le_Suc_ex[of 4 n] by auto
    then have i: "n - 3 = Suc j" "Suc n - 3 = Suc (Suc j)" by simp_all
    have "v div 256 ^ Suc (Suc j) * 256 ^ Suc (Suc j) div 256 ^ Suc j = v div 256 ^ Suc j div 256 * 256"
      unfolding div_div_256 power_Suc[of _ "Suc j"] by simp
    then show ?thesis using True c unfolding k i by (simp only: enc_size0_def i) simp
  qed
qed

lemma compact_word_eq:
  assumes "c AND 0x00800000 = 0"
  shows "unat c = compact_mant c + compact_exp c * 2 ^ 24"
proof -
  have ev: "even (unat c div 2 ^ 23)" using assms sign_bit[of c] by simp
  have "unat c div 2 ^ 23 = 2 * (unat c div 2 ^ 23 div 2)" using ev by simp
  also have "unat c div 2 ^ 23 div 2 = unat c div 2 ^ 24" by (simp flip: div_mult2_eq)
  finally have "unat c = unat c mod 2 ^ 23 + (2 * (unat c div 2 ^ 24)) * 2 ^ 23" by (metis mod_div_mult_eq)
  then show ?thesis by (simp add: compact_mant_def compact_exp_def)
qed

lemma GetCompact_total: "length x = 8 \<Longrightarrow> \<exists>c. GetCompact x False = Some c"
  using GetCompact_fields[of x] by blast

lemma GetCompact_SetCompact:
  assumes "length x = 8" "GetCompact x False = Some c"
  shows "GetCompact (fst (SetCompact c)) False = Some c"
proof -
  obtain n where n: "n = (bu_bits x + 7) div 8" by blast
  let ?y = "fst (SetCompact c)"
  obtain m where m: "m = (bu_bits ?y + 7) div 8" by blast
  obtain d where d: "GetCompact ?y False = Some d" using GetCompact_total[OF SetCompact_val(2)] by blast
  note r = SetCompact_GetCompact[OF assms n] and q = SetCompact_GetCompact[OF SetCompact_val(2) d m]
  let ?v = "bu_val x" and ?k = "enc_exp n (bu_val x) - 3"
  have y: "bu_val ?y = ?v div 256 ^ ?k * 256 ^ ?k" using r(4,5) by (simp add: r(1))
  have "enc_exp m (bu_val ?y) = enc_exp n ?v \<and> enc_mant m (bu_val ?y) = enc_mant n ?v"
  proof (cases "?v = 0")
    case True
    then show ?thesis using y by (simp add: enc_exp_def enc_mant_def) (simp add: enc_size0_def n m bu_bits_zero_iff[THEN iffD2])
  next
    case False
    then have v: "0 < n" "256 ^ (n - 1) \<le> ?v" "?v < 256 ^ n" using byte_length(1,2)[OF n] by simp_all
    have "?k \<le> n - 1" using v(1) unfolding enc_exp_def by auto
    then have "256 ^ (n - 1) = 256 ^ (n - 1 - ?k) * (256 :: nat) ^ ?k" by (simp flip: power_add)
    then have lower: "256 ^ (n - 1) \<le> bu_val ?y"
      using v(2) unfolding y by (metis div_le_mono div_mult_self_is_m mult_le_mono1 zero_less_numeral zero_less_power)
    moreover have "bu_val ?y < 256 ^ n" using v(3) unfolding y by (meson div_times_less_eq_dividend le_less_trans)
    moreover have "0 < bu_val ?y" using lower by (meson less_le_trans zero_less_numeral zero_less_power)
    ultimately have nm: "m = n" using byte_length_unique[of m "bu_val ?y" n] byte_length(1,2)[OF m] v(1) by blast
    have "enc_size0 n (bu_val ?y) = (if 2 ^ 23 \<le> enc_size0 n ?v then enc_size0 n ?v div 256 * 256 else enc_size0 n ?v)"
      unfolding y by (rule enc_size0_trunc[OF v(1) refl])
    then show ?thesis unfolding nm by (auto simp: enc_exp_def enc_mant_def)
  qed
  then have "unat d = unat c" by (simp only: compact_word_eq[OF r(3)] compact_word_eq[OF q(3)] q(1,2) r(1,2))
  then show ?thesis using d by (simp add: word_unat_eq_iff)
qed

section \<open>The compact encoding\<close>

text \<open>The word from its fields, for a number of known length.\<close>

lemma GetCompact_eval:
  assumes "length x = 8" "0 < n" "256 ^ (n - 1) \<le> bu_val x" "bu_val x < 256 ^ n"
  shows "GetCompact x False = Some (of_nat (enc_mant n (bu_val x) + enc_exp n (bu_val x) * 2 ^ 24))"
proof -
  define m where "m = (bu_bits x + 7) div 8"
  obtain c where c: "GetCompact x False = Some c" "compact_mant c = enc_mant m (bu_val x)" "compact_exp c = enc_exp m (bu_val x)" "c AND 0x00800000 = 0"
    using GetCompact_fields[OF assms(1) m_def] by blast
  have "0 < bu_val x" using assms(3) by (meson less_le_trans zero_less_numeral zero_less_power)
  then have "m = n" using byte_length(1,2)[OF m_def] byte_length_unique[OF _ _ _ assms(2-4), of m] by auto
  moreover have "of_nat (unat c) = c" by simp
  ultimately show ?thesis using compact_word_eq[OF c(4)] c(1-3) by metis
qed

text \<open>
  C25.  \<open>SetCompact\<close> writes the number the exponent and mantissa of the word stand for, cut to 256 bits,
  reports overflow exactly when something was cut off, and reports a negative number exactly when
  the sign bit is set and the number, after the shift by the exponent, is not zero.
\<close>

theorem SetCompact_correct:
  "bu_val (fst (SetCompact c)) = compact_number c mod 2 ^ 256 \<and>
   (snd (snd (SetCompact c)) \<longleftrightarrow> 2 ^ 256 \<le> compact_number c) \<and>
   (fst (snd (SetCompact c)) \<longleftrightarrow> compact_number c \<noteq> 0 \<and> odd (unat c div 2 ^ 23))"
proof (intro conjI SetCompact_val(1) SetCompact_overflow)
  have n: "drop_bit k (c AND 0x007fffff) \<noteq> 0 \<longleftrightarrow> compact_mant c div 2 ^ k \<noteq> 0" for k
    by (simp only: word_zero_iff unat_drop_bit SetCompact_fields)
  have z: "c AND 0x007fffff \<noteq> 0 \<longleftrightarrow> compact_mant c \<noteq> 0" by (simp only: word_zero_iff SetCompact_fields)
  show "fst (snd (SetCompact c)) \<longleftrightarrow> compact_number c \<noteq> 0 \<and> odd (unat c div 2 ^ 23)"
  proof (cases "compact_exp c \<le> 3")
    case True
    then show ?thesis unfolding SetCompact_def Let_def SetCompact_fields sign_bit compact_number_def
      by (simp only: if_True prod.sel n pow_8)
  next
    case False
    then show ?thesis unfolding SetCompact_def Let_def SetCompact_fields sign_bit compact_number_def
      by (simp only: if_False prod.sel z) simp
  qed
qed

text \<open>The signs of the unit test: the mantissa is shifted out, or not.\<close>

lemma SetCompact_signs:
  "map (\<lambda>c. fst (snd (SetCompact c))) [0x00923456, 0x01803456, 0x02800056, 0x03800000, 0x04800000, 0x01fedcba, 0x04923456] =
    [False, False, False, False, False, True, True]"
  by code_simp

text \<open>
  C26.  \<open>GetCompact\<close> never fails its assertions on a 256-bit integer; what it writes decodes, without
  sign or overflow, to a number that is at most the original and closer to it than one part in
  \<open>2^15\<close>; and encoding the decoded number again writes the same word.
\<close>

theorem GetCompact_round_trip:
  assumes "length x = 8"
  shows "\<exists>c. GetCompact x False = Some c \<and> snd (SetCompact c) = (False, False) \<and>
    bu_val (fst (SetCompact c)) \<le> bu_val x \<and>
    (bu_val x - bu_val (fst (SetCompact c))) * 2 ^ 15 \<le> bu_val x \<and>
    GetCompact (fst (SetCompact c)) False = Some c"
proof -
  obtain c where c: "GetCompact x False = Some c" using GetCompact_total[OF assms] by blast
  note r = SetCompact_GetCompact[OF assms c refl]
  show ?thesis
    by (intro exI[of _ c] conjI c r(6) GetCompact_SetCompact[OF assms c]) (simp_all only: r(5) compact_loss[OF assms c])
qed

theorem GetCompact_round_trip_witness:
  "\<exists>c. GetCompact [0, 0x9abcdef0, 0x1234, 0, 0, 0, 0, 0] False = Some c \<and>
    GetCompact (fst (SetCompact c)) False = Some c"
proof -
  have "length [0, 0x9abcdef0, 0x1234, 0, 0, 0, 0, 0 :: u32] = 8" by simp
  from GetCompact_round_trip[OF this] show ?thesis by blast
qed

end
