(* ===== verification/Chain.thy ===== *)
theory Chain
  imports Uint256
begin

text \<open>
  The block index of \<^verbatim>\<open>sige/src/chain.h\<close> and \<^verbatim>\<open>sige/src/chain.cpp\<close>: the tree of block headers, with the
  skip-list pointers, and the active chain.  Pointers are numbers; a store gives the object at every
  address, so that aliasing and updates through a pointer are explicit.  \<open>NULL\<close> is \<open>None\<close>.  Heights
  are integers as in the code; the walk of \<open>GetAncestor\<close> runs on heights it has checked to be
  non-negative and is written on naturals.
\<close>

section \<open>Objects\<close>

type_synonym ptr = nat

record CBlockIndex =
  hashBlock :: uint256
  pprev :: "ptr option"
  pskip :: "ptr option"
  nHeight :: int
  nFile :: int
  nDataPos :: u32
  nUndoPos :: u32
  nChainWork :: uint256
  nTx :: u32
  nChainTx :: u32
  nStatus :: u32
  nVersion :: u32
  hashMerkleRoot :: uint256
  nTime :: u32
  nBits :: u32
  nNonce :: u32
  nSequenceId :: int
  nTimeMax :: u32

type_synonym store = "ptr \<Rightarrow> CBlockIndex"

record CBlockHeader =
  bhVersion :: u32
  bhPrevBlock :: uint256
  bhMerkleRoot :: uint256
  bhTime :: u32
  bhBits :: u32
  bhNonce :: u32

record CDiskBlockPos =
  posFile :: int
  posPos :: u32

definition CDiskBlockPos_null :: CDiskBlockPos where
  "CDiskBlockPos_null = \<lparr>posFile = -1, posPos = 0\<rparr>"

definition CDiskBlockPos_IsNull :: "CDiskBlockPos \<Rightarrow> bool" where
  "CDiskBlockPos_IsNull p \<longleftrightarrow> posFile p = -1"

definition CBlockIndex_null :: CBlockIndex where
  "CBlockIndex_null =
    \<lparr>hashBlock = [], pprev = None, pskip = None, nHeight = 0, nFile = 0, nDataPos = 0, nUndoPos = 0,
     nChainWork = bu_zero 8, nTx = 0, nChainTx = 0, nStatus = 0, nVersion = 0, hashMerkleRoot = bu_zero 8,
     nTime = 0, nBits = 0, nNonce = 0, nSequenceId = 0, nTimeMax = 0\<rparr>"

definition CBlockIndex_of_header :: "CBlockHeader \<Rightarrow> CBlockIndex" where
  "CBlockIndex_of_header b = CBlockIndex_null
    \<lparr>nVersion := bhVersion b, hashMerkleRoot := bhMerkleRoot b, nTime := bhTime b, nBits := bhBits b, nNonce := bhNonce b\<rparr>"

record CBlockFileInfo =
  fiBlocks :: u32
  fiSize :: u32
  fiUndoSize :: u32
  fiHeightFirst :: u32
  fiHeightLast :: u32
  fiTimeFirst :: u64
  fiTimeLast :: u64

definition CBlockFileInfo_null :: CBlockFileInfo where
  "CBlockFileInfo_null = \<lparr>fiBlocks = 0, fiSize = 0, fiUndoSize = 0, fiHeightFirst = 0, fiHeightLast = 0, fiTimeFirst = 0, fiTimeLast = 0\<rparr>"

definition AddBlock :: "CBlockFileInfo \<Rightarrow> u32 \<Rightarrow> u64 \<Rightarrow> CBlockFileInfo" where
  "AddBlock fi nHeightIn nTimeIn =
    (let fi = (if fiBlocks fi = 0 \<or> fiHeightFirst fi > nHeightIn then fi\<lparr>fiHeightFirst := nHeightIn\<rparr> else fi);
         fi = (if fiBlocks fi = 0 \<or> fiTimeFirst fi > nTimeIn then fi\<lparr>fiTimeFirst := nTimeIn\<rparr> else fi);
         fi = fi\<lparr>fiBlocks := fiBlocks fi + 1\<rparr>;
         fi = (if nHeightIn > fiHeightLast fi then fi\<lparr>fiHeightLast := nHeightIn\<rparr> else fi)
     in (if nTimeIn > fiTimeLast fi then fi\<lparr>fiTimeLast := nTimeIn\<rparr> else fi))"

section \<open>Block status\<close>

definition BLOCK_VALID_MASK :: u32 where "BLOCK_VALID_MASK = 1 OR 2 OR 3 OR 4 OR 5"
definition BLOCK_HAVE_DATA :: u32 where "BLOCK_HAVE_DATA = 8"
definition BLOCK_HAVE_UNDO :: u32 where "BLOCK_HAVE_UNDO = 16"
definition BLOCK_FAILED_MASK :: u32 where "BLOCK_FAILED_MASK = 32 OR 64"

definition GetBlockPos :: "CBlockIndex \<Rightarrow> CDiskBlockPos" where
  "GetBlockPos b = (if nStatus b AND BLOCK_HAVE_DATA \<noteq> 0 then \<lparr>posFile = nFile b, posPos = nDataPos b\<rparr> else CDiskBlockPos_null)"

definition GetUndoPos :: "CBlockIndex \<Rightarrow> CDiskBlockPos" where
  "GetUndoPos b = (if nStatus b AND BLOCK_HAVE_UNDO \<noteq> 0 then \<lparr>posFile = nFile b, posPos = nUndoPos b\<rparr> else CDiskBlockPos_null)"

definition GetBlockHeader :: "store \<Rightarrow> CBlockIndex \<Rightarrow> CBlockHeader" where
  "GetBlockHeader st b =
    \<lparr>bhVersion = nVersion b,
     bhPrevBlock = (case pprev b of None \<Rightarrow> bu_zero 8 | Some q \<Rightarrow> hashBlock (st q)),
     bhMerkleRoot = hashMerkleRoot b, bhTime = nTime b, bhBits = nBits b, bhNonce = nNonce b\<rparr>"

text \<open>\<open>None\<close> is the failed assertion on the requested level.\<close>

definition IsValid :: "CBlockIndex \<Rightarrow> u32 \<Rightarrow> bool option" where
  "IsValid b nUpTo =
    (if nUpTo AND NOT BLOCK_VALID_MASK \<noteq> 0 then None
     else Some (if nStatus b AND BLOCK_FAILED_MASK \<noteq> 0 then False else nStatus b AND BLOCK_VALID_MASK \<ge> nUpTo))"

definition RaiseValidity :: "CBlockIndex \<Rightarrow> u32 \<Rightarrow> (CBlockIndex \<times> bool) option" where
  "RaiseValidity b nUpTo =
    (if nUpTo AND NOT BLOCK_VALID_MASK \<noteq> 0 then None
     else Some (if nStatus b AND BLOCK_FAILED_MASK \<noteq> 0 then (b, False)
                else if nStatus b AND BLOCK_VALID_MASK < nUpTo
                then (b\<lparr>nStatus := nStatus b AND NOT BLOCK_VALID_MASK OR nUpTo\<rparr>, True)
                else (b, False)))"

section \<open>Times\<close>

definition GetBlockTime :: "CBlockIndex \<Rightarrow> int" where
  "GetBlockTime b = uint (nTime b)"

definition GetBlockTimeMax :: "CBlockIndex \<Rightarrow> int" where
  "GetBlockTimeMax b = uint (nTimeMax b)"

definition nMedianTimeSpan :: nat where "nMedianTimeSpan = 11"

primrec past_times :: "store \<Rightarrow> nat \<Rightarrow> ptr option \<Rightarrow> int list" where
  "past_times st 0 p = []"
| "past_times st (Suc n) p = (case p of None \<Rightarrow> [] | Some q \<Rightarrow> GetBlockTime (st q) # past_times st n (pprev (st q)))"

definition GetMedianTimePast :: "store \<Rightarrow> ptr \<Rightarrow> int" where
  "GetMedianTimePast st p = (let ts = sort (past_times st nMedianTimeSpan (Some p)) in ts ! (length ts div 2))"

section \<open>Ancestors\<close>

definition InvertLowestOne :: "nat \<Rightarrow> nat" where
  "InvertLowestOne n = n AND (n - 1)"

definition GetSkipHeight :: "nat \<Rightarrow> nat" where
  "GetSkipHeight height =
    (if height < 2 then 0
     else if height AND 1 \<noteq> 0 then InvertLowestOne (InvertLowestOne (height - 1)) + 1
     else InvertLowestOne height)"

text \<open>The loop of \<open>GetAncestor\<close>; \<open>None\<close> is the failed assertion that a block above the wanted height has a parent.\<close>

function GetAncestor_walk :: "store \<Rightarrow> ptr \<Rightarrow> nat \<Rightarrow> nat \<Rightarrow> ptr option" where
  "GetAncestor_walk st p heightWalk height =
    (if heightWalk > height
     then let heightSkip = GetSkipHeight heightWalk;
              heightSkipPrev = GetSkipHeight (heightWalk - 1)
          in if pskip (st p) \<noteq> None \<and>
                (heightSkip = height \<or>
                 (heightSkip > height \<and> \<not> (heightSkipPrev + 2 < heightSkip \<and> heightSkipPrev \<ge> height)))
             then GetAncestor_walk st (the (pskip (st p))) heightSkip height
             else case pprev (st p) of
                    None \<Rightarrow> None
                  | Some q \<Rightarrow> GetAncestor_walk st q (heightWalk - 1) height
     else Some p)"
  by pat_completeness auto
termination
proof -
  have inv: "InvertLowestOne n \<le> n - 1" for n
    unfolding InvertLowestOne_def using AND_upper2[of "int (n - 1)" "int n"] by (simp flip: of_nat_and_eq)
  have skip: "GetSkipHeight h < h" if "0 < h" for h
  proof -
    have "InvertLowestOne (InvertLowestOne (h - 1)) \<le> h - 2"
      using inv[of "InvertLowestOne (h - 1)"] inv[of "h - 1"] by simp
    then show ?thesis using that inv[of h] by (auto simp: GetSkipHeight_def)
  qed
  show ?thesis by (relation "measure (\<lambda>(st, p, heightWalk, height). heightWalk)") (auto intro: skip)
qed

text \<open>\<open>Some None\<close> is the null pointer, returned when there is no ancestor at the height.\<close>

definition GetAncestor :: "store \<Rightarrow> ptr \<Rightarrow> int \<Rightarrow> ptr option option" where
  "GetAncestor st p height =
    (if height > nHeight (st p) \<or> height < 0 then Some None
     else map_option Some (GetAncestor_walk st p (nat (nHeight (st p))) (nat height)))"

definition BuildSkip :: "store \<Rightarrow> ptr \<Rightarrow> store option" where
  "BuildSkip st p =
    (case pprev (st p) of
       None \<Rightarrow> Some st
     | Some q \<Rightarrow>
         (case GetAncestor st q (int (GetSkipHeight (nat (nHeight (st p))))) of
            None \<Rightarrow> None
          | Some r \<Rightarrow> Some (st(p := (st p)\<lparr>pskip := r\<rparr>))))"

section \<open>The active chain\<close>

type_synonym CChain = "ptr option list"

definition CChain_at :: "CChain \<Rightarrow> int \<Rightarrow> ptr option" where
  "CChain_at c h = (if h < 0 \<or> h \<ge> int (length c) then None else c ! nat h)"

definition CChain_Genesis :: "CChain \<Rightarrow> ptr option" where
  "CChain_Genesis c = (if length c > 0 then c ! 0 else None)"

definition CChain_Tip :: "CChain \<Rightarrow> ptr option" where
  "CChain_Tip c = (if length c > 0 then c ! (length c - 1) else None)"

definition CChain_Height :: "CChain \<Rightarrow> int" where
  "CChain_Height c = int (length c) - 1"

definition CChain_Contains :: "store \<Rightarrow> CChain \<Rightarrow> ptr \<Rightarrow> bool" where
  "CChain_Contains st c p \<longleftrightarrow> CChain_at c (nHeight (st p)) = Some p"

definition CChain_Next :: "store \<Rightarrow> CChain \<Rightarrow> ptr \<Rightarrow> ptr option" where
  "CChain_Next st c p = (if CChain_Contains st c p then CChain_at c (nHeight (st p) + 1) else None)"

text \<open>\<open>vector::resize\<close>: cut, or filled with null pointers.\<close>

definition CChain_resize :: "CChain \<Rightarrow> nat \<Rightarrow> CChain" where
  "CChain_resize c n = take n c @ replicate (n - length c) None"

text \<open>
  The loops below follow \<open>pprev\<close>.  Their first argument bounds the number of rounds and \<open>None\<close> means
  that the bound was too small, which the theorems exclude for the bound the callers pass.
\<close>

primrec SetTip_loop :: "nat \<Rightarrow> store \<Rightarrow> CChain \<Rightarrow> ptr option \<Rightarrow> CChain option" where
  "SetTip_loop 0 st c pindex = None"
| "SetTip_loop (Suc n) st c pindex =
    (case pindex of
       None \<Rightarrow> Some c
     | Some p \<Rightarrow>
         if c ! nat (nHeight (st p)) \<noteq> Some p
         then SetTip_loop n st (c[nat (nHeight (st p)) := Some p]) (pprev (st p))
         else Some c)"

definition SetTip :: "store \<Rightarrow> CChain \<Rightarrow> ptr option \<Rightarrow> CChain option" where
  "SetTip st c pindex =
    (case pindex of
       None \<Rightarrow> Some []
     | Some p \<Rightarrow>
         let n = nat (nHeight (st p) + 1) in SetTip_loop (Suc n) st (CChain_resize c n) (Some p))"

primrec FindFork_loop :: "nat \<Rightarrow> store \<Rightarrow> CChain \<Rightarrow> ptr option \<Rightarrow> ptr option option" where
  "FindFork_loop 0 st c pindex = None"
| "FindFork_loop (Suc n) st c pindex =
    (case pindex of
       None \<Rightarrow> Some None
     | Some p \<Rightarrow> if CChain_Contains st c p then Some (Some p) else FindFork_loop n st c (pprev (st p)))"

definition FindFork :: "store \<Rightarrow> CChain \<Rightarrow> ptr option \<Rightarrow> ptr option option" where
  "FindFork st c pindex =
    (case pindex of
       None \<Rightarrow> Some None
     | Some p \<Rightarrow>
         (case (if nHeight (st p) > CChain_Height c then GetAncestor st p (CChain_Height c) else Some (Some p)) of
            None \<Rightarrow> None
          | Some q \<Rightarrow> FindFork_loop (nat (nHeight (st p)) + 2) st c q))"

primrec GetLocator_loop :: "nat \<Rightarrow> store \<Rightarrow> CChain \<Rightarrow> int \<Rightarrow> uint256 list \<Rightarrow> ptr option \<Rightarrow> uint256 list option" where
  "GetLocator_loop 0 st c nStep vHave pindex = None"
| "GetLocator_loop (Suc n) st c nStep vHave pindex =
    (case pindex of
       None \<Rightarrow> Some vHave
     | Some p \<Rightarrow>
         let vHave = vHave @ [hashBlock (st p)]
         in if nHeight (st p) = 0 then Some vHave
            else let h = max (nHeight (st p) - nStep) 0
                 in case (if CChain_Contains st c p then Some (CChain_at c h) else GetAncestor st p h) of
                      None \<Rightarrow> None
                    | Some q \<Rightarrow> GetLocator_loop n st c (if length vHave > 10 then nStep * 2 else nStep) vHave q)"

definition GetLocator :: "store \<Rightarrow> CChain \<Rightarrow> ptr option \<Rightarrow> uint256 list option" where
  "GetLocator st c pindex =
    (let pindex = (if pindex = None then CChain_Tip c else pindex)
     in GetLocator_loop (case pindex of None \<Rightarrow> 1 | Some p \<Rightarrow> nat (nHeight (st p)) + 2) st c 1 [] pindex)"

text \<open>\<open>std::lower_bound\<close>: bisection for the first element that does not satisfy the predicate.\<close>

function lower_bound :: "('a \<Rightarrow> bool) \<Rightarrow> 'a list \<Rightarrow> nat \<Rightarrow> nat \<Rightarrow> nat" where
  "lower_bound lt xs first len =
    (if len > 0
     then let half = len div 2; middle = first + half
          in if lt (xs ! middle) then lower_bound lt xs (middle + 1) (len - half - 1)
             else lower_bound lt xs first half
     else first)"
  by pat_completeness auto
termination by (relation "measure (\<lambda>(lt, xs, first, len). len)") auto

definition FindEarliestAtLeast :: "store \<Rightarrow> CChain \<Rightarrow> int \<Rightarrow> ptr option" where
  "FindEarliestAtLeast st c t =
    (let lower = lower_bound (\<lambda>p. GetBlockTimeMax (st (the p)) < t) c 0 (length c)
     in if lower = length c then None else c ! lower)"

section \<open>Work\<close>

definition GetBlockProof :: "CBlockIndex \<Rightarrow> uint_error + uint256" where
  "GetBlockProof b =
    (case SetCompact (nBits b) of (bnTarget, fNegative, fOverflow) \<Rightarrow>
       if fNegative \<or> fOverflow \<or> EqualTo bnTarget 0 then Inr (uint256_of_u64 0)
       else case bu_div (bu_compl bnTarget) (bu_add bnTarget (uint256_of_u64 1)) of
              Inl e \<Rightarrow> Inl e
            | Inr q \<Rightarrow> Inr (bu_add q (uint256_of_u64 1)))"

definition GetBlockProofEquivalentTime :: "CBlockIndex \<Rightarrow> CBlockIndex \<Rightarrow> CBlockIndex \<Rightarrow> u64 \<Rightarrow> uint_error + int" where
  "GetBlockProofEquivalentTime t f tip nPowTargetSpacing =
    (let pos = CompareTo (nChainWork t) (nChainWork f) > 0;
         r = (if pos then bu_sub (nChainWork t) (nChainWork f) else bu_sub (nChainWork f) (nChainWork t));
         sign = (if pos then 1 else - 1 :: int)
     in case GetBlockProof tip of
          Inl e \<Rightarrow> Inl e
        | Inr bp \<Rightarrow>
            (case bu_div (bu_mul r (uint256_of_u64 nPowTargetSpacing)) bp of
               Inl e \<Rightarrow> Inl e
             | Inr r \<Rightarrow> Inr (if bu_bits r > 63 then sign * (2 ^ 63 - 1) else sign * int (unat (GetLow64 r)))))"

declare GetAncestor_walk.simps [simp del] lower_bound.simps [simp del]

text \<open>A concrete index to evaluate the operations on: block \<open>n\<close> sits at height \<open>n\<close> on a single branch.\<close>

definition line_store :: store where
  "line_store p = CBlockIndex_null\<lparr>nHeight := int p, pprev := (if p = 0 then None else Some (p - 1)), nTimeMax := of_nat p\<rparr>"

section \<open>Well-formed block trees\<close>

text \<open>The ancestor reached by following \<open>pprev\<close> a number of times.\<close>

primrec nth_parent :: "store \<Rightarrow> ptr \<Rightarrow> nat \<Rightarrow> ptr option" where
  "nth_parent st p 0 = Some p"
| "nth_parent st p (Suc k) = (case pprev (st p) of None \<Rightarrow> None | Some q \<Rightarrow> nth_parent st q k)"

abbreviation height :: "store \<Rightarrow> ptr \<Rightarrow> nat" where
  "height st p \<equiv> nat (nHeight (st p))"

text \<open>
  On the blocks \<open>V\<close>: heights count the blocks below, and a skip pointer, where set, points to the
  ancestor at the height \<open>GetSkipHeight\<close> chooses.
\<close>

definition wf_index :: "ptr set \<Rightarrow> store \<Rightarrow> bool" where
  "wf_index V st \<longleftrightarrow>
    (\<forall>p \<in> V. 0 \<le> nHeight (st p) \<and>
       (case pprev (st p) of
          None \<Rightarrow> nHeight (st p) = 0
        | Some q \<Rightarrow> q \<in> V \<and> nHeight (st p) = nHeight (st q) + 1) \<and>
       (case pskip (st p) of
          None \<Rightarrow> True
        | Some s \<Rightarrow> nth_parent st p (height st p - GetSkipHeight (height st p)) = Some s))"

lemma wf_index_parent:
  assumes "wf_index V st" "p \<in> V"
  shows "0 \<le> nHeight (st p)" "pprev (st p) = None \<Longrightarrow> nHeight (st p) = 0"
    "pprev (st p) = Some q \<Longrightarrow> q \<in> V" "pprev (st p) = Some q \<Longrightarrow> height st p = Suc (height st q)"
    "pprev (st p) = Some q \<Longrightarrow> nHeight (st p) = nHeight (st q) + 1"
    "pskip (st p) = Some s \<Longrightarrow> nth_parent st p (height st p - GetSkipHeight (height st p)) = Some s"
proof -
  have w: "0 \<le> nHeight (st p)" "case pprev (st p) of None \<Rightarrow> nHeight (st p) = 0 | Some q \<Rightarrow> q \<in> V \<and> nHeight (st p) = nHeight (st q) + 1"
    "case pskip (st p) of None \<Rightarrow> True | Some s \<Rightarrow> nth_parent st p (height st p - GetSkipHeight (height st p)) = Some s"
    using assms by (auto simp: wf_index_def)
  show "0 \<le> nHeight (st p)" "pprev (st p) = None \<Longrightarrow> nHeight (st p) = 0" "pprev (st p) = Some q \<Longrightarrow> q \<in> V"
    "pprev (st p) = Some q \<Longrightarrow> nHeight (st p) = nHeight (st q) + 1"
    "pskip (st p) = Some s \<Longrightarrow> nth_parent st p (height st p - GetSkipHeight (height st p)) = Some s"
    using w by simp_all
  show "pprev (st p) = Some q \<Longrightarrow> height st p = Suc (height st q)"
    using w assms by (auto simp: wf_index_def nat_add_distrib)
qed

lemma nth_parent_wf:
  assumes "wf_index V st" "p \<in> V" "k \<le> height st p"
  shows "\<exists>q \<in> V. nth_parent st p k = Some q \<and> height st q = height st p - k"
  using assms(2,3)
proof (induction k arbitrary: p)
  case (Suc k)
  then obtain q where q: "pprev (st p) = Some q"
    using wf_index_parent(2)[OF assms(1) Suc.prems(1)] by (cases "pprev (st p)") auto
  note w = wf_index_parent(3,4)[OF assms(1) Suc.prems(1) q]
  from Suc.IH[OF w(1)] Suc.prems(2) w(2) show ?case by (simp add: q)
qed simp

lemma nth_parent_add: "nth_parent st p k = Some q \<Longrightarrow> nth_parent st p (k + j) = nth_parent st q j"
  by (induction k arbitrary: p) (auto split: option.splits)

lemma nth_parent_none:
  assumes "wf_index V st" "p \<in> V" "height st p < k"
  shows "nth_parent st p k = None"
  using assms(2,3)
proof (induction k arbitrary: p)
  case (Suc k)
  show ?case
  proof (cases "pprev (st p)")
    case (Some q)
    note w = wf_index_parent(3,4)[OF assms(1) Suc.prems(1) Some]
    then show ?thesis using Suc Some by simp
  qed simp
qed simp

section \<open>GetAncestor finds the ancestor\<close>

lemma InvertLowestOne_le: "InvertLowestOne n \<le> n - 1"
  unfolding InvertLowestOne_def using AND_upper2[of "int (n - 1)" "int n"] by (simp flip: of_nat_and_eq)

lemma GetSkipHeight_less: "0 < h \<Longrightarrow> GetSkipHeight h < h"
proof -
  assume "0 < h"
  have "InvertLowestOne (InvertLowestOne (h - 1)) \<le> h - 2"
    using InvertLowestOne_le[of "InvertLowestOne (h - 1)"] InvertLowestOne_le[of "h - 1"] by simp
  then show ?thesis using \<open>0 < h\<close> InvertLowestOne_le[of h] by (auto simp: GetSkipHeight_def)
qed

lemma GetAncestor_walk_parent:
  assumes "wf_index V st" "p \<in> V" "height st p = hw" "h \<le> hw"
  shows "GetAncestor_walk st p hw h = nth_parent st p (hw - h)"
  using assms(2-4)
proof (induction hw arbitrary: p rule: less_induct)
  case (less hw)
  show ?case
  proof (cases "h < hw")
    case False
    then show ?thesis using less.prems by (simp add: GetAncestor_walk.simps)
  next
    case True
    let ?s = "GetSkipHeight hw"
    have s: "?s < hw" using True by (intro GetSkipHeight_less) simp
    let ?c = "pskip (st p) \<noteq> None \<and>
        (?s = h \<or> (?s > h \<and> \<not> (GetSkipHeight (hw - 1) + 2 < ?s \<and> GetSkipHeight (hw - 1) \<ge> h)))"
    show ?thesis
    proof (cases ?c)
      case c: True
      then obtain r where r: "pskip (st p) = Some r" by auto
      have "nth_parent st p (hw - ?s) = Some r"
        using wf_index_parent(6)[OF assms(1) less.prems(1) r] less.prems(2) by simp
      moreover from this have "r \<in> V" "height st r = ?s"
        using nth_parent_wf[OF assms(1) less.prems(1), of "hw - ?s"] less.prems(2) s by auto
      moreover have "h \<le> ?s" using c by auto
      ultimately have "GetAncestor_walk st r ?s h = nth_parent st p ((hw - ?s) + (?s - h))"
        using less.IH[OF s] by (simp only: nth_parent_add)
      moreover have "(hw - ?s) + (?s - h) = hw - h" using s \<open>h \<le> ?s\<close> by simp
      ultimately show ?thesis using True c r by (subst GetAncestor_walk.simps) (simp add: Let_def)
    next
      case c: False
      obtain q where q: "pprev (st p) = Some q"
        using True less.prems wf_index_parent(2)[OF assms(1) less.prems(1)] by (cases "pprev (st p)") auto
      note w = wf_index_parent(3,4)[OF assms(1) less.prems(1) q]
      have "GetAncestor_walk st q (hw - 1) h = nth_parent st q (hw - 1 - h)"
        using less.IH[of "hw - 1" q] w True less.prems(2) by simp
      moreover have "hw - h = Suc (hw - 1 - h)" using True by simp
      ultimately show ?thesis using True q by (subst GetAncestor_walk.simps) (simp only: Let_def c if_True if_False option.case nth_parent.simps)
    qed
  qed
qed

lemma GetAncestor_eq:
  assumes "wf_index V st" "p \<in> V"
  shows "GetAncestor st p h = Some (if h < 0 \<or> h > nHeight (st p) then None else nth_parent st p (height st p - nat h))"
proof (cases "h < 0 \<or> h > nHeight (st p)")
  case False
  then have le: "nat h \<le> height st p" by auto
  obtain q where "nth_parent st p (height st p - nat h) = Some q"
    using nth_parent_wf[OF assms, of "height st p - nat h"] by auto
  then show ?thesis using False GetAncestor_walk_parent[OF assms refl le] by (simp add: GetAncestor_def)
qed (auto simp: GetAncestor_def)

lemma GetAncestor_height:
  assumes "wf_index V st" "p \<in> V" "0 \<le> h" "h \<le> nHeight (st p)"
  shows "\<exists>q \<in> V. GetAncestor st p h = Some (Some q) \<and> nHeight (st q) = h \<and> nth_parent st p (height st p - nat h) = Some q"
proof -
  obtain q where q: "q \<in> V" "nth_parent st p (height st p - nat h) = Some q" "height st q = height st p - (height st p - nat h)"
    using nth_parent_wf[OF assms(1,2), of "height st p - nat h"] by auto
  have "nHeight (st q) = h" using q(3) assms(3,4) wf_index_parent(1)[OF assms(1) q(1)] by simp
  then show ?thesis using q assms GetAncestor_eq[OF assms(1,2), of h] by auto
qed

section \<open>BuildSkip keeps the tree well-formed\<close>

lemma nth_parent_pskip [simp]: "nth_parent (st(p := (st p)\<lparr>pskip := r\<rparr>)) q k = nth_parent st q k"
  by (induction k arbitrary: q) (auto split: option.splits)

lemma wf_index_pskip:
  assumes "wf_index V st" "nth_parent st p (height st p - GetSkipHeight (height st p)) = Some r"
  shows "wf_index V (st(p := (st p)\<lparr>pskip := Some r\<rparr>))" (is "wf_index V ?st")
proof -
  have f: "nHeight (?st x) = nHeight (st x)" "pprev (?st x) = pprev (st x)"
    "pskip (?st x) = (if x = p then Some r else pskip (st x))" for x by simp_all
  show ?thesis using assms unfolding wf_index_def f nth_parent_pskip by simp
qed

lemma BuildSkip_wf:
  assumes "wf_index V st" "p \<in> V"
  shows "\<exists>st'. BuildSkip st p = Some st' \<and> wf_index V st' \<and> (pprev (st p) \<noteq> None \<longrightarrow> pskip (st' p) \<noteq> None)"
proof (cases "pprev (st p)")
  case None
  then show ?thesis using assms by (simp add: BuildSkip_def)
next
  case (Some q)
  note w = wf_index_parent(3,4,5)[OF assms Some]
  let ?s = "GetSkipHeight (height st p)"
  have s: "?s < height st p" using w(2) by (intro GetSkipHeight_less) simp
  have "0 \<le> int ?s" "int ?s \<le> nHeight (st q)" using s w(2) wf_index_parent(1)[OF assms(1) w(1)] by auto
  then obtain r where r: "GetAncestor st q (int ?s) = Some (Some r)" "nth_parent st q (height st q - ?s) = Some r"
    using GetAncestor_height[OF assms(1) w(1), of "int ?s"] by auto
  let ?st = "st(p := (st p)\<lparr>pskip := Some r\<rparr>)"
  have "height st p - ?s = Suc (height st q - ?s)" using w(2) s by linarith
  then have "nth_parent st p (height st p - ?s) = Some r" using r(2) Some by simp
  then have "wf_index V ?st" using assms(1) by (intro wf_index_pskip)
  then show ?thesis using Some r by (simp add: BuildSkip_def)
qed

section \<open>The active chain\<close>

text \<open>Every entry is the block of its height and the parent of the next.\<close>

definition entry_ok :: "ptr set \<Rightarrow> store \<Rightarrow> CChain \<Rightarrow> nat \<Rightarrow> bool" where
  "entry_ok V st c i \<longleftrightarrow> (\<exists>p \<in> V. c ! i = Some p \<and> nHeight (st p) = int i \<and> (0 < i \<longrightarrow> pprev (st p) = c ! (i - 1)))"

definition chain_ok :: "ptr set \<Rightarrow> store \<Rightarrow> CChain \<Rightarrow> bool" where
  "chain_ok V st c \<longleftrightarrow> (\<forall>i < length c. entry_ok V st c i)"

lemma chain_ok_entry:
  assumes "chain_ok V st c" "i < length c"
  obtains p where "p \<in> V" "c ! i = Some p" "nHeight (st p) = int i" "0 < i \<Longrightarrow> pprev (st p) = c ! (i - 1)"
  using assms unfolding chain_ok_def entry_ok_def by blast

lemma chain_ok_at:
  assumes "chain_ok V st c" "i < length c" "c ! i = Some p"
  shows "p \<in> V" "nHeight (st p) = int i" "0 < i \<Longrightarrow> pprev (st p) = c ! (i - 1)"
  using assms unfolding chain_ok_def entry_ok_def by (metis option.inject)+

lemma chain_ok_nth_parent:
  assumes "chain_ok V st c" "i < length c" "c ! i = Some p" "k \<le> i"
  shows "nth_parent st p k = c ! (i - k)"
  using assms(2-4)
proof (induction k arbitrary: p i)
  case (Suc k)
  have i: "pprev (st p) = c ! (i - 1)" using chain_ok_at(3)[OF assms(1) Suc.prems(1,2)] Suc.prems(3) by simp
  have "i - 1 < length c" using Suc.prems by simp
  then obtain q where q: "c ! (i - 1) = Some q" using chain_ok_entry[OF assms(1)] by blast
  show ?case using Suc.IH[of "i - 1" q] Suc.prems q i by simp
qed simp

lemma chain_ok_contains:
  assumes "chain_ok V st c"
  shows "CChain_Contains st c p \<longleftrightarrow> Some p \<in> set c"
proof
  assume "CChain_Contains st c p"
  then have "0 \<le> nHeight (st p)" "nHeight (st p) < int (length c)" "c ! nat (nHeight (st p)) = Some p"
    unfolding CChain_Contains_def CChain_at_def by (auto split: if_splits)
  then show "Some p \<in> set c" by (metis nth_mem nat_less_iff)
next
  assume "Some p \<in> set c"
  then obtain i where i: "i < length c" "c ! i = Some p" by (auto simp: in_set_conv_nth)
  then have "nHeight (st p) = int i" using chain_ok_at(2)[OF assms i] by simp
  then show "CChain_Contains st c p" using i by (simp add: CChain_Contains_def CChain_at_def)
qed

lemma SetTip_loop_ok:
  assumes "wf_index V st"
  shows "\<lbrakk>length c = n; k \<le> n; k < fuel;
     case pindex of None \<Rightarrow> k = 0 | Some p \<Rightarrow> p \<in> V \<and> nHeight (st p) = int k - 1;
     \<And>i. k \<le> i \<Longrightarrow> i < n \<Longrightarrow> entry_ok V st (if i = k \<and> 0 < k then c[k - 1 := pindex] else c) i;
     \<And>i j. i < k \<Longrightarrow> c ! i \<noteq> None \<Longrightarrow> j \<le> i \<Longrightarrow> entry_ok V st c j\<rbrakk> \<Longrightarrow>
    \<exists>c'. SetTip_loop fuel st c pindex = Some c' \<and> length c' = n \<and> chain_ok V st c' \<and>
      (\<forall>i. k \<le> i \<longrightarrow> c' ! i = c ! i) \<and> (0 < k \<longrightarrow> c' ! (k - 1) = pindex)"
proof (induction fuel arbitrary: c k pindex)
  case (Suc fuel)
  show ?case
  proof (cases pindex)
    case None
    then show ?thesis using Suc.prems by (auto simp: chain_ok_def)
  next
    case (Some p)
    then have p: "p \<in> V" "nHeight (st p) = int k - 1" using Suc.prems(4) by simp_all
    then have k: "0 < k" using wf_index_parent(1)[OF assms p(1)] by simp
    then have h: "nat (nHeight (st p)) = k - 1" using p(2) by simp
    show ?thesis
    proof (cases "c ! (k - 1) = Some p")
      case True
      then have same: "c[k - 1 := pindex] = c" using Some by (metis list_update_id)
      have "entry_ok V st c i" if "i < n" for i
        using Suc.prems(5)[of i] Suc.prems(6)[of "k - 1" i] that True k same by (cases "k \<le> i") (auto split: if_splits)
      then show ?thesis using True Some h Suc.prems(1) by (simp add: chain_ok_def)
    next
      case False
      let ?c = "c[k - 1 := Some p]"
      have kn: "k - 1 < length c" using Suc.prems(1,2) k by simp
      have par: "case pprev (st p) of None \<Rightarrow> k - 1 = 0 | Some q \<Rightarrow> q \<in> V \<and> nHeight (st q) = int (k - 1) - 1"
        using wf_index_parent(2,3,5)[OF assms p(1)] p(2) k by (cases "pprev (st p)") auto
      have low: "entry_ok V st (if i = k - 1 \<and> 0 < k - 1 then ?c[k - 1 - 1 := pprev (st p)] else ?c) i"
        if "k - 1 \<le> i" "i < n" for i
      proof -
        consider (here) "i = k - 1" | (at) "i = k" | (above) "k < i" using \<open>k - 1 \<le> i\<close> by linarith
        then show ?thesis
        proof cases
          case here
          then show ?thesis using p kn k by (auto simp: entry_ok_def intro!: bexI[of _ p])
        next
          case at
          then show ?thesis using Suc.prems(5)[of i] that k Some by auto
        next
          case above
          then have "entry_ok V st c i" using Suc.prems(5)[of i] that by simp
          moreover have "?c ! i = c ! i" "?c ! (i - 1) = c ! (i - 1)" using above k by simp_all
          moreover have "\<not> (i = k - 1 \<and> 0 < k - 1)" using above by linarith
          ultimately show ?thesis using above by (simp only: entry_ok_def if_False)
        qed
      qed
      have pre: "entry_ok V st ?c j" if "i < k - 1" "?c ! i \<noteq> None" "j \<le> i" for i j
      proof -
        have "entry_ok V st c j" using Suc.prems(6)[of i j] that by simp
        then show ?thesis using that by (auto simp: entry_ok_def)
      qed
      have "\<exists>c'. SetTip_loop fuel st ?c (pprev (st p)) = Some c' \<and> length c' = n \<and> chain_ok V st c' \<and>
          (\<forall>i. k - 1 \<le> i \<longrightarrow> c' ! i = ?c ! i) \<and> (0 < k - 1 \<longrightarrow> c' ! (k - 1 - 1) = pprev (st p))"
        by (rule Suc.IH[OF _ _ _ par low pre]) (use Suc.prems k in auto)
      then obtain c' where c': "SetTip_loop fuel st ?c (pprev (st p)) = Some c'" "length c' = n" "chain_ok V st c'"
        "\<forall>i. k - 1 \<le> i \<longrightarrow> c' ! i = ?c ! i" by blast
      have "c' ! (k - 1) = Some p" using c'(4) kn by simp
      moreover have "\<forall>i. k \<le> i \<longrightarrow> c' ! i = c ! i" using c'(4) k by auto
      ultimately show ?thesis using False Some h c' by simp
    qed
  qed
qed simp

lemma SetTip_ok:
  assumes "wf_index V st" "chain_ok V st c" "p \<in> V"
  shows "\<exists>c'. SetTip st c (Some p) = Some c' \<and> chain_ok V st c' \<and> CChain_Tip c' = Some p \<and>
    CChain_Height c' = nHeight (st p)"
proof -
  obtain n where n: "nat (nHeight (st p) + 1) = Suc n" using wf_index_parent(1)[OF assms(1,3)] by (cases "nat (nHeight (st p) + 1)") auto
  have h: "nHeight (st p) = int n" using n wf_index_parent(1)[OF assms(1,3)] by simp
  let ?c = "CChain_resize c (Suc n)"
  have len: "length ?c = Suc n" by (simp add: CChain_resize_def)
  have pre: "entry_ok V st ?c j" if i: "i < Suc n" "?c ! i \<noteq> None" and j: "j \<le> i" for i j
  proof -
    have "i < length c" using i by (auto simp: CChain_resize_def nth_append split: if_splits)
    then have "entry_ok V st c j" "\<And>m. m \<le> i \<Longrightarrow> ?c ! m = c ! m"
      using assms(2) j i(1) by (auto simp: chain_ok_def CChain_resize_def nth_append)
    then show ?thesis using j by (auto simp: entry_ok_def)
  qed
  have "\<exists>c'. SetTip_loop (Suc (Suc n)) st ?c (Some p) = Some c' \<and> length c' = Suc n \<and> chain_ok V st c' \<and>
      (\<forall>i. Suc n \<le> i \<longrightarrow> c' ! i = ?c ! i) \<and> (0 < Suc n \<longrightarrow> c' ! (Suc n - 1) = Some p)"
    by (rule SetTip_loop_ok[OF assms(1) len]) (use assms(3) h pre in auto)
  then obtain c' where "SetTip_loop (Suc (Suc n)) st ?c (Some p) = Some c'" "length c' = Suc n" "chain_ok V st c'" "c' ! n = Some p"
    by auto
  note loop = this
  have "SetTip st c (Some p) = Some c'" using loop(1) by (simp only: SetTip_def option.case Let_def n)
  moreover have "CChain_Tip c' = Some p" "CChain_Height c' = nHeight (st p)"
    using loop h by (simp_all add: CChain_Tip_def CChain_Height_def)
  ultimately show ?thesis using loop(3) by blast
qed

section \<open>FindFork finds the last common block\<close>

text \<open>The first of the block and its ancestors that is in the chain, or none.\<close>

definition last_common :: "store \<Rightarrow> CChain \<Rightarrow> ptr \<Rightarrow> ptr option \<Rightarrow> bool" where
  "last_common st c p r \<longleftrightarrow>
    (case r of
       None \<Rightarrow> \<forall>k q. nth_parent st p k = Some q \<longrightarrow> Some q \<notin> set c
     | Some f \<Rightarrow> Some f \<in> set c \<and>
         (\<exists>k. nth_parent st p k = Some f \<and> (\<forall>j < k. \<forall>q. nth_parent st p j = Some q \<longrightarrow> Some q \<notin> set c)))"

lemma last_common_root: "pprev (st p) = None \<Longrightarrow> Some p \<notin> set c \<Longrightarrow> last_common st c p None"
  unfolding last_common_def option.case
proof (intro allI impI)
  fix k q assume "pprev (st p) = None" "Some p \<notin> set c" "nth_parent st p k = Some q"
  then show "Some q \<notin> set c" by (cases k) auto
qed

lemma last_common_parent:
  assumes "pprev (st p) = Some q" "Some p \<notin> set c" "last_common st c q r"
  shows "last_common st c p r"
proof (cases r)
  case None
  have "Some x \<notin> set c" if "nth_parent st p k = Some x" for k x
  proof (cases k)
    case 0
    then show ?thesis using that assms(2) by simp
  next
    case (Suc j)
    then have "nth_parent st q j = Some x" using that assms(1) by simp
    then show ?thesis using assms(3) unfolding None last_common_def option.case by blast
  qed
  then show ?thesis unfolding None last_common_def option.case by blast
next
  case (Some f)
  then obtain k where k: "Some f \<in> set c" "nth_parent st q k = Some f" "\<forall>j < k. \<forall>x. nth_parent st q j = Some x \<longrightarrow> Some x \<notin> set c"
    using assms(3) by (auto simp: last_common_def)
  have "nth_parent st p (Suc k) = Some f" "\<forall>j < Suc k. \<forall>x. nth_parent st p j = Some x \<longrightarrow> Some x \<notin> set c"
    using k assms by (simp_all add: All_less_Suc2)
  then show ?thesis using Some k(1) unfolding last_common_def Some option.case by (intro conjI exI[of _ "Suc k"])
qed

lemma FindFork_loop_ok:
  assumes "wf_index V st" "chain_ok V st c"
  shows "p \<in> V \<Longrightarrow> Suc (height st p) < n \<Longrightarrow> \<exists>r. FindFork_loop n st c (Some p) = Some r \<and> last_common st c p r"
proof (induction n arbitrary: p)
  case (Suc n)
  show ?case
  proof (cases "CChain_Contains st c p")
    case True
    then have "last_common st c p (Some p)" using chain_ok_contains[OF assms(2)]
      by (auto simp: last_common_def intro: exI[of _ 0])
    then show ?thesis using True by simp
  next
    case False
    then have pc: "Some p \<notin> set c" using chain_ok_contains[OF assms(2)] by blast
    show ?thesis
    proof (cases "pprev (st p)")
      case None
      moreover have "FindFork_loop n st c None = Some None" using Suc.prems(2) by (cases n) simp_all
      ultimately show ?thesis using False last_common_root[of st p c, OF None pc] by simp
    next
      case (Some q)
      note w = wf_index_parent(3,4)[OF assms(1) Suc.prems(1) Some]
      from Suc.IH[OF w(1)] w(2) Suc.prems(2) obtain r where "FindFork_loop n st c (Some q) = Some r" "last_common st c q r"
        by auto
      then show ?thesis using False Some last_common_parent[of st p, OF Some pc] by simp
    qed
  qed
qed simp

lemma chain_at_height:
  assumes "chain_ok V st c" "Some p \<in> set c"
  shows "nHeight (st p) \<le> CChain_Height c"
proof -
  obtain i where i: "i < length c" "c ! i = Some p" using assms(2) by (auto simp: in_set_conv_nth)
  then show ?thesis using chain_ok_at(2)[OF assms(1) i] by (simp add: CChain_Height_def)
qed

lemma last_common_skip:
  assumes "wf_index V st" "chain_ok V st c" "p \<in> V" "nth_parent st p k = Some q"
    "\<And>j x. j < k \<Longrightarrow> nth_parent st p j = Some x \<Longrightarrow> Some x \<notin> set c" "last_common st c q r"
  shows "last_common st c p r"
  using assms(3-5)
proof (induction k arbitrary: p)
  case 0
  then show ?case using assms(6) by simp
next
  case (Suc k)
  then obtain p' where p': "pprev (st p) = Some p'" "nth_parent st p' k = Some q" by (auto split: option.splits)
  have "last_common st c p' r"
    using p' Suc.prems(3)[of "Suc _"] wf_index_parent(3)[OF assms(1) Suc.prems(1) p'(1)] by (intro Suc.IH) auto
  then show ?case using last_common_parent[of st p, OF p'(1)] Suc.prems(3)[of 0 p] by simp
qed

lemma FindFork_ok:
  assumes "wf_index V st" "chain_ok V st c" "c \<noteq> []" "p \<in> V"
  shows "\<exists>r. FindFork st c (Some p) = Some r \<and> last_common st c p r"
proof (cases "nHeight (st p) > CChain_Height c")
  case False
  then show ?thesis using FindFork_loop_ok[OF assms(1,2,4), of "height st p + 2"] by (simp add: FindFork_def del: FindFork_loop.simps)
next
  case True
  have h0: "0 \<le> CChain_Height c" using assms(3) by (cases c) (simp_all add: CChain_Height_def)
  let ?k = "height st p - nat (CChain_Height c)"
  obtain q where q: "q \<in> V" "GetAncestor st p (CChain_Height c) = Some (Some q)" "nHeight (st q) = CChain_Height c"
    "nth_parent st p ?k = Some q"
    using GetAncestor_height[OF assms(1,4) h0] True by auto
  have above: "Some x \<notin> set c" if j: "j < ?k" and x: "nth_parent st p j = Some x" for j x
  proof
    assume "Some x \<in> set c"
    then have "nHeight (st x) \<le> CChain_Height c" by (rule chain_at_height[OF assms(2)])
    moreover have "height st x = height st p - j" using nth_parent_wf[OF assms(1,4), of j] x j by auto
    ultimately show False using j h0 True by linarith
  qed
  obtain r where r: "FindFork_loop (height st p + 2) st c (Some q) = Some r" "last_common st c q r"
  proof -
    have "Suc (height st q) < height st p + 2" using q(3) True by simp
    from FindFork_loop_ok[OF assms(1,2) q(1) this] that show ?thesis by blast
  qed
  then show ?thesis using True q(2) last_common_skip[OF assms(1,2,4) q(4) above r(2)]
    by (simp add: FindFork_def del: FindFork_loop.simps)
qed

section \<open>GetLocator\<close>

text \<open>
  From a block above the genesis block, the locator goes to a strictly lower ancestor.
\<close>

lemma GetLocator_next:
  assumes "wf_index V st" "chain_ok V st c" "p \<in> V" "0 < nHeight (st p)" "1 \<le> nStep"
  defines "h \<equiv> max (nHeight (st p) - nStep) 0"
  shows "\<exists>q \<in> V. (if CChain_Contains st c p then Some (CChain_at c h) else GetAncestor st p h) = Some (Some q) \<and>
    nHeight (st q) = h \<and> nth_parent st p (height st p - nat h) = Some q"
proof (cases "CChain_Contains st c p")
  case False
  have "0 \<le> h" "h \<le> nHeight (st p)" using assms(4,5) by (auto simp: h_def)
  from GetAncestor_height[OF assms(1,3) this] False show ?thesis by auto
next
  case True
  then have i: "height st p < length c" "c ! height st p = Some p"
    unfolding CChain_Contains_def CChain_at_def by (auto split: if_splits)
  have h: "0 \<le> h" "nat h < height st p" using assms(4,5) by (auto simp: h_def)
  then have nh: "nat h < length c" using i(1) by linarith
  then obtain q where q: "c ! nat h = Some q" "q \<in> V" "nHeight (st q) = int (nat h)" by (rule chain_ok_entry[OF assms(2)])
  have "nth_parent st p (height st p - nat h) = c ! (height st p - (height st p - nat h))"
    by (rule chain_ok_nth_parent[OF assms(2) i]) simp
  then have "nth_parent st p (height st p - nat h) = Some q" using h q(1) by simp
  moreover have "CChain_at c h = Some q" using q(1) h nh by (simp add: CChain_at_def)
  ultimately show ?thesis using True q h by auto
qed

text \<open>The hashes are those of the block, of ancestors at strictly decreasing heights and of the genesis block.\<close>

lemma GetLocator_loop_ok:
  assumes "wf_index V st" "chain_ok V st c"
  shows "p \<in> V \<Longrightarrow> height st p < n \<Longrightarrow> 1 \<le> nStep \<Longrightarrow>
    \<exists>ps. GetLocator_loop n st c nStep vHave (Some p) = Some (vHave @ map (\<lambda>q. hashBlock (st q)) (p # ps)) \<and>
      sorted_wrt (\<lambda>a b. nHeight (st a) > nHeight (st b)) (p # ps) \<and>
      (\<forall>q \<in> set (p # ps). q \<in> V \<and> nth_parent st p (height st p - height st q) = Some q) \<and>
      nHeight (st (last (p # ps))) = 0"
proof (induction n arbitrary: p nStep vHave)
  case (Suc n)
  have h0: "0 \<le> nHeight (st p)" using wf_index_parent(1)[OF assms(1) Suc.prems(1)] .
  show ?case
  proof (cases "nHeight (st p) = 0")
    case True
    then show ?thesis using Suc.prems(1) by (intro exI[of _ "[]"]) (simp add: Let_def)
  next
    case False
    then have pos: "0 < nHeight (st p)" using h0 by simp
    let ?h = "max (nHeight (st p) - nStep) 0" and ?v = "vHave @ [hashBlock (st p)]"
    obtain q where q: "q \<in> V" "nHeight (st q) = ?h" "nth_parent st p (height st p - nat ?h) = Some q"
      "(if CChain_Contains st c p then Some (CChain_at c ?h) else GetAncestor st p ?h) = Some (Some q)"
      using GetLocator_next[OF assms Suc.prems(1) pos Suc.prems(3)] by blast
    have lt: "nHeight (st q) < nHeight (st p)" "height st q < height st p" using q(2) pos Suc.prems(3) by auto
    let ?s = "if length ?v > 10 then nStep * 2 else nStep"
    have "1 \<le> ?s" using Suc.prems(3) by simp
    moreover have "height st q < n" using lt(2) Suc.prems(2) by linarith
    ultimately obtain ps where ps: "GetLocator_loop n st c ?s ?v (Some q) = Some (?v @ map (\<lambda>q. hashBlock (st q)) (q # ps))"
      "sorted_wrt (\<lambda>a b. nHeight (st a) > nHeight (st b)) (q # ps)"
      "\<forall>x \<in> set (q # ps). x \<in> V \<and> nth_parent st q (height st q - height st x) = Some x"
      "nHeight (st (last (q # ps))) = 0"
      using Suc.IH[OF q(1), of ?s ?v] by blast
    have le: "nHeight (st x) \<le> nHeight (st q)" if "x \<in> set (q # ps)" for x using ps(2) that by auto
    have anc: "x \<in> V \<and> nth_parent st p (height st p - height st x) = Some x" if "x \<in> set (q # ps)" for x
    proof -
      have "height st p - height st x = (height st p - nat ?h) + (height st q - height st x)"
        using lt(2) nat_mono[OF le[OF that]] unfolding q(2)[symmetric] by linarith
      then show ?thesis using nth_parent_add[OF q(3)] ps(3)[rule_format, OF that] by simp
    qed
    have "GetLocator_loop (Suc n) st c nStep vHave (Some p) = GetLocator_loop n st c ?s ?v (Some q)"
      using False q(4) by (simp add: Let_def)
    then have "GetLocator_loop (Suc n) st c nStep vHave (Some p) = Some (vHave @ map (\<lambda>q. hashBlock (st q)) (p # q # ps))"
      using ps(1) by simp
    moreover have "sorted_wrt (\<lambda>a b. nHeight (st a) > nHeight (st b)) (p # q # ps)"
      using ps(2) lt(1) le by (auto simp: order.strict_trans1)
    ultimately show ?thesis using ps(4) anc Suc.prems(1) by (intro exI[of _ "q # ps"]) auto
  qed
qed simp

section \<open>FindEarliestAtLeast\<close>

lemma lower_bound_spec:
  assumes "\<And>i j. i \<le> j \<Longrightarrow> j < length xs \<Longrightarrow> lt (xs ! j) \<Longrightarrow> lt (xs ! i)"
  shows "first + len \<le> length xs \<Longrightarrow>
    first \<le> lower_bound lt xs first len \<and> lower_bound lt xs first len \<le> first + len \<and>
    (\<forall>i. first \<le> i \<and> i < lower_bound lt xs first len \<longrightarrow> lt (xs ! i)) \<and>
    (\<forall>i. lower_bound lt xs first len \<le> i \<and> i < first + len \<longrightarrow> \<not> lt (xs ! i))"
proof (induction len arbitrary: first rule: less_induct)
  case (less len)
  let ?m = "first + len div 2"
  show ?case
  proof (cases "len = 0")
    case True
    then show ?thesis by (auto simp: lower_bound.simps)
  next
    case False
    then have m: "?m < length xs" "len div 2 < len" "len - len div 2 - 1 < len" using less.prems by linarith+
    show ?thesis
    proof (cases "lt (xs ! ?m)")
      case True
      let ?r = "lower_bound lt xs (?m + 1) (len - len div 2 - 1)"
      have r: "lower_bound lt xs first len = ?r" using False True by (simp add: lower_bound.simps[of lt xs first len] Let_def)
      have e: "?m + 1 + (len - len div 2 - 1) = first + len" using m(2) by linarith
      have IH: "?m + 1 \<le> ?r" "?r \<le> first + len" "\<And>i. ?m + 1 \<le> i \<Longrightarrow> i < ?r \<Longrightarrow> lt (xs ! i)"
        "\<And>i. ?r \<le> i \<Longrightarrow> i < first + len \<Longrightarrow> \<not> lt (xs ! i)"
        using less.IH[OF m(3), of "?m + 1"] less.prems unfolding e by blast+
      have "lt (xs ! i)" if "i < ?r" for i
        using IH(3)[of i] assms[of i ?m] m(1) True that by (cases "i \<le> ?m") auto
      then show ?thesis unfolding r using IH by auto
    next
      case no: False
      let ?r = "lower_bound lt xs first (len div 2)"
      have r: "lower_bound lt xs first len = ?r" using False no by (simp add: lower_bound.simps[of lt xs first len] Let_def)
      have IH: "first \<le> ?r" "?r \<le> ?m" "\<And>i. first \<le> i \<Longrightarrow> i < ?r \<Longrightarrow> lt (xs ! i)"
        "\<And>i. ?r \<le> i \<Longrightarrow> i < ?m \<Longrightarrow> \<not> lt (xs ! i)"
        using less.IH[OF m(2), of first] less.prems m(1) by auto
      have "\<not> lt (xs ! i)" if "?r \<le> i" "i < first + len" for i
        using IH(4)[of i] assms[of ?m i] no less.prems that by (cases "i < ?m") auto
      then show ?thesis unfolding r using IH m(2) by auto
    qed
  qed
qed

text \<open>The maximal time so far never decreases along the chain, as \<open>nTimeMax\<close> is maintained.\<close>

definition times_ordered :: "store \<Rightarrow> CChain \<Rightarrow> bool" where
  "times_ordered st c \<longleftrightarrow>
    (\<forall>i j. i \<le> j \<and> j < length c \<longrightarrow> GetBlockTimeMax (st (the (c ! i))) \<le> GetBlockTimeMax (st (the (c ! j))))"

section \<open>GetBlockProof\<close>

lemma compact_number_not_max: "compact_number c \<noteq> 2 ^ 256 - 1"
proof (cases "compact_exp c \<le> 3")
  case True
  have "compact_number c \<le> compact_mant c" using True by (simp add: compact_number_def)
  then show ?thesis using compact_mant_less[of c] by simp
next
  case False
  then have "even (compact_number c)" by (simp add: compact_number_def)
  moreover have "odd ((2 :: nat) ^ 256 - 1)" by simp
  ultimately show ?thesis by metis
qed

lemma block_proof_div:
  fixes N T :: nat
  assumes "T < N"
  shows "(N - 1 - T) div (T + 1) + 1 = N div (T + 1)"
proof -
  have "N div (T + 1) = Suc ((N - (T + 1)) div (T + 1))" using assms by (intro le_div_geq) simp_all
  then show ?thesis by simp
qed

text \<open>The work of a target \<open>T\<close> is \<open>2^256 / (T + 1)\<close>, computed without the unrepresentable \<open>2^256\<close>.\<close>

lemma GetBlockProof_val:
  assumes "\<not> fst (snd (SetCompact (nBits b)))" "compact_number (nBits b) < 2 ^ 256" "compact_number (nBits b) \<noteq> 0"
  shows "\<exists>w. GetBlockProof b = Inr w \<and> length w = 8 \<and> bu_val w = 2 ^ 256 div (compact_number (nBits b) + 1)"
proof -
  define N :: nat where "N = 2 ^ 256"
  define T where "T = compact_number (nBits b)"
  obtain t neg ov where sc: "SetCompact (nBits b) = (t, neg, ov)" by (cases "SetCompact (nBits b)")
  have TN: "T < N - 1" using assms(2) compact_number_not_max[of "nBits b"] unfolding N_def[symmetric] T_def by linarith
  have t: "length t = 8" "bu_val t = T" "\<not> neg" "\<not> ov"
    using SetCompact_val[of "nBits b"] SetCompact_overflow[of "nBits b"] assms(1,2) unfolding sc T_def by (simp_all del: power_numeral)
  have one: "length (uint256_of_u64 1) = 8" "bu_val (uint256_of_u64 1) = 1"
    by (simp_all add: uint256_of_u64_def bu_of_u64_val)
  have z: "\<not> EqualTo t 0" using t assms(3) by (simp add: EqualTo_val T_def)
  have d: "bu_val (bu_add t (uint256_of_u64 1)) = T + 1" "length (bu_add t (uint256_of_u64 1)) = 8"
    using bu_add_val[of t "uint256_of_u64 1"] t one TN by (simp_all add: N_def)
  have n: "bu_val (bu_compl t) = N - 1 - T" using t by (simp add: bu_compl_val N_def)
  obtain q where q: "bu_div (bu_compl t) (bu_add t (uint256_of_u64 1)) = Inr q" "length q = 8" "bu_val q = (N - 1 - T) div (T + 1)"
    using bu_div_val(2)[of "bu_compl t" "bu_add t (uint256_of_u64 1)"] t d n by auto
  have sum: "(N - 1 - T) div (T + 1) + 1 = N div (T + 1)" using TN by (intro block_proof_div) simp
  have "N div (T + 1) < N" using assms(3) by (intro div_less_dividend) (simp_all add: T_def N_def)
  then have "bu_val (bu_add q (uint256_of_u64 1)) = N div (T + 1)" "length (bu_add q (uint256_of_u64 1)) = 8"
    using bu_add_val[of q "uint256_of_u64 1"] q(2,3) one sum by (simp_all add: N_def)
  then show ?thesis using q(1) z t(3,4) unfolding N_def T_def by (simp add: GetBlockProof_def sc)
qed

section \<open>Properties\<close>

lemma wf_line_store: "wf_index UNIV line_store"
  by (auto simp: wf_index_def line_store_def CBlockIndex_null_def)

lemma chain_ok_line: "chain_ok UNIV line_store (map Some [0..<n])"
  by (auto simp: chain_ok_def entry_ok_def line_store_def)

lemma times_line_store: "n < 2 ^ 32 \<Longrightarrow> times_ordered line_store (map Some [0..<n])"
proof -
  assume n: "n < 2 ^ 32"
  have "GetBlockTimeMax (line_store i) = int i" if "i < n" for i
  proof -
    have "i mod 2 ^ 32 = i" using that n by simp
    then show ?thesis by (simp add: GetBlockTimeMax_def line_store_def uint_nat unat_of_nat)
  qed
  then show ?thesis by (simp add: times_ordered_def)
qed

text \<open>
  C27.  On a well-formed block tree \<open>GetAncestor\<close> returns without failing its assertion, whatever skip
  pointers are set: the null pointer for a height outside the branch, and otherwise exactly the block
  that following \<open>pprev\<close> would reach, which has the requested height.
\<close>

theorem GetAncestor_correct:
  assumes "wf_index V st" "p \<in> V"
  shows "GetAncestor st p h = Some (if h < 0 \<or> h > nHeight (st p) then None else nth_parent st p (nat (nHeight (st p)) - nat h)) \<and>
    (0 \<le> h \<and> h \<le> nHeight (st p) \<longrightarrow> (\<exists>q \<in> V. GetAncestor st p h = Some (Some q) \<and> nHeight (st q) = h))"
  using GetAncestor_eq[OF assms] GetAncestor_height[OF assms] by blast

theorem GetAncestor_correct_witness:
  "\<exists>q. GetAncestor line_store 9 4 = Some (Some q) \<and> nHeight (line_store q) = 4"
proof -
  have "0 \<le> (4 :: int) \<and> 4 \<le> nHeight (line_store 9)" by (simp add: line_store_def)
  then show ?thesis using GetAncestor_correct[OF wf_line_store UNIV_I, of 9 4] by blast
qed

text \<open>
  C28.  \<open>BuildSkip\<close> on a well-formed tree succeeds, sets the skip pointer of every block but the genesis
  block and keeps the tree well-formed; \<open>SetTip\<close> on a well-formed chain terminates and leaves a
  well-formed chain of exactly the ancestors of the new tip.
\<close>

theorem chain_operations_keep_invariants:
  assumes "wf_index V st" "chain_ok V st c" "p \<in> V"
  shows "(\<exists>st'. BuildSkip st p = Some st' \<and> wf_index V st' \<and> (pprev (st p) \<noteq> None \<longrightarrow> pskip (st' p) \<noteq> None)) \<and>
    (\<exists>c'. SetTip st c (Some p) = Some c' \<and> chain_ok V st c' \<and> CChain_Tip c' = Some p \<and>
       CChain_Height c' = nHeight (st p) \<and> (\<forall>i < length c'. c' ! i = nth_parent st p (length c' - 1 - i)))"
proof -
  obtain c' where c': "SetTip st c (Some p) = Some c'" "chain_ok V st c'" "CChain_Tip c' = Some p" "CChain_Height c' = nHeight (st p)"
    using SetTip_ok[OF assms] by blast
  have len: "0 < length c'" "c' ! (length c' - 1) = Some p" using c'(3) by (auto simp: CChain_Tip_def split: if_splits)
  have "c' ! i = nth_parent st p (length c' - 1 - i)" if "i < length c'" for i
    using chain_ok_nth_parent[OF c'(2) _ len(2), of "length c' - 1 - i"] len(1) that by simp
  then show ?thesis using BuildSkip_wf[OF assms(1,3)] c' by blast
qed

theorem chain_operations_keep_invariants_witness:
  "\<exists>c'. SetTip line_store (map Some [0..<3]) (Some 5) = Some c' \<and> chain_ok UNIV line_store c' \<and> CChain_Tip c' = Some 5"
  using chain_operations_keep_invariants[OF wf_line_store chain_ok_line UNIV_I, of 5 3] by blast

text \<open>
  C18.  On a well-formed tree and chain, \<open>FindFork\<close> terminates and returns the first block, going from the
  given block towards the genesis block, that is in the chain, or null when none is.
\<close>

theorem FindFork_correct:
  assumes "wf_index V st" "chain_ok V st c" "c \<noteq> []" "p \<in> V"
  shows "\<exists>r. FindFork st c (Some p) = Some r \<and>
    (case r of
       None \<Rightarrow> \<forall>k q. nth_parent st p k = Some q \<longrightarrow> \<not> CChain_Contains st c q
     | Some f \<Rightarrow> CChain_Contains st c f \<and>
         (\<exists>k. nth_parent st p k = Some f \<and> (\<forall>j < k. \<forall>q. nth_parent st p j = Some q \<longrightarrow> \<not> CChain_Contains st c q)))"
  using FindFork_ok[OF assms] unfolding last_common_def chain_ok_contains[OF assms(2)] .

theorem FindFork_correct_witness:
  "\<exists>r. FindFork line_store (map Some [0..<3]) (Some 7) = Some r \<and>
    (r = None \<longrightarrow> \<not> CChain_Contains line_store (map Some [0..<3]) 7)"
  using FindFork_correct[OF wf_line_store chain_ok_line _ UNIV_I, of 3 7]
  by (auto split: option.splits dest: spec[of _ 0])

text \<open>
  C29.  \<open>GetLocator\<close> terminates; its hashes are those of the start block, then of ancestors of it at
  strictly decreasing heights, and the last is the hash of a block of height 0.
\<close>

theorem GetLocator_correct:
  assumes "wf_index V st" "chain_ok V st c" "p \<in> V"
  shows "\<exists>ps. GetLocator st c (Some p) = Some (map (\<lambda>q. hashBlock (st q)) (p # ps)) \<and>
    sorted_wrt (\<lambda>a b. nHeight (st a) > nHeight (st b)) (p # ps) \<and>
    (\<forall>q \<in> set (p # ps). nth_parent st p (nat (nHeight (st p)) - nat (nHeight (st q))) = Some q) \<and>
    nHeight (st (last (p # ps))) = 0"
proof -
  have "GetLocator st c (Some p) = GetLocator_loop (nat (nHeight (st p)) + 2) st c 1 [] (Some p)"
    by (simp add: GetLocator_def Let_def)
  moreover obtain ps where "GetLocator_loop (nat (nHeight (st p)) + 2) st c 1 [] (Some p) = Some ([] @ map (\<lambda>q. hashBlock (st q)) (p # ps))"
    "sorted_wrt (\<lambda>a b. nHeight (st a) > nHeight (st b)) (p # ps)"
    "\<forall>q \<in> set (p # ps). q \<in> V \<and> nth_parent st p (height st p - height st q) = Some q" "nHeight (st (last (p # ps))) = 0"
    using GetLocator_loop_ok[OF assms, of "nat (nHeight (st p)) + 2" 1 "[]"] by (auto simp del: GetLocator_loop.simps)
  ultimately show ?thesis by (intro exI[of _ ps]) (simp only: append_Nil, blast)
qed

theorem GetLocator_correct_witness:
  "\<exists>ps. GetLocator line_store (map Some [0..<3]) (Some 20) = Some (map (\<lambda>q. hashBlock (line_store q)) (20 # ps)) \<and>
    nHeight (line_store (last (20 # ps))) = 0"
  using GetLocator_correct[OF wf_line_store chain_ok_line UNIV_I, of 3 20] by blast

text \<open>
  C27.  When the maximal times are ordered along the chain, the bisection of \<open>FindEarliestAtLeast\<close> returns
  the lowest block whose maximal time is at least the given time, and null when there is none.
\<close>

theorem FindEarliestAtLeast_correct:
  assumes "times_ordered st c"
  shows "\<exists>i \<le> length c. (\<forall>j < i. GetBlockTimeMax (st (the (c ! j))) < t) \<and>
    (\<forall>j. i \<le> j \<and> j < length c \<longrightarrow> GetBlockTimeMax (st (the (c ! j))) \<ge> t) \<and>
    FindEarliestAtLeast st c t = (if i = length c then None else c ! i)"
proof -
  let ?lt = "\<lambda>p. GetBlockTimeMax (st (the p)) < t"
  have mono: "?lt (c ! i)" if "i \<le> j" "j < length c" "?lt (c ! j)" for i j
    using assms that unfolding times_ordered_def by (meson le_less_trans)
  let ?i = "lower_bound ?lt c 0 (length c)"
  have "?i \<le> length c" "\<And>j. j < ?i \<Longrightarrow> ?lt (c ! j)" "\<And>j. ?i \<le> j \<Longrightarrow> j < length c \<Longrightarrow> \<not> ?lt (c ! j)"
    using lower_bound_spec[of c ?lt 0 "length c", OF mono] by auto
  then show ?thesis by (intro exI[of _ ?i]) (auto simp: FindEarliestAtLeast_def Let_def not_less)
qed

theorem FindEarliestAtLeast_correct_witness:
  "\<exists>i \<le> length (map Some [0..<3]).
    FindEarliestAtLeast line_store (map Some [0..<3]) 2 = (if i = length (map Some [0..<3]) then None else map Some [0..<3] ! i)"
proof -
  have "(3 :: nat) < 2 ^ 32" by simp
  from FindEarliestAtLeast_correct[OF times_line_store[OF this], of 2] show ?thesis by blast
qed

text \<open>
  C20.  The work \<open>GetBlockProof\<close> credits a block with is 2 to the 256 divided by its target plus one,
  exactly; it never divides by zero; and it is zero when the target is negative, zero or overflows.
\<close>

theorem GetBlockProof_correct:
  "\<exists>w. GetBlockProof b = Inr w \<and> length w = 8 \<and>
    bu_val w = (if fst (snd (SetCompact (nBits b))) \<or> compact_number (nBits b) \<ge> 2 ^ 256 \<or> compact_number (nBits b) = 0 then 0
                else 2 ^ 256 div (compact_number (nBits b) + 1))"
proof (cases "fst (snd (SetCompact (nBits b))) \<or> compact_number (nBits b) \<ge> 2 ^ 256 \<or> compact_number (nBits b) = 0")
  case True
  obtain t neg ov where sc: "SetCompact (nBits b) = (t, neg, ov)" by (cases "SetCompact (nBits b)")
  have t: "length t = 8" "bu_val t = compact_number (nBits b) mod 2 ^ 256" "ov \<longleftrightarrow> 2 ^ 256 \<le> compact_number (nBits b)"
    using SetCompact_val[of "nBits b"] SetCompact_overflow[of "nBits b"] unfolding sc by (simp_all del: power_numeral)
  have "neg \<or> ov \<or> EqualTo t 0" using True t by (auto simp: sc EqualTo_val simp del: power_numeral)
  then have "GetBlockProof b = Inr (uint256_of_u64 0)" by (auto simp: GetBlockProof_def sc)
  then show ?thesis using True by (simp add: uint256_of_u64_def bu_of_u64_val)
next
  case False
  then show ?thesis using GetBlockProof_val[of b] by (simp del: power_numeral)
qed

end
