(* ===== verification/Pow.thy ===== *)
theory Pow
  imports Chain "HOL-Library.Signed_Division"
begin

text \<open>
  Proof of work: \<^verbatim>\<open>sige/src/pow.cpp\<close> on the consensus parameters of \<^verbatim>\<open>sige/src/consensus/params.h\<close>.  The
  retargeting rule is modelled down to the overload of the multiplication that the 64-bit time span
  selects (\<open>operator*=(uint32_t)\<close>) and to the truncation of the 256-bit product.
\<close>

record BIP9Deployment =
  bip9_bit :: int
  bip9_nStartTime :: int
  bip9_nTimeout :: int

record Params =
  hashGenesisBlock :: uint256
  nSubsidyHalvingInterval :: int
  BIP34Height :: int
  BIP34Hash :: uint256
  BIP65Height :: int
  BIP66Height :: int
  nRuleChangeActivationThreshold :: u32
  nMinerConfirmationWindow :: u32
  vDeployments :: "BIP9Deployment list"
  powLimit :: uint256
  fPowAllowMinDifficultyBlocks :: bool
  fPowNoRetargeting :: bool
  nPowTargetSpacing :: int
  nPowTargetTimespan :: int
  nMinimumChainWork :: uint256
  defaultAssumeValid :: uint256

definition DifficultyAdjustmentInterval :: "Params \<Rightarrow> int" where
  "DifficultyAdjustmentInterval params = nPowTargetTimespan params sdiv nPowTargetSpacing params"

datatype pow_error = AssertionFailed | UintError uint_error | OutOfFuel

definition GetCompact_or_fail :: "uint256 \<Rightarrow> pow_error + u32" where
  "GetCompact_or_fail x = (case GetCompact x False of None \<Rightarrow> Inl AssertionFailed | Some c \<Rightarrow> Inr c)"

text \<open>The clamp of the measured time span to a factor of four around the wanted one.\<close>

definition limit_timespan :: "Params \<Rightarrow> int \<Rightarrow> int" where
  "limit_timespan params nActualTimespan =
    (let nActualTimespan = (if nActualTimespan < nPowTargetTimespan params sdiv 4
                            then nPowTargetTimespan params sdiv 4 else nActualTimespan)
     in if nActualTimespan > nPowTargetTimespan params * 4 then nPowTargetTimespan params * 4 else nActualTimespan)"

definition CalculateNextWorkRequired :: "CBlockIndex \<Rightarrow> int \<Rightarrow> Params \<Rightarrow> pow_error + u32" where
  "CalculateNextWorkRequired pindexLast nFirstBlockTime params =
    (if fPowNoRetargeting params then Inr (nBits pindexLast)
     else let nActualTimespan = limit_timespan params (GetBlockTime pindexLast - nFirstBlockTime);
              bnPowLimit = UintToArith256 (powLimit params);
              bnNew = fst (SetCompact (nBits pindexLast));
              bnNew = bu_mul32 bnNew (word_of_int nActualTimespan)
          in case bu_div bnNew (uint256_of_u64 (word_of_int (nPowTargetTimespan params))) of
               Inl e \<Rightarrow> Inl (UintError e)
             | Inr bnNew \<Rightarrow> GetCompact_or_fail (if CompareTo bnNew bnPowLimit > 0 then bnPowLimit else bnNew))"

text \<open>The walk back over minimum-difficulty blocks; the first argument bounds the rounds.\<close>

primrec last_non_special :: "nat \<Rightarrow> store \<Rightarrow> Params \<Rightarrow> u32 \<Rightarrow> ptr \<Rightarrow> u32 option" where
  "last_non_special 0 st params limit p = None"
| "last_non_special (Suc n) st params limit p =
    (case pprev (st p) of
       None \<Rightarrow> Some (nBits (st p))
     | Some q \<Rightarrow>
         if nHeight (st p) smod DifficultyAdjustmentInterval params \<noteq> 0 \<and> nBits (st p) = limit
         then last_non_special n st params limit q
         else Some (nBits (st p)))"

definition GetNextWorkRequired :: "store \<Rightarrow> ptr option \<Rightarrow> CBlockHeader \<Rightarrow> Params \<Rightarrow> pow_error + u32" where
  "GetNextWorkRequired st pindexLast pblock params =
    (case GetCompact_or_fail (UintToArith256 (powLimit params)) of
       Inl e \<Rightarrow> Inl e
     | Inr nProofOfWorkLimit \<Rightarrow>
         (case pindexLast of
            None \<Rightarrow> Inr nProofOfWorkLimit
          | Some p \<Rightarrow>
              if (nHeight (st p) + 1) smod DifficultyAdjustmentInterval params \<noteq> 0
              then if fPowAllowMinDifficultyBlocks params
                   then if uint (bhTime pblock) > GetBlockTime (st p) + nPowTargetSpacing params * 2
                        then Inr nProofOfWorkLimit
                        else case last_non_special (Suc (nat (nHeight (st p)))) st params nProofOfWorkLimit p of
                               None \<Rightarrow> Inl OutOfFuel
                             | Some b \<Rightarrow> Inr b
                   else Inr (nBits (st p))
              else let nHeightFirst = nHeight (st p) - (DifficultyAdjustmentInterval params - 1)
                   in if \<not> nHeightFirst \<ge> 0 then Inl AssertionFailed
                      else case GetAncestor st p nHeightFirst of
                             Some (Some q) \<Rightarrow> CalculateNextWorkRequired (st p) (GetBlockTime (st q)) params
                           | _ \<Rightarrow> Inl AssertionFailed))"

definition CheckProofOfWork :: "uint256 \<Rightarrow> u32 \<Rightarrow> Params \<Rightarrow> bool" where
  "CheckProofOfWork hash bits params =
    (case SetCompact bits of (bnTarget, fNegative, fOverflow) \<Rightarrow>
       if fNegative \<or> EqualTo bnTarget 0 \<or> fOverflow \<or> CompareTo bnTarget (UintToArith256 (powLimit params)) > 0 then False
       else if CompareTo (UintToArith256 hash) bnTarget > 0 then True
       else True)"

text \<open>
  The consensus parameters of the main network (\<^verbatim>\<open>chainparams_1_mainnet.cpp\<close>); the hash of the genesis
  block is the value the constructor asserts.
\<close>

definition main_params :: Params where
  "main_params =
    \<lparr>hashGenesisBlock = [0x013fe737, 0xecb59354, 0x3b945228, 0x8411a21f, 0xb6869bcb, 0x00284b8a, 0x09205a1b, 0x01142a6a],
     nSubsidyHalvingInterval = 840000, BIP34Height = 710000,
     BIP34Hash = [0xeb9d51cf, 0xc7b4329a, 0x0cff1226, 0x043abf42, 0x41fa62f2, 0xd5a7c8d4, 0xa83a768e, 0xfa09d204],
     BIP65Height = 918684, BIP66Height = 811879,
     nRuleChangeActivationThreshold = 6048, nMinerConfirmationWindow = 8064,
     vDeployments = [\<lparr>bip9_bit = 28, bip9_nStartTime = 1493624146, bip9_nTimeout = 1498808380\<rparr>,
                     \<lparr>bip9_bit = 0, bip9_nStartTime = 1498894840, bip9_nTimeout = 1504197832\<rparr>,
                     \<lparr>bip9_bit = 1, bip9_nStartTime = 1482163818, bip9_nTimeout = 1501431220\<rparr>],
     powLimit = [0xffffffff, 0xffffffff, 0xffffffff, 0xffffffff, 0xffffffff, 0xffffffff, 0xffffffff, 0x00000fff],
     fPowAllowMinDifficultyBlocks = True, fPowNoRetargeting = False,
     nPowTargetSpacing = 150, nPowTargetTimespan = 302400,
     nMinimumChainWork = [0xce2736c0, 0x805c7318, 0x00000006, 0x00000000, 0x00000000, 0x00000000, 0x00000000, 0x00000000],
     defaultAssumeValid = [0x44f2e56a, 0x29764207, 0x40e22edc, 0x4511a7e6, 0x82c7af97, 0xca83d5ca, 0x4a93848e, 0x1673fa90]\<rparr>"

section \<open>Retargeting\<close>

lemma sdiv_nonneg: "0 \<le> a \<Longrightarrow> 0 \<le> b \<Longrightarrow> (a :: int) sdiv b = a div b"
  by (auto simp: signed_divide_int_def sgn_if)

lemma limit_timespan_range:
  assumes "0 < nPowTargetTimespan params"
  shows "nPowTargetTimespan params div 4 \<le> limit_timespan params a" "limit_timespan params a \<le> nPowTargetTimespan params * 4"
  using assms by (auto simp: limit_timespan_def Let_def sdiv_nonneg)

lemma uint_word_of_int_id: "0 \<le> k \<Longrightarrow> k < 2 ^ LENGTH('a) \<Longrightarrow> uint (word_of_int k :: 'a::len word) = k"
  by (simp add: uint_word_of_int)

text \<open>The new target: the old one scaled, the product cut to 256 bits, and bounded by the limit.\<close>

definition retarget :: "Params \<Rightarrow> CBlockIndex \<Rightarrow> int \<Rightarrow> nat" where
  "retarget params b t =
    (compact_number (nBits b) mod 2 ^ 256 * nat (limit_timespan params (GetBlockTime b - t)) mod 2 ^ 256)
      div nat (nPowTargetTimespan params)"

lemma CalculateNextWorkRequired_val:
  assumes "\<not> fPowNoRetargeting params" "0 < nPowTargetTimespan params" "nPowTargetTimespan params < 2 ^ 30"
    "length (powLimit params) = 8"
  shows "\<exists>y. CalculateNextWorkRequired b t params = GetCompact_or_fail y \<and> length y = 8 \<and>
    bu_val y = min (retarget params b t) (bu_val (powLimit params))"
proof -
  let ?a = "limit_timespan params (GetBlockTime b - t)" and ?s = "nPowTargetTimespan params"
  let ?x = "fst (SetCompact (nBits b))" and ?d = "uint256_of_u64 (word_of_int ?s)"
  have a: "0 \<le> ?a" "?a < 2 ^ 32" using limit_timespan_range[OF assms(2), of "GetBlockTime b - t"] assms(2,3) by simp_all
  have ua: "unat (word_of_int ?a :: u32) = nat ?a" using uint_word_of_int_id[of ?a, where 'a = 32] a by (simp add: unat_eq_nat_uint)
  have us: "unat (word_of_int ?s :: u64) = nat ?s" using uint_word_of_int_id[of ?s, where 'a = 64] assms(2,3) by (simp add: unat_eq_nat_uint)
  have m: "length (bu_mul32 ?x (word_of_int ?a)) = 8"
    "bu_val (bu_mul32 ?x (word_of_int ?a)) = compact_number (nBits b) mod 2 ^ 256 * nat ?a mod 2 ^ 256"
    using bu_mul32_val[of ?x "word_of_int ?a"] SetCompact_val[of "nBits b"] by (simp_all add: ua)
  have d: "length ?d = 8" "bu_val ?d = nat ?s" by (simp_all add: uint256_of_u64_def bu_of_u64_val us)
  obtain q where q: "bu_div (bu_mul32 ?x (word_of_int ?a)) ?d = Inr q" "length q = 8" "bu_val q = retarget params b t"
    using bu_div_val(2)[of "bu_mul32 ?x (word_of_int ?a)" ?d] m d assms(2) by (auto simp: retarget_def)
  let ?y = "if CompareTo q (powLimit params) > 0 then powLimit params else q"
  have "bu_val ?y = min (retarget params b t) (bu_val (powLimit params))" "length ?y = 8"
    using q assms(4) by (auto simp: CompareTo_val)
  moreover have "CalculateNextWorkRequired b t params = GetCompact_or_fail ?y"
    using assms(1) q(1) by (simp add: CalculateNextWorkRequired_def Let_def UintToArith256_def)
  ultimately show ?thesis by blast
qed

lemma GetCompact_or_fail_total:
  assumes "length y = 8"
  shows "\<exists>c. GetCompact_or_fail y = Inr c \<and> snd (SetCompact c) = (False, False) \<and>
    bu_val (fst (SetCompact c)) \<le> bu_val y \<and> (bu_val y - bu_val (fst (SetCompact c))) * 2 ^ 15 \<le> bu_val y"
proof -
  obtain c where c: "GetCompact y False = Some c" using GetCompact_total[OF assms] by blast
  note r = SetCompact_GetCompact[OF assms c refl]
  show ?thesis
    by (intro exI[of _ c] conjI r(6)) (simp_all only: GetCompact_or_fail_def c option.case r(5) compact_loss[OF assms c])
qed

lemma retarget_no_overflow:
  assumes "0 < nPowTargetTimespan params" "compact_number (nBits b) * nat (nPowTargetTimespan params * 4) < 2 ^ 256"
  shows "retarget params b t =
      compact_number (nBits b) * nat (limit_timespan params (GetBlockTime b - t)) div nat (nPowTargetTimespan params)"
    "retarget params b t \<le> 4 * compact_number (nBits b)"
proof -
  let ?T = "compact_number (nBits b)" and ?s = "nat (nPowTargetTimespan params)"
  let ?a = "nat (limit_timespan params (GetBlockTime b - t))"
  have a: "?a \<le> nat (nPowTargetTimespan params * 4)" using limit_timespan_range(2)[OF assms(1)] by (rule nat_mono)
  then have p: "?T * ?a < 2 ^ 256" using assms(2) by (meson le_less_trans mult_le_mono2)
  have "1 \<le> nat (nPowTargetTimespan params * 4)" using assms(1) by simp
  then have "?T * 1 < 2 ^ 256" using assms(2) by (meson le_less_trans mult_le_mono2)
  then have "?T mod 2 ^ 256 = ?T" by simp
  then show r: "retarget params b t = ?T * ?a div ?s" using p by (simp only: retarget_def mod_less)
  have "?a \<le> ?s * 4" using a assms(1) by (simp add: nat_mult_distrib)
  then have "?T * ?a div ?s \<le> ?T * (?s * 4) div ?s" by (intro div_le_mono mult_le_mono2)
  also have "\<dots> = 4 * ?T" using assms(1) by (simp add: mult.left_commute[of _ ?s] mult.commute)
  finally show "retarget params b t \<le> 4 * ?T" unfolding r .
qed

section \<open>Bounds and termination of the difficulty rule\<close>

lemma last_non_special_total:
  assumes "wf_index V st"
  shows "p \<in> V \<Longrightarrow> nat (nHeight (st p)) < n \<Longrightarrow> \<exists>b. last_non_special n st params limit p = Some b"
proof (induction n arbitrary: p)
  case (Suc n)
  show ?case
  proof (cases "pprev (st p)")
    case (Some q)
    note w = wf_index_parent(3,4)[OF assms Suc.prems(1) Some]
    then show ?thesis using Suc.IH[OF w(1)] Suc.prems(2) Some by simp
  qed simp
qed simp

text \<open>
  C30.  With a positive time span below \<open>2^30\<close> seconds the retargeting returns a compact target that is
  neither negative nor overflowing and never above the proof-of-work limit; and when four times the
  old target times the span fits in 256 bits, the new target is at most four times the old one, and
  the old target scaled by the clamped time ratio up to the rounding of the compact format.
\<close>

theorem CalculateNextWorkRequired_bounds:
  assumes "\<not> fPowNoRetargeting params" "0 < nPowTargetTimespan params" "nPowTargetTimespan params < 2 ^ 30"
    "length (powLimit params) = 8"
  shows "\<exists>c. CalculateNextWorkRequired b t params = Inr c \<and> snd (SetCompact c) = (False, False) \<and>
    bu_val (fst (SetCompact c)) \<le> bu_val (powLimit params) \<and>
    (compact_number (nBits b) * nat (nPowTargetTimespan params * 4) < 2 ^ 256 \<longrightarrow>
      bu_val (fst (SetCompact c)) \<le> 4 * compact_number (nBits b) \<and>
      (let new = min (compact_number (nBits b) * nat (limit_timespan params (GetBlockTime b - t)) div nat (nPowTargetTimespan params))
                     (bu_val (powLimit params))
       in bu_val (fst (SetCompact c)) \<le> new \<and> (new - bu_val (fst (SetCompact c))) * 2 ^ 15 \<le> new))"
proof -
  obtain y where y: "CalculateNextWorkRequired b t params = GetCompact_or_fail y" "length y = 8"
    "bu_val y = min (retarget params b t) (bu_val (powLimit params))"
    using CalculateNextWorkRequired_val[OF assms] by blast
  obtain c where c: "GetCompact_or_fail y = Inr c" "snd (SetCompact c) = (False, False)"
    "bu_val (fst (SetCompact c)) \<le> bu_val y" "(bu_val y - bu_val (fst (SetCompact c))) * 2 ^ 15 \<le> bu_val y"
    using GetCompact_or_fail_total[OF y(2)] by blast
  have le: "bu_val (fst (SetCompact c)) \<le> bu_val (powLimit params)" using c(3) y(3) by simp
  have fit: "bu_val (fst (SetCompact c)) \<le> 4 * compact_number (nBits b) \<and>
      (let new = min (compact_number (nBits b) * nat (limit_timespan params (GetBlockTime b - t)) div nat (nPowTargetTimespan params))
                     (bu_val (powLimit params))
       in bu_val (fst (SetCompact c)) \<le> new \<and> (new - bu_val (fst (SetCompact c))) * 2 ^ 15 \<le> new)"
    if "compact_number (nBits b) * nat (nPowTargetTimespan params * 4) < 2 ^ 256"
  proof -
    note r = retarget_no_overflow[OF assms(2) that, of t]
    have "bu_val (fst (SetCompact c)) \<le> retarget params b t" using c(3) y(3) by simp
    then have "bu_val (fst (SetCompact c)) \<le> 4 * compact_number (nBits b)" using r(2) by linarith
    then show ?thesis using c(3,4) unfolding y(3) r(1) Let_def by (intro conjI)
  qed
  show ?thesis by (intro exI[of _ c] conjI impI c(2) le fit) (simp_all only: y(1) c(1))
qed

theorem CalculateNextWorkRequired_bounds_witness:
  "\<exists>c. CalculateNextWorkRequired (CBlockIndex_null\<lparr>nBits := 0x1d00ffff\<rparr>) 0 main_params = Inr c \<and>
    bu_val (fst (SetCompact c)) \<le> bu_val (powLimit main_params)"
proof -
  have "\<not> fPowNoRetargeting main_params" "0 < nPowTargetTimespan main_params" "nPowTargetTimespan main_params < 2 ^ 30"
    "length (powLimit main_params) = 8" by (simp_all add: main_params_def)
  from CalculateNextWorkRequired_bounds[OF this] show ?thesis by blast
qed

text \<open>
  Three cases of the unit test \<^verbatim>\<open>test/pow_tests.cpp\<close> with the parameters of the main network as they are: the test
  expects \<open>0x1d00d86a\<close>, \<open>0x1d00ffff\<close> and \<open>0x1c0168fd\<close>.
\<close>

lemma next_work_eval:
  assumes "v = min (retarget main_params b t) (bu_val (powLimit main_params))" "0 < k" "256 ^ (k - 1) \<le> v" "v < 256 ^ k"
  shows "CalculateNextWorkRequired b t main_params = Inr (of_nat (enc_mant k v + enc_exp k v * 2 ^ 24))"
proof -
  have P: "\<not> fPowNoRetargeting main_params" "0 < nPowTargetTimespan main_params" "nPowTargetTimespan main_params < 2 ^ 30"
    "length (powLimit main_params) = 8" by (simp_all add: main_params_def)
  from CalculateNextWorkRequired_val[OF P, of b t] obtain y where
    "CalculateNextWorkRequired b t main_params = GetCompact_or_fail y" "length y = 8" "bu_val y = v" using assms(1) by auto
  then show ?thesis using GetCompact_eval[of y k] assms(2-) by (simp add: GetCompact_or_fail_def)
qed

lemmas next_work_simps = retarget_def limit_timespan_def main_params_def GetBlockTime_def CBlockIndex_null_def sdiv_nonneg Let_def
  compact_number_def compact_exp_def compact_mant_def enc_mant_def enc_exp_def enc_size0_def

theorem pow_tests_values:
  "CalculateNextWorkRequired (CBlockIndex_null\<lparr>nTime := 1262152739, nBits := 0x1d00ffff\<rparr>) 1261130161 main_params = Inr 0x1d0361a9 \<and>
   CalculateNextWorkRequired (CBlockIndex_null\<lparr>nTime := 1233061996, nBits := 0x1d00ffff\<rparr>) 1231006505 main_params = Inr 0x1d03fffc \<and>
   CalculateNextWorkRequired (CBlockIndex_null\<lparr>nTime := 1279297671, nBits := 0x1c05a3f4\<rparr>) 1279008237 main_params = Inr 0x1c05660a"
proof (intro conjI)
  show "CalculateNextWorkRequired (CBlockIndex_null\<lparr>nTime := 1262152739, nBits := 0x1d00ffff\<rparr>) 1261130161 main_params = Inr 0x1d0361a9"
    by (subst next_work_eval[OF refl, where k = 29]) (simp_all add: next_work_simps)
  show "CalculateNextWorkRequired (CBlockIndex_null\<lparr>nTime := 1233061996, nBits := 0x1d00ffff\<rparr>) 1231006505 main_params = Inr 0x1d03fffc"
    by (subst next_work_eval[OF refl, where k = 29]) (simp_all add: next_work_simps)
  show "CalculateNextWorkRequired (CBlockIndex_null\<lparr>nTime := 1279297671, nBits := 0x1c05a3f4\<rparr>) 1279008237 main_params = Inr 0x1c05660a"
    by (subst next_work_eval[OF refl, where k = 28]) (simp_all add: next_work_simps)
qed

text \<open>
  C31.  The product of the retargeting is cut to 256 bits: with the parameters of the main network, a
  block at the proof-of-work limit whose period took four times too long or longer gets a new target
  below six tenths of the old one, although the rule asks for the easiest target.
\<close>

theorem retarget_overflow_lowers_target:
  assumes "nBits b = 0x1e0fffff" "GetBlockTime b - t \<ge> 4 * 302400"
  shows "\<exists>c. CalculateNextWorkRequired b t main_params = Inr c \<and>
    10 * bu_val (fst (SetCompact c)) < 6 * compact_number (nBits b) \<and>
    compact_number (nBits b) \<le> bu_val (powLimit main_params)"
proof -
  have P: "\<not> fPowNoRetargeting main_params" "0 < nPowTargetTimespan main_params" "nPowTargetTimespan main_params < 2 ^ 30"
    "length (powLimit main_params) = 8" by (simp_all add: main_params_def)
  have T: "compact_number (nBits b) = 1048575 * 256 ^ 27"
    by (simp add: assms(1) compact_number_def compact_exp_def compact_mant_def)
  have "limit_timespan main_params (GetBlockTime b - t) = 1209600"
    using assms(2) by (simp add: limit_timespan_def main_params_def sdiv_nonneg Let_def)
  then have r: "retarget main_params b t = (1048575 * 256 ^ 27 mod 2 ^ 256 * 1209600 mod 2 ^ 256) div 302400"
    by (simp add: retarget_def T) (simp add: main_params_def)
  have "10 * ((1048575 * 256 ^ 27 mod 2 ^ 256 * 1209600 mod 2 ^ 256) div 302400) < 6 * (1048575 * 256 ^ 27 :: nat)"
    by simp
  then have small: "10 * retarget main_params b t < 6 * compact_number (nBits b)" unfolding r T .
  obtain y where y: "CalculateNextWorkRequired b t main_params = GetCompact_or_fail y" "length y = 8"
    "bu_val y = min (retarget main_params b t) (bu_val (powLimit main_params))"
    using CalculateNextWorkRequired_val[OF P] by blast
  obtain c where c: "GetCompact_or_fail y = Inr c" "bu_val (fst (SetCompact c)) \<le> bu_val y"
    using GetCompact_or_fail_total[OF y(2)] by blast
  have "bu_val (fst (SetCompact c)) \<le> retarget main_params b t" using c(2) y(3) by simp
  then have "10 * bu_val (fst (SetCompact c)) < 6 * compact_number (nBits b)" using small by linarith
  moreover have "compact_number (nBits b) \<le> bu_val (powLimit main_params)" unfolding T by (simp add: main_params_def)
  ultimately show ?thesis using y(1) c(1) by simp
qed

theorem retarget_overflow_lowers_target_witness:
  "\<exists>c. CalculateNextWorkRequired (CBlockIndex_null\<lparr>nBits := 0x1e0fffff, nTime := 2000000\<rparr>) 0 main_params = Inr c \<and>
    10 * bu_val (fst (SetCompact c)) < 6 * compact_number 0x1e0fffff"
  using retarget_overflow_lowers_target[of "CBlockIndex_null\<lparr>nBits := 0x1e0fffff, nTime := 2000000\<rparr>" 0]
  by (auto simp: GetBlockTime_def)

text \<open>
  C32.  \<open>CheckProofOfWork\<close> accepts exactly the compact targets that are positive, do not overflow and do
  not exceed the limit; the block hash has no influence on the answer.
\<close>

theorem CheckProofOfWork_ignores_hash:
  assumes "length (powLimit params) = 8"
  shows "CheckProofOfWork hash bits params \<longleftrightarrow>
    \<not> fst (snd (SetCompact bits)) \<and> 0 < compact_number bits \<and> compact_number bits < 2 ^ 256 \<and>
    compact_number bits \<le> bu_val (powLimit params)"
proof -
  obtain t neg ov where sc: "SetCompact bits = (t, neg, ov)" by (cases "SetCompact bits")
  have t: "length t = 8" "bu_val t = compact_number bits mod 2 ^ 256" "ov \<longleftrightarrow> 2 ^ 256 \<le> compact_number bits"
    using SetCompact_val[of bits] SetCompact_overflow[of bits] unfolding sc by (simp_all del: power_numeral)
  have "CheckProofOfWork hash bits params \<longleftrightarrow> \<not> neg \<and> \<not> EqualTo t 0 \<and> \<not> ov \<and> \<not> CompareTo t (powLimit params) > 0"
    by (simp add: CheckProofOfWork_def sc UintToArith256_def)
  also have "\<dots> \<longleftrightarrow> \<not> neg \<and> bu_val t \<noteq> 0 \<and> \<not> ov \<and> bu_val t \<le> bu_val (powLimit params)"
    using t(1) assms by (auto simp: EqualTo_val CompareTo_val)
  also have "\<dots> \<longleftrightarrow> \<not> neg \<and> 0 < compact_number bits \<and> compact_number bits < 2 ^ 256 \<and> compact_number bits \<le> bu_val (powLimit params)"
    unfolding t(2,3) by (cases "compact_number bits < 2 ^ 256") (auto simp: not_less simp del: power_numeral)
  finally show ?thesis by (simp add: sc)
qed

theorem CheckProofOfWork_ignores_hash_witness:
  "CheckProofOfWork (replicate 8 0xffffffff) 0x1d00ffff main_params"
  using CheckProofOfWork_ignores_hash[of main_params "replicate 8 0xffffffff" "0x1d00ffff"]
  by (simp add: main_params_def compact_number_def compact_exp_def compact_mant_def SetCompact_def Let_def)

text \<open>
  C33.  \<open>GetNextWorkRequired\<close> always returns: on a well-formed block tree no assertion fails and the walk
  over minimum-difficulty blocks ends, for any block and any positive adjustment interval.
\<close>

theorem GetNextWorkRequired_returns:
  assumes "wf_index V st" "p \<in> V" "length (powLimit params) = 8" "0 < nPowTargetTimespan params"
    "nPowTargetTimespan params < 2 ^ 30" "0 < nPowTargetSpacing params" "nPowTargetSpacing params \<le> nPowTargetTimespan params"
  shows "(\<exists>c. GetNextWorkRequired st None blk params = Inr c) \<and> (\<exists>c. GetNextWorkRequired st (Some p) blk params = Inr c)"
proof -
  let ?I = "DifficultyAdjustmentInterval params"
  obtain l where l: "GetCompact_or_fail (powLimit params) = Inr l" using GetCompact_or_fail_total[OF assms(3)] by blast
  have I: "0 < ?I" using assms(4,6,7) by (simp add: DifficultyAdjustmentInterval_def sdiv_nonneg pos_imp_zdiv_pos_iff)
  have h0: "0 \<le> nHeight (st p)" using wf_index_parent(1)[OF assms(1,2)] .
  obtain w where w: "last_non_special (Suc (nat (nHeight (st p)))) st params l p = Some w"
    using last_non_special_total[OF assms(1,2), of "Suc (nat (nHeight (st p)))"] by auto
  have "\<exists>c. GetNextWorkRequired st (Some p) blk params = Inr c"
  proof (cases "(nHeight (st p) + 1) smod ?I = 0")
    case False
    then show ?thesis using l w by (simp add: GetNextWorkRequired_def UintToArith256_def del: last_non_special.simps)
  next
    case True
    let ?f = "nHeight (st p) - (?I - 1)"
    have "?I dvd nHeight (st p) + 1" using True I h0 by (auto simp: signed_modulo_int_def sgn_if)
    then have "?I \<le> nHeight (st p) + 1" using h0 by (intro zdvd_imp_le) simp_all
    then have f: "0 \<le> ?f" "?f \<le> nHeight (st p)" using I by simp_all
    obtain q where q: "GetAncestor st p ?f = Some (Some q)" using GetAncestor_height[OF assms(1,2) f] by blast
    have "\<exists>c. CalculateNextWorkRequired (st p) (GetBlockTime (st q)) params = Inr c"
    proof (cases "fPowNoRetargeting params")
      case False
      obtain y where y: "CalculateNextWorkRequired (st p) (GetBlockTime (st q)) params = GetCompact_or_fail y" "length y = 8"
        using CalculateNextWorkRequired_val[OF False assms(4,5,3)] by blast
      then show ?thesis using GetCompact_or_fail_total[OF y(2)] by auto
    qed (simp add: CalculateNextWorkRequired_def)
    then show ?thesis using True f(1) q l by (simp add: GetNextWorkRequired_def UintToArith256_def)
  qed
  then show ?thesis using l by (simp add: GetNextWorkRequired_def UintToArith256_def)
qed

theorem GetNextWorkRequired_returns_witness:
  "\<exists>c. GetNextWorkRequired line_store (Some 4031) \<lparr>bhVersion = 1, bhPrevBlock = [], bhMerkleRoot = [], bhTime = 0, bhBits = 0, bhNonce = 0\<rparr> main_params = Inr c"
proof -
  have "length (powLimit main_params) = 8" "0 < nPowTargetTimespan main_params" "nPowTargetTimespan main_params < 2 ^ 30"
    "0 < nPowTargetSpacing main_params" "nPowTargetSpacing main_params \<le> nPowTargetTimespan main_params"
    by (simp_all add: main_params_def)
  from GetNextWorkRequired_returns[OF wf_line_store UNIV_I this] show ?thesis by blast
qed

end
