(* ===== verification/VersionBits.thy ===== *)
theory VersionBits
  imports Pow
begin

text \<open>
  BIP 9 version bits: \<^verbatim>\<open>sige/src/versionbits.h\<close> and \<^verbatim>\<open>sige/src/versionbits.cpp\<close>.  The abstract checker is a
  record of what its virtual functions return under fixed parameters; the cache is a map from the
  block before a period (\<open>None\<close> is the null pointer before the genesis block) to a state, threaded
  through the calls.  The result \<open>None\<close> stands for a null pointer dereference, a failed assertion or
  an exhausted bound on the number of rounds; the theorems exclude all three.
\<close>

datatype ThresholdState =
  THRESHOLD_DEFINED | THRESHOLD_STARTED | THRESHOLD_LOCKED_IN | THRESHOLD_ACTIVE | THRESHOLD_FAILED

type_synonym ThresholdConditionCache = "ptr option \<Rightarrow> ThresholdState option"

record ThresholdConditionChecker =
  ckCondition :: "CBlockIndex \<Rightarrow> bool"
  ckBeginTime :: int
  ckEndTime :: int
  ckPeriod :: int
  ckThreshold :: int

definition VERSIONBITS_TOP_BITS :: u32 where "VERSIONBITS_TOP_BITS = 0x20000000"
definition VERSIONBITS_TOP_MASK :: u32 where "VERSIONBITS_TOP_MASK = 0xE0000000"

section \<open>GetStateFor\<close>

text \<open>A block's state is that of the first block of its period.\<close>

definition period_start :: "store \<Rightarrow> ThresholdConditionChecker \<Rightarrow> ptr option \<Rightarrow> ptr option option" where
  "period_start st ck pindexPrev =
    (case pindexPrev of
       None \<Rightarrow> Some None
     | Some p \<Rightarrow> GetAncestor st p (nHeight (st p) - (nHeight (st p) + 1) smod ckPeriod ck))"

text \<open>The walk back to a block whose state is known; the list has the last block pushed at its head.\<close>

primrec walk_back :: "nat \<Rightarrow> store \<Rightarrow> ThresholdConditionChecker \<Rightarrow> ThresholdConditionCache \<Rightarrow> ptr list \<Rightarrow> ptr option
    \<Rightarrow> (ThresholdConditionCache \<times> ptr list \<times> ptr option) option" where
  "walk_back 0 st ck cache vToCompute pindexPrev = None"
| "walk_back (Suc n) st ck cache vToCompute pindexPrev =
    (if cache pindexPrev \<noteq> None then Some (cache, vToCompute, pindexPrev)
     else case pindexPrev of
            None \<Rightarrow> Some (cache(None \<mapsto> THRESHOLD_DEFINED), vToCompute, None)
          | Some p \<Rightarrow>
              if GetMedianTimePast st p < ckBeginTime ck
              then Some (cache(Some p \<mapsto> THRESHOLD_DEFINED), vToCompute, Some p)
              else case GetAncestor st p (nHeight (st p) - ckPeriod ck) of
                     None \<Rightarrow> None
                   | Some q \<Rightarrow> walk_back n st ck cache (p # vToCompute) q)"

primrec count_condition :: "nat \<Rightarrow> store \<Rightarrow> ThresholdConditionChecker \<Rightarrow> ptr option \<Rightarrow> int \<Rightarrow> int option" where
  "count_condition 0 st ck pindexCount count = Some count"
| "count_condition (Suc n) st ck pindexCount count =
    (case pindexCount of
       None \<Rightarrow> None
     | Some p \<Rightarrow> count_condition n st ck (pprev (st p)) (if ckCondition ck (st p) then count + 1 else count))"

definition state_next :: "store \<Rightarrow> ThresholdConditionChecker \<Rightarrow> ptr \<Rightarrow> ThresholdState \<Rightarrow> ThresholdState option" where
  "state_next st ck p state =
    (case state of
       THRESHOLD_DEFINED \<Rightarrow>
         Some (if GetMedianTimePast st p \<ge> ckEndTime ck then THRESHOLD_FAILED
               else if GetMedianTimePast st p \<ge> ckBeginTime ck then THRESHOLD_STARTED
               else THRESHOLD_DEFINED)
     | THRESHOLD_STARTED \<Rightarrow>
         if GetMedianTimePast st p \<ge> ckEndTime ck then Some THRESHOLD_FAILED
         else map_option (\<lambda>count. if count \<ge> ckThreshold ck then THRESHOLD_LOCKED_IN else THRESHOLD_STARTED)
                (count_condition (nat (ckPeriod ck)) st ck (Some p) 0)
     | THRESHOLD_LOCKED_IN \<Rightarrow> Some THRESHOLD_ACTIVE
     | THRESHOLD_FAILED \<Rightarrow> Some THRESHOLD_FAILED
     | THRESHOLD_ACTIVE \<Rightarrow> Some THRESHOLD_ACTIVE)"

primrec walk_forward :: "store \<Rightarrow> ThresholdConditionChecker \<Rightarrow> ptr list \<Rightarrow> ThresholdState \<Rightarrow> ThresholdConditionCache
    \<Rightarrow> (ThresholdState \<times> ThresholdConditionCache) option" where
  "walk_forward st ck [] state cache = Some (state, cache)"
| "walk_forward st ck (p # vToCompute) state cache =
    (case state_next st ck p state of
       None \<Rightarrow> None
     | Some stateNext \<Rightarrow> walk_forward st ck vToCompute stateNext (cache(Some p \<mapsto> stateNext)))"

definition GetStateFor :: "store \<Rightarrow> ThresholdConditionChecker \<Rightarrow> ptr option \<Rightarrow> ThresholdConditionCache
    \<Rightarrow> (ThresholdState \<times> ThresholdConditionCache) option" where
  "GetStateFor st ck pindexPrev cache =
    (case period_start st ck pindexPrev of
       None \<Rightarrow> None
     | Some b \<Rightarrow>
         (case walk_back (case b of None \<Rightarrow> 1 | Some p \<Rightarrow> nat (nHeight (st p)) + 2) st ck cache [] b of
            None \<Rightarrow> None
          | Some (cache, vToCompute, b) \<Rightarrow>
              (case cache b of
                 None \<Rightarrow> None
               | Some state \<Rightarrow> walk_forward st ck vToCompute state cache)))"

section \<open>GetStateSinceHeightFor\<close>

primrec since_loop :: "nat \<Rightarrow> store \<Rightarrow> ThresholdConditionChecker \<Rightarrow> ThresholdState \<Rightarrow> ThresholdConditionCache \<Rightarrow> ptr
    \<Rightarrow> (ptr \<times> ThresholdConditionCache) option" where
  "since_loop 0 st ck initialState cache p = None"
| "since_loop (Suc n) st ck initialState cache p =
    (case GetAncestor st p (nHeight (st p) - ckPeriod ck) of
       None \<Rightarrow> None
     | Some None \<Rightarrow> Some (p, cache)
     | Some (Some q) \<Rightarrow>
         (case GetStateFor st ck (Some q) cache of
            None \<Rightarrow> None
          | Some (s, cache) \<Rightarrow> if s = initialState then since_loop n st ck initialState cache q else Some (p, cache)))"

definition GetStateSinceHeightFor :: "store \<Rightarrow> ThresholdConditionChecker \<Rightarrow> ptr option \<Rightarrow> ThresholdConditionCache
    \<Rightarrow> (int \<times> ThresholdConditionCache) option" where
  "GetStateSinceHeightFor st ck pindexPrev cache =
    (case GetStateFor st ck pindexPrev cache of
       None \<Rightarrow> None
     | Some (initialState, cache) \<Rightarrow>
         if initialState = THRESHOLD_DEFINED then Some (0, cache)
         else case pindexPrev of
                None \<Rightarrow> None
              | Some p \<Rightarrow>
                  (case GetAncestor st p (nHeight (st p) - (nHeight (st p) + 1) smod ckPeriod ck) of
                     Some (Some b) \<Rightarrow>
                       (case since_loop (nat (nHeight (st b)) + 2) st ck initialState cache b of
                          None \<Rightarrow> None
                        | Some (b, cache) \<Rightarrow> Some (nHeight (st b) + 1, cache))
                   | _ \<Rightarrow> None))"

section \<open>The version bits checker\<close>

definition VersionBitsMask :: "Params \<Rightarrow> nat \<Rightarrow> u32" where
  "VersionBitsMask params pos = push_bit (nat (bip9_bit (vDeployments params ! pos))) 1"

definition VersionBitsCondition :: "Params \<Rightarrow> nat \<Rightarrow> CBlockIndex \<Rightarrow> bool" where
  "VersionBitsCondition params pos b \<longleftrightarrow>
    nVersion b AND VERSIONBITS_TOP_MASK = VERSIONBITS_TOP_BITS \<and> nVersion b AND VersionBitsMask params pos \<noteq> 0"

definition VersionBitsConditionChecker :: "Params \<Rightarrow> nat \<Rightarrow> ThresholdConditionChecker" where
  "VersionBitsConditionChecker params pos =
    \<lparr>ckCondition = VersionBitsCondition params pos,
     ckBeginTime = bip9_nStartTime (vDeployments params ! pos),
     ckEndTime = bip9_nTimeout (vDeployments params ! pos),
     ckPeriod = uint (nMinerConfirmationWindow params),
     ckThreshold = uint (nRuleChangeActivationThreshold params)\<rparr>"

text \<open>One cache per deployment.\<close>

type_synonym VersionBitsCache = "ThresholdConditionCache list"

definition VersionBitsState :: "store \<Rightarrow> ptr option \<Rightarrow> Params \<Rightarrow> nat \<Rightarrow> VersionBitsCache \<Rightarrow> (ThresholdState \<times> VersionBitsCache) option" where
  "VersionBitsState st pindexPrev params pos caches =
    map_option (\<lambda>(s, c). (s, caches[pos := c]))
      (GetStateFor st (VersionBitsConditionChecker params pos) pindexPrev (caches ! pos))"

definition VersionBitsStateSinceHeight :: "store \<Rightarrow> ptr option \<Rightarrow> Params \<Rightarrow> nat \<Rightarrow> VersionBitsCache \<Rightarrow> (int \<times> VersionBitsCache) option" where
  "VersionBitsStateSinceHeight st pindexPrev params pos caches =
    map_option (\<lambda>(h, c). (h, caches[pos := c]))
      (GetStateSinceHeightFor st (VersionBitsConditionChecker params pos) pindexPrev (caches ! pos))"

definition VersionBitsCache_Clear :: "VersionBitsCache \<Rightarrow> VersionBitsCache" where
  "VersionBitsCache_Clear caches = map (\<lambda>c. Map.empty) caches"

text \<open>A concrete deployment to evaluate the operations on.\<close>

definition demo_checker :: ThresholdConditionChecker where
  "demo_checker = \<lparr>ckCondition = (\<lambda>b. nHeight b \<noteq> 4), ckBeginTime = 0, ckEndTime = 100, ckPeriod = 3, ckThreshold = 2\<rparr>"

definition genesis_time_store :: store where
  "genesis_time_store p = (line_store p)\<lparr>nTime := 1504197832\<rparr>"

section \<open>The specification: states without a cache\<close>

abbreviation period :: "ThresholdConditionChecker \<Rightarrow> nat" where
  "period ck \<equiv> nat (ckPeriod ck)"

text \<open>Keys of the cache: null, or a block that ends a period.\<close>

definition boundary :: "ptr set \<Rightarrow> store \<Rightarrow> ThresholdConditionChecker \<Rightarrow> ptr option \<Rightarrow> bool" where
  "boundary V st ck b \<longleftrightarrow> (case b of None \<Rightarrow> True | Some p \<Rightarrow> p \<in> V \<and> period ck dvd Suc (height st p))"

definition prev_boundary :: "store \<Rightarrow> ThresholdConditionChecker \<Rightarrow> ptr \<Rightarrow> ptr option" where
  "prev_boundary st ck p = (if height st p < period ck then None else nth_parent st p (period ck))"

text \<open>How many of the last period's blocks satisfy the condition.\<close>

definition signal_count :: "store \<Rightarrow> ThresholdConditionChecker \<Rightarrow> ptr \<Rightarrow> nat" where
  "signal_count st ck p = length (filter (\<lambda>k. \<exists>q. nth_parent st p k = Some q \<and> ckCondition ck (st q)) [0..<period ck])"

text \<open>The transitions of BIP 9 at the last block of a period.\<close>

definition bip9_next :: "store \<Rightarrow> ThresholdConditionChecker \<Rightarrow> ptr \<Rightarrow> ThresholdState \<Rightarrow> ThresholdState" where
  "bip9_next st ck p s =
    (case s of
       THRESHOLD_DEFINED \<Rightarrow>
         if GetMedianTimePast st p \<ge> ckEndTime ck then THRESHOLD_FAILED
         else if GetMedianTimePast st p \<ge> ckBeginTime ck then THRESHOLD_STARTED else THRESHOLD_DEFINED
     | THRESHOLD_STARTED \<Rightarrow>
         if GetMedianTimePast st p \<ge> ckEndTime ck then THRESHOLD_FAILED
         else if int (signal_count st ck p) \<ge> ckThreshold ck then THRESHOLD_LOCKED_IN else THRESHOLD_STARTED
     | THRESHOLD_LOCKED_IN \<Rightarrow> THRESHOLD_ACTIVE
     | THRESHOLD_ACTIVE \<Rightarrow> THRESHOLD_ACTIVE
     | THRESHOLD_FAILED \<Rightarrow> THRESHOLD_FAILED)"

text \<open>The state after a number of whole periods, starting from \<open>DEFINED\<close> before the genesis block.\<close>

primrec bip9_after :: "nat \<Rightarrow> store \<Rightarrow> ThresholdConditionChecker \<Rightarrow> ptr option \<Rightarrow> ThresholdState" where
  "bip9_after 0 st ck b = THRESHOLD_DEFINED"
| "bip9_after (Suc n) st ck b =
    (case b of
       None \<Rightarrow> THRESHOLD_DEFINED
     | Some p \<Rightarrow> bip9_next st ck p (bip9_after n st ck (prev_boundary st ck p)))"

definition bip9_state :: "store \<Rightarrow> ThresholdConditionChecker \<Rightarrow> ptr option \<Rightarrow> ThresholdState" where
  "bip9_state st ck b =
    (case b of None \<Rightarrow> THRESHOLD_DEFINED | Some p \<Rightarrow> bip9_after (Suc (height st p) div period ck) st ck b)"

text \<open>The end of the last complete period before the child of a block.\<close>

definition last_boundary :: "store \<Rightarrow> ThresholdConditionChecker \<Rightarrow> ptr option \<Rightarrow> ptr option" where
  "last_boundary st ck b =
    (case b of
       None \<Rightarrow> None
     | Some p \<Rightarrow>
         if Suc (height st p) < period ck then None else nth_parent st p (Suc (height st p) mod period ck))"

text \<open>Median times never decrease from parent to child, and the deployment starts before it times out.\<close>

definition times_ok :: "ptr set \<Rightarrow> store \<Rightarrow> ThresholdConditionChecker \<Rightarrow> bool" where
  "times_ok V st ck \<longleftrightarrow> ckBeginTime ck \<le> ckEndTime ck \<and>
    (\<forall>p \<in> V. \<forall>q. pprev (st p) = Some q \<longrightarrow> GetMedianTimePast st q \<le> GetMedianTimePast st p)"

text \<open>The invariant of the cache: every entry is for a boundary and holds its state.\<close>

definition cache_ok :: "ptr set \<Rightarrow> store \<Rightarrow> ThresholdConditionChecker \<Rightarrow> ThresholdConditionCache \<Rightarrow> bool" where
  "cache_ok V st ck cache \<longleftrightarrow> (\<forall>b s. cache b = Some s \<longrightarrow> boundary V st ck b \<and> s = bip9_state st ck b)"

section \<open>Boundaries\<close>

lemma prev_boundary_ok:
  assumes "wf_index V st" "0 < ckPeriod ck" "boundary V st ck (Some p)"
  shows "boundary V st ck (prev_boundary st ck p)"
    "GetAncestor st p (nHeight (st p) - ckPeriod ck) = Some (prev_boundary st ck p)"
    "Suc (height st p) div period ck = Suc (case prev_boundary st ck p of None \<Rightarrow> 0 | Some q \<Rightarrow> Suc (height st q) div period ck)"
    "prev_boundary st ck p = Some q \<Longrightarrow> height st q + period ck = height st p"
proof -
  have P: "0 < period ck" and p: "p \<in> V" "period ck dvd Suc (height st p)"
    using assms(2,3) by (simp_all add: boundary_def)
  have h0: "0 \<le> nHeight (st p)" using wf_index_parent(1)[OF assms(1) p(1)] .
  have small: "Suc (height st p) = period ck" if "height st p < period ck"
    using p(2) that by (metis Suc_lessI dvd_imp_le le_antisym less_eq_Suc_le zero_less_Suc)
  have big: "\<exists>q \<in> V. nth_parent st p (period ck) = Some q \<and> height st q = height st p - period ck" if "\<not> height st p < period ck"
    using nth_parent_wf[OF assms(1) p(1), of "period ck"] that by simp
  show "boundary V st ck (prev_boundary st ck p)"
  proof (cases "height st p < period ck")
    case False
    then obtain q where q: "q \<in> V" "nth_parent st p (period ck) = Some q" "height st q = height st p - period ck" using big by blast
    have "Suc (height st q) = Suc (height st p) - period ck" using q(3) False by linarith
    then have "period ck dvd Suc (height st q)" using p(2) False by (metis dvd_diff_nat dvd_refl)
    then show ?thesis using q False by (simp add: boundary_def prev_boundary_def)
  qed (simp add: boundary_def prev_boundary_def)
  show "GetAncestor st p (nHeight (st p) - ckPeriod ck) = Some (prev_boundary st ck p)"
  proof (cases "height st p < period ck")
    case True
    then show ?thesis using h0 by (auto simp: GetAncestor_eq[OF assms(1) p(1)] prev_boundary_def)
  next
    case False
    then have "height st p - nat (nHeight (st p) - ckPeriod ck) = period ck" using h0 assms(2) by linarith
    then show ?thesis using False h0 assms(2) by (auto simp: GetAncestor_eq[OF assms(1) p(1)] prev_boundary_def)
  qed
  show "prev_boundary st ck p = Some q \<Longrightarrow> height st q + period ck = height st p"
    using big by (auto simp: prev_boundary_def split: if_splits)
  show "Suc (height st p) div period ck = Suc (case prev_boundary st ck p of None \<Rightarrow> 0 | Some q \<Rightarrow> Suc (height st q) div period ck)"
  proof (cases "height st p < period ck")
    case True
    then show ?thesis using small P by (simp add: prev_boundary_def)
  next
    case False
    then obtain q where q: "nth_parent st p (period ck) = Some q" "height st q = height st p - period ck" using big by blast
    have "Suc (height st p) = Suc (height st q) + period ck" using q(2) False by linarith
    then have "Suc (height st p) div period ck = Suc (height st q) div period ck + 1"
      using P div_add_self2[of "period ck" "Suc (height st q)"] by (simp only:)
    moreover have "prev_boundary st ck p = Some q" using q(1) False unfolding prev_boundary_def by (simp only: if_False)
    ultimately show ?thesis by simp
  qed
qed

lemma bip9_state_None [simp]: "bip9_state st ck None = THRESHOLD_DEFINED"
  by (simp add: bip9_state_def)

lemma bip9_state_Some:
  assumes "wf_index V st" "0 < ckPeriod ck" "boundary V st ck (Some p)"
  shows "bip9_state st ck (Some p) = bip9_next st ck p (bip9_state st ck (prev_boundary st ck p))"
  using prev_boundary_ok(3)[OF assms] by (simp add: bip9_state_def split: option.splits)

lemma boundary_induct [consumes 3, case_names null block]:
  assumes wf: "wf_index V st" "0 < ckPeriod ck" and b: "boundary V st ck b"
    and null: "P None"
    and block: "\<And>p. boundary V st ck (Some p) \<Longrightarrow> P (prev_boundary st ck p) \<Longrightarrow> P (Some p)"
  shows "P b"
proof -
  have "P b" if "(case b of None \<Rightarrow> 0 | Some p \<Rightarrow> Suc (height st p)) = n" for n
    using that b
  proof (induction n arbitrary: b rule: less_induct)
    case (less n)
    show ?case
    proof (cases b)
      case None
      then show ?thesis using null by simp
    next
      case (Some p)
      then have bp: "boundary V st ck (Some p)" using less.prems by simp
      have "(case prev_boundary st ck p of None \<Rightarrow> 0 | Some q \<Rightarrow> Suc (height st q)) < n"
        using prev_boundary_ok(4)[OF wf bp] wf(2) less.prems(1) Some by (cases "prev_boundary st ck p") fastforce+
      then have "P (prev_boundary st ck p)" using less.IH[OF _ refl] prev_boundary_ok(1)[OF wf bp] by blast
      then show ?thesis using block[OF bp] Some by simp
    qed
  qed
  then show ?thesis by blast
qed

lemma smod_nonneg: "0 \<le> a \<Longrightarrow> 0 \<le> b \<Longrightarrow> (a :: int) smod b = a mod b"
  by (auto simp: signed_modulo_int_def signed_divide_int_def sgn_if minus_div_mult_eq_mod)

lemma last_boundary_ok:
  assumes "wf_index V st" "0 < ckPeriod ck" "case b of None \<Rightarrow> True | Some p \<Rightarrow> p \<in> V"
  shows "period_start st ck b = Some (last_boundary st ck b)" "boundary V st ck (last_boundary st ck b)"
proof -
  have "period_start st ck b = Some (last_boundary st ck b) \<and> boundary V st ck (last_boundary st ck b)"
  proof (cases b)
    case None
    then show ?thesis by (simp add: period_start_def last_boundary_def boundary_def)
  next
    case (Some p)
    then have p: "p \<in> V" using assms(3) by simp
    obtain h P where h: "nHeight (st p) = int h" and P: "ckPeriod ck = int P" "0 < P"
      using wf_index_parent(1)[OF assms(1) p] assms(2) by (metis nonneg_int_cases zero_less_imp_eq_int)
    let ?r = "Suc h mod P"
    have i: "nHeight (st p) - (nHeight (st p) + 1) smod ckPeriod ck = int (Suc h) - 1 - int ?r"
      by (simp add: h P smod_nonneg zmod_int add.commute)
    show ?thesis
    proof (cases "Suc h < P")
      case True
      then have "period_start st ck b = Some None"
        using GetAncestor_eq[OF assms(1) p, of "int (Suc h) - 1 - int ?r"] by (simp add: period_start_def Some i)
      then show ?thesis using True by (simp add: last_boundary_def Some h P boundary_def)
    next
      case False
      then have r: "?r \<le> h" using mod_less_divisor[OF P(2), of "Suc h"] by linarith
      obtain q where q: "q \<in> V" "nth_parent st p ?r = Some q" "height st q = h - ?r"
        using nth_parent_wf[OF assms(1) p, of ?r] r h by auto
      have "Suc (h - ?r) = Suc h - ?r" using r by simp
      then have "P dvd Suc (height st q)" unfolding q(3) by (metis dvd_minus_mod)
      moreover have "h - nat (int (Suc h) - 1 - int ?r) = ?r" using r by simp
      then have "period_start st ck b = Some (nth_parent st p ?r)"
        using GetAncestor_eq[OF assms(1) p, of "int (Suc h) - 1 - int ?r"] r by (simp add: period_start_def Some i) (simp add: h)
      ultimately show ?thesis using False q by (simp add: last_boundary_def Some h P boundary_def)
    qed
  qed
  then show "period_start st ck b = Some (last_boundary st ck b)" "boundary V st ck (last_boundary st ck b)" by simp_all
qed

section \<open>Counting and one transition\<close>

lemma count_condition_val:
  assumes "wf_index V st"
  shows "p \<in> V \<Longrightarrow> n \<le> Suc (height st p) \<Longrightarrow>
    count_condition n st ck (Some p) c =
      Some (c + int (length (filter (\<lambda>k. \<exists>q. nth_parent st p k = Some q \<and> ckCondition ck (st q)) [0..<n])))"
proof (induction n arbitrary: p c)
  case (Suc n)
  have upt: "[0..<Suc n] = 0 # map Suc [0..<n]" by (metis upt_conv_Cons map_Suc_upt zero_less_Suc)
  show ?case
  proof (cases "n = 0")
    case True
    then show ?thesis by simp
  next
    case False
    then obtain q where q: "pprev (st p) = Some q"
      using Suc.prems wf_index_parent(2)[OF assms Suc.prems(1)] by (cases "pprev (st p)") auto
    note w = wf_index_parent(3,4)[OF assms Suc.prems(1) q]
    have "n \<le> Suc (height st q)" using w(2) Suc.prems(2) by simp
    from Suc.IH[OF w(1) this] show ?thesis
      unfolding upt by (simp add: q filter_map comp_def)
  qed
qed simp

lemma state_next_spec:
  assumes "wf_index V st" "0 < ckPeriod ck" "boundary V st ck (Some p)"
  shows "state_next st ck p s = Some (bip9_next st ck p s)"
proof -
  have p: "p \<in> V" "period ck dvd Suc (height st p)" using assms(3) by (simp_all add: boundary_def)
  then have "period ck \<le> Suc (height st p)" by (simp add: dvd_imp_le)
  then have "count_condition (period ck) st ck (Some p) 0 = Some (int (signal_count st ck p))"
    using count_condition_val[OF assms(1) p(1)] by (simp add: signal_count_def)
  then show ?thesis by (cases s) (simp_all add: state_next_def bip9_next_def)
qed

text \<open>Before the start time every state is still \<open>DEFINED\<close>: the shortcut of the walk back is sound.\<close>

lemma median_mono:
  assumes "wf_index V st" "times_ok V st ck"
  shows "p \<in> V \<Longrightarrow> nth_parent st p k = Some q \<Longrightarrow> GetMedianTimePast st q \<le> GetMedianTimePast st p"
proof (induction k arbitrary: p)
  case (Suc k)
  then obtain r where r: "pprev (st p) = Some r" "nth_parent st r k = Some q" by (auto split: option.splits)
  then have "GetMedianTimePast st r \<le> GetMedianTimePast st p" using assms(2) Suc.prems(1) by (simp add: times_ok_def)
  then show ?case using Suc.IH[OF wf_index_parent(3)[OF assms(1) Suc.prems(1) r(1)] r(2)] by simp
qed simp

lemma defined_before_start:
  assumes "wf_index V st" "0 < ckPeriod ck" "times_ok V st ck" "boundary V st ck b"
  shows "(case b of None \<Rightarrow> True | Some p \<Rightarrow> GetMedianTimePast st p < ckBeginTime ck) \<longrightarrow> bip9_state st ck b = THRESHOLD_DEFINED"
  using assms(1,2,4)
proof (induction b rule: boundary_induct)
  case (block p)
  show ?case
  proof
    assume "case Some p of None \<Rightarrow> True | Some p \<Rightarrow> GetMedianTimePast st p < ckBeginTime ck"
    then have p: "p \<in> V" "GetMedianTimePast st p < ckBeginTime ck" using block(1) by (simp_all add: boundary_def)
    have "GetMedianTimePast st q < ckBeginTime ck" if "prev_boundary st ck p = Some q" for q
      using median_mono[OF assms(1,3) p(1), of "period ck" q] p(2) that by (simp add: prev_boundary_def split: if_splits)
    then have "case prev_boundary st ck p of None \<Rightarrow> True | Some q \<Rightarrow> GetMedianTimePast st q < ckBeginTime ck"
      by (simp split: option.split)
    then have "bip9_state st ck (prev_boundary st ck p) = THRESHOLD_DEFINED" using block(2) by blast
    then show "bip9_state st ck (Some p) = THRESHOLD_DEFINED"
      using bip9_state_Some[OF assms(1,2) block(1)] p(2) assms(3) by (simp add: bip9_next_def times_ok_def)
  qed
qed simp

section \<open>The cached computation\<close>

text \<open>The blocks still to compute, from the known boundary upwards, and where they end.\<close>

primrec linked :: "ptr set \<Rightarrow> store \<Rightarrow> ThresholdConditionChecker \<Rightarrow> ptr option \<Rightarrow> ptr list \<Rightarrow> bool" where
  "linked V st ck b [] = True"
| "linked V st ck b (p # ps) \<longleftrightarrow> prev_boundary st ck p = b \<and> boundary V st ck (Some p) \<and> linked V st ck (Some p) ps"

definition ends_at :: "ptr option \<Rightarrow> ptr list \<Rightarrow> ptr option" where
  "ends_at b ps = (if ps = [] then b else Some (last ps))"

lemma ends_at_Cons [simp]: "ends_at b (p # ps) = ends_at (Some p) ps"
  by (simp add: ends_at_def)

lemma cache_ok_update:
  "cache_ok V st ck cache \<Longrightarrow> boundary V st ck b \<Longrightarrow> bip9_state st ck b = s \<Longrightarrow> cache_ok V st ck (cache(b \<mapsto> s))"
  by (simp add: cache_ok_def)

lemma walk_back_ok:
  assumes "wf_index V st" "0 < ckPeriod ck" "times_ok V st ck" "cache_ok V st ck cache"
  shows "boundary V st ck b \<Longrightarrow> linked V st ck b acc \<Longrightarrow> (case b of None \<Rightarrow> 0 | Some p \<Rightarrow> Suc (height st p)) < n \<Longrightarrow>
    \<exists>cache' vs b'. walk_back n st ck cache acc b = Some (cache', vs, b') \<and> cache_ok V st ck cache' \<and>
      cache' b' = Some (bip9_state st ck b') \<and> linked V st ck b' vs \<and> ends_at b' vs = ends_at b acc"
proof (induction n arbitrary: b acc)
  case (Suc n)
  show ?case
  proof (cases "cache b")
    case (Some s)
    then show ?thesis using Suc.prems assms(4) by (auto simp: cache_ok_def)
  next
    case none: None
    show ?thesis
    proof (cases b)
      case None
      then show ?thesis using none Suc.prems cache_ok_update[OF assms(4), of None] by (simp add: boundary_def)
    next
      case (Some p)
      have bp: "boundary V st ck (Some p)" using Suc.prems(1) Some by simp
      show ?thesis
      proof (cases "GetMedianTimePast st p < ckBeginTime ck")
        case True
        then have d: "bip9_state st ck (Some p) = THRESHOLD_DEFINED"
          using defined_before_start[OF assms(1-3) bp] by simp
        then show ?thesis using none Some True Suc.prems cache_ok_update[OF assms(4) bp d] by simp
      next
        case False
        note pb = prev_boundary_ok[OF assms(1,2) bp]
        have "(case prev_boundary st ck p of None \<Rightarrow> 0 | Some q \<Rightarrow> Suc (height st q)) < n"
          using pb(4) assms(2) Suc.prems(3) Some by (cases "prev_boundary st ck p") fastforce+
        moreover have "linked V st ck (prev_boundary st ck p) (p # acc)" using Suc.prems(2) Some bp by simp
        ultimately obtain cache' vs b' where r: "walk_back n st ck cache (p # acc) (prev_boundary st ck p) = Some (cache', vs, b')"
          "cache_ok V st ck cache'" "cache' b' = Some (bip9_state st ck b')" "linked V st ck b' vs"
          "ends_at b' vs = ends_at (prev_boundary st ck p) (p # acc)"
          using Suc.IH[OF pb(1)] by blast
        then show ?thesis using none Some False pb(2) by simp
      qed
    qed
  qed
qed simp

lemma walk_forward_ok:
  assumes "wf_index V st" "0 < ckPeriod ck"
  shows "linked V st ck b vs \<Longrightarrow> cache_ok V st ck cache \<Longrightarrow>
    \<exists>cache'. walk_forward st ck vs (bip9_state st ck b) cache = Some (bip9_state st ck (ends_at b vs), cache') \<and>
      cache_ok V st ck cache'"
proof (induction vs arbitrary: b cache)
  case Nil
  then show ?case by (simp add: ends_at_def)
next
  case (Cons p vs)
  have bp: "boundary V st ck (Some p)" and pb: "prev_boundary st ck p = b" and l: "linked V st ck (Some p) vs"
    using Cons.prems(1) by simp_all
  have s: "state_next st ck p (bip9_state st ck b) = Some (bip9_state st ck (Some p))"
    using state_next_spec[OF assms bp] bip9_state_Some[OF assms bp] pb by simp
  have "cache_ok V st ck (cache(Some p \<mapsto> bip9_state st ck (Some p)))" using cache_ok_update[OF Cons.prems(2) bp] by simp
  from Cons.IH[OF l this] show ?case by (simp only: walk_forward.simps s option.case ends_at_Cons)
qed

lemma GetStateFor_ok:
  assumes "wf_index V st" "0 < ckPeriod ck" "times_ok V st ck" "cache_ok V st ck cache"
    "case b of None \<Rightarrow> True | Some p \<Rightarrow> p \<in> V"
  shows "\<exists>cache'. GetStateFor st ck b cache = Some (bip9_state st ck (last_boundary st ck b), cache') \<and> cache_ok V st ck cache'"
proof -
  let ?b = "last_boundary st ck b"
  note lb = last_boundary_ok[OF assms(1,2,5)]
  let ?n = "case ?b of None \<Rightarrow> 1 | Some p \<Rightarrow> nat (nHeight (st p)) + 2"
  have "(case ?b of None \<Rightarrow> 0 | Some p \<Rightarrow> Suc (height st p)) < ?n" by (simp split: option.split)
  moreover have "linked V st ck ?b []" "ends_at ?b [] = ?b" by (simp_all add: ends_at_def)
  ultimately obtain cache1 vs b' where w: "walk_back ?n st ck cache [] ?b = Some (cache1, vs, b')" "cache_ok V st ck cache1"
    "cache1 b' = Some (bip9_state st ck b')" "linked V st ck b' vs" "ends_at b' vs = ?b"
    using walk_back_ok[OF assms(1-4) lb(2), of "[]" ?n] by metis
  obtain cache2 where "walk_forward st ck vs (bip9_state st ck b') cache1 = Some (bip9_state st ck ?b, cache2)" "cache_ok V st ck cache2"
    using walk_forward_ok[OF assms(1,2) w(4,2)] w(5) by auto
  then show ?thesis using lb(1) w(1,3) by (simp add: GetStateFor_def)
qed

section \<open>The state machine\<close>

inductive vb_step :: "ThresholdState \<Rightarrow> ThresholdState \<Rightarrow> bool" where
  start: "vb_step THRESHOLD_DEFINED THRESHOLD_STARTED"
| expire: "vb_step THRESHOLD_DEFINED THRESHOLD_FAILED"
| fail: "vb_step THRESHOLD_STARTED THRESHOLD_FAILED"
| lock: "vb_step THRESHOLD_STARTED THRESHOLD_LOCKED_IN"
| activate: "vb_step THRESHOLD_LOCKED_IN THRESHOLD_ACTIVE"

inductive_cases vb_step_from_active: "vb_step THRESHOLD_ACTIVE s"
inductive_cases vb_step_from_failed: "vb_step THRESHOLD_FAILED s"
inductive_simps vb_step_to_active: "vb_step s THRESHOLD_ACTIVE"

lemma bip9_next_step: "bip9_next st ck p s = s \<and> s \<noteq> THRESHOLD_LOCKED_IN \<or> vb_step s (bip9_next st ck p s)"
  by (cases s) (auto simp: bip9_next_def intro: vb_step.intros)

lemma vb_steps_terminal:
  assumes "vb_step\<^sup>*\<^sup>* s t" "s = THRESHOLD_ACTIVE \<or> s = THRESHOLD_FAILED"
  shows "t = s"
  using assms by (induction rule: rtranclp_induct) (auto elim: vb_step_from_active vb_step_from_failed)

text \<open>One block further, the last boundary is unchanged or advances by one period.\<close>

lemma last_boundary_child:
  assumes "wf_index V st" "0 < ckPeriod ck" "p \<in> V" "pprev (st p) = Some q"
  shows "last_boundary st ck (Some p) = last_boundary st ck (Some q) \<or>
    (boundary V st ck (Some p) \<and> last_boundary st ck (Some p) = Some p \<and> prev_boundary st ck p = last_boundary st ck (Some q))"
proof -
  obtain h P where h: "height st q = h" "height st p = Suc h" and P: "period ck = P" "0 < P"
    using wf_index_parent(4)[OF assms(1,3,4)] assms(2) by auto
  show ?thesis
  proof (cases "Suc (Suc h) mod P = 0")
    case True
    have b: "boundary V st ck (Some p)" using True assms(3) by (simp add: boundary_def h P mod_eq_0_iff_dvd)
    have "\<not> Suc (Suc h) < P" using True by (metis mod_less nat.distinct(1))
    then have l: "last_boundary st ck (Some p) = Some p" using True by (simp add: last_boundary_def h P)
    have "prev_boundary st ck p = last_boundary st ck (Some q)"
    proof (cases "Suc h < P")
      case True
      then show ?thesis by (simp add: prev_boundary_def last_boundary_def h P)
    next
      case False
      have "Suc h mod P = P - 1" using True by (metis P(2) diff_Suc_1 mod_Suc Suc_pred One_nat_def nat.distinct(1))
      then have "nth_parent st q (Suc h mod P) = nth_parent st p P" using assms(4) P(2) by (cases P) simp_all
      then show ?thesis using False by (simp add: prev_boundary_def last_boundary_def h P)
    qed
    then show ?thesis using b l by simp
  next
    case False
    then have m: "Suc (Suc h) mod P = Suc (Suc h mod P)" by (simp add: mod_Suc split: if_splits)
    have "last_boundary st ck (Some p) = last_boundary st ck (Some q)"
    proof (cases "Suc (Suc h) < P")
      case True
      then show ?thesis by (simp add: last_boundary_def h P)
    next
      case big: False
      have "\<not> Suc h < P"
      proof
        assume "Suc h < P"
        then have "Suc (Suc h) = P" using big by simp
        then show False using False by simp
      qed
      then show ?thesis using big m assms(4) by (simp add: last_boundary_def h P)
    qed
    then show ?thesis ..
  qed
qed

lemma bip9_state_descendant:
  assumes "wf_index V st" "0 < ckPeriod ck"
  shows "p \<in> V \<Longrightarrow> nth_parent st p k = Some q \<Longrightarrow>
    vb_step\<^sup>*\<^sup>* (bip9_state st ck (last_boundary st ck (Some q))) (bip9_state st ck (last_boundary st ck (Some p)))"
proof (induction k arbitrary: p)
  case (Suc k)
  then obtain r where r: "pprev (st p) = Some r" "nth_parent st r k = Some q" by (auto split: option.splits)
  have "vb_step\<^sup>*\<^sup>* (bip9_state st ck (last_boundary st ck (Some r))) (bip9_state st ck (last_boundary st ck (Some p)))"
    using last_boundary_child[OF assms Suc.prems(1) r(1)]
  proof (elim disjE conjE)
    assume "boundary V st ck (Some p)" "last_boundary st ck (Some p) = Some p" "prev_boundary st ck p = last_boundary st ck (Some r)"
    then show ?thesis using bip9_state_Some[OF assms] bip9_next_step[of st ck p "bip9_state st ck (last_boundary st ck (Some r))"]
      by auto
  qed simp
  then show ?case using Suc.IH[OF wf_index_parent(3)[OF assms(1) Suc.prems(1) r(1)] r(2)] by (rule rtranclp_trans[rotated])
qed simp

text \<open>Exactly one period further, the state makes exactly one transition.\<close>

lemma bip9_state_period:
  assumes "wf_index V st" "0 < ckPeriod ck" "p \<in> V" "nth_parent st p (period ck) = Some q"
  shows "\<exists>b. last_boundary st ck (Some p) = Some b \<and> boundary V st ck (Some b) \<and>
    bip9_state st ck (Some b) = bip9_next st ck b (bip9_state st ck (last_boundary st ck (Some q)))"
proof -
  let ?P = "period ck"
  have P: "0 < ?P" using assms(2) by simp
  have hp: "?P \<le> height st p"
  proof (rule ccontr)
    assume "\<not> ?P \<le> height st p"
    then have "height st p < ?P" by (simp only: not_le)
    from nth_parent_none[OF assms(1,3) this] show False using assms(4) by simp
  qed
  then have hq: "q \<in> V" "height st q = height st p - ?P" using nth_parent_wf[OF assms(1,3), of ?P] assms(4) by auto
  let ?r = "Suc (height st p) mod ?P"
  have bd: "boundary V st ck (last_boundary st ck (Some p))" using last_boundary_ok(2)[OF assms(1,2), of "Some p"] assms(3) by simp
  have lp: "last_boundary st ck (Some p) = nth_parent st p ?r" using hp by (simp add: last_boundary_def)
  have "?r < ?P" using P by (rule mod_less_divisor)
  then obtain b where b: "nth_parent st p ?r = Some b" "height st b = height st p - ?r"
    using nth_parent_wf[OF assms(1,3), of ?r] hp by auto
  have bb: "boundary V st ck (Some b)" using bd lp b(1) by simp
  have r: "Suc (height st q) mod ?P = ?r"
  proof -
    have "Suc (height st p) = Suc (height st q) + ?P" using hq(2) hp by simp
    then show ?thesis by (simp only: mod_add_self2)
  qed
  have "prev_boundary st ck b = last_boundary st ck (Some q)"
  proof (cases "Suc (height st q) < ?P")
    case True
    then have "?r = Suc (height st q)" using r by simp
    then have "height st b < ?P" using b(2) hq(2) hp P by linarith
    then show ?thesis using True unfolding prev_boundary_def last_boundary_def option.case by (simp only: if_True)
  next
    case False
    have "nth_parent st p (?P + ?r) = nth_parent st q ?r" "nth_parent st p (?r + ?P) = nth_parent st b ?P"
      using nth_parent_add[OF assms(4)] nth_parent_add[OF b(1)] by simp_all
    then have e: "nth_parent st q ?r = nth_parent st b ?P" by (simp add: add.commute)
    have nb: "\<not> height st b < ?P" using False \<open>?r < ?P\<close> b(2) hq(2) hp by linarith
    then show ?thesis using False e r
      unfolding prev_boundary_def last_boundary_def option.case by (simp only: if_False)
  qed
  then show ?thesis using lp b(1) bb bip9_state_Some[OF assms(1,2) bb] by simp
qed

section \<open>GetStateSinceHeightFor\<close>

text \<open>One period back, in the same state.\<close>

definition same_state_before :: "store \<Rightarrow> ThresholdConditionChecker \<Rightarrow> ptr \<Rightarrow> ptr \<Rightarrow> bool" where
  "same_state_before st ck p q \<longleftrightarrow>
    prev_boundary st ck p = Some q \<and> bip9_state st ck (Some q) = bip9_state st ck (Some p)"

text \<open>The first boundary of the unbroken run of periods in the state of \<open>p\<close>.\<close>

definition state_since :: "store \<Rightarrow> ThresholdConditionChecker \<Rightarrow> ptr \<Rightarrow> ptr \<Rightarrow> bool" where
  "state_since st ck p b \<longleftrightarrow> (same_state_before st ck)\<^sup>*\<^sup>* p b \<and> (\<nexists>q. same_state_before st ck b q)"

lemma last_boundary_self:
  assumes "boundary V st ck (Some q)"
  shows "last_boundary st ck (Some q) = Some q"
proof -
  have d: "period ck dvd Suc (height st q)" using assms by (simp add: boundary_def)
  then have "\<not> Suc (height st q) < period ck" by (metis dvd_imp_le not_less zero_less_Suc)
  moreover have "Suc (height st q) mod period ck = 0" using d by (simp only: dvd_eq_mod_eq_0)
  ultimately show ?thesis unfolding last_boundary_def option.case by (simp only: if_False nth_parent.simps)
qed

lemma since_loop_ok:
  assumes "wf_index V st" "0 < ckPeriod ck" "times_ok V st ck"
  shows "boundary V st ck (Some p) \<Longrightarrow> cache_ok V st ck cache \<Longrightarrow> height st p < n \<Longrightarrow>
    \<exists>b cache'. since_loop n st ck (bip9_state st ck (Some p)) cache p = Some (b, cache') \<and>
      state_since st ck p b \<and> cache_ok V st ck cache' \<and> boundary V st ck (Some b)"
proof (induction n arbitrary: p cache)
  case (Suc n)
  note pb = prev_boundary_ok[OF assms(1,2) Suc.prems(1)]
  show ?case
  proof (cases "prev_boundary st ck p")
    case None
    then have "state_since st ck p p" by (simp add: state_since_def same_state_before_def)
    then show ?thesis using None pb(2) Suc.prems by simp
  next
    case (Some q)
    have bq: "boundary V st ck (Some q)" using pb(1) Some by simp
    then have q: "case Some q of None \<Rightarrow> True | Some p \<Rightarrow> p \<in> V" by (simp add: boundary_def)
    obtain cache1 where c: "GetStateFor st ck (Some q) cache = Some (bip9_state st ck (Some q), cache1)" "cache_ok V st ck cache1"
      using GetStateFor_ok[OF assms Suc.prems(2) q] last_boundary_self[OF bq] by auto
    show ?thesis
    proof (cases "bip9_state st ck (Some q) = bip9_state st ck (Some p)")
      case True
      have "height st q < n" using pb(4)[OF Some] assms(2) Suc.prems(3) by linarith
      from Suc.IH[OF bq c(2) this] obtain b cache' where r:
        "since_loop n st ck (bip9_state st ck (Some q)) cache1 q = Some (b, cache')"
        "state_since st ck q b" "cache_ok V st ck cache'" "boundary V st ck (Some b)" by blast
      have "same_state_before st ck p q" using True Some by (simp add: same_state_before_def)
      then have "state_since st ck p b" using r(2) by (simp add: state_since_def converse_rtranclp_into_rtranclp)
      then show ?thesis using True pb(2) Some c r by simp
    next
      case False
      then have "state_since st ck p p" using Some by (simp add: state_since_def same_state_before_def)
      then show ?thesis using False pb(2) Some c Suc.prems(1) by simp
    qed
  qed
qed simp

lemma GetStateSinceHeightFor_ok:
  assumes "wf_index V st" "0 < ckPeriod ck" "times_ok V st ck" "cache_ok V st ck cache" "p \<in> V"
  shows "\<exists>h cache'. GetStateSinceHeightFor st ck (Some p) cache = Some (h, cache') \<and> cache_ok V st ck cache' \<and>
    (if bip9_state st ck (last_boundary st ck (Some p)) = THRESHOLD_DEFINED then h = 0
     else \<exists>l b. last_boundary st ck (Some p) = Some l \<and> state_since st ck l b \<and> h = nHeight (st b) + 1)"
proof -
  have q: "case Some p of None \<Rightarrow> True | Some p \<Rightarrow> p \<in> V" using assms(5) by simp
  obtain c1 where g: "GetStateFor st ck (Some p) cache = Some (bip9_state st ck (last_boundary st ck (Some p)), c1)" "cache_ok V st ck c1"
    using GetStateFor_ok[OF assms(1-4) q] by blast
  note lb = last_boundary_ok[OF assms(1,2) q]
  show ?thesis
  proof (cases "bip9_state st ck (last_boundary st ck (Some p)) = THRESHOLD_DEFINED")
    case True
    then show ?thesis using g by (simp add: GetStateSinceHeightFor_def)
  next
    case False
    then obtain l where l: "last_boundary st ck (Some p) = Some l" by (cases "last_boundary st ck (Some p)") auto
    have bl: "boundary V st ck (Some l)" using lb(2) l by simp
    obtain b c2 where s: "since_loop (height st l + 2) st ck (bip9_state st ck (Some l)) c1 l = Some (b, c2)"
      "state_since st ck l b" "cache_ok V st ck c2" using since_loop_ok[OF assms(1-3) bl g(2), of "height st l + 2"] by auto
    have a: "GetAncestor st p (nHeight (st p) - (nHeight (st p) + 1) smod ckPeriod ck) = Some (Some l)"
      using lb(1) l by (simp add: period_start_def)
    have "GetStateSinceHeightFor st ck (Some p) cache = Some (nHeight (st b) + 1, c2)"
      using False g(1) l a s(1) by (simp add: GetStateSinceHeightFor_def del: since_loop.simps)
    then show ?thesis using False l s by auto
  qed
qed

section \<open>Properties\<close>

lemma median_const:
  assumes "\<And>p. GetBlockTime (st p) = c"
  shows "GetMedianTimePast st p = c"
proof -
  have all: "t \<in> set (past_times st n b) \<Longrightarrow> t = c" for t n b
    by (induction n arbitrary: b) (auto simp: assms split: option.splits)
  let ?ts = "sort (past_times st nMedianTimeSpan (Some p))"
  have "past_times st nMedianTimeSpan (Some p) \<noteq> []" by (simp add: nMedianTimeSpan_def eval_nat_numeral)
  then have "length ?ts div 2 < length ?ts" by simp
  then have "?ts ! (length ?ts div 2) \<in> set ?ts" by (rule nth_mem)
  then have "?ts ! (length ?ts div 2) = c" using all by (simp only: set_sort)
  then show ?thesis unfolding GetMedianTimePast_def Let_def .
qed

lemma median_line: "GetMedianTimePast line_store p = 0"
  by (rule median_const) (simp add: GetBlockTime_def line_store_def CBlockIndex_null_def)

lemma demo_times: "times_ok UNIV line_store demo_checker" "0 < ckPeriod demo_checker"
  by (simp_all add: times_ok_def median_line demo_checker_def)

lemma empty_cache_ok: "cache_ok V st ck Map.empty"
  by (simp add: cache_ok_def)

lemma demo_locked: "map_option fst (GetStateFor line_store demo_checker (Some 6) Map.empty) = Some THRESHOLD_LOCKED_IN"
  by code_simp

text \<open>
  C34.  With any cache that satisfies the invariant, \<open>GetStateFor\<close> returns, without dereferencing null or
  failing its assertion, the state that BIP 9 assigns to the period when every period is computed from
  the genesis block on; so the result does not depend on the cache, and the updated cache again
  satisfies the invariant.
\<close>

theorem GetStateFor_refines_bip9:
  assumes "wf_index V st" "0 < ckPeriod ck" "times_ok V st ck" "cache_ok V st ck cache" "p \<in> V"
  shows "(\<exists>cache'. GetStateFor st ck (Some p) cache = Some (bip9_state st ck (last_boundary st ck (Some p)), cache') \<and> cache_ok V st ck cache') \<and>
    (\<exists>cache'. GetStateFor st ck None cache = Some (THRESHOLD_DEFINED, cache') \<and> cache_ok V st ck cache')"
  using GetStateFor_ok[OF assms(1-4), of "Some p"] GetStateFor_ok[OF assms(1-4), of None] assms(5)
  by (simp add: last_boundary_def)

theorem GetStateFor_refines_bip9_witness:
  "\<exists>cache'. GetStateFor line_store demo_checker (Some 6) Map.empty =
    Some (bip9_state line_store demo_checker (last_boundary line_store demo_checker (Some 6)), cache') \<and>
    cache_ok UNIV line_store demo_checker cache'"
  using GetStateFor_refines_bip9[OF wf_line_store demo_times(2,1) empty_cache_ok UNIV_I] by blast

text \<open>
  C35.  From a block to any descendant the reported state only moves along the transitions of the state
  machine; in particular \<open>ACTIVE\<close> and \<open>FAILED\<close> are final, whatever the caches used for the two calls.
\<close>

theorem versionbits_states_final:
  assumes "wf_index V st" "0 < ckPeriod ck" "times_ok V st ck" "cache_ok V st ck c1" "cache_ok V st ck c2"
    "p \<in> V" "nth_parent st p k = Some q"
  shows "\<exists>s t. map_option fst (GetStateFor st ck (Some q) c1) = Some s \<and> map_option fst (GetStateFor st ck (Some p) c2) = Some t \<and>
    vb_step\<^sup>*\<^sup>* s t \<and> (s = THRESHOLD_ACTIVE \<or> s = THRESHOLD_FAILED \<longrightarrow> t = s)"
proof -
  have k: "k \<le> height st p"
  proof (rule ccontr)
    assume "\<not> k \<le> height st p"
    then have "height st p < k" by (simp only: not_le)
    from nth_parent_none[OF assms(1,6) this] show False using assms(7) by simp
  qed
  have q: "q \<in> V" using nth_parent_wf[OF assms(1,6) k] assms(7) by auto
  let ?s = "bip9_state st ck (last_boundary st ck (Some q))" and ?t = "bip9_state st ck (last_boundary st ck (Some p))"
  have "map_option fst (GetStateFor st ck (Some q) c1) = Some ?s" using GetStateFor_ok[OF assms(1-4), of "Some q"] q by auto
  moreover have "map_option fst (GetStateFor st ck (Some p) c2) = Some ?t" using GetStateFor_ok[OF assms(1-3,5), of "Some p"] assms(6) by auto
  moreover have "vb_step\<^sup>*\<^sup>* ?s ?t" by (rule bip9_state_descendant[OF assms(1,2,6,7)])
  ultimately show ?thesis using vb_steps_terminal[of ?s ?t] by blast
qed

theorem versionbits_states_final_witness:
  "\<exists>s t. map_option fst (GetStateFor line_store demo_checker (Some 4) Map.empty) = Some s \<and>
    map_option fst (GetStateFor line_store demo_checker (Some 6) Map.empty) = Some t \<and> vb_step\<^sup>*\<^sup>* s t"
proof -
  have "nth_parent line_store 6 2 = Some 4" by code_simp
  from versionbits_states_final[OF wf_line_store demo_times(2,1) empty_cache_ok empty_cache_ok UNIV_I this] show ?thesis by blast
qed

text \<open>
  C36.  A deployment that is locked in for a block is active for every descendant exactly one period
  later.
\<close>

theorem versionbits_locked_in_activates:
  assumes "wf_index V st" "0 < ckPeriod ck" "times_ok V st ck" "cache_ok V st ck c1" "cache_ok V st ck c2"
    "p \<in> V" "nth_parent st p (nat (ckPeriod ck)) = Some q"
    "map_option fst (GetStateFor st ck (Some q) c1) = Some THRESHOLD_LOCKED_IN"
  shows "map_option fst (GetStateFor st ck (Some p) c2) = Some THRESHOLD_ACTIVE"
proof -
  obtain b where b: "last_boundary st ck (Some p) = Some b"
    "bip9_state st ck (Some b) = bip9_next st ck b (bip9_state st ck (last_boundary st ck (Some q)))"
    using bip9_state_period[OF assms(1,2,6,7)] by blast
  have "\<not> height st p < period ck" using nth_parent_none[OF assms(1,6), of "period ck"] assms(7) by force
  then have "q \<in> V" using nth_parent_wf[OF assms(1,6), of "period ck"] assms(7) by auto
  then have "bip9_state st ck (last_boundary st ck (Some q)) = THRESHOLD_LOCKED_IN"
    using GetStateFor_ok[OF assms(1-4), of "Some q"] assms(8) by auto
  then have "bip9_state st ck (last_boundary st ck (Some p)) = THRESHOLD_ACTIVE" using b by (simp add: bip9_next_def)
  then show ?thesis using GetStateFor_ok[OF assms(1-3,5), of "Some p"] assms(6) by auto
qed

theorem versionbits_locked_in_activates_witness:
  "map_option fst (GetStateFor line_store demo_checker (Some 9) Map.empty) = Some THRESHOLD_ACTIVE"
proof -
  have "nth_parent line_store 9 (nat (ckPeriod demo_checker)) = Some 6" by code_simp
  from versionbits_locked_in_activates[OF wf_line_store demo_times(2,1) empty_cache_ok empty_cache_ok UNIV_I this demo_locked]
  show ?thesis .
qed

text \<open>
  C36.  \<open>GetStateSinceHeightFor\<close> terminates and returns 0 for a deployment in state \<open>DEFINED\<close>; otherwise the
  height after the first boundary of the unbroken run of periods in the present state.
\<close>

theorem GetStateSinceHeightFor_correct:
  assumes "wf_index V st" "0 < ckPeriod ck" "times_ok V st ck" "cache_ok V st ck cache" "p \<in> V"
  shows "\<exists>h cache'. GetStateSinceHeightFor st ck (Some p) cache = Some (h, cache') \<and> cache_ok V st ck cache' \<and>
    (if bip9_state st ck (last_boundary st ck (Some p)) = THRESHOLD_DEFINED then h = 0
     else \<exists>l b. last_boundary st ck (Some p) = Some l \<and> state_since st ck l b \<and> h = nHeight (st b) + 1)"
  using GetStateSinceHeightFor_ok[OF assms] .

theorem GetStateSinceHeightFor_correct_witness:
  "\<exists>h cache'. GetStateSinceHeightFor line_store demo_checker (Some 6) Map.empty = Some (h, cache') \<and>
    cache_ok UNIV line_store demo_checker cache'"
  using GetStateSinceHeightFor_correct[OF wf_line_store demo_times(2,1) empty_cache_ok UNIV_I] by blast

lemma bip9_state_timed_out:
  assumes "wf_index V st" "0 < ckPeriod ck" "boundary V st ck b" "\<And>p. p \<in> V \<Longrightarrow> ckEndTime ck \<le> GetMedianTimePast st p"
  shows "bip9_state st ck b = (if b = None then THRESHOLD_DEFINED else THRESHOLD_FAILED)"
  using assms(1-3)
proof (induction b rule: boundary_induct)
  case (block p)
  then have "ckEndTime ck \<le> GetMedianTimePast st p" using assms(4) by (simp add: boundary_def)
  then show ?case using block(2) bip9_state_Some[OF assms(1,2) block(1)] by (simp add: bip9_next_def split: if_splits)
qed simp

text \<open>
  C37.  With the deployments of the main network, whose timeouts are not after the time stamp
  1504197832 of the genesis block, no deployment ever reaches \<open>STARTED\<close>, \<open>LOCKED_IN\<close> or \<open>ACTIVE\<close>: at the
  first period boundary it is \<open>FAILED\<close>.
\<close>

theorem main_deployments_never_activate:
  assumes "wf_index V st" "p \<in> V" "pos < length (vDeployments main_params)"
    "\<And>b. b \<in> V \<Longrightarrow> 1504197832 \<le> GetMedianTimePast st b"
    "times_ok V st (VersionBitsConditionChecker main_params pos)"
    "cache_ok V st (VersionBitsConditionChecker main_params pos) (caches ! pos)"
  shows "map_option fst (VersionBitsState st (Some p) main_params pos caches) =
    Some (if nat (nHeight (st p)) + 1 < 8064 then THRESHOLD_DEFINED else THRESHOLD_FAILED)"
proof -
  let ?ck = "VersionBitsConditionChecker main_params pos"
  have "length (vDeployments main_params) = 3" by (simp add: main_params_def)
  then have "pos = 0 \<or> pos = 1 \<or> pos = 2" using assms(3) by linarith
  then have ck: "ckPeriod ?ck = 8064" "ckEndTime ?ck \<le> 1504197832"
    by (elim disjE; simp add: VersionBitsConditionChecker_def main_params_def)+
  have b: "boundary V st ?ck (last_boundary st ?ck (Some p))"
    using last_boundary_ok(2)[OF assms(1), of ?ck "Some p"] assms(2) ck(1) by simp
  have "bip9_state st ?ck (last_boundary st ?ck (Some p)) =
      (if last_boundary st ?ck (Some p) = None then THRESHOLD_DEFINED else THRESHOLD_FAILED)"
    using ck assms(4) by (intro bip9_state_timed_out[OF assms(1) _ b]) (simp, force)
  moreover have "last_boundary st ?ck (Some p) = None \<longleftrightarrow> nat (nHeight (st p)) + 1 < 8064"
  proof (cases "Suc (height st p) < 8064")
    case False
    have "Suc (height st p) mod 8064 < 8064" by simp
    then have "Suc (height st p) mod 8064 \<le> height st p" using False by linarith
    then show ?thesis using nth_parent_wf[OF assms(1,2)] False by (force simp: last_boundary_def ck(1))
  qed (simp add: last_boundary_def ck(1))
  ultimately show ?thesis
    using GetStateFor_ok[OF assms(1) _ assms(5,6), of "Some p"] assms(2) ck(1) by (auto simp: VersionBitsState_def)
qed

theorem main_deployments_never_activate_witness:
  "map_option fst (VersionBitsState genesis_time_store (Some 20000) main_params 2 [Map.empty, Map.empty, Map.empty]) = Some THRESHOLD_FAILED"
proof -
  have wf: "wf_index UNIV genesis_time_store"
    by (auto simp: wf_index_def genesis_time_store_def line_store_def CBlockIndex_null_def)
  have m: "GetMedianTimePast genesis_time_store b = 1504197832" for b
    by (rule median_const) (simp add: GetBlockTime_def genesis_time_store_def)
  have len: "2 < length (vDeployments main_params)" by (simp add: main_params_def)
  have t: "times_ok UNIV genesis_time_store (VersionBitsConditionChecker main_params 2)"
    by (simp add: times_ok_def m VersionBitsConditionChecker_def main_params_def)
  have c: "cache_ok UNIV genesis_time_store (VersionBitsConditionChecker main_params 2) ([Map.empty, Map.empty, Map.empty] ! 2)"
    by (simp add: cache_ok_def)
  from main_deployments_never_activate[OF wf UNIV_I len _ t c, of 20000] m
  show ?thesis by (simp add: genesis_time_store_def line_store_def)
qed

end
