(* ===== verification/Endian.thy ===== *)
theory Endian
  imports Prelude
begin

text \<open>
  Little-endian integers in byte strings, \<^verbatim>\<open>sige/crypto/common.h\<close>: the readers take the bytes at the
  pointer, the writers return the bytes they store.  Conversion through \<^verbatim>\<open>le16toh\<close> and its relatives
  makes the byte order independent of the host.
\<close>

abbreviation le_val :: "bytes \<Rightarrow> nat" where "le_val \<equiv> limbs_val 8"

primrec le_bytes :: "nat \<Rightarrow> nat \<Rightarrow> bytes" where
  "le_bytes 0 v = []"
| "le_bytes (Suc n) v = of_nat v # le_bytes n (v div 256)"

definition ReadLE16 :: "bytes \<Rightarrow> u16" where "ReadLE16 ptr = of_nat (le_val (take 2 ptr))"
definition ReadLE32 :: "bytes \<Rightarrow> u32" where "ReadLE32 ptr = of_nat (le_val (take 4 ptr))"
definition ReadLE64 :: "bytes \<Rightarrow> u64" where "ReadLE64 ptr = of_nat (le_val (take 8 ptr))"
definition WriteLE16 :: "u16 \<Rightarrow> bytes" where "WriteLE16 x = le_bytes 2 (unat x)"
definition WriteLE32 :: "u32 \<Rightarrow> bytes" where "WriteLE32 x = le_bytes 4 (unat x)"
definition WriteLE64 :: "u64 \<Rightarrow> bytes" where "WriteLE64 x = le_bytes 8 (unat x)"

lemma unat_byte_lt: "unat (b :: u8) < 256"
  using unat_lt_exp[of b] by simp

lemma length_le_bytes [simp, shape]: "length (le_bytes n v) = n"
  by (induction n arbitrary: v) auto

lemma le_val_append: "le_val (xs @ ys) = le_val xs + le_val ys * 256 ^ length xs"
  by (induction xs) (simp_all add: algebra_simps)

lemma le_val_bound: "le_val xs < 256 ^ length xs"
proof (induction xs)
  case (Cons x xs)
  then have "Suc (le_val xs) * 256 \<le> 256 ^ length xs * 256" by (intro mult_le_mono1) simp
  then show ?case using unat_byte_lt[of x] by simp
qed simp

lemma le_val_le_bytes: "le_val (le_bytes n v) = v mod 256 ^ n"
  by (induction n arbitrary: v) (simp_all add: unat_of_nat mod_mult2_eq)

lemma le_bytes_le_val: "le_bytes (length xs) (le_val xs) = xs"
proof (induction xs)
  case (Cons x xs)
  have "(of_nat (unat x + le_val xs * 256) :: u8) = of_nat (unat x) + of_nat (le_val xs) * of_nat 256"
    by (simp only: of_nat_add of_nat_mult)
  also have "(of_nat 256 :: u8) = 0" by simp
  finally have "(of_nat (unat x + le_val xs * 256) :: u8) = x" by simp
  then show ?case using Cons unat_byte_lt[of x] by simp
qed simp

lemma le_val_inj: "length xs = length ys \<Longrightarrow> le_val xs = le_val ys \<Longrightarrow> xs = ys"
  by (metis le_bytes_le_val)

lemma WriteLE_length [simp, shape]: "length (WriteLE16 x) = 2" "length (WriteLE32 y) = 4" "length (WriteLE64 z) = 8"
  by (simp_all add: WriteLE16_def WriteLE32_def WriteLE64_def)

lemma of_nat_mod_unat:
  "(of_nat (unat (x :: 'a::len word) mod 2 ^ LENGTH('a)) :: 'a word) = x"
  by simp

lemma ReadLE_WriteLE [simp]:
  "ReadLE16 (WriteLE16 x @ r) = x" "ReadLE32 (WriteLE32 y @ r) = y" "ReadLE64 (WriteLE64 z @ r) = z"
  using of_nat_mod_unat[of x] of_nat_mod_unat[of y] of_nat_mod_unat[of z]
  by (simp_all add: ReadLE16_def WriteLE16_def ReadLE32_def WriteLE32_def ReadLE64_def WriteLE64_def le_val_le_bytes
      del: of_nat_unat)

end
