(* ===== verification/ScriptNum.thy ===== *)
theory ScriptNum
  imports Endian
begin

text \<open>
  The numbers of the script language, \<^verbatim>\<open>sige/src/script/script_num.h\<close>: sign-and-magnitude, little-endian,
  of variable length.  A \<^verbatim>\<open>CScriptNum\<close> is its 64-bit \<^verbatim>\<open>m_value\<close>, here an integer; the assertions of the
  class say when an operation stays in range.
\<close>

type_synonym CScriptNum = int

datatype scriptnum_error = ScriptNumberOverflow | NonMinimalScriptNumber

definition int64_min :: int where "int64_min = - (2 ^ 63)"
definition int64_max :: int where "int64_max = 2 ^ 63 - 1"
definition int32_min :: int where "int32_min = - (2 ^ 31)"
definition int32_max :: int where "int32_max = 2 ^ 31 - 1"

definition nDefaultMaxNumSize :: nat where "nDefaultMaxNumSize = 4"

text \<open>\<^verbatim>\<open>for (i = 0; i != vch.size(); ++i) result |= static_cast<int64_t>(vch[i]) << 8 * i;\<close>\<close>

primrec set_vch_loop :: "nat \<Rightarrow> u64 \<Rightarrow> bytes \<Rightarrow> u64" where
  "set_vch_loop i result [] = result"
| "set_vch_loop i result (b # vch) = set_vch_loop (i + 1) (result OR push_bit (8 * i) (ucast b)) vch"

definition set_vch :: "bytes \<Rightarrow> int" where
  "set_vch vch =
    (if vch = [] then 0
     else let result = set_vch_loop 0 0 vch
          in if last vch AND 0x80 \<noteq> 0
             then - sint (result AND NOT (push_bit (8 * (length vch - 1)) 0x80))
             else sint result)"

definition CScriptNum_of_vch :: "bytes \<Rightarrow> bool \<Rightarrow> nat \<Rightarrow> scriptnum_error + CScriptNum" where
  "CScriptNum_of_vch vch fRequireMinimal nMaxNumSize =
    (if length vch > nMaxNumSize then Inl ScriptNumberOverflow
     else if fRequireMinimal \<and> length vch > 0 \<and> last vch AND 0x7f = 0 \<and>
             (length vch \<le> 1 \<or> vch ! (length vch - 2) AND 0x80 = 0)
          then Inl NonMinimalScriptNumber
     else Inr (set_vch vch))"

text \<open>\<^verbatim>\<open>while (absvalue) { result.push_back(absvalue & 0xff); absvalue >>= 8; }\<close>\<close>

function abs_bytes :: "nat \<Rightarrow> bytes" where
  "abs_bytes absvalue = (if absvalue = 0 then [] else of_nat absvalue # abs_bytes (absvalue div 256))"
  by pat_completeness auto
termination by (relation "measure id") auto

declare abs_bytes.simps [simp del]

definition CScriptNum_serialize :: "int \<Rightarrow> bytes" where
  "CScriptNum_serialize v =
    (if v = 0 then []
     else let neg = v < 0; result = abs_bytes (nat (if neg then - v else v))
          in if last result AND 0x80 \<noteq> 0 then result @ [if neg then 0x80 else 0]
             else if neg then butlast result @ [last result OR 0x80]
             else result)"

definition getint :: "CScriptNum \<Rightarrow> int" where
  "getint v = (if v > int32_max then int32_max else if v < int32_min then int32_min else v)"

text \<open>Assignment operators and negation; \<open>None\<close> is a failed assertion.\<close>

definition num_add_assign :: "CScriptNum \<Rightarrow> CScriptNum \<Rightarrow> CScriptNum option" where
  "num_add_assign v rhs =
    (if rhs = 0 \<or> (rhs > 0 \<and> v \<le> int64_max - rhs) \<or> (rhs < 0 \<and> v \<ge> int64_min - rhs) then Some (v + rhs) else None)"

definition num_sub_assign :: "CScriptNum \<Rightarrow> CScriptNum \<Rightarrow> CScriptNum option" where
  "num_sub_assign v rhs =
    (if rhs = 0 \<or> (rhs > 0 \<and> v \<ge> int64_min + rhs) \<or> (rhs < 0 \<and> v \<le> int64_max + rhs) then Some (v - rhs) else None)"

definition num_uminus :: "CScriptNum \<Rightarrow> CScriptNum option" where
  "num_uminus v = (if v \<noteq> int64_min then Some (- v) else None)"

section \<open>Values of encodings\<close>

text \<open>The number a byte string stands for: the top bit is the sign, the rest the magnitude.\<close>

definition num_mag :: "bytes \<Rightarrow> nat" where
  "num_mag vch = (if vch = [] then 0 else le_val (butlast vch @ [last vch AND 0x7f]))"

definition num_val :: "bytes \<Rightarrow> int" where
  "num_val vch = (if vch \<noteq> [] \<and> bit (last vch) 7 then - int (num_mag vch) else int (num_mag vch))"

definition num_minimal :: "bytes \<Rightarrow> bool" where
  "num_minimal vch \<longleftrightarrow> vch = [] \<or> last vch AND 0x7f \<noteq> 0 \<or> (1 < length vch \<and> bit (vch ! (length vch - 2)) 7)"

lemma and_0x80: "(b :: u8) AND 0x80 \<noteq> 0 \<longleftrightarrow> bit b 7"
proof -
  have "b AND 0x80 = (if bit b 7 then 0x80 else 0)"
  proof (rule bit_word_eqI)
    fix n assume "n < LENGTH(8)"
    then have "n = 0 \<or> n = 1 \<or> n = 2 \<or> n = 3 \<or> n = 4 \<or> n = 5 \<or> n = 6 \<or> n = 7" by auto
    then show "bit (b AND 0x80) n \<longleftrightarrow> bit (if bit b 7 then 0x80 else 0 :: u8) n"
      by (elim disjE) (simp_all add: bit_and_iff)
  qed
  then show ?thesis by simp
qed

lemma unat_and_0x7f: "unat ((b :: u8) AND 0x7f) = unat b mod 128"
  using unat_and_mask[of b 7] by (simp add: mask_eq_exp_minus_1)

lemma bit7_unat: "bit (b :: u8) 7 \<longleftrightarrow> 128 \<le> unat b"
proof -
  have "bit b 7 \<longleftrightarrow> bit (unat b) 7" by (simp add: bit_unsigned_iff)
  also have "\<dots> \<longleftrightarrow> 128 \<le> unat b"
  proof (cases "128 \<le> unat b")
    case True
    then have "unat b div 128 = 1" using unat_byte_lt[of b] by simp
    then show ?thesis using True by (simp add: bit_iff_odd)
  qed (simp add: bit_iff_odd)
  finally show ?thesis .
qed

lemma set_vch_loop_val:
  assumes "unat r < 256 ^ i" "i + length vch \<le> 8"
  shows "unat (set_vch_loop i r vch) = unat r + le_val vch * 256 ^ i"
  using assms
proof (induction vch arbitrary: i r)
  case (Cons b vch)
  have p: "(2::nat) ^ (8 * i) = 256 ^ i" by (simp add: power_mult)
  have "Suc (unat b) * 256 ^ i \<le> 256 * 256 ^ i" using unat_byte_lt[of b] by (intro mult_le_mono1) simp
  also have "256 * 256 ^ i = (256::nat) ^ Suc i" by simp
  finally have b: "unat b * 256 ^ i + 256 ^ i \<le> (256::nat) ^ Suc i" by simp
  have "(256::nat) ^ Suc i \<le> 256 ^ 8" using Cons.prems(2) by (intro power_increasing) auto
  also have "\<dots> = 2 ^ 64" by simp
  finally have "unat b * 256 ^ i + 256 ^ i \<le> 2 ^ 64" using b by (rule le_trans[rotated])
  moreover have "(0::nat) < 256 ^ i" by simp
  ultimately have "unat b * 256 ^ i < 2 ^ 64" by linarith
  then have u: "unat (r OR push_bit (8 * i) (ucast b)) = unat r + unat b * 256 ^ i"
    using unat_or_shift[of r "8 * i" "ucast b :: u64"] Cons.prems(1) by (simp add: p unat_ucast_widen)
  then have "unat (r OR push_bit (8 * i) (ucast b)) < 256 ^ (i + 1)" using Cons.prems(1) b by (simp only: Suc_eq_plus1 u)
  from Cons.IH[OF this] Cons.prems(2) u show ?case by (simp add: algebra_simps)
qed simp

lemma num_mag_snoc: "num_mag (xs @ [t]) = le_val xs + unat t mod 128 * 256 ^ length xs"
  by (simp add: num_mag_def le_val_append unat_and_0x7f)

lemma le_val_snoc_mag:
  "le_val (xs @ [t]) = num_mag (xs @ [t]) + (if bit t 7 then 2 ^ (8 * length xs + 7) else 0)"
proof (cases "bit t 7")
  case True
  then have "unat t = unat t mod 128 + 128" using unat_byte_lt[of t] le_mod_geq[of 128 "unat t"] by (simp add: bit7_unat)
  then have "unat t * 256 ^ length xs = unat t mod 128 * 256 ^ length xs + 128 * 256 ^ length xs"
    by (metis add_mult_distrib)
  moreover have "(2::nat) ^ (8 * length xs + 7) = 128 * 256 ^ length xs" by (simp add: power_add power_mult)
  ultimately show ?thesis using True by (simp add: num_mag_snoc le_val_append)
qed (simp add: num_mag_snoc le_val_append bit7_unat)

lemma num_mag_bound: "num_mag (xs @ [t]) < 2 ^ (8 * length xs + 7)"
proof -
  have "le_val xs + unat t mod 128 * 256 ^ length xs < Suc (unat t mod 128) * 256 ^ length xs"
    using le_val_bound[of xs] by simp
  also have "\<dots> \<le> 128 * 256 ^ length xs" by (intro mult_le_mono1) (simp add: Suc_leI)
  finally show ?thesis by (simp add: num_mag_snoc power_add power_mult)
qed

lemma set_vch_eq:
  assumes "length vch \<le> 8"
  shows "set_vch vch = num_val vch"
proof (cases vch rule: rev_cases)
  case (snoc xs t)
  let ?r = "set_vch_loop 0 0 vch" and ?k = "8 * length xs + 7"
  have r: "unat ?r = num_mag vch + (if bit t 7 then 2 ^ ?k else 0)"
    using set_vch_loop_val[of 0 0 vch] assms le_val_snoc_mag[of xs t] by (simp add: snoc)
  have k: "?k \<le> 63" using assms snoc by simp
  have m: "num_mag vch < 2 ^ 63"
    using num_mag_bound[of xs t] power_increasing[OF k, of "2::nat"] snoc by simp
  show ?thesis
  proof (cases "bit t 7")
    case True
    have "unat ?r div 2 ^ ?k = 1" using digit_mod_div(2)[OF num_mag_bound[of xs t], of 1] True r by (simp add: snoc)
    then have "bit (unat ?r) ?k" by (simp only: bit_iff_odd) simp
    then have "bit ?r ?k" by (simp add: bit_unsigned_iff)
    moreover have "push_bit (8 * (length vch - 1)) 0x80 = (push_bit ?k 1 :: u64)"
      by (simp add: snoc push_bit_eq_mult power_add)
    ultimately have "unat (?r AND NOT (push_bit (8 * (length vch - 1)) 0x80)) = num_mag vch"
      using unat_clear_bit[of ?r ?k] r True by simp
    then show ?thesis using m True and_0x80[of t] sint_small[of "?r AND NOT (push_bit (8 * (length vch - 1)) 0x80)"]
      by (simp add: set_vch_def num_val_def snoc)
  next
    case False
    then show ?thesis using m r and_0x80[of t] sint_small[of ?r] by (simp add: set_vch_def num_val_def snoc)
  qed
qed (simp add: set_vch_def num_val_def num_mag_def)

section \<open>Serialization\<close>

lemma abs_bytes_0 [simp]: "abs_bytes 0 = []"
  by (simp add: abs_bytes.simps)

lemma abs_bytes_pos: "0 < v \<Longrightarrow> abs_bytes v = of_nat v # abs_bytes (v div 256)"
  by (subst abs_bytes.simps) simp

lemma le_val_abs_bytes [simp]: "le_val (abs_bytes v) = v"
  by (induction v rule: abs_bytes.induct) (subst abs_bytes.simps, simp add: unat_of_nat)

lemma abs_bytes_eq_Nil [simp]: "abs_bytes v = [] \<longleftrightarrow> v = 0"
  by (subst abs_bytes.simps) simp

lemma last_abs_bytes: "0 < v \<Longrightarrow> last (abs_bytes v) \<noteq> 0"
proof (induction v rule: abs_bytes.induct)
  case (1 v)
  show ?case
  proof (cases "v div 256 = 0")
    case True
    then have "v < 256" by simp
    then have "unat (of_nat v :: u8) = v" by (simp add: unat_of_nat)
    then show ?thesis using 1(2) True by (auto simp: abs_bytes_pos)
  qed (use 1 in \<open>simp add: abs_bytes_pos[of v]\<close>)
qed

lemma abs_bytes_le_val:
  assumes "xs = [] \<or> last xs \<noteq> 0"
  shows "abs_bytes (le_val xs) = xs"
  using assms
proof (induction xs)
  case (Cons x xs)
  have "0 < le_val (x # xs)"
  proof (cases "xs = []")
    case True
    then show ?thesis using Cons.prems by (simp add: unat_gt_0)
  next
    case False
    then have "abs_bytes (le_val xs) \<noteq> []" using Cons by simp
    then have "0 < le_val xs" by simp
    then show ?thesis by simp
  qed
  then have "abs_bytes (le_val (x # xs)) = of_nat (le_val (x # xs)) # abs_bytes (le_val (x # xs) div 256)"
    by (rule abs_bytes_pos)
  also have "le_val (x # xs) div 256 = le_val xs" using unat_byte_lt[of x] by simp
  also have "(of_nat (le_val (x # xs)) :: u8) = x"
    using le_bytes_le_val[of "x # xs"] by simp
  finally show ?case using Cons by (cases xs) auto
qed simp

text \<open>Every serialized number is a minimal encoding of it, and there is no other.\<close>

lemma serialize_cases:
  assumes "v \<noteq> 0"
  obtains xs t where "CScriptNum_serialize v = xs @ [t]" "bit t 7 \<longleftrightarrow> v < 0" "num_mag (xs @ [t]) = nat \<bar>v\<bar>"
    "num_minimal (xs @ [t])"
proof -
  let ?a = "nat \<bar>v\<bar>"
  have a: "0 < ?a" using assms by simp
  then obtain ys y where y: "abs_bytes ?a = ys @ [y]" by (metis abs_bytes_eq_Nil less_not_refl rev_exhaust)
  have y0: "y \<noteq> 0" using last_abs_bytes[OF a] y by simp
  have val: "le_val (ys @ [y]) = ?a" by (metis y le_val_abs_bytes)
  have s: "CScriptNum_serialize v =
      (if bit y 7 then ys @ [y, if v < 0 then 0x80 else 0] else if v < 0 then ys @ [y OR 0x80] else ys @ [y])"
    using assms y and_0x80[of y] by (simp add: CScriptNum_serialize_def abs_if)
  show thesis
  proof (cases "bit y 7")
    case True
    let ?t = "if v < 0 then 0x80 else 0 :: u8"
    have "num_mag ((ys @ [y]) @ [?t]) = ?a" using val by (simp only: num_mag_snoc) simp
    then show thesis using that[of "ys @ [y]" ?t] s True by (simp add: num_minimal_def nth_append)
  next
    case False
    let ?t = "if v < 0 then y OR 0x80 else y"
    have y7: "unat y < 128" using False by (simp add: bit7_unat)
    have t: "unat ?t mod 128 = unat y"
    proof (cases "v < 0")
      case True
      have "unat (y OR push_bit 7 1) = unat y + 2 ^ 7" using False by (intro unat_or_bit) simp_all
      then show ?thesis using True y7 by simp
    qed (use y7 in simp)
    have "num_mag (ys @ [?t]) = ?a" using val t by (simp add: num_mag_snoc le_val_append)
    moreover have "?t AND 0x7f \<noteq> 0"
      using t y0 unat_and_0x7f[of ?t] by (metis unat_0 unat_eq_zero)
    moreover have "bit ?t 7 \<longleftrightarrow> v < 0" using False by (simp add: bit_or_iff)
    ultimately show thesis using that[of ys ?t] s False by (simp add: num_minimal_def)
  qed
qed

lemma num_val_serialize [simp]: "num_val (CScriptNum_serialize v) = v"
proof (cases "v = 0")
  case False
  then show ?thesis by (elim serialize_cases) (simp add: num_val_def)
qed (simp add: CScriptNum_serialize_def num_val_def num_mag_def)

lemma num_minimal_serialize: "num_minimal (CScriptNum_serialize v)"
proof (cases "v = 0")
  case False
  then show ?thesis by (elim serialize_cases) simp
qed (simp add: CScriptNum_serialize_def num_minimal_def)

lemma and_0x7f_or_top: "(t :: u8) AND 0x7f = (if bit t 7 then t AND NOT (push_bit 7 1) else t)"
proof -
  have "unat (t AND 0x7f) = unat (if bit t 7 then t AND NOT (push_bit 7 1) else t)"
    using unat_clear_bit[of t 7] unat_byte_lt[of t] le_mod_geq[of 128 "unat t"]
    by (simp add: unat_and_0x7f bit7_unat)
  then show ?thesis by (simp only: word_unat_eq_iff)
qed

lemma serialize_num_val:
  assumes "num_minimal vch"
  shows "CScriptNum_serialize (num_val vch) = vch"
proof (cases vch rule: rev_cases)
  case (snoc xs t)
  show ?thesis
  proof (cases "t AND 0x7f = 0")
    case False
    have mag: "num_mag vch = le_val (xs @ [t AND 0x7f])" by (simp add: num_mag_def snoc)
    then have abs: "abs_bytes (num_mag vch) = xs @ [t AND 0x7f]" using abs_bytes_le_val[of "xs @ [t AND 0x7f]"] False by simp
    then have pos: "num_mag vch \<noteq> 0" using abs_bytes_0 by (metis append_is_Nil_conv not_Cons_self2)
    have "\<not> bit (t AND 0x7f) 7" using unat_and_0x7f[of t] by (simp add: bit7_unat)
    moreover have "(t AND 0x7f) OR 0x80 = t" if "bit t 7"
    proof (rule iffD2[OF word_unat_eq_iff])
      have "unat ((t AND 0x7f) OR push_bit 7 1) = unat (t AND 0x7f) + 2 ^ 7"
        using \<open>\<not> bit (t AND 0x7f) 7\<close> by (intro unat_or_bit) simp_all
      then show "unat ((t AND 0x7f) OR 0x80) = unat t"
        using that unat_byte_lt[of t] le_mod_geq[of 128 "unat t"] by (simp add: unat_and_0x7f bit7_unat)
    qed
    ultimately show ?thesis using abs pos and_0x80[of "t AND 0x7f"] and_0x7f_or_top[of t]
      by (auto simp: CScriptNum_serialize_def num_val_def snoc)
  next
    case True
    then have xs: "xs \<noteq> []" "bit (last xs) 7" using assms by (auto simp: num_minimal_def snoc last_conv_nth nth_append)
    have "unat t mod 128 = 0" using True unat_and_0x7f[of t] by simp
    then have mag: "num_mag vch = le_val xs" by (simp add: num_mag_snoc snoc)
    then have abs: "abs_bytes (num_mag vch) = xs" using abs_bytes_le_val[of xs] xs by fastforce
    then have pos: "num_mag vch \<noteq> 0" using xs by auto
    have "t = (if bit t 7 then 0x80 else 0)"
    proof (rule iffD2[OF word_unat_eq_iff])
      show "unat t = unat (if bit t 7 then 0x80 else 0 :: u8)"
        using \<open>unat t mod 128 = 0\<close> unat_byte_lt[of t] by (auto simp: bit7_unat)
    qed
    then show ?thesis using abs pos xs and_0x80[of "last xs"]
      by (auto simp: CScriptNum_serialize_def num_val_def snoc split: if_splits)
  qed
qed (simp add: num_val_def num_mag_def CScriptNum_serialize_def)

lemma num_minimal_mag:
  assumes "num_minimal (xs @ [t])" "xs \<noteq> []"
  shows "2 ^ (8 * length xs - 1) \<le> num_mag (xs @ [t])"
proof (cases "t AND 0x7f = 0")
  case False
  then have "unat t mod 128 \<noteq> 0" using unat_and_0x7f[of t] by (metis unat_eq_zero)
  then have "1 * 256 ^ length xs \<le> unat t mod 128 * 256 ^ length xs" by (intro mult_le_mono1) simp
  then have "256 ^ length xs \<le> num_mag (xs @ [t])" by (simp only: num_mag_snoc)
  then have "2 ^ (8 * length xs) \<le> num_mag (xs @ [t])" by (simp add: power_mult)
  moreover have "(2::nat) ^ (8 * length xs - 1) \<le> 2 ^ (8 * length xs)" by (intro power_increasing) auto
  ultimately show ?thesis by linarith
next
  case True
  obtain ys y where y: "xs = ys @ [y]" using assms(2) by (cases xs rule: rev_cases) auto
  have "bit y 7" using assms True y by (simp add: num_minimal_def nth_append)
  then have "2 ^ (8 * length ys + 7) \<le> le_val xs" using le_val_snoc_mag[of ys y] y by simp
  moreover have "8 * length xs - 1 = 8 * length ys + 7" by (simp add: y)
  ultimately show ?thesis by (simp add: num_mag_snoc)
qed

lemma num_val_bound:
  assumes "length vch \<le> n" "0 < n"
  shows "\<bar>num_val vch\<bar> < 2 ^ (8 * n - 1)"
proof (cases vch rule: rev_cases)
  case (snoc xs t)
  have "8 * length xs + 7 \<le> 8 * n - 1" using assms(1) by (simp add: snoc)
  then have "(2::nat) ^ (8 * length xs + 7) \<le> 2 ^ (8 * n - 1)" by (rule power_increasing) simp
  then have "num_mag vch < 2 ^ (8 * n - 1)" using num_mag_bound[of xs t] by (simp only: snoc)
  then have "int (num_mag vch) < 2 ^ (8 * n - 1)" by (metis of_nat_less_iff of_nat_numeral of_nat_power)
  then show ?thesis by (simp add: num_val_def)
qed (simp add: num_val_def num_mag_def)

lemma serialize_length:
  assumes "\<bar>v\<bar> < 2 ^ (8 * n - 1)" "0 < n"
  shows "length (CScriptNum_serialize v) \<le> n"
proof (cases "v = 0")
  case False
  then obtain xs t where x: "CScriptNum_serialize v = xs @ [t]" "num_mag (xs @ [t]) = nat \<bar>v\<bar>" "num_minimal (xs @ [t])"
    using serialize_cases by metis
  have "nat \<bar>v\<bar> < 2 ^ (8 * n - 1)" using assms(1) by (simp add: nat_less_iff)
  then have "num_mag (xs @ [t]) < 2 ^ (8 * n - 1)" by (simp only: x)
  then have "(2::nat) ^ (8 * length xs - 1) < 2 ^ (8 * n - 1)" if "xs \<noteq> []" using num_minimal_mag[OF x(3) that] by linarith
  then show ?thesis using assms(2) x(1) by (cases "xs = []") (auto simp: power_strict_increasing_iff)
qed (simp add: CScriptNum_serialize_def)

lemma CScriptNum_of_vch_eq:
  assumes "n \<le> 8"
  shows "CScriptNum_of_vch vch minimal n =
    (if n < length vch then Inl ScriptNumberOverflow
     else if minimal \<and> \<not> num_minimal vch then Inl NonMinimalScriptNumber else Inr (num_val vch))"
  using assms set_vch_eq[of vch] and_0x80[of "vch ! (length vch - 2)"]
  by (auto simp: CScriptNum_of_vch_def num_minimal_def)

lemma CScriptNum_of_vch_bound:
  assumes "CScriptNum_of_vch vch minimal n = Inr v" "0 < n" "n \<le> 8"
  shows "\<bar>v\<bar> < 2 ^ (8 * n - 1)"
  using assms num_val_bound[of vch n] by (auto simp: CScriptNum_of_vch_eq split: if_splits)

lemma CScriptNum_of_vch_relax:
  assumes "CScriptNum_of_vch vch True n = Inr v"
  shows "CScriptNum_of_vch vch minimal n = Inr v"
  using assms by (auto simp: CScriptNum_of_vch_def split: if_splits)

lemma operand_bound:
  assumes "CScriptNum_of_vch vch minimal nDefaultMaxNumSize = Inr v"
  shows "\<bar>v\<bar> < 2 ^ 31"
  using CScriptNum_of_vch_bound[OF assms] by (simp add: nDefaultMaxNumSize_def)

section \<open>Property\<close>

text \<open>
  C38.  Numbers and their byte strings: a number that fits in \<open>n\<close> bytes is read back from its
  serialization, with the minimality check on; a string that the check accepts is the serialization
  of the number read; and every number read from at most \<open>n\<close> bytes is below \<open>2^(8n-1)\<close> in magnitude.
\<close>

theorem script_num_round_trip:
  assumes "0 < n" "n \<le> 8"
  shows "(\<bar>v\<bar> < 2 ^ (8 * n - 1) \<longrightarrow> CScriptNum_of_vch (CScriptNum_serialize v) True n = Inr v) \<and>
    (CScriptNum_of_vch vch True n = Inr w \<longrightarrow> CScriptNum_serialize w = vch) \<and>
    (CScriptNum_of_vch vch minimal n = Inr w \<longrightarrow> \<bar>w\<bar> < 2 ^ (8 * n - 1))"
proof (intro conjI impI)
  show "CScriptNum_of_vch (CScriptNum_serialize v) True n = Inr v" if "\<bar>v\<bar> < 2 ^ (8 * n - 1)"
    using serialize_length[OF that assms(1)] assms(2) by (simp add: CScriptNum_of_vch_eq num_minimal_serialize)
  show "CScriptNum_serialize w = vch" if "CScriptNum_of_vch vch True n = Inr w"
    using that assms(2) serialize_num_val[of vch] by (auto simp: CScriptNum_of_vch_eq split: if_splits)
  show "\<bar>w\<bar> < 2 ^ (8 * n - 1)" if "CScriptNum_of_vch vch minimal n = Inr w"
    using CScriptNum_of_vch_bound[OF that assms] .
qed

theorem script_num_round_trip_witness:
  "CScriptNum_of_vch (CScriptNum_serialize (- 255)) True 4 = Inr (- 255) \<and> CScriptNum_serialize (- 255) = [0xff, 0x80]"
proof
  show "CScriptNum_of_vch (CScriptNum_serialize (- 255)) True 4 = Inr (- 255)"
    using script_num_round_trip[of 4 "- 255" "[]" 0 True] by simp
  show "CScriptNum_serialize (- 255) = [0xff, 0x80]" by code_simp
qed

end
