(* ===== verification/Script.thy ===== *)
theory Script
  imports ScriptNum
begin

text \<open>
  Scripts as byte strings, \<^verbatim>\<open>sige/src/script/script.h\<close>, \<^verbatim>\<open>script.cpp\<close> and \<^verbatim>\<open>script_const.h\<close>.  An iterator into
  a script is the rest of the script from it on; the end of the script is the empty list.  Opcodes
  are numbers, since \<^verbatim>\<open>GetOp2\<close> casts every byte to \<^verbatim>\<open>opcodetype\<close>, also bytes that are no enumerator.
\<close>

type_synonym opcodetype = nat
type_synonym CScript = bytes
type_synonym valtype = bytes

definition MAX_SCRIPT_ELEMENT_SIZE :: nat where "MAX_SCRIPT_ELEMENT_SIZE = 520"
definition MAX_OPS_PER_SCRIPT :: int where "MAX_OPS_PER_SCRIPT = 201"
definition MAX_PUBKEYS_PER_MULTISIG :: int where "MAX_PUBKEYS_PER_MULTISIG = 20"
definition MAX_SCRIPT_SIZE :: nat where "MAX_SCRIPT_SIZE = 10000"
definition LOCKTIME_THRESHOLD :: int where "LOCKTIME_THRESHOLD = 500000000"

abbreviation (input) OP_0 :: opcodetype where "OP_0 \<equiv> 0x00"
abbreviation (input) OP_FALSE :: opcodetype where "OP_FALSE \<equiv> OP_0"
abbreviation (input) OP_PUSHDATA1 :: opcodetype where "OP_PUSHDATA1 \<equiv> 0x4c"
abbreviation (input) OP_PUSHDATA2 :: opcodetype where "OP_PUSHDATA2 \<equiv> 0x4d"
abbreviation (input) OP_PUSHDATA4 :: opcodetype where "OP_PUSHDATA4 \<equiv> 0x4e"
abbreviation (input) OP_1NEGATE :: opcodetype where "OP_1NEGATE \<equiv> 0x4f"
abbreviation (input) OP_RESERVED :: opcodetype where "OP_RESERVED \<equiv> 0x50"
abbreviation (input) OP_1 :: opcodetype where "OP_1 \<equiv> 0x51"
abbreviation (input) OP_TRUE :: opcodetype where "OP_TRUE \<equiv> OP_1"
abbreviation (input) OP_2 :: opcodetype where "OP_2 \<equiv> 0x52"
abbreviation (input) OP_3 :: opcodetype where "OP_3 \<equiv> 0x53"
abbreviation (input) OP_4 :: opcodetype where "OP_4 \<equiv> 0x54"
abbreviation (input) OP_5 :: opcodetype where "OP_5 \<equiv> 0x55"
abbreviation (input) OP_6 :: opcodetype where "OP_6 \<equiv> 0x56"
abbreviation (input) OP_7 :: opcodetype where "OP_7 \<equiv> 0x57"
abbreviation (input) OP_8 :: opcodetype where "OP_8 \<equiv> 0x58"
abbreviation (input) OP_9 :: opcodetype where "OP_9 \<equiv> 0x59"
abbreviation (input) OP_10 :: opcodetype where "OP_10 \<equiv> 0x5a"
abbreviation (input) OP_11 :: opcodetype where "OP_11 \<equiv> 0x5b"
abbreviation (input) OP_12 :: opcodetype where "OP_12 \<equiv> 0x5c"
abbreviation (input) OP_13 :: opcodetype where "OP_13 \<equiv> 0x5d"
abbreviation (input) OP_14 :: opcodetype where "OP_14 \<equiv> 0x5e"
abbreviation (input) OP_15 :: opcodetype where "OP_15 \<equiv> 0x5f"
abbreviation (input) OP_16 :: opcodetype where "OP_16 \<equiv> 0x60"
abbreviation (input) OP_NOP :: opcodetype where "OP_NOP \<equiv> 0x61"
abbreviation (input) OP_VER :: opcodetype where "OP_VER \<equiv> 0x62"
abbreviation (input) OP_IF :: opcodetype where "OP_IF \<equiv> 0x63"
abbreviation (input) OP_NOTIF :: opcodetype where "OP_NOTIF \<equiv> 0x64"
abbreviation (input) OP_VERIF :: opcodetype where "OP_VERIF \<equiv> 0x65"
abbreviation (input) OP_VERNOTIF :: opcodetype where "OP_VERNOTIF \<equiv> 0x66"
abbreviation (input) OP_ELSE :: opcodetype where "OP_ELSE \<equiv> 0x67"
abbreviation (input) OP_ENDIF :: opcodetype where "OP_ENDIF \<equiv> 0x68"
abbreviation (input) OP_VERIFY :: opcodetype where "OP_VERIFY \<equiv> 0x69"
abbreviation (input) OP_RETURN :: opcodetype where "OP_RETURN \<equiv> 0x6a"
abbreviation (input) OP_TOALTSTACK :: opcodetype where "OP_TOALTSTACK \<equiv> 0x6b"
abbreviation (input) OP_FROMALTSTACK :: opcodetype where "OP_FROMALTSTACK \<equiv> 0x6c"
abbreviation (input) OP_2DROP :: opcodetype where "OP_2DROP \<equiv> 0x6d"
abbreviation (input) OP_2DUP :: opcodetype where "OP_2DUP \<equiv> 0x6e"
abbreviation (input) OP_3DUP :: opcodetype where "OP_3DUP \<equiv> 0x6f"
abbreviation (input) OP_2OVER :: opcodetype where "OP_2OVER \<equiv> 0x70"
abbreviation (input) OP_2ROT :: opcodetype where "OP_2ROT \<equiv> 0x71"
abbreviation (input) OP_2SWAP :: opcodetype where "OP_2SWAP \<equiv> 0x72"
abbreviation (input) OP_IFDUP :: opcodetype where "OP_IFDUP \<equiv> 0x73"
abbreviation (input) OP_DEPTH :: opcodetype where "OP_DEPTH \<equiv> 0x74"
abbreviation (input) OP_DROP :: opcodetype where "OP_DROP \<equiv> 0x75"
abbreviation (input) OP_DUP :: opcodetype where "OP_DUP \<equiv> 0x76"
abbreviation (input) OP_NIP :: opcodetype where "OP_NIP \<equiv> 0x77"
abbreviation (input) OP_OVER :: opcodetype where "OP_OVER \<equiv> 0x78"
abbreviation (input) OP_PICK :: opcodetype where "OP_PICK \<equiv> 0x79"
abbreviation (input) OP_ROLL :: opcodetype where "OP_ROLL \<equiv> 0x7a"
abbreviation (input) OP_ROT :: opcodetype where "OP_ROT \<equiv> 0x7b"
abbreviation (input) OP_SWAP :: opcodetype where "OP_SWAP \<equiv> 0x7c"
abbreviation (input) OP_TUCK :: opcodetype where "OP_TUCK \<equiv> 0x7d"
abbreviation (input) OP_CAT :: opcodetype where "OP_CAT \<equiv> 0x7e"
abbreviation (input) OP_SUBSTR :: opcodetype where "OP_SUBSTR \<equiv> 0x7f"
abbreviation (input) OP_LEFT :: opcodetype where "OP_LEFT \<equiv> 0x80"
abbreviation (input) OP_RIGHT :: opcodetype where "OP_RIGHT \<equiv> 0x81"
abbreviation (input) OP_SIZE :: opcodetype where "OP_SIZE \<equiv> 0x82"
abbreviation (input) OP_INVERT :: opcodetype where "OP_INVERT \<equiv> 0x83"
abbreviation (input) OP_AND :: opcodetype where "OP_AND \<equiv> 0x84"
abbreviation (input) OP_OR :: opcodetype where "OP_OR \<equiv> 0x85"
abbreviation (input) OP_XOR :: opcodetype where "OP_XOR \<equiv> 0x86"
abbreviation (input) OP_EQUAL :: opcodetype where "OP_EQUAL \<equiv> 0x87"
abbreviation (input) OP_EQUALVERIFY :: opcodetype where "OP_EQUALVERIFY \<equiv> 0x88"
abbreviation (input) OP_RESERVED1 :: opcodetype where "OP_RESERVED1 \<equiv> 0x89"
abbreviation (input) OP_RESERVED2 :: opcodetype where "OP_RESERVED2 \<equiv> 0x8a"
abbreviation (input) OP_1ADD :: opcodetype where "OP_1ADD \<equiv> 0x8b"
abbreviation (input) OP_1SUB :: opcodetype where "OP_1SUB \<equiv> 0x8c"
abbreviation (input) OP_2MUL :: opcodetype where "OP_2MUL \<equiv> 0x8d"
abbreviation (input) OP_2DIV :: opcodetype where "OP_2DIV \<equiv> 0x8e"
abbreviation (input) OP_NEGATE :: opcodetype where "OP_NEGATE \<equiv> 0x8f"
abbreviation (input) OP_ABS :: opcodetype where "OP_ABS \<equiv> 0x90"
abbreviation (input) OP_NOT :: opcodetype where "OP_NOT \<equiv> 0x91"
abbreviation (input) OP_0NOTEQUAL :: opcodetype where "OP_0NOTEQUAL \<equiv> 0x92"
abbreviation (input) OP_ADD :: opcodetype where "OP_ADD \<equiv> 0x93"
abbreviation (input) OP_SUB :: opcodetype where "OP_SUB \<equiv> 0x94"
abbreviation (input) OP_MUL :: opcodetype where "OP_MUL \<equiv> 0x95"
abbreviation (input) OP_DIV :: opcodetype where "OP_DIV \<equiv> 0x96"
abbreviation (input) OP_MOD :: opcodetype where "OP_MOD \<equiv> 0x97"
abbreviation (input) OP_LSHIFT :: opcodetype where "OP_LSHIFT \<equiv> 0x98"
abbreviation (input) OP_RSHIFT :: opcodetype where "OP_RSHIFT \<equiv> 0x99"
abbreviation (input) OP_BOOLAND :: opcodetype where "OP_BOOLAND \<equiv> 0x9a"
abbreviation (input) OP_BOOLOR :: opcodetype where "OP_BOOLOR \<equiv> 0x9b"
abbreviation (input) OP_NUMEQUAL :: opcodetype where "OP_NUMEQUAL \<equiv> 0x9c"
abbreviation (input) OP_NUMEQUALVERIFY :: opcodetype where "OP_NUMEQUALVERIFY \<equiv> 0x9d"
abbreviation (input) OP_NUMNOTEQUAL :: opcodetype where "OP_NUMNOTEQUAL \<equiv> 0x9e"
abbreviation (input) OP_LESSTHAN :: opcodetype where "OP_LESSTHAN \<equiv> 0x9f"
abbreviation (input) OP_GREATERTHAN :: opcodetype where "OP_GREATERTHAN \<equiv> 0xa0"
abbreviation (input) OP_LESSTHANOREQUAL :: opcodetype where "OP_LESSTHANOREQUAL \<equiv> 0xa1"
abbreviation (input) OP_GREATERTHANOREQUAL :: opcodetype where "OP_GREATERTHANOREQUAL \<equiv> 0xa2"
abbreviation (input) OP_MIN :: opcodetype where "OP_MIN \<equiv> 0xa3"
abbreviation (input) OP_MAX :: opcodetype where "OP_MAX \<equiv> 0xa4"
abbreviation (input) OP_WITHIN :: opcodetype where "OP_WITHIN \<equiv> 0xa5"
abbreviation (input) OP_RIPEMD160 :: opcodetype where "OP_RIPEMD160 \<equiv> 0xa6"
abbreviation (input) OP_SHA1 :: opcodetype where "OP_SHA1 \<equiv> 0xa7"
abbreviation (input) OP_SHA256 :: opcodetype where "OP_SHA256 \<equiv> 0xa8"
abbreviation (input) OP_HASH160 :: opcodetype where "OP_HASH160 \<equiv> 0xa9"
abbreviation (input) OP_HASH256 :: opcodetype where "OP_HASH256 \<equiv> 0xaa"
abbreviation (input) OP_CODESEPARATOR :: opcodetype where "OP_CODESEPARATOR \<equiv> 0xab"
abbreviation (input) OP_CHECKSIG :: opcodetype where "OP_CHECKSIG \<equiv> 0xac"
abbreviation (input) OP_CHECKSIGVERIFY :: opcodetype where "OP_CHECKSIGVERIFY \<equiv> 0xad"
abbreviation (input) OP_CHECKMULTISIG :: opcodetype where "OP_CHECKMULTISIG \<equiv> 0xae"
abbreviation (input) OP_CHECKMULTISIGVERIFY :: opcodetype where "OP_CHECKMULTISIGVERIFY \<equiv> 0xaf"
abbreviation (input) OP_NOP1 :: opcodetype where "OP_NOP1 \<equiv> 0xb0"
abbreviation (input) OP_CHECKLOCKTIMEVERIFY :: opcodetype where "OP_CHECKLOCKTIMEVERIFY \<equiv> 0xb1"
abbreviation (input) OP_NOP2 :: opcodetype where "OP_NOP2 \<equiv> OP_CHECKLOCKTIMEVERIFY"
abbreviation (input) OP_CHECKSEQUENCEVERIFY :: opcodetype where "OP_CHECKSEQUENCEVERIFY \<equiv> 0xb2"
abbreviation (input) OP_NOP3 :: opcodetype where "OP_NOP3 \<equiv> OP_CHECKSEQUENCEVERIFY"
abbreviation (input) OP_NOP4 :: opcodetype where "OP_NOP4 \<equiv> 0xb3"
abbreviation (input) OP_NOP5 :: opcodetype where "OP_NOP5 \<equiv> 0xb4"
abbreviation (input) OP_NOP6 :: opcodetype where "OP_NOP6 \<equiv> 0xb5"
abbreviation (input) OP_NOP7 :: opcodetype where "OP_NOP7 \<equiv> 0xb6"
abbreviation (input) OP_NOP8 :: opcodetype where "OP_NOP8 \<equiv> 0xb7"
abbreviation (input) OP_NOP9 :: opcodetype where "OP_NOP9 \<equiv> 0xb8"
abbreviation (input) OP_NOP10 :: opcodetype where "OP_NOP10 \<equiv> 0xb9"
abbreviation (input) OP_SMALLINTEGER :: opcodetype where "OP_SMALLINTEGER \<equiv> 0xfa"
abbreviation (input) OP_PUBKEYS :: opcodetype where "OP_PUBKEYS \<equiv> 0xfb"
abbreviation (input) OP_PUBKEYHASH :: opcodetype where "OP_PUBKEYHASH \<equiv> 0xfd"
abbreviation (input) OP_PUBKEY :: opcodetype where "OP_PUBKEY \<equiv> 0xfe"
abbreviation (input) OP_INVALIDOPCODE :: opcodetype where "OP_INVALIDOPCODE \<equiv> 0xff"

section \<open>Building scripts\<close>

definition push_opcode :: "CScript \<Rightarrow> opcodetype \<Rightarrow> CScript" where
  "push_opcode s opcode = s @ [of_nat opcode]"

definition push_data :: "CScript \<Rightarrow> valtype \<Rightarrow> CScript" where
  "push_data s b =
    (if length b < OP_PUSHDATA1 then s @ [of_nat (length b)]
     else if length b \<le> 0xff then s @ [of_nat OP_PUSHDATA1, of_nat (length b)]
     else if length b \<le> 0xffff then s @ [of_nat OP_PUSHDATA2] @ WriteLE16 (of_nat (length b))
     else s @ [of_nat OP_PUSHDATA4] @ WriteLE32 (of_nat (length b))) @ b"

definition push_int64 :: "CScript \<Rightarrow> int \<Rightarrow> CScript" where
  "push_int64 s n =
    (if n = - 1 \<or> (n \<ge> 1 \<and> n \<le> 16) then s @ [of_int (n + (int OP_1 - 1))]
     else if n = 0 then s @ [of_nat OP_0]
     else push_data s (CScriptNum_serialize n))"

section \<open>Reading instructions\<close>

text \<open>The result, the opcode, the operand and the iterator as the call leaves it.\<close>

definition GetOp2 :: "bytes \<Rightarrow> bool \<times> opcodetype \<times> valtype \<times> bytes" where
  "GetOp2 pc =
    (case pc of
       [] \<Rightarrow> (False, OP_INVALIDOPCODE, [], pc)
     | b # pc \<Rightarrow>
         let opcode = unat b
         in if opcode \<le> OP_PUSHDATA4
            then let sized =
                       (if opcode < OP_PUSHDATA1 then Some (opcode, pc)
                        else if opcode = OP_PUSHDATA1
                        then (if length pc < 1 then None else Some (unat (hd pc), drop 1 pc))
                        else if opcode = OP_PUSHDATA2
                        then (if length pc < 2 then None else Some (unat (ReadLE16 pc), drop 2 pc))
                        else (if length pc < 4 then None else Some (unat (ReadLE32 pc), drop 4 pc)))
                 in case sized of
                      None \<Rightarrow> (False, OP_INVALIDOPCODE, [], pc)
                    | Some (nSize, pc) \<Rightarrow>
                        if length pc < nSize then (False, OP_INVALIDOPCODE, [], pc)
                        else (True, opcode, take nSize pc, drop nSize pc)
            else (True, opcode, [], pc))"

definition GetOp :: "bytes \<Rightarrow> (opcodetype \<times> valtype \<times> bytes) option" where
  "GetOp pc = (case GetOp2 pc of (fRet, r) \<Rightarrow> if fRet then Some r else None)"

text \<open>\<open>None\<close> is a failed assertion.\<close>

definition DecodeOP_N :: "opcodetype \<Rightarrow> int option" where
  "DecodeOP_N opcode =
    (if opcode = OP_0 then Some 0
     else if opcode \<ge> OP_1 \<and> opcode \<le> OP_16 then Some (int opcode - (int OP_1 - 1)) else None)"

definition EncodeOP_N :: "int \<Rightarrow> opcodetype option" where
  "EncodeOP_N n =
    (if n \<ge> 0 \<and> n \<le> 16 then Some (if n = 0 then OP_0 else nat (int OP_1 + n - 1)) else None)"

section \<open>Searching\<close>

text \<open>The inner loop of \<open>FindAndDelete\<close> skips the copies of \<open>b\<close> at the iterator.\<close>

function skip_copies :: "CScript \<Rightarrow> bytes \<Rightarrow> nat \<Rightarrow> bytes \<times> nat" where
  "skip_copies b pc nFound =
    (if b \<noteq> [] \<and> length pc \<ge> length b \<and> take (length b) pc = b
     then skip_copies b (drop (length b) pc) (nFound + 1)
     else (pc, nFound))"
  by pat_completeness auto
termination by (relation "measure (\<lambda>(b, pc, _). length pc)") (auto simp: neq_Nil_conv)

declare skip_copies.simps [simp del]

text \<open>\<open>pc2\<close> is where the last copy ended, \<open>pc\<close> the end of the instruction read from there.\<close>

function FindAndDelete_loop :: "CScript \<Rightarrow> bytes \<Rightarrow> bytes \<Rightarrow> CScript \<Rightarrow> nat \<Rightarrow> CScript \<times> nat \<times> bytes" where
  "FindAndDelete_loop b pc2 pc result nFound =
    (let result = result @ take (length pc2 - length pc) pc2
     in case skip_copies b pc nFound of
          (pc, nFound) \<Rightarrow>
            case GetOp pc of
              None \<Rightarrow> (result, nFound, pc)
            | Some (opcode, vch, pc') \<Rightarrow> FindAndDelete_loop b pc pc' result nFound)"
  by pat_completeness auto
termination
proof -
  have skip: "length (fst (skip_copies b pc n)) \<le> length pc" for b pc n
    by (induction b pc n rule: skip_copies.induct) (subst skip_copies.simps, auto simp: le_diff_conv split: if_splits)
  have skip': "(pc1, n1) = skip_copies b pc n \<Longrightarrow> length pc1 \<le> length pc" for b pc n pc1 n1
    using skip[of b pc n] by (metis fst_conv)
  have getop: "GetOp pc = Some (opcode, vch, pc') \<Longrightarrow> length pc' < length pc" for pc opcode vch pc'
    by (auto simp: GetOp_def GetOp2_def Let_def split: list.splits if_splits option.splits)
  show ?thesis
    by (relation "measure (\<lambda>(b, pc2, pc, r, n). length pc)") (simp, force dest: skip' getop)
qed

declare FindAndDelete_loop.simps [simp del]

definition FindAndDelete :: "CScript \<Rightarrow> CScript \<Rightarrow> CScript \<times> nat" where
  "FindAndDelete this b =
    (if b = [] then (this, 0)
     else case FindAndDelete_loop b this this [] 0 of
            (result, nFound, pc2) \<Rightarrow> if nFound > 0 then (result @ pc2, nFound) else (this, nFound))"

function Find_loop :: "opcodetype \<Rightarrow> bytes \<Rightarrow> nat \<Rightarrow> nat" where
  "Find_loop op pc nFound =
    (case GetOp pc of
       None \<Rightarrow> nFound
     | Some (opcode, vch, pc') \<Rightarrow> Find_loop op pc' (if opcode = op then nFound + 1 else nFound))"
  by pat_completeness auto
termination
  by (relation "measure (\<lambda>(op, pc, n). length pc)")
    (auto simp: GetOp_def GetOp2_def Let_def split: list.splits if_splits option.splits)

declare Find_loop.simps [simp del]

definition Find :: "CScript \<Rightarrow> opcodetype \<Rightarrow> nat" where
  "Find this op = Find_loop op this 0"

section \<open>Signature operations\<close>

text \<open>The counter stays far below \<open>2^32\<close>: it grows by at most 20 for each byte of the script.\<close>

function SigOpCount_loop :: "bool \<Rightarrow> bytes \<Rightarrow> opcodetype \<Rightarrow> int \<Rightarrow> int option" where
  "SigOpCount_loop fAccurate pc lastOpcode n =
    (case GetOp pc of
       None \<Rightarrow> Some n
     | Some (opcode, vch, pc') \<Rightarrow>
         if opcode = OP_CHECKSIG \<or> opcode = OP_CHECKSIGVERIFY then SigOpCount_loop fAccurate pc' opcode (n + 1)
         else if opcode = OP_CHECKMULTISIG \<or> opcode = OP_CHECKMULTISIGVERIFY
         then if fAccurate \<and> lastOpcode \<ge> OP_1 \<and> lastOpcode \<le> OP_16
              then case DecodeOP_N lastOpcode of
                     None \<Rightarrow> None
                   | Some k \<Rightarrow> SigOpCount_loop fAccurate pc' opcode (n + k)
              else SigOpCount_loop fAccurate pc' opcode (n + MAX_PUBKEYS_PER_MULTISIG)
         else SigOpCount_loop fAccurate pc' opcode n)"
  by pat_completeness auto
termination
  by (relation "measure (\<lambda>(a, pc, l, n). length pc)")
    (auto simp: GetOp_def GetOp2_def Let_def split: list.splits if_splits option.splits)

declare SigOpCount_loop.simps [simp del]

definition GetSigOpCount :: "CScript \<Rightarrow> bool \<Rightarrow> int option" where
  "GetSigOpCount this fAccurate = SigOpCount_loop fAccurate this OP_INVALIDOPCODE 0"

definition IsPayToScriptHash :: "CScript \<Rightarrow> bool" where
  "IsPayToScriptHash this \<longleftrightarrow>
    length this = 23 \<and> this ! 0 = of_nat OP_HASH160 \<and> this ! 1 = 0x14 \<and> this ! 22 = of_nat OP_EQUAL"

definition IsPayToWitnessScriptHash :: "CScript \<Rightarrow> bool" where
  "IsPayToWitnessScriptHash this \<longleftrightarrow> length this = 34 \<and> this ! 0 = of_nat OP_0 \<and> this ! 1 = 0x20"

text \<open>The version and the program; the assertion of \<open>DecodeOP_N\<close> holds by the test before it.\<close>

definition IsWitnessProgram :: "CScript \<Rightarrow> (int \<times> bytes) option" where
  "IsWitnessProgram this =
    (if length this < 4 \<or> length this > 42 then None
     else if unat (this ! 0) \<noteq> OP_0 \<and> (unat (this ! 0) < OP_1 \<or> unat (this ! 0) > OP_16) then None
     else if unat (this ! 1) + 2 = length this
     then map_option (\<lambda>version. (version, drop 2 this)) (DecodeOP_N (unat (this ! 0)))
     else None)"

text \<open>The data of the last push of a script of pushes; \<open>None\<close> when another instruction occurs.\<close>

function last_push :: "bytes \<Rightarrow> valtype \<Rightarrow> valtype option" where
  "last_push pc data =
    (if pc = [] then Some data
     else case GetOp pc of
            None \<Rightarrow> None
          | Some (opcode, vch, pc') \<Rightarrow> if opcode > OP_16 then None else last_push pc' vch)"
  by pat_completeness auto
termination
  by (relation "measure (\<lambda>(pc, d). length pc)")
    (auto simp: GetOp_def GetOp2_def Let_def split: list.splits if_splits option.splits)

declare last_push.simps [simp del]

definition GetSigOpCount_P2SH :: "CScript \<Rightarrow> CScript \<Rightarrow> int option" where
  "GetSigOpCount_P2SH this scriptSig =
    (if \<not> IsPayToScriptHash this then GetSigOpCount this True
     else case last_push scriptSig [] of
            None \<Rightarrow> Some 0
          | Some data \<Rightarrow> GetSigOpCount data True)"

function IsPushOnly_from :: "bytes \<Rightarrow> bool" where
  "IsPushOnly_from pc =
    (if pc = [] then True
     else case GetOp pc of
            None \<Rightarrow> False
          | Some (opcode, vch, pc') \<Rightarrow> if opcode > OP_16 then False else IsPushOnly_from pc')"
  by pat_completeness auto
termination
  by (relation "measure length")
    (auto simp: GetOp_def GetOp2_def Let_def split: list.splits if_splits option.splits)

declare IsPushOnly_from.simps [simp del]

definition IsPushOnly :: "CScript \<Rightarrow> bool" where
  "IsPushOnly this = IsPushOnly_from this"

definition IsUnspendable :: "CScript \<Rightarrow> bool" where
  "IsUnspendable this \<longleftrightarrow> (length this > 0 \<and> unat (hd this) = OP_RETURN) \<or> length this > MAX_SCRIPT_SIZE"

section \<open>Facts about reading\<close>

lemma GetOp_cases:
  assumes "GetOp pc = Some (opcode, vch, pc')"
  obtains xs where "pc = xs @ vch @ pc'" "xs \<noteq> []" "unat (hd pc) = opcode" "OP_PUSHDATA4 < opcode \<Longrightarrow> vch = []"
proof -
  obtain b r where pc: "pc = b # r" using assms by (cases pc) (auto simp: GetOp_def GetOp2_def)
  have "(\<exists>n. r = take n r @ vch @ pc') \<and> opcode = unat b \<and> (OP_PUSHDATA4 < opcode \<longrightarrow> vch = [])"
  proof -
    have split: "r = take k r @ take n (drop k r) @ drop n (drop k r)" for k n by (simp only: append_take_drop_id)
    show ?thesis
      using assms split[of 0] split[of 1] split[of 2] split[of 4]
      by (auto simp: GetOp_def GetOp2_def Let_def pc split: if_splits)
  qed
  then obtain n where "r = take n r @ vch @ pc'" "opcode = unat b" "OP_PUSHDATA4 < opcode \<longrightarrow> vch = []" by blast
  then show thesis using that[of "b # take n r"] pc by auto
qed

lemma GetOp_length: "GetOp pc = Some (opcode, vch, pc') \<Longrightarrow> length pc' < length pc"
  by (erule GetOp_cases) auto

lemma GetOp_opcode: "GetOp (b # r) = Some (opcode, vch, pc') \<Longrightarrow> opcode = unat b"
  by (auto simp: GetOp_def GetOp2_def Let_def split: if_splits option.splits)

lemma GetOp_Nil [simp]: "GetOp [] = None"
  by (simp add: GetOp_def GetOp2_def)

lemma GetOp_plain [simp]: "OP_PUSHDATA4 < unat b \<Longrightarrow> GetOp (b # r) = Some (unat b, [], r)"
  by (simp add: GetOp_def GetOp2_def)

lemma push_data_append: "push_data s b = s @ push_data [] b"
  by (simp add: push_data_def)

lemma push_opcode_append: "push_opcode s opcode = s @ push_opcode [] opcode"
  by (simp add: push_opcode_def)

text \<open>The opcode with which \<open>push_data\<close> starts.\<close>

definition push_op :: "nat \<Rightarrow> opcodetype" where
  "push_op n = (if n < OP_PUSHDATA1 then n else if n \<le> 0xff then OP_PUSHDATA1 else if n \<le> 0xffff then OP_PUSHDATA2 else OP_PUSHDATA4)"

lemma push_op_le: "push_op n \<le> OP_PUSHDATA4"
  by (simp add: push_op_def)

lemma GetOp_push_data:
  assumes "length b < 2 ^ 32"
  shows "GetOp (push_data [] b @ r) = Some (push_op (length b), b, r)"
proof -
  consider "length b < OP_PUSHDATA1" | "OP_PUSHDATA1 \<le> length b" "length b \<le> 0xff"
    | "0xff < length b" "length b \<le> 0xffff" | "0xffff < length b" by linarith
  then show ?thesis
  proof cases
    case 3
    have "unat (of_nat (length b) :: u16) = length b" using 3 by (simp add: unat_of_nat)
    then show ?thesis using 3 by (simp add: push_data_def GetOp_def GetOp2_def push_op_def)
  next
    case 4
    have "unat (of_nat (length b) :: u32) = length b" using assms by (simp add: unat_of_nat)
    then show ?thesis using 4 by (simp add: push_data_def GetOp_def GetOp2_def push_op_def)
  qed (simp_all add: push_data_def GetOp_def GetOp2_def push_op_def unat_of_nat)
qed

end
