(* ===== verification/Interpreter.thy ===== *)
theory Interpreter
  imports Script
begin

text \<open>
  The script interpreter, \<^verbatim>\<open>sige/src/script/interpreter.cpp\<close>.  Hash functions and the low-S test of
  signatures are the fields of an environment, the signature checker (a class with virtual
  functions) is a record of functions.  The stacks are lists with the top element first.  A call
  fails with a script error, returns, or aborts at a failed assertion; an exception inside the
  interpreter is caught by it and becomes \<open>SCRIPT_ERR_UNKNOWN_ERROR\<close>.
\<close>

section \<open>Data\<close>

datatype ScriptError =
    SCRIPT_ERR_OK
  | SCRIPT_ERR_UNKNOWN_ERROR
  | SCRIPT_ERR_EVAL_FALSE
  | SCRIPT_ERR_OP_RETURN
  | SCRIPT_ERR_SCRIPT_SIZE
  | SCRIPT_ERR_PUSH_SIZE
  | SCRIPT_ERR_OP_COUNT
  | SCRIPT_ERR_STACK_SIZE
  | SCRIPT_ERR_SIG_COUNT
  | SCRIPT_ERR_PUBKEY_COUNT
  | SCRIPT_ERR_VERIFY
  | SCRIPT_ERR_EQUALVERIFY
  | SCRIPT_ERR_CHECKMULTISIGVERIFY
  | SCRIPT_ERR_CHECKSIGVERIFY
  | SCRIPT_ERR_NUMEQUALVERIFY
  | SCRIPT_ERR_BAD_OPCODE
  | SCRIPT_ERR_DISABLED_OPCODE
  | SCRIPT_ERR_INVALID_STACK_OPERATION
  | SCRIPT_ERR_INVALID_ALTSTACK_OPERATION
  | SCRIPT_ERR_UNBALANCED_CONDITIONAL
  | SCRIPT_ERR_NEGATIVE_LOCKTIME
  | SCRIPT_ERR_UNSATISFIED_LOCKTIME
  | SCRIPT_ERR_SIG_HASHTYPE
  | SCRIPT_ERR_SIG_DER
  | SCRIPT_ERR_MINIMALDATA
  | SCRIPT_ERR_SIG_PUSHONLY
  | SCRIPT_ERR_SIG_HIGH_S
  | SCRIPT_ERR_SIG_NULLDUMMY
  | SCRIPT_ERR_PUBKEYTYPE
  | SCRIPT_ERR_CLEANSTACK
  | SCRIPT_ERR_MINIMALIF
  | SCRIPT_ERR_SIG_NULLFAIL
  | SCRIPT_ERR_DISCOURAGE_UPGRADABLE_NOPS
  | SCRIPT_ERR_DISCOURAGE_UPGRADABLE_WITNESS_PROGRAM
  | SCRIPT_ERR_WITNESS_PROGRAM_WRONG_LENGTH
  | SCRIPT_ERR_WITNESS_PROGRAM_WITNESS_EMPTY
  | SCRIPT_ERR_WITNESS_PROGRAM_MISMATCH
  | SCRIPT_ERR_WITNESS_MALLEATED
  | SCRIPT_ERR_WITNESS_MALLEATED_P2SH
  | SCRIPT_ERR_WITNESS_UNEXPECTED
  | SCRIPT_ERR_WITNESS_PUBKEYTYPE

datatype script_fail = Fails ScriptError | Aborts

datatype SigVersion = SIGVERSION_BASE | SIGVERSION_WITNESS_V0

definition SCRIPT_VERIFY_P2SH :: u32 where "SCRIPT_VERIFY_P2SH = push_bit 0 1"
definition SCRIPT_VERIFY_STRICTENC :: u32 where "SCRIPT_VERIFY_STRICTENC = push_bit 1 1"
definition SCRIPT_VERIFY_DERSIG :: u32 where "SCRIPT_VERIFY_DERSIG = push_bit 2 1"
definition SCRIPT_VERIFY_LOW_S :: u32 where "SCRIPT_VERIFY_LOW_S = push_bit 3 1"
definition SCRIPT_VERIFY_NULLDUMMY :: u32 where "SCRIPT_VERIFY_NULLDUMMY = push_bit 4 1"
definition SCRIPT_VERIFY_SIGPUSHONLY :: u32 where "SCRIPT_VERIFY_SIGPUSHONLY = push_bit 5 1"
definition SCRIPT_VERIFY_MINIMALDATA :: u32 where "SCRIPT_VERIFY_MINIMALDATA = push_bit 6 1"
definition SCRIPT_VERIFY_DISCOURAGE_UPGRADABLE_NOPS :: u32 where "SCRIPT_VERIFY_DISCOURAGE_UPGRADABLE_NOPS = push_bit 7 1"
definition SCRIPT_VERIFY_CLEANSTACK :: u32 where "SCRIPT_VERIFY_CLEANSTACK = push_bit 8 1"
definition SCRIPT_VERIFY_CHECKLOCKTIMEVERIFY :: u32 where "SCRIPT_VERIFY_CHECKLOCKTIMEVERIFY = push_bit 9 1"
definition SCRIPT_VERIFY_CHECKSEQUENCEVERIFY :: u32 where "SCRIPT_VERIFY_CHECKSEQUENCEVERIFY = push_bit 10 1"
definition SCRIPT_VERIFY_WITNESS :: u32 where "SCRIPT_VERIFY_WITNESS = push_bit 11 1"
definition SCRIPT_VERIFY_DISCOURAGE_UPGRADABLE_WITNESS_PROGRAM :: u32 where "SCRIPT_VERIFY_DISCOURAGE_UPGRADABLE_WITNESS_PROGRAM = push_bit 12 1"
definition SCRIPT_VERIFY_MINIMALIF :: u32 where "SCRIPT_VERIFY_MINIMALIF = push_bit 13 1"
definition SCRIPT_VERIFY_NULLFAIL :: u32 where "SCRIPT_VERIFY_NULLFAIL = push_bit 14 1"
definition SCRIPT_VERIFY_WITNESS_PUBKEYTYPE :: u32 where "SCRIPT_VERIFY_WITNESS_PUBKEYTYPE = push_bit 15 1"

definition flag :: "u32 \<Rightarrow> u32 \<Rightarrow> bool" where
  "flag flags f \<longleftrightarrow> flags AND f \<noteq> 0"

record script_env =
  ripemd160 :: "bytes \<Rightarrow> bytes"
  sha1 :: "bytes \<Rightarrow> bytes"
  sha256 :: "bytes \<Rightarrow> bytes"
  CheckLowS :: "bytes \<Rightarrow> bool"

record BaseSignatureChecker =
  CheckSig :: "valtype \<Rightarrow> valtype \<Rightarrow> CScript \<Rightarrow> SigVersion \<Rightarrow> bool"
  CheckLockTime :: "CScriptNum \<Rightarrow> bool"
  CheckSequence :: "CScriptNum \<Rightarrow> bool"

text \<open>The local variables of \<open>EvalScript\<close>; the last condition pushed to \<open>vfExec\<close> comes first.\<close>

record eval_state =
  stack :: "valtype list"
  altstack :: "valtype list"
  vfExec :: "bool list"
  pbegincodehash :: bytes
  nOpCount :: int

definition ebind :: "'e + 'a \<Rightarrow> ('a \<Rightarrow> 'e + 'b) \<Rightarrow> 'e + 'b" where
  "ebind m f = (case m of Inl e \<Rightarrow> Inl e | Inr x \<Rightarrow> f x)"

definition err :: "ScriptError \<Rightarrow> script_fail + 'a" where
  "err e = Inl (Fails e)"

text \<open>An assertion, and a \<open>CScriptNum\<close> built from a stack element: its exception is caught.\<close>

definition asserted :: "'a option \<Rightarrow> script_fail + 'a" where
  "asserted x = (case x of None \<Rightarrow> Inl Aborts | Some y \<Rightarrow> Inr y)"

definition script_num :: "valtype \<Rightarrow> bool \<Rightarrow> nat \<Rightarrow> script_fail + CScriptNum" where
  "script_num vch fRequireMinimal nMaxNumSize =
    (case CScriptNum_of_vch vch fRequireMinimal nMaxNumSize of
       Inl _ \<Rightarrow> err SCRIPT_ERR_UNKNOWN_ERROR
     | Inr n \<Rightarrow> Inr n)"

section \<open>Encodings\<close>

fun CastToBool :: "valtype \<Rightarrow> bool" where
  "CastToBool [] = False"
| "CastToBool (b # vch) = (if b \<noteq> 0 then \<not> (vch = [] \<and> b = 0x80) else CastToBool vch)"

definition IsCompressedOrUncompressedPubKey :: "valtype \<Rightarrow> bool" where
  "IsCompressedOrUncompressedPubKey vchPubKey =
    (if length vchPubKey < 33 then False
     else if vchPubKey ! 0 = 0x04 then length vchPubKey = 65
     else if vchPubKey ! 0 = 0x02 \<or> vchPubKey ! 0 = 0x03 then length vchPubKey = 33
     else False)"

definition IsCompressedPubKey :: "valtype \<Rightarrow> bool" where
  "IsCompressedPubKey vchPubKey =
    (if length vchPubKey \<noteq> 33 then False
     else if vchPubKey ! 0 \<noteq> 0x02 \<and> vchPubKey ! 0 \<noteq> 0x03 then False
     else True)"

definition IsValidSignatureEncoding :: "bytes \<Rightarrow> bool" where
  "IsValidSignatureEncoding sig =
    (if length sig < 9 then False
     else if length sig > 73 then False
     else if sig ! 0 \<noteq> 0x30 then False
     else if unat (sig ! 1) \<noteq> length sig - 3 then False
     else let lenR = unat (sig ! 3)
     in if 5 + lenR \<ge> length sig then False
     else let lenS = unat (sig ! (5 + lenR))
     in if lenR + lenS + 7 \<noteq> length sig then False
     else if sig ! 2 \<noteq> 0x02 then False
     else if lenR = 0 then False
     else if sig ! 4 AND 0x80 \<noteq> 0 then False
     else if lenR > 1 \<and> sig ! 4 = 0x00 \<and> sig ! 5 AND 0x80 = 0 then False
     else if sig ! (lenR + 4) \<noteq> 0x02 then False
     else if lenS = 0 then False
     else if sig ! (lenR + 6) AND 0x80 \<noteq> 0 then False
     else if lenS > 1 \<and> sig ! (lenR + 6) = 0x00 \<and> sig ! (lenR + 7) AND 0x80 = 0 then False
     else True)"

definition IsLowDERSignature :: "script_env \<Rightarrow> valtype \<Rightarrow> script_fail + unit" where
  "IsLowDERSignature env vchSig =
    (if \<not> IsValidSignatureEncoding vchSig then err SCRIPT_ERR_SIG_DER
     else if \<not> CheckLowS env (take (length vchSig - 1) vchSig) then err SCRIPT_ERR_SIG_HIGH_S
     else Inr ())"

definition SIGHASH_ALL :: u8 where "SIGHASH_ALL = 1"
definition SIGHASH_NONE :: u8 where "SIGHASH_NONE = 2"
definition SIGHASH_SINGLE :: u8 where "SIGHASH_SINGLE = 3"
definition SIGHASH_ANYONECANPAY :: u8 where "SIGHASH_ANYONECANPAY = 0x80"

definition IsDefinedHashtypeSignature :: "valtype \<Rightarrow> bool" where
  "IsDefinedHashtypeSignature vchSig =
    (if length vchSig = 0 then False
     else let nHashType = vchSig ! (length vchSig - 1) AND NOT SIGHASH_ANYONECANPAY
          in \<not> (nHashType < SIGHASH_ALL \<or> nHashType > SIGHASH_SINGLE))"

definition CheckSignatureEncoding :: "script_env \<Rightarrow> valtype \<Rightarrow> u32 \<Rightarrow> script_fail + unit" where
  "CheckSignatureEncoding env vchSig flags =
    (if length vchSig = 0 then Inr ()
     else if flag flags (SCRIPT_VERIFY_DERSIG OR SCRIPT_VERIFY_LOW_S OR SCRIPT_VERIFY_STRICTENC) \<and> \<not> IsValidSignatureEncoding vchSig
     then err SCRIPT_ERR_SIG_DER
     else ebind (if flag flags SCRIPT_VERIFY_LOW_S then IsLowDERSignature env vchSig else Inr ())
       (\<lambda>_. if flag flags SCRIPT_VERIFY_STRICTENC \<and> \<not> IsDefinedHashtypeSignature vchSig
            then err SCRIPT_ERR_SIG_HASHTYPE else Inr ()))"

definition CheckPubKeyEncoding :: "valtype \<Rightarrow> u32 \<Rightarrow> SigVersion \<Rightarrow> script_fail + unit" where
  "CheckPubKeyEncoding vchPubKey flags sigversion =
    (if flag flags SCRIPT_VERIFY_STRICTENC \<and> \<not> IsCompressedOrUncompressedPubKey vchPubKey then err SCRIPT_ERR_PUBKEYTYPE
     else if flag flags SCRIPT_VERIFY_WITNESS_PUBKEYTYPE \<and> sigversion = SIGVERSION_WITNESS_V0 \<and> \<not> IsCompressedPubKey vchPubKey
     then err SCRIPT_ERR_WITNESS_PUBKEYTYPE
     else Inr ())"

definition CheckMinimalPush :: "valtype \<Rightarrow> opcodetype \<Rightarrow> bool" where
  "CheckMinimalPush data opcode =
    (if length data = 0 then opcode = OP_0
     else if length data = 1 \<and> data ! 0 \<ge> 1 \<and> data ! 0 \<le> 16 then opcode = OP_1 + (unat (data ! 0) - 1)
     else if length data = 1 \<and> data ! 0 = 0x81 then opcode = OP_1NEGATE
     else if length data \<le> 75 then opcode = length data
     else if length data \<le> 255 then opcode = OP_PUSHDATA1
     else if length data \<le> 65535 then opcode = OP_PUSHDATA2
     else True)"

section \<open>Instructions\<close>

text \<open>\<^verbatim>\<open>stacktop(-i)\<close> with its range check, and \<^verbatim>\<open>popstack\<close>: both throw.\<close>

definition stacktop :: "valtype list \<Rightarrow> nat \<Rightarrow> script_fail + valtype" where
  "stacktop s i = (if 1 \<le> i \<and> i \<le> length s then Inr (s ! (i - 1)) else err SCRIPT_ERR_UNKNOWN_ERROR)"

definition popstack :: "valtype list \<Rightarrow> script_fail + valtype list" where
  "popstack s = (if s = [] then err SCRIPT_ERR_UNKNOWN_ERROR else Inr (tl s))"

definition vchFalse :: valtype where "vchFalse = []"
definition vchTrue :: valtype where "vchTrue = [1]"

definition bool_vch :: "bool \<Rightarrow> valtype" where
  "bool_vch f = (if f then vchTrue else vchFalse)"

definition SEQUENCE_LOCKTIME_DISABLE_FLAG :: int where "SEQUENCE_LOCKTIME_DISABLE_FLAG = 2 ^ 31"

definition op_checklocktimeverify :: "BaseSignatureChecker \<Rightarrow> u32 \<Rightarrow> eval_state \<Rightarrow> script_fail + eval_state" where
  "op_checklocktimeverify checker flags st =
    (if \<not> flag flags SCRIPT_VERIFY_CHECKLOCKTIMEVERIFY
     then if flag flags SCRIPT_VERIFY_DISCOURAGE_UPGRADABLE_NOPS then err SCRIPT_ERR_DISCOURAGE_UPGRADABLE_NOPS else Inr st
     else case stack st of
            [] \<Rightarrow> err SCRIPT_ERR_INVALID_STACK_OPERATION
          | vch # s \<Rightarrow>
              ebind (script_num vch (flag flags SCRIPT_VERIFY_MINIMALDATA) 5)
                (\<lambda>nLockTime. if nLockTime < 0 then err SCRIPT_ERR_NEGATIVE_LOCKTIME
                             else if \<not> CheckLockTime checker nLockTime then err SCRIPT_ERR_UNSATISFIED_LOCKTIME
                             else Inr st))"

definition op_checksequenceverify :: "BaseSignatureChecker \<Rightarrow> u32 \<Rightarrow> eval_state \<Rightarrow> script_fail + eval_state" where
  "op_checksequenceverify checker flags st =
    (if \<not> flag flags SCRIPT_VERIFY_CHECKSEQUENCEVERIFY
     then if flag flags SCRIPT_VERIFY_DISCOURAGE_UPGRADABLE_NOPS then err SCRIPT_ERR_DISCOURAGE_UPGRADABLE_NOPS else Inr st
     else case stack st of
            [] \<Rightarrow> err SCRIPT_ERR_INVALID_STACK_OPERATION
          | vch # s \<Rightarrow>
              ebind (script_num vch (flag flags SCRIPT_VERIFY_MINIMALDATA) 5)
                (\<lambda>nSequence. if nSequence < 0 then err SCRIPT_ERR_NEGATIVE_LOCKTIME
                             else if nSequence AND SEQUENCE_LOCKTIME_DISABLE_FLAG \<noteq> 0 then Inr st
                             else if \<not> CheckSequence checker nSequence then err SCRIPT_ERR_UNSATISFIED_LOCKTIME
                             else Inr st))"

definition op_if :: "u32 \<Rightarrow> SigVersion \<Rightarrow> bool \<Rightarrow> opcodetype \<Rightarrow> eval_state \<Rightarrow> script_fail + eval_state" where
  "op_if flags sigversion fExec opcode st =
    (if fExec
     then case stack st of
            [] \<Rightarrow> err SCRIPT_ERR_UNBALANCED_CONDITIONAL
          | vch # s \<Rightarrow>
              if sigversion = SIGVERSION_WITNESS_V0 \<and> flag flags SCRIPT_VERIFY_MINIMALIF \<and>
                 (length vch > 1 \<or> (length vch = 1 \<and> vch ! 0 \<noteq> 1))
              then err SCRIPT_ERR_MINIMALIF
              else let fValue = CastToBool vch; fValue = (if opcode = OP_NOTIF then \<not> fValue else fValue)
                   in Inr (st\<lparr>stack := s, vfExec := fValue # vfExec st\<rparr>)
     else Inr (st\<lparr>vfExec := False # vfExec st\<rparr>))"

definition op_control :: "BaseSignatureChecker \<Rightarrow> u32 \<Rightarrow> SigVersion \<Rightarrow> bool \<Rightarrow> opcodetype \<Rightarrow> eval_state \<Rightarrow> script_fail + eval_state" where
  "op_control checker flags sigversion fExec opcode st =
    (if opcode = OP_NOP then Inr st
     else if opcode = OP_CHECKLOCKTIMEVERIFY then op_checklocktimeverify checker flags st
     else if opcode = OP_CHECKSEQUENCEVERIFY then op_checksequenceverify checker flags st
     else if opcode = OP_NOP1 \<or> (OP_NOP4 \<le> opcode \<and> opcode \<le> OP_NOP10)
     then if flag flags SCRIPT_VERIFY_DISCOURAGE_UPGRADABLE_NOPS then err SCRIPT_ERR_DISCOURAGE_UPGRADABLE_NOPS else Inr st
     else if opcode = OP_IF \<or> opcode = OP_NOTIF then op_if flags sigversion fExec opcode st
     else if opcode = OP_ELSE
     then case vfExec st of
            [] \<Rightarrow> err SCRIPT_ERR_UNBALANCED_CONDITIONAL
          | f # fs \<Rightarrow> Inr (st\<lparr>vfExec := (\<not> f) # fs\<rparr>)
     else if opcode = OP_ENDIF
     then case vfExec st of
            [] \<Rightarrow> err SCRIPT_ERR_UNBALANCED_CONDITIONAL
          | f # fs \<Rightarrow> Inr (st\<lparr>vfExec := fs\<rparr>)
     else if opcode = OP_VERIFY
     then case stack st of
            [] \<Rightarrow> err SCRIPT_ERR_INVALID_STACK_OPERATION
          | vch # s \<Rightarrow> if CastToBool vch then Inr (st\<lparr>stack := s\<rparr>) else err SCRIPT_ERR_VERIFY
     else if opcode = OP_RETURN then err SCRIPT_ERR_OP_RETURN
     else err SCRIPT_ERR_BAD_OPCODE)"

definition op_alt :: "opcodetype \<Rightarrow> eval_state \<Rightarrow> script_fail + eval_state" where
  "op_alt opcode st =
    (if opcode = OP_TOALTSTACK
     then case stack st of
            [] \<Rightarrow> err SCRIPT_ERR_INVALID_STACK_OPERATION
          | x # s \<Rightarrow> Inr (st\<lparr>altstack := x # altstack st, stack := s\<rparr>)
     else case altstack st of
            [] \<Rightarrow> err SCRIPT_ERR_INVALID_ALTSTACK_OPERATION
          | x # alt \<Rightarrow> Inr (st\<lparr>stack := x # stack st, altstack := alt\<rparr>))"

text \<open>The stack instructions as functions of the main stack; the pattern is the size check.\<close>

definition op_pick_roll :: "bool \<Rightarrow> opcodetype \<Rightarrow> valtype list \<Rightarrow> script_fail + valtype list" where
  "op_pick_roll fRequireMinimal opcode s =
    (case s of
       x # y # s \<Rightarrow>
         ebind (script_num x fRequireMinimal nDefaultMaxNumSize)
           (\<lambda>bn. let n = getint bn; s = y # s
                 in if n < 0 \<or> n \<ge> int (length s) then err SCRIPT_ERR_INVALID_STACK_OPERATION
                    else let vch = s ! nat n;
                             s = (if opcode = OP_ROLL then take (nat n) s @ drop (nat n + 1) s else s)
                         in Inr (vch # s))
     | _ \<Rightarrow> err SCRIPT_ERR_INVALID_STACK_OPERATION)"

definition op_stack :: "bool \<Rightarrow> opcodetype \<Rightarrow> valtype list \<Rightarrow> script_fail + valtype list" where
  "op_stack fRequireMinimal opcode s =
    (if opcode = OP_2DROP then (case s of x2 # x1 # s \<Rightarrow> Inr s | _ \<Rightarrow> err SCRIPT_ERR_INVALID_STACK_OPERATION)
     else if opcode = OP_2DUP
     then (case s of x2 # x1 # s \<Rightarrow> Inr (x2 # x1 # x2 # x1 # s) | _ \<Rightarrow> err SCRIPT_ERR_INVALID_STACK_OPERATION)
     else if opcode = OP_3DUP
     then (case s of x3 # x2 # x1 # s \<Rightarrow> Inr (x3 # x2 # x1 # x3 # x2 # x1 # s) | _ \<Rightarrow> err SCRIPT_ERR_INVALID_STACK_OPERATION)
     else if opcode = OP_2OVER
     then (case s of x4 # x3 # x2 # x1 # s \<Rightarrow> Inr (x2 # x1 # x4 # x3 # x2 # x1 # s) | _ \<Rightarrow> err SCRIPT_ERR_INVALID_STACK_OPERATION)
     else if opcode = OP_2ROT
     then (case s of x6 # x5 # x4 # x3 # x2 # x1 # s \<Rightarrow> Inr (x2 # x1 # x6 # x5 # x4 # x3 # s) | _ \<Rightarrow> err SCRIPT_ERR_INVALID_STACK_OPERATION)
     else if opcode = OP_2SWAP
     then (case s of x4 # x3 # x2 # x1 # s \<Rightarrow> Inr (x2 # x1 # x4 # x3 # s) | _ \<Rightarrow> err SCRIPT_ERR_INVALID_STACK_OPERATION)
     else if opcode = OP_IFDUP
     then (case s of x # s \<Rightarrow> Inr (if CastToBool x then x # x # s else x # s) | _ \<Rightarrow> err SCRIPT_ERR_INVALID_STACK_OPERATION)
     else if opcode = OP_DEPTH then Inr (CScriptNum_serialize (int (length s)) # s)
     else if opcode = OP_DROP then (case s of x # s \<Rightarrow> Inr s | _ \<Rightarrow> err SCRIPT_ERR_INVALID_STACK_OPERATION)
     else if opcode = OP_DUP then (case s of x # s \<Rightarrow> Inr (x # x # s) | _ \<Rightarrow> err SCRIPT_ERR_INVALID_STACK_OPERATION)
     else if opcode = OP_NIP then (case s of x2 # x1 # s \<Rightarrow> Inr (x2 # s) | _ \<Rightarrow> err SCRIPT_ERR_INVALID_STACK_OPERATION)
     else if opcode = OP_OVER
     then (case s of x2 # x1 # s \<Rightarrow> Inr (x1 # x2 # x1 # s) | _ \<Rightarrow> err SCRIPT_ERR_INVALID_STACK_OPERATION)
     else if opcode = OP_PICK \<or> opcode = OP_ROLL
     then op_pick_roll fRequireMinimal opcode s
     else if opcode = OP_ROT
     then (case s of x3 # x2 # x1 # s \<Rightarrow> Inr (x1 # x3 # x2 # s) | _ \<Rightarrow> err SCRIPT_ERR_INVALID_STACK_OPERATION)
     else if opcode = OP_SWAP then (case s of x2 # x1 # s \<Rightarrow> Inr (x1 # x2 # s) | _ \<Rightarrow> err SCRIPT_ERR_INVALID_STACK_OPERATION)
     else if opcode = OP_TUCK
     then (case s of x2 # x1 # s \<Rightarrow> Inr (x2 # x1 # x2 # s) | _ \<Rightarrow> err SCRIPT_ERR_INVALID_STACK_OPERATION)
     else if opcode = OP_SIZE
     then (case s of x # s \<Rightarrow> Inr (CScriptNum_serialize (int (length x)) # x # s) | _ \<Rightarrow> err SCRIPT_ERR_INVALID_STACK_OPERATION)
     else err SCRIPT_ERR_BAD_OPCODE)"

definition op_equal :: "opcodetype \<Rightarrow> valtype list \<Rightarrow> script_fail + valtype list" where
  "op_equal opcode s =
    (case s of
       vch2 # vch1 # s \<Rightarrow>
         let fEqual = (vch1 = vch2)
         in if opcode = OP_EQUALVERIFY
            then if fEqual then Inr s else err SCRIPT_ERR_EQUALVERIFY
            else Inr (bool_vch fEqual # s)
     | _ \<Rightarrow> err SCRIPT_ERR_INVALID_STACK_OPERATION)"

text \<open>A comparison assigned to a \<open>CScriptNum\<close> is 0 or 1.\<close>

definition num_of_bool :: "bool \<Rightarrow> CScriptNum" where
  "num_of_bool f = (if f then 1 else 0)"

definition numeric1 :: "opcodetype \<Rightarrow> CScriptNum \<Rightarrow> CScriptNum option" where
  "numeric1 opcode bn =
    (if opcode = OP_1ADD then num_add_assign bn 1
     else if opcode = OP_1SUB then num_sub_assign bn 1
     else if opcode = OP_NEGATE then num_uminus bn
     else if opcode = OP_ABS then if bn < 0 then num_uminus bn else Some bn
     else if opcode = OP_NOT then Some (num_of_bool (bn = 0))
     else if opcode = OP_0NOTEQUAL then Some (num_of_bool (bn \<noteq> 0))
     else None)"

definition op_numeric1 :: "bool \<Rightarrow> opcodetype \<Rightarrow> valtype list \<Rightarrow> script_fail + valtype list" where
  "op_numeric1 fRequireMinimal opcode s =
    (case s of
       x # s \<Rightarrow>
         ebind (script_num x fRequireMinimal nDefaultMaxNumSize)
           (\<lambda>bn. ebind (asserted (numeric1 opcode bn)) (\<lambda>bn. Inr (CScriptNum_serialize bn # s)))
     | _ \<Rightarrow> err SCRIPT_ERR_INVALID_STACK_OPERATION)"

definition numeric2 :: "opcodetype \<Rightarrow> CScriptNum \<Rightarrow> CScriptNum \<Rightarrow> CScriptNum option" where
  "numeric2 opcode bn1 bn2 =
    (if opcode = OP_ADD then Some (bn1 + bn2)
     else if opcode = OP_SUB then Some (bn1 - bn2)
     else if opcode = OP_BOOLAND then Some (num_of_bool (bn1 \<noteq> 0 \<and> bn2 \<noteq> 0))
     else if opcode = OP_BOOLOR then Some (num_of_bool (bn1 \<noteq> 0 \<or> bn2 \<noteq> 0))
     else if opcode = OP_NUMEQUAL \<or> opcode = OP_NUMEQUALVERIFY then Some (num_of_bool (bn1 = bn2))
     else if opcode = OP_NUMNOTEQUAL then Some (num_of_bool (bn1 \<noteq> bn2))
     else if opcode = OP_LESSTHAN then Some (num_of_bool (bn1 < bn2))
     else if opcode = OP_GREATERTHAN then Some (num_of_bool (bn1 > bn2))
     else if opcode = OP_LESSTHANOREQUAL then Some (num_of_bool (bn1 \<le> bn2))
     else if opcode = OP_GREATERTHANOREQUAL then Some (num_of_bool (bn1 \<ge> bn2))
     else if opcode = OP_MIN then Some (if bn1 < bn2 then bn1 else bn2)
     else if opcode = OP_MAX then Some (if bn1 > bn2 then bn1 else bn2)
     else None)"

definition op_numeric2 :: "bool \<Rightarrow> opcodetype \<Rightarrow> valtype list \<Rightarrow> script_fail + valtype list" where
  "op_numeric2 fRequireMinimal opcode s =
    (case s of
       x2 # x1 # s \<Rightarrow>
         ebind (script_num x1 fRequireMinimal nDefaultMaxNumSize)
           (\<lambda>bn1. ebind (script_num x2 fRequireMinimal nDefaultMaxNumSize)
             (\<lambda>bn2. ebind (asserted (numeric2 opcode bn1 bn2))
               (\<lambda>bn. let vch = CScriptNum_serialize bn
                     in if opcode = OP_NUMEQUALVERIFY
                        then if CastToBool vch then Inr s else err SCRIPT_ERR_NUMEQUALVERIFY
                        else Inr (vch # s))))
     | _ \<Rightarrow> err SCRIPT_ERR_INVALID_STACK_OPERATION)"

definition op_within :: "bool \<Rightarrow> valtype list \<Rightarrow> script_fail + valtype list" where
  "op_within fRequireMinimal s =
    (case s of
       x3 # x2 # x1 # s \<Rightarrow>
         ebind (script_num x1 fRequireMinimal nDefaultMaxNumSize)
           (\<lambda>bn1. ebind (script_num x2 fRequireMinimal nDefaultMaxNumSize)
             (\<lambda>bn2. ebind (script_num x3 fRequireMinimal nDefaultMaxNumSize)
               (\<lambda>bn3. Inr (bool_vch (bn2 \<le> bn1 \<and> bn1 < bn3) # s))))
     | _ \<Rightarrow> err SCRIPT_ERR_INVALID_STACK_OPERATION)"

text \<open>The hashers of \<^verbatim>\<open>hash.h\<close>.\<close>

definition CHash160 :: "script_env \<Rightarrow> bytes \<Rightarrow> bytes" where
  "CHash160 env b = ripemd160 env (sha256 env b)"

definition CHash256 :: "script_env \<Rightarrow> bytes \<Rightarrow> bytes" where
  "CHash256 env b = sha256 env (sha256 env b)"

definition op_hash :: "script_env \<Rightarrow> opcodetype \<Rightarrow> valtype list \<Rightarrow> script_fail + valtype list" where
  "op_hash env opcode s =
    (case s of
       vch # s \<Rightarrow>
         Inr ((if opcode = OP_RIPEMD160 then ripemd160 env vch
               else if opcode = OP_SHA1 then sha1 env vch
               else if opcode = OP_SHA256 then sha256 env vch
               else if opcode = OP_HASH160 then CHash160 env vch
               else CHash256 env vch) # s)
     | _ \<Rightarrow> err SCRIPT_ERR_INVALID_STACK_OPERATION)"

definition op_checksig :: "script_env \<Rightarrow> BaseSignatureChecker \<Rightarrow> u32 \<Rightarrow> SigVersion \<Rightarrow> CScript \<Rightarrow> opcodetype \<Rightarrow> valtype list
    \<Rightarrow> script_fail + valtype list" where
  "op_checksig env checker flags sigversion scriptCode opcode s =
    (case s of
       vchPubKey # vchSig # s \<Rightarrow>
         let scriptCode = (if sigversion = SIGVERSION_BASE then fst (FindAndDelete scriptCode (push_data [] vchSig)) else scriptCode)
         in ebind (CheckSignatureEncoding env vchSig flags)
              (\<lambda>_. ebind (CheckPubKeyEncoding vchPubKey flags sigversion)
                (\<lambda>_. let fSuccess = CheckSig checker vchSig vchPubKey scriptCode sigversion
                     in if \<not> fSuccess \<and> flag flags SCRIPT_VERIFY_NULLFAIL \<and> length vchSig \<noteq> 0 then err SCRIPT_ERR_SIG_NULLFAIL
                        else if opcode = OP_CHECKSIGVERIFY
                        then if fSuccess then Inr s else err SCRIPT_ERR_CHECKSIGVERIFY
                        else Inr (bool_vch fSuccess # s)))
     | _ \<Rightarrow> err SCRIPT_ERR_INVALID_STACK_OPERATION)"

section \<open>Multiple signatures\<close>

text \<open>Dropping the signatures \<^verbatim>\<open>stacktop(-isig-k)\<close>, \<open>k < n\<close>, from the script code.\<close>

primrec drop_signatures :: "SigVersion \<Rightarrow> valtype list \<Rightarrow> nat \<Rightarrow> nat \<Rightarrow> CScript \<Rightarrow> script_fail + CScript" where
  "drop_signatures sigversion s 0 i scriptCode = Inr scriptCode"
| "drop_signatures sigversion s (Suc n) i scriptCode =
    ebind (stacktop s i)
      (\<lambda>vchSig. drop_signatures sigversion s n (i + 1)
        (if sigversion = SIGVERSION_BASE then fst (FindAndDelete scriptCode (push_data [] vchSig)) else scriptCode))"

text \<open>
  The loop \<^verbatim>\<open>while (fSuccess && nSigsCount > 0)\<close>; \<^verbatim>\<open>nSigsCount > nKeysCount\<close> after the decrement of the
  keys is \<open>nSigs + 1 > nKeys\<close> before it.
\<close>

function multisig_loop :: "script_env \<Rightarrow> BaseSignatureChecker \<Rightarrow> u32 \<Rightarrow> SigVersion \<Rightarrow> CScript \<Rightarrow> valtype list
    \<Rightarrow> nat \<Rightarrow> nat \<Rightarrow> nat \<Rightarrow> nat \<Rightarrow> script_fail + bool" where
  "multisig_loop env checker flags sigversion scriptCode s isig ikey nSigs nKeys =
    (if nSigs = 0 then Inr True
     else case stacktop s isig of Inl e \<Rightarrow> Inl e | Inr vchSig \<Rightarrow>
          case stacktop s ikey of Inl e \<Rightarrow> Inl e | Inr vchPubKey \<Rightarrow>
          case CheckSignatureEncoding env vchSig flags of Inl e \<Rightarrow> Inl e | Inr _ \<Rightarrow>
          case CheckPubKeyEncoding vchPubKey flags sigversion of Inl e \<Rightarrow> Inl e | Inr _ \<Rightarrow>
            let fOk = CheckSig checker vchSig vchPubKey scriptCode sigversion;
                isig = (if fOk then isig + 1 else isig);
                nSigs = (if fOk then nSigs - 1 else nSigs)
            in if nSigs + 1 > nKeys then Inr False
               else multisig_loop env checker flags sigversion scriptCode s isig (ikey + 1) nSigs (nKeys - 1))"
  by pat_completeness auto
termination
  by (relation "measure (\<lambda>(env, checker, flags, sv, sc, s, isig, ikey, nSigs, nKeys). nKeys)") auto

declare multisig_loop.simps [simp del]

text \<open>\<^verbatim>\<open>while (i-- > 1)\<close>: removing the arguments, with the check that failed signatures are empty.\<close>

primrec multisig_cleanup :: "u32 \<Rightarrow> bool \<Rightarrow> nat \<Rightarrow> nat \<Rightarrow> valtype list \<Rightarrow> script_fail + valtype list" where
  "multisig_cleanup flags fSuccess 0 ikey2 s = Inr s"
| "multisig_cleanup flags fSuccess (Suc n) ikey2 s =
    (if \<not> fSuccess \<and> flag flags SCRIPT_VERIFY_NULLFAIL \<and> ikey2 = 0
     then ebind (stacktop s 1)
            (\<lambda>x. if length x \<noteq> 0 then err SCRIPT_ERR_SIG_NULLFAIL
                 else ebind (popstack s) (multisig_cleanup flags fSuccess n ikey2))
     else ebind (popstack s) (multisig_cleanup flags fSuccess n (if ikey2 > 0 then ikey2 - 1 else ikey2)))"

text \<open>The extra argument and the result.\<close>

definition multisig_finish :: "u32 \<Rightarrow> opcodetype \<Rightarrow> bool \<Rightarrow> valtype list \<Rightarrow> script_fail + valtype list" where
  "multisig_finish flags opcode fSuccess s =
    (case s of
       [] \<Rightarrow> err SCRIPT_ERR_INVALID_STACK_OPERATION
     | dummy # s \<Rightarrow>
         if flag flags SCRIPT_VERIFY_NULLDUMMY \<and> length dummy \<noteq> 0 then err SCRIPT_ERR_SIG_NULLDUMMY
         else if opcode = OP_CHECKMULTISIGVERIFY
         then if fSuccess then Inr s else err SCRIPT_ERR_CHECKMULTISIGVERIFY
         else Inr (bool_vch fSuccess # s))"

text \<open>What follows the reading of the two counts; \<open>isig = nKeys + 3\<close> and \<open>i = isig + nSigs\<close> there.\<close>

definition multisig_check :: "script_env \<Rightarrow> BaseSignatureChecker \<Rightarrow> u32 \<Rightarrow> SigVersion \<Rightarrow> opcodetype \<Rightarrow> CScript \<Rightarrow> nat \<Rightarrow> nat \<Rightarrow> valtype list
    \<Rightarrow> script_fail + valtype list" where
  "multisig_check env checker flags sigversion opcode scriptCode nKeys nSigs s =
    ebind (drop_signatures sigversion s nSigs (nKeys + 3) scriptCode) (\<lambda>scriptCode.
      ebind (multisig_loop env checker flags sigversion scriptCode s (nKeys + 3) 2 nSigs nKeys) (\<lambda>fSuccess.
        ebind (multisig_cleanup flags fSuccess (nKeys + nSigs + 2) (nKeys + 2) s) (multisig_finish flags opcode fSuccess)))"

definition op_checkmultisig :: "script_env \<Rightarrow> BaseSignatureChecker \<Rightarrow> u32 \<Rightarrow> SigVersion \<Rightarrow> opcodetype \<Rightarrow> eval_state
    \<Rightarrow> script_fail + eval_state" where
  "op_checkmultisig env checker flags sigversion opcode st =
    (let s = stack st; fRequireMinimal = flag flags SCRIPT_VERIFY_MINIMALDATA
     in if length s < 1 then err SCRIPT_ERR_INVALID_STACK_OPERATION
        else ebind (stacktop s 1) (\<lambda>x. ebind (script_num x fRequireMinimal nDefaultMaxNumSize) (\<lambda>bn.
          let nKeysCount = getint bn
          in if nKeysCount < 0 \<or> nKeysCount > MAX_PUBKEYS_PER_MULTISIG then err SCRIPT_ERR_PUBKEY_COUNT
             else let ops = nOpCount st + nKeysCount; nKeys = nat nKeysCount
             in if ops > MAX_OPS_PER_SCRIPT then err SCRIPT_ERR_OP_COUNT
             else if length s < nKeys + 2 then err SCRIPT_ERR_INVALID_STACK_OPERATION
             else ebind (stacktop s (nKeys + 2)) (\<lambda>x. ebind (script_num x fRequireMinimal nDefaultMaxNumSize) (\<lambda>bn.
               let nSigsCount = getint bn
               in if nSigsCount < 0 \<or> nSigsCount > nKeysCount then err SCRIPT_ERR_SIG_COUNT
                  else let nSigs = nat nSigsCount
                  in if length s < nKeys + 3 + nSigs then err SCRIPT_ERR_INVALID_STACK_OPERATION
                  else ebind (multisig_check env checker flags sigversion opcode (pbegincodehash st) nKeys nSigs s)
                         (\<lambda>s. Inr (st\<lparr>stack := s, nOpCount := ops\<rparr>)))))))"

section \<open>The interpreter loop\<close>

definition on_stack :: "(valtype list \<Rightarrow> script_fail + valtype list) \<Rightarrow> eval_state \<Rightarrow> script_fail + eval_state" where
  "on_stack f st = ebind (f (stack st)) (\<lambda>s. Inr (st\<lparr>stack := s\<rparr>))"

text \<open>The \<^verbatim>\<open>switch (opcode)\<close>: the groups of case labels, and what they do; \<open>pc\<close> is the iterator after the instruction.\<close>

datatype op_group =
    PushNumber | Control | AltStack | StackOp | EqualOp | Numeric1 | Numeric2 | Within | HashOp | CodeSeparator
  | CheckSigOp | CheckMultiSigOp | BadOpcode

definition opcode_group :: "opcodetype \<Rightarrow> op_group" where
  "opcode_group opcode =
    (if opcode = OP_1NEGATE \<or> (OP_1 \<le> opcode \<and> opcode \<le> OP_16) then PushNumber
     else if (OP_NOP \<le> opcode \<and> opcode \<le> OP_RETURN) \<or> (OP_NOP1 \<le> opcode \<and> opcode \<le> OP_NOP10) then Control
     else if opcode = OP_TOALTSTACK \<or> opcode = OP_FROMALTSTACK then AltStack
     else if (OP_2DROP \<le> opcode \<and> opcode \<le> OP_TUCK) \<or> opcode = OP_SIZE then StackOp
     else if opcode = OP_EQUAL \<or> opcode = OP_EQUALVERIFY then EqualOp
     else if opcode = OP_1ADD \<or> opcode = OP_1SUB \<or> (OP_NEGATE \<le> opcode \<and> opcode \<le> OP_0NOTEQUAL) then Numeric1
     else if opcode = OP_ADD \<or> opcode = OP_SUB \<or> (OP_BOOLAND \<le> opcode \<and> opcode \<le> OP_MAX) then Numeric2
     else if opcode = OP_WITHIN then Within
     else if OP_RIPEMD160 \<le> opcode \<and> opcode \<le> OP_HASH256 then HashOp
     else if opcode = OP_CODESEPARATOR then CodeSeparator
     else if opcode = OP_CHECKSIG \<or> opcode = OP_CHECKSIGVERIFY then CheckSigOp
     else if opcode = OP_CHECKMULTISIG \<or> opcode = OP_CHECKMULTISIGVERIFY then CheckMultiSigOp
     else BadOpcode)"

definition exec_op :: "script_env \<Rightarrow> BaseSignatureChecker \<Rightarrow> u32 \<Rightarrow> SigVersion \<Rightarrow> bool \<Rightarrow> bytes \<Rightarrow> opcodetype \<Rightarrow> eval_state
    \<Rightarrow> script_fail + eval_state" where
  "exec_op env checker flags sigversion fExec pc opcode st =
    (let fRequireMinimal = flag flags SCRIPT_VERIFY_MINIMALDATA
     in case opcode_group opcode of
          PushNumber \<Rightarrow> Inr (st\<lparr>stack := CScriptNum_serialize (int opcode - (int OP_1 - 1)) # stack st\<rparr>)
        | Control \<Rightarrow> op_control checker flags sigversion fExec opcode st
        | AltStack \<Rightarrow> op_alt opcode st
        | StackOp \<Rightarrow> on_stack (op_stack fRequireMinimal opcode) st
        | EqualOp \<Rightarrow> on_stack (op_equal opcode) st
        | Numeric1 \<Rightarrow> on_stack (op_numeric1 fRequireMinimal opcode) st
        | Numeric2 \<Rightarrow> on_stack (op_numeric2 fRequireMinimal opcode) st
        | Within \<Rightarrow> on_stack (op_within fRequireMinimal) st
        | HashOp \<Rightarrow> on_stack (op_hash env opcode) st
        | CodeSeparator \<Rightarrow> Inr (st\<lparr>pbegincodehash := pc\<rparr>)
        | CheckSigOp \<Rightarrow> on_stack (op_checksig env checker flags sigversion (pbegincodehash st) opcode) st
        | CheckMultiSigOp \<Rightarrow> op_checkmultisig env checker flags sigversion opcode st
        | BadOpcode \<Rightarrow> err SCRIPT_ERR_BAD_OPCODE)"

definition disabled_opcode :: "opcodetype \<Rightarrow> bool" where
  "disabled_opcode opcode \<longleftrightarrow>
    opcode = OP_CAT \<or> opcode = OP_SUBSTR \<or> opcode = OP_LEFT \<or> opcode = OP_RIGHT \<or> opcode = OP_INVERT \<or>
    opcode = OP_AND \<or> opcode = OP_OR \<or> opcode = OP_XOR \<or> opcode = OP_2MUL \<or> opcode = OP_2DIV \<or>
    opcode = OP_MUL \<or> opcode = OP_DIV \<or> opcode = OP_MOD \<or> opcode = OP_LSHIFT \<or> opcode = OP_RSHIFT"

text \<open>One round of \<^verbatim>\<open>while (pc < pend)\<close>.\<close>

definition eval_step :: "script_env \<Rightarrow> BaseSignatureChecker \<Rightarrow> u32 \<Rightarrow> SigVersion \<Rightarrow> bytes \<Rightarrow> eval_state
    \<Rightarrow> script_fail + bytes \<times> eval_state" where
  "eval_step env checker flags sigversion pc st =
    (let fExec = (False \<notin> set (vfExec st))
     in case GetOp pc of
          None \<Rightarrow> err SCRIPT_ERR_BAD_OPCODE
        | Some (opcode, vchPushValue, pc) \<Rightarrow>
            if length vchPushValue > MAX_SCRIPT_ELEMENT_SIZE then err SCRIPT_ERR_PUSH_SIZE
            else let st = (if opcode > OP_16 then st\<lparr>nOpCount := nOpCount st + 1\<rparr> else st)
            in if opcode > OP_16 \<and> nOpCount st > MAX_OPS_PER_SCRIPT then err SCRIPT_ERR_OP_COUNT
            else if disabled_opcode opcode then err SCRIPT_ERR_DISABLED_OPCODE
            else ebind
              (if fExec \<and> opcode \<le> OP_PUSHDATA4
               then if flag flags SCRIPT_VERIFY_MINIMALDATA \<and> \<not> CheckMinimalPush vchPushValue opcode then err SCRIPT_ERR_MINIMALDATA
                    else Inr (st\<lparr>stack := vchPushValue # stack st\<rparr>)
               else if fExec \<or> (OP_IF \<le> opcode \<and> opcode \<le> OP_ENDIF)
               then exec_op env checker flags sigversion fExec pc opcode st
               else Inr st)
              (\<lambda>st. if length (stack st) + length (altstack st) > 1000 then err SCRIPT_ERR_STACK_SIZE else Inr (pc, st)))"

function eval_loop :: "script_env \<Rightarrow> BaseSignatureChecker \<Rightarrow> u32 \<Rightarrow> SigVersion \<Rightarrow> bytes \<Rightarrow> eval_state
    \<Rightarrow> script_fail + eval_state" where
  "eval_loop env checker flags sigversion pc st =
    (if pc = [] then Inr st
     else case eval_step env checker flags sigversion pc st of
            Inl e \<Rightarrow> Inl e
          | Inr (pc', st') \<Rightarrow> eval_loop env checker flags sigversion pc' st')"
  by pat_completeness auto
termination
proof -
  have bind: "ebind m f = Inr y \<Longrightarrow> \<exists>x. m = Inr x \<and> f x = Inr y" for m :: "script_fail + eval_state" and f y
    by (auto simp: ebind_def split: sum.splits)
  have "eval_step env checker flags sigversion pc st = Inr (pc', st') \<Longrightarrow> length pc' < length pc" for env checker flags sigversion pc st pc' st'
    by (auto simp: eval_step_def Let_def err_def split: option.splits prod.splits if_splits dest!: bind dest: GetOp_length)
  then show ?thesis
    by (relation "measure (\<lambda>(env, checker, flags, sv, pc, st). length pc)") auto
qed

declare eval_loop.simps [simp del]

definition init_state :: "CScript \<Rightarrow> valtype list \<Rightarrow> eval_state" where
  "init_state script s = \<lparr>stack = s, altstack = [], vfExec = [], pbegincodehash = script, nOpCount = 0\<rparr>"

definition EvalScript :: "script_env \<Rightarrow> BaseSignatureChecker \<Rightarrow> u32 \<Rightarrow> SigVersion \<Rightarrow> CScript \<Rightarrow> valtype list
    \<Rightarrow> script_fail + valtype list" where
  "EvalScript env checker flags sigversion script s =
    (if length script > MAX_SCRIPT_SIZE then err SCRIPT_ERR_SCRIPT_SIZE
     else ebind (eval_loop env checker flags sigversion script (init_state script s))
            (\<lambda>st. if vfExec st \<noteq> [] then err SCRIPT_ERR_UNBALANCED_CONDITIONAL else Inr (stack st)))"

section \<open>Verification\<close>

text \<open>A witness is the vector of its elements, the last one first to be read.\<close>

type_synonym CScriptWitness = "valtype list"

definition VerifyWitnessProgram :: "script_env \<Rightarrow> BaseSignatureChecker \<Rightarrow> u32 \<Rightarrow> CScriptWitness \<Rightarrow> int \<Rightarrow> bytes
    \<Rightarrow> script_fail + unit" where
  "VerifyWitnessProgram env checker flags witness witversion program =
    (let run = (\<lambda>s scriptPubKey.
           if \<exists>x\<in>set s. length x > MAX_SCRIPT_ELEMENT_SIZE then err SCRIPT_ERR_PUSH_SIZE
           else ebind (EvalScript env checker flags SIGVERSION_WITNESS_V0 scriptPubKey s)
                  (\<lambda>s. if length s \<noteq> 1 then err SCRIPT_ERR_EVAL_FALSE
                       else if \<not> CastToBool (hd s) then err SCRIPT_ERR_EVAL_FALSE
                       else Inr ()))
     in if witversion = 0
        then if length program = 32
             then if length witness = 0 then err SCRIPT_ERR_WITNESS_PROGRAM_WITNESS_EMPTY
                  else let scriptPubKey = last witness
                       in if sha256 env scriptPubKey \<noteq> program then err SCRIPT_ERR_WITNESS_PROGRAM_MISMATCH
                          else run (rev (butlast witness)) scriptPubKey
             else if length program = 20
             then if length witness \<noteq> 2 then err SCRIPT_ERR_WITNESS_PROGRAM_MISMATCH
                  else run (rev witness)
                    (push_opcode (push_opcode (push_data (push_opcode (push_opcode [] OP_DUP) OP_HASH160) program) OP_EQUALVERIFY) OP_CHECKSIG)
             else err SCRIPT_ERR_WITNESS_PROGRAM_WRONG_LENGTH
        else if flag flags SCRIPT_VERIFY_DISCOURAGE_UPGRADABLE_WITNESS_PROGRAM
        then err SCRIPT_ERR_DISCOURAGE_UPGRADABLE_WITNESS_PROGRAM
        else Inr ())"

text \<open>\<^verbatim>\<open>stack.resize(1)\<close> keeps the bottom element.\<close>

definition resize1 :: "valtype list \<Rightarrow> valtype list" where
  "resize1 s = (if s = [] then [[]] else [last s])"

text \<open>An evaluation that must leave a true element on top.\<close>

definition eval_true :: "script_env \<Rightarrow> BaseSignatureChecker \<Rightarrow> u32 \<Rightarrow> CScript \<Rightarrow> valtype list \<Rightarrow> script_fail + valtype list" where
  "eval_true env checker flags script s =
    ebind (EvalScript env checker flags SIGVERSION_BASE script s)
      (\<lambda>s. if s = [] then err SCRIPT_ERR_EVAL_FALSE
           else if \<not> CastToBool (hd s) then err SCRIPT_ERR_EVAL_FALSE
           else Inr s)"

text \<open>The bare witness program: the new stack and whether there was one.\<close>

definition verify_bare_witness :: "script_env \<Rightarrow> BaseSignatureChecker \<Rightarrow> u32 \<Rightarrow> CScriptWitness \<Rightarrow> CScript \<Rightarrow> CScript \<Rightarrow> valtype list
    \<Rightarrow> script_fail + bool \<times> valtype list" where
  "verify_bare_witness env checker flags witness scriptSig scriptPubKey s =
    (case if flag flags SCRIPT_VERIFY_WITNESS then IsWitnessProgram scriptPubKey else None of
       None \<Rightarrow> Inr (False, s)
     | Some (version, program) \<Rightarrow>
         if length scriptSig \<noteq> 0 then err SCRIPT_ERR_WITNESS_MALLEATED
         else ebind (VerifyWitnessProgram env checker flags witness version program) (\<lambda>_. Inr (True, resize1 s)))"

text \<open>Pay to script hash: \<open>stackCopy\<close> is the stack the input script left.\<close>

definition verify_p2sh :: "script_env \<Rightarrow> BaseSignatureChecker \<Rightarrow> u32 \<Rightarrow> CScriptWitness \<Rightarrow> CScript \<Rightarrow> valtype list \<Rightarrow> bool
    \<Rightarrow> script_fail + bool \<times> valtype list" where
  "verify_p2sh env checker flags witness scriptSig stackCopy hadWitness =
    (if \<not> IsPushOnly scriptSig then err SCRIPT_ERR_SIG_PUSHONLY
     else case stackCopy of
            [] \<Rightarrow> Inl Aborts
          | pubKey2 # s \<Rightarrow>
              ebind (eval_true env checker flags pubKey2 s)
                (\<lambda>s. case if flag flags SCRIPT_VERIFY_WITNESS then IsWitnessProgram pubKey2 else None of
                       None \<Rightarrow> Inr (hadWitness, s)
                     | Some (version, program) \<Rightarrow>
                         if scriptSig \<noteq> push_data [] pubKey2 then err SCRIPT_ERR_WITNESS_MALLEATED_P2SH
                         else ebind (VerifyWitnessProgram env checker flags witness version program) (\<lambda>_. Inr (True, resize1 s))))"

definition VerifyScript :: "script_env \<Rightarrow> BaseSignatureChecker \<Rightarrow> u32 \<Rightarrow> CScript \<Rightarrow> CScript \<Rightarrow> CScriptWitness option
    \<Rightarrow> script_fail + unit" where
  "VerifyScript env checker flags scriptSig scriptPubKey witnessPtr =
    (let witness = (case witnessPtr of None \<Rightarrow> [] | Some w \<Rightarrow> w)
     in if flag flags SCRIPT_VERIFY_SIGPUSHONLY \<and> \<not> IsPushOnly scriptSig then err SCRIPT_ERR_SIG_PUSHONLY
        else ebind (EvalScript env checker flags SIGVERSION_BASE scriptSig []) (\<lambda>stackCopy.
          ebind (eval_true env checker flags scriptPubKey stackCopy) (\<lambda>s.
            ebind (verify_bare_witness env checker flags witness scriptSig scriptPubKey s) (\<lambda>(hadWitness, s).
              ebind (if flag flags SCRIPT_VERIFY_P2SH \<and> IsPayToScriptHash scriptPubKey
                     then verify_p2sh env checker flags witness scriptSig stackCopy hadWitness
                     else Inr (hadWitness, s)) (\<lambda>(hadWitness, s).
                if flag flags SCRIPT_VERIFY_CLEANSTACK \<and> (\<not> flag flags SCRIPT_VERIFY_P2SH \<or> \<not> flag flags SCRIPT_VERIFY_WITNESS)
                then Inl Aborts
                else if flag flags SCRIPT_VERIFY_CLEANSTACK \<and> length s \<noteq> 1 then err SCRIPT_ERR_CLEANSTACK
                else if flag flags SCRIPT_VERIFY_WITNESS \<and> \<not> flag flags SCRIPT_VERIFY_P2SH then Inl Aborts
                else if flag flags SCRIPT_VERIFY_WITNESS \<and> \<not> hadWitness \<and> witness \<noteq> [] then err SCRIPT_ERR_WITNESS_UNEXPECTED
                else Inr ())))))"

section \<open>Counting signature operations of witnesses\<close>

definition WitnessSigOps :: "int \<Rightarrow> bytes \<Rightarrow> CScriptWitness \<Rightarrow> int option" where
  "WitnessSigOps witversion witprogram witness =
    (if witversion = 0 \<and> length witprogram = 20 then Some 1
     else if witversion = 0 \<and> length witprogram = 32 \<and> length witness > 0 then GetSigOpCount (last witness) True
     else Some 0)"

definition CountWitnessSigOps :: "CScript \<Rightarrow> CScript \<Rightarrow> CScriptWitness option \<Rightarrow> u32 \<Rightarrow> int option" where
  "CountWitnessSigOps scriptSig scriptPubKey witnessPtr flags =
    (let witness = (case witnessPtr of None \<Rightarrow> [] | Some w \<Rightarrow> w)
     in if \<not> flag flags SCRIPT_VERIFY_WITNESS then Some 0
        else if \<not> flag flags SCRIPT_VERIFY_P2SH then None
        else case IsWitnessProgram scriptPubKey of
               Some (version, program) \<Rightarrow> WitnessSigOps version program witness
             | None \<Rightarrow>
                 if IsPayToScriptHash scriptPubKey \<and> IsPushOnly scriptSig
                 then case last_push scriptSig [] of
                        None \<Rightarrow> Some 0
                      | Some data \<Rightarrow>
                          (case IsWitnessProgram data of
                             Some (version, program) \<Rightarrow> WitnessSigOps version program witness
                           | None \<Rightarrow> Some 0)
                 else Some 0)"

end
