(* ===== verification/Interpreter_Limits.thy ===== *)
theory Interpreter_Limits
  imports Interpreter
begin

text \<open>
  What holds of every run of the interpreter: the limits on elements, stacks, operations and
  nesting, by induction over reachable states, and that no assertion fails.
\<close>

section \<open>Invariant and steps\<close>

abbreviation small :: "valtype list \<Rightarrow> bool" where
  "small s \<equiv> \<forall>x\<in>set s. length x \<le> MAX_SCRIPT_ELEMENT_SIZE"

text \<open>What the limits need of the hash functions, and an environment for examples.\<close>

definition env_ok :: "script_env \<Rightarrow> bool" where
  "env_ok env \<longleftrightarrow> (\<forall>b. length (ripemd160 env b) = 20 \<and> length (sha1 env b) = 20 \<and> length (sha256 env b) = 32)"

text \<open>The invariant of a run.\<close>

definition limits :: "eval_state \<Rightarrow> bool" where
  "limits st \<longleftrightarrow> small (stack st) \<and> small (altstack st) \<and> 0 \<le> nOpCount st \<and> nOpCount st \<le> MAX_OPS_PER_SCRIPT \<and>
    int (length (vfExec st)) \<le> nOpCount st"

text \<open>One round of the loop as a step relation on iterator and state, and the states a run reaches.\<close>

inductive script_step :: "script_env \<Rightarrow> BaseSignatureChecker \<Rightarrow> u32 \<Rightarrow> SigVersion \<Rightarrow> bytes \<times> eval_state \<Rightarrow> bytes \<times> eval_state \<Rightarrow> bool"
  for env checker flags sv where
  step: "pc \<noteq> [] \<Longrightarrow> eval_step env checker flags sv pc st = Inr (pc', st') \<Longrightarrow> script_step env checker flags sv (pc, st) (pc', st')"

inductive_cases script_stepE: "script_step env checker flags sv (pc, st) c"

inductive script_reach :: "script_env \<Rightarrow> BaseSignatureChecker \<Rightarrow> u32 \<Rightarrow> SigVersion \<Rightarrow> bytes \<times> eval_state \<Rightarrow> bytes \<times> eval_state \<Rightarrow> bool"
  for env checker flags sv where
  reach_refl: "script_reach env checker flags sv c c"
| reach_step: "script_step env checker flags sv c d \<Longrightarrow> script_reach env checker flags sv d e \<Longrightarrow> script_reach env checker flags sv c e"

definition demo_env :: script_env where
  "demo_env = \<lparr>ripemd160 = (\<lambda>_. replicate 20 0), sha1 = (\<lambda>_. replicate 20 1), sha256 = (\<lambda>_. replicate 32 2), CheckLowS = (\<lambda>_. True)\<rparr>"

text \<open>The checker that accepts every signature and no lock time.\<close>

definition demo_sigs :: BaseSignatureChecker where
  "demo_sigs = \<lparr>CheckSig = (\<lambda>_ _ _ _. True), CheckLockTime = (\<lambda>_. False), CheckSequence = (\<lambda>_. False)\<rparr>"

section \<open>Errors\<close>

lemma ebind_simps [simp]: "ebind (Inl e) f = Inl e" "ebind (Inr x) f = f x"
  by (simp_all add: ebind_def)

lemma ebind_Inr_iff: "ebind m f = Inr y \<longleftrightarrow> (\<exists>x. m = Inr x \<and> f x = Inr y)"
  by (cases m) auto

lemma ebind_Inl_iff: "ebind m f = Inl e \<longleftrightarrow> m = Inl e \<or> (\<exists>x. m = Inr x \<and> f x = Inl e)"
  by (cases m) auto

lemma err_simps [simp]: "err e \<noteq> Inr x" "Inr x \<noteq> err e" "err e \<noteq> Inl Aborts" "Inl Aborts \<noteq> err e"
  by (simp_all add: err_def)

lemmas outcome = ebind_Inr_iff ebind_Inl_iff

lemma script_num_no_abort [simp]: "script_num x m n \<noteq> Inl Aborts"
  by (simp add: script_num_def split: sum.splits)

lemma script_num_Inr: "script_num x m n = Inr v \<longleftrightarrow> CScriptNum_of_vch x m n = Inr v"
  by (auto simp: script_num_def split: sum.splits)

lemma script_operand: "script_num x m nDefaultMaxNumSize = Inr v \<Longrightarrow> \<bar>v\<bar> < 2 ^ 31"
  by (auto simp: script_num_Inr dest: operand_bound)

lemma stack_no_abort [simp]: "stacktop s i \<noteq> Inl Aborts" "popstack s \<noteq> Inl Aborts"
  by (simp_all add: stacktop_def popstack_def)

lemma encoding_no_abort [simp]:
  "CheckSignatureEncoding env sig flags \<noteq> Inl Aborts" "CheckPubKeyEncoding key flags sv \<noteq> Inl Aborts"
  by (auto simp: CheckSignatureEncoding_def IsLowDERSignature_def CheckPubKeyEncoding_def outcome split: if_splits)

lemma group_numeric1: "opcode_group opcode = Numeric1 \<Longrightarrow> opcode = OP_1ADD \<or> opcode = OP_1SUB \<or> (OP_NEGATE \<le> opcode \<and> opcode \<le> OP_0NOTEQUAL)"
  by (simp add: opcode_group_def split: if_splits)

lemma group_numeric2: "opcode_group opcode = Numeric2 \<Longrightarrow> opcode = OP_ADD \<or> opcode = OP_SUB \<or> (OP_BOOLAND \<le> opcode \<and> opcode \<le> OP_MAX)"
  by (simp add: opcode_group_def split: if_splits)

lemma group_push: "opcode_group opcode = PushNumber \<Longrightarrow> opcode \<le> OP_16"
  by (auto simp: opcode_group_def split: if_splits)

lemma group_control: "opcode_group opcode = Control \<Longrightarrow> OP_16 < opcode"
  by (auto simp: opcode_group_def split: if_splits)

lemma numeric1_total:
  assumes "\<bar>bn\<bar> < 2 ^ 31" "opcode_group opcode = Numeric1"
  shows "\<exists>v. numeric1 opcode bn = Some v \<and> \<bar>v\<bar> < 2 ^ 39"
proof -
  have "opcode = OP_1ADD \<or> opcode = OP_1SUB \<or> opcode = OP_NEGATE \<or> opcode = OP_ABS \<or> opcode = OP_NOT \<or> opcode = OP_0NOTEQUAL"
    using group_numeric1[OF assms(2)] by linarith
  then show ?thesis
    using assms(1) by (elim disjE) (auto simp: numeric1_def num_add_assign_def num_sub_assign_def num_uminus_def num_of_bool_def int64_max_def int64_min_def)
qed

lemma numeric2_total:
  assumes "\<bar>bn1\<bar> < 2 ^ 31" "\<bar>bn2\<bar> < 2 ^ 31" "opcode_group opcode = Numeric2"
  shows "\<exists>v. numeric2 opcode bn1 bn2 = Some v \<and> \<bar>v\<bar> < 2 ^ 39"
proof -
  have "opcode = OP_ADD \<or> opcode = OP_SUB \<or> opcode = OP_BOOLAND \<or> opcode = OP_BOOLOR \<or> opcode = OP_NUMEQUAL \<or>
    opcode = OP_NUMEQUALVERIFY \<or> opcode = OP_NUMNOTEQUAL \<or> opcode = OP_LESSTHAN \<or> opcode = OP_GREATERTHAN \<or>
    opcode = OP_LESSTHANOREQUAL \<or> opcode = OP_GREATERTHANOREQUAL \<or> opcode = OP_MIN \<or> opcode = OP_MAX"
    using group_numeric2[OF assms(3)] by presburger
  then show ?thesis using assms(1,2) by (elim disjE) (auto simp: numeric2_def num_of_bool_def)
qed

section \<open>Elements and limits\<close>

lemma serialize_small: "\<bar>v\<bar> < 2 ^ 63 \<Longrightarrow> length (CScriptNum_serialize v) \<le> MAX_SCRIPT_ELEMENT_SIZE"
  using serialize_length[of v 8] by (simp add: MAX_SCRIPT_ELEMENT_SIZE_def)

lemma bool_vch_small [simp]: "length (bool_vch f) \<le> MAX_SCRIPT_ELEMENT_SIZE"
  by (simp add: bool_vch_def vchTrue_def vchFalse_def MAX_SCRIPT_ELEMENT_SIZE_def)

lemma pick_roll_elements:
  assumes "op_pick_roll m opcode s = Inr s'"
  shows "set s' \<subseteq> set s"
proof -
  obtain x y r where s: "s = x # y # r" using assms by (auto simp: op_pick_roll_def split: list.splits)
  from assms obtain v where "script_num x m nDefaultMaxNumSize = Inr v" by (auto simp: s op_pick_roll_def outcome)
  with assms have "0 \<le> getint v" "getint v < int (length (y # r))"
    "s' = (y # r) ! nat (getint v) # (if opcode = OP_ROLL then take (nat (getint v)) (y # r) @ drop (nat (getint v) + 1) (y # r) else y # r)"
    by (auto simp: s op_pick_roll_def Let_def split: if_splits)
  moreover define n where "n = nat (getint v)"
  ultimately have n: "n < length (y # r)"
    "s' = (y # r) ! n # (if opcode = OP_ROLL then take n (y # r) @ drop (n + 1) (y # r) else y # r)"
    by (simp_all add: nat_less_iff)
  have "(y # r) ! n \<in> set (y # r)" using n(1) by (rule nth_mem)
  then show ?thesis using n(2) s set_take_subset[of n "y # r"] set_drop_subset[of "n + 1" "y # r"] by (auto split: if_splits)
qed

lemma op_stack_small:
  assumes "op_stack m opcode s = Inr s'" "small s" "length s < 2 ^ 62"
  shows "small s'"
proof -
  have d: "length (CScriptNum_serialize (int n)) \<le> MAX_SCRIPT_ELEMENT_SIZE" if "n < 2 ^ 62" for n
  proof -
    have "int n < 2 ^ 62" using that of_nat_less_iff[of n "2 ^ 62", where 'a = int] by simp
    then show ?thesis by (intro serialize_small) simp
  qed
  have e: "length (CScriptNum_serialize (int (length x))) \<le> MAX_SCRIPT_ELEMENT_SIZE" if "length x \<le> MAX_SCRIPT_ELEMENT_SIZE" for x :: valtype
    using that by (intro d) (simp add: MAX_SCRIPT_ELEMENT_SIZE_def)
  show ?thesis
  proof (cases "opcode = OP_PICK \<or> opcode = OP_ROLL")
    case True
    then have "op_pick_roll m opcode s = Inr s'" using assms(1) by (auto simp: op_stack_def)
    then show ?thesis using pick_roll_elements assms(2) by blast
  next
    case False
    then show ?thesis using assms(1,2) d[OF assms(3)] e unfolding op_stack_def by (auto split: if_splits list.splits)
  qed
qed

lemma op_equal_small: "op_equal opcode s = Inr s' \<Longrightarrow> small s \<Longrightarrow> small s'"
  by (auto simp: op_equal_def Let_def split: list.splits if_splits)

lemma op_numeric1_small:
  assumes "op_numeric1 m opcode s = Inr s'" "small s" "opcode_group opcode = Numeric1"
  shows "small s'"
proof -
  obtain x r bn v where s: "s = x # r" "script_num x m nDefaultMaxNumSize = Inr bn" "numeric1 opcode bn = Some v" "s' = CScriptNum_serialize v # r"
    using assms(1) by (auto simp: op_numeric1_def outcome asserted_def split: list.splits option.splits)
  then have "\<bar>v\<bar> < 2 ^ 39" using numeric1_total[OF script_operand[OF s(2)] assms(3)] by auto
  then show ?thesis using s assms(2) serialize_small[of v] by simp
qed

lemma op_numeric2_small:
  assumes "op_numeric2 m opcode s = Inr s'" "small s" "opcode_group opcode = Numeric2"
  shows "small s'"
proof -
  obtain x1 x2 r bn1 bn2 v where s: "s = x2 # x1 # r" "script_num x1 m nDefaultMaxNumSize = Inr bn1" "script_num x2 m nDefaultMaxNumSize = Inr bn2"
      "numeric2 opcode bn1 bn2 = Some v" "s' = CScriptNum_serialize v # r \<or> s' = r"
    using assms(1) by (auto simp: op_numeric2_def outcome asserted_def Let_def split: list.splits option.splits if_splits)
  then have "\<bar>v\<bar> < 2 ^ 39" using numeric2_total[OF script_operand[OF s(2)] script_operand[OF s(3)] assms(3)] by auto
  then show ?thesis using s assms(2) serialize_small[of v] by auto
qed

lemma op_within_small: "op_within m s = Inr s' \<Longrightarrow> small s \<Longrightarrow> small s'"
  by (auto simp: op_within_def outcome split: list.splits)

lemma op_hash_small: "op_hash env opcode s = Inr s' \<Longrightarrow> env_ok env \<Longrightarrow> small s \<Longrightarrow> small s'"
  by (auto simp: op_hash_def env_ok_def CHash160_def CHash256_def MAX_SCRIPT_ELEMENT_SIZE_def split: list.splits)

lemma op_checksig_small: "op_checksig env checker flags sv code opcode s = Inr s' \<Longrightarrow> small s \<Longrightarrow> small s'"
  by (auto simp: op_checksig_def outcome Let_def split: list.splits if_splits)

lemma multisig_cleanup_Inr:
  "multisig_cleanup flags f n k s = Inr s' \<Longrightarrow> n \<le> length s \<and> s' = drop n s"
proof (induction n arbitrary: k s)
  case (Suc n)
  then show ?case by (cases s) (auto simp: outcome popstack_def split: if_splits)
qed simp

lemma multisig_check_Inr:
  assumes "multisig_check env checker flags sv opcode code nKeys nSigs s = Inr s'"
  shows "set s' \<subseteq> set s \<union> range bool_vch \<and> length s' < length s"
proof -
  obtain f r where "nKeys + nSigs + 2 \<le> length s" "r = drop (nKeys + nSigs + 2) s" "multisig_finish flags opcode f r = Inr s'"
    using assms by (auto simp: multisig_check_def outcome simp del: multisig_cleanup.simps dest!: multisig_cleanup_Inr)
  then show ?thesis
    using set_drop_subset[of "nKeys + nSigs + 2" s]
    by (auto simp: multisig_finish_def split: list.splits if_splits dest!: sym[of "drop _ _"] dest: arg_cong[where f = length])
qed

lemma op_checkmultisig_cases:
  assumes "op_checkmultisig env checker flags sv opcode st = Inr st'"
  obtains s' ops where "set s' \<subseteq> set (stack st) \<union> range bool_vch" "length s' < length (stack st)"
    "st' = st\<lparr>stack := s', nOpCount := ops\<rparr>" "nOpCount st \<le> ops" "ops \<le> MAX_OPS_PER_SCRIPT"
proof -
  obtain k s' code nKeys nSigs where "st' = st\<lparr>stack := s', nOpCount := nOpCount st + k\<rparr>" "0 \<le> k" "nOpCount st + k \<le> MAX_OPS_PER_SCRIPT"
     "multisig_check env checker flags sv opcode code nKeys nSigs (stack st) = Inr s'"
    using assms by (auto simp: op_checkmultisig_def Let_def outcome split: if_splits)
  then show thesis using that[of s' "nOpCount st + k"] multisig_check_Inr by fastforce
qed

lemma on_stack_Inr: "on_stack f st = Inr st' \<longleftrightarrow> (\<exists>s'. f (stack st) = Inr s' \<and> st' = st\<lparr>stack := s'\<rparr>)"
  by (auto simp: on_stack_def outcome)

lemma on_stack_Inl: "on_stack f st = Inl e \<longleftrightarrow> f (stack st) = Inl e"
  by (auto simp: on_stack_def outcome)

lemma op_control_Inr:
  assumes "op_control checker flags sv fExec opcode st = Inr st'"
  shows "set (stack st') \<subseteq> set (stack st)" "altstack st' = altstack st" "nOpCount st' = nOpCount st"
    "length (vfExec st') \<le> Suc (length (vfExec st))" "pbegincodehash st' = pbegincodehash st"
  using assms
  by (auto simp: op_control_def op_checklocktimeverify_def op_checksequenceverify_def op_if_def outcome Let_def
      split: if_splits list.splits)

lemma exec_op_limits:
  assumes "exec_op env checker flags sv fExec pc opcode st = Inr st'" "env_ok env" "small (stack st)" "small (altstack st)"
    "length (stack st) < 2 ^ 62"
  shows "small (stack st') \<and> small (altstack st')"
proof (cases "opcode_group opcode")
  case PushNumber
  then have "length (CScriptNum_serialize (int opcode - (int OP_1 - 1))) \<le> MAX_SCRIPT_ELEMENT_SIZE"
    using group_push[of opcode] by (intro serialize_small) simp
  then show ?thesis using assms PushNumber by (auto simp: exec_op_def)
next
  case Control
  then have "op_control checker flags sv fExec opcode st = Inr st'" using assms(1) by (simp add: exec_op_def)
  from op_control_Inr(1,2)[OF this] show ?thesis using assms(3,4) by auto
next
  case AltStack
  then show ?thesis using assms by (auto simp: exec_op_def op_alt_def split: if_splits list.splits)
next
  case CheckMultiSigOp
  then have "op_checkmultisig env checker flags sv opcode st = Inr st'" using assms(1) by (simp add: exec_op_def)
  then show ?thesis using assms(3,4) by (elim op_checkmultisig_cases) fastforce
qed (use assms in \<open>auto simp: exec_op_def on_stack_Inr
        dest: op_stack_small op_equal_small op_numeric1_small op_numeric2_small op_within_small op_hash_small op_checksig_small\<close>)

lemma exec_op_counts:
  assumes "exec_op env checker flags sv fExec pc opcode st = Inr st'" "nOpCount st \<le> MAX_OPS_PER_SCRIPT"
  shows "nOpCount st \<le> nOpCount st' \<and> nOpCount st' \<le> MAX_OPS_PER_SCRIPT \<and>
    (length (vfExec st') \<le> length (vfExec st) \<or> OP_16 < opcode \<and> length (vfExec st') = Suc (length (vfExec st)))"
proof (cases "opcode_group opcode")
  case Control
  then have "op_control checker flags sv fExec opcode st = Inr st'" using assms(1) by (simp add: exec_op_def)
  from op_control_Inr(3,4)[OF this] group_control[OF Control] show ?thesis using assms(2) by auto
next
  case AltStack
  then show ?thesis using assms by (auto simp: exec_op_def op_alt_def split: if_splits list.splits)
next
  case CheckMultiSigOp
  then have "op_checkmultisig env checker flags sv opcode st = Inr st'" using assms(1) by (simp add: exec_op_def)
  then show ?thesis by (elim op_checkmultisig_cases) simp
qed (use assms in \<open>auto simp: exec_op_def on_stack_Inr\<close>)

section \<open>Steps\<close>

lemma eval_step_cases:
  assumes "eval_step env checker flags sv pc st = Inr (pc', st')"
  obtains opcode vch st1 where "GetOp pc = Some (opcode, vch, pc')" "length vch \<le> MAX_SCRIPT_ELEMENT_SIZE"
    "st1 = (if OP_16 < opcode then st\<lparr>nOpCount := nOpCount st + 1\<rparr> else st)" "OP_16 < opcode \<longrightarrow> nOpCount st1 \<le> MAX_OPS_PER_SCRIPT"
    "st' = st1\<lparr>stack := vch # stack st1\<rparr> \<or> st' = st1 \<or>
     exec_op env checker flags sv (False \<notin> set (vfExec st)) pc' opcode st1 = Inr st'"
    "length (stack st') + length (altstack st') \<le> 1000"
  using assms by (auto simp: eval_step_def Let_def ebind_Inr_iff split: option.splits if_splits)

lemma eval_step_limits:
  assumes "eval_step env checker flags sv pc st = Inr (pc', st')" "env_ok env" "limits st" "length (stack st) < 2 ^ 62"
  shows "limits st' \<and> length (stack st') + length (altstack st') \<le> 1000 \<and> length pc' < length pc"
proof -
  obtain opcode vch st1 where s: "GetOp pc = Some (opcode, vch, pc')" "length vch \<le> MAX_SCRIPT_ELEMENT_SIZE"
    "st1 = (if OP_16 < opcode then st\<lparr>nOpCount := nOpCount st + 1\<rparr> else st)" "OP_16 < opcode \<longrightarrow> nOpCount st1 \<le> MAX_OPS_PER_SCRIPT"
    "st' = st1\<lparr>stack := vch # stack st1\<rparr> \<or> st' = st1 \<or>
     exec_op env checker flags sv (False \<notin> set (vfExec st)) pc' opcode st1 = Inr st'"
    "length (stack st') + length (altstack st') \<le> 1000"
    using assms(1) by (rule eval_step_cases)
  have st1: "small (stack st1)" "small (altstack st1)" "nOpCount st1 \<le> MAX_OPS_PER_SCRIPT" "length (stack st1) < 2 ^ 62"
    "0 \<le> nOpCount st1" "int (length (vfExec st1)) + (if OP_16 < opcode then 1 else 0) \<le> nOpCount st1"
    using assms(3,4) s(3,4) by (auto simp: limits_def)
  have "limits st'"
    using s(5)
  proof (elim disjE)
    assume e: "exec_op env checker flags sv (False \<notin> set (vfExec st)) pc' opcode st1 = Inr st'"
    show ?thesis using exec_op_limits[OF e assms(2) st1(1,2,4)] exec_op_counts[OF e st1(3)] st1(5,6)
      by (auto simp: limits_def split: if_splits)
  qed (use st1 s(2) in \<open>auto simp: limits_def split: if_splits\<close>)
  then show ?thesis using s(6) GetOp_length[OF s(1)] by simp
qed

lemma script_reach_limits:
  assumes "script_reach env checker flags sv (pc, st) (pc', st')" "env_ok env" "limits st" "length (stack st) < 2 ^ 62"
  shows "limits st' \<and> ((pc', st') = (pc, st) \<or> length (stack st') + length (altstack st') \<le> 1000)"
  using assms
proof (induction "(pc, st)" "(pc', st')" arbitrary: pc st rule: script_reach.induct)
  case (reach_step d)
  obtain pc1 st1 where d: "d = (pc1, st1)" by (cases d)
  then have "eval_step env checker flags sv pc st = Inr (pc1, st1)" using reach_step(1) by (auto elim: script_stepE)
  from eval_step_limits[OF this reach_step(4-6)]
  have l: "limits st1" "length (stack st1) + length (altstack st1) \<le> 1000" by auto
  then have "length (stack st1) < 2 ^ 62" by simp
  from reach_step(3)[OF d reach_step(4) l(1) this] show ?case using l(2) by auto
qed simp

lemma eval_loop_Nil [simp]: "eval_loop env checker flags sv [] st = Inr st"
  by (subst eval_loop.simps) simp

lemma eval_loop_step:
  "pc \<noteq> [] \<Longrightarrow> eval_loop env checker flags sv pc st = ebind (eval_step env checker flags sv pc st) (\<lambda>(pc, st). eval_loop env checker flags sv pc st)"
  by (subst eval_loop.simps) (simp add: ebind_def split: sum.splits)

lemma eval_loop_reach:
  assumes "eval_loop env checker flags sv pc st = Inr st'"
  shows "script_reach env checker flags sv (pc, st) ([], st')"
  using assms
proof (induction env checker flags sv pc st rule: eval_loop.induct)
  case (1 env checker flags sv pc st)
  show ?case
  proof (cases "pc = []")
    case True
    then show ?thesis using "1.prems" by (simp add: reach_refl)
  next
    case False
    then obtain pc1 st1 where s: "eval_step env checker flags sv pc st = Inr (pc1, st1)" "eval_loop env checker flags sv pc1 st1 = Inr st'"
      using "1.prems" by (auto simp: eval_loop_step outcome)
    then show ?thesis using "1.IH"[OF False s(1)] False by (blast intro: reach_step script_step.step)
  qed
qed

section \<open>No assertion fails\<close>

lemma op_numeric_no_abort:
  "opcode_group opcode = Numeric1 \<Longrightarrow> op_numeric1 m opcode s \<noteq> Inl Aborts"
  "opcode_group opcode = Numeric2 \<Longrightarrow> op_numeric2 m opcode s \<noteq> Inl Aborts"
  by (auto simp: op_numeric1_def op_numeric2_def outcome asserted_def Let_def split: list.splits option.splits if_splits
      dest!: script_operand dest: numeric1_total numeric2_total)

lemma op_simple_no_abort:
  "op_pick_roll m opcode s \<noteq> Inl Aborts" "op_equal opcode s \<noteq> Inl Aborts" "op_within m s \<noteq> Inl Aborts" "op_hash env opcode s \<noteq> Inl Aborts"
  "op_checksig env checker flags sv code opcode s \<noteq> Inl Aborts" "op_alt opcode st \<noteq> Inl Aborts"
  by (auto simp: op_pick_roll_def op_equal_def op_within_def op_hash_def op_checksig_def op_alt_def outcome Let_def
      split: list.splits if_splits)

lemma op_stack_no_abort: "op_stack m opcode s \<noteq> Inl Aborts"
  by (auto simp: op_stack_def op_simple_no_abort split: list.splits)

lemma op_control_no_abort: "op_control checker flags sv fExec opcode st \<noteq> Inl Aborts"
  by (auto simp: op_control_def op_checklocktimeverify_def op_checksequenceverify_def op_if_def outcome Let_def
      split: list.splits if_splits)

lemma drop_signatures_no_abort: "drop_signatures sv s n i code \<noteq> Inl Aborts"
  by (induction n arbitrary: i code) (auto simp: outcome)

lemma multisig_cleanup_no_abort: "multisig_cleanup flags f n k s \<noteq> Inl Aborts"
  by (induction n arbitrary: k s) (auto simp: outcome)

lemma multisig_loop_no_abort: "multisig_loop env checker flags sv code s isig ikey nSigs nKeys \<noteq> Inl Aborts"
proof (induction env checker flags sv code s isig ikey nSigs nKeys rule: multisig_loop.induct)
  case (1 env checker flags sv code s isig ikey nSigs nKeys)
  then show ?case
    by (subst multisig_loop.simps) (auto simp: Let_def split: sum.splits dest: sym[of "Inl Aborts"])
qed

lemma op_checkmultisig_no_abort: "op_checkmultisig env checker flags sv opcode st \<noteq> Inl Aborts"
  by (auto simp: op_checkmultisig_def multisig_check_def multisig_finish_def Let_def outcome drop_signatures_no_abort
      multisig_cleanup_no_abort multisig_loop_no_abort simp del: multisig_cleanup.simps split: list.splits if_splits)

lemma exec_op_no_abort: "exec_op env checker flags sv fExec pc opcode st \<noteq> Inl Aborts"
  by (cases "opcode_group opcode")
    (simp_all add: exec_op_def on_stack_Inl op_numeric_no_abort op_simple_no_abort op_stack_no_abort op_control_no_abort
      op_checkmultisig_no_abort)

lemma eval_step_no_abort: "eval_step env checker flags sv pc st \<noteq> Inl Aborts"
  by (auto simp: eval_step_def Let_def outcome exec_op_no_abort split: option.splits if_splits)

lemma eval_loop_no_abort: "eval_loop env checker flags sv pc st \<noteq> Inl Aborts"
proof (induction env checker flags sv pc st rule: eval_loop.induct)
  case (1 env checker flags sv pc st)
  then show ?case
    by (cases "pc = []") (auto simp: eval_loop_step outcome eval_step_no_abort)
qed

lemma EvalScript_no_abort: "EvalScript env checker flags sv script s \<noteq> Inl Aborts"
  by (simp add: EvalScript_def outcome eval_loop_no_abort)

lemma VerifyWitnessProgram_no_abort: "VerifyWitnessProgram env checker flags witness v program \<noteq> Inl Aborts"
  by (simp add: VerifyWitnessProgram_def Let_def outcome EvalScript_no_abort)

lemma eval_true_no_abort: "eval_true env checker flags script s \<noteq> Inl Aborts"
  by (simp add: eval_true_def outcome EvalScript_no_abort)

lemma opcode_group_hash160: "opcode_group OP_HASH160 = HashOp"
  by (simp add: opcode_group_def)

lemma p2sh_needs_element:
  assumes "IsPayToScriptHash script"
  shows "EvalScript env checker flags sv script [] \<noteq> Inr s"
proof -
  obtain r where r: "script = of_nat OP_HASH160 # r" using assms by (cases script) (auto simp: IsPayToScriptHash_def)
  have "eval_step env checker flags sv script (init_state script []) = err SCRIPT_ERR_INVALID_STACK_OPERATION"
    by (simp add: r eval_step_def init_state_def MAX_SCRIPT_ELEMENT_SIZE_def MAX_OPS_PER_SCRIPT_def disabled_opcode_def
        exec_op_def opcode_group_hash160 on_stack_def op_hash_def err_def)
  then show ?thesis by (simp add: EvalScript_def eval_loop_step r outcome)
qed

section \<open>Properties\<close>

text \<open>
  C6.  The limits of the interpreter hold in every state a run reaches from a stack of elements of at
  most 520 bytes: no element of either stack is longer, at most 201 operations are counted, at most
  201 conditionals are open, and after a step the two stacks together hold at most 1000 elements; so
  does the stack that an evaluation returns.
\<close>

theorem interpreter_limits:
  assumes "env_ok env" "\<forall>x\<in>set s. length x \<le> 520" "length s < 2 ^ 62"
  shows "(script_reach env checker flags sv (script, init_state script s) (pc, st) \<longrightarrow>
      (\<forall>x\<in>set (stack st) \<union> set (altstack st). length x \<le> 520) \<and> nOpCount st \<le> 201 \<and> length (vfExec st) \<le> 201 \<and>
      ((pc, st) = (script, init_state script s) \<or> length (stack st) + length (altstack st) \<le> 1000)) \<and>
    (EvalScript env checker flags sv script s = Inr s' \<longrightarrow>
      (\<forall>x\<in>set s'. length x \<le> 520) \<and> (script = [] \<or> length s' \<le> 1000))"
proof -
  have init: "limits (init_state script s)" "length (stack (init_state script s)) < 2 ^ 62"
    using assms(2,3) by (simp_all add: limits_def init_state_def MAX_SCRIPT_ELEMENT_SIZE_def MAX_OPS_PER_SCRIPT_def)
  note inv = script_reach_limits[OF _ assms(1) init]
  show ?thesis
  proof (intro conjI impI)
    assume r: "script_reach env checker flags sv (script, init_state script s) (pc, st)"
    show "\<forall>x\<in>set (stack st) \<union> set (altstack st). length x \<le> 520" "nOpCount st \<le> 201" "length (vfExec st) \<le> 201"
      "(pc, st) = (script, init_state script s) \<or> length (stack st) + length (altstack st) \<le> 1000"
      using inv[OF r] by (auto simp: limits_def MAX_SCRIPT_ELEMENT_SIZE_def MAX_OPS_PER_SCRIPT_def)
  next
    assume "EvalScript env checker flags sv script s = Inr s'"
    then obtain st' where "eval_loop env checker flags sv script (init_state script s) = Inr st'" and s': "s' = stack st'"
      by (auto simp: EvalScript_def outcome split: if_splits)
    from inv[OF eval_loop_reach[OF this(1)]]
    show "\<forall>x\<in>set s'. length x \<le> 520" "script = [] \<or> length s' \<le> 1000"
      by (auto simp: s' limits_def MAX_SCRIPT_ELEMENT_SIZE_def)
  qed
qed

theorem interpreter_limits_witness:
  "EvalScript demo_env demo_sigs 0 SIGVERSION_BASE [0x76, 0xa9] [[1]] = Inr [replicate 20 0, [1]] \<and> list_all (\<lambda>x. length x \<le> 520) [replicate 20 0, [1] :: valtype]"
proof -
  have e: "EvalScript demo_env demo_sigs 0 SIGVERSION_BASE [0x76, 0xa9] [[1]] = Inr [replicate 20 0, [1]]" by code_simp
  have ok: "env_ok demo_env" by (simp add: env_ok_def demo_env_def)
  show ?thesis
    using e interpreter_limits[OF ok, of "[[1]]" demo_sigs 0 SIGVERSION_BASE "[0x76, 0xa9]" "[]" "init_state [] []" "[replicate 20 0, [1]]"] by simp
qed

text \<open>
  C7.  No assertion fails in script verification: with flags in which \<open>CLEANSTACK\<close> comes with \<open>P2SH\<close> and
  \<open>WITNESS\<close>, and \<open>WITNESS\<close> with \<open>P2SH\<close>, it returns success or a script error for every pair of scripts and
  every witness.  In particular the stack is not empty when a pay-to-script-hash output is checked.
\<close>

theorem VerifyScript_never_aborts:
  assumes "flag flags SCRIPT_VERIFY_CLEANSTACK \<longrightarrow> flag flags SCRIPT_VERIFY_P2SH \<and> flag flags SCRIPT_VERIFY_WITNESS"
    "flag flags SCRIPT_VERIFY_WITNESS \<longrightarrow> flag flags SCRIPT_VERIFY_P2SH"
  shows "VerifyScript env checker flags scriptSig scriptPubKey witness = Inr () \<or>
    (\<exists>e. VerifyScript env checker flags scriptSig scriptPubKey witness = Inl (Fails e))"
proof -
  have "VerifyScript env checker flags scriptSig scriptPubKey witness \<noteq> Inl Aborts"
  proof
    assume "VerifyScript env checker flags scriptSig scriptPubKey witness = Inl Aborts"
    then obtain stackCopy s w h where "eval_true env checker flags scriptPubKey stackCopy = Inr s"
      "IsPayToScriptHash scriptPubKey" "verify_p2sh env checker flags w scriptSig stackCopy h = Inl Aborts"
      using assms EvalScript_no_abort eval_true_no_abort VerifyWitnessProgram_no_abort
      by (auto simp: VerifyScript_def Let_def ebind_Inl_iff verify_bare_witness_def split: if_splits option.splits)
    moreover from this have "stackCopy \<noteq> []" using p2sh_needs_element by (auto simp: eval_true_def outcome)
    ultimately show False
      using eval_true_no_abort VerifyWitnessProgram_no_abort
      by (auto simp: verify_p2sh_def ebind_Inl_iff neq_Nil_conv split: if_splits option.splits)
  qed
  then show ?thesis
    by (cases "VerifyScript env checker flags scriptSig scriptPubKey witness")
      (auto split: script_fail.splits, metis script_fail.exhaust)
qed

theorem VerifyScript_never_aborts_witness:
  "VerifyScript demo_env demo_sigs SCRIPT_VERIFY_P2SH [] [0xa9] None = Inr () \<or>
   (\<exists>e. VerifyScript demo_env demo_sigs SCRIPT_VERIFY_P2SH [] [0xa9] None = Inl (Fails e))"
proof (rule VerifyScript_never_aborts)
  show "flag SCRIPT_VERIFY_P2SH SCRIPT_VERIFY_CLEANSTACK \<longrightarrow> flag SCRIPT_VERIFY_P2SH SCRIPT_VERIFY_P2SH \<and> flag SCRIPT_VERIFY_P2SH SCRIPT_VERIFY_WITNESS"
    by code_simp
  show "flag SCRIPT_VERIFY_P2SH SCRIPT_VERIFY_WITNESS \<longrightarrow> flag SCRIPT_VERIFY_P2SH SCRIPT_VERIFY_P2SH" by code_simp
qed

end
