(* ===== verification/Interpreter_Softfork.thy ===== *)
theory Interpreter_Softfork
  imports Interpreter_Limits
begin

text \<open>
  Soft-fork safety of the verification flags: turning flags on can only make scripts fail.  The one
  exception is the pair of an enabled lock-time opcode and the flag against unused NOPs, which is why
  \<open>softfork\<close> asks that a rule set that discourages NOPs already enables the opcodes.
\<close>

definition flags_le :: "u32 \<Rightarrow> u32 \<Rightarrow> bool" where
  "flags_le f f' \<longleftrightarrow> f AND f' = f"

definition nops_agree :: "u32 \<Rightarrow> u32 \<Rightarrow> bool" where
  "nops_agree f f' \<longleftrightarrow>
    (flag f SCRIPT_VERIFY_DISCOURAGE_UPGRADABLE_NOPS \<longrightarrow>
      (flag f' SCRIPT_VERIFY_CHECKLOCKTIMEVERIFY \<longrightarrow> flag f SCRIPT_VERIFY_CHECKLOCKTIMEVERIFY) \<and>
      (flag f' SCRIPT_VERIFY_CHECKSEQUENCEVERIFY \<longrightarrow> flag f SCRIPT_VERIFY_CHECKSEQUENCEVERIFY))"

text \<open>The combinations of flags that the assertions of \<open>VerifyScript\<close> ask for.\<close>

definition flags_sane :: "u32 \<Rightarrow> bool" where
  "flags_sane f \<longleftrightarrow>
    (flag f SCRIPT_VERIFY_CLEANSTACK \<longrightarrow> flag f SCRIPT_VERIFY_P2SH \<and> flag f SCRIPT_VERIFY_WITNESS) \<and>
    (flag f SCRIPT_VERIFY_WITNESS \<longrightarrow> flag f SCRIPT_VERIFY_P2SH)"

text \<open>The rule sets of \<^verbatim>\<open>policy/policy.h\<close>: what every block obeys, and what the node relays.\<close>

definition MANDATORY_SCRIPT_VERIFY_FLAGS :: u32 where
  "MANDATORY_SCRIPT_VERIFY_FLAGS = SCRIPT_VERIFY_P2SH"

definition STANDARD_SCRIPT_VERIFY_FLAGS :: u32 where
  "STANDARD_SCRIPT_VERIFY_FLAGS = MANDATORY_SCRIPT_VERIFY_FLAGS OR SCRIPT_VERIFY_DERSIG OR SCRIPT_VERIFY_STRICTENC OR
    SCRIPT_VERIFY_MINIMALDATA OR SCRIPT_VERIFY_NULLDUMMY OR SCRIPT_VERIFY_DISCOURAGE_UPGRADABLE_NOPS OR SCRIPT_VERIFY_CLEANSTACK OR
    SCRIPT_VERIFY_MINIMALIF OR SCRIPT_VERIFY_NULLFAIL OR SCRIPT_VERIFY_CHECKLOCKTIMEVERIFY OR SCRIPT_VERIFY_CHECKSEQUENCEVERIFY OR
    SCRIPT_VERIFY_LOW_S OR SCRIPT_VERIFY_WITNESS OR SCRIPT_VERIFY_DISCOURAGE_UPGRADABLE_WITNESS_PROGRAM OR SCRIPT_VERIFY_WITNESS_PUBKEYTYPE"

section \<open>Monotonicity\<close>

lemma VerifyScript_Inr:
  "VerifyScript env checker fl scriptSig scriptPubKey witnessPtr = Inr () \<longleftrightarrow>
    (flag fl SCRIPT_VERIFY_SIGPUSHONLY \<longrightarrow> IsPushOnly scriptSig) \<and>
    (\<exists>c s hb sb h t.
      EvalScript env checker fl SIGVERSION_BASE scriptSig [] = Inr c \<and> eval_true env checker fl scriptPubKey c = Inr s \<and>
      verify_bare_witness env checker fl (case witnessPtr of None \<Rightarrow> [] | Some w \<Rightarrow> w) scriptSig scriptPubKey s = Inr (hb, sb) \<and>
      (if flag fl SCRIPT_VERIFY_P2SH \<and> IsPayToScriptHash scriptPubKey
       then verify_p2sh env checker fl (case witnessPtr of None \<Rightarrow> [] | Some w \<Rightarrow> w) scriptSig c hb else Inr (hb, sb)) = Inr (h, t) \<and>
      (flag fl SCRIPT_VERIFY_CLEANSTACK \<longrightarrow> flag fl SCRIPT_VERIFY_P2SH \<and> flag fl SCRIPT_VERIFY_WITNESS \<and> length t = 1) \<and>
      (flag fl SCRIPT_VERIFY_WITNESS \<longrightarrow> flag fl SCRIPT_VERIFY_P2SH \<and> (h \<or> (case witnessPtr of None \<Rightarrow> [] | Some w \<Rightarrow> w) = [])))"
  (is "_ \<longleftrightarrow> _ \<and> (\<exists>c s hb sb h t. ?a c \<and> ?b c s \<and> ?c s hb sb \<and> ?d c hb sb h t \<and> ?e h t)")
proof -
  let ?w = "case witnessPtr of None \<Rightarrow> [] | Some w \<Rightarrow> w"
  have fin: "(if flag fl SCRIPT_VERIFY_CLEANSTACK \<and> (\<not> flag fl SCRIPT_VERIFY_P2SH \<or> \<not> flag fl SCRIPT_VERIFY_WITNESS) then Inl Aborts
      else if flag fl SCRIPT_VERIFY_CLEANSTACK \<and> length t \<noteq> 1 then err SCRIPT_ERR_CLEANSTACK
      else if flag fl SCRIPT_VERIFY_WITNESS \<and> \<not> flag fl SCRIPT_VERIFY_P2SH then Inl Aborts
      else if flag fl SCRIPT_VERIFY_WITNESS \<and> \<not> h \<and> ?w \<noteq> [] then err SCRIPT_ERR_WITNESS_UNEXPECTED else Inr ()) = Inr () \<longleftrightarrow> ?e h t" for h t
    by auto
  show ?thesis
  proof (cases "flag fl SCRIPT_VERIFY_SIGPUSHONLY \<and> \<not> IsPushOnly scriptSig")
    case True
    then show ?thesis by (simp add: VerifyScript_def)
  next
    case False
    show ?thesis unfolding VerifyScript_def Let_def
      by (simp only: if_not_P[OF False] ebind_Inr_iff split_paired_Ex prod.case fin) (use False in blast)
  qed
qed

locale softfork =
  fixes f f' :: u32
  assumes le: "flags_le f f'" and nops: "nops_agree f f'" and sane: "flags_sane f"
begin

lemma mono: "flag f x \<Longrightarrow> flag f' x"
proof -
  assume "flag f x"
  moreover have "f AND x = f AND (f' AND x)" using le by (metis flags_le_def and.assoc)
  ultimately show "flag f' x" by (auto simp: flag_def)
qed

lemma script_num_mono: "script_num x (flag f' m) n = Inr v \<Longrightarrow> script_num x (flag f m) n = Inr v"
  using mono[of m] by (cases "flag f' m"; cases "flag f m") (auto simp: script_num_Inr intro: CScriptNum_of_vch_relax)

lemma CheckSignatureEncoding_mono:
  "CheckSignatureEncoding env sig f' = Inr u \<Longrightarrow> CheckSignatureEncoding env sig f = Inr u"
  using mono by (auto simp: CheckSignatureEncoding_def outcome split: if_splits)

lemma CheckPubKeyEncoding_mono: "CheckPubKeyEncoding key f' sv = Inr u \<Longrightarrow> CheckPubKeyEncoding key f sv = Inr u"
  using mono by (auto simp: CheckPubKeyEncoding_def split: if_splits)

lemma op_checklocktimeverify_mono:
  "op_checklocktimeverify checker f' st = Inr st' \<Longrightarrow> op_checklocktimeverify checker f st = Inr st'"
  using mono[of SCRIPT_VERIFY_DISCOURAGE_UPGRADABLE_NOPS] mono[of SCRIPT_VERIFY_CHECKLOCKTIMEVERIFY] nops
  by (auto simp: op_checklocktimeverify_def nops_agree_def outcome split: if_splits list.splits dest: script_num_mono)

lemma op_checksequenceverify_mono:
  assumes h: "op_checksequenceverify checker f' st = Inr st'"
  shows "op_checksequenceverify checker f st = Inr st'"
proof (cases "flag f' SCRIPT_VERIFY_CHECKSEQUENCEVERIFY")
  case True
  then obtain x s v where s: "stack st = x # s" "script_num x (flag f' SCRIPT_VERIFY_MINIMALDATA) 5 = Inr v"
      and v: "\<not> v < 0" "v AND SEQUENCE_LOCKTIME_DISABLE_FLAG \<noteq> 0 \<or> CheckSequence checker v" "st' = st"
    using h by (cases "stack st") (auto simp: op_checksequenceverify_def ebind_Inr_iff split: if_split_asm)
  show ?thesis
  proof (cases "flag f SCRIPT_VERIFY_CHECKSEQUENCEVERIFY")
    case True
    then show ?thesis using s v by (simp add: op_checksequenceverify_def script_num_mono[OF s(2)])
  next
    case False
    then show ?thesis using True nops v(3) by (auto simp: op_checksequenceverify_def nops_agree_def)
  qed
next
  case False
  then show ?thesis
    using h mono[of SCRIPT_VERIFY_DISCOURAGE_UPGRADABLE_NOPS] mono[of SCRIPT_VERIFY_CHECKSEQUENCEVERIFY]
    by (auto simp: op_checksequenceverify_def split: if_split_asm)
qed

lemma op_if_mono: "op_if f' sv fExec opcode st = Inr st' \<Longrightarrow> op_if f sv fExec opcode st = Inr st'"
  using mono[of SCRIPT_VERIFY_MINIMALIF] by (cases "stack st") (auto simp: op_if_def Let_def split: if_splits)

lemma op_control_mono:
  assumes "op_control checker f' sv fExec opcode st = Inr st'"
  shows "op_control checker f sv fExec opcode st = Inr st'"
proof -
  consider "opcode = OP_CHECKLOCKTIMEVERIFY" | "opcode = OP_CHECKSEQUENCEVERIFY" | "opcode = OP_NOP1 \<or> (OP_NOP4 \<le> opcode \<and> opcode \<le> OP_NOP10)"
    | "opcode = OP_IF \<or> opcode = OP_NOTIF" | "opcode = OP_NOP \<or> opcode = OP_ELSE \<or> opcode = OP_ENDIF \<or> opcode = OP_VERIFY"
    using assms by (auto simp: op_control_def split: if_splits)
  then show ?thesis
  proof cases
    case 3
    then show ?thesis using assms mono[of SCRIPT_VERIFY_DISCOURAGE_UPGRADABLE_NOPS] by (auto simp: op_control_def split: if_splits)
  qed (use assms op_checklocktimeverify_mono op_checksequenceverify_mono op_if_mono in \<open>auto simp: op_control_def\<close>)
qed

lemma op_pick_roll_mono: "op_pick_roll (flag f' m) opcode s = Inr s' \<Longrightarrow> op_pick_roll (flag f m) opcode s = Inr s'"
  by (auto simp: op_pick_roll_def ebind_Inr_iff split: list.splits dest!: script_num_mono)

lemma op_stack_mono:
  assumes "op_stack (flag f' m) opcode s = Inr s'"
  shows "op_stack (flag f m) opcode s = Inr s'"
proof (cases "opcode = OP_PICK \<or> opcode = OP_ROLL")
  case True
  then show ?thesis using op_pick_roll_mono[of m opcode s s'] assms by (auto simp: op_stack_def)
next
  case False
  then have "op_stack (flag f m) opcode s = op_stack (flag f' m) opcode s" by (simp add: op_stack_def)
  then show ?thesis using assms by simp
qed

lemma op_numeric1_mono: "op_numeric1 (flag f' m) opcode s = Inr s' \<Longrightarrow> op_numeric1 (flag f m) opcode s = Inr s'"
  by (auto simp: op_numeric1_def ebind_Inr_iff split: list.splits dest!: script_num_mono)

lemma op_numeric2_mono: "op_numeric2 (flag f' m) opcode s = Inr s' \<Longrightarrow> op_numeric2 (flag f m) opcode s = Inr s'"
  by (auto simp: op_numeric2_def ebind_Inr_iff split: list.splits dest!: script_num_mono)

lemma op_within_mono: "op_within (flag f' m) s = Inr s' \<Longrightarrow> op_within (flag f m) s = Inr s'"
  by (auto simp: op_within_def ebind_Inr_iff split: list.splits dest!: script_num_mono)

lemma op_checksig_mono:
  "op_checksig env checker f' sv code opcode s = Inr s' \<Longrightarrow> op_checksig env checker f sv code opcode s = Inr s'"
  using mono[of SCRIPT_VERIFY_NULLFAIL]
  by (auto simp: op_checksig_def Let_def ebind_Inr_iff split: list.splits if_splits
      dest!: CheckSignatureEncoding_mono CheckPubKeyEncoding_mono)

lemma multisig_loop_mono:
  "multisig_loop env checker f' sv code s isig ikey nSigs nKeys = Inr r \<Longrightarrow> multisig_loop env checker f sv code s isig ikey nSigs nKeys = Inr r"
proof (induction nKeys arbitrary: isig ikey nSigs rule: less_induct)
  case (less nKeys)
  show ?case
    using less.prems
    apply (subst (asm) multisig_loop.simps)
    apply (subst multisig_loop.simps)
    by (auto simp: Let_def split: sum.splits if_splits dest: CheckSignatureEncoding_mono CheckPubKeyEncoding_mono less.IH[rotated])
qed

lemma multisig_cleanup_mono:
  "multisig_cleanup f' b n k s = Inr s' \<Longrightarrow> multisig_cleanup f b n k s = Inr s'"
  using mono[of SCRIPT_VERIFY_NULLFAIL]
  by (induction n arbitrary: k s) (auto simp: ebind_Inr_iff split: if_splits)

lemma multisig_finish_mono: "multisig_finish f' opcode b s = Inr s' \<Longrightarrow> multisig_finish f opcode b s = Inr s'"
  using mono[of SCRIPT_VERIFY_NULLDUMMY] by (auto simp: multisig_finish_def split: list.splits if_splits)

lemma multisig_check_mono:
  "multisig_check env checker f' sv opcode code nKeys nSigs s = Inr s' \<Longrightarrow> multisig_check env checker f sv opcode code nKeys nSigs s = Inr s'"
  by (auto simp: multisig_check_def ebind_Inr_iff simp del: multisig_cleanup.simps
      dest!: multisig_loop_mono multisig_cleanup_mono multisig_finish_mono)

lemma op_checkmultisig_mono:
  "op_checkmultisig env checker f' sv opcode st = Inr st' \<Longrightarrow> op_checkmultisig env checker f sv opcode st = Inr st'"
  by (auto simp: op_checkmultisig_def Let_def ebind_Inr_iff split: if_splits dest!: script_num_mono multisig_check_mono)

lemma on_stack_mono:
  assumes "\<And>s s'. g' s = Inr s' \<Longrightarrow> g s = Inr s'" "on_stack g' st = Inr st'"
  shows "on_stack g st = Inr st'"
  using assms by (auto simp: on_stack_Inr)

lemma exec_op_mono:
  assumes "exec_op env checker f' sv fExec pc opcode st = Inr st'"
  shows "exec_op env checker f sv fExec pc opcode st = Inr st'"
  using assms
  by (cases "opcode_group opcode")
    (auto simp: exec_op_def elim!: on_stack_mono[rotated]
      intro: op_control_mono op_stack_mono op_numeric1_mono op_numeric2_mono op_within_mono op_checksig_mono op_checkmultisig_mono)

lemma eval_step_mono:
  assumes "eval_step env checker f' sv pc st = Inr c"
  shows "eval_step env checker f sv pc st = Inr c"
proof (cases "GetOp pc")
  case (Some r)
  then obtain opcode vch pc' where g: "GetOp pc = Some (opcode, vch, pc')" by (cases r) auto
  define st1 where "st1 = (if opcode > OP_16 then st\<lparr>nOpCount := nOpCount st + 1\<rparr> else st)"
  define inner where "inner fl =
    (if False \<notin> set (vfExec st) \<and> opcode \<le> OP_PUSHDATA4
     then if flag fl SCRIPT_VERIFY_MINIMALDATA \<and> \<not> CheckMinimalPush vch opcode then err SCRIPT_ERR_MINIMALDATA
          else Inr (st1\<lparr>stack := vch # stack st1\<rparr>)
     else if False \<notin> set (vfExec st) \<or> (OP_IF \<le> opcode \<and> opcode \<le> OP_ENDIF)
     then exec_op env checker fl sv (False \<notin> set (vfExec st)) pc' opcode st1
     else Inr st1)" for fl
  have e: "eval_step env checker fl sv pc st =
    (if length vch > MAX_SCRIPT_ELEMENT_SIZE then err SCRIPT_ERR_PUSH_SIZE
     else if opcode > OP_16 \<and> nOpCount st1 > MAX_OPS_PER_SCRIPT then err SCRIPT_ERR_OP_COUNT
     else if disabled_opcode opcode then err SCRIPT_ERR_DISABLED_OPCODE
     else ebind (inner fl) (\<lambda>st. if length (stack st) + length (altstack st) > 1000 then err SCRIPT_ERR_STACK_SIZE else Inr (pc', st)))" for fl
    by (simp add: eval_step_def g inner_def st1_def Let_def)
  have "inner f' = Inr x \<Longrightarrow> inner f = Inr x" for x
  proof (cases "False \<notin> set (vfExec st) \<and> opcode \<le> OP_PUSHDATA4")
    case True
    then show "inner f' = Inr x \<Longrightarrow> inner f = Inr x"
      using mono[of SCRIPT_VERIFY_MINIMALDATA] by (simp add: inner_def split: if_split_asm)
  next
    case False
    then have "inner fl = (if False \<notin> set (vfExec st) \<or> (OP_IF \<le> opcode \<and> opcode \<le> OP_ENDIF)
      then exec_op env checker fl sv (False \<notin> set (vfExec st)) pc' opcode st1 else Inr st1)" for fl
      unfolding inner_def by (rule if_not_P)
    then show "inner f' = Inr x \<Longrightarrow> inner f = Inr x" by (metis exec_op_mono)
  qed
  then show ?thesis using assms by (auto simp: e ebind_Inr_iff split: if_split_asm)
qed (use assms in \<open>simp add: eval_step_def\<close>)

lemma eval_loop_mono:
  "eval_loop env checker f' sv pc st = Inr st' \<Longrightarrow> eval_loop env checker f sv pc st = Inr st'"
proof (induction pc arbitrary: st rule: length_induct)
  case (1 pc)
  show ?case
  proof (cases "pc = []")
    case False
    then obtain pc1 st1 where s: "eval_step env checker f' sv pc st = Inr (pc1, st1)" "eval_loop env checker f' sv pc1 st1 = Inr st'"
      using "1.prems" by (auto simp: eval_loop_step ebind_Inr_iff)
    have "length pc1 < length pc" using s(1) by (elim eval_step_cases) (auto dest: GetOp_length)
    then show ?thesis using "1.IH" s eval_step_mono[OF s(1)] False by (auto simp: eval_loop_step)
  qed (use "1.prems" in simp)
qed

lemma EvalScript_mono:
  "EvalScript env checker f' sv script s = Inr s' \<Longrightarrow> EvalScript env checker f sv script s = Inr s'"
  by (auto simp: EvalScript_def ebind_Inr_iff split: if_splits dest: eval_loop_mono)

lemma eval_true_mono: "eval_true env checker f' script s = Inr s' \<Longrightarrow> eval_true env checker f script s = Inr s'"
  by (auto simp: eval_true_def ebind_Inr_iff split: if_splits dest: EvalScript_mono)

lemma VerifyWitnessProgram_mono:
  "VerifyWitnessProgram env checker f' witness v program = Inr u \<Longrightarrow> VerifyWitnessProgram env checker f witness v program = Inr u"
  using mono[of SCRIPT_VERIFY_DISCOURAGE_UPGRADABLE_WITNESS_PROGRAM]
  by (auto simp: VerifyWitnessProgram_def Let_def ebind_Inr_iff split: if_splits dest: EvalScript_mono)

text \<open>Without the witness flag the witness part is skipped; otherwise both rule sets do the same.\<close>

lemma verify_bare_witness_mono:
  assumes "verify_bare_witness env checker f' witness scriptSig scriptPubKey s = Inr (h', s')"
  shows "verify_bare_witness env checker f witness scriptSig scriptPubKey s = (if flag f SCRIPT_VERIFY_WITNESS then Inr (h', s') else Inr (False, s))"
  using assms mono[of SCRIPT_VERIFY_WITNESS]
  by (auto simp: verify_bare_witness_def ebind_Inr_iff split: if_splits option.splits dest: VerifyWitnessProgram_mono)

lemma verify_p2sh_mono:
  assumes "verify_p2sh env checker f' witness scriptSig c h = Inr (h', s')" "flag f SCRIPT_VERIFY_WITNESS \<longrightarrow> h0 = h"
  shows "\<exists>h'' s''. verify_p2sh env checker f witness scriptSig c h0 = Inr (h'', s'') \<and> (flag f SCRIPT_VERIFY_WITNESS \<longrightarrow> h'' = h' \<and> s'' = s')"
proof -
  obtain key s t where c: "IsPushOnly scriptSig" "c = key # s" "eval_true env checker f' key s = Inr t"
    using assms(1) by (auto simp: verify_p2sh_def ebind_Inr_iff split: if_splits list.splits)
  note e = eval_true_mono[OF c(3)]
  show ?thesis
  proof (cases "flag f SCRIPT_VERIFY_WITNESS")
    case True
    then have "flag f' SCRIPT_VERIFY_WITNESS" by (rule mono)
    then show ?thesis
      using assms True c e VerifyWitnessProgram_mono
      by (cases "IsWitnessProgram key") (auto simp: verify_p2sh_def ebind_Inr_iff split: if_splits prod.splits)
  qed (use c e in \<open>simp add: verify_p2sh_def\<close>)
qed

lemma VerifyScript_mono:
  assumes "VerifyScript env checker f' scriptSig scriptPubKey witnessPtr = Inr ()"
  shows "VerifyScript env checker f scriptSig scriptPubKey witnessPtr = Inr ()"
proof -
  let ?w = "case witnessPtr of None \<Rightarrow> [] | Some w \<Rightarrow> w"
  obtain c s hb sb h t where
    p: "flag f' SCRIPT_VERIFY_SIGPUSHONLY \<longrightarrow> IsPushOnly scriptSig" and
    c: "EvalScript env checker f' SIGVERSION_BASE scriptSig [] = Inr c" and s: "eval_true env checker f' scriptPubKey c = Inr s" and
    b: "verify_bare_witness env checker f' ?w scriptSig scriptPubKey s = Inr (hb, sb)" and
    h: "(if flag f' SCRIPT_VERIFY_P2SH \<and> IsPayToScriptHash scriptPubKey then verify_p2sh env checker f' ?w scriptSig c hb else Inr (hb, sb)) = Inr (h, t)" and
    t: "flag f' SCRIPT_VERIFY_CLEANSTACK \<longrightarrow> length t = 1" "flag f' SCRIPT_VERIFY_WITNESS \<longrightarrow> h \<or> ?w = []"
    using assms unfolding VerifyScript_Inr by blast
  have w: "flag f SCRIPT_VERIFY_WITNESS \<longrightarrow> flag f SCRIPT_VERIFY_P2SH" "flag f SCRIPT_VERIFY_CLEANSTACK \<longrightarrow> flag f SCRIPT_VERIFY_P2SH \<and> flag f SCRIPT_VERIFY_WITNESS"
    using sane by (simp_all add: flags_sane_def)
  define hb' sb' where "hb' = (flag f SCRIPT_VERIFY_WITNESS \<and> hb)" and "sb' = (if flag f SCRIPT_VERIFY_WITNESS then sb else s)"
  have b': "verify_bare_witness env checker f ?w scriptSig scriptPubKey s = Inr (hb', sb')"
    using verify_bare_witness_mono[OF b] by (simp add: hb'_def sb'_def)
  have "\<exists>h' t'. (if flag f SCRIPT_VERIFY_P2SH \<and> IsPayToScriptHash scriptPubKey then verify_p2sh env checker f ?w scriptSig c hb' else Inr (hb', sb')) = Inr (h', t') \<and>
      (flag f SCRIPT_VERIFY_WITNESS \<longrightarrow> h' = h \<and> t' = t)"
  proof (cases "flag f SCRIPT_VERIFY_P2SH \<and> IsPayToScriptHash scriptPubKey")
    case True
    then have v: "verify_p2sh env checker f' ?w scriptSig c hb = Inr (h, t)" using h mono[of SCRIPT_VERIFY_P2SH] by simp
    show ?thesis using verify_p2sh_mono[OF v, of hb'] True by (auto simp: hb'_def)
  next
    case False
    then show ?thesis using h w(1) mono[of SCRIPT_VERIFY_P2SH] by (auto simp: hb'_def sb'_def split: if_splits)
  qed
  then obtain h' t' where "(if flag f SCRIPT_VERIFY_P2SH \<and> IsPayToScriptHash scriptPubKey then verify_p2sh env checker f ?w scriptSig c hb' else Inr (hb', sb')) = Inr (h', t')"
    "flag f SCRIPT_VERIFY_WITNESS \<longrightarrow> h' = h \<and> t' = t" by blast
  then show ?thesis
    unfolding VerifyScript_Inr using EvalScript_mono[OF c] eval_true_mono[OF s] b' w t p mono by blast
qed

end

interpretation standard: softfork MANDATORY_SCRIPT_VERIFY_FLAGS STANDARD_SCRIPT_VERIFY_FLAGS
proof unfold_locales
  show "flags_le MANDATORY_SCRIPT_VERIFY_FLAGS STANDARD_SCRIPT_VERIFY_FLAGS" by code_simp
  show "nops_agree MANDATORY_SCRIPT_VERIFY_FLAGS STANDARD_SCRIPT_VERIFY_FLAGS" by code_simp
  show "flags_sane MANDATORY_SCRIPT_VERIFY_FLAGS" by code_simp
qed

section \<open>Properties\<close>

text \<open>
  C5.  Soft-fork safety: a spend that script verification accepts under a rule set it also accepts under
  every smaller rule set, provided the smaller one satisfies the assertions on flags and does not
  discourage NOPs that the larger one gives a meaning; in particular what passes the standard flags
  of the memory pool passes the mandatory flags of blocks.
\<close>

theorem VerifyScript_softfork:
  assumes "flags_le f f'" "nops_agree f f'" "flags_sane f"
    "VerifyScript env checker f' scriptSig scriptPubKey witness = Inr ()"
  shows "VerifyScript env checker f scriptSig scriptPubKey witness = Inr ()"
  using softfork.VerifyScript_mono[OF softfork.intro[OF assms(1-3)] assms(4)] .

theorem VerifyScript_softfork_witness:
  "VerifyScript demo_env demo_sigs MANDATORY_SCRIPT_VERIFY_FLAGS [0x51] [0x51, 0x88, 0x51] None = Inr ()"
proof -
  have "VerifyScript demo_env demo_sigs STANDARD_SCRIPT_VERIFY_FLAGS [0x51] [0x51, 0x88, 0x51] None = Inr ()" by code_simp
  from VerifyScript_softfork[OF standard.le standard.nops standard.sane this] show ?thesis .
qed

text \<open>The same for the rule sets of the node, through the interface.\<close>

lemma standard_implies_mandatory:
  "VerifyScript env checker STANDARD_SCRIPT_VERIFY_FLAGS scriptSig scriptPubKey witness = Inr () \<Longrightarrow>
   VerifyScript env checker MANDATORY_SCRIPT_VERIFY_FLAGS scriptSig scriptPubKey witness = Inr ()"
  by (rule standard.VerifyScript_mono)

end
