(* ===== verification/Serialize.thy ===== *)
theory Serialize
  imports Endian
begin

text \<open>
  Serialization, \<^verbatim>\<open>sige/src/serialize.h\<close>, over the byte streams of \<^verbatim>\<open>sige/src/streams.h\<close>.  Writing an
  object returns the bytes appended to the stream; reading one takes the bytes that remain and
  returns the object with the rest, or the exception thrown.
\<close>

unbundle bit_operations_syntax

section \<open>Streams\<close>

text \<open>The exceptions; \<open>AssertionFailed\<close> is the abort of a failed assertion.\<close>

datatype ser_error =
    EndOfData | NegativeSize | NonCanonicalSize | SizeTooLarge | UnknownOptionalData | AssertionFailed

type_synonym 'a reader = "bytes \<Rightarrow> ser_error + 'a \<times> bytes"

definition rbind :: "ser_error + 'a \<times> bytes \<Rightarrow> ('a \<Rightarrow> bytes \<Rightarrow> ser_error + 'b) \<Rightarrow> ser_error + 'b" where
  "rbind m f = (case m of Inl e \<Rightarrow> Inl e | Inr (x, s) \<Rightarrow> f x s)"

definition stream_read :: "nat \<Rightarrow> bytes reader" where
  "stream_read nSize s = (if nSize > length s then Inl EndOfData else Inr (take nSize s, drop nSize s))"

definition ser_writedata8 :: "u8 \<Rightarrow> bytes" where "ser_writedata8 obj = [obj]"
definition ser_writedata16 :: "u16 \<Rightarrow> bytes" where "ser_writedata16 obj = WriteLE16 obj"
definition ser_writedata32 :: "u32 \<Rightarrow> bytes" where "ser_writedata32 obj = WriteLE32 obj"
definition ser_writedata64 :: "u64 \<Rightarrow> bytes" where "ser_writedata64 obj = WriteLE64 obj"

definition ser_readdata8 :: "u8 reader" where "ser_readdata8 s = rbind (stream_read 1 s) (\<lambda>d s. Inr (hd d, s))"
definition ser_readdata16 :: "u16 reader" where "ser_readdata16 s = rbind (stream_read 2 s) (\<lambda>d s. Inr (ReadLE16 d, s))"
definition ser_readdata32 :: "u32 reader" where "ser_readdata32 s = rbind (stream_read 4 s) (\<lambda>d s. Inr (ReadLE32 d, s))"
definition ser_readdata64 :: "u64 reader" where "ser_readdata64 s = rbind (stream_read 8 s) (\<lambda>d s. Inr (ReadLE64 d, s))"

section \<open>Compact sizes\<close>

definition MAX_SIZE :: nat where "MAX_SIZE = 0x02000000"

definition GetSizeOfCompactSize :: "u64 \<Rightarrow> nat" where
  "GetSizeOfCompactSize nSize =
    (if nSize < 253 then 1 else if nSize \<le> 0xffff then 1 + 2 else if nSize \<le> 0xffffffff then 1 + 4 else 1 + 8)"

definition WriteCompactSize :: "u64 \<Rightarrow> bytes" where
  "WriteCompactSize nSize =
    (if nSize < 253 then ser_writedata8 (ucast nSize)
     else if nSize \<le> 0xffff then ser_writedata8 253 @ ser_writedata16 (ucast nSize)
     else if nSize \<le> 0xffffffff then ser_writedata8 254 @ ser_writedata32 (ucast nSize)
     else ser_writedata8 255 @ ser_writedata64 nSize)"

definition ReadCompactSize :: "u64 reader" where
  "ReadCompactSize is =
    rbind (rbind (ser_readdata8 is) (\<lambda>chSize is.
       if chSize < 253 then Inr (ucast chSize, is)
       else if chSize = 253
       then rbind (ser_readdata16 is) (\<lambda>n is. if n < 253 then Inl NonCanonicalSize else Inr (ucast n, is))
       else if chSize = 254
       then rbind (ser_readdata32 is) (\<lambda>n is. if n < 0x10000 then Inl NonCanonicalSize else Inr (ucast n, is))
       else rbind (ser_readdata64 is) (\<lambda>n is. if n < 0x100000000 then Inl NonCanonicalSize else Inr (n, is))))
     (\<lambda>nSizeRet is. if unat nSizeRet > MAX_SIZE then Inl SizeTooLarge else Inr (nSizeRet, is))"

section \<open>Variable-length integers\<close>

text \<open>The digits of the temporary array, least significant first; \<open>len\<close> says whether the digit is the last of the encoding.\<close>

function varint_tmp :: "nat \<Rightarrow> 'a::len word \<Rightarrow> bytes" where
  "varint_tmp len n =
    (let d = ucast (n AND 0x7F) OR (if len \<noteq> 0 then 0x80 else 0x00)
     in if n \<le> 0x7F then [d] else d # varint_tmp (len + 1) (drop_bit 7 n - 1))"
  by pat_completeness auto
termination
  by (relation "measure (\<lambda>(l, n). unat n)") (auto intro: varint_step_less)

declare varint_tmp.simps [simp del]

definition WriteVarInt :: "'a::len word \<Rightarrow> bytes" where
  "WriteVarInt n = rev (varint_tmp 0 n)"

function GetSizeOfVarInt :: "'a::len word \<Rightarrow> nat" where
  "GetSizeOfVarInt n = (if n \<le> 0x7F then 1 else Suc (GetSizeOfVarInt (drop_bit 7 n - 1)))"
  by pat_completeness auto
termination by (relation "measure unat") (auto intro: varint_step_less)

declare GetSizeOfVarInt.simps [simp del]

fun ReadVarInt_loop :: "'a::len word \<Rightarrow> 'a word reader" where
  "ReadVarInt_loop n [] = Inl EndOfData"
| "ReadVarInt_loop n (chData # is) =
    (let n = push_bit 7 n OR ucast (chData AND 0x7F)
     in if chData AND 0x80 \<noteq> 0 then ReadVarInt_loop (n + 1) is else Inr (n, is))"

definition ReadVarInt :: "'a::len word reader" where
  "ReadVarInt is = ReadVarInt_loop 0 is"

section \<open>Vectors\<close>

text \<open>Byte vectors are read in blocks, so that a bogus size does not allocate memory.\<close>

definition Serialize_bytes :: "bytes \<Rightarrow> bytes" where
  "Serialize_bytes v = WriteCompactSize (of_nat (length v)) @ v"

function read_blocks :: "nat \<Rightarrow> nat \<Rightarrow> bytes \<Rightarrow> bytes reader" where
  "read_blocks i nSize v is =
    (if i < nSize
     then let blk = min (nSize - i) (1 + 4999999)
          in case stream_read blk is of Inl e \<Rightarrow> Inl e | Inr (d, is) \<Rightarrow> read_blocks (i + blk) nSize (v @ d) is
     else Inr (v, is))"
  by pat_completeness auto
termination by (relation "measure (\<lambda>(i, n, v, s). n - i)") auto

declare read_blocks.simps [simp del]

definition Unserialize_bytes :: "bytes reader" where
  "Unserialize_bytes is = rbind (ReadCompactSize is) (\<lambda>nSize is. read_blocks 0 (unat nSize) [] is)"

text \<open>Other vectors are written and read element by element.\<close>

definition Serialize_vec :: "('a \<Rightarrow> bytes) \<Rightarrow> 'a list \<Rightarrow> bytes" where
  "Serialize_vec ser v = WriteCompactSize (of_nat (length v)) @ concat (map ser v)"

primrec read_items :: "'a reader \<Rightarrow> nat \<Rightarrow> 'a list reader" where
  "read_items unser 0 is = Inr ([], is)"
| "read_items unser (Suc n) is = rbind (unser is) (\<lambda>x is. rbind (read_items unser n is) (\<lambda>xs is. Inr (x # xs, is)))"

definition Unserialize_vec :: "'a reader \<Rightarrow> 'a list reader" where
  "Unserialize_vec unser is = rbind (ReadCompactSize is) (\<lambda>nSize is. read_items unser (unat nSize) is)"

section \<open>Codecs\<close>

text \<open>
  The contract of a serializable type: reading back what was written returns the object and leaves
  the rest of the stream, and the bytes a successful read has consumed are those that writing the
  object produces.  \<open>ok\<close> says which objects can be read back.
\<close>

locale codec =
  fixes ser :: "'a \<Rightarrow> bytes"
    and unser :: "'a reader"
    and ok :: "'a \<Rightarrow> bool"
  assumes unser_ser: "ok x \<Longrightarrow> unser (ser x @ r) = Inr (x, r)"
    and ser_unser: "unser s = Inr (x, r) \<Longrightarrow> ok x \<and> s = ser x @ r"
begin

lemma ser_inj: "ok x \<Longrightarrow> ok y \<Longrightarrow> ser x @ r = ser y @ r' \<Longrightarrow> x = y \<and> r = r'"
  by (metis unser_ser sum.inject(2) prod.inject)

lemma unser_iff: "unser s = Inr (x, r) \<longleftrightarrow> ok x \<and> s = ser x @ r"
  using unser_ser ser_unser by blast

lemma items_iff: "read_items unser n s = Inr (xs, r) \<longleftrightarrow> length xs = n \<and> list_all ok xs \<and> s = concat (map ser xs) @ r"
proof (induction n arbitrary: s xs)
  case (Suc n)
  show ?case
  proof (cases xs)
    case Nil
    then show ?thesis by (auto simp: rbind_def split: sum.splits)
  next
    case (Cons x ys)
    have "read_items unser (Suc n) s = Inr (xs, r) \<longleftrightarrow> (\<exists>t. unser s = Inr (x, t) \<and> read_items unser n t = Inr (ys, r))"
      by (auto simp: Cons rbind_def split: sum.splits)
    then show ?thesis using Suc by (auto simp: Cons unser_iff)
  qed
qed auto

end

lemma rbind_simps [simp]: "rbind (Inl e) f = Inl e" "rbind (Inr (x, s)) f = f x s"
  by (simp_all add: rbind_def)

lemma rbind_Inr: "rbind m f = Inr y \<longleftrightarrow> (\<exists>x s. m = Inr (x, s) \<and> f x s = Inr y)"
  by (auto simp: rbind_def split: sum.splits)

lemma stream_read_iff: "stream_read n s = Inr (d, r) \<longleftrightarrow> length d = n \<and> s = d @ r"
  by (auto simp: stream_read_def)

lemma stream_read_append [simp]: "length d = n \<Longrightarrow> stream_read n (d @ r) = Inr (d, r)"
  by (simp add: stream_read_iff)

lemma WriteLE_ReadLE:
  "length d = 2 \<Longrightarrow> WriteLE16 (ReadLE16 d) = d" "length d = 4 \<Longrightarrow> WriteLE32 (ReadLE32 d) = d"
  "length d = 8 \<Longrightarrow> WriteLE64 (ReadLE64 d) = d"
  using le_val_bound[of d] le_bytes_le_val[of d]
  by (simp_all add: ReadLE16_def WriteLE16_def ReadLE32_def WriteLE32_def ReadLE64_def WriteLE64_def unat_of_nat)

interpretation u8: codec ser_writedata8 ser_readdata8 "\<lambda>_. True"
proof
  show "ser_readdata8 (ser_writedata8 x @ r) = Inr (x, r)" for x r
    by (simp add: ser_readdata8_def ser_writedata8_def stream_read_def)
  show "True \<and> s = ser_writedata8 x @ r" if "ser_readdata8 s = Inr (x, r)" for s x r
    using that by (auto simp: ser_readdata8_def ser_writedata8_def rbind_Inr stream_read_iff length_Suc_conv)
qed

interpretation u16: codec ser_writedata16 ser_readdata16 "\<lambda>_. True"
proof
  show "ser_readdata16 (ser_writedata16 x @ r) = Inr (x, r)" for x r
    using ReadLE_WriteLE(1)[of x "[]"] by (simp add: ser_readdata16_def ser_writedata16_def)
  show "True \<and> s = ser_writedata16 x @ r" if "ser_readdata16 s = Inr (x, r)" for s x r
    using that by (auto simp: ser_readdata16_def ser_writedata16_def rbind_Inr stream_read_iff WriteLE_ReadLE)
qed

interpretation u32: codec ser_writedata32 ser_readdata32 "\<lambda>_. True"
proof
  show "ser_readdata32 (ser_writedata32 x @ r) = Inr (x, r)" for x r
    using ReadLE_WriteLE(2)[of x "[]"] by (simp add: ser_readdata32_def ser_writedata32_def)
  show "True \<and> s = ser_writedata32 x @ r" if "ser_readdata32 s = Inr (x, r)" for s x r
    using that by (auto simp: ser_readdata32_def ser_writedata32_def rbind_Inr stream_read_iff WriteLE_ReadLE)
qed

interpretation u64: codec ser_writedata64 ser_readdata64 "\<lambda>_. True"
proof
  show "ser_readdata64 (ser_writedata64 x @ r) = Inr (x, r)" for x r
    using ReadLE_WriteLE(3)[of x "[]"] by (simp add: ser_readdata64_def ser_writedata64_def)
  show "True \<and> s = ser_writedata64 x @ r" if "ser_readdata64 s = Inr (x, r)" for s x r
    using that by (auto simp: ser_readdata64_def ser_writedata64_def rbind_Inr stream_read_iff WriteLE_ReadLE)
qed

lemma unat_ucast_small: "unat (n :: 'a::len word) < 2 ^ LENGTH('b) \<Longrightarrow> unat (ucast n :: 'b::len word) = unat n"
  by (simp add: unat_ucast_mod)

lemma ucast_ucast_small:
  "unat (n :: 'a::len word) < 2 ^ LENGTH('b) \<Longrightarrow> ucast (ucast n :: 'b::len word) = n"
  by (rule word_unat_eq_iff[THEN iffD2]) (simp add: unat_ucast_mod unat_ucast_small)

lemma length_WriteCompactSize: "length (WriteCompactSize n) = GetSizeOfCompactSize n"
  by (simp add: WriteCompactSize_def GetSizeOfCompactSize_def ser_writedata8_def ser_writedata16_def ser_writedata32_def ser_writedata64_def)

lemma ReadCompactSize_Write:
  assumes "unat n \<le> MAX_SIZE"
  shows "ReadCompactSize (WriteCompactSize n @ r) = Inr (n, r)"
proof -
  consider "n < 253" | "\<not> n < 253" "n \<le> 0xffff" | "\<not> n \<le> 0xffff" "n \<le> 0xffffffff" | "\<not> n \<le> 0xffffffff" by fastforce
  then show ?thesis
  proof cases
    case 1
    then have "unat n < 253" by (simp add: word_less_nat_alt)
    then have "(ucast n :: u8) < 253" "ucast (ucast n :: u8) = n"
      by (simp_all add: word_less_nat_alt unat_ucast_small ucast_ucast_small)
    then show ?thesis using 1 assms by (simp add: ReadCompactSize_def WriteCompactSize_def u8.unser_ser)
  next
    case 2
    then have "253 \<le> unat n" "unat n < 65536" by (simp_all add: word_less_nat_alt word_le_nat_alt)
    then have "\<not> (ucast n :: u16) < 253" "ucast (ucast n :: u16) = n"
      by (simp_all add: word_less_nat_alt unat_ucast_small ucast_ucast_small)
    then show ?thesis using 2 assms by (simp add: ReadCompactSize_def WriteCompactSize_def u8.unser_ser u16.unser_ser)
  next
    case 3
    then have "65536 \<le> unat n" "unat n < 2 ^ 32" by (simp_all add: word_less_nat_alt word_le_nat_alt)
    then have "\<not> (ucast n :: u32) < 0x10000" "ucast (ucast n :: u32) = n"
      by (simp_all add: word_less_nat_alt unat_ucast_small ucast_ucast_small)
    moreover have "\<not> n < 253" using 3 by (simp add: word_less_nat_alt word_le_nat_alt)
    ultimately show ?thesis using 3 assms by (simp add: ReadCompactSize_def WriteCompactSize_def u8.unser_ser u32.unser_ser)
  next
    case 4
    then show ?thesis using assms by (simp add: word_le_nat_alt MAX_SIZE_def)
  qed
qed

lemma Write_ReadCompactSize:
  assumes "ReadCompactSize s = Inr (n, r)"
  shows "unat n \<le> MAX_SIZE \<and> s = WriteCompactSize n @ r"
proof -
  obtain ch t where ch: "s = ser_writedata8 ch @ t" and n: "unat n \<le> MAX_SIZE" and
    cases: "(if ch < 253 then Inr (ucast ch, t)
       else if ch = 253 then rbind (ser_readdata16 t) (\<lambda>n is. if n < 253 then Inl NonCanonicalSize else Inr (ucast n, is))
       else if ch = 254 then rbind (ser_readdata32 t) (\<lambda>n is. if n < 0x10000 then Inl NonCanonicalSize else Inr (ucast n, is))
       else rbind (ser_readdata64 t) (\<lambda>n is. if n < 0x100000000 then Inl NonCanonicalSize else Inr (n, is))) = Inr (n, r)"
    using assms by (auto simp: ReadCompactSize_def rbind_Inr u8.unser_iff split: if_splits)
  consider "ch < 253" | "ch = 253" | "ch = 254" | "ch = 255"
  proof -
    have "ch < 253 \<or> unat ch = 253 \<or> unat ch = 254 \<or> unat ch = 255" using unat_byte_lt[of ch] by (auto simp: word_less_nat_alt)
    then show ?thesis using that by (auto simp: word_unat_eq_iff)
  qed
  then have "s = WriteCompactSize n @ r"
  proof cases
    case 1
    then have "n = ucast ch" "t = r" "unat ch < 253" using cases by (simp_all add: word_less_nat_alt)
    moreover from this have "n < 253" "ucast n = ch" by (simp_all add: word_less_nat_alt unat_ucast_small ucast_ucast_small)
    ultimately show ?thesis by (simp add: ch WriteCompactSize_def)
  next
    case 2
    then obtain m where m: "t = ser_writedata16 m @ r" "\<not> m < 253" "n = ucast m"
      using cases by (auto simp: rbind_Inr u16.unser_iff split: if_splits)
    then have "unat n = unat m" "ucast n = m" using unat_lt_exp[of m] by (simp_all add: unat_ucast_small ucast_ucast_small)
    then show ?thesis using m(1,2) 2 unat_lt_exp[of m] by (simp add: ch WriteCompactSize_def word_less_nat_alt word_le_nat_alt)
  next
    case 3
    then obtain m where m: "t = ser_writedata32 m @ r" "\<not> m < 0x10000" "n = ucast m"
      using cases by (auto simp: rbind_Inr u32.unser_iff split: if_splits)
    then have "unat n = unat m" "ucast n = m" using unat_lt_exp[of m] by (simp_all add: unat_ucast_small ucast_ucast_small)
    then show ?thesis using m(1,2) 3 unat_lt_exp[of m] by (simp add: ch WriteCompactSize_def word_less_nat_alt word_le_nat_alt)
  next
    case 4
    then show ?thesis using cases n by (auto simp: rbind_Inr MAX_SIZE_def word_less_nat_alt split: if_splits)
  qed
  then show ?thesis using n by simp
qed

interpretation compact: codec WriteCompactSize ReadCompactSize "\<lambda>n. unat n \<le> MAX_SIZE"
  using ReadCompactSize_Write Write_ReadCompactSize by unfold_locales blast+

text \<open>Vectors of a codec form a codec.\<close>

lemma unat_of_size: "n \<le> MAX_SIZE \<Longrightarrow> unat (of_nat n :: u64) = n"
  by (simp add: unat_of_nat MAX_SIZE_def)

lemma codec_vec:
  assumes "codec ser unser ok"
  shows "codec (Serialize_vec ser) (Unserialize_vec unser) (\<lambda>v. length v \<le> MAX_SIZE \<and> list_all ok v)"
proof
  show "Unserialize_vec unser (Serialize_vec ser v @ r) = Inr (v, r)" if "length v \<le> MAX_SIZE \<and> list_all ok v" for v r
    using that codec.items_iff[OF assms, of "length v" "concat (map ser v) @ r" v r]
    by (simp add: Unserialize_vec_def Serialize_vec_def compact.unser_ser unat_of_size)
  show "(length v \<le> MAX_SIZE \<and> list_all ok v) \<and> s = Serialize_vec ser v @ r" if "Unserialize_vec unser s = Inr (v, r)" for s v r
    using that codec.items_iff[OF assms]
    by (auto simp: Unserialize_vec_def Serialize_vec_def rbind_Inr compact.unser_iff)
qed

lemma read_blocks_iff:
  "i \<le> n \<Longrightarrow> read_blocks i n v s = Inr (w, r) \<longleftrightarrow> (\<exists>d. length d = n - i \<and> w = v @ d \<and> s = d @ r)"
proof (induction i n v s rule: read_blocks.induct)
  case (1 i n v s)
  show ?case
  proof (cases "i < n")
    case True
    let ?blk = "min (n - i) (1 + 4999999)"
    show ?thesis
    proof (cases "length s < ?blk")
      case f: True
      then show ?thesis using True by (subst read_blocks.simps) (auto simp: stream_read_def)
    next
      case f: False
      have "read_blocks i n v s = read_blocks (i + ?blk) n (v @ take ?blk s) (drop ?blk s)"
        using True f by (subst read_blocks.simps) (auto simp: stream_read_def Let_def)
      also have "\<dots> = Inr (w, r) \<longleftrightarrow> (\<exists>d. length d = n - (i + ?blk) \<and> w = (v @ take ?blk s) @ d \<and> drop ?blk s = d @ r)"
        using True f by (intro "1.IH") (auto simp: stream_read_def)
      also have "\<dots> \<longleftrightarrow> (\<exists>d. length d = n - i \<and> w = v @ d \<and> s = d @ r)"
      proof safe
        fix d assume d: "length d = n - (i + ?blk)" "drop ?blk s = d @ r"
        then show "\<exists>e. length e = n - i \<and> (v @ take ?blk s) @ d = v @ e \<and> s = e @ r"
          using True f append_take_drop_id[of ?blk s] by (intro exI[of _ "take ?blk s @ d"]) auto
      next
        fix d assume d: "length d = n - i" "s = d @ r"
        then show "\<exists>e. length e = n - (i + ?blk) \<and> v @ d = (v @ take ?blk (d @ r)) @ e \<and> drop ?blk (d @ r) = e @ r"
          using True by (intro exI[of _ "drop ?blk d"]) auto
      qed
      finally show ?thesis .
    qed
  qed (use 1 in \<open>subst read_blocks.simps, auto\<close>)
qed

interpretation blob: codec Serialize_bytes Unserialize_bytes "\<lambda>v. length v \<le> MAX_SIZE"
  by unfold_locales
    (auto simp: Unserialize_bytes_def Serialize_bytes_def rbind_Inr compact.unser_ser compact.unser_iff unat_of_size read_blocks_iff)

section \<open>Variable-length integers round trip\<close>

lemma varint_digit:
  fixes n :: "'a::len word" and b :: bool
  defines "d \<equiv> ucast (n AND 0x7F) OR (if b then 0x80 else 0x00) :: u8"
  shows "ucast (d AND 0x7F) = n AND 0x7F" "d AND 0x80 \<noteq> 0 \<longleftrightarrow> b"
proof -
  have m: "(0x7F :: u8) = mask 7" "(0x7F :: 'a word) = mask 7" by (simp_all add: mask_eq_exp_minus_1)
  have e: "bit (0x80 :: u8) i \<longleftrightarrow> i = 7" for i using bit_exp_iff[of 7 i, where 'a = u8] by auto
  have bd: "bit d i \<longleftrightarrow> i < 7 \<and> bit n i \<or> b \<and> i = 7" for i
    unfolding d_def m by (auto simp: bit_or_iff bit_and_iff bit_mask_iff bit_unsigned_iff e simp del: bit_numeral_word_iff dest: bit_imp_le_length)
  show "ucast (d AND 0x7F) = n AND 0x7F"
    unfolding m by (rule bit_word_eqI) (auto simp: bit_simps bd dest: bit_imp_le_length)
  have "d AND 0x80 = (if b then 0x80 else 0)"
    by (rule bit_word_eqI) (auto simp: bit_and_iff bd e simp del: bit_numeral_word_iff)
  then show "d AND 0x80 \<noteq> 0 \<longleftrightarrow> b" by simp
qed

lemma varint_join: "push_bit 7 (drop_bit 7 n) OR (n AND 0x7F) = (n :: 'a::len word)"
proof -
  have m: "(0x7F :: 'a word) = mask 7" by (simp add: mask_eq_exp_minus_1)
  show ?thesis unfolding m by (rule bit_word_eqI) (auto simp: bit_simps)
qed

lemma varint_small: "n \<le> 0x7F \<Longrightarrow> n AND 0x7F = (n :: 'a::len word)"
proof -
  assume n: "n \<le> 0x7F"
  have m: "(0x7F :: 'a word) = mask 7" by (simp add: mask_eq_exp_minus_1)
  have "unat n < 2 ^ 7"
    using n unat_and_mask[of "- 1 :: 'a word" 7] unfolding m word_le_nat_alt
    by (metis and.left_neutral le_less_trans mod_less_divisor zero_less_numeral zero_less_power)
  then have "unat (n AND mask 7) = unat n" unfolding unat_and_mask by simp
  then show ?thesis unfolding m by (simp only: word_unat_eq_iff)
qed

lemma ReadVarInt_rev:
  "ReadVarInt_loop 0 (rev (varint_tmp len n) @ r) = (if len = 0 then Inr (n, r) else ReadVarInt_loop (n + 1) r)"
proof (induction len n arbitrary: r rule: varint_tmp.induct)
  case (1 len n)
  define d :: u8 where "d = ucast (n AND 0x7F) OR (if len \<noteq> 0 then 0x80 else 0x00)"
  have d: "ucast (d AND 0x7F) = n AND 0x7F" "d AND 0x80 \<noteq> 0 \<longleftrightarrow> len \<noteq> 0"
    unfolding d_def by (rule varint_digit)+
  show ?case
  proof (cases "n \<le> 0x7F")
    case True
    then have "varint_tmp len n = [d]" by (subst varint_tmp.simps) (simp add: Let_def d_def)
    then show ?thesis using d varint_small[OF True] by (simp add: Let_def)
  next
    case False
    then have "varint_tmp len n = d # varint_tmp (len + 1) (drop_bit 7 n - 1)" by (subst varint_tmp.simps) (simp add: Let_def d_def)
    then have "ReadVarInt_loop 0 (rev (varint_tmp len n) @ r) = ReadVarInt_loop (drop_bit 7 n) (d # r)"
      using "1.IH"[OF refl False, of "d # r"] by simp
    then show ?thesis using d varint_join[of n] by (simp add: Let_def)
  qed
qed

lemma ReadVarInt_WriteVarInt: "ReadVarInt (WriteVarInt n @ r) = Inr (n, r)"
  by (simp add: ReadVarInt_def WriteVarInt_def ReadVarInt_rev)

lemma length_varint_tmp:
  "unat n < 2 ^ (7 * Suc k) \<Longrightarrow> length (varint_tmp len n) \<le> Suc k"
proof (induction len n arbitrary: k rule: varint_tmp.induct)
  case (1 len n)
  show ?case
  proof (cases "n \<le> 0x7F")
    case False
    note step = varint_step[OF False]
    then obtain j where j: "k = Suc j" using "1.prems" by (cases k) auto
    then have "unat n div 128 < 2 ^ (7 * Suc j)" using "1.prems" by (simp add: less_mult_imp_div_less power_add)
    then have "length (varint_tmp (len + 1) (drop_bit 7 n - 1)) \<le> Suc j"
      using step by (intro "1.IH"[OF refl False]) simp
    then show ?thesis using False j by (subst varint_tmp.simps) (simp add: Let_def)
  qed (subst varint_tmp.simps, simp add: Let_def)
qed

lemma length_varint_size: "length (varint_tmp len n) = GetSizeOfVarInt n"
proof (induction len n rule: varint_tmp.induct)
  case (1 len n)
  show ?case
  proof (cases "n \<le> 0x7F")
    case False
    then show ?thesis using "1.IH"[OF refl False]
      by (subst varint_tmp.simps, subst GetSizeOfVarInt.simps) (simp add: Let_def)
  qed (subst varint_tmp.simps, subst GetSizeOfVarInt.simps, simp add: Let_def)
qed

text \<open>
  Variable-length integers of every unsigned type are read back as written, whatever follows
  them in the stream; the size computed without writing is the size written; and the digits fit the
  temporary array of the writer.
\<close>

theorem varint_round_trip:
  fixes n :: "'a::len word"
  shows "ReadVarInt (WriteVarInt n @ r) = Inr (n, r) \<and> GetSizeOfVarInt n = length (WriteVarInt n) \<and>
    length (WriteVarInt n) \<le> (LENGTH('a) + 6) div 7"
proof -
  obtain l where l: "LENGTH('a) = Suc l" by (cases "LENGTH('a)") auto
  have "LENGTH('a) \<le> 7 * Suc (l div 7)" unfolding l by presburger
  then have "(2 :: nat) ^ LENGTH('a) \<le> 2 ^ (7 * Suc (l div 7))" by (intro power_increasing) auto
  then have "unat n < 2 ^ (7 * Suc (l div 7))" using unat_lt_exp[of n] by linarith
  then have "length (WriteVarInt n) \<le> Suc (l div 7)" unfolding WriteVarInt_def length_rev by (rule length_varint_tmp)
  moreover have "(LENGTH('a) + 6) div 7 = Suc (l div 7)" unfolding l by presburger
  ultimately show ?thesis using ReadVarInt_WriteVarInt[of n r] length_varint_size[of 0 n] by (simp add: WriteVarInt_def)
qed

text \<open>
  The reader does not check for overflow, so unlike the comment on the encoding says an integer of a
  fixed width has several encodings: here is a second one of zero, of eleven bytes.
\<close>

lemma varint_not_unique:
  "ReadVarInt [0x80, 0xFE, 0xFE, 0xFE, 0xFE, 0xFE, 0xFE, 0xFE, 0xFE, 0xFF, 0x00] = Inr (0 :: u64, []) \<and>
   WriteVarInt (0 :: u64) = [0x00]"
  by code_simp

end
