(* ===== verification/Transaction.thy ===== *)
theory Transaction
  imports Serialize Interpreter_Limits
begin

text \<open>
  Transactions, \<^verbatim>\<open>sige/src/primitives/transaction.h\<close> and \<^verbatim>\<open>.cpp\<close>, with their two serialization formats,
  and amounts, \<^verbatim>\<open>sige/src/amount.h\<close>.  Hashes are their 32 bytes; signed integers are words of their
  width read with \<open>sint\<close>.
\<close>

section \<open>Amounts\<close>

type_synonym CAmount = u64

definition COIN :: int where "COIN = 100000000"
definition MAX_MONEY :: int where "MAX_MONEY = 84000000 * COIN"

definition MoneyRange :: "CAmount \<Rightarrow> bool" where
  "MoneyRange nValue \<longleftrightarrow> sint nValue \<ge> 0 \<and> sint nValue \<le> MAX_MONEY"

section \<open>Inputs, outputs and transactions\<close>

record COutPoint =
  po_hash :: bytes
  po_n :: u32

record CTxIn =
  in_prevout :: COutPoint
  in_scriptSig :: CScript
  in_nSequence :: u32
  in_scriptWitness :: CScriptWitness

record CTxOut =
  out_nValue :: CAmount
  out_scriptPubKey :: CScript

record CTransaction =
  tx_nVersion :: u32
  tx_vin :: "CTxIn list"
  tx_vout :: "CTxOut list"
  tx_nLockTime :: u32

definition COutPoint_IsNull :: "COutPoint \<Rightarrow> bool" where
  "COutPoint_IsNull po \<longleftrightarrow> list_all (\<lambda>b. b = 0) (po_hash po) \<and> po_n po = - 1"

definition SEQUENCE_FINAL :: u32 where "SEQUENCE_FINAL = 0xffffffff"
definition SEQUENCE_LOCKTIME_TYPE_FLAG :: int where "SEQUENCE_LOCKTIME_TYPE_FLAG = 2 ^ 22"
definition SEQUENCE_LOCKTIME_MASK :: int where "SEQUENCE_LOCKTIME_MASK = 0x0000ffff"
definition SEQUENCE_LOCKTIME_GRANULARITY :: nat where "SEQUENCE_LOCKTIME_GRANULARITY = 9"

definition CTxOut_SetNull :: CTxOut where
  "CTxOut_SetNull = \<lparr>out_nValue = - 1, out_scriptPubKey = []\<rparr>"

definition HasWitness :: "CTransaction \<Rightarrow> bool" where
  "HasWitness tx \<longleftrightarrow> \<not> list_all (\<lambda>i. in_scriptWitness i = []) (tx_vin tx)"

definition IsCoinBase :: "CTransaction \<Rightarrow> bool" where
  "IsCoinBase tx \<longleftrightarrow> length (tx_vin tx) = 1 \<and> COutPoint_IsNull (in_prevout (hd (tx_vin tx)))"

section \<open>Serialization\<close>

definition Serialize_COutPoint :: "COutPoint \<Rightarrow> bytes" where
  "Serialize_COutPoint po = po_hash po @ ser_writedata32 (po_n po)"

definition Unserialize_COutPoint :: "COutPoint reader" where
  "Unserialize_COutPoint s =
    rbind (stream_read 32 s) (\<lambda>h s. rbind (ser_readdata32 s) (\<lambda>n s. Inr (\<lparr>po_hash = h, po_n = n\<rparr>, s)))"

definition Serialize_CTxIn :: "CTxIn \<Rightarrow> bytes" where
  "Serialize_CTxIn i = Serialize_COutPoint (in_prevout i) @ Serialize_bytes (in_scriptSig i) @ ser_writedata32 (in_nSequence i)"

definition Unserialize_CTxIn :: "CTxIn reader" where
  "Unserialize_CTxIn s =
    rbind (Unserialize_COutPoint s) (\<lambda>po s. rbind (Unserialize_bytes s) (\<lambda>c s. rbind (ser_readdata32 s)
      (\<lambda>q s. Inr (\<lparr>in_prevout = po, in_scriptSig = c, in_nSequence = q, in_scriptWitness = []\<rparr>, s))))"

definition Serialize_CTxOut :: "CTxOut \<Rightarrow> bytes" where
  "Serialize_CTxOut out = ser_writedata64 (out_nValue out) @ Serialize_bytes (out_scriptPubKey out)"

definition Unserialize_CTxOut :: "CTxOut reader" where
  "Unserialize_CTxOut s =
    rbind (ser_readdata64 s) (\<lambda>v s. rbind (Unserialize_bytes s) (\<lambda>c s. Inr (\<lparr>out_nValue = v, out_scriptPubKey = c\<rparr>, s)))"

primrec read_witnesses :: "CTxIn list \<Rightarrow> CTxIn list reader" where
  "read_witnesses [] s = Inr ([], s)"
| "read_witnesses (i # vin) s =
    rbind (Unserialize_vec Unserialize_bytes s)
      (\<lambda>w s. rbind (read_witnesses vin s) (\<lambda>vin s. Inr (i\<lparr>in_scriptWitness := w\<rparr> # vin, s)))"

definition UnserializeTransaction :: "bool \<Rightarrow> CTransaction reader" where
  "UnserializeTransaction fAllowWitness s =
    rbind (ser_readdata32 s) (\<lambda>nVersion s.
    rbind (Unserialize_vec Unserialize_CTxIn s) (\<lambda>vin s.
    rbind (if vin = [] \<and> fAllowWitness
           then rbind (ser_readdata8 s) (\<lambda>flags s.
                  if flags \<noteq> 0
                  then rbind (Unserialize_vec Unserialize_CTxIn s) (\<lambda>vin s.
                       rbind (Unserialize_vec Unserialize_CTxOut s) (\<lambda>vout s. Inr ((flags, vin, vout), s)))
                  else Inr ((flags, vin, []), s))
           else rbind (Unserialize_vec Unserialize_CTxOut s) (\<lambda>vout s. Inr ((0, vin, vout), s))) (\<lambda>(flags, vin, vout) s.
    rbind (if flags AND 1 \<noteq> 0 \<and> fAllowWitness
           then rbind (read_witnesses vin s) (\<lambda>vin s. Inr ((flags XOR 1, vin), s))
           else Inr ((flags, vin), s)) (\<lambda>(flags, vin) s.
    if flags \<noteq> 0 then Inl UnknownOptionalData
    else rbind (ser_readdata32 s) (\<lambda>nLockTime s.
      Inr (\<lparr>tx_nVersion = nVersion, tx_vin = vin, tx_vout = vout, tx_nLockTime = nLockTime\<rparr>, s))))))"

definition SerializeTransaction :: "bool \<Rightarrow> CTransaction \<Rightarrow> bytes" where
  "SerializeTransaction fAllowWitness tx =
    (let flags = (if fAllowWitness \<and> HasWitness tx then 1 else 0) :: u8
     in ser_writedata32 (tx_nVersion tx) @
        (if flags \<noteq> 0 then Serialize_vec Serialize_CTxIn [] @ ser_writedata8 flags else []) @
        Serialize_vec Serialize_CTxIn (tx_vin tx) @ Serialize_vec Serialize_CTxOut (tx_vout tx) @
        (if flags AND 1 \<noteq> 0 then concat (map (Serialize_vec Serialize_bytes \<circ> in_scriptWitness) (tx_vin tx)) else []) @
        ser_writedata32 (tx_nLockTime tx))"

section \<open>Hashes, sizes and values\<close>

definition GetHash :: "script_env \<Rightarrow> CTransaction \<Rightarrow> bytes" where
  "GetHash env tx = CHash256 env (SerializeTransaction False tx)"

definition GetWitnessHash :: "script_env \<Rightarrow> CTransaction \<Rightarrow> bytes" where
  "GetWitnessHash env tx = CHash256 env (SerializeTransaction True tx)"

definition WITNESS_SCALE_FACTOR :: nat where "WITNESS_SCALE_FACTOR = 4"

definition GetTotalSize :: "CTransaction \<Rightarrow> nat" where
  "GetTotalSize tx = length (SerializeTransaction True tx)"

definition GetTransactionWeight :: "CTransaction \<Rightarrow> nat" where
  "GetTransactionWeight tx =
    length (SerializeTransaction False tx) * (WITNESS_SCALE_FACTOR - 1) + length (SerializeTransaction True tx)"

text \<open>The sum of the outputs; \<open>None\<close> is the exception for values out of range.\<close>

primrec add_values :: "CTxOut list \<Rightarrow> CAmount \<Rightarrow> CAmount option" where
  "add_values [] nValueOut = Some nValueOut"
| "add_values (out # vout) nValueOut =
    (let nValueOut = nValueOut + out_nValue out
     in if \<not> MoneyRange (out_nValue out) \<or> \<not> MoneyRange nValueOut then None else add_values vout nValueOut)"

definition GetValueOut :: "CTransaction \<Rightarrow> CAmount option" where
  "GetValueOut tx = add_values (tx_vout tx) 0"

definition modified_size :: "u32 \<Rightarrow> CTxIn \<Rightarrow> u32" where
  "modified_size nTxSize i =
    (let offset = 41 + min 110 (of_nat (length (in_scriptSig i))) in if nTxSize > offset then nTxSize - offset else nTxSize)"

definition CalculateModifiedSize :: "CTransaction \<Rightarrow> u32 \<Rightarrow> u32" where
  "CalculateModifiedSize tx nTxSize =
    foldl modified_size
      (if nTxSize = 0 then of_nat ((GetTransactionWeight tx + WITNESS_SCALE_FACTOR - 1) div WITNESS_SCALE_FACTOR) else nTxSize)
      (tx_vin tx)"

text \<open>The transaction without its witnesses, and the transactions whose parts are within the size limits of the readers.\<close>

definition clear_witness :: "CTxIn \<Rightarrow> CTxIn" where
  "clear_witness i = i\<lparr>in_scriptWitness := []\<rparr>"

definition strip_witness :: "CTransaction \<Rightarrow> CTransaction" where
  "strip_witness tx = tx\<lparr>tx_vin := map clear_witness (tx_vin tx)\<rparr>"

definition outpoint_ok :: "COutPoint \<Rightarrow> bool" where "outpoint_ok po \<longleftrightarrow> length (po_hash po) = 32"

definition txin_ok :: "CTxIn \<Rightarrow> bool" where
  "txin_ok i \<longleftrightarrow> outpoint_ok (in_prevout i) \<and> length (in_scriptSig i) \<le> MAX_SIZE"

definition witness_ok :: "CTxIn \<Rightarrow> bool" where
  "witness_ok i \<longleftrightarrow> length (in_scriptWitness i) \<le> MAX_SIZE \<and> list_all (\<lambda>v. length v \<le> MAX_SIZE) (in_scriptWitness i)"

definition txout_ok :: "CTxOut \<Rightarrow> bool" where "txout_ok out \<longleftrightarrow> length (out_scriptPubKey out) \<le> MAX_SIZE"

definition tx_ok :: "CTransaction \<Rightarrow> bool" where
  "tx_ok tx \<longleftrightarrow> length (tx_vin tx) \<le> MAX_SIZE \<and> list_all txin_ok (tx_vin tx) \<and> list_all witness_ok (tx_vin tx) \<and>
    length (tx_vout tx) \<le> MAX_SIZE \<and> list_all txout_ok (tx_vout tx)"

text \<open>The format with the witness marker, as the comment in the header describes it.\<close>

definition SerializeExtended :: "CTransaction \<Rightarrow> bytes" where
  "SerializeExtended tx =
    ser_writedata32 (tx_nVersion tx) @ [0, 1] @ Serialize_vec Serialize_CTxIn (tx_vin tx) @
    Serialize_vec Serialize_CTxOut (tx_vout tx) @ concat (map (Serialize_vec Serialize_bytes \<circ> in_scriptWitness) (tx_vin tx)) @
    ser_writedata32 (tx_nLockTime tx)"

definition demo_tx :: CTransaction where
  "demo_tx = \<lparr>tx_nVersion = 2,
    tx_vin = [\<lparr>in_prevout = \<lparr>po_hash = replicate 32 7, po_n = 1\<rparr>, in_scriptSig = [0x51], in_nSequence = 10, in_scriptWitness = [[1, 2], []]\<rparr>],
    tx_vout = [\<lparr>out_nValue = 60, out_scriptPubKey = [0x6a]\<rparr>], tx_nLockTime = 50\<rparr>"

section \<open>Codecs of the parts\<close>

interpretation outpoint: codec Serialize_COutPoint Unserialize_COutPoint outpoint_ok
  by unfold_locales
    (auto simp: Serialize_COutPoint_def Unserialize_COutPoint_def outpoint_ok_def rbind_Inr stream_read_iff u32.unser_ser u32.unser_iff)

interpretation txin: codec Serialize_CTxIn Unserialize_CTxIn "\<lambda>i. txin_ok i \<and> in_scriptWitness i = []"
  by unfold_locales
    (auto simp: Serialize_CTxIn_def Unserialize_CTxIn_def txin_ok_def rbind_Inr outpoint.unser_ser outpoint.unser_iff
      blob.unser_ser blob.unser_iff u32.unser_ser u32.unser_iff)

interpretation txout: codec Serialize_CTxOut Unserialize_CTxOut txout_ok
  by unfold_locales
    (auto simp: Serialize_CTxOut_def Unserialize_CTxOut_def txout_ok_def rbind_Inr blob.unser_ser blob.unser_iff u64.unser_ser u64.unser_iff)

interpretation vins: codec "Serialize_vec Serialize_CTxIn" "Unserialize_vec Unserialize_CTxIn"
  "\<lambda>v. length v \<le> MAX_SIZE \<and> list_all (\<lambda>i. txin_ok i \<and> in_scriptWitness i = []) v"
  by (rule codec_vec) (rule txin.codec_axioms)

interpretation vouts: codec "Serialize_vec Serialize_CTxOut" "Unserialize_vec Unserialize_CTxOut"
  "\<lambda>v. length v \<le> MAX_SIZE \<and> list_all txout_ok v"
  by (rule codec_vec) (rule txout.codec_axioms)

interpretation stacks: codec "Serialize_vec Serialize_bytes" "Unserialize_vec Unserialize_bytes"
  "\<lambda>v. length v \<le> MAX_SIZE \<and> list_all (\<lambda>v. length v \<le> MAX_SIZE) v"
  by (rule codec_vec) (rule blob.codec_axioms)

section \<open>The two formats\<close>

lemma clear_witness_simps [simp]:
  "in_prevout (clear_witness i) = in_prevout i" "in_scriptSig (clear_witness i) = in_scriptSig i"
  "in_nSequence (clear_witness i) = in_nSequence i" "in_scriptWitness (clear_witness i) = []"
  "in_scriptWitness i = [] \<Longrightarrow> clear_witness i = i" "txin_ok (clear_witness i) = txin_ok i"
  "Serialize_CTxIn (clear_witness i) = Serialize_CTxIn i" "clear_witness (clear_witness i) = clear_witness i"
  by (simp_all add: clear_witness_def txin_ok_def Serialize_CTxIn_def)

lemma Serialize_vec_clear [simp]: "Serialize_vec Serialize_CTxIn (map clear_witness vin) = Serialize_vec Serialize_CTxIn vin"
  by (simp add: Serialize_vec_def comp_def)

lemma set_witness_iff:
  "in_scriptWitness i = [] \<Longrightarrow> j = i\<lparr>in_scriptWitness := w\<rparr> \<longleftrightarrow> i = clear_witness j \<and> in_scriptWitness j = w"
  by (cases i; cases j) (auto simp: clear_witness_def)

lemma read_witnesses_iff:
  assumes "list_all (\<lambda>i. in_scriptWitness i = []) vin"
  shows "read_witnesses vin s = Inr (vin', r) \<longleftrightarrow>
    vin = map clear_witness vin' \<and> list_all witness_ok vin' \<and> s = concat (map (Serialize_vec Serialize_bytes \<circ> in_scriptWitness) vin') @ r"
  using assms
proof (induction vin arbitrary: s vin')
  case (Cons i vin)
  have "read_witnesses (i # vin) s = Inr (vin', r) \<longleftrightarrow>
    (\<exists>w vs t. vin' = i\<lparr>in_scriptWitness := w\<rparr> # vs \<and> length w \<le> MAX_SIZE \<and> list_all (\<lambda>v. length v \<le> MAX_SIZE) w \<and>
      s = Serialize_vec Serialize_bytes w @ t \<and> read_witnesses vin t = Inr (vs, r))"
    by (auto simp: rbind_Inr stacks.unser_iff)
  also have "\<dots> \<longleftrightarrow> (\<exists>j vs t. vin' = j # vs \<and> i = clear_witness j \<and> witness_ok j \<and>
      s = Serialize_vec Serialize_bytes (in_scriptWitness j) @ t \<and> read_witnesses vin t = Inr (vs, r))"
    using Cons.prems set_witness_iff[of i] by (auto simp: witness_ok_def)
  also have "\<dots> \<longleftrightarrow> i # vin = map clear_witness vin' \<and> list_all witness_ok vin' \<and>
      s = concat (map (Serialize_vec Serialize_bytes \<circ> in_scriptWitness) vin') @ r"
    using Cons.prems Cons.IH by (cases vin') (auto simp: comp_def)
  finally show ?case .
qed auto

lemma Serialize_vec_Nil: "Serialize_vec ser [] = [0]"
  by (simp add: Serialize_vec_def WriteCompactSize_def ser_writedata8_def)

lemma SerializeTransaction_forms:
  "SerializeTransaction True tx = (if HasWitness tx then SerializeExtended tx else SerializeTransaction False tx)"
  "SerializeTransaction False tx = ser_writedata32 (tx_nVersion tx) @ Serialize_vec Serialize_CTxIn (tx_vin tx) @
    Serialize_vec Serialize_CTxOut (tx_vout tx) @ ser_writedata32 (tx_nLockTime tx)"
  by (simp_all add: SerializeTransaction_def SerializeExtended_def Serialize_vec_Nil ser_writedata8_def)

lemma no_witness_iff: "\<not> HasWitness tx \<longleftrightarrow> list_all (\<lambda>i. in_scriptWitness i = []) (tx_vin tx)"
  by (simp add: HasWitness_def)

lemma tx_ok_no_witness:
  "list_all (\<lambda>i. in_scriptWitness i = []) vin \<Longrightarrow> list_all witness_ok vin"
  by (auto simp: list_all_iff witness_ok_def)

lemma Unserialize_no_witness_iff:
  "UnserializeTransaction False s = Inr (tx, r) \<longleftrightarrow> tx_ok tx \<and> \<not> HasWitness tx \<and> s = SerializeTransaction False tx @ r"
  unfolding UnserializeTransaction_def
  by (cases tx) (auto simp: rbind_Inr u32.unser_iff vins.unser_iff vouts.unser_iff SerializeTransaction_forms tx_ok_def no_witness_iff
      list_all_iff witness_ok_def)

lemma flag_xor: "(f :: u8) XOR 1 = 0 \<longleftrightarrow> f = 1"
proof
  assume "f XOR 1 = 0"
  moreover have "(f XOR 1) XOR 1 = f" unfolding xor.assoc by simp
  ultimately show "f = 1" by simp
qed simp

lemma ser_readdata8_Cons [simp]: "ser_readdata8 (b # s) = Inr (b, s)"
  using u8.unser_ser[of b s] by (simp add: ser_writedata8_def)

lemma Unserialize_witness_forward:
  assumes "UnserializeTransaction True s = Inr (tx, r)"
  shows "tx_ok tx \<and> (s = SerializeExtended tx @ r \<or>
    \<not> HasWitness tx \<and> (tx_vin tx \<noteq> [] \<or> tx_vout tx = []) \<and> s = SerializeTransaction False tx @ r)"
proof -
  obtain v t1 vin1 t2 where v: "s = ser_writedata32 v @ Serialize_vec Serialize_CTxIn vin1 @ t2"
    "length vin1 \<le> MAX_SIZE" "list_all (\<lambda>i. txin_ok i \<and> in_scriptWitness i = []) vin1" and
    t2: "rbind (if vin1 = [] then rbind (ser_readdata8 t2) (\<lambda>flags s.
                  if flags \<noteq> 0
                  then rbind (Unserialize_vec Unserialize_CTxIn s) (\<lambda>vin s.
                       rbind (Unserialize_vec Unserialize_CTxOut s) (\<lambda>vout s. Inr ((flags, vin, vout), s)))
                  else Inr ((flags, vin1, []), s))
           else rbind (Unserialize_vec Unserialize_CTxOut t2) (\<lambda>vout s. Inr ((0, vin1, vout), s))) (\<lambda>(flags, vin, vout) s.
    rbind (if flags AND 1 \<noteq> 0
           then rbind (read_witnesses vin s) (\<lambda>vin s. Inr ((flags XOR 1, vin), s))
           else Inr ((flags, vin), s)) (\<lambda>(flags, vin) s.
    if flags \<noteq> 0 then Inl UnknownOptionalData
    else rbind (ser_readdata32 s) (\<lambda>nLockTime s.
      Inr (\<lparr>tx_nVersion = v, tx_vin = vin, tx_vout = vout, tx_nLockTime = nLockTime\<rparr>, s)))) = Inr (tx, r)"
    using assms unfolding UnserializeTransaction_def rbind_Inr[of "ser_readdata32 s"] u32.unser_iff
    by (auto simp: rbind_Inr[of "Unserialize_vec Unserialize_CTxIn s" for s] vins.unser_iff)
  consider "vin1 = []" | "vin1 \<noteq> []" by blast
  then show ?thesis
  proof cases
    case 1
    then obtain f t3 where f: "t2 = f # t3" using t2 by (auto simp: rbind_Inr u8.unser_iff ser_writedata8_def)
    show ?thesis
    proof (cases "f = 0")
      case True
      then show ?thesis using 1 t2 v(1)
        by (auto simp: f rbind_Inr u32.unser_iff
            SerializeTransaction_forms Serialize_vec_Nil tx_ok_def no_witness_iff MAX_SIZE_def)
    next
      case False
      then show ?thesis using 1 t2 v(1)
        by (auto simp: f rbind_Inr u32.unser_iff vins.unser_iff vouts.unser_iff
            read_witnesses_iff list_all_iff flag_xor SerializeExtended_def Serialize_vec_Nil tx_ok_def split: if_splits)
    qed
  next
    case 2
    then show ?thesis using t2 v
      by (auto simp: rbind_Inr u32.unser_iff vouts.unser_iff SerializeTransaction_forms tx_ok_def no_witness_iff list_all_iff witness_ok_def)
  qed
qed

lemma tx_ok_parts:
  assumes "tx_ok tx"
  shows "length (map clear_witness (tx_vin tx)) \<le> MAX_SIZE \<and>
      list_all (\<lambda>i. txin_ok i \<and> in_scriptWitness i = []) (map clear_witness (tx_vin tx))"
    "length (tx_vout tx) \<le> MAX_SIZE \<and> list_all txout_ok (tx_vout tx)"
  using assms by (auto simp: tx_ok_def list_all_iff)

lemma read_vin: "tx_ok tx \<Longrightarrow> Unserialize_vec Unserialize_CTxIn (Serialize_vec Serialize_CTxIn (tx_vin tx) @ r) = Inr (map clear_witness (tx_vin tx), r)"
  using vins.unser_ser[OF tx_ok_parts(1), of tx r] by simp

lemma read_vout: "tx_ok tx \<Longrightarrow> Unserialize_vec Unserialize_CTxOut (Serialize_vec Serialize_CTxOut (tx_vout tx) @ r) = Inr (tx_vout tx, r)"
  by (rule vouts.unser_ser) (rule tx_ok_parts(2))

lemma map_clear_idem: "list_all (\<lambda>i. in_scriptWitness i = []) vin \<Longrightarrow> map clear_witness vin = vin"
  by (simp add: list_all_iff map_idI)

lemma Unserialize_extended:
  assumes "tx_ok tx"
  shows "UnserializeTransaction True (SerializeExtended tx @ r) = Inr (tx, r)"
proof -
  have e: "Unserialize_vec Unserialize_CTxIn (0 # t) = Inr ([], t)" for t
    using vins.unser_ser[of "[]" t] by (simp add: Serialize_vec_Nil)
  have "read_witnesses (map clear_witness (tx_vin tx)) (concat (map (Serialize_vec Serialize_bytes \<circ> in_scriptWitness) (tx_vin tx)) @ t) = Inr (tx_vin tx, t)" for t
    using assms by (subst read_witnesses_iff) (auto simp: list_all_iff tx_ok_def)
  then show ?thesis using assms
    by (simp add: UnserializeTransaction_def SerializeExtended_def u32.unser_ser e read_vin read_vout)
qed

lemma Unserialize_basic:
  assumes "tx_ok tx" "tx_vin tx \<noteq> [] \<or> tx_vout tx = []"
  shows "UnserializeTransaction True (SerializeTransaction False tx @ r) = Inr (strip_witness tx, r)"
proof (cases "tx_vin tx = []")
  case True
  have e: "Unserialize_vec Unserialize_CTxIn (0 # t) = Inr ([], t)" for t
    using vins.unser_ser[of "[]" t] by (simp add: Serialize_vec_Nil)
  show ?thesis using assms True
    by (simp add: UnserializeTransaction_def SerializeTransaction_forms Serialize_vec_Nil u32.unser_ser e strip_witness_def)
qed (simp add: UnserializeTransaction_def SerializeTransaction_forms u32.unser_ser read_vin read_vout assms strip_witness_def)

lemma Unserialize_witness_iff:
  "UnserializeTransaction True s = Inr (tx, r) \<longleftrightarrow>
    tx_ok tx \<and> (s = SerializeExtended tx @ r \<or>
      \<not> HasWitness tx \<and> (tx_vin tx \<noteq> [] \<or> tx_vout tx = []) \<and> s = SerializeTransaction False tx @ r)"
proof
  assume "tx_ok tx \<and> (s = SerializeExtended tx @ r \<or>
      \<not> HasWitness tx \<and> (tx_vin tx \<noteq> [] \<or> tx_vout tx = []) \<and> s = SerializeTransaction False tx @ r)"
  moreover have "strip_witness tx = tx" if "\<not> HasWitness tx"
    using that by (simp add: strip_witness_def no_witness_iff map_clear_idem)
  ultimately show "UnserializeTransaction True s = Inr (tx, r)"
    using Unserialize_extended[of tx r] Unserialize_basic[of tx r] by auto
qed (rule Unserialize_witness_forward)

lemma Serialize_strip: "SerializeTransaction False (strip_witness tx) = SerializeTransaction False tx"
  by (simp add: SerializeTransaction_forms strip_witness_def)

lemma strip_ok: "tx_ok tx \<Longrightarrow> tx_ok (strip_witness tx) \<and> \<not> HasWitness (strip_witness tx)"
  by (auto simp: tx_ok_def strip_witness_def HasWitness_def list_all_iff witness_ok_def)

lemma Serialize_inj:
  assumes "tx_ok tx" "tx_ok tx'" "SerializeTransaction False tx = SerializeTransaction False tx'"
  shows "strip_witness tx = strip_witness tx'"
proof -
  have "UnserializeTransaction False (SerializeTransaction False tx) = Inr (strip_witness tx, [])" if "tx_ok tx" for tx
    using that by (simp add: Unserialize_no_witness_iff strip_ok Serialize_strip)
  from this[OF assms(1)] this[OF assms(2)] show ?thesis by (simp add: assms(3))
qed

text \<open>
  C9. The transaction formats.  The reader accepts exactly the two documented formats: with witnesses
  allowed, the bytes are the extended form of the transaction, or its basic form when it has no
  witness and its inputs are not empty, or both lists are; without witnesses, only the basic form of
  a transaction without witnesses.  What the writer produces is read back as the transaction, less
  its witnesses when they are not written, except for a transaction with outputs and no inputs,
  whose bytes the reader takes for the extended form.
\<close>

theorem transaction_formats:
  "(UnserializeTransaction True s = Inr (tx, r) \<longleftrightarrow>
      tx_ok tx \<and> (s = SerializeExtended tx @ r \<or>
        \<not> HasWitness tx \<and> (tx_vin tx \<noteq> [] \<or> tx_vout tx = []) \<and> s = SerializeTransaction False tx @ r)) \<and>
   (UnserializeTransaction False s = Inr (tx, r) \<longleftrightarrow> tx_ok tx \<and> \<not> HasWitness tx \<and> s = SerializeTransaction False tx @ r) \<and>
   (tx_ok tx \<longrightarrow> UnserializeTransaction False (SerializeTransaction False tx @ r) = Inr (strip_witness tx, r)) \<and>
   (tx_ok tx \<and> (tx_vin tx \<noteq> [] \<or> tx_vout tx = []) \<longrightarrow> UnserializeTransaction True (SerializeTransaction True tx @ r) = Inr (tx, r))"
proof -
  have "UnserializeTransaction False (SerializeTransaction False tx @ r) = Inr (strip_witness tx, r)" if "tx_ok tx"
    using that by (simp add: Unserialize_no_witness_iff strip_ok Serialize_strip)
  moreover have "UnserializeTransaction True (SerializeTransaction True tx @ r) = Inr (tx, r)"
    if "tx_ok tx \<and> (tx_vin tx \<noteq> [] \<or> tx_vout tx = [])"
    using that by (simp add: Unserialize_witness_iff SerializeTransaction_forms)
  ultimately show ?thesis using Unserialize_witness_iff Unserialize_no_witness_iff by blast
qed

theorem transaction_formats_witness:
  "tx_ok demo_tx \<and> HasWitness demo_tx \<and> tx_vin demo_tx \<noteq> [] \<and>
   UnserializeTransaction True (SerializeTransaction True demo_tx @ [9]) = Inr (demo_tx, [9])"
proof -
  have "tx_ok demo_tx" "HasWitness demo_tx" "tx_vin demo_tx \<noteq> []"
    by (simp_all add: tx_ok_def demo_tx_def txin_ok_def outpoint_ok_def witness_ok_def txout_ok_def HasWitness_def MAX_SIZE_def)
  then show ?thesis using transaction_formats[of _ demo_tx "[9]"] by blast
qed

section \<open>Identifiers, values and weights\<close>

text \<open>
  The identifier of a transaction ignores witnesses, and otherwise determines it unless the hash
  function collides on the two serializations.
\<close>

lemma GetHash_strip: "GetHash env (strip_witness tx) = GetHash env tx"
  by (simp add: GetHash_def Serialize_strip)

lemma GetHash_inj:
  assumes "tx_ok tx" "tx_ok tx'" "inj_on (CHash256 env) {SerializeTransaction False tx, SerializeTransaction False tx'}"
    "GetHash env tx = GetHash env tx'"
  shows "strip_witness tx = strip_witness tx'"
proof (rule Serialize_inj[OF assms(1,2)])
  show "SerializeTransaction False tx = SerializeTransaction False tx'"
    using inj_onD[OF assms(3)] assms(4) unfolding GetHash_def by blast
qed

lemma MoneyRange_add:
  assumes "MoneyRange a" "MoneyRange b"
  shows "sint (a + b) = sint a + sint b"
proof -
  have "signed_take_bit 63 (sint a + sint b) = sint a + sint b"
    using assms by (intro signed_take_bit_int_eq_self) (simp_all add: MoneyRange_def MAX_MONEY_def COIN_def)
  then show ?thesis by (simp add: sint_word_ariths(1))
qed

lemma add_values_iff:
  "MoneyRange acc \<Longrightarrow> add_values vout acc = Some v \<longleftrightarrow>
    list_all (\<lambda>t. MoneyRange (out_nValue t)) vout \<and> sint acc + (\<Sum>t\<leftarrow>vout. sint (out_nValue t)) \<le> MAX_MONEY \<and>
    sint v = sint acc + (\<Sum>t\<leftarrow>vout. sint (out_nValue t))"
proof (induction vout arbitrary: acc)
  case Nil
  then show ?case by (auto simp: MoneyRange_def intro: signed_word_eqI[symmetric])
next
  case (Cons t vout)
  show ?case
  proof (cases "MoneyRange (out_nValue t)")
    case True
    have nonneg: "0 \<le> (\<Sum>t\<leftarrow>vout. sint (out_nValue t))" if "list_all (\<lambda>t. MoneyRange (out_nValue t)) vout"
      using that by (intro sum_list_nonneg) (auto simp: list_all_iff MoneyRange_def)
    have "sint (acc + out_nValue t) = sint acc + sint (out_nValue t)" using MoneyRange_add Cons.prems True by blast
    moreover from this have "MoneyRange (acc + out_nValue t) \<longleftrightarrow> sint acc + sint (out_nValue t) \<le> MAX_MONEY"
      using Cons.prems True by (simp add: MoneyRange_def)
    ultimately show ?thesis using Cons.IH[of "acc + out_nValue t"] True nonneg by (auto simp: Let_def)
  qed simp
qed

text \<open>
  The value of the outputs is the exact sum, and the exception is thrown exactly when an output
  or the sum is out of the money range: the running sum never wraps around unnoticed.
\<close>

theorem GetValueOut_exact:
  "(GetValueOut tx = Some v \<longleftrightarrow>
     list_all (\<lambda>t. MoneyRange (out_nValue t)) (tx_vout tx) \<and> (\<Sum>t\<leftarrow>tx_vout tx. sint (out_nValue t)) \<le> MAX_MONEY \<and>
     sint v = (\<Sum>t\<leftarrow>tx_vout tx. sint (out_nValue t)))"
  using add_values_iff[of 0 "tx_vout tx" v] by (simp add: GetValueOut_def MoneyRange_def MAX_MONEY_def COIN_def)

lemma GetTransactionWeight_bounds:
  "4 * length (SerializeTransaction False tx) \<le> GetTransactionWeight tx \<and> GetTransactionWeight tx \<le> 4 * GetTotalSize tx"
  by (auto simp: GetTransactionWeight_def GetTotalSize_def WITNESS_SCALE_FACTOR_def SerializeTransaction_forms SerializeExtended_def)

end
