(* ===== verification/Standard.thy ===== *)
theory Standard
  imports Interpreter_Limits
begin

text \<open>
  Standard output scripts, \<^verbatim>\<open>sige/src/script/standard.cpp\<close> and \<^verbatim>\<open>sige/src/txdestination.h\<close>: the templates, the
  solver that recognizes them, destinations, and the scripts that pay to them.  A public key object
  is the byte string it holds, empty when invalid.
\<close>

datatype txnouttype =
    TX_NONSTANDARD | TX_PUBKEY | TX_PUBKEYHASH | TX_SCRIPTHASH | TX_MULTISIG | TX_NULL_DATA
  | TX_WITNESS_V0_SCRIPTHASH | TX_WITNESS_V0_KEYHASH

datatype CTxDestination = CNoDestination | CKeyID bytes | CScriptID bytes

section \<open>Public keys\<close>

definition GetLen :: "u8 \<Rightarrow> nat" where
  "GetLen chHeader = (if chHeader = 2 \<or> chHeader = 3 then 33 else if chHeader = 4 \<or> chHeader = 6 \<or> chHeader = 7 then 65 else 0)"

definition CPubKey_Set :: "bytes \<Rightarrow> bytes" where
  "CPubKey_Set vch = (let len = (if vch = [] then 0 else GetLen (hd vch)) in if len \<noteq> 0 \<and> len = length vch then vch else [])"

definition CPubKey_IsValid :: "bytes \<Rightarrow> bool" where
  "CPubKey_IsValid m_vch \<longleftrightarrow> length m_vch > 0"

definition CPubKey_GetID :: "script_env \<Rightarrow> bytes \<Rightarrow> bytes" where
  "CPubKey_GetID env m_vch = CHash160 env m_vch"

section \<open>Scripts for destinations\<close>

definition GetScriptForDestination :: "CTxDestination \<Rightarrow> CScript" where
  "GetScriptForDestination dest =
    (case dest of
       CNoDestination \<Rightarrow> []
     | CKeyID keyID \<Rightarrow>
         push_opcode (push_opcode (push_data (push_opcode (push_opcode [] OP_DUP) OP_HASH160) keyID) OP_EQUALVERIFY) OP_CHECKSIG
     | CScriptID scriptID \<Rightarrow> push_opcode (push_data (push_opcode [] OP_HASH160) scriptID) OP_EQUAL)"

definition GetScriptForRawPubKey :: "bytes \<Rightarrow> CScript" where
  "GetScriptForRawPubKey pubKey = push_opcode (push_data [] pubKey) OP_CHECKSIG"

text \<open>\<open>None\<close> is the failed assertion of \<open>EncodeOP_N\<close>.\<close>

definition GetScriptForMultisig :: "int \<Rightarrow> bytes list \<Rightarrow> CScript option" where
  "GetScriptForMultisig nRequired keys =
    (case EncodeOP_N nRequired of
       None \<Rightarrow> None
     | Some m \<Rightarrow>
         let script = foldl push_data (push_opcode [] m) keys
         in map_option (\<lambda>n. push_opcode (push_opcode script n) OP_CHECKMULTISIG) (EncodeOP_N (int (length keys))))"

section \<open>The solver\<close>

text \<open>The templates in the order of the map.\<close>

definition mTemplates :: "(txnouttype \<times> CScript) list" where
  "mTemplates =
    [(TX_PUBKEY, map of_nat [OP_PUBKEY, OP_CHECKSIG]),
     (TX_PUBKEYHASH, map of_nat [OP_DUP, OP_HASH160, OP_PUBKEYHASH, OP_EQUALVERIFY, OP_CHECKSIG]),
     (TX_MULTISIG, map of_nat [OP_SMALLINTEGER, OP_PUBKEYS, OP_SMALLINTEGER, OP_CHECKMULTISIG])]"

text \<open>
  The loop over public keys: it pushes operands that can be public keys and reads on; when the
  script ends it leaves the opcode and the operand of the failed read.
\<close>

function take_pubkeys :: "opcodetype \<Rightarrow> valtype \<Rightarrow> bytes \<Rightarrow> valtype list \<Rightarrow> opcodetype \<times> valtype \<times> bytes \<times> valtype list" where
  "take_pubkeys opcode1 vch1 pc1 sols =
    (if 33 \<le> length vch1 \<and> length vch1 \<le> 65
     then case GetOp2 pc1 of
            (fRet, opcode1, vch1', pc1') \<Rightarrow>
              if fRet then take_pubkeys opcode1 vch1' pc1' (sols @ [vch1]) else (opcode1, vch1', pc1', sols @ [vch1])
     else (opcode1, vch1, pc1, sols))"
  by pat_completeness auto
termination
proof -
  have getop: "GetOp2 pc = (True, opcode, vch, pc') \<Longrightarrow> length pc' < length pc" for pc opcode vch pc'
    using GetOp_length[of pc opcode vch pc'] by (simp add: GetOp_def)
  show ?thesis by (relation "measure (\<lambda>(op, v, pc, s). length pc)") (auto dest: getop sym)
qed

declare take_pubkeys.simps [simp del]

text \<open>
  Matching the rest of a script against the rest of a template: the solutions, or nothing at a
  mismatch.  The bytes pushed for small integers are the numbers.
\<close>

definition match_small :: "opcodetype \<Rightarrow> valtype option" where
  "match_small opcode1 = (if opcode1 = OP_0 \<or> (OP_1 \<le> opcode1 \<and> opcode1 \<le> OP_16) then map_option (\<lambda>n. [of_int n]) (DecodeOP_N opcode1) else None)"

definition match_one :: "opcodetype \<Rightarrow> opcodetype \<Rightarrow> valtype \<Rightarrow> valtype \<Rightarrow> valtype list \<Rightarrow> valtype list option" where
  "match_one opcode1 opcode2 vch1 vch2 sols =
    (if opcode2 = OP_PUBKEY then if length vch1 < 33 \<or> length vch1 > 65 then None else Some (sols @ [vch1])
     else if opcode2 = OP_PUBKEYHASH then if length vch1 \<noteq> 20 then None else Some (sols @ [vch1])
     else if opcode2 = OP_SMALLINTEGER then map_option (\<lambda>n. sols @ [n]) (match_small opcode1)
     else if opcode1 \<noteq> opcode2 \<or> vch1 \<noteq> vch2 then None
     else Some sols)"

function match_template :: "bytes \<Rightarrow> bytes \<Rightarrow> valtype list \<Rightarrow> valtype list option" where
  "match_template pc1 pc2 sols =
    (if pc1 = [] \<and> pc2 = [] then Some sols
     else case GetOp pc1 of None \<Rightarrow> None | Some (opcode1, vch1, pc1) \<Rightarrow>
          case GetOp pc2 of None \<Rightarrow> None | Some (opcode2, vch2, pc2) \<Rightarrow>
            if opcode2 = OP_PUBKEYS
            then case take_pubkeys opcode1 vch1 pc1 sols of (opcode1, vch1, pc1, sols) \<Rightarrow>
                 case GetOp pc2 of None \<Rightarrow> None | Some (opcode2, vch2, pc2) \<Rightarrow>
                 case match_one opcode1 opcode2 vch1 vch2 sols of None \<Rightarrow> None | Some sols \<Rightarrow> match_template pc1 pc2 sols
            else case match_one opcode1 opcode2 vch1 vch2 sols of None \<Rightarrow> None | Some sols \<Rightarrow> match_template pc1 pc2 sols)"
  by pat_completeness auto
termination
  by (relation "measure (\<lambda>(pc1, pc2, s). length pc2)") (auto dest!: GetOp_length)

declare match_template.simps [simp del]

text \<open>The first template that matches decides; a multisignature match is checked further.\<close>

fun scan_templates :: "(txnouttype \<times> CScript) list \<Rightarrow> CScript \<Rightarrow> bool \<times> txnouttype \<times> valtype list" where
  "scan_templates [] script1 = (False, TX_NONSTANDARD, [])"
| "scan_templates ((typ, script2) # tps) script1 =
    (case match_template script1 script2 [] of
       None \<Rightarrow> scan_templates tps script1
     | Some sols \<Rightarrow>
         if typ = TX_MULTISIG
         then let m = hd (hd sols); n = hd (last sols)
              in (\<not> (m < 1 \<or> n < 1 \<or> m > n \<or> int (length sols) - 2 \<noteq> int (unat n)), typ, sols)
         else (True, typ, sols))"

definition Solver :: "CScript \<Rightarrow> bool \<times> txnouttype \<times> valtype list" where
  "Solver scriptPubKey =
    (if IsPayToScriptHash scriptPubKey then (True, TX_SCRIPTHASH, [take 20 (drop 2 scriptPubKey)])
     else case IsWitnessProgram scriptPubKey of
            Some (witnessversion, witnessprogram) \<Rightarrow>
              if witnessversion = 0 \<and> length witnessprogram = 20 then (True, TX_WITNESS_V0_KEYHASH, [witnessprogram])
              else if witnessversion = 0 \<and> length witnessprogram = 32 then (True, TX_WITNESS_V0_SCRIPTHASH, [witnessprogram])
              else (False, TX_NONSTANDARD, [])
          | None \<Rightarrow>
              if length scriptPubKey \<ge> 1 \<and> unat (hd scriptPubKey) = OP_RETURN \<and> IsPushOnly_from (tl scriptPubKey)
              then (True, TX_NULL_DATA, [])
              else scan_templates mTemplates scriptPubKey)"

definition ExtractDestination :: "script_env \<Rightarrow> CScript \<Rightarrow> CTxDestination option" where
  "ExtractDestination env scriptPubKey =
    (case Solver scriptPubKey of (ok, whichType, vSolutions) \<Rightarrow>
       if \<not> ok then None
       else if whichType = TX_PUBKEY
       then let pubKey = CPubKey_Set (hd vSolutions)
            in if \<not> CPubKey_IsValid pubKey then None else Some (CKeyID (CPubKey_GetID env pubKey))
       else if whichType = TX_PUBKEYHASH then Some (CKeyID (hd vSolutions))
       else if whichType = TX_SCRIPTHASH then Some (CScriptID (hd vSolutions))
       else None)"

definition ExtractDestinations :: "script_env \<Rightarrow> CScript \<Rightarrow> (txnouttype \<times> CTxDestination list \<times> int) option" where
  "ExtractDestinations env scriptPubKey =
    (case Solver scriptPubKey of (ok, typeRet, vSolutions) \<Rightarrow>
       if \<not> ok then None
       else if typeRet = TX_NULL_DATA then None
       else if typeRet = TX_MULTISIG
       then let addressRet = map (CKeyID \<circ> CPubKey_GetID env) (filter CPubKey_IsValid (map CPubKey_Set (butlast (tl vSolutions))))
            in if addressRet = [] then None else Some (typeRet, addressRet, int (unat (hd (hd vSolutions))))
       else map_option (\<lambda>address. (typeRet, [address], 1)) (ExtractDestination env scriptPubKey))"

definition GetScriptForWitness :: "script_env \<Rightarrow> CScript \<Rightarrow> CScript" where
  "GetScriptForWitness env redeemscript =
    (case Solver redeemscript of (ok, typ, vSolutions) \<Rightarrow>
       if ok \<and> typ = TX_PUBKEY then push_data (push_opcode [] OP_0) (CHash160 env (hd vSolutions))
       else if ok \<and> typ = TX_PUBKEYHASH then push_data (push_opcode [] OP_0) (hd vSolutions)
       else push_data (push_opcode [] OP_0) (sha256 env redeemscript))"

text \<open>The opcode of a small number, and the operands that can be public keys.\<close>

definition small_op :: "nat \<Rightarrow> opcodetype" where
  "small_op n = (if n = 0 then OP_0 else OP_1 + n - 1)"

definition key_ok :: "bytes \<Rightarrow> bool" where
  "key_ok k \<longleftrightarrow> 33 \<le> length k \<and> length k \<le> 65"

section \<open>Matching\<close>

lemma match_template_Nil [simp]: "match_template [] [] sols = Some sols"
  by (subst match_template.simps) simp

lemma match_template_step:
  assumes "GetOp pc1 = Some (opcode1, vch1, pc1')" "GetOp pc2 = Some (opcode2, vch2, pc2')" "opcode2 \<noteq> OP_PUBKEYS"
  shows "match_template pc1 pc2 sols =
    (case match_one opcode1 opcode2 vch1 vch2 sols of None \<Rightarrow> None | Some sols \<Rightarrow> match_template pc1' pc2' sols)"
  using assms by (subst match_template.simps) (cases "pc1 = []"; simp)

lemma match_template_keys:
  assumes "GetOp pc1 = Some (opcode1, vch1, pc1')" "GetOp pc2 = Some (OP_PUBKEYS, vch2, pc2')" "GetOp pc2' = Some (opcode2, vch3, pc2'')"
    "take_pubkeys opcode1 vch1 pc1' sols = (opcode3, vch4, pc3, sols')"
  shows "match_template pc1 pc2 sols =
    (case match_one opcode3 opcode2 vch4 vch3 sols' of None \<Rightarrow> None | Some sols \<Rightarrow> match_template pc3 pc2'' sols)"
  using assms by (subst match_template.simps) (cases "pc1 = []"; simp)

lemma EncodeOP_N_small: "n \<le> 16 \<Longrightarrow> EncodeOP_N (int n) = Some (small_op n)"
  by (auto simp: EncodeOP_N_def small_op_def nat_add_distrib)

lemma match_small_op: "n \<le> 16 \<Longrightarrow> match_small (small_op n) = Some [of_nat n]"
  by (auto simp: match_small_def small_op_def DecodeOP_N_def)

lemma push_data_key: "key_ok k \<Longrightarrow> GetOp (push_data [] k @ r) = Some (length k, k, r)"
  using GetOp_push_data[of k r] by (simp add: key_ok_def push_op_def)

lemma foldl_push_data: "foldl push_data s keys = s @ concat (map (push_data []) keys)"
  by (induction keys arbitrary: s) (simp_all, metis append.assoc push_data_append)

lemma take_pubkeys_keys:
  assumes "key_ok k" "\<forall>x\<in>set keys. key_ok x" "OP_PUSHDATA4 < unat b"
  shows "take_pubkeys op k (concat (map (push_data []) keys) @ b # r) sols = (unat b, [], r, sols @ k # keys)"
  using assms
proof (induction keys arbitrary: op k sols)
  case Nil
  then have "GetOp2 (b # r) = (True, unat b, [], r)" by (simp add: GetOp2_def)
  moreover have "take_pubkeys (unat b) [] r (sols @ [k]) = (unat b, [], r, sols @ [k])" by (subst take_pubkeys.simps) simp
  ultimately show ?case using Nil by (subst take_pubkeys.simps) (simp add: key_ok_def)
next
  case (Cons x keys)
  have "GetOp (push_data [] x @ concat (map (push_data []) keys) @ b # r) = Some (length x, x, concat (map (push_data []) keys) @ b # r)"
    using Cons.prems by (intro push_data_key) simp
  then have "GetOp2 (push_data [] x @ concat (map (push_data []) keys) @ b # r) = (True, length x, x, concat (map (push_data []) keys) @ b # r)"
    by (simp add: GetOp_def split: prod.splits if_splits)
  then show ?case using Cons by (subst take_pubkeys.simps) (simp add: key_ok_def)
qed

section \<open>Recognition\<close>

lemma push_data_short: "length b < OP_PUSHDATA1 \<Longrightarrow> push_data [] b = of_nat (length b) # b"
  by (simp add: push_data_def)

lemma p2pkh_script: "length h = 20 \<Longrightarrow> GetScriptForDestination (CKeyID h) = [0x76, 0xa9, 0x14] @ h @ [0x88, 0xac]"
  by (simp add: GetScriptForDestination_def push_opcode_def push_data_def)

lemma p2sh_script: "length h = 20 \<Longrightarrow> GetScriptForDestination (CScriptID h) = [0xa9, 0x14] @ h @ [0x87]"
  by (simp add: GetScriptForDestination_def push_opcode_def push_data_def)

lemma IsPayToScriptHash_iff: "IsPayToScriptHash s \<longleftrightarrow> (\<exists>h. length h = 20 \<and> s = [0xa9, 0x14] @ h @ [0x87])"
proof
  assume a: "IsPayToScriptHash s"
  define h where "h = take 20 (drop 2 s)"
  have l: "length s = 23" using a by (simp add: IsPayToScriptHash_def)
  have "s = take 2 s @ take 20 (drop 2 s) @ drop 22 s"
    using append_take_drop_id[of 2 s] append_take_drop_id[of 20 "drop 2 s"] by simp
  moreover have "take 2 s = [s ! 0, s ! 1]" using l by (simp add: numeral_2_eq_2 take_Suc_conv_app_nth)
  moreover have "drop 22 s = [s ! 22]" using l by (simp add: Cons_nth_drop_Suc[symmetric])
  ultimately show "\<exists>h. length h = 20 \<and> s = [0xa9, 0x14] @ h @ [0x87]"
    using a l by (intro exI[of _ h]) (simp add: h_def IsPayToScriptHash_def)
qed (auto simp: IsPayToScriptHash_def nth_append)

lemma not_program:
  assumes "s ! 1 = of_nat n" "n < 256" "length s \<noteq> n + 2 \<or> 42 < length s"
  shows "IsWitnessProgram s = None"
proof -
  have "unat (s ! 1) = n" using assms(1,2) by (simp add: unat_of_nat)
  then show ?thesis using assms(3) by (auto simp: IsWitnessProgram_def)
qed

lemma Solver_p2pkh:
  assumes "length h = 20"
  shows "Solver (GetScriptForDestination (CKeyID h)) = (True, TX_PUBKEYHASH, [h])"
proof -
  let ?s = "[0x76, 0xa9] @ push_data [] h @ [0x88, 0xac]"
  have s: "GetScriptForDestination (CKeyID h) = ?s" using assms by (simp add: p2pkh_script push_data_short)
  have g: "GetOp (push_data [] h @ [0x88, 0xac]) = Some (20, h, [0x88, 0xac])" using GetOp_push_data[of h] assms by (simp add: push_op_def)
  have "\<not> IsPayToScriptHash ?s" by (simp add: IsPayToScriptHash_def)
  moreover have "IsWitnessProgram ?s = None" by (simp add: IsWitnessProgram_def)
  moreover have "match_template ?s (map of_nat [OP_PUBKEY, OP_CHECKSIG]) [] = None"
    by (subst match_template_step) (auto simp: match_one_def)
  moreover have "match_template ?s (map of_nat [OP_DUP, OP_HASH160, OP_PUBKEYHASH, OP_EQUALVERIFY, OP_CHECKSIG]) [] = Some [h]"
    using g assms by (simp add: match_template_step match_one_def)
  ultimately show ?thesis by (simp add: s Solver_def mTemplates_def)
qed

lemma Solver_p2sh:
  assumes "length h = 20"
  shows "Solver (GetScriptForDestination (CScriptID h)) = (True, TX_SCRIPTHASH, [h])"
  using assms by (simp add: Solver_def p2sh_script IsPayToScriptHash_def nth_append)

lemma Solver_scripthash:
  assumes "Solver s = (True, TX_SCRIPTHASH, sols)"
  shows "\<exists>h. length h = 20 \<and> s = GetScriptForDestination (CScriptID h) \<and> sols = [h]"
proof -
  have scan: "scan_templates mTemplates s \<noteq> (True, TX_SCRIPTHASH, sols)"
    by (auto simp: mTemplates_def Let_def split: option.splits)
  then have "IsPayToScriptHash s" "sols = [take 20 (drop 2 s)]"
    using assms by (auto simp: Solver_def split: if_splits option.splits)
  then show ?thesis by (auto simp: IsPayToScriptHash_iff p2sh_script)
qed

lemma Solver_pubkey:
  assumes "key_ok k"
  shows "Solver (GetScriptForRawPubKey k) = (True, TX_PUBKEY, [k])"
proof -
  let ?s = "push_data [] k @ [0xac]"
  have s: "GetScriptForRawPubKey k = ?s" by (simp add: GetScriptForRawPubKey_def push_opcode_def)
  have p: "?s = of_nat (length k) # k @ [0xac]" using assms by (simp add: push_data_short key_ok_def)
  have u: "unat (of_nat (length k) :: u8) = length k" using assms by (simp add: key_ok_def unat_of_nat)
  have "\<not> IsPayToScriptHash ?s" using assms by (simp add: p IsPayToScriptHash_def key_ok_def)
  moreover have "IsWitnessProgram ?s = None" using assms by (simp add: p IsWitnessProgram_def u key_ok_def)
  moreover have "unat (hd ?s) \<noteq> OP_RETURN" using assms by (simp add: p u key_ok_def)
  moreover have "match_template ?s (map of_nat [OP_PUBKEY, OP_CHECKSIG]) [] = Some [k]"
    using assms push_data_key[OF assms] by (simp add: match_template_step match_one_def key_ok_def)
  ultimately show ?thesis by (simp add: s Solver_def mTemplates_def)
qed

lemma Solver_multisig:
  assumes "1 \<le> m" "m \<le> length keys" "length keys \<le> 16" "\<forall>k\<in>set keys. key_ok k"
  shows "\<exists>s. GetScriptForMultisig (int m) keys = Some s \<and> Solver s = (True, TX_MULTISIG, [of_nat m] # keys @ [[of_nat (length keys)]])"
proof -
  let ?n = "length keys"
  let ?s = "of_nat (small_op m) # concat (map (push_data []) keys) @ [of_nat (small_op ?n), 0xae]"
  obtain k ks where k: "keys = k # ks" "key_ok k" "\<forall>x\<in>set ks. key_ok x" using assms by (cases keys) auto
  have m16: "m \<le> 16" using assms(2,3) by simp
  have s: "GetScriptForMultisig (int m) keys = Some ?s"
    using EncodeOP_N_small[OF m16] EncodeOP_N_small[OF assms(3)]
    by (simp add: GetScriptForMultisig_def foldl_push_data push_opcode_def)
  have op: "OP_1 \<le> small_op i" "small_op i \<le> OP_16" "unat (of_nat (small_op i) :: u8) = small_op i" if "1 \<le> i" "i \<le> 16" for i
  proof -
    show "OP_1 \<le> small_op i" "small_op i \<le> OP_16" using that by (simp_all add: small_op_def)
    then show "unat (of_nat (small_op i) :: u8) = small_op i" by (simp add: unat_of_nat)
  qed
  have len: "length (push_data [] x) = Suc (length x)" if "key_ok x" for x using that by (simp add: push_data_short key_ok_def)
  have "37 \<le> length ?s" "?s ! 1 = of_nat (length k)" using k(2) by (simp_all add: k(1) len key_ok_def push_data_short nth_append)
  moreover have "length ?s = length k + 4 \<or> 42 < length ?s"
    using k len[OF k(2)] by (cases ks) (auto simp: len key_ok_def)
  ultimately have "\<not> IsPayToScriptHash ?s" "IsWitnessProgram ?s = None"
    using k(2) not_program[of ?s "length k"] by (auto simp: IsPayToScriptHash_def key_ok_def)
  moreover have "unat (hd ?s) \<noteq> OP_RETURN" using op[of m] assms(1) m16 by simp
  moreover have g: "GetOp ?s = Some (small_op m, [], concat (map (push_data []) keys) @ [of_nat (small_op ?n), 0xae])"
    using op[of m] assms(1) m16 by simp
  then have "match_template ?s (map of_nat [OP_PUBKEY, OP_CHECKSIG]) [] = None"
    "match_template ?s (map of_nat [OP_DUP, OP_HASH160, OP_PUBKEYHASH, OP_EQUALVERIFY, OP_CHECKSIG]) [] = None"
    using op[of m] assms(1) m16 by (auto simp: match_template_step[OF g] match_one_def)
  moreover have "match_template ?s (map of_nat [OP_SMALLINTEGER, OP_PUBKEYS, OP_SMALLINTEGER, OP_CHECKMULTISIG]) [] =
      Some ([of_nat m] # keys @ [[of_nat ?n]])"
  proof -
    have n: "1 \<le> ?n" by (simp add: k(1))
    have t: "GetOp (map of_nat [OP_PUBKEYS, OP_SMALLINTEGER, OP_CHECKMULTISIG]) = Some (OP_PUBKEYS, [], [0xfa, 0xae])"
      "GetOp [0xfa, 0xae] = Some (OP_SMALLINTEGER, [], [0xae])" by simp_all
    have gk: "GetOp (concat (map (push_data []) keys) @ [of_nat (small_op ?n), 0xae]) =
        Some (length k, k, concat (map (push_data []) ks) @ [of_nat (small_op ?n), 0xae])"
      using push_data_key[OF k(2)] by (simp add: k(1))
    have tk: "take_pubkeys (length k) k (concat (map (push_data []) ks) @ [of_nat (small_op ?n), 0xae]) [[of_nat m]] =
        (small_op ?n, [], [0xae], [of_nat m] # keys)"
      using take_pubkeys_keys[OF k(2,3), of "of_nat (small_op ?n)"] op[OF n assms(3)] by (simp add: k(1))
    have "match_template (concat (map (push_data []) keys) @ [of_nat (small_op ?n), 0xae])
        (map of_nat [OP_PUBKEYS, OP_SMALLINTEGER, OP_CHECKMULTISIG]) [[of_nat m]] = Some ([of_nat m] # keys @ [[of_nat ?n]])"
      using match_small_op[OF assms(3)] by (subst match_template_keys[OF gk t tk]) (simp add: match_one_def match_template_step)
    moreover have "GetOp (map of_nat [OP_SMALLINTEGER, OP_PUBKEYS, OP_SMALLINTEGER, OP_CHECKMULTISIG]) =
        Some (OP_SMALLINTEGER, [], map of_nat [OP_PUBKEYS, OP_SMALLINTEGER, OP_CHECKMULTISIG])" by simp
    ultimately show ?thesis using match_small_op[OF m16] by (simp add: match_template_step[OF g] match_one_def del: list.map)
  qed
  moreover have "of_nat m < (1 :: u8) \<longleftrightarrow> False" "of_nat ?n < (1 :: u8) \<longleftrightarrow> False" "of_nat ?n < (of_nat m :: u8) \<longleftrightarrow> False" "uint (of_nat ?n :: u8) = int ?n"
    using assms m16 length_greater_0_conv[of keys] by (auto simp: word_less_nat_alt unat_of_nat uint_nat simp del: of_nat_unat length_greater_0_conv)
  ultimately show ?thesis using s by (auto simp: Solver_def mTemplates_def Let_def)
qed

section \<open>Destinations of scripts\<close>

lemma ExtractDestination_dest:
  "length h = 20 \<Longrightarrow> ExtractDestination env (GetScriptForDestination (CKeyID h)) = Some (CKeyID h)"
  "length h = 20 \<Longrightarrow> ExtractDestination env (GetScriptForDestination (CScriptID h)) = Some (CScriptID h)"
  by (simp_all add: ExtractDestination_def Solver_p2pkh Solver_p2sh)

lemma CPubKey_Set_valid: "CPubKey_Set k \<noteq> [] \<Longrightarrow> CPubKey_Set k = k \<and> key_ok k"
  by (auto simp: CPubKey_Set_def key_ok_def GetLen_def Let_def split: if_splits)

lemma Solver_not_scripthash:
  "Solver s = (True, t, sols) \<Longrightarrow> t = TX_SCRIPTHASH \<longleftrightarrow> IsPayToScriptHash s"
  by (auto simp: Solver_def mTemplates_def Let_def split: if_splits option.splits)

lemma ExtractDestination_scripthash:
  "ExtractDestination env s = Some (CScriptID h) \<longleftrightarrow> length h = 20 \<and> s = GetScriptForDestination (CScriptID h)"
proof
  assume a: "ExtractDestination env s = Some (CScriptID h)"
  obtain ok t sols where s: "Solver s = (ok, t, sols)" by (cases "Solver s") auto
  then have "ok" "t = TX_SCRIPTHASH" "h = hd sols"
    using a by (auto simp: ExtractDestination_def Let_def split: if_splits)
  then show "length h = 20 \<and> s = GetScriptForDestination (CScriptID h)" using Solver_scripthash[of s sols] s by auto
qed (auto simp: ExtractDestination_dest)

lemma ExtractDestinations_multisig:
  assumes "1 \<le> m" "m \<le> length keys" "length keys \<le> 16" "\<forall>k\<in>set keys. CPubKey_Set k = k \<and> k \<noteq> []"
  shows "Option.bind (GetScriptForMultisig (int m) keys) (ExtractDestinations env) =
    Some (TX_MULTISIG, map (CKeyID \<circ> CHash160 env) keys, int m)"
proof -
  have "\<forall>k\<in>set keys. key_ok k" using assms(4) CPubKey_Set_valid by metis
  then obtain s where s: "GetScriptForMultisig (int m) keys = Some s"
    "Solver s = (True, TX_MULTISIG, [of_nat m] # keys @ [[of_nat (length keys)]])"
    using Solver_multisig[OF assms(1-3)] by auto
  have "map CPubKey_Set keys = keys" "filter CPubKey_IsValid keys = keys"
    using assms(4) by (auto simp: CPubKey_IsValid_def map_idI)
  moreover have "keys \<noteq> []" "unat (of_nat m :: u8) = m" using assms by (auto simp: unat_of_nat)
  ultimately show ?thesis by (simp add: s ExtractDestinations_def CPubKey_GetID_def comp_def)
qed

text \<open>
  C39. Addresses and output scripts.  The destination extracted from the script that pays to a key
  hash or a script hash is that destination; a script hash destination is extracted from no other
  script; a script that pays to a valid raw key has the hash of the key as its destination; and the
  script of an m-of-n multisignature of up to sixteen valid keys is recognized with the hashes of all
  its keys, in order, and its threshold.
\<close>

theorem destinations_round_trip:
  assumes "length h = 20" "CPubKey_Set k = k" "k \<noteq> []"
    "1 \<le> m" "m \<le> length keys" "length keys \<le> 16" "list_all (\<lambda>k. CPubKey_Set k = k \<and> k \<noteq> []) keys"
  shows "ExtractDestination env (GetScriptForDestination (CKeyID h)) = Some (CKeyID h) \<and>
    (ExtractDestination env s = Some (CScriptID h) \<longleftrightarrow> s = GetScriptForDestination (CScriptID h)) \<and>
    ExtractDestination env (GetScriptForRawPubKey k) = Some (CKeyID (CHash160 env k)) \<and>
    Option.bind (GetScriptForMultisig (int m) keys) (ExtractDestinations env) =
      Some (TX_MULTISIG, map (CKeyID \<circ> CHash160 env) keys, int m)"
proof -
  have "key_ok k" using assms(2,3) CPubKey_Set_valid by metis
  then have "ExtractDestination env (GetScriptForRawPubKey k) = Some (CKeyID (CHash160 env k))"
    using assms(2,3) by (simp add: ExtractDestination_def Solver_pubkey CPubKey_IsValid_def CPubKey_GetID_def)
  then show ?thesis using assms ExtractDestination_dest[OF assms(1)] ExtractDestinations_multisig[OF assms(4-6)]
    by (simp add: ExtractDestination_scripthash list_all_iff)
qed

theorem destinations_round_trip_witness:
  "length (replicate 20 (7 :: u8)) = 20 \<and> CPubKey_Set (2 # replicate 32 1) = 2 # replicate 32 1 \<and>
   list_all (\<lambda>k. CPubKey_Set k = k \<and> k \<noteq> []) [2 # replicate 32 1, 4 # replicate 64 5] \<and>
   Option.bind (GetScriptForMultisig 1 [2 # replicate 32 1, 4 # replicate 64 5]) (ExtractDestinations demo_env) =
     Some (TX_MULTISIG, map (CKeyID \<circ> CHash160 demo_env) [2 # replicate 32 1, 4 # replicate 64 5], 1)"
proof -
  have k: "CPubKey_Set (2 # replicate 32 1) = 2 # replicate 32 1" "CPubKey_Set (4 # replicate 64 5) = 4 # replicate 64 5"
    by (simp_all add: CPubKey_Set_def GetLen_def)
  show ?thesis
    using destinations_round_trip[of "replicate 20 7" "2 # replicate 32 1" 1 "[2 # replicate 32 1, 4 # replicate 64 5]" demo_env "[]"] k
    by simp
qed

end
