(* ===== verification/Compressor.thy ===== *)
theory Compressor
  imports Transaction Standard
begin

text \<open>
  Compressed outputs of the coin database, \<^verbatim>\<open>sige/src/compressor.h\<close> and \<^verbatim>\<open>.cpp\<close>.  The validity of an
  uncompressed public key and the recovery of the second coordinate of a compressed one, which call
  the elliptic-curve library, are arguments.
\<close>

section \<open>Scripts\<close>

definition nSpecialScripts :: nat where "nSpecialScripts = 6"

definition IsToKeyID :: "CScript \<Rightarrow> bytes option" where
  "IsToKeyID script =
    (if length script = 25 \<and> unat (script ! 0) = OP_DUP \<and> unat (script ! 1) = OP_HASH160 \<and> script ! 2 = 20 \<and>
        unat (script ! 23) = OP_EQUALVERIFY \<and> unat (script ! 24) = OP_CHECKSIG
     then Some (take 20 (drop 3 script)) else None)"

definition IsToScriptID :: "CScript \<Rightarrow> bytes option" where
  "IsToScriptID script =
    (if length script = 23 \<and> unat (script ! 0) = OP_HASH160 \<and> script ! 1 = 20 \<and> unat (script ! 22) = OP_EQUAL
     then Some (take 20 (drop 2 script)) else None)"

definition IsToPubKey :: "(bytes \<Rightarrow> bool) \<Rightarrow> CScript \<Rightarrow> bytes option" where
  "IsToPubKey IsFullyValid script =
    (if length script = 35 \<and> script ! 0 = 33 \<and> unat (script ! 34) = OP_CHECKSIG \<and> (script ! 1 = 2 \<or> script ! 1 = 3)
     then Some (CPubKey_Set (take 33 (drop 1 script)))
     else if length script = 67 \<and> script ! 0 = 65 \<and> unat (script ! 66) = OP_CHECKSIG \<and> script ! 1 = 4
     then let pubkey = CPubKey_Set (take 65 (drop 1 script)) in if IsFullyValid pubkey then Some pubkey else None
     else None)"

definition Compress :: "(bytes \<Rightarrow> bool) \<Rightarrow> CScript \<Rightarrow> bytes option" where
  "Compress IsFullyValid script =
    (case IsToKeyID script of Some keyID \<Rightarrow> Some (0x00 # keyID) | None \<Rightarrow>
     case IsToScriptID script of Some scriptID \<Rightarrow> Some (0x01 # scriptID) | None \<Rightarrow>
     case IsToPubKey IsFullyValid script of
       Some pubkey \<Rightarrow>
         if pubkey ! 0 = 0x02 \<or> pubkey ! 0 = 0x03 then Some (pubkey ! 0 # take 32 (drop 1 pubkey))
         else if pubkey ! 0 = 0x04 then Some ((0x04 OR (pubkey ! 64 AND 0x01)) # take 32 (drop 1 pubkey))
         else None
     | None \<Rightarrow> None)"

definition GetSpecialSize :: "u32 \<Rightarrow> nat" where
  "GetSpecialSize nSize =
    (if nSize = 0 \<or> nSize = 1 then 20 else if nSize = 2 \<or> nSize = 3 \<or> nSize = 4 \<or> nSize = 5 then 32 else 0)"

text \<open>
  The script after decompression, with the returned flag; when a key cannot be recovered the script
  is unchanged, and a recovered key of another length fails the assertion.
\<close>

definition Decompress :: "(bytes \<Rightarrow> bytes option) \<Rightarrow> u32 \<Rightarrow> bytes \<Rightarrow> CScript \<Rightarrow> ser_error + bool \<times> CScript" where
  "Decompress pubkey_Decompress nSize vin script =
    (if nSize = 0x00 then Inr (True, [of_nat OP_DUP, of_nat OP_HASH160, 20] @ take 20 vin @ [of_nat OP_EQUALVERIFY, of_nat OP_CHECKSIG])
     else if nSize = 0x01 then Inr (True, [of_nat OP_HASH160, 20] @ take 20 vin @ [of_nat OP_EQUAL])
     else if nSize = 0x02 \<or> nSize = 0x03 then Inr (True, [33, ucast nSize] @ take 32 vin @ [of_nat OP_CHECKSIG])
     else if nSize = 0x04 \<or> nSize = 0x05
     then case pubkey_Decompress (CPubKey_Set (ucast (nSize - 2) # take 32 vin)) of
            None \<Rightarrow> Inr (False, script)
          | Some pubkey \<Rightarrow>
              if length pubkey \<noteq> 65 then Inl AssertionFailed else Inr (True, [65] @ pubkey @ [of_nat OP_CHECKSIG])
     else Inr (False, script))"

definition Serialize_script :: "(bytes \<Rightarrow> bool) \<Rightarrow> CScript \<Rightarrow> bytes" where
  "Serialize_script IsFullyValid script =
    (case Compress IsFullyValid script of
       Some compr \<Rightarrow> compr
     | None \<Rightarrow> WriteVarInt (of_nat (length script + nSpecialScripts) :: u32) @ script)"

definition stream_ignore :: "u32 \<Rightarrow> unit reader" where
  "stream_ignore nSize s =
    (if sint nSize < 0 then Inl NegativeSize else rbind (stream_read (unat nSize) s) (\<lambda>_ s. Inr ((), s)))"

definition Unserialize_script :: "(bytes \<Rightarrow> bytes option) \<Rightarrow> CScript \<Rightarrow> CScript reader" where
  "Unserialize_script pubkey_Decompress script s =
    rbind (ReadVarInt s) (\<lambda>(nSize :: u32) s.
      if unat nSize < nSpecialScripts
      then rbind (stream_read (GetSpecialSize nSize) s) (\<lambda>vch s.
             case Decompress pubkey_Decompress nSize vch script of Inl e \<Rightarrow> Inl e | Inr (ok, script) \<Rightarrow> Inr (script, s))
      else let nSize = nSize - of_nat nSpecialScripts
           in if unat nSize > MAX_SCRIPT_SIZE
              then rbind (stream_ignore nSize s) (\<lambda>_ s. Inr (push_opcode script OP_RETURN, s))
              else stream_read (unat nSize) s)"

section \<open>Amounts\<close>

function strip_zeros :: "u64 \<Rightarrow> nat \<Rightarrow> u64 \<times> nat" where
  "strip_zeros n e = (if n mod 10 = 0 \<and> e < 9 then strip_zeros (n div 10) (e + 1) else (n, e))"
  by pat_completeness auto
termination by (relation "measure (\<lambda>(n, e). 9 - e)") auto

declare strip_zeros.simps [simp del]

text \<open>\<open>None\<close> is the failed assertion on the digit.\<close>

definition CompressAmount :: "u64 \<Rightarrow> u64 option" where
  "CompressAmount n =
    (if n = 0 then Some 0
     else case strip_zeros n 0 of (n, e) \<Rightarrow>
       if e < 9
       then let d = n mod 10
            in if \<not> (d \<ge> 1 \<and> d \<le> 9) then None else Some (1 + ((n div 10) * 9 + d - 1) * 10 + of_nat e)
       else Some (1 + (n - 1) * 10 + 9))"

primrec times10 :: "nat \<Rightarrow> u64 \<Rightarrow> u64" where
  "times10 0 n = n"
| "times10 (Suc e) n = times10 e (n * 10)"

definition DecompressAmount :: "u64 \<Rightarrow> u64" where
  "DecompressAmount x =
    (if x = 0 then 0
     else let x = x - 1; e = x mod 10; x = x div 10;
              n = (if e < 9 then let d = x mod 9 + 1; x = x div 9 in x * 10 + d else x + 1)
          in times10 (unat e) n)"

section \<open>Outputs\<close>

text \<open>\<open>None\<close> is the failed assertion of \<open>CompressAmount\<close>.\<close>

definition Serialize_TxOutCompressor :: "(bytes \<Rightarrow> bool) \<Rightarrow> CTxOut \<Rightarrow> bytes option" where
  "Serialize_TxOutCompressor IsFullyValid txout =
    map_option (\<lambda>nVal. WriteVarInt nVal @ Serialize_script IsFullyValid (out_scriptPubKey txout)) (CompressAmount (out_nValue txout))"

definition Unserialize_TxOutCompressor :: "(bytes \<Rightarrow> bytes option) \<Rightarrow> CTxOut \<Rightarrow> CTxOut reader" where
  "Unserialize_TxOutCompressor pubkey_Decompress txout s =
    rbind (ReadVarInt s) (\<lambda>nVal s.
    rbind (Unserialize_script pubkey_Decompress (out_scriptPubKey txout) s) (\<lambda>script s.
      Inr (\<lparr>out_nValue = DecompressAmount nVal, out_scriptPubKey = script\<rparr>, s)))"

text \<open>
  What the compressor relies on: the curve point of a fully valid uncompressed key is recovered from
  its first coordinate and the parity of its second.
\<close>

definition recovers_keys :: "(bytes \<Rightarrow> bool) \<Rightarrow> (bytes \<Rightarrow> bytes option) \<Rightarrow> bool" where
  "recovers_keys IsFullyValid pubkey_Decompress \<longleftrightarrow>
    (\<forall>k. length k = 65 \<and> k ! 0 = 4 \<and> IsFullyValid k \<longrightarrow> pubkey_Decompress ((0x02 OR (k ! 64 AND 0x01)) # take 32 (drop 1 k)) = Some k)"

text \<open>A fully valid key of an example curve with one point.\<close>

definition demo_key :: bytes where "demo_key = 4 # replicate 32 8 @ replicate 32 9"

definition demo_IsFullyValid :: "bytes \<Rightarrow> bool" where "demo_IsFullyValid k \<longleftrightarrow> k = demo_key"

definition demo_Decompress :: "bytes \<Rightarrow> bytes option" where
  "demo_Decompress c = (if c = 3 # replicate 32 8 then Some demo_key else None)"

section \<open>Amounts round trip\<close>

lemma strip_zeros_spec:
  assumes "e \<le> 9" "0 < unat n" "strip_zeros n e = (m, f)"
  shows "f \<le> 9 \<and> e \<le> f \<and> unat n = unat m * 10 ^ (f - e) \<and> 0 < unat m \<and> (f < 9 \<longrightarrow> unat m mod 10 \<noteq> 0)"
  using assms
proof (induction n e rule: strip_zeros.induct)
  case (1 n e)
  have z: "n mod 10 = 0 \<longleftrightarrow> unat n mod 10 = 0" by (simp add: word_unat_eq_iff unat_mod)
  show ?case
  proof (cases "n mod 10 = 0 \<and> e < 9")
    case True
    have "unat n = unat (n div 10) * 10" using True z by (simp add: unat_div mod_0_imp_dvd)
    moreover have "strip_zeros (n div 10) (e + 1) = (m, f)" using "1.prems" True by (subst (asm) strip_zeros.simps) simp
    ultimately have "f \<le> 9 \<and> e + 1 \<le> f \<and> unat (n div 10) = unat m * 10 ^ (f - (e + 1)) \<and> 0 < unat m \<and> (f < 9 \<longrightarrow> unat m mod 10 \<noteq> 0)"
      using "1.prems" True by (intro "1.IH") auto
    then show ?thesis using \<open>unat n = unat (n div 10) * 10\<close> by (auto simp: Suc_diff_Suc simp flip: power_Suc2)
  next
    case False
    then have "m = n" "f = e" using "1.prems" by (subst (asm) strip_zeros.simps, auto)+
    then show ?thesis using "1.prems" False z by auto
  qed
qed

lemma times10_spec: "unat n * 10 ^ e < 2 ^ 64 \<Longrightarrow> unat (times10 e n) = unat n * 10 ^ e"
proof (induction e arbitrary: n)
  case (Suc e)
  have "unat n * 10 \<le> unat n * 10 ^ Suc e" by simp
  then have "unat n * 10 < 2 ^ 64" using Suc.prems by (rule le_less_trans)
  then have "unat (n * 10) = unat n * 10" using unat_mult_exact[of n 10] by simp
  then show ?case using Suc by (simp add: mult.assoc)
qed simp

lemma DecompressAmount_small:
  assumes "unat x = 1 + ((q * 9 + d - 1) * 10 + e)" "1 \<le> d" "d \<le> 9" "e < 9" "(q * 10 + d) * 10 ^ e < 2 ^ 64"
  shows "unat (DecompressAmount x) = (q * 10 + d) * 10 ^ e"
proof -
  have x: "x \<noteq> 0" "unat (x - 1) = (q * 9 + d - 1) * 10 + e" using assms(1) by (auto simp: unat_sub_exact)
  have e: "unat ((x - 1) mod 10) = e" "unat ((x - 1) div 10) = q * 9 + (d - 1)"
    using x(2) assms(2,4) by (simp_all add: unat_mod unat_div)
  have dq: "unat ((x - 1) div 10 mod 9) = d - 1" "unat ((x - 1) div 10 div 9) = q"
  proof -
    obtain c where c: "d = Suc c" "c < 9" using assms(2,3) by (cases d) auto
    then show "unat ((x - 1) div 10 mod 9) = d - 1" "unat ((x - 1) div 10 div 9) = q" using e(2) by (simp_all add: unat_mod unat_div)
  qed
  have "q * 10 + d \<le> (q * 10 + d) * 10 ^ e" by simp
  then have b: "q * 10 + d < 2 ^ 64" using assms(5) by (rule le_less_trans)
  have "unat ((x - 1) div 10 mod 9 + 1) = d" using dq assms(2,3) by (simp add: unat_add_exact)
  moreover have "unat ((x - 1) div 10 div 9 * 10) = q * 10" using dq(2) b unat_mult_exact[of "(x - 1) div 10 div 9" 10] by simp
  ultimately have n: "unat ((x - 1) div 10 div 9 * 10 + ((x - 1) div 10 mod 9 + 1)) = q * 10 + d"
    using b by (simp add: unat_add_exact)
  have "(x - 1) mod 10 < 9" using e(1) assms(4) by (simp add: word_less_nat_alt)
  then show ?thesis using x(1) n e(1) assms(5) times10_spec[of "(x - 1) div 10 div 9 * 10 + ((x - 1) div 10 mod 9 + 1)" e]
    by (simp add: DecompressAmount_def Let_def)
qed

lemma DecompressAmount_large:
  assumes "unat x = 1 + ((n - 1) * 10 + 9)" "0 < n" "n * 10 ^ 9 < 2 ^ 64"
  shows "unat (DecompressAmount x) = n * 10 ^ 9"
proof -
  have x: "x \<noteq> 0" "unat (x - 1) = (n - 1) * 10 + 9" using assms(1) by (auto simp: unat_sub_exact)
  have e: "unat ((x - 1) mod 10) = 9" "unat ((x - 1) div 10) = n - 1" using x(2) by (simp_all add: unat_mod unat_div)
  have "unat ((x - 1) div 10 + 1) = n" using e(2) assms(2,3) by (simp add: unat_add_exact)
  moreover have "\<not> (x - 1) mod 10 < 9" using e(1) by (simp add: word_less_nat_alt)
  ultimately show ?thesis using x(1) e(1) assms(3) times10_spec[of "(x - 1) div 10 + 1" 9] by (simp add: DecompressAmount_def Let_def)
qed

lemma CompressAmount_round_trip:
  assumes "unat n < 2 ^ 60"
  shows "\<exists>x. CompressAmount n = Some x \<and> DecompressAmount x = n"
proof (cases "n = 0")
  case True
  then show ?thesis by (simp add: CompressAmount_def DecompressAmount_def)
next
  case False
  obtain m e where me: "strip_zeros n 0 = (m, e)" by fastforce
  have n0: "0 < unat n" using False by (simp add: unat_gt_0)
  have spec: "e \<le> 9" "unat n = unat m * 10 ^ e" "0 < unat m" "e < 9 \<longrightarrow> unat m mod 10 \<noteq> 0"
    using strip_zeros_spec[OF _ n0 me] by auto
  have mn: "unat m \<le> unat n" using spec(2) by simp
  have m: "unat m = unat m div 10 * 10 + unat m mod 10" by simp
  have sum: "unat (1 + y + z) = 1 + (unat y + unat z)" if "unat y + unat z < 2 ^ 64 - 1" for y z :: u64
    using that by (simp add: unat_add_exact)
  show ?thesis
  proof (cases "e < 9")
    case True
    have d: "unat (m mod 10) = unat m mod 10" "unat (m div 10) = unat m div 10" by (simp_all add: unat_mod unat_div)
    have d19: "1 \<le> unat m mod 10" "unat m mod 10 \<le> 9" using spec(4) True by auto
    define x where "x = 1 + (m div 10 * 9 + m mod 10 - 1) * 10 + of_nat e"
    have a1: "unat (m div 10 * 9) = unat m div 10 * 9" using d(2) mn assms unat_mult_exact[of "m div 10" 9] by simp
    have a2: "unat (m div 10 * 9 + m mod 10) = unat m div 10 * 9 + unat m mod 10"
      using a1 d mn assms by (simp add: unat_add_exact)
    have a3: "unat (m div 10 * 9 + m mod 10 - 1) = unat m div 10 * 9 + unat m mod 10 - 1"
      using a2 d19 by (simp add: unat_sub_exact)
    have a4: "unat ((m div 10 * 9 + m mod 10 - 1) * 10) = (unat m div 10 * 9 + unat m mod 10 - 1) * 10"
      using a3 mn assms unat_mult_exact[of "m div 10 * 9 + m mod 10 - 1" 10] by simp
    have e: "unat (of_nat e :: u64) = e" using True by (simp add: unat_of_nat)
    have small: "(q * 9 + d - 1) * 10 + e < 2 ^ 64 - 1" if "q * 10 + d < 2 ^ 60" "d \<le> 9" for q d :: nat
      using that True by (cases d) simp_all
    have "unat m div 10 * 10 + unat m mod 10 < 2 ^ 60" using mn assms by simp
    from small[OF this d19(2)]
    have x: "unat x = 1 + ((unat m div 10 * 9 + unat m mod 10 - 1) * 10 + e)"
      using a4 e sum[of "(m div 10 * 9 + m mod 10 - 1) * 10" "of_nat e"] unfolding x_def by (simp only:)
    have "CompressAmount n = Some x" using False me True d19 d(1) by (simp add: CompressAmount_def x_def Let_def word_le_nat_alt)
    moreover have "unat (DecompressAmount x) = unat n"
      using DecompressAmount_small[OF x d19 True] m spec(2) assms by simp
    ultimately show ?thesis by (auto simp: word_unat_eq_iff)
  next
    case e: False
    then have e9: "e = 9" using spec(1) by simp
    define x where "x = 1 + (m - 1) * 10 + 9"
    have "unat (m - 1) = unat m - 1" using spec(3) by (simp add: unat_sub_exact)
    then have "unat ((m - 1) * 10) = (unat m - 1) * 10" using mn assms unat_mult_exact[of "m - 1" 10] by simp
    moreover have "(unat m - 1) * 10 + 9 < 2 ^ 64 - 1" using mn assms by simp
    ultimately have x: "unat x = 1 + ((unat m - 1) * 10 + 9)" using sum[of "(m - 1) * 10" 9] unfolding x_def by simp
    have "CompressAmount n = Some x" using False me e by (simp add: CompressAmount_def x_def)
    moreover have "unat (DecompressAmount x) = unat n"
      using DecompressAmount_large[OF x spec(3)] spec(2) assms e9 by simp
    ultimately show ?thesis by (auto simp: word_unat_eq_iff)
  qed
qed

section \<open>Scripts round trip\<close>

lemma split_script:
  assumes "length s = i + n + j"
  shows "s = take i s @ take n (drop i s) @ drop (i + n) s" "length (take n (drop i s)) = n"
  using assms append_take_drop_id[of i s] append_take_drop_id[of n "drop i s"] by (simp_all add: add.commute)

lemma byte_eq: "unat (b :: u8) = n \<Longrightarrow> b = of_nat n"
  by (drule sym) simp

lemma list2: "length xs = 2 \<Longrightarrow> xs = [xs ! 0, xs ! 1]"
  by (auto simp: length_Suc_conv numeral_2_eq_2)

lemma list3: "length xs = 3 \<Longrightarrow> xs = [xs ! 0, xs ! 1, xs ! 2]"
  by (auto simp: length_Suc_conv numeral_3_eq_3)

lemma list1: "length xs = 1 \<Longrightarrow> xs = [xs ! 0]"
  by (auto simp: length_Suc_conv)

lemma IsToKeyID_iff: "IsToKeyID s = Some h \<longleftrightarrow> length h = 20 \<and> s = [0x76, 0xa9, 0x14] @ h @ [0x88, 0xac]"
proof
  assume a: "IsToKeyID s = Some h"
  then have l: "length s = 3 + 20 + 2" and h: "h = take 20 (drop 3 s)" and
    b: "s ! 0 = 0x76" "s ! 1 = 0xa9" "s ! 2 = 0x14" "s ! 23 = 0x88" "s ! 24 = 0xac"
    by (auto simp: IsToKeyID_def dest!: byte_eq split: if_splits)
  have "take 3 s = [0x76, 0xa9, 0x14]" using list3[of "take 3 s"] l b by simp
  moreover have "drop 23 s = [0x88, 0xac]" using list2[of "drop 23 s"] l b by simp
  ultimately show "length h = 20 \<and> s = [0x76, 0xa9, 0x14] @ h @ [0x88, 0xac]"
    using split_script[OF l] h by simp
qed (auto simp: IsToKeyID_def nth_append)

lemma IsToScriptID_iff: "IsToScriptID s = Some h \<longleftrightarrow> length h = 20 \<and> s = [0xa9, 0x14] @ h @ [0x87]"
proof
  assume a: "IsToScriptID s = Some h"
  then have l: "length s = 2 + 20 + 1" and h: "h = take 20 (drop 2 s)" and b: "s ! 0 = 0xa9" "s ! 1 = 0x14" "s ! 22 = 0x87"
    by (auto simp: IsToScriptID_def dest!: byte_eq split: if_splits)
  have "take 2 s = [0xa9, 0x14]" using list2[of "take 2 s"] l b by simp
  moreover have "drop 22 s = [0x87]" using list1[of "drop 22 s"] l b by simp
  ultimately show "length h = 20 \<and> s = [0xa9, 0x14] @ h @ [0x87]" using split_script[OF l] h by simp
qed (auto simp: IsToScriptID_def nth_append)

lemma IsToPubKey_Some:
  assumes "IsToPubKey fv s = Some k"
  shows "s = of_nat (length k) # k @ [0xac] \<and> (length k = 33 \<and> (k ! 0 = 2 \<or> k ! 0 = 3) \<or> length k = 65 \<and> k ! 0 = 4 \<and> fv k)"
proof -
  let ?k = "\<lambda>n. take n (drop 1 s)"
  consider "length s = 35" "s ! 0 = 33" "s ! 34 = 0xac" "s ! 1 = 2 \<or> s ! 1 = 3" "k = CPubKey_Set (?k 33)"
    | "length s = 67" "s ! 0 = 65" "s ! 66 = 0xac" "s ! 1 = 4" "k = CPubKey_Set (?k 65)" "fv k"
    using assms by (auto simp: IsToPubKey_def Let_def dest!: byte_eq split: if_splits)
  then obtain n where n: "length s = 1 + n + 1" "s ! 0 = of_nat n" "s ! (1 + n) = 0xac" "k = CPubKey_Set (?k n)"
    "n = 33 \<and> (s ! 1 = 2 \<or> s ! 1 = 3) \<or> n = 65 \<and> s ! 1 = 4 \<and> fv k"
  proof cases
    case 1
    then show ?thesis using that[of 33] by simp
  next
    case 2
    then show ?thesis using that[of 65] by simp
  qed
  have len: "length (?k n) = n" using n(1) by simp
  have k1: "?k n ! 0 = s ! 1" using n(1,5) by auto
  have "hd (?k n) = ?k n ! 0" using len n(5) by (intro hd_conv_nth) auto
  then have k: "k = ?k n" using n(4,5) k1 len by (auto simp: CPubKey_Set_def GetLen_def)
  have "take 1 s = [of_nat n]" using list1[of "take 1 s"] n(1,2) by simp
  moreover have "drop (1 + n) s = [0xac]" using list1[of "drop (1 + n) s"] n(1,3) by simp
  ultimately have "s = of_nat n # k @ [0xac]" using split_script(1)[OF n(1)] k by simp
  then show ?thesis using n(5) k k1 len by auto
qed

lemma ReadVarInt_small: "b AND 0x80 = 0 \<Longrightarrow> ReadVarInt (b # s) = Inr (ucast (b AND 0x7F), s)"
  by (simp add: ReadVarInt_def)

lemma read_special:
  "ReadVarInt (0x00 # s) = Inr (0 :: u32, s)" "ReadVarInt (0x01 # s) = Inr (1 :: u32, s)" "ReadVarInt (0x02 # s) = Inr (2 :: u32, s)"
  "ReadVarInt (0x03 # s) = Inr (3 :: u32, s)" "ReadVarInt (0x04 # s) = Inr (4 :: u32, s)" "ReadVarInt (0x05 # s) = Inr (5 :: u32, s)"
  by (simp_all add: ReadVarInt_small)

lemma low_bit: "(b :: u8) AND 1 = 0 \<or> b AND 1 = 1"
  by (auto simp: and_one_eq mod_2_eq_odd)

lemma Unserialize_special:
  assumes "recovers_keys fv dec" "Compress fv script = Some c"
  shows "Unserialize_script dec [] (c @ r) = Inr (script, r)"
proof -
  consider (key) h where "IsToKeyID script = Some h" "c = 0 # h"
    | (script) h where "IsToScriptID script = Some h" "c = 1 # h"
    | (compressed) k where "IsToPubKey fv script = Some k" "k ! 0 = 2 \<or> k ! 0 = 3" "c = k ! 0 # take 32 (drop 1 k)"
    | (uncompressed) k where "IsToPubKey fv script = Some k" "k ! 0 = 4" "c = (4 OR (k ! 64 AND 1)) # take 32 (drop 1 k)"
    using assms(2) by (auto simp: Compress_def split: option.splits if_splits)
  then show ?thesis
  proof cases
    case key
    then show ?thesis by (simp add: IsToKeyID_iff Unserialize_script_def read_special GetSpecialSize_def Decompress_def nSpecialScripts_def)
  next
    case script
    then show ?thesis by (simp add: IsToScriptID_iff Unserialize_script_def read_special GetSpecialSize_def Decompress_def nSpecialScripts_def)
  next
    case compressed
    then have l: "length k = 33" "script = 33 # k @ [0xac]" using IsToPubKey_Some[of fv script k] by auto
    then have k: "k = k ! 0 # take 32 (drop 1 k)" by (cases k) auto
    have "Unserialize_script dec [] (c @ r) = Inr ([33, k ! 0] @ take 32 (drop 1 k) @ [0xac], r)"
      using compressed(2,3) l(1) by (auto simp: Unserialize_script_def read_special GetSpecialSize_def Decompress_def nSpecialScripts_def)
    then show ?thesis using l(2) k by (metis append_Cons append_Nil)
  next
    case uncompressed
    then have l: "length k = 65" "script = 65 # k @ [0xac]" "fv k" using IsToPubKey_Some[of fv script k] by auto
    then have d: "dec ((2 OR (k ! 64 AND 1)) # take 32 (drop 1 k)) = Some k"
      using assms(1) uncompressed(2) by (simp add: recovers_keys_def)
    have "CPubKey_Set (b # take 32 (drop 1 k)) = b # take 32 (drop 1 k)" if "b = 2 \<or> b = 3" for b
      using that l(1) by (auto simp: CPubKey_Set_def GetLen_def)
    then show ?thesis using low_bit[of "k ! 64"] uncompressed(3) l d
      by (auto simp: Unserialize_script_def read_special GetSpecialSize_def Decompress_def nSpecialScripts_def)
  qed
qed

lemma Unserialize_plain:
  assumes "Compress fv script = None" "length script < 2 ^ 31 - 6"
  shows "Unserialize_script dec [] (Serialize_script fv script @ r) =
    Inr (if length script \<le> MAX_SCRIPT_SIZE then script else [0x6a], r)"
proof -
  let ?n = "of_nat (length script + nSpecialScripts) :: u32"
  have n: "unat ?n = length script + 6" "unat (?n - of_nat nSpecialScripts) = length script"
    using assms(2) by (simp_all add: nSpecialScripts_def unat_of_nat unat_sub_exact unat_add_exact)
  have "sint (?n - of_nat nSpecialScripts) = int (length script)"
    using assms(2) n(2) sint_small[of "?n - of_nat nSpecialScripts"] by simp
  then show ?thesis using n assms(1)
    by (simp add: Unserialize_script_def Serialize_script_def ReadVarInt_WriteVarInt stream_ignore_def push_opcode_def nSpecialScripts_def Let_def)
qed

lemma Compress_length: "Compress fv script = Some c \<Longrightarrow> length script \<le> MAX_SCRIPT_SIZE"
  by (auto simp: Compress_def IsToKeyID_iff IsToScriptID_iff MAX_SCRIPT_SIZE_def dest!: IsToPubKey_Some split: option.splits if_splits)

lemma TxOutCompressor_reads:
  assumes "recovers_keys fv dec" "unat (out_nValue txout) < 2 ^ 60" "length (out_scriptPubKey txout) < 2 ^ 31 - 6"
  shows "\<exists>bs. Serialize_TxOutCompressor fv txout = Some bs \<and>
    Unserialize_TxOutCompressor dec CTxOut_SetNull (bs @ r) =
      Inr (if length (out_scriptPubKey txout) \<le> MAX_SCRIPT_SIZE then txout else txout\<lparr>out_scriptPubKey := [0x6a]\<rparr>, r)"
proof -
  obtain x where x: "CompressAmount (out_nValue txout) = Some x" "DecompressAmount x = out_nValue txout"
    using CompressAmount_round_trip[OF assms(2)] by auto
  have "Unserialize_script dec [] (Serialize_script fv (out_scriptPubKey txout) @ r) =
    Inr (if length (out_scriptPubKey txout) \<le> MAX_SCRIPT_SIZE then out_scriptPubKey txout else [0x6a], r)"
  proof (cases "Compress fv (out_scriptPubKey txout)")
    case None
    then show ?thesis using Unserialize_plain assms(3) by blast
  next
    case (Some c)
    then show ?thesis using Unserialize_special[OF assms(1) Some] Compress_length[OF Some] by (simp add: Serialize_script_def)
  qed
  then show ?thesis using x
    by (cases txout) (simp add: Serialize_TxOutCompressor_def Unserialize_TxOutCompressor_def CTxOut_SetNull_def ReadVarInt_WriteVarInt)
qed

lemma demo_recovers: "recovers_keys demo_IsFullyValid demo_Decompress"
  by (simp add: recovers_keys_def demo_IsFullyValid_def demo_Decompress_def demo_key_def nth_append)

text \<open>
  C40. Outputs round trip through the compressed form of the coin database.  For amounts below two to
  the sixtieth, far beyond the money range, writing never fails the assertion on digits, and reading
  returns the amount and the script, whichever of the special forms the script takes; a script above
  the size limit, which nothing can spend, is replaced by a lone \<open>OP_RETURN\<close>.
\<close>

theorem TxOutCompressor_round_trip:
  assumes "recovers_keys fv dec" "unat (out_nValue txout) < 2 ^ 60" "length (out_scriptPubKey txout) < 2 ^ 31 - 6"
  shows "\<exists>bs. Serialize_TxOutCompressor fv txout = Some bs \<and>
    Unserialize_TxOutCompressor dec CTxOut_SetNull (bs @ r) =
      Inr (if length (out_scriptPubKey txout) \<le> MAX_SCRIPT_SIZE then txout else txout\<lparr>out_scriptPubKey := [0x6a]\<rparr>, r)"
  by (rule TxOutCompressor_reads [OF assms])

theorem TxOutCompressor_round_trip_witness:
  "recovers_keys demo_IsFullyValid demo_Decompress \<and>
   (\<exists>bs. Serialize_TxOutCompressor demo_IsFullyValid \<lparr>out_nValue = 1250000000, out_scriptPubKey = [65] @ demo_key @ [0xac]\<rparr> = Some bs \<and>
     Unserialize_TxOutCompressor demo_Decompress CTxOut_SetNull (bs @ [1]) =
       Inr (\<lparr>out_nValue = 1250000000, out_scriptPubKey = [65] @ demo_key @ [0xac]\<rparr>, [1]))"
proof -
  note r = demo_recovers
  show ?thesis
    using r TxOutCompressor_round_trip[OF r, of "\<lparr>out_nValue = 1250000000, out_scriptPubKey = [65] @ demo_key @ [0xac]\<rparr>" "[1]"]
    by (simp add: demo_key_def MAX_SCRIPT_SIZE_def)
qed

end
