(* ===== verification/CoinsSerialize.thy ===== *)
theory CoinsSerialize
  imports Compressor
begin

text \<open>
  The unspent outputs of one transaction, \<open>CCoins\<close> of \<^verbatim>\<open>sige/src/coins.h\<close> and \<^verbatim>\<open>.cpp\<close>, with the form in which the coin
  database keeps them.  As in the theory of compressed outputs, the validity and the recovery of
  public keys are arguments.
\<close>

section \<open>Coins of a transaction\<close>

record CCoins =
  cc_fCoinBase :: bool
  cc_vout :: "CTxOut list"
  cc_nHeight :: int
  cc_nVersion :: u32

definition CTxOut_IsNull :: "CTxOut \<Rightarrow> bool" where
  "CTxOut_IsNull out \<longleftrightarrow> out_nValue out = - 1"

function Cleanup_vout :: "CTxOut list \<Rightarrow> CTxOut list" where
  "Cleanup_vout vout = (if vout \<noteq> [] \<and> CTxOut_IsNull (last vout) then Cleanup_vout (butlast vout) else vout)"
  by pat_completeness auto
termination by (relation "measure length") auto

declare Cleanup_vout.simps [simp del]

definition Cleanup :: "CCoins \<Rightarrow> CCoins" where
  "Cleanup c = c\<lparr>cc_vout := Cleanup_vout (cc_vout c)\<rparr>"

definition ClearUnspendable :: "CCoins \<Rightarrow> CCoins" where
  "ClearUnspendable c =
    Cleanup (c\<lparr>cc_vout := map (\<lambda>txout. if IsUnspendable (out_scriptPubKey txout) then CTxOut_SetNull else txout) (cc_vout c)\<rparr>)"

definition FromTx :: "CTransaction \<Rightarrow> int \<Rightarrow> CCoins" where
  "FromTx tx nHeightIn =
    ClearUnspendable \<lparr>cc_fCoinBase = IsCoinBase tx, cc_vout = tx_vout tx, cc_nHeight = nHeightIn, cc_nVersion = tx_nVersion tx\<rparr>"

definition CCoins_Clear :: CCoins where
  "CCoins_Clear = \<lparr>cc_fCoinBase = False, cc_vout = [], cc_nHeight = 0, cc_nVersion = 0\<rparr>"

definition IsAvailable :: "CCoins \<Rightarrow> nat \<Rightarrow> bool" where
  "IsAvailable c nPos \<longleftrightarrow> nPos < length (cc_vout c) \<and> \<not> CTxOut_IsNull (cc_vout c ! nPos)"

definition IsPruned :: "CCoins \<Rightarrow> bool" where
  "IsPruned c \<longleftrightarrow> list_all CTxOut_IsNull (cc_vout c)"

definition Spend :: "nat \<Rightarrow> CCoins \<Rightarrow> bool \<times> CCoins" where
  "Spend nPos c =
    (if nPos \<ge> length (cc_vout c) \<or> CTxOut_IsNull (cc_vout c ! nPos) then (False, c)
     else (True, Cleanup (c\<lparr>cc_vout := (cc_vout c)[nPos := CTxOut_SetNull]\<rparr>)))"

section \<open>The stored form\<close>

text \<open>
  A variable-length integer at type \<open>int\<close>.  The comparison that ends the loop is signed: a negative
  number is written as one digit.  Above \<open>0x7F\<close> the loop only meets non-negative numbers, for which it
  runs as on unsigned ones.
\<close>

definition WriteVarInt_int :: "u32 \<Rightarrow> bytes" where
  "WriteVarInt_int n = (if sint n \<le> 0x7F then [ucast (n AND 0x7F)] else WriteVarInt n)"

text \<open>The bytes of the mask that are used, and how many of them are not zero; counts stay far below \<open>2\<^sup>3\<^sup>2\<close>.\<close>

definition mask_byte_zero :: "CTxOut list \<Rightarrow> nat \<Rightarrow> bool" where
  "mask_byte_zero vout b \<longleftrightarrow> list_all (\<lambda>i. CTxOut_IsNull (vout ! i)) [2 + b * 8..<min (2 + b * 8 + 8) (length vout)]"

definition CalcMaskSize :: "CTxOut list \<Rightarrow> nat \<times> nat" where
  "CalcMaskSize vout =
    fold (\<lambda>b (nLastUsedByte, nNonzeroBytes). if mask_byte_zero vout b then (nLastUsedByte, nNonzeroBytes) else (b + 1, nNonzeroBytes + 1))
      [0..<(length vout + 5) div 8] (0, 0)"

definition chAvail :: "CTxOut list \<Rightarrow> nat \<Rightarrow> u8" where
  "chAvail vout b =
    fold (\<lambda>i ch. if 2 + b * 8 + i < length vout \<and> \<not> CTxOut_IsNull (vout ! (2 + b * 8 + i)) then ch OR push_bit i 1 else ch) [0..<8] 0"

primrec Serialize_outs :: "(bytes \<Rightarrow> bool) \<Rightarrow> CTxOut list \<Rightarrow> bytes option" where
  "Serialize_outs IsFullyValid [] = Some []"
| "Serialize_outs IsFullyValid (out # vout) =
    (if CTxOut_IsNull out then Serialize_outs IsFullyValid vout
     else case Serialize_TxOutCompressor IsFullyValid out of
            None \<Rightarrow> None
          | Some b \<Rightarrow> map_option (\<lambda>bs. b @ bs) (Serialize_outs IsFullyValid vout))"

text \<open>\<open>None\<close> is a failed assertion.\<close>

definition CCoins_Serialize :: "(bytes \<Rightarrow> bool) \<Rightarrow> CCoins \<Rightarrow> bytes option" where
  "CCoins_Serialize IsFullyValid c =
    (let vout = cc_vout c; (nMaskSize, nMaskCode) = CalcMaskSize vout;
         fFirst = (length vout > 0 \<and> \<not> CTxOut_IsNull (vout ! 0));
         fSecond = (length vout > 1 \<and> \<not> CTxOut_IsNull (vout ! 1))
     in if \<not> (fFirst \<or> fSecond \<or> nMaskCode \<noteq> 0) then None
        else let nCode = 8 * (of_nat nMaskCode - (if fFirst \<or> fSecond then 0 else 1)) + (if cc_fCoinBase c then 1 else 0) +
                         (if fFirst then 2 else 0) + (if fSecond then 4 else 0) :: u32
             in map_option (\<lambda>outs. WriteVarInt_int (cc_nVersion c) @ WriteVarInt nCode @ map (chAvail vout) [0..<nMaskSize] @ outs @
                    WriteVarInt_int (word_of_int (cc_nHeight c)))
                  (Serialize_outs IsFullyValid vout))"

fun read_mask :: "nat \<Rightarrow> bool list reader" where
  "read_mask nMaskCode [] = (if nMaskCode > 0 then Inl EndOfData else Inr ([], []))"
| "read_mask nMaskCode (ch # s) =
    (if nMaskCode > 0
     then rbind (read_mask (if ch \<noteq> 0 then nMaskCode - 1 else nMaskCode) s) (\<lambda>bits s.
            Inr (map (\<lambda>p. ch AND push_bit p 1 \<noteq> 0) [0..<8] @ bits, s))
     else Inr ([], ch # s))"

primrec read_outs :: "(bytes \<Rightarrow> bytes option) \<Rightarrow> bool list \<Rightarrow> CTxOut list reader" where
  "read_outs pubkey_Decompress [] s = Inr ([], s)"
| "read_outs pubkey_Decompress (f # vAvail) s =
    rbind (if f then Unserialize_TxOutCompressor pubkey_Decompress CTxOut_SetNull s else Inr (CTxOut_SetNull, s)) (\<lambda>out s.
      rbind (read_outs pubkey_Decompress vAvail s) (\<lambda>vout s. Inr (out # vout, s)))"

definition CCoins_Unserialize :: "(bytes \<Rightarrow> bytes option) \<Rightarrow> CCoins reader" where
  "CCoins_Unserialize pubkey_Decompress s =
    rbind (ReadVarInt s) (\<lambda>(nVersion :: u32) s.
    rbind (ReadVarInt s) (\<lambda>(nCode :: u32) s.
    rbind (read_mask (unat (nCode div 8) + (if nCode AND 6 \<noteq> 0 then 0 else 1)) s) (\<lambda>bits s.
    rbind (read_outs pubkey_Decompress ([nCode AND 2 \<noteq> 0, nCode AND 4 \<noteq> 0] @ bits) s) (\<lambda>vout s.
    rbind (ReadVarInt s) (\<lambda>(nHeight :: u32) s.
      Inr (Cleanup \<lparr>cc_fCoinBase = nCode AND 1 \<noteq> 0, cc_vout = vout, cc_nHeight = sint nHeight, cc_nVersion = nVersion\<rparr>, s))))))"

text \<open>
  What the stored form keeps: an output that is not spent, with a script above the size limit
  replaced; no spent outputs at the end; of a negative version or height only the low seven bits.
\<close>

definition varint_kept :: "u32 \<Rightarrow> u32" where
  "varint_kept n = (if sint n < 0 then n AND 0x7F else n)"

definition stored_out :: "CTxOut \<Rightarrow> CTxOut" where
  "stored_out out =
    (if CTxOut_IsNull out then CTxOut_SetNull
     else if length (out_scriptPubKey out) \<le> MAX_SCRIPT_SIZE then out else out\<lparr>out_scriptPubKey := [0x6a]\<rparr>)"

definition stored :: "CCoins \<Rightarrow> CCoins" where
  "stored c = c\<lparr>cc_vout := Cleanup_vout (map stored_out (cc_vout c)), cc_nVersion := varint_kept (cc_nVersion c),
    cc_nHeight := sint (varint_kept (word_of_int (cc_nHeight c)))\<rparr>"

text \<open>Coins that can be written: the code word fits, and so do the amounts and the lengths of scripts.\<close>

definition storable :: "CCoins \<Rightarrow> bool" where
  "storable c \<longleftrightarrow> length (cc_vout c) \<le> MAX_SIZE \<and>
    list_all (\<lambda>out. CTxOut_IsNull out \<or> unat (out_nValue out) < 2 ^ 60 \<and> length (out_scriptPubKey out) < 2 ^ 31 - 6) (cc_vout c)"

text \<open>Coins that are stored as they are.\<close>

definition plain_coins :: "CCoins \<Rightarrow> bool" where
  "plain_coins c \<longleftrightarrow> 0 \<le> sint (cc_nVersion c) \<and> 0 \<le> cc_nHeight c \<and> cc_nHeight c < 2 ^ 31 \<and> Cleanup c = c \<and>
    list_all (\<lambda>out. CTxOut_IsNull out \<and> out = CTxOut_SetNull \<or> \<not> CTxOut_IsNull out \<and> length (out_scriptPubKey out) \<le> MAX_SCRIPT_SIZE) (cc_vout c)"

text \<open>The outputs up to the end of the mask.\<close>

definition masked :: "CTxOut list \<Rightarrow> nat \<Rightarrow> CTxOut list" where
  "masked vout N = take N vout @ replicate (N - length vout) CTxOut_SetNull"

text \<open>Hexadecimal examples.\<close>

definition demo_record :: bytes where
  "demo_record = [0x01, 0x04, 0x83, 0x58, 0x00, 0x81, 0x61, 0x15, 0x94, 0x4e, 0x07, 0x7f, 0xe7, 0xc8, 0x03, 0xcf, 0xa5, 0x7f, 0x29, 0xb3, 0x6b,
    0xf8, 0x7c, 0x1d, 0x35, 0x8b, 0xb8, 0x5e]"

section \<open>Cleaning up\<close>

lemma Cleanup_vout_eq: "Cleanup_vout vout = rev (dropWhile CTxOut_IsNull (rev vout))"
  by (induction vout rule: rev_induct) (subst Cleanup_vout.simps, simp)+

lemma all_null_Cleanup_vout [simp]: "list_all CTxOut_IsNull (Cleanup_vout vout) = list_all CTxOut_IsNull vout"
proof -
  have "list_all CTxOut_IsNull (rev (dropWhile CTxOut_IsNull us)) = list_all CTxOut_IsNull us" for us
    by (induction us) auto
  from this [of "rev vout"] show ?thesis by (simp add: Cleanup_vout_eq)
qed

lemma IsPruned_Cleanup [simp]: "IsPruned (Cleanup c) = IsPruned c"
  by (simp add: IsPruned_def Cleanup_def)

lemma nth_Cleanup_vout: "n < length (Cleanup_vout vout) \<Longrightarrow> Cleanup_vout vout ! n = vout ! n"
proof -
  assume n: "n < length (Cleanup_vout vout)"
  have "vout = Cleanup_vout vout @ rev (takeWhile CTxOut_IsNull (rev vout))"
    by (metis Cleanup_vout_eq rev_append rev_rev_ident takeWhile_dropWhile_id)
  with n show ?thesis by (metis nth_append)
qed

lemma IsAvailable_Cleanup [simp]: "IsAvailable (Cleanup c) n = IsAvailable c n"
proof -
  have *: "vout = Cleanup_vout vout @ rev (takeWhile CTxOut_IsNull (rev vout))" for vout
    by (metis Cleanup_vout_eq rev_append rev_rev_ident takeWhile_dropWhile_id)
  have null: "CTxOut_IsNull (rev (takeWhile CTxOut_IsNull us) ! i)" if "i < length (takeWhile CTxOut_IsNull us)" for us i
    using that by (metis length_rev nth_mem set_rev set_takeWhileD)
  show ?thesis
  proof (cases "n < length (Cleanup_vout (cc_vout c))")
    case True
    moreover have "length (Cleanup_vout (cc_vout c)) \<le> length (cc_vout c)" by (subst (2) *) simp
    ultimately show ?thesis by (simp add: IsAvailable_def Cleanup_def nth_Cleanup_vout)
  next
    case False
    then have "CTxOut_IsNull (cc_vout c ! n)" if "n < length (cc_vout c)"
      using that null [of "n - length (Cleanup_vout (cc_vout c))" "rev (cc_vout c)"] *
      by (metis add_diff_inverse_nat length_append length_rev nat_add_left_cancel_less nth_append)
    with False show ?thesis by (auto simp: IsAvailable_def Cleanup_def)
  qed
qed

section \<open>Integers\<close>

lemma sint_nonneg: "0 \<le> sint (n :: u32) \<Longrightarrow> sint n = uint n"
proof -
  assume a: "0 \<le> sint n"
  have "uint n = uint (word_of_int (sint n) :: u32)" by simp
  also have "\<dots> = sint n mod 2 ^ 32" by (subst uint_word_of_int) simp
  also have "\<dots> = sint n" using a sint_lt [of n] by simp
  finally show ?thesis by simp
qed

lemma seven_bits: "ucast (n AND 0x7F :: u32) AND (0x80 :: u8) = 0" "ucast ((ucast (n AND 0x7F :: u32) :: u8) AND 0x7F) = n AND 0x7F"
proof -
  have m: "(0x7F :: u32) = mask 7" "(0x7F :: u8) = mask 7" by (simp_all add: mask_eq_exp_minus_1)
  show "ucast (n AND 0x7F :: u32) AND (0x80 :: u8) = 0" by (simp add: unsigned_and_eq and.assoc)
  show "ucast ((ucast (n AND 0x7F :: u32) :: u8) AND 0x7F) = n AND 0x7F" unfolding m by (rule bit_word_eqI) (auto simp: bit_simps)
qed

lemma ReadVarInt_WriteVarInt_int: "ReadVarInt (WriteVarInt_int n @ r) = Inr (varint_kept n, r)"
proof (cases "sint n < 0")
  case True
  then show ?thesis by (simp add: WriteVarInt_int_def varint_kept_def ReadVarInt_small seven_bits)
next
  case False
  then have "sint n = uint n" using sint_nonneg by simp
  then have "WriteVarInt_int n = WriteVarInt n"
    by (simp add: WriteVarInt_int_def WriteVarInt_def varint_tmp.simps [of 0] word_le_def)
  with False show ?thesis by (simp add: varint_kept_def ReadVarInt_WriteVarInt)
qed

section \<open>The mask\<close>

lemma read_mask_bytes:
  "bs = [] \<or> last bs \<noteq> 0 \<Longrightarrow>
    read_mask (length (filter (\<lambda>b. b \<noteq> 0) bs)) (bs @ r) = Inr (concat (map (\<lambda>b. map (\<lambda>p. b AND push_bit p 1 \<noteq> 0) [0..<8]) bs), r)"
proof (induction bs)
  case Nil
  then show ?case by (cases r) auto
next
  case (Cons b bs)
  then have "0 < length (filter (\<lambda>b. b \<noteq> 0) (b # bs))" "bs = [] \<or> last bs \<noteq> 0" by (auto simp: filter_empty_conv split: if_splits intro: last_in_set)
  with Cons.IH show ?case by (auto simp: rbind_def)
qed

lemma bit_chAvail_fold:
  "bit (fold (\<lambda>i ch. if P i then ch OR push_bit i 1 else ch) is (w :: u8)) k \<longleftrightarrow> bit w k \<or> k < 8 \<and> k \<in> set is \<and> P k"
  by (induction "is" arbitrary: w) (auto simp: bit_or_iff bit_push_bit_iff push_bit_of_1 bit_exp_iff)

lemma bit_chAvail: "bit (chAvail vout b) k \<longleftrightarrow> k < 8 \<and> 2 + b * 8 + k < length vout \<and> \<not> CTxOut_IsNull (vout ! (2 + b * 8 + k))"
  unfolding chAvail_def bit_chAvail_fold by auto

lemma chAvail_zero: "chAvail vout b = 0 \<longleftrightarrow> mask_byte_zero vout b"
proof -
  have "chAvail vout b = 0 \<longleftrightarrow> (\<forall>k. \<not> bit (chAvail vout b) k)" by (metis bit_0_eq bit_word_eqI bot_apply bot_bool_def)
  also have "\<dots> \<longleftrightarrow> (\<forall>k<8. 2 + b * 8 + k < length vout \<longrightarrow> CTxOut_IsNull (vout ! (2 + b * 8 + k)))" by (auto simp: bit_chAvail)
  also have "\<dots> \<longleftrightarrow> mask_byte_zero vout b"
  proof
    assume a: "\<forall>k<8. 2 + b * 8 + k < length vout \<longrightarrow> CTxOut_IsNull (vout ! (2 + b * 8 + k))"
    have "CTxOut_IsNull (vout ! i)" if i: "2 + b * 8 \<le> i" "i < 2 + b * 8 + 8" "i < length vout" for i
    proof -
      obtain k where "i = 2 + b * 8 + k" using i(1) by (metis le_Suc_ex)
      with a i show ?thesis by simp
    qed
    then show "mask_byte_zero vout b" by (auto simp: mask_byte_zero_def list_all_iff)
  qed (auto simp: mask_byte_zero_def list_all_iff)
  finally show ?thesis .
qed

lemma CalcMaskSize_fold:
  assumes "fold (\<lambda>b (l, n). if Z b then (l, n) else (b + 1, n + 1)) [0..<m] (0, 0) = (l, n)"
  shows "l \<le> m \<and> n = length (filter (\<lambda>b. \<not> Z b) [0..<l]) \<and> (l = 0 \<or> \<not> Z (l - 1)) \<and> (\<forall>b. l \<le> b \<and> b < m \<longrightarrow> Z b)"
  using assms
proof (induction m arbitrary: l n)
  case (Suc m)
  obtain l' n' where f: "fold (\<lambda>b (l, n). if Z b then (l, n) else (b + 1, n + 1)) [0..<m] (0, 0) = (l', n' :: nat)" by fastforce
  note IH = Suc.IH [OF f]
  show ?case
  proof (cases "Z m")
    case True
    then have "l = l'" "n = n'" using Suc.prems f by simp_all
    with IH True show ?thesis by (auto simp: less_Suc_eq)
  next
    case False
    then have ln: "l = Suc m" "n = Suc n'" using Suc.prems f by simp_all
    have "[0..<m] = [0..<l'] @ [l'..<m]" using IH upt_add_eq_append [of 0 l' "m - l'"] by simp
    then have "filter (\<lambda>b. \<not> Z b) [0..<m] = filter (\<lambda>b. \<not> Z b) [0..<l']" using IH by (simp add: filter_empty_conv)
    with IH False show ?thesis by (simp add: ln)
  qed
qed auto

lemma CalcMaskSize_correct:
  assumes "CalcMaskSize vout = (l, n)"
  shows "l \<le> (length vout + 5) div 8 \<and> n = length (filter (\<lambda>b. b \<noteq> 0) (map (chAvail vout) [0..<l])) \<and>
    (map (chAvail vout) [0..<l] = [] \<or> last (map (chAvail vout) [0..<l]) \<noteq> 0) \<and> (\<forall>i. 2 + 8 * l \<le> i \<and> i < length vout \<longrightarrow> CTxOut_IsNull (vout ! i))"
proof -
  note c = CalcMaskSize_fold [of "mask_byte_zero vout", OF assms [unfolded CalcMaskSize_def]]
  have "CTxOut_IsNull (vout ! i)" if i: "2 + 8 * l \<le> i" "i < length vout" for i
  proof -
    define b where "b = (i - 2) div 8"
    have b: "l \<le> b" "b < (length vout + 5) div 8" "2 + b * 8 \<le> i" "i < 2 + b * 8 + 8" using i by (auto simp: b_def)
    then have "mask_byte_zero vout b" using c by blast
    with b i(2) show ?thesis by (auto simp: mask_byte_zero_def list_all_iff)
  qed
  moreover have "filter (\<lambda>b. b \<noteq> 0) (map (chAvail vout) [0..<l]) = map (chAvail vout) (filter (\<lambda>b. \<not> mask_byte_zero vout b) [0..<l])"
    by (simp add: filter_map o_def chAvail_zero)
  moreover have "last (map (chAvail vout) [0..<l]) = chAvail vout (l - 1)" if "l \<noteq> 0" using that by (simp add: last_map)
  ultimately show ?thesis using c by (auto simp: chAvail_zero)
qed

section \<open>Outputs\<close>

lemma IsNull_SetNull [simp]: "CTxOut_IsNull CTxOut_SetNull"
  by (simp add: CTxOut_IsNull_def CTxOut_SetNull_def)

lemma IsNull_stored_out [simp]: "CTxOut_IsNull (stored_out out) = CTxOut_IsNull out"
  by (simp add: stored_out_def CTxOut_IsNull_def CTxOut_SetNull_def)

lemma stored_out_SetNull [simp]: "stored_out CTxOut_SetNull = CTxOut_SetNull"
  by (simp add: stored_out_def CTxOut_IsNull_def CTxOut_SetNull_def)

lemma Serialize_outs_filter: "Serialize_outs fv vout = Serialize_outs fv (filter (\<lambda>out. \<not> CTxOut_IsNull out) vout)"
  by (induction vout) (auto split: option.split)

lemma read_outs_correct:
  assumes "recovers_keys fv dec"
    "list_all (\<lambda>out. CTxOut_IsNull out \<or> unat (out_nValue out) < 2 ^ 60 \<and> length (out_scriptPubKey out) < 2 ^ 31 - 6) ws"
  shows "\<exists>bs. Serialize_outs fv ws = Some bs \<and> (\<forall>r. read_outs dec (map (\<lambda>out. \<not> CTxOut_IsNull out) ws) (bs @ r) = Inr (map stored_out ws, r))"
  using assms(2)
proof (induction ws)
  case (Cons w ws)
  then obtain bs where bs: "Serialize_outs fv ws = Some bs"
      "\<And>r. read_outs dec (map (\<lambda>out. \<not> CTxOut_IsNull out) ws) (bs @ r) = Inr (map stored_out ws, r)" by auto
  show ?case
  proof (cases "CTxOut_IsNull w")
    case True
    with bs show ?thesis by (auto simp: rbind_def stored_out_def)
  next
    case False
    then have "unat (out_nValue w) < 2 ^ 60" "length (out_scriptPubKey w) < 2 ^ 31 - 6" using Cons.prems by auto
    note w = TxOutCompressor_reads [OF assms(1) this]
    then obtain b where b: "Serialize_TxOutCompressor fv w = Some b" by blast
    have "Unserialize_TxOutCompressor dec CTxOut_SetNull (b @ r) = Inr (stored_out w, r)" for r
      using w [of r] b False by (auto simp: stored_out_def)
    with False bs b show ?thesis by (auto simp: rbind_def)
  qed
qed simp

lemma Cleanup_vout_nulls: "list_all CTxOut_IsNull ys \<Longrightarrow> Cleanup_vout (xs @ ys) = Cleanup_vout xs"
  unfolding Cleanup_vout_eq rev_append by (subst dropWhile_append2) (auto simp: list_all_iff)

lemma masked_filter:
  assumes "\<And>i. N \<le> i \<Longrightarrow> i < length vout \<Longrightarrow> CTxOut_IsNull (vout ! i)"
  shows "filter (\<lambda>out. \<not> CTxOut_IsNull out) (masked vout N) = filter (\<lambda>out. \<not> CTxOut_IsNull out) vout"
    and "Cleanup_vout (map stored_out (masked vout N)) = Cleanup_vout (map stored_out vout)"
proof -
  have d: "list_all CTxOut_IsNull (drop N vout)" using assms by (auto simp: list_all_length)
  then have "filter (\<lambda>out. \<not> CTxOut_IsNull out) (drop N vout) = []" by (simp add: filter_empty_conv list_all_iff)
  then have "filter (\<lambda>out. \<not> CTxOut_IsNull out) vout = filter (\<lambda>out. \<not> CTxOut_IsNull out) (take N vout)"
    by (metis append_Nil2 append_take_drop_id filter_append)
  then show "filter (\<lambda>out. \<not> CTxOut_IsNull out) (masked vout N) = filter (\<lambda>out. \<not> CTxOut_IsNull out) vout"
    by (simp add: masked_def filter_empty_conv CTxOut_IsNull_def CTxOut_SetNull_def)
  have "Cleanup_vout (map stored_out vout) = Cleanup_vout (map stored_out (take N vout) @ map stored_out (drop N vout))"
    by (simp flip: map_append)
  then show "Cleanup_vout (map stored_out (masked vout N)) = Cleanup_vout (map stored_out vout)"
    using d by (simp add: masked_def Cleanup_vout_nulls list_all_iff)
qed

lemma masked_avail:
  "map (\<lambda>out. \<not> CTxOut_IsNull out) (masked vout N) = map (\<lambda>i. i < length vout \<and> \<not> CTxOut_IsNull (vout ! i)) [0..<N]"
  by (rule nth_equalityI) (auto simp: masked_def nth_append CTxOut_IsNull_def CTxOut_SetNull_def)

lemma mask_bits:
  fixes vout :: "CTxOut list"
  defines "P \<equiv> \<lambda>i. i < length vout \<and> \<not> CTxOut_IsNull (vout ! i)"
  shows "[P 0, P 1] @ concat (map (\<lambda>b. map (\<lambda>p. b AND push_bit p 1 \<noteq> 0) [0..<8]) (map (chAvail vout) [0..<l])) = map P [0..<2 + 8 * l]"
proof (induction l)
  case 0
  then show ?case by (simp add: numeral_2_eq_2)
next
  case (Suc l)
  have byte: "map (\<lambda>p. chAvail vout l AND push_bit p 1 \<noteq> 0) [0..<8] = map P [2 + 8 * l..<2 + 8 * l + 8]"
    by (rule nth_equalityI) (auto simp: P_def and_exp_eq_0_iff_not_bit bit_chAvail mult.commute)
  have split: "[0..<2 + 8 * Suc l] = [0..<2 + 8 * l] @ [2 + 8 * l..<2 + 8 * l + 8]" using upt_add_eq_append [of 0 "2 + 8 * l" 8] by simp
  show ?case unfolding split map_append Suc.IH [symmetric] byte [symmetric] by simp
qed

section \<open>Reading what was written\<close>

lemma code_bits:
  fixes m :: nat and x y z :: bool
  assumes "m < 2 ^ 28"
  defines "w \<equiv> 8 * of_nat m + (if x then 1 else 0) + (if y then 2 else 0) + (if z then 4 else 0) :: u32"
  shows "w AND 1 \<noteq> 0 \<longleftrightarrow> x" "w AND 2 \<noteq> 0 \<longleftrightarrow> y" "w AND 4 \<noteq> 0 \<longleftrightarrow> z" "w AND 6 \<noteq> 0 \<longleftrightarrow> y \<or> z" "unat (w div 8) = m"
proof -
  define k where "k = 8 * m + (if x then 1 else 0) + (if y then 2 else 0) + (if z then 4 else 0)"
  have w: "w = of_nat k" by (simp add: w_def k_def)
  have k: "k < 2 ^ 32" using assms(1) by (simp add: k_def)
  then have u: "unat w = k" by (simp add: w unat_of_nat take_bit_nat_eq_self)
  have b: "w AND 2 ^ i \<noteq> 0 \<longleftrightarrow> odd (k div 2 ^ i)" for i
  proof -
    have "bit w i \<longleftrightarrow> bit (unat w) i" by (simp add: bit_unsigned_iff)
    then show ?thesis by (simp add: and_exp_eq_0_iff_not_bit bit_iff_odd u)
  qed
  have "odd k \<longleftrightarrow> x" "odd (k div 2) \<longleftrightarrow> y" "odd (k div 4) \<longleftrightarrow> z" unfolding k_def by (cases x; cases y; cases z; simp; presburger)+
  then show "w AND 1 \<noteq> 0 \<longleftrightarrow> x" "w AND 2 \<noteq> 0 \<longleftrightarrow> y" "w AND 4 \<noteq> 0 \<longleftrightarrow> z"
    using b [of 0] b [of 1] b [of 2] by simp_all
  then show "w AND 6 \<noteq> 0 \<longleftrightarrow> y \<or> z"
    using bit.conj_disj_distrib [of w 2 4] by (auto simp: or_eq_0_iff)
  have "k div 8 = m" unfolding k_def by (cases x; cases y; cases z; simp; presburger)
  then show "unat (w div 8) = m" by (simp add: unat_div u)
qed

lemma CCoins_reads:
  assumes keys: "recovers_keys fv dec" and c: "storable c" "\<not> IsPruned c"
  shows "\<exists>bs. CCoins_Serialize fv c = Some bs \<and> (\<forall>r. CCoins_Unserialize dec (bs @ r) = Inr (stored c, r))"
proof -
  define vout where "vout = cc_vout c"
  define P where "P = (\<lambda>i. i < length vout \<and> \<not> CTxOut_IsNull (vout ! i))"
  obtain l n where ln: "CalcMaskSize vout = (l, n)" by fastforce
  note mask = CalcMaskSize_correct [OF ln]
  let ?bytes = "map (chAvail vout) [0..<l]"
  have n: "n = length (filter (\<lambda>b. b \<noteq> 0) ?bytes)" using mask by blast
  then have "n \<le> l" by (metis length_filter_le length_map length_upt minus_nat.diff_0)
  moreover have "l \<le> (length vout + 5) div 8" using mask by blast
  moreover have "length vout \<le> 33554432" using c(1) by (simp add: storable_def vout_def MAX_SIZE_def)
  ultimately have small: "n - (if P 0 \<or> P 1 then 0 else 1) < 2 ^ 28" by simp
  have some: "P 0 \<or> P 1 \<or> 0 < n"
  proof (rule ccontr)
    assume none: "\<not> (P 0 \<or> P 1 \<or> 0 < n)"
    then have "l = 0" using mask n by (cases l) (auto simp: filter_empty_conv)
    then have "CTxOut_IsNull (vout ! i)" if "i < length vout" for i
      using mask none that by (cases "i < 2") (auto simp: P_def less_2_cases_iff)
    then show False using c(2) by (simp add: IsPruned_def vout_def list_all_length)
  qed
  let ?ws = "masked vout (2 + 8 * l)"
  have "list_all (\<lambda>out. CTxOut_IsNull out \<or> unat (out_nValue out) < 2 ^ 60 \<and> length (out_scriptPubKey out) < 2 ^ 31 - 6) ?ws"
    using c(1) by (auto simp: storable_def vout_def masked_def list_all_iff dest: in_set_takeD)
  from read_outs_correct [OF keys this] obtain outs where outs: "Serialize_outs fv ?ws = Some outs"
      "\<And>r. read_outs dec (map (\<lambda>out. \<not> CTxOut_IsNull out) ?ws) (outs @ r) = Inr (map stored_out ?ws, r)" by blast
  have M: "filter (\<lambda>out. \<not> CTxOut_IsNull out) ?ws = filter (\<lambda>out. \<not> CTxOut_IsNull out) vout"
      "Cleanup_vout (map stored_out ?ws) = Cleanup_vout (map stored_out vout)"
    by (rule masked_filter, use mask in blast)+
  have ser: "Serialize_outs fv vout = Some outs" using outs(1) M(1) by (metis Serialize_outs_filter)
  have avail: "[P 0, P 1] @ concat (map (\<lambda>b. map (\<lambda>p. b AND push_bit p 1 \<noteq> 0) [0..<8]) ?bytes) = map (\<lambda>out. \<not> CTxOut_IsNull out) ?ws"
    unfolding masked_avail P_def by (rule mask_bits)
  define code where "code = 8 * of_nat (n - (if P 0 \<or> P 1 then 0 else 1)) + (if cc_fCoinBase c then 1 else 0) + (if P 0 then 2 else 0) + (if P 1 then 4 else 0 :: u32)"
  note bits = code_bits [OF small, of "cc_fCoinBase c" "P 0" "P 1", folded code_def]
  have "n - (if P 0 \<or> P 1 then 0 else 1) + (if P 0 \<or> P 1 then 0 else 1) = n" using some by auto
  then have rm: "read_mask (unat (code div 8) + (if code AND 6 \<noteq> 0 then 0 else 1)) (?bytes @ r) =
      Inr (concat (map (\<lambda>b. map (\<lambda>p. b AND push_bit p 1 \<noteq> 0) [0..<8]) ?bytes), r)" for r
    unfolding bits using read_mask_bytes [of ?bytes r] mask n by metis
  have code: "8 * (of_nat n - (if P 0 \<or> P 1 then 0 else 1)) + (if cc_fCoinBase c then 1 else 0) + (if P 0 then 2 else 0) + (if P 1 then 4 else 0) = code"
    using some by (auto simp: code_def of_nat_diff)
  have "CCoins_Serialize fv c = Some (WriteVarInt_int (cc_nVersion c) @ WriteVarInt code @ ?bytes @ outs @ WriteVarInt_int (word_of_int (cc_nHeight c)))"
  proof -
    have P: "(0 < length vout \<and> \<not> CTxOut_IsNull (vout ! 0)) = P 0" "(1 < length vout \<and> \<not> CTxOut_IsNull (vout ! 1)) = P 1" by (simp_all add: P_def)
    show ?thesis unfolding CCoins_Serialize_def vout_def [symmetric] ln Let_def prod.case P code ser using some by simp
  qed
  moreover have "CCoins_Unserialize dec ((WriteVarInt_int (cc_nVersion c) @ WriteVarInt code @ ?bytes @ outs @ WriteVarInt_int (word_of_int (cc_nHeight c))) @ r) =
      Inr (stored c, r)" for r
    unfolding CCoins_Unserialize_def append_assoc ReadVarInt_WriteVarInt_int ReadVarInt_WriteVarInt rbind_def sum.case prod.case rm
    unfolding bits avail outs(2) sum.case prod.case ReadVarInt_WriteVarInt_int Cleanup_def CCoins.simps M(2)
    by (cases c) (simp add: stored_def vout_def)
  ultimately show ?thesis by blast
qed

lemma sint_height: "0 \<le> h \<Longrightarrow> h < 2 ^ 31 \<Longrightarrow> sint (word_of_int h :: u32) = h"
proof -
  assume h: "0 \<le> h" "h < 2 ^ 31"
  then obtain k where k: "h = int k" "k < 2 ^ 31" by (metis nat_0_le of_nat_less_iff of_nat_numeral of_nat_power)
  then have "unat (word_of_int h :: u32) = k" by (simp add: unat_of_nat)
  with k show ?thesis by (subst sint_small) simp_all
qed

text \<open>Coins with a version and a height that are not negative, and without spent outputs at the end, are stored as they are.\<close>

lemma stored_plain: "plain_coins c \<Longrightarrow> stored c = c"
proof -
  assume p: "plain_coins c"
  have "map stored_out (cc_vout c) = cc_vout c"
    using p by (intro map_idI) (auto simp: plain_coins_def stored_out_def list_all_iff)
  moreover have "Cleanup_vout (cc_vout c) = cc_vout c" using p by (cases c) (simp add: plain_coins_def Cleanup_def)
  moreover have "sint (word_of_int (cc_nHeight c) :: u32) = cc_nHeight c" using p by (simp add: plain_coins_def sint_height)
  ultimately show ?thesis using p by (cases c) (simp add: stored_def plain_coins_def varint_kept_def)
qed

lemma IsPruned_stored [simp]: "IsPruned (stored c) = IsPruned c"
  by (simp add: IsPruned_def stored_def) (simp add: list_all_iff)

text \<open>Of an output what is kept is its amount, and its script up to the size limit.\<close>

lemma stored_available:
  shows "IsAvailable (stored c) n = IsAvailable c n"
    and "IsAvailable c n \<Longrightarrow> length (out_scriptPubKey (cc_vout c ! n)) \<le> MAX_SCRIPT_SIZE \<Longrightarrow> cc_vout (stored c) ! n = cc_vout c ! n"
proof -
  let ?d = "c\<lparr>cc_vout := map stored_out (cc_vout c)\<rparr>"
  have a: "IsAvailable (stored c) n = IsAvailable (Cleanup ?d) n" by (simp add: IsAvailable_def stored_def Cleanup_def)
  also have "\<dots> = IsAvailable c n" unfolding IsAvailable_Cleanup by (auto simp: IsAvailable_def)
  finally show s: "IsAvailable (stored c) n = IsAvailable c n" .
  assume c: "IsAvailable c n" "length (out_scriptPubKey (cc_vout c ! n)) \<le> MAX_SCRIPT_SIZE"
  then have "n < length (Cleanup_vout (map stored_out (cc_vout c)))" using s by (simp add: IsAvailable_def stored_def)
  with c show "cc_vout (stored c) ! n = cc_vout c ! n" by (simp add: stored_def nth_Cleanup_vout IsAvailable_def stored_out_def)
qed

text \<open>
  The examples of the comment on \<open>CCoins\<close> and of its unit test, and a negative version: \<open>- 1\<close> is read back as 127.
\<close>

lemma demo_record_read:
  "CCoins_Unserialize demo_Decompress demo_record =
    Inr (\<lparr>cc_fCoinBase = False, cc_vout = [CTxOut_SetNull, \<lparr>out_nValue = 60000000000,
      out_scriptPubKey = [0x76, 0xa9, 20] @ take 20 (drop 5 demo_record) @ [0x88, 0xac]\<rparr>], cc_nHeight = 203998, cc_nVersion = 1\<rparr>, [])"
  by code_simp

lemma negative_version_lost:
  "varint_kept (- 1) = 127 \<and> CCoins_Serialize demo_IsFullyValid \<lparr>cc_fCoinBase = False, cc_vout = [\<lparr>out_nValue = 0, out_scriptPubKey = []\<rparr>], cc_nHeight = 0, cc_nVersion = - 1\<rparr> =
    Some [0x7f, 0x02, 0x00, 0x06, 0x00]"
  by code_simp

end
