(* ===== verification/Coins.thy ===== *)
theory Coins
  imports CoinsSerialize "HOL-Library.AList"
begin

text \<open>
  Views of the unspent outputs, \<^verbatim>\<open>sige/src/coins.h\<close> and \<^verbatim>\<open>.cpp\<close>, with the coin database of \<^verbatim>\<open>sige/src/txdb.cpp\<close> as
  their last backing view.  A view is the database or a cache on top of a view; lookups fill the
  caches, so they return the view as well.  The hash map of a cache is an association list in the
  order of iteration.  The database holds each transaction's coins as the bytes \<open>CCoins\<close> writes, by
  transaction id; the key-value store below it keeps what is written.  Memory accounting is left out.
\<close>

section \<open>Views\<close>

record CCoinsCacheEntry =
  ce_coins :: CCoins
  ce_flags :: u8

definition DIRTY :: u8 where "DIRTY = 1"
definition FRESH :: u8 where "FRESH = 2"

definition is_dirty :: "CCoinsCacheEntry \<Rightarrow> bool" where "is_dirty e \<longleftrightarrow> ce_flags e AND DIRTY \<noteq> 0"
definition is_fresh :: "CCoinsCacheEntry \<Rightarrow> bool" where "is_fresh e \<longleftrightarrow> ce_flags e AND FRESH \<noteq> 0"

type_synonym CCoinsMap = "(bytes \<times> CCoinsCacheEntry) list"

text \<open>The public-key operations the compressed form of the database uses.\<close>

record pubkey_lib =
  pk_IsFullyValid :: "bytes \<Rightarrow> bool"
  pk_Decompress :: "bytes \<Rightarrow> bytes option"

datatype CCoinsView =
    CCoinsViewDB pubkey_lib "(bytes \<times> bytes) list" bytes
  | CCoinsViewCache (cacheCoins: CCoinsMap) (cv_hashBlock: bytes) (hasModifier: bool) (cv_base: CCoinsView)

datatype coins_error = CoinsAssert | CoinsLogicError

text \<open>
  Reading the database: a record that cannot be read counts as absent.  So does one whose key the
  library recovers with a length other than 65, where the program stops at an assertion.
\<close>

definition db_read :: "pubkey_lib \<Rightarrow> (bytes \<times> bytes) list \<Rightarrow> bytes \<Rightarrow> CCoins option" where
  "db_read lib db txid =
    (case map_of db txid of
       None \<Rightarrow> None
     | Some strValue \<Rightarrow> (case CCoins_Unserialize (pk_Decompress lib) strValue of Inl _ \<Rightarrow> None | Inr (coins, _) \<Rightarrow> Some coins))"

text \<open>Looking up coins, \<open>FetchCoins\<close> and \<open>GetCoins\<close>.\<close>

primrec GetCoins :: "CCoinsView \<Rightarrow> bytes \<Rightarrow> CCoins option \<times> CCoinsView" where
  "GetCoins (CCoinsViewDB lib db best) txid = (db_read lib db txid, CCoinsViewDB lib db best)"
| "GetCoins (CCoinsViewCache m h md bs) txid =
    (case map_of m txid of
       Some e \<Rightarrow> (Some (ce_coins e), CCoinsViewCache m h md bs)
     | None \<Rightarrow>
         (case GetCoins bs txid of
            (None, bs) \<Rightarrow> (None, CCoinsViewCache m h md bs)
          | (Some tmp, bs) \<Rightarrow>
              (Some tmp, CCoinsViewCache (AList.update txid \<lparr>ce_coins = tmp, ce_flags = (if IsPruned tmp then FRESH else 0)\<rparr> m) h md bs)))"

definition HaveCoins :: "CCoinsView \<Rightarrow> bytes \<Rightarrow> bool \<times> CCoinsView" where
  "HaveCoins v txid =
    (case v of
       CCoinsViewDB lib db best \<Rightarrow> (map_of db txid \<noteq> None, v)
     | CCoinsViewCache _ _ _ _ \<Rightarrow>
         (case GetCoins v txid of (r, v) \<Rightarrow> ((case r of None \<Rightarrow> False | Some c \<Rightarrow> cc_vout c \<noteq> []), v)))"

definition uint256_IsNull :: "bytes \<Rightarrow> bool" where "uint256_IsNull h \<longleftrightarrow> list_all (\<lambda>b. b = 0) h"

primrec CoinsView_GetBestBlock :: "CCoinsView \<Rightarrow> bytes \<times> CCoinsView" where
  "CoinsView_GetBestBlock (CCoinsViewDB lib db best) = (best, CCoinsViewDB lib db best)"
| "CoinsView_GetBestBlock (CCoinsViewCache m h md bs) =
    (if uint256_IsNull h then case CoinsView_GetBestBlock bs of (h, bs) \<Rightarrow> (h, CCoinsViewCache m h md bs)
     else (h, CCoinsViewCache m h md bs))"

definition SetBestBlock :: "CCoinsView \<Rightarrow> bytes \<Rightarrow> CCoinsView" where
  "SetBestBlock v h = (case v of CCoinsViewDB lib db best \<Rightarrow> v | CCoinsViewCache m _ md bs \<Rightarrow> CCoinsViewCache m h md bs)"

text \<open>
  A modification: \<open>ModifyCoins\<close> and \<open>ModifyNewCoins\<close> open it, the client changes the coins of the entry,
  and the destructor of the modifier closes it.  Only caches have these operations.
\<close>

definition ModifyCoins :: "CCoinsView \<Rightarrow> bytes \<Rightarrow> coins_error + CCoinsView" where
  "ModifyCoins v txid =
    (case v of
       CCoinsViewDB _ _ _ \<Rightarrow> Inl CoinsAssert
     | CCoinsViewCache m h md bs \<Rightarrow>
         if md then Inl CoinsAssert
         else case (case map_of m txid of
                      Some e \<Rightarrow> (e, bs)
                    | None \<Rightarrow>
                        (case GetCoins bs txid of
                           (None, bs) \<Rightarrow> (\<lparr>ce_coins = CCoins_Clear, ce_flags = FRESH\<rparr>, bs)
                         | (Some c, bs) \<Rightarrow> (\<lparr>ce_coins = c, ce_flags = (if IsPruned c then FRESH else 0)\<rparr>, bs))) of
                (e, bs) \<Rightarrow> Inr (CCoinsViewCache (AList.update txid (e\<lparr>ce_flags := ce_flags e OR DIRTY\<rparr>) m) h True bs))"

definition ModifyNewCoins :: "CCoinsView \<Rightarrow> bytes \<Rightarrow> bool \<Rightarrow> coins_error + CCoinsView" where
  "ModifyNewCoins v txid coinbase =
    (case v of
       CCoinsViewDB _ _ _ \<Rightarrow> Inl CoinsAssert
     | CCoinsViewCache m h md bs \<Rightarrow>
         if md then Inl CoinsAssert
         else let e = (case map_of m txid of Some e \<Rightarrow> e | None \<Rightarrow> \<lparr>ce_coins = CCoins_Clear, ce_flags = 0\<rparr>)
              in if \<not> coinbase \<and> \<not> IsPruned (ce_coins e) then Inl CoinsLogicError
                 else let flags = (if \<not> coinbase \<and> ce_flags e AND DIRTY = 0 then ce_flags e OR FRESH else ce_flags e)
                      in Inr (CCoinsViewCache (AList.update txid \<lparr>ce_coins = CCoins_Clear, ce_flags = flags OR DIRTY\<rparr> m) h True bs))"

definition modified_coins :: "CCoinsView \<Rightarrow> bytes \<Rightarrow> CCoins" where
  "modified_coins v txid = (case v of CCoinsViewDB _ _ _ \<Rightarrow> CCoins_Clear | CCoinsViewCache m _ _ _ \<Rightarrow>
    (case map_of m txid of Some e \<Rightarrow> ce_coins e | None \<Rightarrow> CCoins_Clear))"

definition set_modified_coins :: "CCoinsView \<Rightarrow> bytes \<Rightarrow> CCoins \<Rightarrow> CCoinsView" where
  "set_modified_coins v txid c =
    (case v of
       CCoinsViewDB _ _ _ \<Rightarrow> v
     | CCoinsViewCache m h md bs \<Rightarrow>
         CCoinsViewCache (case map_of m txid of Some e \<Rightarrow> AList.update txid (e\<lparr>ce_coins := c\<rparr>) m | None \<Rightarrow> m) h md bs)"

definition end_modifier :: "CCoinsView \<Rightarrow> bytes \<Rightarrow> coins_error + CCoinsView" where
  "end_modifier v txid =
    (case v of
       CCoinsViewDB _ _ _ \<Rightarrow> Inl CoinsAssert
     | CCoinsViewCache m h md bs \<Rightarrow>
         if \<not> md then Inl CoinsAssert
         else case map_of m txid of
                None \<Rightarrow> Inl CoinsAssert
              | Some e \<Rightarrow>
                  let e = e\<lparr>ce_coins := Cleanup (ce_coins e)\<rparr>
                  in Inr (CCoinsViewCache (if is_fresh e \<and> IsPruned (ce_coins e) then AList.delete txid m else AList.update txid e m) h False bs))"

text \<open>A scope in which the client changes the coins of \<open>txid\<close> through a modifier by \<open>f\<close>.\<close>

definition with_modifier :: "coins_error + CCoinsView \<Rightarrow> bytes \<Rightarrow> (CCoins \<Rightarrow> coins_error + 'r \<times> CCoins) \<Rightarrow> coins_error + 'r \<times> CCoinsView" where
  "with_modifier opened txid f =
    ebind opened (\<lambda>v. ebind (f (modified_coins v txid)) (\<lambda>(r, c).
      ebind (end_modifier (set_modified_coins v txid c) txid) (\<lambda>v. Inr (r, v))))"

text \<open>Writing a batch of entries into a view.\<close>

definition batch_entry :: "CCoinsMap \<Rightarrow> bytes \<times> CCoinsCacheEntry \<Rightarrow> coins_error + CCoinsMap" where
  "batch_entry m it =
    (case it of (txid, e) \<Rightarrow>
       if is_dirty e
       then case map_of m txid of
              None \<Rightarrow>
                if is_fresh e \<and> IsPruned (ce_coins e) then Inr m
                else Inr (AList.update txid \<lparr>ce_coins = ce_coins e, ce_flags = (if is_fresh e then DIRTY OR FRESH else DIRTY)\<rparr> m)
            | Some us \<Rightarrow>
                if is_fresh e \<and> \<not> IsPruned (ce_coins us) then Inl CoinsLogicError
                else if is_fresh us \<and> IsPruned (ce_coins e) then Inr (AList.delete txid m)
                else Inr (AList.update txid \<lparr>ce_coins = ce_coins e, ce_flags = ce_flags us OR DIRTY\<rparr> m)
       else Inr m)"

primrec batch_entries :: "CCoinsMap \<Rightarrow> CCoinsMap \<Rightarrow> coins_error + CCoinsMap" where
  "batch_entries [] m = Inr m"
| "batch_entries (it # its) m = ebind (batch_entry m it) (batch_entries its)"

definition db_entry :: "pubkey_lib \<Rightarrow> (bytes \<times> bytes) list \<Rightarrow> bytes \<times> CCoinsCacheEntry \<Rightarrow> coins_error + (bytes \<times> bytes) list" where
  "db_entry lib db it =
    (case it of (txid, e) \<Rightarrow>
       if is_dirty e
       then if IsPruned (ce_coins e) then Inr (AList.delete txid db)
            else case CCoins_Serialize (pk_IsFullyValid lib) (ce_coins e) of
                   None \<Rightarrow> Inl CoinsAssert
                 | Some strValue \<Rightarrow> Inr (AList.update txid strValue db)
       else Inr db)"

primrec db_entries :: "pubkey_lib \<Rightarrow> CCoinsMap \<Rightarrow> (bytes \<times> bytes) list \<Rightarrow> coins_error + (bytes \<times> bytes) list" where
  "db_entries lib [] db = Inr db"
| "db_entries lib (it # its) db = ebind (db_entry lib db it) (db_entries lib its)"

definition BatchWrite :: "CCoinsView \<Rightarrow> CCoinsMap \<Rightarrow> bytes \<Rightarrow> coins_error + CCoinsView" where
  "BatchWrite v mapCoins hashBlockIn =
    (case v of
       CCoinsViewDB lib db best \<Rightarrow>
         ebind (db_entries lib mapCoins db) (\<lambda>db. Inr (CCoinsViewDB lib db (if \<not> uint256_IsNull hashBlockIn then hashBlockIn else best)))
     | CCoinsViewCache m h md bs \<Rightarrow>
         if md then Inl CoinsAssert
         else ebind (batch_entries mapCoins m) (\<lambda>m. Inr (CCoinsViewCache m hashBlockIn md bs)))"

definition Flush :: "CCoinsView \<Rightarrow> coins_error + CCoinsView" where
  "Flush v =
    (case v of
       CCoinsViewDB _ _ _ \<Rightarrow> Inl CoinsAssert
     | CCoinsViewCache m h md bs \<Rightarrow> ebind (BatchWrite bs m h) (\<lambda>bs. Inr (CCoinsViewCache [] h md bs)))"

definition Uncache :: "CCoinsView \<Rightarrow> bytes \<Rightarrow> CCoinsView" where
  "Uncache v txid =
    (case v of
       CCoinsViewDB _ _ _ \<Rightarrow> v
     | CCoinsViewCache m h md bs \<Rightarrow>
         (case map_of m txid of
            None \<Rightarrow> v
          | Some e \<Rightarrow> if ce_flags e = 0 then CCoinsViewCache (AList.delete txid m) h md bs else v))"

definition GetOutputFor :: "CCoinsView \<Rightarrow> CTxIn \<Rightarrow> coins_error + CTxOut \<times> CCoinsView" where
  "GetOutputFor v input =
    (case GetCoins v (po_hash (in_prevout input)) of
       (Some coins, v) \<Rightarrow>
         if IsAvailable coins (unat (po_n (in_prevout input))) then Inr (cc_vout coins ! unat (po_n (in_prevout input)), v) else Inl CoinsAssert
     | (None, v) \<Rightarrow> Inl CoinsAssert)"

primrec add_inputs :: "CTxIn list \<Rightarrow> CAmount \<Rightarrow> CCoinsView \<Rightarrow> coins_error + CAmount \<times> CCoinsView" where
  "add_inputs [] nResult v = Inr (nResult, v)"
| "add_inputs (i # vin) nResult v = ebind (GetOutputFor v i) (\<lambda>(out, v). add_inputs vin (nResult + out_nValue out) v)"

definition GetValueIn :: "CCoinsView \<Rightarrow> CTransaction \<Rightarrow> coins_error + CAmount \<times> CCoinsView" where
  "GetValueIn v tx = (if IsCoinBase tx then Inr (0, v) else add_inputs (tx_vin tx) 0 v)"

primrec have_inputs :: "CTxIn list \<Rightarrow> CCoinsView \<Rightarrow> bool \<times> CCoinsView" where
  "have_inputs [] v = (True, v)"
| "have_inputs (i # vin) v =
    (case GetCoins v (po_hash (in_prevout i)) of
       (r, v) \<Rightarrow>
         if (case r of None \<Rightarrow> True | Some coins \<Rightarrow> \<not> IsAvailable coins (unat (po_n (in_prevout i)))) then (False, v)
         else have_inputs vin v)"

definition HaveInputs :: "CCoinsView \<Rightarrow> CTransaction \<Rightarrow> bool \<times> CCoinsView" where
  "HaveInputs v tx = (if \<not> IsCoinBase tx then have_inputs (tx_vin tx) v else (True, v))"

text \<open>
  The abstraction: the unspent coins a view stands for, where fully spent coins count as absent, and
  the invariant of caches: an entry that is not dirty agrees with the view below, and below a fresh
  entry there is nothing unspent.
\<close>

definition unspent :: "CCoins \<Rightarrow> CCoins option" where
  "unspent c = (if IsPruned c then None else Some c)"

definition entry_ok :: "(bytes \<Rightarrow> CCoins option) \<Rightarrow> bytes \<Rightarrow> CCoinsCacheEntry \<Rightarrow> bool" where
  "entry_ok below txid e \<longleftrightarrow> (\<not> is_dirty e \<longrightarrow> unspent (ce_coins e) = below txid) \<and> (is_fresh e \<longrightarrow> below txid = None)"

text \<open>The coins of a cache over a view with coins \<open>below\<close>.\<close>

definition cached :: "CCoinsMap \<Rightarrow> (bytes \<Rightarrow> CCoins option) \<Rightarrow> bytes \<Rightarrow> CCoins option" where
  "cached m below txid = (case map_of m txid of Some e \<Rightarrow> unspent (ce_coins e) | None \<Rightarrow> below txid)"

definition coins_cache_ok :: "CCoinsMap \<Rightarrow> (bytes \<Rightarrow> CCoins option) \<Rightarrow> bool" where
  "coins_cache_ok m below \<longleftrightarrow> distinct (map fst m) \<and> (\<forall>txid e. map_of m txid = Some e \<longrightarrow> entry_ok below txid e)"

text \<open>
  The coins after the dirty entries of a batch have been written into a view that keeps \<open>keep c\<close> of coins \<open>c\<close>.
\<close>

definition written :: "(CCoins \<Rightarrow> CCoins) \<Rightarrow> CCoinsMap \<Rightarrow> (bytes \<Rightarrow> CCoins option) \<Rightarrow> bytes \<Rightarrow> CCoins option" where
  "written keep mapCoins below txid =
    (case map_of mapCoins txid of Some e \<Rightarrow> if is_dirty e then map_option keep (unspent (ce_coins e)) else below txid | None \<Rightarrow> below txid)"

definition dirty_in :: "CCoinsMap \<Rightarrow> bytes \<Rightarrow> bool" where
  "dirty_in m txid \<longleftrightarrow> (case map_of m txid of None \<Rightarrow> False | Some e \<Rightarrow> is_dirty e)"

text \<open>What a view keeps of the coins written into it, and the batches it can take.\<close>

definition kept_by :: "CCoinsView \<Rightarrow> CCoins \<Rightarrow> CCoins" where
  "kept_by v = (case v of CCoinsViewDB _ _ _ \<Rightarrow> stored | CCoinsViewCache _ _ _ _ \<Rightarrow> (\<lambda>c. c))"

definition takes_batch :: "CCoinsView \<Rightarrow> CCoinsMap \<Rightarrow> bool" where
  "takes_batch v m \<longleftrightarrow>
    (case v of
       CCoinsViewDB lib _ _ \<Rightarrow> recovers_keys (pk_IsFullyValid lib) (pk_Decompress lib) \<and>
         list_all (\<lambda>(txid, e). is_dirty e \<and> \<not> IsPruned (ce_coins e) \<longrightarrow> storable (ce_coins e)) m
     | CCoinsViewCache _ _ _ _ \<Rightarrow> True)"

primrec coins_of :: "CCoinsView \<Rightarrow> bytes \<Rightarrow> CCoins option" where
  "coins_of (CCoinsViewDB lib db best) txid = Option.bind (db_read lib db txid) unspent"
| "coins_of (CCoinsViewCache m h md bs) txid = cached m (coins_of bs) txid"

primrec view_ok :: "CCoinsView \<Rightarrow> bool" where
  "view_ok (CCoinsViewDB lib db best) = distinct (map fst db)"
| "view_ok (CCoinsViewCache m h md bs) =
    (view_ok bs \<and> coins_cache_ok m (coins_of bs))"

primrec idle :: "CCoinsView \<Rightarrow> bool" where
  "idle (CCoinsViewDB lib db best) = True"
| "idle (CCoinsViewCache m h md bs) = (\<not> md \<and> idle bs)"

definition ready :: "CCoinsView \<Rightarrow> bool" where
  "ready v \<longleftrightarrow> (case v of CCoinsViewDB _ _ _ \<Rightarrow> False | CCoinsViewCache _ _ _ _ \<Rightarrow> view_ok v \<and> idle v)"

text \<open>The set of unspent outputs, by outpoint.\<close>

definition utxo :: "CCoinsView \<Rightarrow> COutPoint \<Rightarrow> CTxOut option" where
  "utxo v po =
    (case coins_of v (po_hash po) of
       None \<Rightarrow> None
     | Some c \<Rightarrow> if IsAvailable c (unat (po_n po)) then Some (cc_vout c ! unat (po_n po)) else None)"


text \<open>What a lookup keeps of a view.\<close>

definition same_view :: "CCoinsView \<Rightarrow> CCoinsView \<Rightarrow> bool" where
  "same_view v v' \<longleftrightarrow> view_ok v' \<and> coins_of v' = coins_of v \<and> idle v' = idle v \<and> ready v' = ready v"

text \<open>A cache over a cache over an empty database, for the examples.\<close>

definition demo_coins :: CCoins where
  "demo_coins = \<lparr>cc_fCoinBase = False, cc_vout = [\<lparr>out_nValue = 7, out_scriptPubKey = [81]\<rparr>], cc_nHeight = 3, cc_nVersion = 1\<rparr>"

definition demo_lib :: pubkey_lib where
  "demo_lib = \<lparr>pk_IsFullyValid = demo_IsFullyValid, pk_Decompress = demo_Decompress\<rparr>"

definition demo_view :: CCoinsView where
  "demo_view = CCoinsViewCache
    [([1], \<lparr>ce_coins = demo_coins, ce_flags = DIRTY OR FRESH\<rparr>), ([2], \<lparr>ce_coins = CCoins_Clear, ce_flags = DIRTY\<rparr>)] [9] False
    (CCoinsViewCache [([2], \<lparr>ce_coins = demo_coins, ce_flags = DIRTY\<rparr>)] [8] False (CCoinsViewDB demo_lib [] [7]))"

text \<open>A cache over the database, with coins of a negative version.\<close>

definition demo_saved :: CCoinsView where
  "demo_saved = CCoinsViewCache [([1], \<lparr>ce_coins = demo_coins\<lparr>cc_nVersion := - 1\<rparr>, ce_flags = DIRTY OR FRESH\<rparr>)] [9] False (CCoinsViewDB demo_lib [] [7])"

section \<open>Coins and flags\<close>

lemma unspent_None [simp]: "unspent c = None \<longleftrightarrow> IsPruned c"
  by (simp add: unspent_def)

lemma unspent_pruned [simp]: "IsPruned c \<Longrightarrow> unspent c = None"
  by simp

lemma unspent_Some [simp]: "unspent c = Some d \<longleftrightarrow> c = d \<and> \<not> IsPruned c"
  by (auto simp: unspent_def)

lemma IsPruned_Clear [simp]: "IsPruned CCoins_Clear"
  by (simp add: IsPruned_def CCoins_Clear_def)

lemma available_not_pruned: "IsAvailable c n \<Longrightarrow> \<not> IsPruned c"
  by (auto simp: IsAvailable_def IsPruned_def list_all_length)

lemma or_flags:
  fixes f :: u8
  shows "(f OR DIRTY) AND DIRTY \<noteq> 0" "((f OR DIRTY) AND FRESH = 0) = (f AND FRESH = 0)"
    "(f OR FRESH) AND FRESH \<noteq> 0" "((f OR FRESH) AND DIRTY = 0) = (f AND DIRTY = 0)"
    "DIRTY \<noteq> 0" "FRESH \<noteq> 0"
    "(FRESH :: u8) AND DIRTY = 0" "(FRESH :: u8) AND FRESH \<noteq> 0" "(DIRTY :: u8) AND DIRTY \<noteq> 0" "(DIRTY :: u8) AND FRESH = 0"
  unfolding DIRTY_def FRESH_def by (simp_all add: bit.conj_disj_distrib2)

lemma flags_of [simp]:
  "is_dirty (e\<lparr>ce_flags := f OR DIRTY\<rparr>)" "is_dirty \<lparr>ce_coins = c, ce_flags = f OR DIRTY\<rparr>"
  "is_fresh (e\<lparr>ce_flags := f OR DIRTY\<rparr>) = (f AND FRESH \<noteq> 0)"
  "is_fresh \<lparr>ce_coins = c, ce_flags = f OR DIRTY\<rparr> = (f AND FRESH \<noteq> 0)"
  "is_fresh \<lparr>ce_coins = c, ce_flags = DIRTY OR FRESH\<rparr>" "is_dirty \<lparr>ce_coins = c, ce_flags = DIRTY OR FRESH\<rparr>"
  "is_dirty \<lparr>ce_coins = c, ce_flags = DIRTY\<rparr>" "\<not> is_fresh \<lparr>ce_coins = c, ce_flags = DIRTY\<rparr>"
  "\<not> is_dirty \<lparr>ce_coins = c, ce_flags = FRESH\<rparr>" "is_fresh \<lparr>ce_coins = c, ce_flags = FRESH\<rparr>"
  "\<not> is_dirty \<lparr>ce_coins = c, ce_flags = 0\<rparr>" "\<not> is_fresh \<lparr>ce_coins = c, ce_flags = 0\<rparr>"
  "is_dirty (e\<lparr>ce_coins := c\<rparr>) = is_dirty e" "is_fresh (e\<lparr>ce_coins := c\<rparr>) = is_fresh e"
  by (simp_all add: is_dirty_def is_fresh_def or_flags)

lemma fresh_flags: "ce_flags e AND FRESH \<noteq> 0 \<longleftrightarrow> is_fresh e" "ce_flags e AND DIRTY = 0 \<longleftrightarrow> \<not> is_dirty e"
  by (simp_all add: is_fresh_def is_dirty_def)

section \<open>Caches\<close>

text \<open>What inserting, replacing and erasing an entry do to the coins and the invariant of a cache.\<close>

lemma cached_update [simp]: "cached (AList.update txid e m) below = (cached m below)(txid := unspent (ce_coins e))"
  by (auto simp: cached_def update_conv' fun_eq_iff)

lemma cached_delete [simp]: "below txid = None \<Longrightarrow> cached (AList.delete txid m) below = (cached m below)(txid := None)"
  by (auto simp: cached_def delete_conv' fun_eq_iff restrict_map_def)

lemma AList_delete_update [simp]: "AList.delete k (AList.update k x m) = AList.delete k m"
  by (induction m) auto

lemma coins_cache_ok_update [intro]: "coins_cache_ok m below \<Longrightarrow> entry_ok below txid e \<Longrightarrow> coins_cache_ok (AList.update txid e m) below"
  by (auto simp: coins_cache_ok_def update_conv' distinct_update)

lemma coins_cache_ok_delete [intro]: "coins_cache_ok m below \<Longrightarrow> coins_cache_ok (AList.delete txid m) below"
  by (auto simp: coins_cache_ok_def delete_conv' restrict_map_def distinct_delete split: if_splits)

lemma coins_cache_okD: "coins_cache_ok m below \<Longrightarrow> map_of m txid = Some e \<Longrightarrow> entry_ok below txid e"
  by (simp add: coins_cache_ok_def)

lemma coins_cache_ok_Nil [simp]: "coins_cache_ok [] below"
  by (simp add: coins_cache_ok_def)

lemma cached_Nil [simp]: "cached [] below = below"
  by (simp add: cached_def fun_eq_iff)

lemma coins_of_cache: "coins_of (CCoinsViewCache m h md bs) = cached m (coins_of bs)"
  by (simp add: fun_eq_iff)

lemma coins_of_db: "coins_of (CCoinsViewDB lib db best) = (\<lambda>txid. Option.bind (db_read lib db txid) unspent)"
  by (simp add: fun_eq_iff)

declare coins_of.simps [simp del]
declare coins_of_cache [simp] coins_of_db [simp]

text \<open>Looking up coins returns those the view stands for, and changes neither them nor the invariant.\<close>

lemma GetCoins_correct:
  "view_ok v \<Longrightarrow> GetCoins v txid = (r, v') \<Longrightarrow>
    view_ok v' \<and> coins_of v' = coins_of v \<and> Option.bind r unspent = coins_of v txid \<and> (idle v' = idle v)"
proof (induction v arbitrary: r v')
  case (CCoinsViewDB lib db best)
  then show ?case by auto
next
  case (CCoinsViewCache m h md bs)
  show ?case
  proof (cases "map_of m txid")
    case (Some e)
    with CCoinsViewCache.prems show ?thesis by (auto simp: cached_def)
  next
    case None
    obtain r1 bs1 where get: "GetCoins bs txid = (r1, bs1)" by fastforce
    from CCoinsViewCache.prems have ok: "view_ok bs" "coins_cache_ok m (coins_of bs)" by simp_all
    from CCoinsViewCache.IH [OF ok(1) get] have
      IH: "view_ok bs1" "coins_of bs1 = coins_of bs" "Option.bind r1 unspent = coins_of bs txid" "idle bs1 = idle bs" by simp_all
    show ?thesis
    proof (cases r1)
      case r1: None
      then show ?thesis using CCoinsViewCache.prems None get IH ok by (auto simp: cached_def)
    next
      case (Some tmp)
      with IH have below: "coins_of bs txid = unspent tmp" by simp
      have "entry_ok (coins_of bs) txid \<lparr>ce_coins = tmp, ce_flags = (if IsPruned tmp then FRESH else 0)\<rparr>"
        by (simp add: entry_ok_def below)
      moreover have "cached m (coins_of bs) txid = unspent tmp" by (simp add: cached_def None below)
      ultimately show ?thesis using CCoinsViewCache.prems None get IH ok Some
        by (auto simp: fun_upd_idem intro!: coins_cache_ok_update)
    qed
  qed
qed

text \<open>The lookups of transaction inputs read the set of unspent outputs.\<close>

lemma GetCoins_ready:
  assumes "view_ok v" "GetCoins v txid = (r, v')"
  shows "ready v' = ready v"
proof (cases v)
  case (CCoinsViewDB lib db best)
  with assms(2) show ?thesis by auto
next
  case (CCoinsViewCache m h md bs)
  with assms(2) obtain m' bs' where v': "v' = CCoinsViewCache m' h md bs'"
    by (auto split: option.splits prod.splits)
  have "view_ok v'" "idle v' = idle v" using GetCoins_correct [OF assms] by simp_all
  with assms(1) show ?thesis unfolding ready_def v' CCoinsViewCache CCoinsView.case by blast
qed

lemma GetCoins_utxo:
  assumes "view_ok v" "GetCoins v (po_hash po) = (r, v')"
  shows "same_view v v'"
    and "utxo v po = (case r of None \<Rightarrow> None | Some c \<Rightarrow> if IsAvailable c (unat (po_n po)) then Some (cc_vout c ! unat (po_n po)) else None)"
proof -
  note * = GetCoins_correct [OF assms]
  from * GetCoins_ready [OF assms] show "same_view v v'" by (simp add: same_view_def)
  from * have r: "coins_of v (po_hash po) = Option.bind r unspent" by simp
  show "utxo v po = (case r of None \<Rightarrow> None | Some c \<Rightarrow> if IsAvailable c (unat (po_n po)) then Some (cc_vout c ! unat (po_n po)) else None)"
    by (cases r) (auto simp: utxo_def r unspent_def dest: available_not_pruned)
qed

lemma same_view_trans: "same_view v v' \<Longrightarrow> same_view v' v'' \<Longrightarrow> same_view v v''"
  by (simp add: same_view_def)

lemma same_view_refl [simp]: "same_view v v = view_ok v"
  by (simp add: same_view_def)

lemma same_view_utxo: "same_view v v' \<Longrightarrow> utxo v' = utxo v"
  by (simp add: same_view_def utxo_def fun_eq_iff)

lemma GetOutputFor_correct:
  assumes "view_ok v"
  shows "case utxo v (in_prevout i) of
      None \<Rightarrow> GetOutputFor v i = Inl CoinsAssert
    | Some out \<Rightarrow> \<exists>v'. GetOutputFor v i = Inr (out, v') \<and> same_view v v'"
proof -
  obtain r v' where get: "GetCoins v (po_hash (in_prevout i)) = (r, v')" by fastforce
  from GetCoins_utxo [OF assms get] show ?thesis by (cases r) (auto simp: GetOutputFor_def get)
qed

lemma have_inputs_correct:
  "view_ok v \<Longrightarrow> have_inputs vin v = (b, v') \<Longrightarrow> same_view v v' \<and> (b \<longleftrightarrow> (\<forall>i \<in> set vin. utxo v (in_prevout i) \<noteq> None))"
proof (induction vin arbitrary: v)
  case Nil
  then show ?case by simp
next
  case (Cons i vin)
  obtain r v1 where get: "GetCoins v (po_hash (in_prevout i)) = (r, v1)" by fastforce
  note g = GetCoins_utxo [OF Cons.prems(1) get]
  show ?case
  proof (cases "utxo v (in_prevout i)")
    case None
    with Cons.prems(2) g show ?thesis by (auto simp: get split: option.splits if_splits)
  next
    case (Some out)
    then have rest: "have_inputs vin v1 = (b, v')" using Cons.prems(2) g(2) by (auto simp: get split: option.splits if_splits)
    moreover have "view_ok v1" using g(1) by (simp add: same_view_def)
    ultimately have "same_view v1 v' \<and> (b \<longleftrightarrow> (\<forall>i \<in> set vin. utxo v1 (in_prevout i) \<noteq> None))" by (rule Cons.IH [rotated])
    then show ?thesis using Some same_view_trans [OF g(1)] same_view_utxo [OF g(1)] by simp
  qed
qed

theorem HaveInputs_correct:
  "view_ok v \<Longrightarrow> HaveInputs v tx = (b, v') \<Longrightarrow>
    same_view v v' \<and> (b \<longleftrightarrow> IsCoinBase tx \<or> (\<forall>i \<in> set (tx_vin tx). utxo v (in_prevout i) \<noteq> None))"
  using have_inputs_correct [of v "tx_vin tx" b v'] by (auto simp: HaveInputs_def split: if_splits)

lemma add_inputs_correct:
  assumes "view_ok v" "\<forall>i \<in> set vin. utxo v (in_prevout i) \<noteq> None"
  shows "\<exists>v'. add_inputs vin a v = Inr (a + (\<Sum>i\<leftarrow>vin. out_nValue (the (utxo v (in_prevout i)))), v') \<and> same_view v v'"
  using assms
proof (induction vin arbitrary: v a)
  case Nil
  then show ?case by simp
next
  case (Cons i vin)
  then obtain out where out: "utxo v (in_prevout i) = Some out" by auto
  then obtain v1 where v1: "GetOutputFor v i = Inr (out, v1)" "same_view v v1"
    using GetOutputFor_correct [OF Cons.prems(1), of i] by auto
  have "view_ok v1" "utxo v1 = utxo v" using v1(2) same_view_utxo by (auto simp: same_view_def)
  with Cons.IH [of v1 "a + out_nValue out"] Cons.prems(2) obtain v' where
    "add_inputs vin (a + out_nValue out) v1 = Inr (a + out_nValue out + (\<Sum>i\<leftarrow>vin. out_nValue (the (utxo v (in_prevout i)))), v')" "same_view v1 v'"
    by auto
  then show ?case using v1(1) out same_view_trans [OF v1(2)] by (fastforce simp: add.assoc)
qed

section \<open>Modifying coins\<close>

text \<open>A view that can be modified is a cache with no modifier open.\<close>

lemma ready_cases: "ready v \<Longrightarrow> (\<And>m h bs. v = CCoinsViewCache m h False bs \<Longrightarrow> view_ok bs \<Longrightarrow> idle bs \<Longrightarrow> coins_cache_ok m (coins_of bs) \<Longrightarrow> P) \<Longrightarrow> P"
  by (cases v) (auto simp: ready_def)

text \<open>Closing a modifier: the view stands for the cleaned coins at \<open>txid\<close>, and for what it did elsewhere.\<close>

lemma close_modifier:
  assumes "view_ok bs" "idle bs" "coins_cache_ok m (coins_of bs)" "is_dirty e" "is_fresh e \<longrightarrow> coins_of bs txid = None"
  shows "\<exists>v'. end_modifier (set_modified_coins (CCoinsViewCache (AList.update txid e m) h True bs) txid c) txid = Inr v' \<and>
    ready v' \<and> coins_of v' = (cached m (coins_of bs))(txid := unspent (Cleanup c))"
  using assms
    by (auto simp: end_modifier_def set_modified_coins_def update_conv' ready_def Let_def entry_ok_def fun_upd_idem
      intro!: coins_cache_ok_update coins_cache_ok_delete)

lemma update_witness: "P e \<Longrightarrow> \<exists>e'. AList.update k e m = AList.update k e' m \<and> P e'"
  by blast

lemma with_ModifyCoins:
  assumes "ready v"
  shows "\<exists>c. unspent c = coins_of v txid \<and>
    (case f c of
       Inl er \<Rightarrow> with_modifier (ModifyCoins v txid) txid f = Inl er
     | Inr (r, c') \<Rightarrow> \<exists>v'. with_modifier (ModifyCoins v txid) txid f = Inr (r, v') \<and> ready v' \<and>
         coins_of v' = (coins_of v)(txid := unspent (Cleanup c')))"
  using assms
proof (rule ready_cases)
  fix m h bs
  assume v: "v = CCoinsViewCache m h False bs" and ok: "view_ok bs" "idle bs" "coins_cache_ok m (coins_of bs)"
  have "\<exists>e bs'. ModifyCoins v txid = Inr (CCoinsViewCache (AList.update txid e m) h True bs') \<and> is_dirty e \<and>
      (is_fresh e \<longrightarrow> coins_of bs txid = None) \<and> unspent (ce_coins e) = coins_of v txid \<and>
      view_ok bs' \<and> idle bs' \<and> coins_of bs' = coins_of bs"
  proof (cases "map_of m txid")
    case (Some e)
    with coins_cache_okD [OF ok(3)] ok show ?thesis
      by (auto simp: v ModifyCoins_def cached_def fresh_flags entry_ok_def intro!: update_witness)
  next
    case None
    obtain r bs' where get: "GetCoins bs txid = (r, bs')" by fastforce
    from GetCoins_correct [OF ok(1) get] None ok show ?thesis
      by (cases r) (auto simp: v ModifyCoins_def get cached_def or_flags intro!: update_witness)
  qed
  then obtain e bs' where M: "ModifyCoins v txid = Inr (CCoinsViewCache (AList.update txid e m) h True bs')"
      and e: "is_dirty e" "is_fresh e \<longrightarrow> coins_of bs' txid = None" "unspent (ce_coins e) = coins_of v txid"
      and bs': "view_ok bs'" "idle bs'" "coins_of bs' = coins_of bs" by auto
  have mc: "modified_coins (CCoinsViewCache (AList.update txid e m) h True bs') txid = ce_coins e"
    by (simp add: modified_coins_def update_conv')
  have ok': "coins_cache_ok m (coins_of bs')" using ok bs' by simp
  show ?thesis
  proof (intro exI conjI)
    show "unspent (ce_coins e) = coins_of v txid" by (rule e)
    show "case f (ce_coins e) of Inl er \<Rightarrow> with_modifier (ModifyCoins v txid) txid f = Inl er
     | Inr (r, c') \<Rightarrow> \<exists>v'. with_modifier (ModifyCoins v txid) txid f = Inr (r, v') \<and> ready v' \<and>
         coins_of v' = (coins_of v)(txid := unspent (Cleanup c'))"
    proof (cases "f (ce_coins e)")
      case (Inl er)
      then show ?thesis by (simp add: with_modifier_def M mc)
    next
      case (Inr rc)
      obtain r c' where rc: "rc = (r, c')" by fastforce
      obtain v' where "end_modifier (set_modified_coins (CCoinsViewCache (AList.update txid e m) h True bs') txid c') txid = Inr v'"
          "ready v'" "coins_of v' = (cached m (coins_of bs'))(txid := unspent (Cleanup c'))"
        using close_modifier [OF bs'(1,2) ok' e(1,2), of h c'] by blast
      with Inr rc show ?thesis by (auto simp: with_modifier_def M [unfolded v] mc v bs'(3))
    qed
  qed
qed

lemma with_ModifyNewCoins:
  assumes "ready v" "coinbase \<or> coins_of v txid = None"
  shows "\<exists>v'. with_modifier (ModifyNewCoins v txid coinbase) txid (\<lambda>c. Inr (r, g c)) = Inr (r, v') \<and> ready v' \<and>
    coins_of v' = (coins_of v)(txid := unspent (Cleanup (g CCoins_Clear)))"
  using assms(1)
proof (rule ready_cases)
  fix m h bs
  assume v: "v = CCoinsViewCache m h False bs" and ok: "view_ok bs" "idle bs" "coins_cache_ok m (coins_of bs)"
  have "\<exists>e. ModifyNewCoins v txid coinbase = Inr (CCoinsViewCache (AList.update txid e m) h True bs) \<and> is_dirty e \<and>
      (is_fresh e \<longrightarrow> coins_of bs txid = None) \<and> ce_coins e = CCoins_Clear"
    using assms(2) ok(3)
    by (auto simp: v ModifyNewCoins_def cached_def or_flags fresh_flags entry_ok_def Let_def split: option.splits dest: coins_cache_okD intro!: update_witness)
  then obtain e where M: "ModifyNewCoins v txid coinbase = Inr (CCoinsViewCache (AList.update txid e m) h True bs)"
      and e: "is_dirty e" "is_fresh e \<longrightarrow> coins_of bs txid = None" "ce_coins e = CCoins_Clear" by auto
  have mc: "modified_coins (CCoinsViewCache (AList.update txid e m) h True bs) txid = CCoins_Clear"
    by (simp add: modified_coins_def update_conv' e)
  show ?thesis
    using close_modifier [OF ok e(1,2), of h "g CCoins_Clear"] by (auto simp: with_modifier_def M [unfolded v] mc v)
qed

section \<open>Writing a cache into the view below\<close>

text \<open>
  What a cache relies on in the view below it: a batch the view can take, whose fresh entries are
  about coins that are spent there, is accepted, and what the view keeps of its dirty entries replaces the
  coins.  Then flushing a cache gives the view below what it keeps of the coins the cache stood for.
\<close>

locale coins_backend =
  fixes coins :: "'v \<Rightarrow> bytes \<Rightarrow> CCoins option"
    and ok :: "'v \<Rightarrow> bool"
    and keep :: "'v \<Rightarrow> CCoins \<Rightarrow> CCoins"
    and takes :: "'v \<Rightarrow> CCoinsMap \<Rightarrow> bool"
    and put :: "'v \<Rightarrow> CCoinsMap \<Rightarrow> bytes \<Rightarrow> coins_error + 'v"
  assumes write_law:
    "ok v \<Longrightarrow> takes v m \<Longrightarrow> distinct (map fst m) \<Longrightarrow> (\<And>txid e. map_of m txid = Some e \<Longrightarrow> is_fresh e \<Longrightarrow> coins v txid = None) \<Longrightarrow>
      \<exists>v'. put v m h = Inr v' \<and> ok v' \<and> coins v' = written (keep v) m (coins v)"
begin

lemma flush_law:
  assumes "ok v" "takes v m" "coins_cache_ok m (coins v)"
  shows "\<exists>v'. put v m h = Inr v' \<and> ok v' \<and>
    coins v' = (\<lambda>txid. map_option (if dirty_in m txid then keep v else id) (cached m (coins v) txid))"
proof -
  have "written (keep v) m (coins v) = (\<lambda>txid. map_option (if dirty_in m txid then keep v else id) (cached m (coins v) txid))"
    using assms(3) by (auto simp: written_def cached_def dirty_in_def coins_cache_ok_def entry_ok_def fun_eq_iff option.map_id option.map_ident split: option.split)
  moreover have "\<exists>v'. put v m h = Inr v' \<and> ok v' \<and> coins v' = written (keep v) m (coins v)"
    using assms by (intro write_law) (auto simp: coins_cache_ok_def entry_ok_def)
  ultimately show ?thesis by simp
qed

end

text \<open>The database: what is read back is what the stored form keeps.\<close>

lemma db_read_update [simp]:
  "db_read lib (AList.update t b db) = (db_read lib db)(t := (case CCoins_Unserialize (pk_Decompress lib) b of Inl _ \<Rightarrow> None | Inr (c, _) \<Rightarrow> Some c))"
  by (auto simp: db_read_def update_conv' fun_eq_iff)

lemma db_read_delete [simp]: "db_read lib (AList.delete t db) = (db_read lib db)(t := None)"
  by (auto simp: db_read_def delete_conv' fun_eq_iff)

lemma db_entry_law:
  assumes "recovers_keys (pk_IsFullyValid lib) (pk_Decompress lib)" "is_dirty e \<and> \<not> IsPruned (ce_coins e) \<longrightarrow> storable (ce_coins e)" "distinct (map fst db)"
  shows "\<exists>db'. db_entry lib db (t, e) = Inr db' \<and> distinct (map fst db') \<and>
    db_read lib db' = (if is_dirty e then (db_read lib db)(t := map_option stored (unspent (ce_coins e))) else db_read lib db)"
proof (cases "is_dirty e \<and> \<not> IsPruned (ce_coins e)")
  case True
  then obtain b where b: "CCoins_Serialize (pk_IsFullyValid lib) (ce_coins e) = Some b"
      "\<And>r. CCoins_Unserialize (pk_Decompress lib) (b @ r) = Inr (stored (ce_coins e), r)"
    using CCoins_reads [OF assms(1)] assms(2) by blast
  from b(2) [of "[]"] True b(1) assms(3) show ?thesis by (auto simp: db_entry_def unspent_def distinct_update)
qed (use assms(3) in \<open>auto simp: db_entry_def distinct_delete\<close>)

lemma db_entries_law:
  assumes "recovers_keys (pk_IsFullyValid lib) (pk_Decompress lib)"
    "list_all (\<lambda>(txid, e). is_dirty e \<and> \<not> IsPruned (ce_coins e) \<longrightarrow> storable (ce_coins e)) m" "distinct (map fst db)" "distinct (map fst m)"
  shows "\<exists>db'. db_entries lib m db = Inr db' \<and> distinct (map fst db') \<and>
    (\<lambda>txid. Option.bind (db_read lib db' txid) unspent) = written stored m (\<lambda>txid. Option.bind (db_read lib db txid) unspent)"
  using assms(2-)
proof (induction m arbitrary: db)
  case Nil
  then show ?case by (simp add: written_def)
next
  case (Cons it m)
  obtain t e where it: "it = (t, e)" by fastforce
  have "is_dirty e \<and> \<not> IsPruned (ce_coins e) \<longrightarrow> storable (ce_coins e)" using Cons.prems(1) by (simp add: it)
  from db_entry_law [OF assms(1) this Cons.prems(2), of t] obtain db1 where db1: "db_entry lib db it = Inr db1" "distinct (map fst db1)"
      "db_read lib db1 = (if is_dirty e then (db_read lib db)(t := map_option stored (unspent (ce_coins e))) else db_read lib db)"
    by (auto simp: it)
  have t: "map_of m t = None" using Cons.prems(3) by (simp add: it map_of_eq_None_iff)
  have "written stored m (\<lambda>txid. Option.bind (db_read lib db1 txid) unspent) = written stored (it # m) (\<lambda>txid. Option.bind (db_read lib db txid) unspent)"
    using t by (auto simp: written_def it db1(3) fun_eq_iff unspent_def split: option.split)
  with Cons.IH [OF _ db1(2)] Cons.prems(1,3) db1(1) show ?case by simp
qed

lemma kept_utxo:
  assumes "coins_of v' = (\<lambda>txid. map_option (if D txid then kept_by bs else id) (coins_of v txid))"
    "\<forall>po out. utxo v po = Some out \<longrightarrow> length (out_scriptPubKey out) \<le> MAX_SCRIPT_SIZE"
  shows "utxo v' = utxo v"
proof
  fix po
  show "utxo v' po = utxo v po"
  proof (cases "coins_of v (po_hash po)")
    case (Some c)
    have "IsAvailable c (unat (po_n po)) \<Longrightarrow> length (out_scriptPubKey (cc_vout c ! unat (po_n po))) \<le> MAX_SCRIPT_SIZE"
      using assms(2) [rule_format, of po "cc_vout c ! unat (po_n po)"] Some by (simp add: utxo_def)
    with Some show ?thesis
      by (cases bs) (auto simp: utxo_def assms(1) kept_by_def stored_available)
  qed (simp add: utxo_def assms(1))
qed

lemma batch_entry_law:
  assumes "coins_cache_ok m below" "is_fresh e \<longrightarrow> cached m below txid = None"
  shows "\<exists>m'. batch_entry m (txid, e) = Inr m' \<and> coins_cache_ok m' below \<and>
    cached m' below = (if is_dirty e then (cached m below)(txid := unspent (ce_coins e)) else cached m below)"
proof (cases "map_of m txid")
  case None
  then have "cached m below txid = below txid" by (simp add: cached_def)
  with assms None show ?thesis
    by (auto simp: batch_entry_def entry_ok_def fun_upd_idem intro!: coins_cache_ok_update)
next
  case (Some us)
  then have "cached m below txid = unspent (ce_coins us)" by (simp add: cached_def)
  with Some assms coins_cache_okD [OF assms(1) Some] show ?thesis
    by (auto simp: batch_entry_def entry_ok_def fresh_flags intro!: coins_cache_ok_update coins_cache_ok_delete)
qed

lemma batch_entries_law:
  assumes "coins_cache_ok m below" "distinct (map fst its)"
    "\<And>txid e. map_of its txid = Some e \<Longrightarrow> is_fresh e \<Longrightarrow> cached m below txid = None"
  shows "\<exists>m'. batch_entries its m = Inr m' \<and> coins_cache_ok m' below \<and> cached m' below = written (\<lambda>c. c) its (cached m below)"
  using assms
proof (induction its arbitrary: m)
  case Nil
  then show ?case by (simp add: written_def fun_eq_iff)
next
  case (Cons it its)
  obtain t e where it: "it = (t, e)" by fastforce
  have e: "is_fresh e \<longrightarrow> cached m below t = None" using Cons.prems(3) [of t e] by (simp add: it)
  obtain m1 where m1: "batch_entry m it = Inr m1" "coins_cache_ok m1 below"
      "cached m1 below = (if is_dirty e then (cached m below)(t := unspent (ce_coins e)) else cached m below)"
    using batch_entry_law [OF Cons.prems(1) e] by (auto simp: it)
  have t: "map_of its t = None" using Cons.prems(2) by (simp add: it map_of_eq_None_iff)
  have "cached m1 below txid = None" if "map_of its txid = Some e'" "is_fresh e'" for txid e'
  proof -
    have "txid \<noteq> t" using that t by auto
    then show ?thesis using Cons.prems(3) [of txid e'] that by (simp add: m1(3) it)
  qed
  then obtain m' where m': "batch_entries its m1 = Inr m'" "coins_cache_ok m' below" "cached m' below = written (\<lambda>c. c) its (cached m1 below)"
    using Cons.IH [OF m1(2)] Cons.prems(2) by auto
  have "written (\<lambda>c. c) its (cached m1 below) = written (\<lambda>c. c) (it # its) (cached m below)"
    using t by (auto simp: written_def it m1(3) fun_eq_iff option.map_id option.map_ident split: option.split)
  with m' m1(1) show ?case by simp
qed

interpretation view: coins_backend coins_of "\<lambda>v. view_ok v \<and> idle v" kept_by takes_batch BatchWrite
proof
  fix v :: CCoinsView and m :: CCoinsMap and h :: bytes
  assume v: "view_ok v \<and> idle v" and takes: "takes_batch v m" and m: "distinct (map fst m)"
    and fresh: "\<And>txid e. map_of m txid = Some e \<Longrightarrow> is_fresh e \<Longrightarrow> coins_of v txid = None"
  show "\<exists>v'. BatchWrite v m h = Inr v' \<and> (view_ok v' \<and> idle v') \<and> coins_of v' = written (kept_by v) m (coins_of v)"
  proof (cases v)
    case (CCoinsViewDB lib db best)
    with v takes db_entries_law [of lib m db] m show ?thesis by (auto simp: BatchWrite_def takes_batch_def kept_by_def)
  next
    case (CCoinsViewCache us h' md bs)
    with v batch_entries_law [of us "coins_of bs" m] m fresh show ?thesis by (auto simp: BatchWrite_def kept_by_def)
  qed
qed

text \<open>
  C4. Flushing a cache: the invariant rules out the error of a misapplied \<open>FRESH\<close> flag, and no assertion of the
  serialization fails.  The cache is empty afterwards and the view below has the coins the cache
  stood for; of those it had to write, a database has what the stored form keeps.  The unspent
  outputs are the same (as long as no script is above the size limit), and so are the coins if no version
  or height is negative and no spent outputs are left at the end.
\<close>

theorem Flush_refines:
  assumes "ready v" "takes_batch (cv_base v) (cacheCoins v)"
  shows "\<exists>bs. Flush v = Inr (CCoinsViewCache [] (cv_hashBlock v) False bs) \<and> view_ok bs \<and> idle bs \<and>
    coins_of (CCoinsViewCache [] (cv_hashBlock v) False bs) = coins_of bs \<and>
    coins_of bs = (\<lambda>txid. map_option (if dirty_in (cacheCoins v) txid then kept_by (cv_base v) else id) (coins_of v txid)) \<and>
    ((\<forall>po out. utxo v po = Some out \<longrightarrow> length (out_scriptPubKey out) \<le> MAX_SCRIPT_SIZE) \<longrightarrow> utxo bs = utxo v) \<and>
    ((\<forall>txid c. coins_of v txid = Some c \<longrightarrow> plain_coins c) \<longrightarrow> coins_of bs = coins_of v)"
  using assms(1)
proof (rule ready_cases)
  fix m h bs
  assume v: "v = CCoinsViewCache m h False bs" and ok: "view_ok bs" "idle bs" "coins_cache_ok m (coins_of bs)"
  have "takes_batch bs m" using assms(2) by (simp add: v)
  from view.flush_law [OF conjI [OF ok(1,2)] this ok(3), of h] obtain bs' where
    bs': "BatchWrite bs m h = Inr bs'" "view_ok bs'" "idle bs'"
      "coins_of bs' = (\<lambda>txid. map_option (if dirty_in m txid then kept_by bs else id) (coins_of v txid))" by (auto simp: v)
  have "utxo bs' = utxo v" if "\<forall>po out. utxo v po = Some out \<longrightarrow> length (out_scriptPubKey out) \<le> MAX_SCRIPT_SIZE"
    using kept_utxo [OF bs'(4) that] .
  moreover have "coins_of bs' = coins_of v" if "\<forall>txid c. coins_of v txid = Some c \<longrightarrow> plain_coins c"
  proof
    fix txid
    show "coins_of bs' txid = coins_of v txid"
      using that by (cases "coins_of v txid") (auto simp: bs'(4) kept_by_def stored_plain split: CCoinsView.split)
  qed
  ultimately show ?thesis using bs' unfolding v CCoinsView.sel by (simp add: Flush_def)
qed

lemma Flush_refines_witness:
  "ready demo_view \<and> takes_batch (cv_base demo_view) (cacheCoins demo_view) \<and>
   ready demo_saved \<and> takes_batch (cv_base demo_saved) (cacheCoins demo_saved) \<and>
   (\<exists>bs. Flush demo_view = Inr (CCoinsViewCache [] [9] False bs) \<and> coins_of bs [1] = Some demo_coins \<and> coins_of bs [2] = None) \<and>
   (\<exists>bs. Flush demo_saved = Inr (CCoinsViewCache [] [9] False bs) \<and> coins_of bs [1] = Some (demo_coins\<lparr>cc_nVersion := 127\<rparr>))"
proof -
  have d: "\<not> IsPruned demo_coins" "\<not> IsPruned (demo_coins\<lparr>cc_nVersion := - 1\<rparr>)"
    by (simp_all add: IsPruned_def demo_coins_def CTxOut_IsNull_def)
  then have r: "ready demo_view" "ready demo_saved"
    by (auto simp: ready_def demo_view_def demo_saved_def coins_cache_ok_def entry_ok_def cached_def db_read_def split: if_splits)
  have t: "takes_batch (cv_base demo_view) (cacheCoins demo_view)" "takes_batch (cv_base demo_saved) (cacheCoins demo_saved)"
    using demo_recovers by (simp_all add: takes_batch_def demo_view_def demo_saved_def demo_lib_def storable_def demo_coins_def MAX_SIZE_def)
  have s: "stored (demo_coins\<lparr>cc_nVersion := - 1\<rparr>) = demo_coins\<lparr>cc_nVersion := 127\<rparr>" by code_simp
  from Flush_refines [OF r(1) t(1)] Flush_refines [OF r(2) t(2)] d r t s show ?thesis
    by (auto simp: demo_view_def demo_saved_def cached_def kept_by_def dirty_in_def)
qed

end
