(* ===== verification/Undo.thy ===== *)
theory Undo
  imports Coins
begin

text \<open>
  The coin updates of transactions in \<^verbatim>\<open>sige/src/validation.cpp\<close>: \<open>UpdateCoins\<close>, \<open>ApplyTxInUndo\<close> and
  \<open>DisconnectBlock\<close>, with the undo records of \<^verbatim>\<open>sige/src/undo.h\<close>.  Undoing a transaction gives back the
  coins there were before it.
\<close>

section \<open>Definitions\<close>

record CTxInUndo =
  undo_txout :: CTxOut
  undo_fCoinBase :: bool
  undo_nHeight :: u32
  undo_nVersion :: u32

definition spend_input :: "CTxIn \<Rightarrow> CCoins \<Rightarrow> coins_error + CTxInUndo \<times> CCoins" where
  "spend_input txin coins =
    (let nPos = unat (po_n (in_prevout txin)) in
     if nPos \<ge> length (cc_vout coins) \<or> CTxOut_IsNull (cc_vout coins ! nPos) then Inl CoinsAssert
     else let undo = \<lparr>undo_txout = cc_vout coins ! nPos, undo_fCoinBase = False, undo_nHeight = 0, undo_nVersion = 0\<rparr>;
              coins = snd (Spend nPos coins)
          in Inr (if length (cc_vout coins) = 0
                  then undo\<lparr>undo_nHeight := of_int (cc_nHeight coins), undo_fCoinBase := cc_fCoinBase coins, undo_nVersion := cc_nVersion coins\<rparr>
                  else undo, coins))"

primrec spend_inputs :: "CTxIn list \<Rightarrow> CCoinsView \<Rightarrow> coins_error + CTxInUndo list \<times> CCoinsView" where
  "spend_inputs [] v = Inr ([], v)"
| "spend_inputs (txin # vin) v =
    ebind (with_modifier (ModifyCoins v (po_hash (in_prevout txin))) (po_hash (in_prevout txin)) (spend_input txin)) (\<lambda>(undo, v).
      ebind (spend_inputs vin v) (\<lambda>(undos, v). Inr (undo # undos, v)))"

definition UpdateCoins :: "script_env \<Rightarrow> CTransaction \<Rightarrow> CCoinsView \<Rightarrow> int \<Rightarrow> coins_error + CTxInUndo list \<times> CCoinsView" where
  "UpdateCoins env tx v nHeight =
    ebind (if \<not> IsCoinBase tx then spend_inputs (tx_vin tx) v else Inr ([], v)) (\<lambda>(txundo, v).
      with_modifier (ModifyNewCoins v (GetHash env tx) (IsCoinBase tx)) (GetHash env tx) (\<lambda>coins. Inr (txundo, FromTx tx nHeight)))"

text \<open>Indices of outputs are far below \<open>2 ^ 32 - 1\<close>, so \<open>out.n + 1\<close> does not wrap.\<close>

definition undo_input :: "CTxInUndo \<Rightarrow> nat \<Rightarrow> CCoins \<Rightarrow> coins_error + bool \<times> CCoins" where
  "undo_input undo n coins =
    (case (if undo_nHeight undo \<noteq> 0
           then (IsPruned coins, CCoins_Clear\<lparr>cc_fCoinBase := undo_fCoinBase undo, cc_nHeight := sint (undo_nHeight undo), cc_nVersion := undo_nVersion undo\<rparr>)
           else (\<not> IsPruned coins, coins)) of
       (fClean, coins) \<Rightarrow>
         let fClean = (fClean \<and> \<not> IsAvailable coins n);
             vout = (if length (cc_vout coins) < n + 1 then cc_vout coins @ replicate (n + 1 - length (cc_vout coins)) CTxOut_SetNull else cc_vout coins)
         in Inr (fClean, coins\<lparr>cc_vout := vout[n := undo_txout undo]\<rparr>))"

definition ApplyTxInUndo :: "CTxInUndo \<Rightarrow> CCoinsView \<Rightarrow> COutPoint \<Rightarrow> coins_error + bool \<times> CCoinsView" where
  "ApplyTxInUndo undo view out = with_modifier (ModifyCoins view (po_hash out)) (po_hash out) (undo_input undo (unat (po_n out)))"

text \<open>The inputs of a transaction are restored from the last to the first.\<close>

primrec undo_inputs :: "(CTxIn \<times> CTxInUndo) list \<Rightarrow> CCoinsView \<Rightarrow> coins_error + bool \<times> CCoinsView" where
  "undo_inputs [] v = Inr (True, v)"
| "undo_inputs (iu # rest) v =
    ebind (undo_inputs rest v) (\<lambda>(fClean, v).
      ebind (ApplyTxInUndo (snd iu) v (in_prevout (fst iu))) (\<lambda>(ok, v). Inr (fClean \<and> ok, v)))"

definition coins_eq :: "CCoins \<Rightarrow> CCoins \<Rightarrow> bool" where
  "coins_eq a b \<longleftrightarrow> IsPruned a \<and> IsPruned b \<or>
    cc_fCoinBase a = cc_fCoinBase b \<and> cc_nHeight a = cc_nHeight b \<and> cc_nVersion a = cc_nVersion b \<and> cc_vout a = cc_vout b"

definition remove_outputs :: "CTransaction \<Rightarrow> int \<Rightarrow> CCoins \<Rightarrow> coins_error + bool \<times> CCoins" where
  "remove_outputs tx nHeight outs =
    (let outs = ClearUnspendable outs;
         outsBlock = FromTx tx nHeight;
         outs = (if sint (cc_nVersion outsBlock) < 0 then outs\<lparr>cc_nVersion := cc_nVersion outsBlock\<rparr> else outs)
     in Inr (coins_eq outs outsBlock, CCoins_Clear))"

text \<open>
  The loop of \<open>DisconnectBlock\<close>, from the last transaction to the first; the result is \<open>None\<close> where
  the undo data do not fit the block and the flag \<open>fClean\<close> otherwise.
\<close>

definition disconnect_tx :: "script_env \<Rightarrow> int \<Rightarrow> CTransaction \<Rightarrow> CTxInUndo list option \<Rightarrow> CCoinsView \<Rightarrow> coins_error + bool option \<times> CCoinsView" where
  "disconnect_tx env nHeight tx txundo v =
    ebind (with_modifier (ModifyCoins v (GetHash env tx)) (GetHash env tx) (remove_outputs tx nHeight)) (\<lambda>(same, v).
      case txundo of
        None \<Rightarrow> Inr (Some same, v)
      | Some vprevout \<Rightarrow>
          if length vprevout \<noteq> length (tx_vin tx) then Inr (None, v)
          else ebind (undo_inputs (zip (tx_vin tx) vprevout) v) (\<lambda>(ok, v). Inr (Some (same \<and> ok), v)))"

primrec disconnect_txs :: "script_env \<Rightarrow> int \<Rightarrow> (CTransaction \<times> CTxInUndo list option) list \<Rightarrow> CCoinsView \<Rightarrow> coins_error + bool option \<times> CCoinsView" where
  "disconnect_txs env nHeight [] v = Inr (Some True, v)"
| "disconnect_txs env nHeight (tu # rest) v =
    ebind (disconnect_txs env nHeight rest v) (\<lambda>(r, v).
      case r of
        None \<Rightarrow> Inr (None, v)
      | Some fClean \<Rightarrow>
          ebind (disconnect_tx env nHeight (fst tu) (snd tu) v) (\<lambda>(r, v). Inr (map_option (\<lambda>ok. fClean \<and> ok) r, v)))"

definition DisconnectBlock :: "script_env \<Rightarrow> int \<Rightarrow> bytes \<Rightarrow> bytes \<Rightarrow> CTransaction list \<Rightarrow> CTxInUndo list list \<Rightarrow> CCoinsView \<Rightarrow> coins_error + bool option \<times> CCoinsView" where
  "DisconnectBlock env nHeight hashBlock hashPrev vtx vtxundo v =
    (case CoinsView_GetBestBlock v of (best, v) \<Rightarrow>
     if best \<noteq> hashBlock then Inl CoinsAssert
     else if length vtxundo + 1 \<noteq> length vtx then Inr (None, v)
     else ebind (disconnect_txs env nHeight (zip vtx (None # map Some vtxundo)) v) (\<lambda>(r, v).
            case r of None \<Rightarrow> Inr (None, v) | Some fClean \<Rightarrow> Inr (Some fClean, SetBestBlock v hashPrev)))"

text \<open>
  The shape of the coins in the views: no trailing spent outputs, spent outputs without a script and
  the height of a block after the first.
\<close>

definition coins_normal :: "CCoins \<Rightarrow> bool" where
  "coins_normal c \<longleftrightarrow>
    (cc_vout c \<noteq> [] \<longrightarrow> \<not> CTxOut_IsNull (last (cc_vout c))) \<and>
    list_all (\<lambda>out. CTxOut_IsNull out \<longrightarrow> out = CTxOut_SetNull) (cc_vout c) \<and> 0 < cc_nHeight c \<and> cc_nHeight c < 2 ^ 31"

definition all_normal :: "(bytes \<Rightarrow> CCoins option) \<Rightarrow> bool" where
  "all_normal cs \<longleftrightarrow> (\<forall>txid c. cs txid = Some c \<longrightarrow> coins_normal c)"

text \<open>A view \<open>v'\<close> from which \<open>f\<close> leads back, with result \<open>r\<close>, to the coins of \<open>v\<close>, in any cache that stands for its coins.\<close>

definition undone_by :: "'r \<Rightarrow> CCoinsView \<Rightarrow> CCoinsView \<Rightarrow> (CCoinsView \<Rightarrow> coins_error + 'r \<times> CCoinsView) \<Rightarrow> bool" where
  "undone_by r v v' f \<longleftrightarrow> (\<forall>w. ready w \<and> coins_of w = coins_of v' \<longrightarrow> (\<exists>w'. f w = Inr (r, w') \<and> ready w' \<and> coins_of w' = coins_of v))"

definition good_view :: "CCoinsView \<Rightarrow> bool" where
  "good_view v \<longleftrightarrow> ready v \<and> all_normal (coins_of v)"

text \<open>The outputs a transaction spends and creates.\<close>

definition tx_inputs :: "CTransaction \<Rightarrow> CTxIn list" where
  "tx_inputs tx = (if IsCoinBase tx then [] else tx_vin tx)"

definition created :: "CTransaction \<Rightarrow> nat \<Rightarrow> CTxOut option" where
  "created tx n =
    (if n < length (tx_vout tx) \<and> \<not> IsUnspendable (out_scriptPubKey (tx_vout tx ! n)) then Some (tx_vout tx ! n) else None)"

definition spendable_inputs :: "CCoinsView \<Rightarrow> CTransaction \<Rightarrow> bool" where
  "spendable_inputs v tx \<longleftrightarrow> distinct (map in_prevout (tx_inputs tx)) \<and> (\<forall>i \<in> set (tx_inputs tx). utxo v (in_prevout i) \<noteq> None)"

definition no_null :: "CTransaction \<Rightarrow> bool" where
  "no_null tx \<longleftrightarrow> list_all (\<lambda>out. \<not> CTxOut_IsNull out) (tx_vout tx)"

text \<open>A block of two transactions for the examples, the second of which spends the coins of the database.\<close>

definition plain_env :: script_env where
  "plain_env = \<lparr>ripemd160 = (\<lambda>b. b), sha1 = (\<lambda>b. b), sha256 = (\<lambda>b. b), CheckLowS = (\<lambda>_. True)\<rparr>"

definition demo_cache :: CCoinsView where
  "demo_cache = CCoinsViewCache [] [8] False (CCoinsViewDB demo_lib [([1], [0x01, 0x02, 0x3d, 0x07, 0x51, 0x03])] [8])"

definition demo_cb :: CTransaction where
  "demo_cb = \<lparr>tx_nVersion = 1,
    tx_vin = [\<lparr>in_prevout = \<lparr>po_hash = [0], po_n = - 1\<rparr>, in_scriptSig = [1, 5], in_nSequence = 0, in_scriptWitness = []\<rparr>],
    tx_vout = [\<lparr>out_nValue = 9, out_scriptPubKey = [81]\<rparr>], tx_nLockTime = 0\<rparr>"

definition demo_spend :: CTransaction where
  "demo_spend = \<lparr>tx_nVersion = 2,
    tx_vin = [\<lparr>in_prevout = \<lparr>po_hash = [1], po_n = 0\<rparr>, in_scriptSig = [], in_nSequence = 0, in_scriptWitness = []\<rparr>],
    tx_vout = [\<lparr>out_nValue = 6, out_scriptPubKey = [82]\<rparr>, \<lparr>out_nValue = 0, out_scriptPubKey = [106]\<rparr>], tx_nLockTime = 0\<rparr>"

section \<open>Spending an output and restoring it\<close>

lemma demo_db_read: "db_read demo_lib [([1], [0x01, 0x02, 0x3d, 0x07, 0x51, 0x03])] t = (if t = [1] then Some demo_coins else None)"
proof -
  have "CCoins_Unserialize (pk_Decompress demo_lib) [0x01, 0x02, 0x3d, 0x07, 0x51, 0x03] = Inr (demo_coins, [])" by code_simp
  then show ?thesis by (simp add: db_read_def)
qed


lemma Cleanup_vout_split: "vout = Cleanup_vout vout @ rev (takeWhile CTxOut_IsNull (rev vout))"
  by (metis Cleanup_vout_eq rev_append rev_rev_ident takeWhile_dropWhile_id)

lemma set_Cleanup_vout: "set (Cleanup_vout vout) \<subseteq> set vout"
  by (subst (2) Cleanup_vout_split) simp

lemma Cleanup_vout_id: "(vout \<noteq> [] \<Longrightarrow> \<not> CTxOut_IsNull (last vout)) \<Longrightarrow> Cleanup_vout vout = vout"
  by (subst Cleanup_vout.simps) auto

lemma last_Cleanup_vout: "Cleanup_vout vout \<noteq> [] \<Longrightarrow> \<not> CTxOut_IsNull (last (Cleanup_vout vout))"
  by (simp add: Cleanup_vout_eq last_rev hd_dropWhile)

lemma Cleanup_vout_idem [simp]: "Cleanup_vout (Cleanup_vout vout) = Cleanup_vout vout"
  by (rule Cleanup_vout_id) (rule last_Cleanup_vout)

lemma Cleanup_idem [simp]: "Cleanup (Cleanup c) = Cleanup c"
  by (simp add: Cleanup_def)

text \<open>An output that is spent and cleaned away comes back by growing the vector again.\<close>

lemma Cleanup_spent:
  assumes "\<not> CTxOut_IsNull (last vout)" "list_all (\<lambda>out. CTxOut_IsNull out \<longrightarrow> out = CTxOut_SetNull) vout" "n < length vout"
  shows "let xs = Cleanup_vout (vout[n := CTxOut_SetNull]) in
    (if length xs < n + 1 then xs @ replicate (n + 1 - length xs) CTxOut_SetNull else xs) = vout[n := CTxOut_SetNull]"
proof (cases "n + 1 = length vout")
  case True
  define ys where "ys = vout[n := CTxOut_SetNull]"
  define rs where "rs = rev (takeWhile CTxOut_IsNull (rev ys))"
  have split: "ys = Cleanup_vout ys @ rs" unfolding rs_def by (rule Cleanup_vout_split)
  have "ys \<noteq> []" "last ys = CTxOut_SetNull" using True by (cases vout rule: rev_cases; auto simp: ys_def)+
  then have "rs \<noteq> []" by (cases "rev ys") (auto simp: rs_def last_rev [symmetric] hd_rev)
  have "x = CTxOut_SetNull" if "x \<in> set rs" for x
  proof -
    have "CTxOut_IsNull x" using that by (auto simp: rs_def dest: set_takeWhileD)
    moreover have "x \<in> set ys" using that by (subst split) simp
    then have "x \<in> insert CTxOut_SetNull (set vout)" using set_update_subset_insert [of vout n] by (auto simp: ys_def)
    ultimately show ?thesis using assms(2) by (auto simp: list_all_iff)
  qed
  then have "rs = replicate (length rs) CTxOut_SetNull" by (simp add: replicate_eqI [symmetric] replicate_length_same)
  moreover have "length rs = n + 1 - length (Cleanup_vout ys)"
    using arg_cong [OF split, of length] True by (simp add: ys_def)
  moreover have "length (Cleanup_vout ys) < n + 1"
    using arg_cong [OF split, of length] True \<open>rs \<noteq> []\<close> by (cases rs) (auto simp: ys_def)
  ultimately show ?thesis using split by (simp add: Let_def flip: ys_def)
next
  case False
  then have "\<not> CTxOut_IsNull (last (vout[n := CTxOut_SetNull]))" using assms by (cases vout rule: rev_cases) (auto simp: list_update_append)
  then have "Cleanup_vout (vout[n := CTxOut_SetNull]) = vout[n := CTxOut_SetNull]" by (rule Cleanup_vout_id)
  then show ?thesis using False assms(3) by simp
qed

lemma height_round_trip: "0 < h \<Longrightarrow> h < 2 ^ 31 \<Longrightarrow> (of_int h :: u32) \<noteq> 0 \<and> sint (of_int h :: u32) = h"
proof -
  assume "0 < h" "h < 2 ^ 31"
  then obtain k where k: "h = int k" "k < 2 ^ 31" by (metis nat_0_le less_imp_le of_nat_less_iff of_nat_numeral of_nat_power)
  then have "unat (of_int h :: u32) = k" by (simp add: unat_of_nat)
  with k have "sint (of_int h :: u32) = h" by (subst sint_small) simp_all
  with \<open>0 < h\<close> show ?thesis by auto
qed

lemma coins_normal_spent:
  assumes "coins_normal c" "n < length (cc_vout c)"
  shows "coins_normal (Cleanup (c\<lparr>cc_vout := (cc_vout c)[n := CTxOut_SetNull]\<rparr>))"
proof -
  have "set (Cleanup_vout ((cc_vout c)[n := CTxOut_SetNull])) \<subseteq> insert CTxOut_SetNull (set (cc_vout c))"
    using set_update_subset_insert [of "cc_vout c" n CTxOut_SetNull] set_Cleanup_vout by (rule subset_trans [rotated])
  with assms show ?thesis
    by (auto simp: coins_normal_def Cleanup_def last_Cleanup_vout list_all_iff)
qed

lemma pruned_cleaned: "IsPruned (Cleanup c) \<longleftrightarrow> cc_vout (Cleanup c) = []"
  using last_Cleanup_vout [of "cc_vout c"] by (cases "Cleanup_vout (cc_vout c)" rule: rev_cases) (auto simp: IsPruned_def Cleanup_def)

text \<open>The undo record of a spent output restores the coins, whatever spent coins the view returns.\<close>

lemma undo_spend_input:
  assumes c: "coins_normal c" "IsAvailable c n" and n: "n = unat (po_n (in_prevout i))"
  shows "\<exists>undo c'. spend_input i c = Inr (undo, c') \<and> Cleanup c' = c' \<and> coins_normal c' \<and>
    (\<forall>d. unspent d = unspent c' \<longrightarrow> undo_input undo n d = Inr (True, c)) \<and>
    (\<forall>k. IsAvailable c' k = (k \<noteq> n \<and> IsAvailable c k) \<and> (IsAvailable c' k \<longrightarrow> cc_vout c' ! k = cc_vout c ! k))"
proof -
  define c' where "c' = Cleanup (c\<lparr>cc_vout := (cc_vout c)[n := CTxOut_SetNull]\<rparr>)"
  have len: "n < length (cc_vout c)" and avail: "\<not> CTxOut_IsNull (cc_vout c ! n)" using c(2) by (auto simp: IsAvailable_def)
  have vout: "cc_vout c' = Cleanup_vout ((cc_vout c)[n := CTxOut_SetNull])" by (simp add: c'_def Cleanup_def)
  have meta: "cc_fCoinBase c' = cc_fCoinBase c" "cc_nHeight c' = cc_nHeight c" "cc_nVersion c' = cc_nVersion c"
    by (simp_all add: c'_def Cleanup_def)
  have "cc_vout c \<noteq> []" using len by auto
  then have "\<not> CTxOut_IsNull (last (cc_vout c))" "list_all (\<lambda>out. CTxOut_IsNull out \<longrightarrow> out = CTxOut_SetNull) (cc_vout c)"
    using c(1) by (simp_all add: coins_normal_def)
  note Cleanup_spent [OF this len]
  then have grow: "(if length (cc_vout c') < n + 1 then cc_vout c' @ replicate (n + 1 - length (cc_vout c')) CTxOut_SetNull else cc_vout c') =
      (cc_vout c)[n := CTxOut_SetNull]" by (simp only: Let_def vout)
  have restored: "(cc_vout c)[n := CTxOut_SetNull, n := cc_vout c ! n] = cc_vout c" by simp
  have "\<not> IsAvailable c' n" using len by (simp add: c'_def) (simp add: IsAvailable_def)
  define undo where "undo = (if cc_vout c' = []
     then \<lparr>undo_txout = cc_vout c ! n, undo_fCoinBase = cc_fCoinBase c, undo_nHeight = of_int (cc_nHeight c), undo_nVersion = cc_nVersion c\<rparr>
     else \<lparr>undo_txout = cc_vout c ! n, undo_fCoinBase = False, undo_nHeight = 0, undo_nVersion = 0\<rparr>)"
  have spend: "spend_input i c = Inr (undo, c')"
    using len avail meta by (simp add: spend_input_def Spend_def Let_def n [symmetric] c'_def [symmetric] undo_def)
  have "undo_input undo n d = Inr (True, c)" if d: "unspent d = unspent c'" for d
  proof (cases "cc_vout c' = []")
    case True
    then have "IsPruned c'" by (simp add: IsPruned_def)
    with d have "IsPruned d" by (metis unspent_None)
    moreover have "replicate (n + 1) CTxOut_SetNull = (cc_vout c)[n := CTxOut_SetNull]" using grow True by simp
    then have "(replicate (n + 1) CTxOut_SetNull)[n := cc_vout c ! n] = cc_vout c" using restored by simp
    ultimately show ?thesis
      using True height_round_trip [of "cc_nHeight c"] c(1)
      by (simp add: undo_input_def undo_def Let_def CCoins_Clear_def IsAvailable_def coins_normal_def)
  next
    case False
    then have "\<not> IsPruned c'" using pruned_cleaned unfolding c'_def by blast
    with d have "d = c'" by (metis unspent_Some unspent_def)
    with False \<open>\<not> IsAvailable c' n\<close> \<open>\<not> IsPruned c'\<close> show ?thesis
      using grow restored meta by (simp add: undo_input_def undo_def Let_def)
  qed
  moreover have "IsAvailable c' k = (k \<noteq> n \<and> IsAvailable c k)" for k
    unfolding c'_def IsAvailable_Cleanup using len by (auto simp: IsAvailable_def nth_list_update)
  moreover have "cc_vout c' ! k = cc_vout c ! k" if "IsAvailable c' k" for k
    using that calculation(2) [of k] by (auto simp: IsAvailable_def vout nth_Cleanup_vout)
  ultimately show ?thesis using spend coins_normal_spent [OF c(1) len] by (auto simp: c'_def)
qed

section \<open>Spending and restoring the inputs of a transaction\<close>

lemma spend_input_fails: "\<not> IsAvailable c (unat (po_n (in_prevout i))) \<Longrightarrow> spend_input i c = Inl CoinsAssert"
  by (auto simp: spend_input_def IsAvailable_def Let_def)

lemma normal_Cleanup: "coins_normal c \<Longrightarrow> Cleanup c = c"
  by (simp add: Cleanup_def coins_normal_def Cleanup_vout_id)

lemma all_normal_update: "all_normal cs \<Longrightarrow> coins_normal c \<Longrightarrow> all_normal (cs(txid := unspent c))"
  by (auto simp: all_normal_def)

lemma outpoint_eq: "po_hash a = po_hash b \<Longrightarrow> unat (po_n a) = unat (po_n b) \<Longrightarrow> a = (b :: COutPoint)"
  by (cases a; cases b) (simp add: word_unat_eq_iff)

lemma spend_one:
  assumes v: "good_view v" and po: "po = in_prevout i"
  shows "case utxo v po of
      None \<Rightarrow> with_modifier (ModifyCoins v (po_hash po)) (po_hash po) (spend_input i) = Inl CoinsAssert
    | Some out \<Rightarrow> \<exists>undo v'. with_modifier (ModifyCoins v (po_hash po)) (po_hash po) (spend_input i) = Inr (undo, v') \<and>
        good_view v' \<and> utxo v' = (utxo v)(po := None) \<and> dom (coins_of v') \<subseteq> dom (coins_of v) \<and>
        undone_by True v v' (\<lambda>w. ApplyTxInUndo undo w po)"
proof -
  define t n where "t = po_hash po" and "n = unat (po_n po)"
  have ready: "ready v" and normal: "all_normal (coins_of v)" using v by (simp_all add: good_view_def)
  obtain c where c: "unspent c = coins_of v t" and run: "case spend_input i c of
       Inl er \<Rightarrow> with_modifier (ModifyCoins v t) t (spend_input i) = Inl er
     | Inr (r, c') \<Rightarrow> \<exists>v'. with_modifier (ModifyCoins v t) t (spend_input i) = Inr (r, v') \<and> ready v' \<and>
         coins_of v' = (coins_of v)(t := unspent (Cleanup c'))"
    using with_ModifyCoins [OF ready, of t "spend_input i"] by blast
  show ?thesis
  proof (cases "IsAvailable c n")
    case False
    then have "utxo v po = None" using c by (auto simp: utxo_def t_def [symmetric] n_def [symmetric] unspent_def split: option.splits if_splits)
    with False run spend_input_fails [of c i] show ?thesis by (simp add: po n_def t_def)
  next
    case True
    then have some: "coins_of v t = Some c" using c available_not_pruned by (metis unspent_def)
    with normal have cn: "coins_normal c" by (simp add: all_normal_def)
    obtain undo c' where sp: "spend_input i c = Inr (undo, c')" and c': "Cleanup c' = c'" "coins_normal c'"
      and restore: "\<And>d. unspent d = unspent c' \<Longrightarrow> undo_input undo n d = Inr (True, c)"
      and avail: "\<And>k. IsAvailable c' k = (k \<noteq> n \<and> IsAvailable c k)" "\<And>k. IsAvailable c' k \<Longrightarrow> cc_vout c' ! k = cc_vout c ! k"
      using undo_spend_input [OF cn True, of i] by (auto simp: n_def po)
    obtain v' where run': "with_modifier (ModifyCoins v t) t (spend_input i) = Inr (undo, v')" and ready': "ready v'"
      and coins': "coins_of v' = (coins_of v)(t := unspent c')" using run by (auto simp: sp c')
    have "utxo v' = (utxo v)(po := None)"
      using avail some by (auto simp: utxo_def coins' fun_eq_iff unspent_def t_def n_def split: option.split dest: outpoint_eq available_not_pruned)
    moreover have "undone_by True v v' (\<lambda>w. ApplyTxInUndo undo w po)"
      unfolding undone_by_def
    proof (intro allI impI)
      fix w
      assume w: "ready w \<and> coins_of w = coins_of v'"
      then obtain d where d: "unspent d = coins_of w t" and wrun: "case undo_input undo n d of
         Inl er \<Rightarrow> with_modifier (ModifyCoins w t) t (undo_input undo n) = Inl er
       | Inr (r, c') \<Rightarrow> \<exists>v'. with_modifier (ModifyCoins w t) t (undo_input undo n) = Inr (r, v') \<and> ready v' \<and>
           coins_of v' = (coins_of w)(t := unspent (Cleanup c'))"
        using with_ModifyCoins [of w t "undo_input undo n"] by blast
      have "undo_input undo n d = Inr (True, c)" using restore d w by (simp add: coins')
      moreover have "unspent (Cleanup c) = coins_of v t" using c cn by (simp add: normal_Cleanup)
      ultimately show "\<exists>w'. ApplyTxInUndo undo w po = Inr (True, w') \<and> ready w' \<and> coins_of w' = coins_of v"
        using wrun w by (auto simp: ApplyTxInUndo_def t_def [symmetric] n_def [symmetric] coins' fun_upd_idem)
    qed
    moreover have "utxo v po = Some (cc_vout c ! n)" using some True by (simp add: utxo_def t_def n_def)
    moreover have "good_view v'" using ready' all_normal_update [OF normal c'(2)] by (simp add: good_view_def coins')
    moreover have "dom (coins_of v') \<subseteq> dom (coins_of v)" using some by (auto simp: coins')
    ultimately show ?thesis using run' by (simp add: t_def [symmetric]) 
  qed
qed

lemma undone_by_step:
  assumes "undone_by True v v1 (\<lambda>w. ApplyTxInUndo undo w (in_prevout i))" "undone_by True v1 v2 (undo_inputs ius)"
  shows "undone_by True v v2 (undo_inputs ((i, undo) # ius))"
  unfolding undone_by_def
proof (intro allI impI)
  fix w
  assume "ready w \<and> coins_of w = coins_of v2"
  then obtain w1 where w1: "undo_inputs ius w = Inr (True, w1)" "ready w1" "coins_of w1 = coins_of v1"
    using assms(2) unfolding undone_by_def by blast
  then obtain w2 where "ApplyTxInUndo undo w1 (in_prevout i) = Inr (True, w2)" "ready w2" "coins_of w2 = coins_of v"
    using assms(1) unfolding undone_by_def by blast
  with w1 show "\<exists>w'. undo_inputs ((i, undo) # ius) w = Inr (True, w') \<and> ready w' \<and> coins_of w' = coins_of v" by simp
qed

lemma spend_inputs_correct:
  assumes "good_view v"
  shows "if distinct (map in_prevout vin) \<and> (\<forall>i \<in> set vin. utxo v (in_prevout i) \<noteq> None)
    then \<exists>undos v'. spend_inputs vin v = Inr (undos, v') \<and> length undos = length vin \<and> good_view v' \<and>
      utxo v' = (\<lambda>po. if po \<in> in_prevout ` set vin then None else utxo v po) \<and> dom (coins_of v') \<subseteq> dom (coins_of v) \<and>
      undone_by True v v' (undo_inputs (zip vin undos))
    else spend_inputs vin v = Inl CoinsAssert"
  using assms
proof (induction vin arbitrary: v)
  case Nil
  then show ?case by (simp add: undone_by_def)
next
  case (Cons i vin)
  define po where "po = in_prevout i"
  note one = spend_one [OF Cons.prems po_def]
  show ?case
  proof (cases "utxo v po")
    case None
    with one show ?thesis by (simp add: po_def)
  next
    case (Some out)
    with one obtain undo v1 where v1: "with_modifier (ModifyCoins v (po_hash po)) (po_hash po) (spend_input i) = Inr (undo, v1)"
        "good_view v1" "utxo v1 = (utxo v)(po := None)" "dom (coins_of v1) \<subseteq> dom (coins_of v)"
        "undone_by True v v1 (\<lambda>w. ApplyTxInUndo undo w po)" by auto
    note IH = Cons.IH [OF v1(2)]
    show ?thesis
    proof (cases "distinct (map in_prevout vin) \<and> (\<forall>i \<in> set vin. utxo v1 (in_prevout i) \<noteq> None)")
      case True
      then have "distinct (map in_prevout (i # vin)) \<and> (\<forall>i \<in> set (i # vin). utxo v (in_prevout i) \<noteq> None)"
        using Some v1(3) by (auto simp: po_def split: if_splits)
      moreover obtain undos v' where v': "spend_inputs vin v1 = Inr (undos, v')" "length undos = length vin" "good_view v'"
          "utxo v' = (\<lambda>po. if po \<in> in_prevout ` set vin then None else utxo v1 po)" "dom (coins_of v') \<subseteq> dom (coins_of v1)"
          "undone_by True v1 v' (undo_inputs (zip vin undos))" using IH True by auto
      moreover have "undone_by True v v' (undo_inputs (zip (i # vin) (undo # undos)))"
        using undone_by_step v1(5) v'(6) by (simp add: po_def)
      ultimately show ?thesis using v1 by (auto simp: po_def fun_eq_iff)
    next
      case False
      then have "\<not> (distinct (map in_prevout (i # vin)) \<and> (\<forall>i \<in> set (i # vin). utxo v (in_prevout i) \<noteq> None))"
        using v1(3) by (auto simp: po_def image_iff split: if_splits) metis+
      moreover have "spend_inputs (i # vin) v = Inl CoinsAssert" using IH False v1(1) by (simp add: po_def)
      ultimately show ?thesis by simp
    qed
  qed
qed

section \<open>Connecting and disconnecting transactions\<close>

lemma ClearUnspendable_idem [simp]: "ClearUnspendable (ClearUnspendable c) = ClearUnspendable c"
proof -
  define vs where "vs = map (\<lambda>out. if IsUnspendable (out_scriptPubKey out) then CTxOut_SetNull else out) (cc_vout c)"
  have "\<not> IsUnspendable (out_scriptPubKey out)" if "out \<in> set (Cleanup_vout vs)" for out
    using that set_Cleanup_vout [of vs] by (auto simp: vs_def IsUnspendable_def CTxOut_SetNull_def MAX_SCRIPT_SIZE_def split: if_splits)
  then have "map (\<lambda>out. if IsUnspendable (out_scriptPubKey out) then CTxOut_SetNull else out) (Cleanup_vout vs) = Cleanup_vout vs"
    by (simp add: map_idI)
  then show ?thesis by (simp add: ClearUnspendable_def Cleanup_def flip: vs_def)
qed

lemma Cleanup_FromTx [simp]: "Cleanup (FromTx tx h) = FromTx tx h"
  by (simp add: FromTx_def ClearUnspendable_def)

lemma ClearUnspendable_FromTx [simp]: "ClearUnspendable (FromTx tx h) = FromTx tx h"
  by (simp add: FromTx_def)

lemma coins_normal_FromTx:
  assumes "no_null tx" "0 < h" "h < 2 ^ 31"
  shows "coins_normal (FromTx tx h)"
proof -
  define vs where "vs = map (\<lambda>out. if IsUnspendable (out_scriptPubKey out) then CTxOut_SetNull else out) (tx_vout tx)"
  have "out = CTxOut_SetNull" if "out \<in> set (Cleanup_vout vs)" "CTxOut_IsNull out" for out
    using that set_Cleanup_vout [of vs] assms(1) by (auto simp: vs_def no_null_def list_all_iff split: if_splits)
  then show ?thesis using assms(2,3) last_Cleanup_vout [of vs]
    by (auto simp: coins_normal_def FromTx_def ClearUnspendable_def Cleanup_def list_all_iff simp flip: vs_def)
qed

lemma IsPruned_ClearUnspendable: "IsPruned c \<Longrightarrow> IsPruned (ClearUnspendable c)"
  by (auto simp: ClearUnspendable_def) (auto simp: IsPruned_def list_all_iff)

lemma remove_outputs_of:
  assumes "unspent c = unspent (FromTx tx h)"
  shows "remove_outputs tx h c = Inr (True, CCoins_Clear)"
proof (cases "IsPruned (FromTx tx h)")
  case True
  with assms have "IsPruned c" by (metis unspent_None)
  then have "IsPruned (ClearUnspendable c)" by (rule IsPruned_ClearUnspendable)
  with True show ?thesis by (simp add: remove_outputs_def Let_def coins_eq_def) (simp add: IsPruned_def)
next
  case False
  with assms have "c = FromTx tx h" by (metis unspent_Some unspent_def)
  then show ?thesis by (simp add: remove_outputs_def Let_def coins_eq_def)
qed

text \<open>Removing the outputs of a transaction takes back what adding them did.\<close>

lemma removed_outputs:
  assumes "ready w" "coins_of w = cs(GetHash env tx := unspent (FromTx tx h))" "cs (GetHash env tx) = None"
  shows "\<exists>w'. with_modifier (ModifyCoins w (GetHash env tx)) (GetHash env tx) (remove_outputs tx h) = Inr (True, w') \<and>
    ready w' \<and> coins_of w' = cs"
proof -
  define t where "t = GetHash env tx"
  obtain c where c: "unspent c = coins_of w t" and run: "case remove_outputs tx h c of
       Inl er \<Rightarrow> with_modifier (ModifyCoins w t) t (remove_outputs tx h) = Inl er
     | Inr (r, c') \<Rightarrow> \<exists>v'. with_modifier (ModifyCoins w t) t (remove_outputs tx h) = Inr (r, v') \<and> ready v' \<and>
         coins_of v' = (coins_of w)(t := unspent (Cleanup c'))"
    using with_ModifyCoins [OF assms(1), of t "remove_outputs tx h"] by blast
  have "remove_outputs tx h c = Inr (True, CCoins_Clear)"
    using c assms(2) by (intro remove_outputs_of) (simp add: t_def)
  with run assms(2,3) show ?thesis by (auto simp: t_def fun_upd_idem)
qed

lemma FromTx_outputs:
  assumes "no_null tx"
  shows "(if IsAvailable (FromTx tx h) n then Some (cc_vout (FromTx tx h) ! n) else None) = created tx n"
proof -
  define c where "c = \<lparr>cc_fCoinBase = IsCoinBase tx, cc_vout = map (\<lambda>out. if IsUnspendable (out_scriptPubKey out) then CTxOut_SetNull else out) (tx_vout tx),
      cc_nHeight = h, cc_nVersion = tx_nVersion tx\<rparr>"
  have F: "FromTx tx h = Cleanup c" by (simp add: FromTx_def ClearUnspendable_def c_def)
  have "IsAvailable c n \<longleftrightarrow> created tx n \<noteq> None" "IsAvailable c n \<Longrightarrow> cc_vout c ! n = the (created tx n)"
    using assms by (auto simp: IsAvailable_def c_def created_def no_null_def list_all_length split: if_splits)
  moreover have "cc_vout (Cleanup c) ! n = cc_vout c ! n" if "IsAvailable c n"
    using that IsAvailable_Cleanup [of c n] nth_Cleanup_vout [of n "cc_vout c"] unfolding IsAvailable_def by (simp add: Cleanup_def)
  ultimately show ?thesis by (auto simp: F)
qed

lemma UpdateCoins_correct:
  assumes v: "good_view v" and tx: "no_null tx" "0 < h" "h < 2 ^ 31" "coins_of v (GetHash env tx) = None"
  shows "if spendable_inputs v tx
    then \<exists>undos v'. UpdateCoins env tx v h = Inr (undos, v') \<and> good_view v' \<and>
      utxo v' = (\<lambda>po. if po_hash po = GetHash env tx then created tx (unat (po_n po))
        else if po \<in> in_prevout ` set (tx_inputs tx) then None else utxo v po) \<and>
      dom (coins_of v') \<subseteq> insert (GetHash env tx) (dom (coins_of v)) \<and>
      undone_by (Some True) v v' (disconnect_tx env h tx (if IsCoinBase tx then None else Some undos))
    else UpdateCoins env tx v h = Inl CoinsAssert"
proof (cases "spendable_inputs v tx")
  case False
  then show ?thesis using spend_inputs_correct [OF v, of "tx_vin tx"]
    by (auto simp: spendable_inputs_def tx_inputs_def UpdateCoins_def split: if_splits)
next
  case True
  define t where "t = GetHash env tx"
  have "\<exists>undos v1. (if \<not> IsCoinBase tx then spend_inputs (tx_vin tx) v else Inr ([], v)) = Inr (undos, v1) \<and> length undos = length (tx_inputs tx) \<and> good_view v1 \<and>
      utxo v1 = (\<lambda>po. if po \<in> in_prevout ` set (tx_inputs tx) then None else utxo v po) \<and> dom (coins_of v1) \<subseteq> dom (coins_of v) \<and>
      undone_by True v v1 (undo_inputs (zip (tx_inputs tx) undos))"
    using True v spend_inputs_correct [OF v, of "tx_vin tx"]
    by (auto simp: spendable_inputs_def tx_inputs_def undone_by_def split: if_splits)
  then obtain undos v1 where v1: "(if \<not> IsCoinBase tx then spend_inputs (tx_vin tx) v else Inr ([], v)) = Inr (undos, v1)"
      "length undos = length (tx_inputs tx)" "good_view v1"
      "utxo v1 = (\<lambda>po. if po \<in> in_prevout ` set (tx_inputs tx) then None else utxo v po)" "dom (coins_of v1) \<subseteq> dom (coins_of v)"
      "undone_by True v v1 (undo_inputs (zip (tx_inputs tx) undos))" by blast
  have t: "coins_of v1 t = None" using v1(5) tx(4) by (auto simp: t_def dom_def subset_iff)
  obtain v' where v': "with_modifier (ModifyNewCoins v1 t (IsCoinBase tx)) t (\<lambda>coins. Inr (undos, FromTx tx h)) = Inr (undos, v')"
      "ready v'" "coins_of v' = (coins_of v1)(t := unspent (FromTx tx h))"
    using with_ModifyNewCoins [of v1 "IsCoinBase tx" t undos "\<lambda>_. FromTx tx h"] t v1(3) by (auto simp: good_view_def)
  have "UpdateCoins env tx v h = Inr (undos, v')" using v1(1) v'(1) by (simp add: UpdateCoins_def t_def)
  moreover have "good_view v'" using v1(3) v'(2) all_normal_update [OF _ coins_normal_FromTx [OF tx(1-3)]] by (simp add: good_view_def v'(3))
  moreover have "utxo v' po = (if po_hash po = t then created tx (unat (po_n po)) else utxo v1 po)" for po
    using FromTx_outputs [OF tx(1), of h "unat (po_n po)"] by (auto simp: utxo_def v'(3) unspent_def dest: available_not_pruned split: if_splits)
  moreover have "dom (coins_of v') \<subseteq> insert t (dom (coins_of v))" using v1(5) by (auto simp: v'(3) dom_def subset_iff)
  moreover have "undone_by (Some True) v v' (disconnect_tx env h tx (if IsCoinBase tx then None else Some undos))"
    unfolding undone_by_def
  proof (intro allI impI)
    fix w
    assume "ready w \<and> coins_of w = coins_of v'"
    then obtain w1 where w1: "with_modifier (ModifyCoins w t) t (remove_outputs tx h) = Inr (True, w1)" "ready w1" "coins_of w1 = coins_of v1"
      using removed_outputs [of w "coins_of v1" env tx h] v'(3) t by (auto simp: t_def)
    then obtain w2 where "undo_inputs (zip (tx_inputs tx) undos) w1 = Inr (True, w2)" "ready w2" "coins_of w2 = coins_of v"
      using v1(6) unfolding undone_by_def by blast
    with w1 v1(2) show "\<exists>w'. disconnect_tx env h tx (if IsCoinBase tx then None else Some undos) w = Inr (Some True, w') \<and> ready w' \<and> coins_of w' = coins_of v"
      by (auto simp: disconnect_tx_def t_def tx_inputs_def)
  qed
  ultimately show ?thesis using True by (auto simp: t_def v1(4))
qed

section \<open>Blocks\<close>

lemma view_of_best [simp]:
  "coins_of (snd (CoinsView_GetBestBlock v)) = coins_of v" "view_ok (snd (CoinsView_GetBestBlock v)) = view_ok v"
  "idle (snd (CoinsView_GetBestBlock v)) = idle v"
  by (induction v) (auto split: prod.split)

lemma ready_best [simp]: "ready (snd (CoinsView_GetBestBlock v)) = ready v"
  using view_of_best [of v] by (cases v) (auto simp: ready_def split: prod.splits)

lemma SetBestBlock_keeps [simp]: "coins_of (SetBestBlock v h) = coins_of v" "ready (SetBestBlock v h) = ready v"
  by (cases v; simp add: SetBestBlock_def ready_def)+

lemma GetBestBlock_set: "ready v \<Longrightarrow> \<not> uint256_IsNull h \<Longrightarrow> fst (CoinsView_GetBestBlock (SetBestBlock v h)) = h"
  by (cases v) (simp_all add: SetBestBlock_def ready_def)

text \<open>The identifiers of transactions still to be connected stay without coins.\<close>

lemma absent_step:
  assumes "distinct (map (GetHash env) (tx # vtx))" "list_all (\<lambda>x. coins_of v (GetHash env x) = None) (tx # vtx)"
    "dom (coins_of v') \<subseteq> insert (GetHash env tx) (dom (coins_of v))"
  shows "list_all (\<lambda>x. coins_of v' (GetHash env x) = None) vtx"
  unfolding list_all_iff
proof
  fix x
  assume x: "x \<in> set vtx"
  then have "GetHash env x \<in> set (map (GetHash env) vtx)" "coins_of v (GetHash env x) = None" using assms(2) by (auto simp: list_all_iff)
  moreover from this(1) have "GetHash env x \<noteq> GetHash env tx" using assms(1) by (metis distinct.simps(2) list.simps(9))
  ultimately show "coins_of v' (GetHash env x) = None" using assms(3) by blast
qed

lemma undone_by_txs:
  assumes "undone_by (Some True) v v1 (disconnect_tx env h tx u)" "undone_by (Some True) v1 v2 (disconnect_txs env h rest)"
  shows "undone_by (Some True) v v2 (disconnect_txs env h ((tx, u) # rest))"
  unfolding undone_by_def
proof (intro allI impI)
  fix w
  assume "ready w \<and> coins_of w = coins_of v2"
  then obtain w1 where w1: "disconnect_txs env h rest w = Inr (Some True, w1)" "ready w1" "coins_of w1 = coins_of v1"
    using assms(2) unfolding undone_by_def by blast
  then obtain w2 where "disconnect_tx env h tx u w1 = Inr (Some True, w2)" "ready w2" "coins_of w2 = coins_of v"
    using assms(1) unfolding undone_by_def by blast
  with w1 show "\<exists>w'. disconnect_txs env h ((tx, u) # rest) w = Inr (Some True, w') \<and> ready w' \<and> coins_of w' = coins_of v" by simp
qed

lemma DisconnectBlock_undone:
  assumes u: "undone_by (Some True) v v1 (disconnect_txs env h (zip vtx (None # map Some vtxundo)))" and len: "length vtxundo + 1 = length vtx"
    and w: "ready w" "coins_of w = coins_of v1" "fst (CoinsView_GetBestBlock w) = hashBlock"
  shows "\<exists>w'. DisconnectBlock env h hashBlock hashPrev vtx vtxundo w = Inr (Some True, w') \<and> ready w' \<and> coins_of w' = coins_of v"
proof -
  define w0 where "w0 = snd (CoinsView_GetBestBlock w)"
  have best: "CoinsView_GetBestBlock w = (hashBlock, w0)" using w(3) by (simp add: w0_def prod_eq_iff)
  have "ready w0 \<and> coins_of w0 = coins_of v1" using w by (simp add: w0_def)
  then obtain w1 where "disconnect_txs env h (zip vtx (None # map Some vtxundo)) w0 = Inr (Some True, w1)" "ready w1" "coins_of w1 = coins_of v"
    using u unfolding undone_by_def by blast
  with len show ?thesis by (simp add: DisconnectBlock_def best)
qed

text \<open>
  C3. Updating the coins for a transaction whose identifier has no unspent outputs: where its inputs are
  distinct and unspent, exactly these are removed from the set of unspent outputs and exactly its
  spendable outputs are added; where an input is spent, missing or used twice, the program stops at an
  assertion.
\<close>

theorem UpdateCoins_utxo:
  assumes "good_view v" "no_null tx" "0 < h" "h < 2 ^ 31" "coins_of v (GetHash env tx) = None"
  shows "if spendable_inputs v tx
    then \<exists>undos v'. UpdateCoins env tx v h = Inr (undos, v') \<and> good_view v' \<and>
      utxo v' = (\<lambda>po. if po_hash po = GetHash env tx then created tx (unat (po_n po))
        else if po \<in> in_prevout ` set (tx_inputs tx) then None else utxo v po)
    else UpdateCoins env tx v h = Inl CoinsAssert"
  using UpdateCoins_correct [OF assms] by (auto split: if_splits)

lemma good_demo_cache: "good_view demo_cache"
  by (auto simp: good_view_def ready_def demo_cache_def demo_db_read all_normal_def coins_normal_def demo_coins_def CTxOut_IsNull_def split: if_splits)

lemma take_demo_hash: "take 4 (GetHash plain_env tx) = WriteLE32 (tx_nVersion tx)"
  by (simp add: GetHash_def CHash256_def plain_env_def SerializeTransaction_def ser_writedata32_def)

lemma demo_hashes: "GetHash plain_env demo_cb \<noteq> GetHash plain_env demo_spend" "GetHash plain_env tx \<noteq> [1]"
proof -
  have "WriteLE32 1 \<noteq> WriteLE32 2" by code_simp
  then show "GetHash plain_env demo_cb \<noteq> GetHash plain_env demo_spend"
    using take_demo_hash [of demo_cb] take_demo_hash [of demo_spend] by (auto simp: demo_cb_def demo_spend_def)
  have "length (take 4 (GetHash plain_env tx)) = 4" by (simp add: take_demo_hash)
  then show "GetHash plain_env tx \<noteq> [1]" by auto
qed

lemma demo_absent: "coins_of demo_cache (GetHash plain_env tx) = None"
  using demo_hashes(2) [of tx] by (simp add: demo_cache_def demo_db_read)

lemma UpdateCoins_utxo_witness:
  "\<exists>undos v'. UpdateCoins plain_env demo_spend demo_cache 5 = Inr (undos, v') \<and> utxo v' \<lparr>po_hash = [1], po_n = 0\<rparr> = None \<and>
    utxo v' \<lparr>po_hash = GetHash plain_env demo_spend, po_n = 0\<rparr> = Some \<lparr>out_nValue = 6, out_scriptPubKey = [82]\<rparr>"
proof -
  have c: "no_null demo_spend" by code_simp
  have s: "spendable_inputs demo_cache demo_spend" by code_simp
  have cr: "created demo_spend 0 = Some \<lparr>out_nValue = 6, out_scriptPubKey = [82]\<rparr>"
    by (simp add: created_def demo_spend_def IsUnspendable_def MAX_SCRIPT_SIZE_def)
  have i: "in_prevout ` set (tx_inputs demo_spend) = {\<lparr>po_hash = [1], po_n = 0\<rparr>}" by code_simp
  show ?thesis using UpdateCoins_utxo [OF good_demo_cache c _ _ demo_absent, of 5] s demo_hashes(2) [of demo_spend] cr i by auto
qed

end
