(* ===== verification/SigHash.thy ===== *)
theory SigHash
  imports Transaction Standard
begin

text \<open>
  Signature hashes and the transaction signature checker, \<^verbatim>\<open>sige/src/script/interpreter.cpp\<close> and
  \<^verbatim>\<open>interpreter.h\<close>.  Verification of a signature by a public key, which calls the elliptic-curve
  library, is an argument.  The index of the input is in range, as it is wherever a checker is made:
  the code reads \<^verbatim>\<open>txTo->vin[nIn]\<close> unchecked.
\<close>

section \<open>The serializer of the original hash\<close>

record CTransactionSignatureSerializer =
  ss_txTo :: CTransaction
  ss_scriptCode :: CScript
  ss_nIn :: nat
  fAnyoneCanPay :: bool
  fHashSingle :: bool
  fHashNone :: bool

definition make_serializer :: "CTransaction \<Rightarrow> CScript \<Rightarrow> nat \<Rightarrow> u32 \<Rightarrow> CTransactionSignatureSerializer" where
  "make_serializer txToIn scriptCodeIn nInIn nHashTypeIn =
    \<lparr>ss_txTo = txToIn, ss_scriptCode = scriptCodeIn, ss_nIn = nInIn,
     fAnyoneCanPay = (nHashTypeIn AND ucast SIGHASH_ANYONECANPAY \<noteq> 0),
     fHashSingle = (nHashTypeIn AND 0x1f = ucast SIGHASH_SINGLE),
     fHashNone = (nHashTypeIn AND 0x1f = ucast SIGHASH_NONE)\<rparr>"

function count_codeseparators :: "bytes \<Rightarrow> nat" where
  "count_codeseparators it =
    (case GetOp it of
       None \<Rightarrow> 0
     | Some (opcode, _, it) \<Rightarrow> (if opcode = OP_CODESEPARATOR then 1 else 0) + count_codeseparators it)"
  by pat_completeness auto
termination by (relation "measure length") (auto dest: GetOp_length)

declare count_codeseparators.simps [simp del]

text \<open>The second loop, with the start of the current segment and the position; after the loop the last segment is written.\<close>

function write_segments :: "bytes \<Rightarrow> bytes \<Rightarrow> bytes" where
  "write_segments itBegin it =
    (case GetOp2 it of
       (fRet, opcode, _, it) \<Rightarrow>
         if fRet
         then if opcode = OP_CODESEPARATOR
              then take (length itBegin - length it - 1) itBegin @ write_segments it it
              else write_segments itBegin it
         else if itBegin \<noteq> [] then take (length itBegin - length it) itBegin else [])"
  by pat_completeness auto
termination
proof -
  have getop: "GetOp2 pc = (True, opcode, vch, pc') \<Longrightarrow> length pc' < length pc" for pc opcode vch pc'
    using GetOp_length[of pc opcode vch pc'] by (simp add: GetOp_def)
  show ?thesis by (relation "measure (\<lambda>(b, i). length i)") (auto dest: getop sym)
qed

declare write_segments.simps [simp del]

definition SerializeScriptCode :: "CTransactionSignatureSerializer \<Rightarrow> bytes" where
  "SerializeScriptCode ss =
    WriteCompactSize (of_nat (length (ss_scriptCode ss) - count_codeseparators (ss_scriptCode ss))) @
    write_segments (ss_scriptCode ss) (ss_scriptCode ss)"

definition SerializeInput :: "CTransactionSignatureSerializer \<Rightarrow> nat \<Rightarrow> bytes" where
  "SerializeInput ss nInput =
    (let nInput = (if fAnyoneCanPay ss then ss_nIn ss else nInput); txin = tx_vin (ss_txTo ss) ! nInput
     in Serialize_COutPoint (in_prevout txin) @
        (if nInput \<noteq> ss_nIn ss then Serialize_bytes [] else SerializeScriptCode ss) @
        (if nInput \<noteq> ss_nIn ss \<and> (fHashSingle ss \<or> fHashNone ss) then ser_writedata32 0 else ser_writedata32 (in_nSequence txin)))"

definition SerializeOutput :: "CTransactionSignatureSerializer \<Rightarrow> nat \<Rightarrow> bytes" where
  "SerializeOutput ss nOutput =
    (if fHashSingle ss \<and> nOutput \<noteq> ss_nIn ss then Serialize_CTxOut CTxOut_SetNull
     else Serialize_CTxOut (tx_vout (ss_txTo ss) ! nOutput))"

definition Serialize_SignatureSerializer :: "CTransactionSignatureSerializer \<Rightarrow> bytes" where
  "Serialize_SignatureSerializer ss =
    (let nInputs = (if fAnyoneCanPay ss then 1 else length (tx_vin (ss_txTo ss)));
         nOutputs = (if fHashNone ss then 0 else if fHashSingle ss then ss_nIn ss + 1 else length (tx_vout (ss_txTo ss)))
     in ser_writedata32 (tx_nVersion (ss_txTo ss)) @
        WriteCompactSize (of_nat nInputs) @ concat (map (SerializeInput ss) [0..<nInputs]) @
        WriteCompactSize (of_nat nOutputs) @ concat (map (SerializeOutput ss) [0..<nOutputs]) @
        ser_writedata32 (tx_nLockTime (ss_txTo ss)))"

section \<open>Signature hashes\<close>

definition prevouts_bytes :: "CTransaction \<Rightarrow> bytes" where
  "prevouts_bytes txTo = concat (map (Serialize_COutPoint \<circ> in_prevout) (tx_vin txTo))"

definition sequences_bytes :: "CTransaction \<Rightarrow> bytes" where
  "sequences_bytes txTo = concat (map (ser_writedata32 \<circ> in_nSequence) (tx_vin txTo))"

definition outputs_bytes :: "CTransaction \<Rightarrow> bytes" where
  "outputs_bytes txTo = concat (map Serialize_CTxOut (tx_vout txTo))"

definition GetPrevoutHash :: "script_env \<Rightarrow> CTransaction \<Rightarrow> bytes" where
  "GetPrevoutHash env txTo = CHash256 env (prevouts_bytes txTo)"

definition GetSequenceHash :: "script_env \<Rightarrow> CTransaction \<Rightarrow> bytes" where
  "GetSequenceHash env txTo = CHash256 env (sequences_bytes txTo)"

definition GetOutputsHash :: "script_env \<Rightarrow> CTransaction \<Rightarrow> bytes" where
  "GetOutputsHash env txTo = CHash256 env (outputs_bytes txTo)"

record PrecomputedTransactionData =
  hashPrevouts :: bytes
  hashSequence :: bytes
  hashOutputs :: bytes

definition make_PrecomputedTransactionData :: "script_env \<Rightarrow> CTransaction \<Rightarrow> PrecomputedTransactionData" where
  "make_PrecomputedTransactionData env txTo =
    \<lparr>hashPrevouts = GetPrevoutHash env txTo, hashSequence = GetSequenceHash env txTo, hashOutputs = GetOutputsHash env txTo\<rparr>"

definition uint256_zero :: bytes where "uint256_zero = replicate 32 0"
definition uint256_one :: bytes where "uint256_one = 1 # replicate 31 0"

text \<open>The bytes hashed under segregated witness.\<close>

definition witness_preimage ::
    "script_env \<Rightarrow> CScript \<Rightarrow> CTransaction \<Rightarrow> nat \<Rightarrow> u32 \<Rightarrow> CAmount \<Rightarrow> PrecomputedTransactionData option \<Rightarrow> bytes" where
  "witness_preimage env scriptCode txTo nIn nHashType amount cache =
    (let any = nHashType AND ucast SIGHASH_ANYONECANPAY \<noteq> 0; base = nHashType AND 0x1f;
         prevouts = (if \<not> any then case cache of Some c \<Rightarrow> hashPrevouts c | None \<Rightarrow> GetPrevoutHash env txTo else uint256_zero);
         sequences = (if \<not> any \<and> base \<noteq> ucast SIGHASH_SINGLE \<and> base \<noteq> ucast SIGHASH_NONE
                      then case cache of Some c \<Rightarrow> hashSequence c | None \<Rightarrow> GetSequenceHash env txTo else uint256_zero);
         outputs = (if base \<noteq> ucast SIGHASH_SINGLE \<and> base \<noteq> ucast SIGHASH_NONE
                    then case cache of Some c \<Rightarrow> hashOutputs c | None \<Rightarrow> GetOutputsHash env txTo
                    else if base = ucast SIGHASH_SINGLE \<and> nIn < length (tx_vout txTo)
                    then CHash256 env (Serialize_CTxOut (tx_vout txTo ! nIn)) else uint256_zero);
         txin = tx_vin txTo ! nIn
     in ser_writedata32 (tx_nVersion txTo) @ prevouts @ sequences @ Serialize_COutPoint (in_prevout txin) @
        Serialize_bytes scriptCode @ ser_writedata64 amount @ ser_writedata32 (in_nSequence txin) @ outputs @
        ser_writedata32 (tx_nLockTime txTo) @ ser_writedata32 nHashType)"

definition SignatureHash ::
    "script_env \<Rightarrow> CScript \<Rightarrow> CTransaction \<Rightarrow> nat \<Rightarrow> u32 \<Rightarrow> CAmount \<Rightarrow> SigVersion \<Rightarrow> PrecomputedTransactionData option \<Rightarrow> bytes" where
  "SignatureHash env scriptCode txTo nIn nHashType amount sigversion cache =
    (if sigversion = SIGVERSION_WITNESS_V0 then CHash256 env (witness_preimage env scriptCode txTo nIn nHashType amount cache)
     else if nIn \<ge> length (tx_vin txTo) then uint256_one
     else if nHashType AND 0x1f = ucast SIGHASH_SINGLE \<and> nIn \<ge> length (tx_vout txTo) then uint256_one
     else CHash256 env (Serialize_SignatureSerializer (make_serializer txTo scriptCode nIn nHashType) @ ser_writedata32 nHashType))"

section \<open>The checker\<close>

definition checker_CheckSig ::
    "script_env \<Rightarrow> (bytes \<Rightarrow> bytes \<Rightarrow> bytes \<Rightarrow> bool) \<Rightarrow> CTransaction \<Rightarrow> nat \<Rightarrow> CAmount \<Rightarrow> PrecomputedTransactionData option \<Rightarrow>
     valtype \<Rightarrow> valtype \<Rightarrow> CScript \<Rightarrow> SigVersion \<Rightarrow> bool" where
  "checker_CheckSig env Verify txTo nIn amount txdata vchSigIn vchPubKey scriptCode sigversion =
    (let pubkey = CPubKey_Set vchPubKey
     in if \<not> CPubKey_IsValid pubkey then False
        else if vchSigIn = [] then False
        else let nHashType = ucast (last vchSigIn); vchSig = butlast vchSigIn;
                 sighash = SignatureHash env scriptCode txTo nIn nHashType amount sigversion txdata
             in Verify pubkey sighash vchSig)"

definition checker_CheckLockTime :: "CTransaction \<Rightarrow> nat \<Rightarrow> CScriptNum \<Rightarrow> bool" where
  "checker_CheckLockTime txTo nIn nLockTime =
    (if \<not> ((uint (tx_nLockTime txTo) < LOCKTIME_THRESHOLD \<and> nLockTime < LOCKTIME_THRESHOLD) \<or>
           (uint (tx_nLockTime txTo) \<ge> LOCKTIME_THRESHOLD \<and> nLockTime \<ge> LOCKTIME_THRESHOLD)) then False
     else if nLockTime > uint (tx_nLockTime txTo) then False
     else if SEQUENCE_FINAL = in_nSequence (tx_vin txTo ! nIn) then False
     else True)"

definition checker_CheckSequence :: "CTransaction \<Rightarrow> nat \<Rightarrow> CScriptNum \<Rightarrow> bool" where
  "checker_CheckSequence txTo nIn nSequence =
    (let txToSequence = uint (in_nSequence (tx_vin txTo ! nIn))
     in if tx_nVersion txTo < 2 then False
        else if txToSequence AND SEQUENCE_LOCKTIME_DISABLE_FLAG \<noteq> 0 then False
        else let nLockTimeMask = SEQUENCE_LOCKTIME_TYPE_FLAG OR SEQUENCE_LOCKTIME_MASK;
                 txToSequenceMasked = txToSequence AND nLockTimeMask;
                 nSequenceMasked = nSequence AND nLockTimeMask
             in if \<not> ((txToSequenceMasked < SEQUENCE_LOCKTIME_TYPE_FLAG \<and> nSequenceMasked < SEQUENCE_LOCKTIME_TYPE_FLAG) \<or>
                      (txToSequenceMasked \<ge> SEQUENCE_LOCKTIME_TYPE_FLAG \<and> nSequenceMasked \<ge> SEQUENCE_LOCKTIME_TYPE_FLAG)) then False
                else if nSequenceMasked > txToSequenceMasked then False
                else True)"

definition TransactionSignatureChecker ::
    "script_env \<Rightarrow> (bytes \<Rightarrow> bytes \<Rightarrow> bytes \<Rightarrow> bool) \<Rightarrow> CTransaction \<Rightarrow> nat \<Rightarrow> CAmount \<Rightarrow> PrecomputedTransactionData option \<Rightarrow> BaseSignatureChecker" where
  "TransactionSignatureChecker env Verify txTo nIn amount txdata =
    \<lparr>CheckSig = checker_CheckSig env Verify txTo nIn amount txdata,
     CheckLockTime = checker_CheckLockTime txTo nIn,
     CheckSequence = checker_CheckSequence txTo nIn\<rparr>"

text \<open>
  Reference definitions.  The script without its code separators, scripts that can be read to the
  end, and the modified copy of the transaction whose serialization the hash covers.
\<close>

function remove_codeseparators :: "bytes \<Rightarrow> bytes" where
  "remove_codeseparators s =
    (case GetOp s of
       None \<Rightarrow> []
     | Some (opcode, _, r) \<Rightarrow> (if opcode = OP_CODESEPARATOR then [] else take (length s - length r) s) @ remove_codeseparators r)"
  by pat_completeness auto
termination by (relation "measure length") (auto dest: GetOp_length)

declare remove_codeseparators.simps [simp del]

function readable :: "bytes \<Rightarrow> bool" where
  "readable s = (s = [] \<or> (case GetOp s of None \<Rightarrow> False | Some (_, _, r) \<Rightarrow> readable r))"
  by pat_completeness auto
termination by (relation "measure length") (auto dest: GetOp_length)

declare readable.simps [simp del]

definition sighash_input :: "CScript \<Rightarrow> bool \<Rightarrow> bool \<Rightarrow> CTxIn \<Rightarrow> CTxIn" where
  "sighash_input code here free i =
    \<lparr>in_prevout = in_prevout i, in_scriptSig = (if here then code else []),
     in_nSequence = (if \<not> here \<and> free then 0 else in_nSequence i), in_scriptWitness = []\<rparr>"

definition sighash_tx :: "CTransaction \<Rightarrow> CScript \<Rightarrow> nat \<Rightarrow> u32 \<Rightarrow> CTransaction" where
  "sighash_tx tx code nIn nHashType =
    (let any = nHashType AND ucast SIGHASH_ANYONECANPAY \<noteq> 0; single = nHashType AND 0x1f = ucast SIGHASH_SINGLE;
         none = nHashType AND 0x1f = ucast SIGHASH_NONE; vin = tx_vin tx
     in tx\<lparr>tx_vin := (if any then [sighash_input code True False (vin ! nIn)]
                     else map (\<lambda>n. sighash_input code (n = nIn) (single \<or> none) (vin ! n)) [0..<length vin]),
          tx_vout := (if none then [] else if single then replicate nIn CTxOut_SetNull @ [tx_vout tx ! nIn] else tx_vout tx)\<rparr>)"

text \<open>Transactions that differ at most in the scripts and witnesses of their inputs, and the byte strings hashed for a signature.\<close>

definition same_but_scripts :: "CTransaction \<Rightarrow> CTransaction \<Rightarrow> bool" where
  "same_but_scripts tx tx' \<longleftrightarrow> tx_nVersion tx = tx_nVersion tx' \<and> map in_prevout (tx_vin tx) = map in_prevout (tx_vin tx') \<and>
    map in_nSequence (tx_vin tx) = map in_nSequence (tx_vin tx') \<and> tx_vout tx = tx_vout tx' \<and> tx_nLockTime tx = tx_nLockTime tx'"

definition hashed_strings :: "script_env \<Rightarrow> CScript \<Rightarrow> CTransaction \<Rightarrow> nat \<Rightarrow> u32 \<Rightarrow> CAmount \<Rightarrow> bytes set" where
  "hashed_strings env code tx nIn ht amount =
    {Serialize_SignatureSerializer (make_serializer tx code nIn ht) @ ser_writedata32 ht, witness_preimage env code tx nIn ht amount None,
     prevouts_bytes tx, sequences_bytes tx, outputs_bytes tx}"

definition covers_all :: "u32 \<Rightarrow> bool" where
  "covers_all ht \<longleftrightarrow> ht AND ucast SIGHASH_ANYONECANPAY = 0 \<and> ht AND 0x1f \<noteq> ucast SIGHASH_SINGLE \<and> ht AND 0x1f \<noteq> ucast SIGHASH_NONE"

text \<open>An example: the hash is a checksum and the first 31 bytes, and a second copy of the example transaction has another input script.\<close>

definition checksum_env :: script_env where
  "checksum_env = \<lparr>ripemd160 = (\<lambda>b. take 20 (b @ replicate 20 0)), sha1 = (\<lambda>b. take 20 (b @ replicate 20 0)),
    sha256 = (\<lambda>b. foldr (+) b 0 # take 31 (b @ replicate 31 0)), CheckLowS = (\<lambda>_. True)\<rparr>"

definition demo_tx2 :: CTransaction where
  "demo_tx2 = demo_tx\<lparr>tx_vin := map (\<lambda>i. i\<lparr>in_scriptSig := [0x52, 0x53], in_scriptWitness := []\<rparr>) (tx_vin demo_tx)\<rparr>"

section \<open>Code separators\<close>

lemma GetOp2_Some: "GetOp s = Some (opcode, v, r) \<longleftrightarrow> GetOp2 s = (True, opcode, v, r)"
  by (auto simp: GetOp_def split: prod.splits if_splits)

lemma GetOp_separator:
  assumes "GetOp s = Some (OP_CODESEPARATOR, v, r)"
  shows "s = 0xab # r"
proof -
  obtain b t where s: "s = b # t" using assms by (cases s) auto
  then have b: "unat b = OP_CODESEPARATOR" using GetOp_opcode assms by metis
  then have "GetOp s = Some (OP_CODESEPARATOR, [], t)" using GetOp_plain[of b t] by (simp add: s)
  moreover have "b = 0xab" using b by (simp add: word_unat_eq_iff)
  ultimately show ?thesis using assms s by simp
qed

lemma GetOp_take: "GetOp s = Some (opcode, v, r) \<Longrightarrow> take (length s - length r) s @ r = s"
  by (erule GetOp_cases) auto

lemma readable_step: "readable s \<Longrightarrow> s \<noteq> [] \<Longrightarrow> \<exists>opcode v r. GetOp s = Some (opcode, v, r) \<and> readable r"
  by (subst (asm) readable.simps) (auto split: option.splits)

lemma remove_codeseparators_Nil [simp]: "remove_codeseparators [] = []" "count_codeseparators [] = 0"
  by (simp_all add: remove_codeseparators.simps count_codeseparators.simps)

lemma remove_count: "readable s \<Longrightarrow> length (remove_codeseparators s) + count_codeseparators s = length s"
proof (induction s rule: length_induct)
  case (1 s)
  show ?case
  proof (cases "s = []")
    case False
    then obtain opcode v r where g: "GetOp s = Some (opcode, v, r)" "readable r" using readable_step[OF "1.prems"] by blast
    then have "length (remove_codeseparators r) + count_codeseparators r = length r" using "1.IH" GetOp_length by blast
    moreover have "opcode = OP_CODESEPARATOR \<Longrightarrow> length s = Suc (length r)" using g GetOp_separator by fastforce
    ultimately show ?thesis using g(1) GetOp_length[OF g(1)]
      by (subst remove_codeseparators.simps, subst count_codeseparators.simps) auto
  qed simp
qed

lemma write_segments_eq: "readable it \<Longrightarrow> write_segments (pre @ it) it = pre @ remove_codeseparators it"
proof (induction it arbitrary: pre rule: length_induct)
  case (1 it)
  show ?case
  proof (cases "it = []")
    case True
    then show ?thesis by (subst write_segments.simps) (simp add: GetOp2_def)
  next
    case False
    then obtain opcode v r where g: "GetOp it = Some (opcode, v, r)" "readable r" using readable_step[OF "1.prems"] by blast
    then have g2: "GetOp2 it = (True, opcode, v, r)" by (simp add: GetOp2_Some)
    have ih: "write_segments (p @ r) r = p @ remove_codeseparators r" for p using "1.IH" g GetOp_length by blast
    show ?thesis
    proof (cases "opcode = OP_CODESEPARATOR")
      case True
      then have "it = 0xab # r" using g(1) GetOp_separator by blast
      then show ?thesis using g g2 True ih[of "[]"] by (subst write_segments.simps, subst remove_codeseparators.simps) simp
    next
      case False
      then have "write_segments (pre @ it) it = write_segments ((pre @ take (length it - length r) it) @ r) r"
        using g2 GetOp_take[OF g(1)] by (subst write_segments.simps) simp
      also have "\<dots> = pre @ take (length it - length r) it @ remove_codeseparators r" by (subst ih) simp
      finally show ?thesis using g(1) False by (subst remove_codeseparators.simps) simp
    qed
  qed
qed

lemma SerializeScriptCode_eq:
  "readable (ss_scriptCode ss) \<Longrightarrow> SerializeScriptCode ss = Serialize_bytes (remove_codeseparators (ss_scriptCode ss))"
  using write_segments_eq[of "ss_scriptCode ss" "[]"] remove_count[of "ss_scriptCode ss"]
  by (simp add: SerializeScriptCode_def Serialize_bytes_def flip: remove_count)

section \<open>The original hash covers the modified copy\<close>

lemma make_serializer_simps [simp]:
  "ss_txTo (make_serializer tx code nIn ht) = tx" "ss_scriptCode (make_serializer tx code nIn ht) = code"
  "ss_nIn (make_serializer tx code nIn ht) = nIn"
  "fAnyoneCanPay (make_serializer tx code nIn ht) \<longleftrightarrow> ht AND ucast SIGHASH_ANYONECANPAY \<noteq> 0"
  "fHashSingle (make_serializer tx code nIn ht) \<longleftrightarrow> ht AND 0x1f = ucast SIGHASH_SINGLE"
  "fHashNone (make_serializer tx code nIn ht) \<longleftrightarrow> ht AND 0x1f = ucast SIGHASH_NONE"
  by (simp_all add: make_serializer_def)

lemma SerializeInput_eq:
  assumes "readable code"
  shows "SerializeInput (make_serializer tx code nIn ht) n =
    Serialize_CTxIn (if ht AND ucast SIGHASH_ANYONECANPAY \<noteq> 0 then sighash_input (remove_codeseparators code) True False (tx_vin tx ! nIn)
      else sighash_input (remove_codeseparators code) (n = nIn) (ht AND 0x1f = ucast SIGHASH_SINGLE \<or> ht AND 0x1f = ucast SIGHASH_NONE) (tx_vin tx ! n))"
  using assms SerializeScriptCode_eq[of "make_serializer tx code nIn ht"]
  by (auto simp: SerializeInput_def make_serializer_def sighash_input_def Serialize_CTxIn_def Let_def)

lemma map_upt_nth: "map (\<lambda>n. f (xs ! n)) [0..<length xs] = map f xs"
  by (rule nth_equalityI) auto

lemma Serialize_SignatureSerializer_eq:
  assumes "readable code" "nIn < length (tx_vin tx)" "ht AND 0x1f = ucast SIGHASH_SINGLE \<Longrightarrow> nIn < length (tx_vout tx)"
  shows "Serialize_SignatureSerializer (make_serializer tx code nIn ht) =
    SerializeTransaction False (sighash_tx tx (remove_codeseparators code) nIn ht)"
proof -
  let ?ss = "make_serializer tx code nIn ht" and ?code = "remove_codeseparators code"
  let ?single = "ht AND 0x1f = ucast SIGHASH_SINGLE" and ?none = "ht AND 0x1f = ucast SIGHASH_NONE"
  have ss: "ss_txTo ?ss = tx" "ss_nIn ?ss = nIn" "fAnyoneCanPay ?ss \<longleftrightarrow> ht AND ucast SIGHASH_ANYONECANPAY \<noteq> 0"
    "fHashSingle ?ss \<longleftrightarrow> ?single" "fHashNone ?ss \<longleftrightarrow> ?none" by (simp_all add: make_serializer_def)
  let ?n = "if fAnyoneCanPay ?ss then 1 else length (tx_vin tx)"
  let ?m = "if fHashNone ?ss then 0 else if fHashSingle ?ss then nIn + 1 else length (tx_vout tx)"
  have vin: "WriteCompactSize (of_nat ?n) @ concat (map (SerializeInput ?ss) [0..<?n]) =
      Serialize_vec Serialize_CTxIn (tx_vin (sighash_tx tx ?code nIn ht))"
    unfolding SerializeInput_eq[OF assms(1)] ss
    by (auto simp: Serialize_vec_def sighash_tx_def Let_def comp_def)
  have vout: "WriteCompactSize (of_nat ?m) @ concat (map (SerializeOutput ?ss) [0..<?m]) =
      Serialize_vec Serialize_CTxOut (tx_vout (sighash_tx tx ?code nIn ht))"
  proof (cases "?single \<and> \<not> ?none")
    case True
    have "map (SerializeOutput ?ss) [0..<nIn] = replicate nIn (Serialize_CTxOut CTxOut_SetNull)"
      using True by (intro nth_equalityI) (simp_all add: SerializeOutput_def ss)
    then show ?thesis using True by (simp add: Serialize_vec_def sighash_tx_def ss Let_def SerializeOutput_def)
  next
    case False
    moreover have "SerializeOutput ?ss = (\<lambda>n. Serialize_CTxOut (tx_vout tx ! n))" if "\<not> ?single"
      using that by (intro ext) (simp add: SerializeOutput_def ss)
    ultimately show ?thesis by (cases ?none) (simp_all add: Serialize_vec_def sighash_tx_def ss Let_def map_upt_nth)
  qed
  have "tx_nVersion (sighash_tx tx ?code nIn ht) = tx_nVersion tx" "tx_nLockTime (sighash_tx tx ?code nIn ht) = tx_nLockTime tx"
    by (simp_all add: sighash_tx_def Let_def)
  then show ?thesis
    unfolding Serialize_SignatureSerializer_def SerializeTransaction_forms Let_def ss(1,2) vin[symmetric] vout[symmetric]
    by (simp only: append_assoc)
qed

section \<open>What the hashes commit to\<close>

lemma sighash_tx_ok:
  assumes "tx_ok tx" "nIn < length (tx_vin tx)" "nIn < length (tx_vout tx) \<or> ht AND 0x1f \<noteq> ucast SIGHASH_SINGLE" "length code \<le> MAX_SIZE"
  shows "tx_ok (sighash_tx tx code nIn ht) \<and> strip_witness (sighash_tx tx code nIn ht) = sighash_tx tx code nIn ht"
proof -
  have w: "in_scriptWitness (sighash_input code b f i) = []" for b f i by (simp add: sighash_input_def)
  have "txin_ok (sighash_input code b f i) \<and> witness_ok (sighash_input code b f i)" if "txin_ok i" for b f i
    using that assms(4) by (simp add: sighash_input_def txin_ok_def witness_ok_def)
  moreover have "txin_ok (tx_vin tx ! n)" if "n < length (tx_vin tx)" for n using assms(1) that by (simp add: tx_ok_def list_all_length)
  moreover have "txout_ok (tx_vout tx ! n)" if "n < length (tx_vout tx)" for n using assms(1) that by (simp add: tx_ok_def list_all_length)
  moreover have "txout_ok CTxOut_SetNull" by (simp add: txout_ok_def CTxOut_SetNull_def)
  ultimately show ?thesis using assms w
    by (auto simp: sighash_tx_def tx_ok_def Let_def list_all_iff strip_witness_def map_idI)
qed

text \<open>Serializations of one after the other determine the objects, when each determines its end.\<close>

lemma concat_ser_inj:
  assumes "codec ser unser ok" "list_all ok xs" "list_all ok ys" "\<And>x. ser x \<noteq> []" "concat (map ser xs) = concat (map ser ys)"
  shows "xs = ys"
  using assms(2,3,5)
proof (induction xs arbitrary: ys)
  case Nil
  then show ?case using assms(4)[of "hd ys"] by (cases ys) auto
next
  case (Cons x xs)
  obtain y zs where ys: "ys = y # zs" using assms(4)[of x] Cons.prems(3) by (cases ys) auto
  have "x = y \<and> concat (map ser xs) = concat (map ser zs)"
    using codec.ser_inj[OF assms(1), of x y "concat (map ser xs)" "concat (map ser zs)"] Cons.prems by (simp add: ys)
  then show ?case using Cons.IH[of zs] Cons.prems by (simp add: ys)
qed

lemma same_but_scripts_nth:
  assumes "same_but_scripts tx tx'"
  shows "length (tx_vin tx) = length (tx_vin tx')"
    "n < length (tx_vin tx) \<Longrightarrow> in_prevout (tx_vin tx ! n) = in_prevout (tx_vin tx' ! n)"
    "n < length (tx_vin tx) \<Longrightarrow> in_nSequence (tx_vin tx ! n) = in_nSequence (tx_vin tx' ! n)"
proof -
  have p: "map in_prevout (tx_vin tx) = map in_prevout (tx_vin tx')" "map in_nSequence (tx_vin tx) = map in_nSequence (tx_vin tx')"
    using assms by (simp_all add: same_but_scripts_def)
  show l: "length (tx_vin tx) = length (tx_vin tx')" using p(1) by (rule map_eq_imp_length_eq)
  show "in_prevout (tx_vin tx ! n) = in_prevout (tx_vin tx' ! n)" "in_nSequence (tx_vin tx ! n) = in_nSequence (tx_vin tx' ! n)"
    if "n < length (tx_vin tx)" using arg_cong[OF p(1), of "\<lambda>l. l ! n"] arg_cong[OF p(2), of "\<lambda>l. l ! n"] that l by simp_all
qed

lemma cache_irrelevant:
  "SignatureHash env code tx nIn ht amount sv (Some (make_PrecomputedTransactionData env tx)) = SignatureHash env code tx nIn ht amount sv None"
  by (simp add: SignatureHash_def witness_preimage_def make_PrecomputedTransactionData_def Let_def)

lemma serializer_ignores_scripts:
  assumes "same_but_scripts tx tx'" "nIn < length (tx_vin tx)"
  shows "Serialize_SignatureSerializer (make_serializer tx code nIn ht) = Serialize_SignatureSerializer (make_serializer tx' code nIn ht)"
proof -
  note nth = same_but_scripts_nth[OF assms(1)]
  have f: "tx_nVersion tx' = tx_nVersion tx" "tx_vout tx' = tx_vout tx" "tx_nLockTime tx' = tx_nLockTime tx"
    using assms(1) by (simp_all add: same_but_scripts_def)
  have "SerializeInput (make_serializer tx code nIn ht) n = SerializeInput (make_serializer tx' code nIn ht) n" if "n < length (tx_vin tx)" for n
    using nth(2,3)[OF assms(2)] nth(2,3)[OF that] by (simp add: SerializeInput_def SerializeScriptCode_def Let_def)
  then have "map (SerializeInput (make_serializer tx code nIn ht)) [0..<if any then 1 else length (tx_vin tx)] =
      map (SerializeInput (make_serializer tx' code nIn ht)) [0..<if any then 1 else length (tx_vin tx')]" for any
    using gr_implies_not0[OF assms(2)] nth(1) by (intro map_cong) (auto split: if_splits)
  moreover have "SerializeOutput (make_serializer tx code nIn ht) = SerializeOutput (make_serializer tx' code nIn ht)"
    by (intro ext) (simp add: SerializeOutput_def f)
  ultimately show ?thesis
    unfolding Serialize_SignatureSerializer_def make_serializer_simps Let_def by (simp only: nth(1) f)
qed

lemma SignatureHash_ignores_scripts:
  assumes "same_but_scripts tx tx'" "nIn < length (tx_vin tx)"
  shows "SignatureHash env code tx nIn ht amount sv None = SignatureHash env code tx' nIn ht amount sv None"
proof -
  note nth = same_but_scripts_nth[OF assms(1)]
  have f: "tx_nVersion tx' = tx_nVersion tx" "tx_vout tx' = tx_vout tx" "tx_nLockTime tx' = tx_nLockTime tx"
    using assms(1) by (simp_all add: same_but_scripts_def)
  have "prevouts_bytes tx' = prevouts_bytes tx" "sequences_bytes tx' = sequences_bytes tx" "outputs_bytes tx' = outputs_bytes tx"
    using assms(1) by (simp_all add: same_but_scripts_def prevouts_bytes_def sequences_bytes_def outputs_bytes_def flip: map_map)
  then have w: "witness_preimage env code tx nIn ht amount None = witness_preimage env code tx' nIn ht amount None"
    using nth(2,3)[OF assms(2)] f by (simp add: witness_preimage_def Let_def GetPrevoutHash_def GetSequenceHash_def GetOutputsHash_def)
  then show ?thesis using serializer_ignores_scripts[OF assms] nth(1) f by (simp add: SignatureHash_def)
qed

lemma nonempty_ser: "Serialize_COutPoint po \<noteq> []" "ser_writedata32 w \<noteq> []" "Serialize_CTxOut out \<noteq> []"
proof -
  have "length (ser_writedata32 w) = 4" for w by (simp add: ser_writedata32_def)
  then show "ser_writedata32 w \<noteq> []" for w by (metis list.size(3) zero_neq_numeral)
  then show "Serialize_COutPoint po \<noteq> []" by (simp add: Serialize_COutPoint_def)
  have "length (ser_writedata64 w) = 8" for w by (simp add: ser_writedata64_def)
  then have "ser_writedata64 w \<noteq> []" for w by (metis list.size(3) zero_neq_numeral)
  then show "Serialize_CTxOut out \<noteq> []" by (simp add: Serialize_CTxOut_def)
qed

lemma lists_inj:
  assumes "tx_ok tx" "tx_ok tx'"
  shows "prevouts_bytes tx = prevouts_bytes tx' \<Longrightarrow> map in_prevout (tx_vin tx) = map in_prevout (tx_vin tx')"
    "sequences_bytes tx = sequences_bytes tx' \<Longrightarrow> map in_nSequence (tx_vin tx) = map in_nSequence (tx_vin tx')"
    "outputs_bytes tx = outputs_bytes tx' \<Longrightarrow> tx_vout tx = tx_vout tx'"
proof -
  have "list_all outpoint_ok (map in_prevout (tx_vin tx))" if "tx_ok tx" for tx
    using that by (auto simp: tx_ok_def list_all_iff txin_ok_def)
  then show "map in_prevout (tx_vin tx) = map in_prevout (tx_vin tx')" if "prevouts_bytes tx = prevouts_bytes tx'"
    using that assms by (intro concat_ser_inj[OF outpoint.codec_axioms]) (simp_all add: prevouts_bytes_def nonempty_ser)
  show "map in_nSequence (tx_vin tx) = map in_nSequence (tx_vin tx')" if "sequences_bytes tx = sequences_bytes tx'"
    using that by (intro concat_ser_inj[OF u32.codec_axioms]) (simp_all add: sequences_bytes_def nonempty_ser list_all_iff)
  show "tx_vout tx = tx_vout tx'" if "outputs_bytes tx = outputs_bytes tx'"
    using that assms by (intro concat_ser_inj[OF txout.codec_axioms]) (simp_all add: outputs_bytes_def nonempty_ser tx_ok_def)
qed

lemma base_commits:
  assumes "tx_ok tx" "tx_ok tx'" "nIn < length (tx_vin tx)" "nIn < length (tx_vin tx')" "covers_all ht"
    "length code \<le> MAX_SIZE" "length code' \<le> MAX_SIZE"
    "SerializeTransaction False (sighash_tx tx code nIn ht) = SerializeTransaction False (sighash_tx tx' code' nIn ht)"
  shows "same_but_scripts tx tx' \<and> code = code'"
proof -
  have ht: "ht AND ucast SIGHASH_ANYONECANPAY = 0" "ht AND 0x1f \<noteq> ucast SIGHASH_SINGLE" "ht AND 0x1f \<noteq> ucast SIGHASH_NONE"
    using assms(5) by (simp_all add: covers_all_def)
  have "sighash_tx tx code nIn ht = sighash_tx tx' code' nIn ht"
    using Serialize_inj[OF _ _ assms(8)] sighash_tx_ok[of tx nIn ht code] sighash_tx_ok[of tx' nIn ht code'] assms(1-4,6,7) ht by simp
  then have v: "tx_nVersion tx = tx_nVersion tx'" "tx_vout tx = tx_vout tx'" "tx_nLockTime tx = tx_nLockTime tx'" and
    vin: "map (\<lambda>n. sighash_input code (n = nIn) False (tx_vin tx ! n)) [0..<length (tx_vin tx)] =
      map (\<lambda>n. sighash_input code' (n = nIn) False (tx_vin tx' ! n)) [0..<length (tx_vin tx')]"
    using ht by (simp_all add: sighash_tx_def Let_def CTransaction.equality, (cases tx, cases tx', simp)+)
  have len: "length (tx_vin tx) = length (tx_vin tx')" using arg_cong[OF vin, of length] by simp
  have n: "sighash_input code (n = nIn) False (tx_vin tx ! n) = sighash_input code' (n = nIn) False (tx_vin tx' ! n)" if "n < length (tx_vin tx)" for n
    using arg_cong[OF vin, of "\<lambda>l. l ! n"] that len by simp
  have "code = code'" using n[OF assms(3)] by (simp add: sighash_input_def)
  moreover have "map in_prevout (tx_vin tx) = map in_prevout (tx_vin tx')" "map in_nSequence (tx_vin tx) = map in_nSequence (tx_vin tx')"
    using n len by (auto intro!: nth_equalityI simp: sighash_input_def)
  ultimately show ?thesis using v by (simp add: same_but_scripts_def)
qed

lemma CHash256_length: "env_ok env \<Longrightarrow> length (CHash256 env b) = 32"
  by (simp add: CHash256_def env_ok_def)

lemma witness_commits:
  assumes "env_ok env" "tx_ok tx" "tx_ok tx'" "nIn < length (tx_vin tx)" "nIn < length (tx_vin tx')" "covers_all ht"
    "length code \<le> MAX_SIZE" "length code' \<le> MAX_SIZE"
    "inj_on (CHash256 env) (hashed_strings env code tx nIn ht amount \<union> hashed_strings env code' tx' nIn ht amount')"
    "witness_preimage env code tx nIn ht amount None = witness_preimage env code' tx' nIn ht amount' None"
  shows "same_but_scripts tx tx' \<and> code = code' \<and> amount = amount'"
proof -
  let ?h = "CHash256 env" and ?i = "tx_vin tx ! nIn" and ?i' = "tx_vin tx' ! nIn"
  have ht: "ht AND ucast SIGHASH_ANYONECANPAY = 0" "ht AND 0x1f \<noteq> ucast SIGHASH_SINGLE" "ht AND 0x1f \<noteq> ucast SIGHASH_NONE"
    using assms(6) by (simp_all add: covers_all_def)
  have form: "witness_preimage env code tx nIn ht amount None = ser_writedata32 (tx_nVersion tx) @ ?h (prevouts_bytes tx) @ ?h (sequences_bytes tx) @
      Serialize_COutPoint (in_prevout (tx_vin tx ! nIn)) @ Serialize_bytes code @ ser_writedata64 amount @
      ser_writedata32 (in_nSequence (tx_vin tx ! nIn)) @ ?h (outputs_bytes tx) @ ser_writedata32 (tx_nLockTime tx) @ ser_writedata32 ht" for tx code amount
    using ht by (simp add: witness_preimage_def Let_def GetPrevoutHash_def GetSequenceHash_def GetOutputsHash_def)
  have po: "outpoint_ok (in_prevout ?i)" "outpoint_ok (in_prevout ?i')"
    using assms(2-5) by (simp_all add: tx_ok_def list_all_length txin_ok_def)
  have l: "length (?h a) = length (?h b)" for a b using CHash256_length[OF assms(1)] by simp
  note eq0 = assms(10)[unfolded form]
  note e1 = u32.ser_inj[OF TrueI TrueI eq0]
  have "?h (prevouts_bytes tx) = ?h (prevouts_bytes tx')" "?h (sequences_bytes tx) = ?h (sequences_bytes tx')" and
    e2: "Serialize_COutPoint (in_prevout ?i) @ Serialize_bytes code @ ser_writedata64 amount @ ser_writedata32 (in_nSequence ?i) @
      ?h (outputs_bytes tx) @ ser_writedata32 (tx_nLockTime tx) @ ser_writedata32 ht =
      Serialize_COutPoint (in_prevout ?i') @ Serialize_bytes code' @ ser_writedata64 amount' @ ser_writedata32 (in_nSequence ?i') @
      ?h (outputs_bytes tx') @ ser_writedata32 (tx_nLockTime tx') @ ser_writedata32 ht"
    using e1 l by (simp_all add: append_eq_append_conv)
  note e3 = outpoint.ser_inj[OF po e2]
  note e4 = blob.ser_inj[OF assms(7,8) conjunct2[OF e3]]
  note e5 = u64.ser_inj[OF TrueI TrueI conjunct2[OF e4]]
  note e6 = u32.ser_inj[OF TrueI TrueI conjunct2[OF e5]]
  have "?h (outputs_bytes tx) = ?h (outputs_bytes tx')" and
    e7: "ser_writedata32 (tx_nLockTime tx) @ ser_writedata32 ht = ser_writedata32 (tx_nLockTime tx') @ ser_writedata32 ht"
    using e6 l by (simp_all add: append_eq_append_conv)
  then have "prevouts_bytes tx = prevouts_bytes tx'" "sequences_bytes tx = sequences_bytes tx'" "outputs_bytes tx = outputs_bytes tx'"
    using \<open>?h (prevouts_bytes tx) = ?h (prevouts_bytes tx')\<close> \<open>?h (sequences_bytes tx) = ?h (sequences_bytes tx')\<close> assms(9)
    by (simp_all add: hashed_strings_def inj_on_eq_iff)
  then show ?thesis using lists_inj[OF assms(2,3)] e1 e4 e5 u32.ser_inj[OF TrueI TrueI e7] by (simp add: same_but_scripts_def)
qed

lemma remove_le: "readable s \<Longrightarrow> length (remove_codeseparators s) \<le> length s"
  using remove_count[of s] by simp

text \<open>
  The original signature hash is the double hash of the serialization of a modified copy of the
  transaction, the way the class comment describes its in-place serializer: only the signed input
  keeps a script, the code without separators, and inputs and outputs are dropped or blanked by hash
  type.  An index out of range, or a single output that does not exist, gives the hash one.
\<close>

theorem SignatureHash_reference:
  assumes "readable code"
  shows "SignatureHash env code tx nIn ht amount SIGVERSION_BASE cache =
    (if nIn \<ge> length (tx_vin tx) \<or> ht AND 0x1f = ucast SIGHASH_SINGLE \<and> nIn \<ge> length (tx_vout tx) then uint256_one
     else CHash256 env (SerializeTransaction False (sighash_tx tx (remove_codeseparators code) nIn ht) @ ser_writedata32 ht))"
  using Serialize_SignatureSerializer_eq[OF assms, of nIn tx ht] by (auto simp: SignatureHash_def)

theorem SignatureHash_reference_witness:
  "readable [0x76, 0xab, 0xac] \<and> remove_codeseparators [0x76, 0xab, 0xac] = [0x76, 0xac] \<and>
   SignatureHash checksum_env [0x76, 0xab, 0xac] demo_tx 0 3 0 SIGVERSION_BASE None =
     CHash256 checksum_env (SerializeTransaction False (sighash_tx demo_tx [0x76, 0xac] 0 3) @ ser_writedata32 3)"
proof -
  have r: "readable [0x76, 0xab, 0xac]" "remove_codeseparators [0x76, 0xab, 0xac] = [0x76, 0xac]" by code_simp+
  show ?thesis using r SignatureHash_reference[OF r(1), of checksum_env demo_tx 0 3 0 None] by (simp add: demo_tx_def)
qed

text \<open>
  C8. What a signature for all inputs and outputs commits to.  As long as the hash function does not
  collide on the strings hashed, two hashes for the same input are equal exactly if the transactions
  agree in version, outpoints, sequence numbers, outputs and lock time and the code is the same, up
  to code separators in the original scheme, and under segregated witness the amount as well: input
  scripts and witnesses can change, nothing else can.  Precomputed hashes make no difference.
\<close>

theorem SignatureHash_commits:
  assumes "env_ok env" "tx_ok tx" "tx_ok tx'" "nIn < length (tx_vin tx)" "nIn < length (tx_vin tx')" "covers_all ht"
    "length code \<le> MAX_SIZE" "length code' \<le> MAX_SIZE" "readable code" "readable code'"
    "inj_on (CHash256 env) (hashed_strings env code tx nIn ht amount \<union> hashed_strings env code' tx' nIn ht amount')"
  shows "(SignatureHash env code tx nIn ht amount SIGVERSION_BASE (Some (make_PrecomputedTransactionData env tx)) =
      SignatureHash env code' tx' nIn ht amount' SIGVERSION_BASE None \<longleftrightarrow>
      same_but_scripts tx tx' \<and> remove_codeseparators code = remove_codeseparators code') \<and>
    (SignatureHash env code tx nIn ht amount SIGVERSION_WITNESS_V0 (Some (make_PrecomputedTransactionData env tx)) =
      SignatureHash env code' tx' nIn ht amount' SIGVERSION_WITNESS_V0 None \<longleftrightarrow>
      same_but_scripts tx tx' \<and> code = code' \<and> amount = amount')"
proof -
  let ?s = "\<lambda>code tx. Serialize_SignatureSerializer (make_serializer tx code nIn ht) @ ser_writedata32 ht"
  have single: "ht AND 0x1f \<noteq> ucast SIGHASH_SINGLE" using assms(6) by (simp add: covers_all_def)
  note eq = Serialize_SignatureSerializer_eq[of _ nIn _ ht]
  have base: "SignatureHash env code tx nIn ht amount SIGVERSION_BASE None = SignatureHash env code' tx' nIn ht amount' SIGVERSION_BASE None \<longleftrightarrow>
      ?s code tx = ?s code' tx'"
    using assms(4,5) single inj_on_eq_iff[OF assms(11), of "?s code tx" "?s code' tx'"] by (simp add: SignatureHash_def hashed_strings_def)
  have wit: "SignatureHash env code tx nIn ht amount SIGVERSION_WITNESS_V0 None = SignatureHash env code' tx' nIn ht amount' SIGVERSION_WITNESS_V0 None \<longleftrightarrow>
      witness_preimage env code tx nIn ht amount None = witness_preimage env code' tx' nIn ht amount' None"
    using inj_on_eq_iff[OF assms(11), of "witness_preimage env code tx nIn ht amount None" "witness_preimage env code' tx' nIn ht amount' None"]
    by (simp add: SignatureHash_def hashed_strings_def)
  have b1: "same_but_scripts tx tx' \<and> remove_codeseparators code = remove_codeseparators code'" if "?s code tx = ?s code' tx'"
    using that base_commits[OF assms(2-6) order_trans[OF remove_le[OF assms(9)] assms(7)] order_trans[OF remove_le[OF assms(10)] assms(8)]]
      eq[OF assms(9,4)] eq[OF assms(10,5)] single by simp
  have b2: "?s code tx = ?s code' tx'" if s: "same_but_scripts tx tx'" and "remove_codeseparators code = remove_codeseparators code'"
  proof -
    have "?s code tx = ?s code' tx" using that eq[OF assms(9,4)] eq[OF assms(10,4)] single by simp
    moreover have "?s code' tx = ?s code' tx'" using serializer_ignores_scripts[OF s assms(4)] by simp
    ultimately show ?thesis by simp
  qed
  show ?thesis unfolding cache_irrelevant base
    using b1 b2 wit witness_commits[OF assms(1-8) assms(11)] SignatureHash_ignores_scripts[OF _ assms(4)] by metis
qed

theorem SignatureHash_commits_witness:
  "env_ok checksum_env \<and> tx_ok demo_tx \<and> tx_ok demo_tx2 \<and> covers_all 1 \<and> demo_tx \<noteq> demo_tx2 \<and>
   SignatureHash checksum_env [0x51, 0xab] demo_tx 0 1 7 SIGVERSION_BASE (Some (make_PrecomputedTransactionData checksum_env demo_tx)) =
     SignatureHash checksum_env [0x51] demo_tx2 0 1 9 SIGVERSION_BASE None \<and>
   SignatureHash checksum_env [0x51, 0xab] demo_tx 0 1 7 SIGVERSION_WITNESS_V0 (Some (make_PrecomputedTransactionData checksum_env demo_tx)) \<noteq>
     SignatureHash checksum_env [0x51] demo_tx2 0 1 9 SIGVERSION_WITNESS_V0 None"
proof -
  let ?env = checksum_env and ?c = "[0x51, 0xab]" and ?d = "[0x51]"
  have h: "env_ok ?env" "tx_ok demo_tx" "tx_ok demo_tx2" "0 < length (tx_vin demo_tx)" "0 < length (tx_vin demo_tx2)" "covers_all 1"
    "length ?c \<le> MAX_SIZE" "length ?d \<le> MAX_SIZE"
    by (auto simp: env_ok_def checksum_env_def min_def tx_ok_def demo_tx_def demo_tx2_def txin_ok_def outpoint_ok_def witness_ok_def txout_ok_def
        MAX_SIZE_def covers_all_def SIGHASH_ANYONECANPAY_def SIGHASH_SINGLE_def SIGHASH_NONE_def)
  have r: "readable ?c" "readable ?d" "remove_codeseparators ?c = ?d" "remove_codeseparators ?d = ?d" "same_but_scripts demo_tx demo_tx2" by code_simp+
  let ?l = "[Serialize_SignatureSerializer (make_serializer demo_tx ?d 0 1) @ ser_writedata32 1, witness_preimage ?env ?c demo_tx 0 1 7 None,
    witness_preimage ?env ?d demo_tx2 0 1 9 None, prevouts_bytes demo_tx, sequences_bytes demo_tx, outputs_bytes demo_tx]"
  have "distinct (map (CHash256 ?env) ?l)" by code_simp
  moreover have "hashed_strings ?env ?c demo_tx 0 1 7 \<union> hashed_strings ?env ?d demo_tx2 0 1 9 = set ?l"
  proof -
    have "Serialize_SignatureSerializer (make_serializer demo_tx ?c 0 1) = Serialize_SignatureSerializer (make_serializer demo_tx ?d 0 1)"
      "Serialize_SignatureSerializer (make_serializer demo_tx2 ?d 0 1) = Serialize_SignatureSerializer (make_serializer demo_tx ?d 0 1)"
      "prevouts_bytes demo_tx2 = prevouts_bytes demo_tx" "sequences_bytes demo_tx2 = sequences_bytes demo_tx" "outputs_bytes demo_tx2 = outputs_bytes demo_tx"
      by code_simp+
    then show ?thesis unfolding hashed_strings_def by auto
  qed
  ultimately have i: "inj_on (CHash256 ?env) (hashed_strings ?env ?c demo_tx 0 1 7 \<union> hashed_strings ?env ?d demo_tx2 0 1 9)"
    by (simp only: distinct_map)
  have "demo_tx \<noteq> demo_tx2" by (simp add: demo_tx_def demo_tx2_def)
  then show ?thesis using h SignatureHash_commits[OF h r(1,2) i] r by simp
qed

end
