(* ===== verification/TxVerify.thy ===== *)
theory TxVerify
  imports Undo SigHash Pow
begin

text \<open>
  The rules for transactions of \<^verbatim>\<open>sige/src/validation.cpp\<close>: lock times and relative lock times, counting
  signature operations, the checks without context, the checks of the inputs against the coins and
  the block subsidy.  A check returns the rejection it reports to its caller as an error value.
\<close>

section \<open>Definitions\<close>

datatype tx_error = TxAbort | TxThrow | TxReject int string

text \<open>An assertion of the coin views stops the program, a logic error is thrown.\<close>

definition coins_result :: "coins_error + 'a \<Rightarrow> tx_error + 'a" where
  "coins_result r = (case r of Inl CoinsAssert \<Rightarrow> Inl TxAbort | Inl CoinsLogicError \<Rightarrow> Inl TxThrow | Inr x \<Rightarrow> Inr x)"

definition IsFinalTx :: "CTransaction \<Rightarrow> int \<Rightarrow> int \<Rightarrow> bool" where
  "IsFinalTx tx nBlockHeight nBlockTime =
    (if tx_nLockTime tx = 0 then True
     else if uint (tx_nLockTime tx) < (if uint (tx_nLockTime tx) < LOCKTIME_THRESHOLD then nBlockHeight else nBlockTime) then True
     else list_all (\<lambda>txin. in_nSequence txin = SEQUENCE_FINAL) (tx_vin tx))"

text \<open>Relative lock times of BIP 68.\<close>

definition LOCKTIME_VERIFY_SEQUENCE :: u32 where "LOCKTIME_VERIFY_SEQUENCE = 1"

definition sequence_lock :: "store \<Rightarrow> ptr \<Rightarrow> CTxIn \<Rightarrow> int \<Rightarrow> int \<times> int \<Rightarrow> tx_error + int \<times> int \<times> int" where
  "sequence_lock st block txin nCoinHeight locks =
    (case locks of (nMinHeight, nMinTime) \<Rightarrow>
     let s = uint (in_nSequence txin) in
     if s AND SEQUENCE_LOCKTIME_DISABLE_FLAG \<noteq> 0 then Inr (0, nMinHeight, nMinTime)
     else if s AND SEQUENCE_LOCKTIME_TYPE_FLAG \<noteq> 0
     then case GetAncestor st block (max (nCoinHeight - 1) 0) of
            Some (Some q) \<Rightarrow>
              let nCoinTime = GetMedianTimePast st q
              in Inr (nCoinHeight, nMinHeight, max nMinTime (nCoinTime + (s AND SEQUENCE_LOCKTIME_MASK) * 2 ^ SEQUENCE_LOCKTIME_GRANULARITY - 1))
          | _ \<Rightarrow> Inl TxAbort
     else Inr (nCoinHeight, max nMinHeight (nCoinHeight + (s AND SEQUENCE_LOCKTIME_MASK) - 1), nMinTime))"

primrec sequence_locks :: "store \<Rightarrow> ptr \<Rightarrow> (CTxIn \<times> int) list \<Rightarrow> int \<times> int \<Rightarrow> tx_error + int list \<times> int \<times> int" where
  "sequence_locks st block [] locks = Inr ([], locks)"
| "sequence_locks st block (ih # rest) locks =
    ebind (sequence_lock st block (fst ih) (snd ih) locks) (\<lambda>(h, locks).
      ebind (sequence_locks st block rest locks) (\<lambda>(hs, locks). Inr (h # hs, locks)))"

definition CalculateSequenceLocks :: "store \<Rightarrow> CTransaction \<Rightarrow> u32 \<Rightarrow> int list \<Rightarrow> ptr \<Rightarrow> tx_error + int list \<times> int \<times> int" where
  "CalculateSequenceLocks st tx flags prevHeights block =
    (if length prevHeights \<noteq> length (tx_vin tx) then Inl TxAbort
     else if \<not> (tx_nVersion tx \<ge> 2 \<and> flags AND LOCKTIME_VERIFY_SEQUENCE \<noteq> 0) then Inr (prevHeights, - 1, - 1)
     else sequence_locks st block (zip (tx_vin tx) prevHeights) (- 1, - 1))"

definition EvaluateSequenceLocks :: "store \<Rightarrow> ptr \<Rightarrow> int \<times> int \<Rightarrow> tx_error + bool" where
  "EvaluateSequenceLocks st block lockPair =
    (case pprev (st block) of
       None \<Rightarrow> Inl TxAbort
     | Some q \<Rightarrow> Inr (\<not> (fst lockPair \<ge> nHeight (st block) \<or> snd lockPair \<ge> GetMedianTimePast st q)))"

definition SequenceLocks :: "store \<Rightarrow> CTransaction \<Rightarrow> u32 \<Rightarrow> int list \<Rightarrow> ptr \<Rightarrow> tx_error + bool" where
  "SequenceLocks st tx flags prevHeights block =
    ebind (CalculateSequenceLocks st tx flags prevHeights block) (\<lambda>(hs, locks). EvaluateSequenceLocks st block locks)"

text \<open>Signature operations; the counts of a transaction that fits a block are far below \<open>2 ^ 32\<close>.\<close>

primrec sum_sig_ops :: "CScript list \<Rightarrow> int \<Rightarrow> tx_error + int" where
  "sum_sig_ops [] nSigOps = Inr nSigOps"
| "sum_sig_ops (s # ss) nSigOps = (case GetSigOpCount s False of None \<Rightarrow> Inl TxAbort | Some k \<Rightarrow> sum_sig_ops ss (nSigOps + k))"

definition GetLegacySigOpCount :: "CTransaction \<Rightarrow> tx_error + int" where
  "GetLegacySigOpCount tx = sum_sig_ops (map in_scriptSig (tx_vin tx) @ map out_scriptPubKey (tx_vout tx)) 0"

primrec p2sh_sig_ops :: "CTxIn list \<Rightarrow> int \<Rightarrow> CCoinsView \<Rightarrow> tx_error + int \<times> CCoinsView" where
  "p2sh_sig_ops [] nSigOps v = Inr (nSigOps, v)"
| "p2sh_sig_ops (i # vin) nSigOps v =
    ebind (coins_result (GetOutputFor v i)) (\<lambda>(prevout, v).
      if IsPayToScriptHash (out_scriptPubKey prevout)
      then case GetSigOpCount_P2SH (out_scriptPubKey prevout) (in_scriptSig i) of
             None \<Rightarrow> Inl TxAbort
           | Some k \<Rightarrow> p2sh_sig_ops vin (nSigOps + k) v
      else p2sh_sig_ops vin nSigOps v)"

definition GetP2SHSigOpCount :: "CTransaction \<Rightarrow> CCoinsView \<Rightarrow> tx_error + int \<times> CCoinsView" where
  "GetP2SHSigOpCount tx v = (if IsCoinBase tx then Inr (0, v) else p2sh_sig_ops (tx_vin tx) 0 v)"

primrec witness_sig_ops :: "u32 \<Rightarrow> CTxIn list \<Rightarrow> int \<Rightarrow> CCoinsView \<Rightarrow> tx_error + int \<times> CCoinsView" where
  "witness_sig_ops flags [] nSigOps v = Inr (nSigOps, v)"
| "witness_sig_ops flags (i # vin) nSigOps v =
    ebind (coins_result (GetOutputFor v i)) (\<lambda>(prevout, v).
      case CountWitnessSigOps (in_scriptSig i) (out_scriptPubKey prevout) (Some (in_scriptWitness i)) flags of
        None \<Rightarrow> Inl TxAbort
      | Some k \<Rightarrow> witness_sig_ops flags vin (nSigOps + k) v)"

definition GetTransactionSigOpCost :: "CTransaction \<Rightarrow> CCoinsView \<Rightarrow> u32 \<Rightarrow> tx_error + int \<times> CCoinsView" where
  "GetTransactionSigOpCost tx v flags =
    ebind (GetLegacySigOpCount tx) (\<lambda>legacy.
      let nSigOps = legacy * int WITNESS_SCALE_FACTOR in
      if IsCoinBase tx then Inr (nSigOps, v)
      else ebind (if flag flags SCRIPT_VERIFY_P2SH
                  then ebind (GetP2SHSigOpCount tx v) (\<lambda>(k, v). Inr (nSigOps + k * int WITNESS_SCALE_FACTOR, v))
                  else Inr (nSigOps, v)) (\<lambda>(nSigOps, v). witness_sig_ops flags (tx_vin tx) nSigOps v))"

text \<open>The checks of a transaction that need no context.\<close>

definition MAX_BLOCK_BASE_SIZE :: int where "MAX_BLOCK_BASE_SIZE = 1000000"

primrec check_outputs :: "CTxOut list \<Rightarrow> CAmount \<Rightarrow> tx_error + unit" where
  "check_outputs [] nValueOut = Inr ()"
| "check_outputs (txout # vout) nValueOut =
    (if sint (out_nValue txout) < 0 then Inl (TxReject 100 ''bad-txns-vout-negative'')
     else if sint (out_nValue txout) > MAX_MONEY then Inl (TxReject 100 ''bad-txns-vout-toolarge'')
     else let nValueOut = nValueOut + out_nValue txout in
          if \<not> MoneyRange nValueOut then Inl (TxReject 100 ''bad-txns-txouttotal-toolarge'') else check_outputs vout nValueOut)"

primrec insert_prevouts :: "CTxIn list \<Rightarrow> COutPoint set \<Rightarrow> bool" where
  "insert_prevouts [] vInOutPoints = True"
| "insert_prevouts (txin # vin) vInOutPoints =
    (if in_prevout txin \<in> vInOutPoints then False else insert_prevouts vin (insert (in_prevout txin) vInOutPoints))"

definition CheckTransaction :: "CTransaction \<Rightarrow> bool \<Rightarrow> tx_error + unit" where
  "CheckTransaction tx fCheckDuplicateInputs =
    (if tx_vin tx = [] then Inl (TxReject 10 ''bad-txns-vin-empty'')
     else if tx_vout tx = [] then Inl (TxReject 10 ''bad-txns-vout-empty'')
     else if int (length (SerializeTransaction False tx)) > MAX_BLOCK_BASE_SIZE then Inl (TxReject 100 ''bad-txns-oversize'')
     else ebind (check_outputs (tx_vout tx) 0) (\<lambda>_.
       if fCheckDuplicateInputs \<and> \<not> insert_prevouts (tx_vin tx) {} then Inl (TxReject 100 ''bad-txns-inputs-duplicate'')
       else if IsCoinBase tx
       then if length (in_scriptSig (hd (tx_vin tx))) < 2 \<or> length (in_scriptSig (hd (tx_vin tx))) > 100
            then Inl (TxReject 100 ''bad-cb-length'') else Inr ()
       else if \<not> list_all (\<lambda>txin. \<not> COutPoint_IsNull (in_prevout txin)) (tx_vin tx) then Inl (TxReject 10 ''bad-txns-prevout-null'')
       else Inr ()))"

text \<open>The checks of the inputs against the coins, \<open>Consensus::CheckTxInputs\<close>.\<close>

definition COINBASE_MATURITY :: int where "COINBASE_MATURITY = 100"

primrec check_values :: "int \<Rightarrow> CTxIn list \<Rightarrow> CAmount \<Rightarrow> CCoinsView \<Rightarrow> tx_error + CAmount \<times> CCoinsView" where
  "check_values nSpendHeight [] nValueIn v = Inr (nValueIn, v)"
| "check_values nSpendHeight (i # vin) nValueIn v =
    (case GetCoins v (po_hash (in_prevout i)) of
       (None, v) \<Rightarrow> Inl TxAbort
     | (Some coins, v) \<Rightarrow>
         if cc_fCoinBase coins \<and> nSpendHeight - cc_nHeight coins < COINBASE_MATURITY
         then Inl (TxReject 0 ''bad-txns-premature-spend-of-coinbase'')
         else if unat (po_n (in_prevout i)) \<ge> length (cc_vout coins) then Inl TxAbort
         else let nValue = out_nValue (cc_vout coins ! unat (po_n (in_prevout i)));
                  nValueIn = nValueIn + nValue
              in if \<not> MoneyRange nValue \<or> \<not> MoneyRange nValueIn then Inl (TxReject 100 ''bad-txns-inputvalues-outofrange'')
                 else check_values nSpendHeight vin nValueIn v)"

definition CheckTxInputs :: "CTransaction \<Rightarrow> CCoinsView \<Rightarrow> int \<Rightarrow> tx_error + CCoinsView" where
  "CheckTxInputs tx v nSpendHeight =
    (case HaveInputs v tx of (have, v) \<Rightarrow>
     if \<not> have then Inl (TxReject 0 ''Inputs unavailable'')
     else ebind (check_values nSpendHeight (tx_vin tx) 0 v) (\<lambda>(nValueIn, v).
       case GetValueOut tx of
         None \<Rightarrow> Inl TxThrow
       | Some nValueOut \<Rightarrow>
           if sint nValueIn < sint nValueOut then Inl (TxReject 100 ''bad-txns-in-belowout'')
           else let nTxFee = nValueIn - nValueOut in
                if sint nTxFee < 0 then Inl (TxReject 100 ''bad-txns-fee-negative'')
                else let nFees = 0 + nTxFee in
                     if \<not> MoneyRange nFees then Inl (TxReject 100 ''bad-txns-fee-outofrange'') else Inr v))"

definition GetBlockSubsidy :: "int \<Rightarrow> Params \<Rightarrow> CAmount" where
  "GetBlockSubsidy nBlockHeight params =
    (let halvings = nBlockHeight sdiv nSubsidyHalvingInterval params in
     if halvings \<ge> 64 then 0
     else let nSubsidy = 55 * of_int COIN in signed_drop_bit (nat halvings) nSubsidy)"

text \<open>A transaction that names one of its inputs once more.\<close>

definition repeat_input :: "CTransaction \<Rightarrow> CTxIn \<Rightarrow> CTransaction" where
  "repeat_input tx i = tx\<lparr>tx_vin := tx_vin tx @ [i]\<rparr>"

definition demo_double :: CTransaction where
  "demo_double = repeat_input demo_spend (hd (tx_vin demo_spend))"

text \<open>The amounts an input reads, the maturity of its coins and the rules of BIP 68, written as conditions on one input.\<close>

definition coin_value :: "CCoinsView \<Rightarrow> CTxIn \<Rightarrow> int" where
  "coin_value v i = sint (out_nValue (the (utxo v (in_prevout i))))"

definition mature :: "CCoinsView \<Rightarrow> int \<Rightarrow> CTxIn \<Rightarrow> bool" where
  "mature v nSpendHeight i =
    (case coins_of v (po_hash (in_prevout i)) of
       None \<Rightarrow> False
     | Some c \<Rightarrow> \<not> (cc_fCoinBase c \<and> nSpendHeight - cc_nHeight c < COINBASE_MATURITY))"

definition sequence_mature :: "store \<Rightarrow> ptr \<Rightarrow> CTxIn \<Rightarrow> int \<Rightarrow> bool" where
  "sequence_mature st block txin nCoinHeight \<longleftrightarrow>
    (let s = uint (in_nSequence txin) in
     s AND SEQUENCE_LOCKTIME_DISABLE_FLAG \<noteq> 0 \<or>
     (if s AND SEQUENCE_LOCKTIME_TYPE_FLAG \<noteq> 0
      then case (GetAncestor st block (max (nCoinHeight - 1) 0), pprev (st block)) of
             (Some (Some q), Some p) \<Rightarrow> GetMedianTimePast st q + (s AND SEQUENCE_LOCKTIME_MASK) * 512 \<le> GetMedianTimePast st p
           | _ \<Rightarrow> False
      else nCoinHeight + (s AND SEQUENCE_LOCKTIME_MASK) \<le> nHeight (st block)))"

section \<open>Checks without context\<close>

lemma sint_amount: "0 \<le> x \<Longrightarrow> x < 2 ^ 63 \<Longrightarrow> sint (of_int x :: u64) = x"
proof -
  assume x: "0 \<le> x" "x < 2 ^ 63"
  then obtain k where k: "x = int k" "k < 2 ^ 63" by (metis nat_0_le of_nat_less_iff of_nat_numeral of_nat_power)
  then have "unat (of_int x :: u64) = k" by (simp add: unat_of_nat)
  with k show ?thesis by (subst sint_small) simp_all
qed

lemma insert_prevouts_iff: "insert_prevouts vin S \<longleftrightarrow> distinct (map in_prevout vin) \<and> in_prevout ` set vin \<inter> S = {}"
  by (induction vin arbitrary: S) auto

lemma check_outputs_iff:
  "MoneyRange acc \<Longrightarrow> check_outputs vout acc = Inr () \<longleftrightarrow> (\<exists>total. add_values vout acc = Some total)"
proof (induction vout arbitrary: acc)
  case Nil
  then show ?case by simp
next
  case (Cons t vout)
  have "MoneyRange (out_nValue t) \<longleftrightarrow> 0 \<le> sint (out_nValue t) \<and> sint (out_nValue t) \<le> MAX_MONEY" by (simp add: MoneyRange_def)
  with Cons.IH [of "acc + out_nValue t"] show ?case by (auto simp: Let_def)
qed

lemma sum_bound: "list_all (\<lambda>t. 0 \<le> (f t :: int)) ts \<Longrightarrow> x \<in> set ts \<Longrightarrow> f x \<le> (\<Sum>t\<leftarrow>ts. f t)"
proof (induction ts)
  case (Cons t ts)
  have "0 \<le> (\<Sum>t\<leftarrow>ts. f t)" using Cons.prems(1) by (intro sum_list_nonneg) (auto simp: list_all_iff)
  with Cons show ?case by fastforce
qed simp

lemma outputs_total: "(\<exists>total. add_values vout 0 = Some total) \<longleftrightarrow>
    list_all (\<lambda>t. 0 \<le> sint (out_nValue t)) vout \<and> (\<Sum>t\<leftarrow>vout. sint (out_nValue t)) \<le> MAX_MONEY"
  (is "?l \<longleftrightarrow> ?r")
proof
  have z: "MoneyRange 0" by (simp add: MoneyRange_def MAX_MONEY_def COIN_def)
  show "?l \<Longrightarrow> ?r" using add_values_iff [OF z, of vout] by (auto simp: list_all_iff MoneyRange_def)
  assume r: ?r
  then have m: "list_all (\<lambda>t. MoneyRange (out_nValue t)) vout"
    using sum_bound [of "\<lambda>t. sint (out_nValue t)" vout] by (force simp: list_all_iff MoneyRange_def)
  let ?s = "\<Sum>t\<leftarrow>vout. sint (out_nValue t)"
  have "0 \<le> ?s" using r by (intro sum_list_nonneg) (auto simp: list_all_iff)
  then have "sint (of_int ?s :: u64) = ?s" using r by (simp add: sint_amount MAX_MONEY_def COIN_def)
  with m r have "add_values vout 0 = Some (of_int ?s)" using add_values_iff [OF z, of vout] by simp
  then show ?l by blast
qed

lemma CheckTransaction_eq:
  "CheckTransaction tx dup = Inr () \<longleftrightarrow>
    tx_vin tx \<noteq> [] \<and> tx_vout tx \<noteq> [] \<and> length (SerializeTransaction False tx) \<le> 1000000 \<and>
    list_all (\<lambda>t. 0 \<le> sint (out_nValue t)) (tx_vout tx) \<and> (\<Sum>t\<leftarrow>tx_vout tx. sint (out_nValue t)) \<le> MAX_MONEY \<and>
    (if dup then distinct (map in_prevout (tx_vin tx)) else True) \<and>
    (if IsCoinBase tx then length (in_scriptSig (hd (tx_vin tx))) \<in> {2..100}
     else list_all (\<lambda>i. \<not> COutPoint_IsNull (in_prevout i)) (tx_vin tx))"
proof -
  have "MoneyRange 0" by (simp add: MoneyRange_def MAX_MONEY_def COIN_def)
  then have "check_outputs (tx_vout tx) 0 = Inr () \<longleftrightarrow>
      list_all (\<lambda>t. 0 \<le> sint (out_nValue t)) (tx_vout tx) \<and> (\<Sum>t\<leftarrow>tx_vout tx. sint (out_nValue t)) \<le> MAX_MONEY"
    by (simp add: check_outputs_iff outputs_total)
  then show ?thesis
    by (auto simp: CheckTransaction_def insert_prevouts_iff MAX_BLOCK_BASE_SIZE_def ebind_Inr_iff)
qed

text \<open>
  C11. A transaction passes exactly if it has inputs and outputs, its size without witnesses fits a
  block, every output and (as an exact sum, without wrap-around) their total is in the money range, no
  output is spent twice where that is checked, and it is a coinbase with a script of 2 to 100 bytes or
  has no null input.
\<close>

theorem CheckTransaction_iff:
  "CheckTransaction tx dup = Inr () \<longleftrightarrow>
    tx_vin tx \<noteq> [] \<and> tx_vout tx \<noteq> [] \<and> length (SerializeTransaction False tx) \<le> 1000000 \<and>
    list_all (\<lambda>t. 0 \<le> sint (out_nValue t)) (tx_vout tx) \<and> (\<Sum>t\<leftarrow>tx_vout tx. sint (out_nValue t)) \<le> MAX_MONEY \<and>
    (if dup then distinct (map in_prevout (tx_vin tx)) else True) \<and>
    (if IsCoinBase tx then length (in_scriptSig (hd (tx_vin tx))) \<in> {2..100}
     else list_all (\<lambda>i. \<not> COutPoint_IsNull (in_prevout i)) (tx_vin tx))"
  by (rule CheckTransaction_eq)

section \<open>Inputs against coins\<close>

lemma sint_add_exact: "- (2 ^ 63) \<le> sint a + sint b \<Longrightarrow> sint a + sint b < 2 ^ 63 \<Longrightarrow> sint (a + b :: u64) = sint a + sint b"
  by (simp add: sint_word_ariths(1) signed_take_bit_int_eq_self)

lemma sint_diff_exact: "- (2 ^ 63) \<le> sint a - sint b \<Longrightarrow> sint a - sint b < 2 ^ 63 \<Longrightarrow> sint (a - b :: u64) = sint a - sint b"
  by (simp add: sint_word_ariths(2) signed_take_bit_int_eq_self)

lemma check_values_iff:
  assumes "view_ok v" "list_all (\<lambda>i. utxo v (in_prevout i) \<noteq> None) vin" "MoneyRange acc" "check_values h vin acc v = Inr (tot, v')"
  shows "same_view v v' \<and> list_all (\<lambda>i. 0 \<le> coin_value v i) vin \<and> MoneyRange tot \<and>
    sint tot = sint acc + (\<Sum>i\<leftarrow>vin. coin_value v i)"
  using assms
proof (induction vin arbitrary: v acc)
  case Nil
  then show ?case by simp
next
  case (Cons i vin)
  obtain r v1 where get: "GetCoins v (po_hash (in_prevout i)) = (r, v1)" by fastforce
  note g = GetCoins_utxo [OF Cons.prems(1) get]
  obtain coins where r: "r = Some coins" using Cons.prems(4) get by (cases r) auto
  define x where "x = out_nValue (cc_vout coins ! unat (po_n (in_prevout i)))"
  have x: "coin_value v i = sint x" using g(2) Cons.prems(2) r by (auto simp: coin_value_def x_def split: if_splits)
  have step: "check_values h vin (acc + x) v1 = Inr (tot, v')" and m: "MoneyRange x" "MoneyRange (acc + x)"
    using Cons.prems(4) by (auto simp: get r x_def Let_def split: if_splits)
  have same: "view_ok v1" "utxo v1 = utxo v" using g(1) same_view_utxo by (auto simp: same_view_def)
  have "list_all (\<lambda>i. utxo v1 (in_prevout i) \<noteq> None) vin" using Cons.prems(2) by (simp add: same(2))
  from Cons.IH [OF same(1) this m(2) step] show ?case
    using same_view_trans [OF g(1)] x m MoneyRange_add [OF Cons.prems(3) m(1)]
    by (simp add: coin_value_def same(2) MoneyRange_def)
qed

lemma CheckTxInputs_facts:
  assumes "view_ok v" "\<not> IsCoinBase tx" "CheckTxInputs tx v h = Inr v'"
  shows "same_view v v' \<and> list_all (\<lambda>i. utxo v (in_prevout i) \<noteq> None \<and> 0 \<le> coin_value v i) (tx_vin tx) \<and>
    list_all (\<lambda>t. 0 \<le> sint (out_nValue t)) (tx_vout tx) \<and>
    (\<Sum>t\<leftarrow>tx_vout tx. sint (out_nValue t)) \<le> (\<Sum>i\<leftarrow>tx_vin tx. coin_value v i) \<and> (\<Sum>i\<leftarrow>tx_vin tx. coin_value v i) \<le> MAX_MONEY"
proof -
  obtain b v1 where hv: "HaveInputs v tx = (b, v1)" by fastforce
  from HaveInputs_correct [OF assms(1) hv] have same: "same_view v v1"
    and b: "b \<longleftrightarrow> list_all (\<lambda>i. utxo v (in_prevout i) \<noteq> None) (tx_vin tx)" using assms(2) by (auto simp: list_all_iff)
  obtain nin nout where run: "b" "check_values h (tx_vin tx) 0 v1 = Inr (nin, v')" "GetValueOut tx = Some nout" "sint nout \<le> sint nin"
    using assms(3) by (auto simp: CheckTxInputs_def hv ebind_Inr_iff Let_def split: if_splits option.splits)
  have v1: "view_ok v1" "utxo v1 = utxo v" using same same_view_utxo by (auto simp: same_view_def)
  have "MoneyRange 0" by (simp add: MoneyRange_def MAX_MONEY_def COIN_def)
  from check_values_iff [OF v1(1) _ this run(2)] run(1) b v1(2)
  have "same_view v1 v'" "list_all (\<lambda>i. 0 \<le> coin_value v i) (tx_vin tx)" "MoneyRange nin" "sint nin = (\<Sum>i\<leftarrow>tx_vin tx. coin_value v i)"
    by (simp_all add: coin_value_def)
  moreover from GetValueOut_exact [of tx nout] run(3)
  have "list_all (\<lambda>t. 0 \<le> sint (out_nValue t)) (tx_vout tx)" "sint nout = (\<Sum>t\<leftarrow>tx_vout tx. sint (out_nValue t))"
    by (auto simp: list_all_iff MoneyRange_def)
  ultimately show ?thesis using run(1,4) b same_view_trans [OF same] by (auto simp: list_all_iff MoneyRange_def)
qed

text \<open>The inputs pass exactly if their coins are mature and their amounts add up within the money range.\<close>

lemma check_values_eq:
  assumes "view_ok v" "list_all (\<lambda>i. utxo v (in_prevout i) \<noteq> None) vin" "MoneyRange acc"
  shows "(\<exists>tot v'. check_values h vin acc v = Inr (tot, v')) \<longleftrightarrow>
    list_all (\<lambda>i. mature v h i \<and> 0 \<le> coin_value v i) vin \<and> sint acc + (\<Sum>i\<leftarrow>vin. coin_value v i) \<le> MAX_MONEY"
  using assms
proof (induction vin arbitrary: v acc)
  case Nil
  then show ?case by (simp add: MoneyRange_def)
next
  case (Cons i vin)
  obtain r v1 where get: "GetCoins v (po_hash (in_prevout i)) = (r, v1)" by fastforce
  note g = GetCoins_utxo [OF Cons.prems(1) get]
  obtain c where r: "r = Some c" "IsAvailable c (unat (po_n (in_prevout i)))" using g(2) Cons.prems(2) by (auto split: option.splits if_splits)
  define x where "x = out_nValue (cc_vout c ! unat (po_n (in_prevout i)))"
  have x: "coin_value v i = sint x" using g(2) r by (simp add: coin_value_def x_def)
  have "coins_of v (po_hash (in_prevout i)) = Some c"
    using GetCoins_correct [OF Cons.prems(1) get] r available_not_pruned by (simp add: unspent_def)
  then have m: "mature v h i \<longleftrightarrow> \<not> (cc_fCoinBase c \<and> h - cc_nHeight c < COINBASE_MATURITY)" by (simp add: mature_def)
  have run: "check_values h (i # vin) acc v = Inr z \<longleftrightarrow> mature v h i \<and> MoneyRange x \<and> MoneyRange (acc + x) \<and> check_values h vin (acc + x) v1 = Inr z" for z
    using r(2) by (auto simp: get r(1) m x_def Let_def IsAvailable_def split: if_splits)
  have same: "view_ok v1" "utxo v1 = utxo v" "coins_of v1 = coins_of v" using g(1) same_view_utxo by (auto simp: same_view_def)
  have e: "coin_value v1 = coin_value v" "mature v1 = mature v" by (simp_all add: coin_value_def mature_def same fun_eq_iff)
  show ?case
  proof (cases "MoneyRange x \<and> MoneyRange (acc + x)")
    case True
    then have "sint (acc + x) = sint acc + sint x" using MoneyRange_add [OF Cons.prems(3)] by blast
    with Cons.IH [OF same(1), of "acc + x"] Cons.prems(2) True show ?thesis
      unfolding run by (auto simp: e x same(2) MoneyRange_def)
  next
    case False
    have "\<not> (0 \<le> sint x \<and> sint acc + sint x \<le> MAX_MONEY)"
    proof
      assume a: "0 \<le> sint x \<and> sint acc + sint x \<le> MAX_MONEY"
      then have "MoneyRange x" using Cons.prems(3) by (simp add: MoneyRange_def)
      moreover have "MoneyRange (acc + x)" using a Cons.prems(3) by (simp add: MoneyRange_def sint_add_exact MAX_MONEY_def COIN_def)
      ultimately show False using False by simp
    qed
    moreover have "0 \<le> (\<Sum>i\<leftarrow>vin. coin_value v i)" if "list_all (\<lambda>i. mature v h i \<and> 0 \<le> coin_value v i) vin"
      using that by (intro sum_list_nonneg) (auto simp: list_all_iff)
    ultimately show ?thesis using False unfolding run by (auto simp: x)
  qed
qed

lemma CheckTxInputs_eq:
  assumes "view_ok v" "\<not> IsCoinBase tx"
  shows "(\<exists>v'. CheckTxInputs tx v h = Inr v') \<longleftrightarrow>
    list_all (\<lambda>i. utxo v (in_prevout i) \<noteq> None \<and> mature v h i \<and> 0 \<le> coin_value v i) (tx_vin tx) \<and> (\<Sum>i\<leftarrow>tx_vin tx. coin_value v i) \<le> MAX_MONEY \<and>
    (\<exists>nout. GetValueOut tx = Some nout \<and> sint nout \<le> (\<Sum>i\<leftarrow>tx_vin tx. coin_value v i))"
proof -
  obtain b v1 where hv: "HaveInputs v tx = (b, v1)" by fastforce
  from HaveInputs_correct [OF assms(1) hv] have same: "same_view v v1"
    and b: "b \<longleftrightarrow> list_all (\<lambda>i. utxo v (in_prevout i) \<noteq> None) (tx_vin tx)" using assms(2) by (auto simp: list_all_iff)
  have v1: "view_ok v1" "utxo v1 = utxo v" "coins_of v1 = coins_of v" using same same_view_utxo by (auto simp: same_view_def)
  have e: "coin_value v1 = coin_value v" "mature v1 = mature v" by (simp_all add: coin_value_def mature_def v1 fun_eq_iff)
  have z: "MoneyRange 0" by (simp add: MoneyRange_def MAX_MONEY_def COIN_def)
  show ?thesis
  proof (cases b)
    case True
    then have u: "list_all (\<lambda>i. utxo v1 (in_prevout i) \<noteq> None) (tx_vin tx)" by (simp add: b v1(2))
    note cv = check_values_eq [OF v1(1) u z, of h, unfolded e]
    have fees: "(\<exists>v'. CheckTxInputs tx v h = Inr v') \<longleftrightarrow>
        (\<exists>nin v' nout. check_values h (tx_vin tx) 0 v1 = Inr (nin, v') \<and> GetValueOut tx = Some nout \<and> sint nout \<le> sint nin)"
    proof -
      have fee: "0 \<le> sint (nin - nout) \<and> MoneyRange (nin - nout)"
        if "check_values h (tx_vin tx) 0 v1 = Inr (nin, v')" "GetValueOut tx = Some nout" "sint nout \<le> sint nin" for nin v' nout
      proof -
        have "MoneyRange nin" using check_values_iff [OF v1(1) u z that(1)] by simp
        moreover have "0 \<le> sint nout" using GetValueOut_exact [of tx nout] that(2) by (auto simp: list_all_iff MoneyRange_def intro!: sum_list_nonneg)
        ultimately show ?thesis using that(3) by (simp add: sint_diff_exact MoneyRange_def MAX_MONEY_def COIN_def)
      qed
      then show ?thesis using True by (fastforce simp: CheckTxInputs_def hv ebind_Inr_iff Let_def not_less split: if_splits option.splits)
    qed
    have tot: "sint nin = (\<Sum>i\<leftarrow>tx_vin tx. coin_value v i)" if "check_values h (tx_vin tx) 0 v1 = Inr (nin, v')" for nin v'
      using check_values_iff [OF v1(1) u z that] by (simp add: e)
    have all: "list_all (\<lambda>i. utxo v (in_prevout i) \<noteq> None \<and> mature v h i \<and> 0 \<le> coin_value v i) (tx_vin tx) \<longleftrightarrow>
        list_all (\<lambda>i. mature v h i \<and> 0 \<le> coin_value v i) (tx_vin tx)" using True b by (auto simp: list_all_iff)
    show ?thesis unfolding fees all using cv tot by (auto simp: all)
  next
    case False
    then have "\<not> list_all (\<lambda>i. utxo v (in_prevout i) \<noteq> None \<and> mature v h i \<and> 0 \<le> coin_value v i) (tx_vin tx)" using b by (auto simp: list_all_iff)
    then show ?thesis using False by (auto simp: CheckTxInputs_def hv)
  qed
qed

text \<open>
  A transaction whose inputs pass the checks spends existing outputs whose exact sum is in the money
  range and at least the exact sum of its outputs: it does not create money.  The coins are only read.
\<close>

theorem CheckTxInputs_sound:
  assumes "view_ok v" "\<not> IsCoinBase tx" "CheckTxInputs tx v h = Inr v'"
  shows "same_view v v' \<and> list_all (\<lambda>i. utxo v (in_prevout i) \<noteq> None \<and> 0 \<le> coin_value v i) (tx_vin tx) \<and>
    list_all (\<lambda>t. 0 \<le> sint (out_nValue t)) (tx_vout tx) \<and>
    (\<Sum>t\<leftarrow>tx_vout tx. sint (out_nValue t)) \<le> (\<Sum>i\<leftarrow>tx_vin tx. coin_value v i) \<and> (\<Sum>i\<leftarrow>tx_vin tx. coin_value v i) \<le> MAX_MONEY"
  using CheckTxInputs_facts [OF assms] .

section \<open>Lock times\<close>

text \<open>
  C12. Together, the lock time operation of scripts (BIP 65) and the finality rule enforce the operand: a
  transaction that passes both is in a block whose height, or whose time, is above it.
\<close>

theorem lock_time_enforced:
  assumes "nIn < length (tx_vin tx)" "0 \<le> n" "0 < h"
    "CheckLockTime (TransactionSignatureChecker env Verify tx nIn amount txdata) n" "IsFinalTx tx h t"
  shows "n < (if n < LOCKTIME_THRESHOLD then h else t)"
proof -
  let ?l = "uint (tx_nLockTime tx)"
  have c: "n < LOCKTIME_THRESHOLD \<longleftrightarrow> ?l < LOCKTIME_THRESHOLD" "n \<le> ?l" "in_nSequence (tx_vin tx ! nIn) \<noteq> SEQUENCE_FINAL"
    using assms(4) by (auto simp: TransactionSignatureChecker_def checker_CheckLockTime_def split: if_splits)
  have "\<not> list_all (\<lambda>i. in_nSequence i = SEQUENCE_FINAL) (tx_vin tx)" using c(3) assms(1) by (auto simp: list_all_length)
  with assms(5) have "?l = 0 \<or> ?l < (if ?l < LOCKTIME_THRESHOLD then h else t)"
    by (auto simp: IsFinalTx_def split: if_splits)
  with c assms(2,3) show ?thesis by (auto simp: LOCKTIME_THRESHOLD_def)
qed

lemma GetMedianTimePast_nonneg: "0 \<le> GetMedianTimePast st p"
proof -
  define ts where "ts = past_times st nMedianTimeSpan (Some p)"
  have ne: "ts \<noteq> []" by (simp add: ts_def nMedianTimeSpan_def numeral_eq_Suc)
  have nn: "x \<in> set (past_times st k q) \<Longrightarrow> 0 \<le> x" for k q x
    by (induction k arbitrary: q) (auto simp: GetBlockTime_def split: option.splits)
  have "sort ts ! (length (sort ts) div 2) \<in> set (sort ts)" by (rule nth_mem) (use ne in simp)
  then have "sort ts ! (length (sort ts) div 2) \<in> set ts" by simp
  then show ?thesis unfolding GetMedianTimePast_def Let_def ts_def by (rule nn)
qed

lemma sequence_lock_mature:
  assumes "wf_index V st" "b \<in> V" "pprev (st b) = Some p" "0 \<le> ch" "ch \<le> nHeight (st b)"
  shows "\<exists>h' mh' mt'. sequence_lock st b i ch (mh, mt) = Inr (h', mh', mt') \<and>
    (mh' < nHeight (st b) \<and> mt' < GetMedianTimePast st p \<longleftrightarrow>
      mh < nHeight (st b) \<and> mt < GetMedianTimePast st p \<and> sequence_mature st b i ch)"
proof -
  have "0 \<le> max (ch - 1) 0 \<and> max (ch - 1) 0 \<le> nHeight (st b)" using assms(4,5) by auto
  then obtain q where q: "GetAncestor st b (max (ch - 1) 0) = Some (Some q)"
    using GetAncestor_height [OF assms(1,2)] by blast
  show ?thesis
    by (auto simp: sequence_lock_def sequence_mature_def q assms(3) Let_def SEQUENCE_LOCKTIME_GRANULARITY_def)
qed

lemma sequence_locks_mature:
  assumes "wf_index V st" "b \<in> V" "pprev (st b) = Some p" "list_all (\<lambda>ih. 0 \<le> snd ih \<and> snd ih \<le> nHeight (st b)) ihs"
  shows "\<exists>hs mh' mt'. sequence_locks st b ihs (mh, mt) = Inr (hs, mh', mt') \<and>
    (mh' < nHeight (st b) \<and> mt' < GetMedianTimePast st p \<longleftrightarrow>
      mh < nHeight (st b) \<and> mt < GetMedianTimePast st p \<and> list_all (\<lambda>(i, ch). sequence_mature st b i ch) ihs)"
  using assms(4)
proof (induction ihs arbitrary: mh mt)
  case Nil
  then show ?case by simp
next
  case (Cons ih ihs)
  obtain i ch where ih: "ih = (i, ch)" by fastforce
  obtain h1 mh1 mt1 where one: "sequence_lock st b i ch (mh, mt) = Inr (h1, mh1, mt1)"
      "mh1 < nHeight (st b) \<and> mt1 < GetMedianTimePast st p \<longleftrightarrow>
        mh < nHeight (st b) \<and> mt < GetMedianTimePast st p \<and> sequence_mature st b i ch"
    using sequence_lock_mature [OF assms(1-3), of ch i mh mt] Cons.prems by (auto simp: ih)
  obtain hs mh' mt' where rest: "sequence_locks st b ihs (mh1, mt1) = Inr (hs, mh', mt')"
      "mh' < nHeight (st b) \<and> mt' < GetMedianTimePast st p \<longleftrightarrow>
        mh1 < nHeight (st b) \<and> mt1 < GetMedianTimePast st p \<and> list_all (\<lambda>(i, ch). sequence_mature st b i ch) ihs"
    using Cons.IH [of mh1 mt1] Cons.prems by fastforce
  show ?case using one rest by (auto simp: ih)
qed

lemma SequenceLocks_iff:
  assumes "wf_index V st" "b \<in> V" "pprev (st b) = Some p" "tx_nVersion tx \<ge> 2" "flags AND LOCKTIME_VERIFY_SEQUENCE \<noteq> 0"
    "length hs = length (tx_vin tx)" "list_all (\<lambda>h. 0 \<le> h \<and> h \<le> nHeight (st b)) hs"
  shows "SequenceLocks st tx flags hs b = Inr (list_all (\<lambda>(i, h). sequence_mature st b i h) (zip (tx_vin tx) hs))"
proof -
  have "list_all (\<lambda>ih. 0 \<le> snd ih \<and> snd ih \<le> nHeight (st b)) (zip (tx_vin tx) hs)"
    using assms(7) by (auto simp: list_all_iff dest: set_zip_rightD)
  then obtain hs' mh mt where run: "sequence_locks st b (zip (tx_vin tx) hs) (- 1, - 1) = Inr (hs', mh, mt)"
      "mh < nHeight (st b) \<and> mt < GetMedianTimePast st p \<longleftrightarrow>
        - 1 < nHeight (st b) \<and> - 1 < GetMedianTimePast st p \<and> list_all (\<lambda>(i, h). sequence_mature st b i h) (zip (tx_vin tx) hs)"
    using sequence_locks_mature [OF assms(1-3)] by blast
  have "- 1 < nHeight (st b)" "- 1 < GetMedianTimePast st p"
    using wf_index_parent(1) [OF assms(1,2)] GetMedianTimePast_nonneg [of st p] by auto
  with run assms(3-6) show ?thesis
    by (auto simp: SequenceLocks_def CalculateSequenceLocks_def EvaluateSequenceLocks_def not_le)
qed

text \<open>
  Relative lock times: in a block on a well-formed tree, for coins from blocks not above it, the
  computation of the largest lock and its comparison with the block agree with BIP 68 for every input.
\<close>

theorem SequenceLocks_iff_bip68:
  assumes "wf_index V st" "b \<in> V" "pprev (st b) = Some p" "tx_nVersion tx \<ge> 2" "flags AND LOCKTIME_VERIFY_SEQUENCE \<noteq> 0"
    "length hs = length (tx_vin tx)" "list_all (\<lambda>h. 0 \<le> h \<and> h \<le> nHeight (st b)) hs"
  shows "SequenceLocks st tx flags hs b = Inr (list_all (\<lambda>(i, h). sequence_mature st b i h) (zip (tx_vin tx) hs))"
  using SequenceLocks_iff [OF assms] .

lemma and_exp_cases: "(x :: int) AND 2 ^ k = (if x AND 2 ^ k \<noteq> 0 then 2 ^ k else 0)"
  by (rule bit_eqI) (auto simp: bit_simps and_exp_eq_0_iff_not_bit)

lemma and_exp_take_bit: "l \<le> k \<Longrightarrow> ((x :: int) AND 2 ^ k) AND take_bit l x = 0"
  by (rule bit_eqI) (auto simp: bit_simps)

text \<open>The fields of a sequence number that a relative lock uses.\<close>

lemma sequence_fields:
  fixes x :: int
  shows "x AND (SEQUENCE_LOCKTIME_TYPE_FLAG OR SEQUENCE_LOCKTIME_MASK) =
      (if x AND SEQUENCE_LOCKTIME_TYPE_FLAG \<noteq> 0 then 2 ^ 22 else 0) + (x AND SEQUENCE_LOCKTIME_MASK)"
    and "0 \<le> x AND SEQUENCE_LOCKTIME_MASK" and "x AND SEQUENCE_LOCKTIME_MASK < 2 ^ 16"
proof -
  have m: "x AND SEQUENCE_LOCKTIME_MASK = take_bit 16 x"
    by (simp add: SEQUENCE_LOCKTIME_MASK_def take_bit_eq_mask mask_eq_exp_minus_1)
  then show "0 \<le> x AND SEQUENCE_LOCKTIME_MASK" "x AND SEQUENCE_LOCKTIME_MASK < 2 ^ 16"
    using take_bit_int_less_exp [of 16 x] by simp_all
  have f: "x AND SEQUENCE_LOCKTIME_TYPE_FLAG = (if x AND SEQUENCE_LOCKTIME_TYPE_FLAG \<noteq> 0 then 2 ^ 22 else 0)"
    unfolding SEQUENCE_LOCKTIME_TYPE_FLAG_def by (rule and_exp_cases)
  have "(x AND SEQUENCE_LOCKTIME_TYPE_FLAG) AND (x AND SEQUENCE_LOCKTIME_MASK) = 0"
    unfolding m SEQUENCE_LOCKTIME_TYPE_FLAG_def by (rule and_exp_take_bit) simp
  then have "(x AND SEQUENCE_LOCKTIME_TYPE_FLAG) OR (x AND SEQUENCE_LOCKTIME_MASK) =
      (x AND SEQUENCE_LOCKTIME_TYPE_FLAG) + (x AND SEQUENCE_LOCKTIME_MASK)" by (rule disjunctive_add_eq_or [symmetric])
  then show "x AND (SEQUENCE_LOCKTIME_TYPE_FLAG OR SEQUENCE_LOCKTIME_MASK) =
      (if x AND SEQUENCE_LOCKTIME_TYPE_FLAG \<noteq> 0 then 2 ^ 22 else 0) + (x AND SEQUENCE_LOCKTIME_MASK)"
    using f by (simp add: bit.conj_disj_distrib)
qed

text \<open>
  C13. Together, the sequence operation of scripts (BIP 112) and the relative lock times enforce the operand:
  the coins that the input spends are at least as many blocks, or as many steps of 512 seconds, old.
\<close>

theorem relative_lock_enforced:
  assumes "wf_index V st" "b \<in> V" "pprev (st b) = Some p" "flags AND LOCKTIME_VERIFY_SEQUENCE \<noteq> 0"
    "length hs = length (tx_vin tx)" "list_all (\<lambda>h. 0 \<le> h \<and> h \<le> nHeight (st b)) hs" "nIn < length (tx_vin tx)"
    "CheckSequence (TransactionSignatureChecker env Verify tx nIn amount txdata) n" "SequenceLocks st tx flags hs b = Inr True"
  shows "if n AND SEQUENCE_LOCKTIME_TYPE_FLAG = 0
    then hs ! nIn + (n AND SEQUENCE_LOCKTIME_MASK) \<le> nHeight (st b)
    else \<exists>q. GetAncestor st b (max (hs ! nIn - 1) 0) = Some (Some q) \<and>
      GetMedianTimePast st q + (n AND SEQUENCE_LOCKTIME_MASK) * 512 \<le> GetMedianTimePast st p"
proof -
  define x where "x = uint (in_nSequence (tx_vin tx ! nIn))"
  have seq: "tx_nVersion tx \<ge> 2" "x AND SEQUENCE_LOCKTIME_DISABLE_FLAG = 0"
    and rel: "x AND (SEQUENCE_LOCKTIME_TYPE_FLAG OR SEQUENCE_LOCKTIME_MASK) < SEQUENCE_LOCKTIME_TYPE_FLAG \<longleftrightarrow>
        n AND (SEQUENCE_LOCKTIME_TYPE_FLAG OR SEQUENCE_LOCKTIME_MASK) < SEQUENCE_LOCKTIME_TYPE_FLAG"
      "n AND (SEQUENCE_LOCKTIME_TYPE_FLAG OR SEQUENCE_LOCKTIME_MASK) \<le> x AND (SEQUENCE_LOCKTIME_TYPE_FLAG OR SEQUENCE_LOCKTIME_MASK)"
    using assms(8) by (auto simp: TransactionSignatureChecker_def checker_CheckSequence_def Let_def x_def split: if_splits)
  have kind: "x AND SEQUENCE_LOCKTIME_TYPE_FLAG = 0 \<longleftrightarrow> n AND SEQUENCE_LOCKTIME_TYPE_FLAG = 0"
    and le: "n AND SEQUENCE_LOCKTIME_MASK \<le> x AND SEQUENCE_LOCKTIME_MASK"
    using rel sequence_fields [of x] sequence_fields [of n]
    by (auto simp: SEQUENCE_LOCKTIME_TYPE_FLAG_def split: if_splits)
  have "list_all (\<lambda>(i, h). sequence_mature st b i h) (zip (tx_vin tx) hs)"
    using SequenceLocks_iff [OF assms(1-3) seq(1) assms(4-6)] assms(9) by simp
  then have "sequence_mature st b (tx_vin tx ! nIn) (hs ! nIn)"
    using assms(5,7) by (auto simp: list_all_length)
  moreover have "0 \<le> max (hs ! nIn - 1) 0 \<and> max (hs ! nIn - 1) 0 \<le> nHeight (st b)"
    using assms(5-7) by (auto simp: list_all_length)
  then obtain q where "GetAncestor st b (max (hs ! nIn - 1) 0) = Some (Some q)"
    using GetAncestor_height [OF assms(1,2)] by blast
  ultimately show ?thesis using seq(2) kind le assms(3) by (auto simp: sequence_mature_def Let_def x_def)
qed

section \<open>Subsidy\<close>

lemma subsidy_value:
  assumes "0 \<le> h" "0 < nSubsidyHalvingInterval params"
  shows "sint (GetBlockSubsidy h params) = 5500000000 div 2 ^ nat (h div nSubsidyHalvingInterval params)"
proof -
  define k where "k = h div nSubsidyHalvingInterval params"
  have k: "h sdiv nSubsidyHalvingInterval params = k" "0 \<le> k"
    using assms by (simp_all add: k_def sdiv_nonneg pos_imp_zdiv_nonneg_iff)
  have c: "sint (55 * of_int COIN :: CAmount) = 5500000000"
    using sint_amount [of 5500000000] by (simp add: COIN_def)
  show ?thesis
  proof (cases "k \<ge> 64")
    case True
    then have "(2 :: int) ^ 64 \<le> 2 ^ nat k" by (intro power_increasing) auto
    then have "(5500000000 :: int) div 2 ^ nat k = 0" by simp
    with True show ?thesis by (simp add: GetBlockSubsidy_def k flip: k_def)
  next
    case False
    then show ?thesis by (simp add: GetBlockSubsidy_def k c sint_signed_drop_bit_eq drop_bit_eq_div flip: k_def)
  qed
qed

text \<open>
  C14. The subsidy of the main network halves every 840000 blocks, from 55 coins to nothing, and the
  subsidies of the first four periods alone exceed the largest valid amount.
\<close>

theorem main_subsidy:
  "sint (GetBlockSubsidy (int n) main_params) = 5500000000 div 2 ^ (n div 840000) \<and>
    MAX_MONEY < (\<Sum>k<4 * 840000. sint (GetBlockSubsidy (int k) main_params))"
proof -
  have interval: "nSubsidyHalvingInterval main_params = 840000" by (simp add: main_params_def)
  have v: "sint (GetBlockSubsidy (int k) main_params) = 5500000000 div 2 ^ (k div 840000)" for k
    using subsidy_value [of "int k" main_params] interval by (simp add: nat_div_distrib)
  have four: "(4 :: nat) = Suc (Suc (Suc (Suc 0)))" by simp
  have period: "(\<Sum>k = i * 840000 ..< i * 840000 + 840000. (5500000000 :: int) div 2 ^ (k div 840000)) = 840000 * (5500000000 div 2 ^ i)" for i
  proof -
    have "k div 840000 = i" if "k \<in> {i * 840000 ..< i * 840000 + 840000}" for k using that by (auto intro!: div_nat_eqI)
    then have "(\<Sum>k = i * 840000 ..< i * 840000 + 840000. (5500000000 :: int) div 2 ^ (k div 840000)) =
        (\<Sum>k = i * 840000 ..< i * 840000 + 840000. 5500000000 div 2 ^ i)" by (intro sum.cong) auto
    then show ?thesis by simp
  qed
  have "(\<Sum>k<4 * 840000. sint (GetBlockSubsidy (int k) main_params)) = (\<Sum>i<4. 840000 * (5500000000 div 2 ^ i))"
    unfolding v using sum.nat_group [of "\<lambda>k. (5500000000 :: int) div 2 ^ (k div 840000)" 840000 4] by (simp only: period)
  also have "\<dots> = 8662500000000000" unfolding four sum.lessThan_Suc by simp
  finally show ?thesis using v by (simp add: MAX_MONEY_def COIN_def)
qed

section \<open>Inputs used twice\<close>

lemma no_null_checked: "CheckTransaction tx dup = Inr () \<Longrightarrow> no_null tx"
  by (auto simp: CheckTransaction_eq no_null_def list_all_iff CTxOut_IsNull_def)

text \<open>
  C10. Take any transaction that passes all its checks against the coins, and let it name one of its inputs
  once more.  As long as its size and the amounts stay in range, the result still passes both the checks of
  its form, as blocks make them, and the checks of its inputs against the coins; only the memory pool's
  variant of the first refuses it.  Updating the coins for it then stops the program at an assertion.
\<close>

theorem duplicate_inputs_stop:
  assumes "good_view v" "0 < h" "h < 2 ^ 31" "\<not> IsCoinBase tx"
    and "CheckTransaction tx True = Inr ()" "CheckTxInputs tx v h = Inr v'" "i \<in> set (tx_vin tx)"
    and "length (SerializeTransaction False (repeat_input tx i)) \<le> 1000000"
    and "(\<Sum>i\<leftarrow>tx_vin tx. coin_value v i) + coin_value v i \<le> MAX_MONEY"
    and "coins_of v (GetHash env (repeat_input tx i)) = None"
  shows "CheckTransaction (repeat_input tx i) False = Inr () \<and> (\<exists>v''. CheckTxInputs (repeat_input tx i) v h = Inr v'' \<and> same_view v v'') \<and>
    CheckTransaction (repeat_input tx i) True = Inl (TxReject 100 ''bad-txns-inputs-duplicate'') \<and>
    UpdateCoins env (repeat_input tx i) v h = Inl CoinsAssert"
proof -
  let ?d = "repeat_input tx i"
  have d: "tx_vin ?d = tx_vin tx @ [i]" "tx_vout ?d = tx_vout tx" by (simp_all add: repeat_input_def)
  have cb: "\<not> IsCoinBase ?d" using assms(7) by (auto simp: IsCoinBase_def d)
  have v: "view_ok v" using assms(1) by (cases v) (auto simp: good_view_def ready_def)
  have checked: "CheckTransaction ?d False = Inr ()"
    using assms(4,5,7,8) cb by (auto simp: CheckTransaction_eq d list_all_iff)
  have "list_all (\<lambda>i. utxo v (in_prevout i) \<noteq> None \<and> mature v h i \<and> 0 \<le> coin_value v i) (tx_vin tx)"
    "\<exists>nout. GetValueOut tx = Some nout \<and> sint nout \<le> (\<Sum>i\<leftarrow>tx_vin tx. coin_value v i)"
    using CheckTxInputs_eq [OF v assms(4), of h] assms(6) by auto
  then have inputs: "\<exists>v''. CheckTxInputs ?d v h = Inr v''"
    using CheckTxInputs_eq [OF v cb, of h] assms(7,9) by (fastforce simp: d GetValueOut_def list_all_iff)
  then have "\<exists>v''. CheckTxInputs ?d v h = Inr v'' \<and> same_view v v''" using CheckTxInputs_facts [OF v cb] by blast
  moreover have dup: "\<not> distinct (map in_prevout (tx_vin ?d))" using assms(7) by (auto simp: d)
  then have "CheckTransaction ?d True = Inl (TxReject 100 ''bad-txns-inputs-duplicate'')"
    using checked by (auto simp: CheckTransaction_def insert_prevouts_iff ebind_Inr_iff split: if_splits)
  moreover have "UpdateCoins env ?d v h = Inl CoinsAssert"
    using UpdateCoins_correct [OF assms(1) no_null_checked [OF checked] assms(2,3,10)] dup cb by (simp add: spendable_inputs_def tx_inputs_def)
  ultimately show ?thesis using checked by blast
qed

text \<open>Examples.\<close>

lemma demo_sizes: "length (SerializeTransaction False demo_spend) \<le> 1000000" "length (SerializeTransaction False demo_double) \<le> 1000000"
  by (simp_all add: SerializeTransaction_def Let_def demo_double_def repeat_input_def demo_spend_def ser_writedata32_def ser_writedata64_def
    Serialize_vec_def Serialize_CTxIn_def Serialize_CTxOut_def Serialize_COutPoint_def Serialize_bytes_def WriteCompactSize_def ser_writedata8_def)

lemma demo_spend_checked: "CheckTransaction demo_spend True = Inr ()"
proof -
  have "list_all (\<lambda>t. 0 \<le> sint (out_nValue t)) (tx_vout demo_spend)" "(\<Sum>t\<leftarrow>tx_vout demo_spend. sint (out_nValue t)) \<le> MAX_MONEY"
    "\<not> IsCoinBase demo_spend" "list_all (\<lambda>i. \<not> COutPoint_IsNull (in_prevout i)) (tx_vin demo_spend)" by code_simp+
  with demo_sizes(1) show ?thesis by (simp add: CheckTransaction_eq) (simp add: demo_spend_def)
qed

lemma duplicate_inputs_stop_witness:
  "CheckTransaction demo_double False = Inr () \<and> CheckTransaction demo_double True = Inl (TxReject 100 ''bad-txns-inputs-duplicate'') \<and>
    UpdateCoins plain_env demo_double demo_cache 5 = Inl CoinsAssert"
proof -
  have "case CheckTxInputs demo_spend demo_cache 5 of Inl _ \<Rightarrow> False | Inr _ \<Rightarrow> True" by code_simp
  then obtain v' where v': "CheckTxInputs demo_spend demo_cache 5 = Inr v'" by (cases "CheckTxInputs demo_spend demo_cache 5") auto
  have cb: "\<not> IsCoinBase demo_spend" by code_simp
  have i: "hd (tx_vin demo_spend) \<in> set (tx_vin demo_spend)" by (simp add: demo_spend_def)
  have "coin_value demo_cache (hd (tx_vin demo_spend)) = 7" by code_simp
  then have m: "(\<Sum>i\<leftarrow>tx_vin demo_spend. coin_value demo_cache i) + coin_value demo_cache (hd (tx_vin demo_spend)) \<le> MAX_MONEY"
    by (simp add: demo_spend_def MAX_MONEY_def COIN_def)
  from duplicate_inputs_stop [OF good_demo_cache _ _ cb demo_spend_checked v' i _ m demo_absent] demo_sizes(2) show ?thesis
    by (simp add: demo_double_def)
qed

lemma CheckTxInputs_sound_witness:
  "\<exists>v'. CheckTxInputs demo_spend demo_cache 5 = Inr v' \<and> same_view demo_cache v' \<and>
    (\<Sum>t\<leftarrow>tx_vout demo_spend. sint (out_nValue t)) \<le> (\<Sum>i\<leftarrow>tx_vin demo_spend. coin_value demo_cache i)"
proof -
  have "case CheckTxInputs demo_spend demo_cache 5 of Inl _ \<Rightarrow> False | Inr _ \<Rightarrow> True" by code_simp
  then obtain v' where v': "CheckTxInputs demo_spend demo_cache 5 = Inr v'" by (cases "CheckTxInputs demo_spend demo_cache 5") auto
  have "view_ok demo_cache" by (simp add: demo_cache_def demo_db_read)
  moreover have "\<not> IsCoinBase demo_spend" by code_simp
  ultimately
  show ?thesis using CheckTxInputs_sound [of demo_cache demo_spend 5 v'] v' by blast
qed

lemma lock_time_enforced_witness:
  "CheckLockTime (TransactionSignatureChecker plain_env (\<lambda>_ _ _. True) demo_tx 0 0 None) 40 \<and> IsFinalTx demo_tx 51 0 \<and> (40 :: int) < 51"
proof -
  have c: "CheckLockTime (TransactionSignatureChecker plain_env (\<lambda>_ _ _. True) demo_tx 0 0 None) 40" "IsFinalTx demo_tx 51 0" by code_simp+
  have "0 < length (tx_vin demo_tx)" by (simp add: demo_tx_def)
  from lock_time_enforced [OF this _ _ c] c show ?thesis by (simp add: LOCKTIME_THRESHOLD_def)
qed

lemma demo_sequence:
  "pprev (line_store 20) = Some 19" "tx_nVersion demo_tx \<ge> 2" "1 AND LOCKTIME_VERIFY_SEQUENCE \<noteq> 0" "length [3 :: int] = length (tx_vin demo_tx)"
  "list_all (\<lambda>h. 0 \<le> h \<and> h \<le> nHeight (line_store 20)) [3]" "0 < length (tx_vin demo_tx)"
  "list_all (\<lambda>(i, h). sequence_mature line_store 20 i h) (zip (tx_vin demo_tx) [3])"
  by (simp_all add: line_store_def demo_tx_def LOCKTIME_VERIFY_SEQUENCE_def sequence_mature_def
    SEQUENCE_LOCKTIME_DISABLE_FLAG_def SEQUENCE_LOCKTIME_TYPE_FLAG_def SEQUENCE_LOCKTIME_MASK_def)

lemma SequenceLocks_iff_bip68_witness: "SequenceLocks line_store demo_tx 1 [3] 20 = Inr True"
  using SequenceLocks_iff_bip68 [OF wf_line_store UNIV_I demo_sequence(1-5)] demo_sequence(7) by simp

lemma relative_lock_enforced_witness:
  "CheckSequence (TransactionSignatureChecker plain_env (\<lambda>_ _ _. True) demo_tx 0 0 None) 8 \<and> 3 + (8 AND SEQUENCE_LOCKTIME_MASK) \<le> nHeight (line_store 20)"
proof -
  have c: "CheckSequence (TransactionSignatureChecker plain_env (\<lambda>_ _ _. True) demo_tx 0 0 None) 8" by code_simp
  have l: "SequenceLocks line_store demo_tx 1 [3] 20 = Inr True"
    using SequenceLocks_iff [OF wf_line_store UNIV_I demo_sequence(1-5)] demo_sequence(7) by simp
  from relative_lock_enforced [OF wf_line_store UNIV_I demo_sequence(1,3-6) c l] c show ?thesis
    by (simp add: SEQUENCE_LOCKTIME_TYPE_FLAG_def)
qed

end
