(* ===== verification/ConnectBlock.thy ===== *)
theory ConnectBlock
  imports TxVerify Interpreter_Softfork
begin

text \<open>
  Connecting a block, \<open>ConnectBlock\<close> of \<^verbatim>\<open>sige/src/validation.cpp\<close> with the checks it makes of each
  transaction: the inputs, relative lock times, signature operations, amounts and scripts, the update
  of the coins and the amount of the coinbase.  Scripts are checked in place, as with no script-checking
  threads; times, logs, the writing of undo data to disk and the indexes are left out.
\<close>

section \<open>Definitions\<close>

text \<open>The script flags of a block, from the consensus parameters and the state of the deployments.\<close>

definition block_script_flags :: "Params \<Rightarrow> int \<Rightarrow> int \<Rightarrow> bool \<Rightarrow> bool \<Rightarrow> u32" where
  "block_script_flags params nBlockTime nBlockHeight csv_active witness_enabled =
    (let flags = (if nBlockTime \<ge> 1333238400 then SCRIPT_VERIFY_P2SH else 0);
         flags = (if nBlockHeight \<ge> BIP66Height params then flags OR SCRIPT_VERIFY_DERSIG else flags);
         flags = (if nBlockHeight \<ge> BIP65Height params then flags OR SCRIPT_VERIFY_CHECKLOCKTIMEVERIFY else flags);
         flags = (if csv_active then flags OR SCRIPT_VERIFY_CHECKSEQUENCEVERIFY else flags)
     in if witness_enabled then (flags OR SCRIPT_VERIFY_WITNESS) OR SCRIPT_VERIFY_NULLDUMMY else flags)"

definition block_lock_flags :: "bool \<Rightarrow> u32" where
  "block_lock_flags csv_active = (if csv_active then LOCKTIME_VERIFY_SEQUENCE else 0)"

text \<open>
  What the checks of a block use beside the block and the view: the hash functions and the
  verification of signatures, the block index, and the values \<open>ConnectBlock\<close> computes before its loop.
\<close>

record block_context =
  bc_env :: script_env
  bc_Verify :: "bytes \<Rightarrow> bytes \<Rightarrow> bytes \<Rightarrow> bool"
  bc_mapBlockIndex :: "bytes \<Rightarrow> ptr option"
  bc_store :: store
  bc_pindex :: ptr
  bc_params :: Params
  bc_hashBlock :: bytes
  bc_hashPrevBlock :: bytes
  bc_isGenesis :: bool
  bc_fEnforceBIP30 :: bool
  bc_fScriptChecks :: bool
  bc_flags :: u32
  bc_nLockTimeFlags :: u32

definition GetSpendHeight :: "block_context \<Rightarrow> CCoinsView \<Rightarrow> tx_error + int \<times> CCoinsView" where
  "GetSpendHeight bc v =
    (case CoinsView_GetBestBlock v of (best, v) \<Rightarrow>
     case bc_mapBlockIndex bc best of None \<Rightarrow> Inl TxAbort | Some pindexPrev \<Rightarrow> Inr (nHeight (bc_store bc pindexPrev) + 1, v))"

definition STANDARD_NOT_MANDATORY_VERIFY_FLAGS :: u32 where
  "STANDARD_NOT_MANDATORY_VERIFY_FLAGS = STANDARD_SCRIPT_VERIFY_FLAGS AND NOT MANDATORY_SCRIPT_VERIFY_FLAGS"

definition CScriptCheck :: "block_context \<Rightarrow> CTransaction \<Rightarrow> nat \<Rightarrow> PrecomputedTransactionData \<Rightarrow> CTxOut \<Rightarrow> u32 \<Rightarrow> script_fail + unit" where
  "CScriptCheck bc tx nIn txdata out nFlags =
    VerifyScript (bc_env bc) (TransactionSignatureChecker (bc_env bc) (bc_Verify bc) tx nIn (out_nValue out) (Some txdata)) nFlags
      (in_scriptSig (tx_vin tx ! nIn)) (out_scriptPubKey out) (Some (in_scriptWitness (tx_vin tx ! nIn)))"

primrec check_scripts :: "block_context \<Rightarrow> CTransaction \<Rightarrow> u32 \<Rightarrow> PrecomputedTransactionData \<Rightarrow> nat list \<Rightarrow> CCoinsView \<Rightarrow> tx_error + CCoinsView" where
  "check_scripts bc tx flags txdata [] v = Inr v"
| "check_scripts bc tx flags txdata (i # is) v =
    (case GetCoins v (po_hash (in_prevout (tx_vin tx ! i))) of
       (None, v) \<Rightarrow> Inl TxAbort
     | (Some coins, v) \<Rightarrow>
         if unat (po_n (in_prevout (tx_vin tx ! i))) \<ge> length (cc_vout coins) then Inl TxAbort
         else let out = cc_vout coins ! unat (po_n (in_prevout (tx_vin tx ! i))) in
         (case CScriptCheck bc tx i txdata out flags of
            Inr _ \<Rightarrow> check_scripts bc tx flags txdata is v
          | Inl Aborts \<Rightarrow> Inl TxAbort
          | Inl (Fails _) \<Rightarrow>
              if flag flags STANDARD_NOT_MANDATORY_VERIFY_FLAGS
              then case CScriptCheck bc tx i txdata out (flags AND NOT STANDARD_NOT_MANDATORY_VERIFY_FLAGS) of
                     Inr _ \<Rightarrow> Inl (TxReject 0 ''non-mandatory-script-verify-flag'')
                   | Inl Aborts \<Rightarrow> Inl TxAbort
                   | Inl (Fails _) \<Rightarrow> Inl (TxReject 100 ''mandatory-script-verify-flag-failed'')
              else Inl (TxReject 100 ''mandatory-script-verify-flag-failed'')))"

definition CheckInputs :: "block_context \<Rightarrow> CTransaction \<Rightarrow> CCoinsView \<Rightarrow> bool \<Rightarrow> u32 \<Rightarrow> PrecomputedTransactionData \<Rightarrow> tx_error + CCoinsView" where
  "CheckInputs bc tx v fScriptChecks flags txdata =
    (if \<not> IsCoinBase tx
     then ebind (GetSpendHeight bc v) (\<lambda>(nSpendHeight, v).
            ebind (CheckTxInputs tx v nSpendHeight) (\<lambda>v.
              if fScriptChecks then check_scripts bc tx flags txdata [0..<length (tx_vin tx)] v else Inr v))
     else Inr v)"

primrec prev_heights :: "CTxIn list \<Rightarrow> CCoinsView \<Rightarrow> tx_error + int list \<times> CCoinsView" where
  "prev_heights [] v = Inr ([], v)"
| "prev_heights (i # vin) v =
    (case GetCoins v (po_hash (in_prevout i)) of
       (None, v) \<Rightarrow> Inl TxAbort
     | (Some coins, v) \<Rightarrow> ebind (prev_heights vin v) (\<lambda>(hs, v). Inr (cc_nHeight coins # hs, v)))"

definition MAX_BLOCK_SIGOPS_COST :: int where "MAX_BLOCK_SIGOPS_COST = 80000"

text \<open>The loop over the transactions: the view, the fees and the cost of signature operations.\<close>

definition check_locks :: "block_context \<Rightarrow> CTransaction \<Rightarrow> CCoinsView \<Rightarrow> tx_error + CCoinsView" where
  "check_locks bc tx v =
    (if \<not> IsCoinBase tx
     then case HaveInputs v tx of (have, v) \<Rightarrow>
            if \<not> have then Inl (TxReject 100 ''bad-txns-inputs-missingorspent'')
            else ebind (prev_heights (tx_vin tx) v) (\<lambda>(prevheights, v).
                   ebind (SequenceLocks (bc_store bc) tx (bc_nLockTimeFlags bc) prevheights (bc_pindex bc)) (\<lambda>ok.
                     if \<not> ok then Inl (TxReject 100 ''bad-txns-nonfinal'') else Inr v))
     else Inr v)"

definition check_fees :: "block_context \<Rightarrow> CTransaction \<Rightarrow> CCoinsView \<Rightarrow> CAmount \<Rightarrow> tx_error + CAmount \<times> CCoinsView" where
  "check_fees bc tx v nFees =
    (if \<not> IsCoinBase tx
     then ebind (coins_result (GetValueIn v tx)) (\<lambda>(nValueIn, v).
            case GetValueOut tx of
              None \<Rightarrow> Inl TxThrow
            | Some nValueOut \<Rightarrow>
                ebind (CheckInputs bc tx v (bc_fScriptChecks bc) (bc_flags bc) (make_PrecomputedTransactionData (bc_env bc) tx)) (\<lambda>v.
                  Inr (nFees + (nValueIn - nValueOut), v)))
     else Inr (nFees, v))"

definition connect_tx :: "block_context \<Rightarrow> CTransaction \<Rightarrow> CCoinsView \<Rightarrow> CAmount \<Rightarrow> int \<Rightarrow> tx_error + CTxInUndo list \<times> CCoinsView \<times> CAmount \<times> int" where
  "connect_tx bc tx v nFees nSigOpsCost =
    ebind (check_locks bc tx v) (\<lambda>v.
      ebind (GetTransactionSigOpCost tx v (bc_flags bc)) (\<lambda>(cost, v).
        let nSigOpsCost = nSigOpsCost + cost in
        if nSigOpsCost > MAX_BLOCK_SIGOPS_COST then Inl (TxReject 100 ''bad-blk-sigops'')
        else ebind (check_fees bc tx v nFees) (\<lambda>(nFees, v).
               ebind (coins_result (UpdateCoins (bc_env bc) tx v (nHeight (bc_store bc (bc_pindex bc))))) (\<lambda>(undo, v).
                 Inr (undo, v, nFees, nSigOpsCost)))))"

primrec connect_txs :: "block_context \<Rightarrow> CTransaction list \<Rightarrow> CCoinsView \<Rightarrow> CAmount \<Rightarrow> int \<Rightarrow> tx_error + CTxInUndo list list \<times> CCoinsView \<times> CAmount \<times> int" where
  "connect_txs bc [] v nFees nSigOpsCost = Inr ([], v, nFees, nSigOpsCost)"
| "connect_txs bc (tx # vtx) v nFees nSigOpsCost =
    ebind (connect_tx bc tx v nFees nSigOpsCost) (\<lambda>(undo, v, nFees, nSigOpsCost).
      ebind (connect_txs bc vtx v nFees nSigOpsCost) (\<lambda>(undos, r). Inr (undo # undos, r)))"

primrec check_bip30 :: "script_env \<Rightarrow> CTransaction list \<Rightarrow> CCoinsView \<Rightarrow> tx_error + CCoinsView" where
  "check_bip30 env [] v = Inr v"
| "check_bip30 env (tx # vtx) v =
    (case GetCoins v (GetHash env tx) of (r, v) \<Rightarrow>
     if (case r of None \<Rightarrow> False | Some coins \<Rightarrow> \<not> IsPruned coins) then Inl (TxReject 100 ''bad-txns-BIP30'')
     else check_bip30 env vtx v)"

text \<open>
  The checks of \<open>CheckBlock\<close> on the transactions; the header and the Merkle root are checked before
  them.  A block is its header of 80 bytes and its transactions.
\<close>

definition block_base_size :: "CTransaction list \<Rightarrow> nat" where
  "block_base_size vtx = 80 + length (Serialize_vec (SerializeTransaction False) vtx)"

primrec check_transactions :: "CTransaction list \<Rightarrow> tx_error + unit" where
  "check_transactions [] = Inr ()"
| "check_transactions (tx # vtx) = ebind (CheckTransaction tx False) (\<lambda>_. check_transactions vtx)"

primrec legacy_sig_ops :: "CTransaction list \<Rightarrow> int \<Rightarrow> tx_error + int" where
  "legacy_sig_ops [] nSigOps = Inr nSigOps"
| "legacy_sig_ops (tx # vtx) nSigOps = ebind (GetLegacySigOpCount tx) (\<lambda>k. legacy_sig_ops vtx (nSigOps + k))"

definition CheckBlock :: "CTransaction list \<Rightarrow> tx_error + unit" where
  "CheckBlock vtx =
    (if vtx = [] \<or> int (length vtx) > MAX_BLOCK_BASE_SIZE \<or> int (block_base_size vtx) > MAX_BLOCK_BASE_SIZE then Inl (TxReject 100 ''bad-blk-length'')
     else if vtx = [] \<or> \<not> IsCoinBase (hd vtx) then Inl (TxReject 100 ''bad-cb-missing'')
     else if \<not> list_all (\<lambda>tx. \<not> IsCoinBase tx) (tl vtx) then Inl (TxReject 100 ''bad-cb-multiple'')
     else ebind (check_transactions vtx) (\<lambda>_.
       ebind (legacy_sig_ops vtx 0) (\<lambda>nSigOps.
         if nSigOps * int WITNESS_SCALE_FACTOR > MAX_BLOCK_SIGOPS_COST then Inl (TxReject 100 ''bad-blk-sigops'') else Inr ())))"

definition ConnectBlock :: "block_context \<Rightarrow> CTransaction list \<Rightarrow> CCoinsView \<Rightarrow> bool \<Rightarrow> tx_error + CTxInUndo list list \<times> CCoinsView" where
  "ConnectBlock bc vtx v fJustCheck =
    ebind (CheckBlock vtx) (\<lambda>_.
      case CoinsView_GetBestBlock v of (best, v) \<Rightarrow>
      if bc_hashPrevBlock bc \<noteq> best then Inl TxAbort
      else if bc_isGenesis bc then Inr ([], if fJustCheck then v else SetBestBlock v (bc_hashBlock bc))
      else ebind (if bc_fEnforceBIP30 bc then check_bip30 (bc_env bc) vtx v else Inr v) (\<lambda>v.
        ebind (connect_txs bc vtx v 0 0) (\<lambda>(undos, v, nFees, nSigOpsCost).
          let blockReward = nFees + GetBlockSubsidy (nHeight (bc_store bc (bc_pindex bc))) (bc_params bc) in
          case GetValueOut (hd vtx) of
            None \<Rightarrow> Inl TxThrow
          | Some nValueOut \<Rightarrow>
              if sint nValueOut > sint blockReward then Inl (TxReject 100 ''bad-cb-amount'')
              else if fJustCheck then Inr ([], v)
              else Inr (tl undos, SetBestBlock v (bc_hashBlock bc)))))"

text \<open>The height of the block, and outputs without negative amounts, as \<open>CheckTransaction\<close> asks.\<close>

definition block_height :: "block_context \<Rightarrow> int" where
  "block_height bc = nHeight (bc_store bc (bc_pindex bc))"

definition outputs_ok :: "CTransaction \<Rightarrow> bool" where
  "outputs_ok tx \<longleftrightarrow> list_all (\<lambda>t. 0 \<le> sint (out_nValue t)) (tx_vout tx)"

text \<open>The value of all unspent outputs of a view.\<close>

definition values_ok :: "CCoinsView \<Rightarrow> bool" where
  "values_ok v \<longleftrightarrow> (\<forall>po out. utxo v po = Some out \<longrightarrow> 0 \<le> sint (out_nValue out))"

definition total_value :: "CCoinsView \<Rightarrow> int" where
  "total_value v = (\<Sum>po \<in> dom (utxo v). sint (out_nValue (the (utxo v po))))"

text \<open>A context for the examples: the block at height 20 of a chain.\<close>

definition demo_context :: block_context where
  "demo_context = \<lparr>bc_env = plain_env, bc_Verify = (\<lambda>_ _ _. False), bc_mapBlockIndex = (\<lambda>h. if h = [8] then Some 19 else None),
    bc_store = line_store, bc_pindex = 20, bc_params = main_params, bc_hashBlock = [9], bc_hashPrevBlock = [8], bc_isGenesis = False,
    bc_fEnforceBIP30 = True, bc_fScriptChecks = True, bc_flags = SCRIPT_VERIFY_P2SH, bc_nLockTimeFlags = LOCKTIME_VERIFY_SEQUENCE\<rparr>"

section \<open>The checks only read the coins\<close>

lemma coins_result_Inr [simp]: "coins_result r = Inr x \<longleftrightarrow> r = Inr x"
  by (auto simp: coins_result_def split: sum.splits coins_error.splits)

lemma same_view_ok: "same_view v v' \<Longrightarrow> view_ok v'"
  by (simp add: same_view_def)

lemma GetOutputFor_same:
  assumes "view_ok v" "GetOutputFor v i = Inr (out, v')"
  shows "same_view v v' \<and> utxo v (in_prevout i) = Some out"
  using GetOutputFor_correct [OF assms(1), of i] assms(2) by (auto split: option.splits)

lemma prev_heights_same: "view_ok v \<Longrightarrow> prev_heights vin v = Inr (hs, v') \<Longrightarrow> same_view v v'"
proof (induction vin arbitrary: v hs)
  case (Cons i vin)
  obtain r v1 where get: "GetCoins v (po_hash (in_prevout i)) = (r, v1)" by fastforce
  note g = GetCoins_utxo(1) [OF Cons.prems(1) get]
  from Cons.prems(2) obtain hs' where "prev_heights vin v1 = Inr (hs', v')"
    by (auto simp: get ebind_Inr_iff split: option.splits)
  with Cons.IH [OF same_view_ok [OF g]] same_view_trans [OF g] show ?case by blast
qed simp

lemma p2sh_sig_ops_same: "view_ok v \<Longrightarrow> p2sh_sig_ops vin n v = Inr (k, v') \<Longrightarrow> same_view v v'"
proof (induction vin arbitrary: v n)
  case (Cons i vin)
  from Cons.prems(2) obtain out v1 n' where one: "GetOutputFor v i = Inr (out, v1)" and rest: "p2sh_sig_ops vin n' v1 = Inr (k, v')"
    by (auto simp: ebind_Inr_iff split: if_splits option.splits)
  have g: "same_view v v1" using GetOutputFor_same [OF Cons.prems(1) one] by simp
  from Cons.IH [OF same_view_ok [OF g] rest] show ?case by (rule same_view_trans [OF g])
qed simp

lemma witness_sig_ops_same: "view_ok v \<Longrightarrow> witness_sig_ops flags vin n v = Inr (k, v') \<Longrightarrow> same_view v v'"
proof (induction vin arbitrary: v n)
  case (Cons i vin)
  from Cons.prems(2) obtain out v1 n' where one: "GetOutputFor v i = Inr (out, v1)" and rest: "witness_sig_ops flags vin n' v1 = Inr (k, v')"
    by (auto simp: ebind_Inr_iff split: option.splits)
  have g: "same_view v v1" using GetOutputFor_same [OF Cons.prems(1) one] by simp
  from Cons.IH [OF same_view_ok [OF g] rest] show ?case by (rule same_view_trans [OF g])
qed simp

lemma GetTransactionSigOpCost_same:
  assumes "view_ok v" "GetTransactionSigOpCost tx v flags = Inr (k, v')"
  shows "same_view v v'"
proof -
  from assms(2) consider "v' = v" | n v1 where "v1 = v \<or> (\<exists>m. p2sh_sig_ops (tx_vin tx) 0 v = Inr (m, v1))" "witness_sig_ops flags (tx_vin tx) n v1 = Inr (k, v')"
    by (auto simp: GetTransactionSigOpCost_def GetP2SHSigOpCount_def ebind_Inr_iff Let_def split: if_splits)
  then show ?thesis
  proof cases
    case 1
    with assms(1) show ?thesis by simp
  next
    case (2 n v1)
    have "same_view v v1" using 2(1) assms(1) p2sh_sig_ops_same by auto
    with witness_sig_ops_same [OF same_view_ok 2(2)] show ?thesis by (blast intro: same_view_trans)
  qed
qed

lemma check_scripts_same: "view_ok v \<Longrightarrow> check_scripts bc tx flags txdata is v = Inr v' \<Longrightarrow> same_view v v'"
proof (induction "is" arbitrary: v)
  case (Cons i js)
  obtain r v1 where get: "GetCoins v (po_hash (in_prevout (tx_vin tx ! i))) = (r, v1)" by fastforce
  note g = GetCoins_utxo(1) [OF Cons.prems(1) get]
  from Cons.prems(2) have "check_scripts bc tx flags txdata js v1 = Inr v'"
    by (auto simp: get Let_def split: option.splits if_splits sum.splits script_fail.splits)
  from Cons.IH [OF same_view_ok [OF g] this] show ?case by (rule same_view_trans [OF g])
qed simp

lemma best_same: "view_ok v \<Longrightarrow> CoinsView_GetBestBlock v = (h, v') \<Longrightarrow> same_view v v'"
  using view_of_best [of v] ready_best [of v] by (simp add: same_view_def)

lemma check_locks_same:
  assumes "view_ok v" "check_locks bc tx v = Inr v'"
  shows "same_view v v'"
proof (cases "IsCoinBase tx")
  case True
  with assms show ?thesis by (simp add: check_locks_def)
next
  case False
  obtain b v1 where hv: "HaveInputs v tx = (b, v1)" by fastforce
  from False assms(2) obtain hs where "prev_heights (tx_vin tx) v1 = Inr (hs, v')"
    by (auto simp: check_locks_def hv ebind_Inr_iff split: if_splits)
  moreover have "same_view v v1" using HaveInputs_correct [OF assms(1) hv] by simp
  ultimately show ?thesis using prev_heights_same same_view_ok same_view_trans by blast
qed

lemma sint_sum_list:
  assumes "list_all (\<lambda>t. 0 \<le> sint (f t)) ts" "(\<Sum>t\<leftarrow>ts. sint (f t)) < 2 ^ 63"
  shows "sint (\<Sum>t\<leftarrow>ts. (f t :: u64)) = (\<Sum>t\<leftarrow>ts. sint (f t))"
  using assms
proof (induction ts)
  case (Cons t ts)
  have nn: "0 \<le> (\<Sum>t\<leftarrow>ts. sint (f t))" using Cons.prems(1) by (intro sum_list_nonneg) (auto simp: list_all_iff)
  have "sint (\<Sum>t\<leftarrow>ts. f t) = (\<Sum>t\<leftarrow>ts. sint (f t))" using Cons nn by simp
  with Cons.prems nn show ?case by (simp add: sint_add_exact)
qed simp

lemma add_inputs_inputs: "view_ok v \<Longrightarrow> add_inputs vin a v = Inr (b, v') \<Longrightarrow> list_all (\<lambda>i. utxo v (in_prevout i) \<noteq> None) vin"
proof (induction vin arbitrary: v a)
  case (Cons i vin)
  from Cons.prems(2) obtain out v1 where one: "GetOutputFor v i = Inr (out, v1)" and rest: "add_inputs vin (a + out_nValue out) v1 = Inr (b, v')"
    by (auto simp: ebind_Inr_iff)
  have g: "same_view v v1" "utxo v (in_prevout i) = Some out" using GetOutputFor_same [OF Cons.prems(1) one] by simp_all
  from Cons.IH [OF same_view_ok [OF g(1)] rest] g show ?case by (simp add: same_view_utxo)
qed simp

text \<open>What the checks of the amounts of a transaction give: its fee, exactly.\<close>

lemma check_fees_facts:
  assumes v: "view_ok v" and tx: "\<not> IsCoinBase tx" and run: "check_fees bc tx v nFees = Inr (nFees', v')"
  shows "same_view v v' \<and> (\<exists>fee. nFees' = nFees + fee \<and>
    sint fee = (\<Sum>i\<leftarrow>tx_vin tx. coin_value v i) - (\<Sum>t\<leftarrow>tx_vout tx. sint (out_nValue t)) \<and> 0 \<le> sint fee \<and> sint fee \<le> MAX_MONEY)"
proof -
  obtain nin v1 nout sh v2 v3 where vi: "GetValueIn v tx = Inr (nin, v1)" and vo: "GetValueOut tx = Some nout"
      and sp: "GetSpendHeight bc v1 = Inr (sh, v2)" and ci: "CheckTxInputs tx v2 sh = Inr v3"
      and sc: "v' = v3 \<or> check_scripts bc tx (bc_flags bc) (make_PrecomputedTransactionData (bc_env bc) tx) [0..<length (tx_vin tx)] v3 = Inr v'"
      and fee: "nFees' = nFees + (nin - nout)"
    using run tx by (auto simp: check_fees_def CheckInputs_def ebind_Inr_iff split: option.splits if_splits)
  have "add_inputs (tx_vin tx) 0 v = Inr (nin, v1)" using vi tx by (simp add: GetValueIn_def)
  note ai = this add_inputs_inputs [OF v this]
  have s1: "same_view v v1" and nin: "nin = (\<Sum>i\<leftarrow>tx_vin tx. out_nValue (the (utxo v (in_prevout i))))"
    using add_inputs_correct [OF v, of "tx_vin tx" 0] ai by (auto simp: list_all_iff)
  have s2: "same_view v1 v2" using sp best_same [OF same_view_ok [OF s1]] by (auto simp: GetSpendHeight_def split: prod.splits option.splits)
  note f = CheckTxInputs_facts [OF same_view_ok [OF s2] tx ci]
  then have s3: "same_view v2 v3" by simp
  have s4: "same_view v3 v'" using sc check_scripts_same [OF same_view_ok [OF s3]] same_view_ok [OF s3] by auto
  have u: "utxo v2 = utxo v" using s1 s2 same_view_utxo by metis
  have cv: "coin_value v2 i = coin_value v i" for i by (simp add: coin_value_def u)
  have vals: "list_all (\<lambda>i. 0 \<le> coin_value v i) (tx_vin tx)" "(\<Sum>i\<leftarrow>tx_vin tx. coin_value v i) \<le> MAX_MONEY"
      "(\<Sum>t\<leftarrow>tx_vout tx. sint (out_nValue t)) \<le> (\<Sum>i\<leftarrow>tx_vin tx. coin_value v i)" "0 \<le> (\<Sum>t\<leftarrow>tx_vout tx. sint (out_nValue t))"
    using f by (auto simp: cv list_all_iff intro!: sum_list_nonneg)
  have "sint nin = (\<Sum>i\<leftarrow>tx_vin tx. coin_value v i)"
    unfolding nin coin_value_def using vals by (intro sint_sum_list) (auto simp: coin_value_def MAX_MONEY_def COIN_def)
  moreover have "sint nout = (\<Sum>t\<leftarrow>tx_vout tx. sint (out_nValue t))" using GetValueOut_exact [of tx nout] vo by simp
  ultimately have "sint (nin - nout) = (\<Sum>i\<leftarrow>tx_vin tx. coin_value v i) - (\<Sum>t\<leftarrow>tx_vout tx. sint (out_nValue t))"
    using vals by (subst sint_diff_exact) (auto simp: MAX_MONEY_def COIN_def)
  then have "sint (nin - nout) = (\<Sum>i\<leftarrow>tx_vin tx. coin_value v i) - (\<Sum>t\<leftarrow>tx_vout tx. sint (out_nValue t)) \<and>
      0 \<le> sint (nin - nout) \<and> sint (nin - nout) \<le> MAX_MONEY" using vals by linarith
  moreover have "same_view v v'" using s1 s2 s3 s4 by (blast intro: same_view_trans)
  ultimately show ?thesis using fee by blast
qed

section \<open>The value of the unspent outputs\<close>

lemma finite_coins: "finite (dom (coins_of v))"
proof (induction v)
  case (CCoinsViewDB lib db best)
  have "dom (coins_of (CCoinsViewDB lib db best)) \<subseteq> fst ` set db" by (auto simp: db_read_def dom_map_of_conv_image_fst [symmetric] split: bind_splits option.splits)
  then show ?case by (rule finite_subset) simp
next
  case (CCoinsViewCache m h md bs)
  have "dom (coins_of (CCoinsViewCache m h md bs)) \<subseteq> fst ` set m \<union> dom (coins_of bs)"
    by (auto simp: cached_def dom_map_of_conv_image_fst [symmetric] split: option.splits)
  then show ?case by (rule finite_subset) (use CCoinsViewCache in simp)
qed

lemma finite_utxo: "finite (dom (utxo v))"
proof -
  have "po \<in> (\<lambda>(h, n). \<lparr>po_hash = h, po_n = n\<rparr>) ` (dom (coins_of v) \<times> UNIV)" if "utxo v po = Some out" for po out
    using that by (cases po) (auto simp: utxo_def split: option.splits)
  then have "dom (utxo v) \<subseteq> (\<lambda>(h, n). \<lparr>po_hash = h, po_n = n\<rparr>) ` (dom (coins_of v) \<times> UNIV)" by blast
  then show ?thesis by (rule finite_subset) (simp add: finite_coins)
qed

lemma total_value_nonneg: "values_ok v \<Longrightarrow> 0 \<le> total_value v"
  unfolding total_value_def by (rule sum_nonneg) (auto simp: values_ok_def)

lemma created_sum:
  fixes C :: "COutPoint set"
  assumes "list_all (\<lambda>t. 0 \<le> sint (out_nValue t)) (tx_vout tx)" "finite C" "\<And>po. po \<in> C \<Longrightarrow> po_hash po = t \<and> created tx (unat (po_n po)) \<noteq> None"
  shows "(\<Sum>po \<in> C. sint (out_nValue (the (created tx (unat (po_n po)))))) \<le> (\<Sum>t\<leftarrow>tx_vout tx. sint (out_nValue t))"
proof -
  let ?n = "\<lambda>po. unat (po_n po)"
  have inj: "inj_on ?n C" by (rule inj_onI) (metis assms(3) outpoint_eq)
  have val: "created tx (?n po) = Some (tx_vout tx ! ?n po)" "?n po < length (tx_vout tx)" if "po \<in> C" for po
    using assms(3) [OF that] by (auto simp: created_def split: if_splits)
  have "(\<Sum>po \<in> C. sint (out_nValue (the (created tx (?n po))))) = (\<Sum>po \<in> C. sint (out_nValue (tx_vout tx ! ?n po)))"
    by (rule sum.cong) (simp_all add: val)
  also have "\<dots> = (\<Sum>k \<in> ?n ` C. sint (out_nValue (tx_vout tx ! k)))" by (simp add: sum.reindex [OF inj])
  also have "\<dots> \<le> (\<Sum>k \<in> {..<length (tx_vout tx)}. sint (out_nValue (tx_vout tx ! k)))"
    using assms(1) val(2) by (intro sum_mono2) (auto simp: list_all_length)
  also have "\<dots> = (\<Sum>t\<leftarrow>tx_vout tx. sint (out_nValue t))" by (simp add: sum_list_sum_nth atLeast0LessThan)
  finally show ?thesis .
qed

text \<open>Spending the inputs of a transaction and adding its outputs changes the value by no more than their difference.\<close>

lemma total_value_update:
  assumes outs: "list_all (\<lambda>t. 0 \<le> sint (out_nValue t)) (tx_vout tx)" and sp: "spendable_inputs v tx" and absent: "coins_of v t = None"
    and u: "utxo v' = (\<lambda>po. if po_hash po = t then created tx (unat (po_n po))
      else if po \<in> in_prevout ` set (tx_inputs tx) then None else utxo v po)"
  shows "total_value v' \<le> total_value v - (\<Sum>i\<leftarrow>tx_inputs tx. coin_value v i) + (\<Sum>t\<leftarrow>tx_vout tx. sint (out_nValue t))"
proof -
  define I where "I = in_prevout ` set (tx_inputs tx)"
  define C :: "COutPoint set" where "C = {po. po_hash po = t \<and> created tx (unat (po_n po)) \<noteq> None}"
  let ?w = "\<lambda>u po. sint (out_nValue (the (u po :: CTxOut option)))"
  have none: "utxo v po = None" if "po_hash po = t" for po using absent that by (simp add: utxo_def)
  have I: "I \<subseteq> dom (utxo v)" using sp by (auto simp: I_def spendable_inputs_def)
  have dom: "dom (utxo v') = (dom (utxo v) - I) \<union> C" using none by (auto simp: u I_def C_def split: if_splits)
  have disj: "(dom (utxo v) - I) \<inter> C = {}" using none by (auto simp: C_def)
  have fin: "finite C" using finite_utxo [of v'] by (simp add: dom)
  have "total_value v' = (\<Sum>po \<in> dom (utxo v) - I. ?w (utxo v') po) + (\<Sum>po \<in> C. ?w (utxo v') po)"
    unfolding total_value_def dom by (rule sum.union_disjoint) (use finite_utxo fin disj in auto)
  also have "(\<Sum>po \<in> dom (utxo v) - I. ?w (utxo v') po) = (\<Sum>po \<in> dom (utxo v) - I. ?w (utxo v) po)"
    using none by (intro sum.cong) (auto simp: u I_def)
  also have "\<dots> = total_value v - (\<Sum>po \<in> I. ?w (utxo v) po)"
    unfolding total_value_def by (rule sum_diff) (use finite_utxo I in auto)
  also have "(\<Sum>po \<in> I. ?w (utxo v) po) = (\<Sum>i\<leftarrow>tx_inputs tx. coin_value v i)"
    using sp by (simp add: I_def spendable_inputs_def sum.distinct_set_conv_list [of "map in_prevout (tx_inputs tx)", simplified] comp_def coin_value_def)
  also have "(\<Sum>po \<in> C. ?w (utxo v') po) = (\<Sum>po \<in> C. sint (out_nValue (the (created tx (unat (po_n po))))))"
    by (rule sum.cong) (auto simp: u C_def)
  finally show ?thesis using created_sum [OF outs fin, of t] by (simp add: C_def)
qed

section \<open>Connecting transactions\<close>

lemma same_good_view: "good_view v \<Longrightarrow> same_view v v' \<Longrightarrow> good_view v'"
  by (simp add: good_view_def same_view_def)

lemma good_view_ok: "good_view v \<Longrightarrow> view_ok v"
  by (auto simp: good_view_def elim!: ready_cases)

lemma outputs_no_null: "outputs_ok tx \<Longrightarrow> no_null tx"
  by (auto simp: outputs_ok_def no_null_def list_all_iff CTxOut_IsNull_def)

lemma connect_tx_facts:
  assumes v: "good_view v" and h: "0 < block_height bc" "block_height bc < 2 ^ 31" and tx: "outputs_ok tx" "coins_of v (GetHash (bc_env bc) tx) = None"
    and run: "connect_tx bc tx v nFees cost = Inr (undo, v', nFees', cost')"
  shows "good_view v' \<and> spendable_inputs v tx \<and>
    utxo v' = (\<lambda>po. if po_hash po = GetHash (bc_env bc) tx then created tx (unat (po_n po))
      else if po \<in> in_prevout ` set (tx_inputs tx) then None else utxo v po) \<and>
    dom (coins_of v') \<subseteq> insert (GetHash (bc_env bc) tx) (dom (coins_of v)) \<and>
    undone_by (Some True) v v' (disconnect_tx (bc_env bc) (block_height bc) tx (if IsCoinBase tx then None else Some undo)) \<and>
    (\<exists>fee. nFees' = nFees + fee \<and> sint fee = (if IsCoinBase tx then 0 else (\<Sum>i\<leftarrow>tx_inputs tx. coin_value v i) - (\<Sum>t\<leftarrow>tx_vout tx. sint (out_nValue t))) \<and>
      0 \<le> sint fee)"
proof -
  obtain v1 k v2 v3 where run1: "check_locks bc tx v = Inr v1" and run2: "GetTransactionSigOpCost tx v1 (bc_flags bc) = Inr (k, v2)"
      and run3: "check_fees bc tx v2 nFees = Inr (nFees', v3)" and run4: "UpdateCoins (bc_env bc) tx v3 (block_height bc) = Inr (undo, v')"
    using run by (auto simp: connect_tx_def ebind_Inr_iff Let_def block_height_def split: if_splits)
  have s1: "same_view v v1" by (rule check_locks_same [OF good_view_ok [OF v] run1])
  have s2: "same_view v v2" using GetTransactionSigOpCost_same [OF same_view_ok [OF s1] run2] by (rule same_view_trans [OF s1])
  have f: "same_view v2 v3 \<and> (\<exists>fee. nFees' = nFees + fee \<and> 0 \<le> sint fee \<and>
      sint fee = (if IsCoinBase tx then 0 else (\<Sum>i\<leftarrow>tx_inputs tx. coin_value v i) - (\<Sum>t\<leftarrow>tx_vout tx. sint (out_nValue t))))"
  proof (cases "IsCoinBase tx")
    case True
    then show ?thesis using run3 same_view_ok [OF s2] by (auto simp: check_fees_def intro: exI [of _ 0])
  next
    case False
    have "coin_value v2 i = coin_value v i" for i using s2 by (simp add: coin_value_def same_view_utxo)
    with check_fees_facts [OF same_view_ok [OF s2] False run3] False show ?thesis by (auto simp: tx_inputs_def)
  qed
  then have s3: "same_view v v3" using same_view_trans [OF s2] by blast
  have same: "coins_of v3 = coins_of v" "utxo v3 = utxo v" using s3 same_view_utxo by (auto simp: same_view_def)
  have sp: "spendable_inputs v3 tx \<longleftrightarrow> spendable_inputs v tx" by (simp add: spendable_inputs_def same)
  have u: "undone_by r v3 = undone_by r v" for r by (simp add: undone_by_def same fun_eq_iff)
  note U = UpdateCoins_correct [OF same_good_view [OF v s3] outputs_no_null [OF tx(1)] h, of "bc_env bc", unfolded same sp u, OF tx(2)]
  then have "spendable_inputs v tx" using run4 by (auto split: if_splits)
  with U run4 f show ?thesis by auto
qed

lemma connect_tx_value:
  assumes v: "good_view v" "values_ok v" and h: "0 < block_height bc" "block_height bc < 2 ^ 31" and tx: "outputs_ok tx" "coins_of v (GetHash (bc_env bc) tx) = None"
    and run: "connect_tx bc tx v nFees cost = Inr (undo, v', nFees', cost')"
  shows "values_ok v' \<and> (\<exists>fee. nFees' = nFees + fee \<and> 0 \<le> sint fee \<and>
    total_value v' + sint fee \<le> total_value v + (if IsCoinBase tx then (\<Sum>t\<leftarrow>tx_vout tx. sint (out_nValue t)) else 0))"
proof -
  note f = connect_tx_facts [OF v(1) h tx run]
  have "values_ok v'"
    using f v(2) tx(1) by (auto simp: values_ok_def outputs_ok_def list_all_length created_def split: if_splits)
  moreover obtain fee where "nFees' = nFees + fee" "0 \<le> sint fee"
      "sint fee = (if IsCoinBase tx then 0 else (\<Sum>i\<leftarrow>tx_inputs tx. coin_value v i) - (\<Sum>t\<leftarrow>tx_vout tx. sint (out_nValue t)))" using f by blast
  moreover have "total_value v' \<le> total_value v - (\<Sum>i\<leftarrow>tx_inputs tx. coin_value v i) + (\<Sum>t\<leftarrow>tx_vout tx. sint (out_nValue t))"
    using f tx by (intro total_value_update [of tx v "GetHash (bc_env bc) tx"]) (auto simp: outputs_ok_def)
  ultimately show ?thesis by (auto simp: tx_inputs_def split: if_splits)
qed

lemma connect_txs_facts:
  assumes "good_view v" "values_ok v" and h: "0 < block_height bc" "block_height bc < 2 ^ 31"
    and "list_all (\<lambda>tx. \<not> IsCoinBase tx) vtx" "list_all outputs_ok vtx" "distinct (map (GetHash (bc_env bc)) vtx)"
    "list_all (\<lambda>tx. coins_of v (GetHash (bc_env bc) tx) = None) vtx" "0 \<le> sint nFees" "sint nFees + total_value v < 2 ^ 63"
    "connect_txs bc vtx v nFees cost = Inr (undos, v', nFees', cost')"
  shows "good_view v' \<and> values_ok v' \<and> 0 \<le> sint nFees' \<and> sint nFees' + total_value v' \<le> sint nFees + total_value v \<and>
    length undos = length vtx \<and> undone_by (Some True) v v' (disconnect_txs (bc_env bc) (block_height bc) (zip vtx (map Some undos)))"
  using assms(1,2,5-)
proof (induction vtx arbitrary: v nFees cost undos)
  case Nil
  then show ?case by (auto simp: undone_by_def)
next
  case (Cons tx vtx)
  obtain undo v1 nFees1 cost1 undos1 where one: "connect_tx bc tx v nFees cost = Inr (undo, v1, nFees1, cost1)"
      and rest: "connect_txs bc vtx v1 nFees1 cost1 = Inr (undos1, v', nFees', cost')" and undos: "undos = undo # undos1"
    using Cons.prems(9) by (auto simp: ebind_Inr_iff)
  have tx: "outputs_ok tx" "coins_of v (GetHash (bc_env bc) tx) = None" "\<not> IsCoinBase tx" using Cons.prems by simp_all
  note f = connect_tx_facts [OF Cons.prems(1) h tx(1,2) one]
  obtain fee where fee: "nFees1 = nFees + fee" "0 \<le> sint fee" "total_value v1 + sint fee \<le> total_value v" and v1: "values_ok v1"
    using connect_tx_value [OF Cons.prems(1,2) h tx(1,2) one] tx(3) by auto
  have "0 \<le> total_value v1" by (rule total_value_nonneg [OF v1])
  then have sum: "sint nFees1 = sint nFees + sint fee" unfolding fee(1)
    using fee(2,3) Cons.prems(7,8) by (intro sint_add_exact) linarith+
  have absent: "list_all (\<lambda>tx. coins_of v1 (GetHash (bc_env bc) tx) = None) vtx"
    using absent_step [OF Cons.prems(5,6)] f by blast
  have bounds: "0 \<le> sint nFees1" "sint nFees1 + total_value v1 < 2 ^ 63" using sum fee(2,3) Cons.prems(7,8) by linarith+
  have good: "good_view v1" using f by blast
  note IH = Cons.IH [OF good v1 _ _ _ absent bounds rest]
  have "undone_by (Some True) v v1 (disconnect_tx (bc_env bc) (block_height bc) tx (Some undo))" using f tx(3) by simp
  moreover have IH': "good_view v' \<and> values_ok v' \<and> 0 \<le> sint nFees' \<and> sint nFees' + total_value v' \<le> sint nFees1 + total_value v1 \<and>
      length undos1 = length vtx \<and> undone_by (Some True) v1 v' (disconnect_txs (bc_env bc) (block_height bc) (zip vtx (map Some undos1)))"
    using Cons.prems(3-5) by (intro IH) simp_all
  ultimately have "undone_by (Some True) v v' (disconnect_txs (bc_env bc) (block_height bc) ((tx, Some undo) # zip vtx (map Some undos1)))"
    by (blast intro: undone_by_txs)
  with IH' undos sum fee(3) show ?case by (simp del: disconnect_txs.simps)
qed

lemma check_bip30_absent:
  "view_ok v \<Longrightarrow> check_bip30 env vtx v = Inr v' \<Longrightarrow> same_view v v' \<and> list_all (\<lambda>tx. coins_of v (GetHash env tx) = None) vtx"
proof (induction vtx arbitrary: v)
  case (Cons tx vtx)
  obtain r v1 where get: "GetCoins v (GetHash env tx) = (r, v1)" by fastforce
  from GetCoins_correct [OF Cons.prems(1) get] GetCoins_ready [OF Cons.prems(1) get]
  have g: "same_view v v1" "Option.bind r unspent = coins_of v (GetHash env tx)" by (simp_all add: same_view_def)
  from Cons.prems(2) have rest: "check_bip30 env vtx v1 = Inr v'" and "coins_of v (GetHash env tx) = None"
    using g(2) by (auto simp: get split: option.splits if_splits)
  moreover have "coins_of v1 = coins_of v" using g(1) by (simp add: same_view_def)
  ultimately show ?case using Cons.IH [OF same_view_ok [OF g(1)] rest] same_view_trans [OF g(1)] by simp
qed simp

lemma check_transactions_ok: "check_transactions vtx = Inr () \<Longrightarrow> list_all outputs_ok vtx"
  by (induction vtx) (auto simp: ebind_Inr_iff CheckTransaction_eq outputs_ok_def)

lemma CheckBlock_facts:
  assumes "CheckBlock vtx = Inr ()"
  shows "vtx \<noteq> [] \<and> IsCoinBase (hd vtx) \<and> list_all (\<lambda>tx. \<not> IsCoinBase tx) (tl vtx) \<and> list_all outputs_ok vtx"
proof -
  have "check_transactions vtx = Inr ()" using assms by (auto simp: CheckBlock_def ebind_Inr_iff split: if_splits)
  with assms show ?thesis by (simp add: CheckBlock_def check_transactions_ok split: if_splits)
qed

section \<open>Connecting a block\<close>

lemma SetBestBlock_utxo [simp]: "utxo (SetBestBlock v h) = utxo v"
  by (simp add: utxo_def fun_eq_iff)

lemma subsidy_bounds:
  assumes "0 \<le> h" "0 < nSubsidyHalvingInterval params"
  shows "0 \<le> sint (GetBlockSubsidy h params) \<and> sint (GetBlockSubsidy h params) \<le> 5500000000"
proof -
  have "(5500000000 :: int) div 2 ^ k \<le> 5500000000" for k :: nat using zdiv_mono2 [of 5500000000 1 "2 ^ k"] by simp
  then show ?thesis by (simp add: subsidy_value [OF assms] pos_imp_zdiv_nonneg_iff)
qed

lemma ConnectBlock_facts:
  assumes v: "good_view v" "values_ok v" "total_value v \<le> 2 ^ 62" and h: "0 < block_height bc" "block_height bc < 2 ^ 31"
    and bc: "\<not> bc_isGenesis bc" "0 < nSubsidyHalvingInterval (bc_params bc)" "distinct (map (GetHash (bc_env bc)) vtx)"
      "bc_fEnforceBIP30 bc \<or> list_all (\<lambda>tx. coins_of v (GetHash (bc_env bc) tx) = None) vtx"
    and run: "ConnectBlock bc vtx v False = Inr (vtxundo, v')"
  shows "good_view v' \<and> values_ok v' \<and>
    total_value v' \<le> total_value v + sint (GetBlockSubsidy (block_height bc) (bc_params bc)) \<and>
    (\<exists>v1. v' = SetBestBlock v1 (bc_hashBlock bc) \<and> length vtxundo + 1 = length vtx \<and>
      undone_by (Some True) v v1 (disconnect_txs (bc_env bc) (block_height bc) (zip vtx (None # map Some vtxundo))))"
proof -
  obtain v0 va undos v1 nFees cost nout where check: "CheckBlock vtx = Inr ()" and best: "CoinsView_GetBestBlock v = (bc_hashPrevBlock bc, v0)"
      and bip30: "(if bc_fEnforceBIP30 bc then check_bip30 (bc_env bc) vtx v0 else Inr v0) = Inr va"
      and loop: "connect_txs bc vtx va 0 0 = Inr (undos, v1, nFees, cost)" and vo: "GetValueOut (hd vtx) = Some nout"
      and cb: "sint nout \<le> sint (nFees + GetBlockSubsidy (block_height bc) (bc_params bc))"
      and res: "vtxundo = tl undos" "v' = SetBestBlock v1 (bc_hashBlock bc)"
    using run bc(1) by (auto simp: ConnectBlock_def ebind_Inr_iff Let_def block_height_def split: if_splits option.splits prod.splits)
  obtain tx txs where vtx: "vtx = tx # txs" "IsCoinBase tx" "list_all (\<lambda>tx. \<not> IsCoinBase tx) txs" and outs: "list_all outputs_ok vtx"
    using CheckBlock_facts [OF check] by (cases vtx) auto
  have s0: "same_view v v0" by (rule best_same [OF good_view_ok [OF v(1)] best])
  have sa: "same_view v va" "list_all (\<lambda>tx. coins_of v (GetHash (bc_env bc) tx) = None) vtx"
    using bip30 bc(4) check_bip30_absent [OF same_view_ok [OF s0]] s0 same_view_trans [OF s0]
    by (auto simp: same_view_def split: if_splits)
  have va: "good_view va" "utxo va = utxo v" "coins_of va = coins_of v"
    using same_good_view [OF v(1) sa(1)] same_view_utxo [OF sa(1)] sa(1) by (simp_all add: same_view_def)
  have va': "values_ok va" "total_value va = total_value v" using v(2) by (simp_all add: values_ok_def total_value_def va(2))
  obtain undo v2 fees2 cost2 undos2 where one: "connect_tx bc tx va 0 0 = Inr (undo, v2, fees2, cost2)"
      and rest: "connect_txs bc txs v2 fees2 cost2 = Inr (undos2, v1, nFees, cost)" and undos: "undos = undo # undos2"
    using loop by (auto simp: vtx(1) ebind_Inr_iff)
  have tx: "outputs_ok tx" "coins_of va (GetHash (bc_env bc) tx) = None" using outs sa(2) va(3) by (simp_all add: vtx(1))
  note f = connect_tx_facts [OF va(1) h tx one]
  let ?out = "\<Sum>t\<leftarrow>tx_vout tx. sint (out_nValue t)"
  have out: "sint nout = ?out" "?out \<le> MAX_MONEY" using GetValueOut_exact [of tx nout] vo by (simp_all add: vtx(1))
  obtain fee where fee: "fees2 = fee" "0 \<le> sint fee" "total_value v2 + sint fee \<le> total_value v + ?out" and v2: "values_ok v2"
    using connect_tx_value [OF va(1) va'(1) h tx one] vtx(2) va'(2) by auto
  have dom: "dom (coins_of v2) \<subseteq> insert (GetHash (bc_env bc) tx) (dom (coins_of va))" and good: "good_view v2" using f by blast+
  have absent: "list_all (\<lambda>tx. coins_of v2 (GetHash (bc_env bc) tx) = None) txs"
    using absent_step [OF bc(3) [unfolded vtx(1)] _ dom] sa(2) va(3) by (simp add: vtx(1))
  have b: "0 \<le> sint fees2" "sint fees2 + total_value v2 < 2 ^ 63"
    using fee out(2) v(3) by (auto simp: MAX_MONEY_def COIN_def)
  have r: "good_view v1 \<and> values_ok v1 \<and> 0 \<le> sint nFees \<and> sint nFees + total_value v1 \<le> sint fees2 + total_value v2 \<and>
      length undos2 = length txs \<and> undone_by (Some True) v2 v1 (disconnect_txs (bc_env bc) (block_height bc) (zip txs (map Some undos2)))"
    using outs bc(3) by (intro connect_txs_facts [OF good v2 h vtx(3) _ _ absent b rest]) (simp_all add: vtx(1))
  have sub: "0 \<le> sint (GetBlockSubsidy (block_height bc) (bc_params bc)) \<and> sint (GetBlockSubsidy (block_height bc) (bc_params bc)) \<le> 5500000000"
    using h(1) by (intro subsidy_bounds [OF _ bc(2)]) simp
  have "0 \<le> total_value v1" using r total_value_nonneg by blast
  then have "sint (nFees + GetBlockSubsidy (block_height bc) (bc_params bc)) = sint nFees + sint (GetBlockSubsidy (block_height bc) (bc_params bc))"
    using r sub fee out(2) v(3) by (intro sint_add_exact) (auto simp: MAX_MONEY_def COIN_def)
  then have "total_value v1 \<le> total_value v + sint (GetBlockSubsidy (block_height bc) (bc_params bc))"
    using cb out(1) conjunct1 [OF conjunct2 [OF conjunct2 [OF conjunct2 [OF r]]]] fee by simp
  moreover have "undone_by r va = undone_by r v" for r :: "bool option" by (simp add: undone_by_def va(3) fun_eq_iff)
  then have "undone_by (Some True) v v2 (disconnect_tx (bc_env bc) (block_height bc) tx None)" using f vtx(2) by simp
  then have "undone_by (Some True) v v1 (disconnect_txs (bc_env bc) (block_height bc) ((tx, None) # zip txs (map Some undos2)))"
    using r by (blast intro: undone_by_txs)
  then have "\<exists>v1. v' = SetBestBlock v1 (bc_hashBlock bc) \<and> length vtxundo + 1 = length vtx \<and>
      undone_by (Some True) v v1 (disconnect_txs (bc_env bc) (block_height bc) (zip vtx (None # map Some vtxundo)))"
    using r res undos vtx(1) by (intro exI [of _ v1]) (simp del: disconnect_txs.simps)
  moreover have "good_view v' \<and> values_ok v' \<and> total_value v' = total_value v1" using r by (simp add: res(2) good_view_def values_ok_def total_value_def)
  ultimately show ?thesis by simp
qed

text \<open>
  C1. Connecting a block does not inflate the money: the value of all unspent outputs, an exact sum, grows by
  at most the subsidy of the block's height.  The view stays good, and no amount of the computation
  wraps around.
\<close>

theorem ConnectBlock_no_inflation:
  assumes "good_view v" "values_ok v" "total_value v \<le> 2 ^ 62" "0 < block_height bc" "block_height bc < 2 ^ 31"
    "\<not> bc_isGenesis bc" "0 < nSubsidyHalvingInterval (bc_params bc)" "distinct (map (GetHash (bc_env bc)) vtx)"
    "bc_fEnforceBIP30 bc \<or> list_all (\<lambda>tx. coins_of v (GetHash (bc_env bc) tx) = None) vtx"
    "ConnectBlock bc vtx v False = Inr (vtxundo, v')"
  shows "good_view v' \<and> values_ok v' \<and> total_value v' \<le> total_value v + sint (GetBlockSubsidy (block_height bc) (bc_params bc))"
  using ConnectBlock_facts [OF assms] by blast

text \<open>
  C2. Disconnecting a connected block, with the undo records that connecting it returned, gives back exactly
  the coins there were before, from any view that stands for the coins after the block.
\<close>

theorem ConnectBlock_DisconnectBlock:
  assumes "good_view v" "values_ok v" "total_value v \<le> 2 ^ 62" "0 < block_height bc" "block_height bc < 2 ^ 31"
    "\<not> bc_isGenesis bc" "0 < nSubsidyHalvingInterval (bc_params bc)" "distinct (map (GetHash (bc_env bc)) vtx)"
    "bc_fEnforceBIP30 bc \<or> list_all (\<lambda>tx. coins_of v (GetHash (bc_env bc) tx) = None) vtx"
    "ConnectBlock bc vtx v False = Inr (vtxundo, v')" "ready w" "coins_of w = coins_of v'" "fst (CoinsView_GetBestBlock w) = bc_hashBlock bc"
  shows "\<exists>w'. DisconnectBlock (bc_env bc) (block_height bc) (bc_hashBlock bc) (bc_hashPrevBlock bc) vtx vtxundo w = Inr (Some True, w') \<and>
    ready w' \<and> coins_of w' = coins_of v"
proof -
  obtain v1 where v1: "v' = SetBestBlock v1 (bc_hashBlock bc)" "length vtxundo + 1 = length vtx"
      "undone_by (Some True) v v1 (disconnect_txs (bc_env bc) (block_height bc) (zip vtx (None # map Some vtxundo)))"
    using ConnectBlock_facts [OF assms(1-10)] by blast
  then show ?thesis using assms(11-13) by (intro DisconnectBlock_undone [OF v1(3,2)]) simp_all
qed

text \<open>Equations that let the simplifier run the model on concrete blocks.\<close>

lemma WriteLE32_code [code]:
  "WriteLE32 x = [ucast x, ucast (drop_bit 8 x), ucast (drop_bit 16 x), ucast (drop_bit 24 x)]"
proof -
  have four: "(4 :: nat) = Suc (Suc (Suc (Suc 0)))" by simp
  have step: "unat y div 256 = unat (drop_bit 8 y)" for y :: u32 by (simp add: unat_drop_bit)
  show ?thesis unfolding WriteLE32_def four le_bytes.simps step by simp
qed

lemma script_size_code [code_unfold]: "MAX_SCRIPT_SIZE < length s \<longleftrightarrow> 10000 < int (length s)"
  by (simp add: MAX_SCRIPT_SIZE_def)

lemma demo_connects: "case ConnectBlock demo_context [demo_cb, demo_spend] demo_cache False of Inl _ \<Rightarrow> False | Inr _ \<Rightarrow> True"
  by code_simp

lemma demo_utxo: "utxo demo_cache = [\<lparr>po_hash = [1], po_n = 0\<rparr> \<mapsto> \<lparr>out_nValue = 7, out_scriptPubKey = [81]\<rparr>]"
proof
  fix po :: COutPoint
  have "unat n = 0 \<longleftrightarrow> n = 0" for n :: u32 by (simp add: unat_eq_0)
  then show "utxo demo_cache po = [\<lparr>po_hash = [1], po_n = 0\<rparr> \<mapsto> \<lparr>out_nValue = 7, out_scriptPubKey = [81]\<rparr>] po"
    by (cases po) (auto simp: utxo_def demo_cache_def demo_db_read demo_coins_def IsAvailable_def unspent_def IsPruned_def CTxOut_IsNull_def)
qed

lemma demo_values: "values_ok demo_cache" "total_value demo_cache = 7"
  by (simp_all add: values_ok_def total_value_def demo_utxo)

lemma demo_block:
  "0 < block_height demo_context" "block_height demo_context < 2 ^ 31" "\<not> bc_isGenesis demo_context"
  "0 < nSubsidyHalvingInterval (bc_params demo_context)" "distinct (map (GetHash (bc_env demo_context)) [demo_cb, demo_spend])"
  "bc_fEnforceBIP30 demo_context \<or> list_all (\<lambda>tx. coins_of demo_cache (GetHash (bc_env demo_context) tx) = None) [demo_cb, demo_spend]"
  using demo_hashes(1) by (simp_all add: block_height_def demo_context_def line_store_def main_params_def)

lemma ConnectBlock_no_inflation_witness:
  "\<exists>vtxundo v'. ConnectBlock demo_context [demo_cb, demo_spend] demo_cache False = Inr (vtxundo, v') \<and>
    total_value v' \<le> 7 + sint (GetBlockSubsidy 20 main_params)"
proof -
  obtain vtxundo v' where run: "ConnectBlock demo_context [demo_cb, demo_spend] demo_cache False = Inr (vtxundo, v')"
    using demo_connects by (cases "ConnectBlock demo_context [demo_cb, demo_spend] demo_cache False") auto
  have "total_value demo_cache \<le> 2 ^ 62" by (simp add: demo_values)
  from ConnectBlock_no_inflation [OF good_demo_cache demo_values(1) this demo_block run] run show ?thesis
    by (auto simp: demo_values(2) block_height_def demo_context_def line_store_def)
qed

lemma ConnectBlock_DisconnectBlock_witness:
  "\<exists>vtxundo v' w'. ConnectBlock demo_context [demo_cb, demo_spend] demo_cache False = Inr (vtxundo, v') \<and>
    DisconnectBlock plain_env 20 [9] [8] [demo_cb, demo_spend] vtxundo v' = Inr (Some True, w') \<and> coins_of w' = coins_of demo_cache"
proof -
  obtain vtxundo v' where run: "ConnectBlock demo_context [demo_cb, demo_spend] demo_cache False = Inr (vtxundo, v')"
    using demo_connects by (cases "ConnectBlock demo_context [demo_cb, demo_spend] demo_cache False") auto
  have t: "total_value demo_cache \<le> 2 ^ 62" by (simp add: demo_values)
  obtain v1 where v1: "v' = SetBestBlock v1 (bc_hashBlock demo_context)" and good: "good_view v'"
    using ConnectBlock_facts [OF good_demo_cache demo_values(1) t demo_block run] by blast
  have ready: "ready v'" using good by (simp add: good_view_def)
  have best: "fst (CoinsView_GetBestBlock v') = bc_hashBlock demo_context" unfolding v1
    by (rule GetBestBlock_set) (use ready v1 in \<open>simp_all add: demo_context_def uint256_IsNull_def\<close>)
  have "bc_env demo_context = plain_env" "block_height demo_context = 20" "bc_hashBlock demo_context = [9]" "bc_hashPrevBlock demo_context = [8]"
    by (simp_all add: block_height_def demo_context_def line_store_def)
  with ConnectBlock_DisconnectBlock [OF good_demo_cache demo_values(1) t demo_block run ready refl best] run show ?thesis by auto
qed

text \<open>A whole block with such a transaction: it passes the checks of blocks and stops the program.\<close>

lemma duplicate_inputs_block:
  "(case CheckBlock [demo_cb, demo_double] of Inl _ \<Rightarrow> False | Inr _ \<Rightarrow> True) \<and>
   (case ConnectBlock demo_context [demo_cb, demo_double] demo_cache False of Inl e \<Rightarrow> e = TxAbort | Inr _ \<Rightarrow> False)"
  by code_simp

end
