(* ===== verification/Merkle.thy ===== *)
theory Merkle
  imports SigHash
begin

text \<open>
  Merkle trees, \<^verbatim>\<open>sige/src/consensus/merkle.cpp\<close>: the computation with one hash per level, its root, its
  branches and its test for repeated subtrees, against the tree computed level by level.
\<close>

section \<open>The computation\<close>

definition merkle_hash :: "script_env \<Rightarrow> bytes \<Rightarrow> bytes \<Rightarrow> bytes" where
  "merkle_hash env a b = CHash256 env (a @ b)"

text \<open>
  The running hash with whether it depends on the wanted leaf, the branch so far and whether two equal
  hashes have been combined.  Shifts are by less than 32.
\<close>

record merkle_run =
  mr_h :: bytes
  mr_matchh :: bool
  mr_branch :: "bytes list"
  mr_mutated :: bool

definition combine :: "script_env \<Rightarrow> bytes list \<Rightarrow> bool \<Rightarrow> int \<Rightarrow> nat \<Rightarrow> merkle_run \<Rightarrow> merkle_run" where
  "combine env inner pbranch matchlevel level r =
    \<lparr>mr_h = merkle_hash env (inner ! level) (mr_h r),
     mr_matchh = mr_matchh r \<or> pbranch \<and> matchlevel = int level,
     mr_branch = (if pbranch
                  then if mr_matchh r then mr_branch r @ [inner ! level]
                       else if matchlevel = int level then mr_branch r @ [mr_h r] else mr_branch r
                  else mr_branch r),
     mr_mutated = mr_mutated r \<or> inner ! level = mr_h r\<rparr>"

function climb :: "script_env \<Rightarrow> bytes list \<Rightarrow> bool \<Rightarrow> int \<Rightarrow> nat \<Rightarrow> nat \<Rightarrow> merkle_run \<Rightarrow> nat \<times> merkle_run" where
  "climb env inner pbranch matchlevel count level r =
    (if level < 32 \<and> \<not> bit count level
     then climb env inner pbranch matchlevel count (Suc level) (combine env inner pbranch matchlevel level r)
     else (level, r))"
  by pat_completeness auto
termination by (relation "measure (\<lambda>(env, inner, pb, ml, count, level, r). 32 - level)") auto

declare climb.simps [simp del]

text \<open>One leaf; the branch and the flag are kept from leaf to leaf.\<close>

primrec process_leaves :: "script_env \<Rightarrow> bool \<Rightarrow> nat \<Rightarrow> bytes list \<Rightarrow> nat \<Rightarrow> bytes list \<Rightarrow> int \<Rightarrow> bytes list \<Rightarrow> bool
    \<Rightarrow> bytes list \<times> int \<times> bytes list \<times> bool" where
  "process_leaves env pbranch branchpos [] count inner matchlevel branch mutated = (inner, matchlevel, branch, mutated)"
| "process_leaves env pbranch branchpos (leaf # leaves) count inner matchlevel branch mutated =
    (case climb env inner pbranch matchlevel (count + 1) 0
        \<lparr>mr_h = leaf, mr_matchh = (count = branchpos), mr_branch = branch, mr_mutated = mutated\<rparr> of
       (level, r) \<Rightarrow>
         process_leaves env pbranch branchpos leaves (count + 1) (inner[level := mr_h r])
           (if mr_matchh r then int level else matchlevel) (mr_branch r) (mr_mutated r))"

function lowest_bit :: "nat \<Rightarrow> nat \<Rightarrow> nat" where
  "lowest_bit count level = (if level < 32 \<and> \<not> bit count level then lowest_bit count (Suc level) else level)"
  by pat_completeness auto
termination by (relation "measure (\<lambda>(count, level). 32 - level)") auto

declare lowest_bit.simps [simp del]

definition double_up :: "script_env \<Rightarrow> bool \<Rightarrow> merkle_run \<Rightarrow> merkle_run" where
  "double_up env pbranch r =
    r\<lparr>mr_h := merkle_hash env (mr_h r) (mr_h r), mr_branch := (if pbranch \<and> mr_matchh r then mr_branch r @ [mr_h r] else mr_branch r)\<rparr>"

text \<open>
  The sweep over the rightmost branch.  The level grows at every round, so 33 rounds are enough; a count
  that wraps to zero takes the level past 31, where the source shifts by the width of the count.
\<close>

primrec sweep :: "nat \<Rightarrow> script_env \<Rightarrow> bytes list \<Rightarrow> bool \<Rightarrow> int \<Rightarrow> nat \<Rightarrow> nat \<Rightarrow> merkle_run \<Rightarrow> merkle_run option" where
  "sweep 0 env inner pbranch matchlevel count level r = None"
| "sweep (Suc fuel) env inner pbranch matchlevel count level r =
    (if 32 \<le> level then None
     else if count = 2 ^ level then Some r
     else let count' = (count + 2 ^ level) mod 2 ^ 32
          in case climb env inner pbranch matchlevel count' (Suc level) (double_up env pbranch r) of
               (level', r') \<Rightarrow> sweep fuel env inner pbranch matchlevel count' level' r')"

text \<open>With \<open>2\<^sup>3\<^sup>2\<close> leaves or more the count never reaches their number.\<close>

definition MerkleComputation :: "script_env \<Rightarrow> bytes list \<Rightarrow> nat \<Rightarrow> bool \<Rightarrow> (bytes \<times> bool \<times> bytes list) option" where
  "MerkleComputation env leaves branchpos pbranch =
    (if length leaves = 0 then Some (replicate 32 0, False, [])
     else if 2 ^ 32 \<le> int (length leaves) then None
     else case process_leaves env pbranch branchpos leaves 0 (replicate 32 []) (- 1) [] False of
            (inner, matchlevel, branch, mutated) \<Rightarrow>
              let level = lowest_bit (length leaves) 0
              in map_option (\<lambda>r. (mr_h r, mutated, mr_branch r))
                   (sweep 33 env inner pbranch matchlevel (length leaves) level
                      \<lparr>mr_h = inner ! level, mr_matchh = (matchlevel = int level), mr_branch = branch, mr_mutated = mutated\<rparr>))"

definition ComputeMerkleRoot :: "script_env \<Rightarrow> bytes list \<Rightarrow> (bytes \<times> bool) option" where
  "ComputeMerkleRoot env leaves = map_option (\<lambda>(root, mutated, _). (root, mutated)) (MerkleComputation env leaves (2 ^ 32 - 1) False)"

definition ComputeMerkleBranch :: "script_env \<Rightarrow> bytes list \<Rightarrow> nat \<Rightarrow> bytes list option" where
  "ComputeMerkleBranch env leaves position = map_option (\<lambda>(_, _, branch). branch) (MerkleComputation env leaves position True)"

primrec ComputeMerkleRootFromBranch :: "script_env \<Rightarrow> bytes \<Rightarrow> bytes list \<Rightarrow> nat \<Rightarrow> bytes" where
  "ComputeMerkleRootFromBranch env hash [] nIndex = hash"
| "ComputeMerkleRootFromBranch env hash (it # vMerkleBranch) nIndex =
    ComputeMerkleRootFromBranch env (if odd nIndex then merkle_hash env it hash else merkle_hash env hash it) vMerkleBranch (nIndex div 2)"

definition BlockMerkleRoot :: "script_env \<Rightarrow> CTransaction list \<Rightarrow> (bytes \<times> bool) option" where
  "BlockMerkleRoot env vtx = ComputeMerkleRoot env (map (GetHash env) vtx)"

definition BlockWitnessMerkleRoot :: "script_env \<Rightarrow> CTransaction list \<Rightarrow> (bytes \<times> bool) option" where
  "BlockWitnessMerkleRoot env vtx =
    (if vtx = [] then None else ComputeMerkleRoot env (replicate 32 0 # map (GetWitnessHash env) (tl vtx)))"

definition BlockMerkleBranch :: "script_env \<Rightarrow> CTransaction list \<Rightarrow> nat \<Rightarrow> bytes list option" where
  "BlockMerkleBranch env vtx position = ComputeMerkleBranch env (map (GetHash env) vtx) position"

text \<open>
  The tree level by level: neighbours are combined, and the last of an odd number of hashes is
  combined with itself.
\<close>

fun next_level :: "script_env \<Rightarrow> bytes list \<Rightarrow> bytes list" where
  "next_level env [] = []"
| "next_level env [x] = [merkle_hash env x x]"
| "next_level env (x # y # xs) = merkle_hash env x y # next_level env xs"

primrec tree_level :: "script_env \<Rightarrow> bytes list \<Rightarrow> nat \<Rightarrow> bytes list" where
  "tree_level env leaves 0 = leaves"
| "tree_level env leaves (Suc k) = next_level env (tree_level env leaves k)"

function merkle_root :: "script_env \<Rightarrow> bytes list \<Rightarrow> bytes" where
  "merkle_root env xs = (if length xs \<le> 1 then hd xs else merkle_root env (next_level env xs))"
  by pat_completeness auto
termination
proof (relation "measure (\<lambda>(env, xs). length xs)")
  fix env :: script_env and xs :: "bytes list"
  assume "\<not> length xs \<le> 1"
  moreover have "length (next_level env xs) = (length xs + 1) div 2" by (induction env xs rule: next_level.induct) auto
  ultimately show "((env, next_level env xs), (env, xs)) \<in> measure (\<lambda>(env, xs). length xs)" by simp
qed auto

declare merkle_root.simps [simp del]

text \<open>Two equal hashes next to each other, over complete parts of the tree.\<close>

definition repeats :: "script_env \<Rightarrow> bytes list \<Rightarrow> nat \<Rightarrow> bool" where
  "repeats env leaves c \<longleftrightarrow> (\<exists>l i. (2 * i + 2) * 2 ^ l \<le> c \<and> tree_level env leaves l ! (2 * i) = tree_level env leaves l ! (2 * i + 1))"

text \<open>The other child of the parent of the node above the leaf \<open>p\<close>.\<close>

definition sibling :: "script_env \<Rightarrow> bytes list \<Rightarrow> nat \<Rightarrow> nat \<Rightarrow> bytes" where
  "sibling env leaves p l =
    (let i = p div 2 ^ l; xs = tree_level env leaves l in xs ! (if odd i then i - 1 else if i + 1 < length xs then i + 1 else i))"

text \<open>What the array holds after \<open>N\<close> leaves.\<close>

definition inner_ok :: "script_env \<Rightarrow> bytes list \<Rightarrow> nat \<Rightarrow> bytes list \<Rightarrow> bool" where
  "inner_ok env leaves N inner \<longleftrightarrow> length inner = 32 \<and> (\<forall>l. bit N l \<longrightarrow> inner ! l = tree_level env leaves l ! (N div 2 ^ l - 1))"

text \<open>
  Where the leaf \<open>p\<close> is after \<open>N\<close> leaves: in the entry \<open>matchlevel\<close> of the array, with the siblings below it
  in the branch; and the state of a climb towards the count \<open>c\<close>.
\<close>

definition tracked :: "script_env \<Rightarrow> bytes list \<Rightarrow> nat \<Rightarrow> nat \<Rightarrow> int \<Rightarrow> bytes list \<Rightarrow> nat \<Rightarrow> bool" where
  "tracked env leaves p N ml br l \<longleftrightarrow>
    (if p < N then \<exists>k \<ge> l. ml = int k \<and> bit N k \<and> p div 2 ^ k = N div 2 ^ k - 1 \<and> br = map (sibling env leaves p) [0..<k]
     else ml = - 1 \<and> br = [])"

definition climb_ok :: "script_env \<Rightarrow> bytes list \<Rightarrow> bool \<Rightarrow> nat \<Rightarrow> nat \<Rightarrow> int \<Rightarrow> nat \<Rightarrow> nat \<Rightarrow> merkle_run \<Rightarrow> bool" where
  "climb_ok env leaves pb p N ml c l r \<longleftrightarrow>
    2 ^ l dvd c \<and> N < c \<and> c \<le> N + 2 ^ l \<and> c div 2 ^ l \<le> length (tree_level env leaves l) \<and>
    mr_h r = tree_level env leaves l ! (c div 2 ^ l - 1) \<and>
    (pb \<longrightarrow> (if mr_matchh r then p div 2 ^ l = c div 2 ^ l - 1 \<and> mr_branch r = map (sibling env leaves p) [0..<l]
             else tracked env leaves p N ml (mr_branch r) l \<and> (N \<le> p \<longrightarrow> c \<le> p)))"

text \<open>The state of the sweep: the leaves rounded up to whole nodes of the level.\<close>

definition sweep_ok :: "script_env \<Rightarrow> bytes list \<Rightarrow> bool \<Rightarrow> nat \<Rightarrow> int \<Rightarrow> nat \<Rightarrow> nat \<Rightarrow> merkle_run \<Rightarrow> bool" where
  "sweep_ok env leaves pb p ml c l r \<longleftrightarrow>
    2 ^ l dvd c \<and> bit c l \<and> length leaves \<le> c \<and> c < length leaves + 2 ^ l \<and> c \<le> 2 ^ 31 \<and> (\<forall>j<l. 2 ^ j < length leaves) \<and>
    mr_h r = tree_level env leaves l ! (c div 2 ^ l - 1) \<and>
    (pb \<longrightarrow> (if mr_matchh r then p div 2 ^ l = c div 2 ^ l - 1 \<and> mr_branch r = map (sibling env leaves p) [0..<l]
             else tracked env leaves p (length leaves) ml (mr_branch r) (Suc l)))"

section \<open>Levels of the tree\<close>

lemma length_next_level: "length (next_level env xs) = (length xs + 1) div 2"
  by (induction env xs rule: next_level.induct) auto

lemma nth_next_level: "2 * i + 1 < length xs \<Longrightarrow> next_level env xs ! i = merkle_hash env (xs ! (2 * i)) (xs ! (2 * i + 1))"
  by (induction env xs arbitrary: i rule: next_level.induct) (auto simp: nth_Cons split: nat.splits)

lemma nth_next_level_last: "length xs = 2 * i + 1 \<Longrightarrow> next_level env xs ! i = merkle_hash env (xs ! (2 * i)) (xs ! (2 * i))"
  by (induction env xs arbitrary: i rule: next_level.induct) (auto simp: nth_Cons split: nat.splits)

lemma length_tree_level: "length (tree_level env leaves k) = (length leaves + 2 ^ k - 1) div 2 ^ k"
proof (induction k)
  case (Suc k)
  have "length (tree_level env leaves (Suc k)) = ((length leaves + 2 ^ k - 1) div 2 ^ k + 1) div 2" by (simp add: length_next_level Suc)
  also have "(length leaves + 2 ^ k - 1) div 2 ^ k + 1 = (length leaves + 2 ^ k - 1 + 2 ^ k) div 2 ^ k"
    by (rule div_add_self2 [symmetric]) simp
  also have "length leaves + 2 ^ k - 1 + 2 ^ k = length leaves + 2 ^ Suc k - 1" by simp
  finally show ?case by (simp add: div_mult2_eq [symmetric] mult.commute)
qed simp

text \<open>A count that is the number of leaves rounded up to whole nodes of a level counts the nodes of the level.\<close>

lemma rounded_up: "(2 :: nat) ^ l dvd c \<Longrightarrow> length leaves \<le> c \<Longrightarrow> c < length leaves + 2 ^ l \<Longrightarrow> length (tree_level env leaves l) = c div 2 ^ l"
proof -
  assume a: "(2 :: nat) ^ l dvd c" "length leaves \<le> c" "c < length leaves + 2 ^ l"
  then obtain q where q: "c = 2 ^ l * q" by (auto simp: dvd_def)
  have "(length leaves + 2 ^ l - 1) div 2 ^ l = q"
    using a(2,3) q by (intro div_nat_eqI) (auto simp: algebra_simps)
  then show ?thesis by (simp add: length_tree_level q)
qed

lemma complete_nodes: "(2 :: nat) ^ l dvd c \<Longrightarrow> c \<le> length leaves \<Longrightarrow> c div 2 ^ l \<le> length (tree_level env leaves l)"
proof -
  assume "c \<le> length leaves"
  moreover have "(1 :: nat) \<le> 2 ^ l" by simp
  ultimately have "c \<le> length leaves + 2 ^ l - 1" by linarith
  then show ?thesis unfolding length_tree_level by (rule div_le_mono)
qed

lemma merkle_root_level:
  assumes "0 < length leaves" "\<And>j. j < l \<Longrightarrow> 2 ^ j < length leaves"
  shows "merkle_root env (tree_level env leaves l) = merkle_root env leaves"
  using assms(2)
proof (induction l)
  case (Suc l)
  have "2 ^ l < length leaves" using Suc.prems by simp
  then have "2 \<le> (length leaves + 2 ^ l - 1) div 2 ^ l" by (simp add: less_eq_div_iff_mult_less_eq)
  then have "1 < length (tree_level env leaves l)" by (simp add: length_tree_level)
  then have "merkle_root env (tree_level env leaves l) = merkle_root env (next_level env (tree_level env leaves l))"
    by (subst merkle_root.simps) simp
  with Suc show ?case by simp
qed simp

lemma div_above: "(2 :: nat) ^ l dvd c \<Longrightarrow> N < c \<Longrightarrow> c \<le> N + 2 ^ l \<Longrightarrow> N div 2 ^ l = c div 2 ^ l - 1"
proof -
  assume a: "(2 :: nat) ^ l dvd c" "N < c" "c \<le> N + 2 ^ l"
  then obtain q where q: "c = 2 ^ l * q" by (auto simp: dvd_def)
  then obtain k where k: "q = Suc k" using a(2) by (cases q) auto
  have "N div 2 ^ l = k" using a(2,3) by (intro div_nat_eqI) (auto simp: q k algebra_simps)
  then show ?thesis by (simp add: q k)
qed

lemma climb_node:
  assumes "inner_ok env leaves N inner" "2 ^ l dvd c" "N < c" "c \<le> N + 2 ^ l" "\<not> bit c l" "c div 2 ^ l \<le> length (tree_level env leaves l)"
  shows "inner ! l = tree_level env leaves l ! (c div 2 ^ l - 2)" and "2 ^ Suc l dvd c" and "0 < c div 2 ^ Suc l"
    and "c div 2 ^ l = 2 * (c div 2 ^ Suc l)"
    and "merkle_hash env (inner ! l) (tree_level env leaves l ! (c div 2 ^ l - 1)) = tree_level env leaves (Suc l) ! (c div 2 ^ Suc l - 1)"
    and "c div 2 ^ Suc l \<le> length (tree_level env leaves (Suc l))"
proof -
  define q where "q = c div 2 ^ Suc l"
  have "even (c div 2 ^ l)" using assms(5) by (simp add: bit_iff_odd)
  moreover have "q = c div 2 ^ l div 2" by (simp add: q_def div_mult2_eq [symmetric] mult.commute)
  ultimately have e: "c div 2 ^ l = 2 * q" by simp
  then have c: "c = 2 ^ Suc l * q" using assms(2) by (metis dvd_mult_div_cancel mult.assoc mult.commute power_Suc)
  then show d: "2 ^ Suc l dvd c" by simp
  show q: "0 < c div 2 ^ Suc l" using c assms(3) by (cases q) auto
  show "c div 2 ^ l = 2 * (c div 2 ^ Suc l)" using e by (simp add: q_def)
  have N: "N div 2 ^ l = 2 * q - 1" using div_above [OF assms(2-4)] e by simp
  have qp: "0 < q" using q by (simp add: q_def)
  then have "bit N l" using N by (simp add: bit_iff_odd)
  then show i: "inner ! l = tree_level env leaves l ! (c div 2 ^ l - 2)" using assms(1) N e by (simp add: inner_ok_def numeral_2_eq_2)
  have "2 * (q - 1) + 1 < length (tree_level env leaves l)" using assms(6) e qp by linarith
  note nth = nth_next_level [OF this, of env]
  have ix: "2 * (q - 1) = c div 2 ^ l - 2" "c div 2 ^ l - 2 + 1 = c div 2 ^ l - 1" using e qp by linarith+
  show "merkle_hash env (inner ! l) (tree_level env leaves l ! (c div 2 ^ l - 1)) = tree_level env leaves (Suc l) ! (c div 2 ^ Suc l - 1)"
    unfolding tree_level.simps q_def [symmetric] nth unfolding ix i ..
  show "c div 2 ^ Suc l \<le> length (tree_level env leaves (Suc l))" using assms(6) e by (simp add: length_next_level q_def)
qed

section \<open>Climbing\<close>

lemma half_index: "q = 2 * m \<Longrightarrow> 0 < m \<Longrightarrow> (q - 1) div 2 = m - 1 \<and> (q - 2) div 2 = m - (1 :: nat)"
  by (cases m) auto

lemma climb_step:
  assumes inner: "inner_ok env leaves N inner" and ok: "climb_ok env leaves pb p N ml c l r" and b: "\<not> bit c l"
  shows "climb_ok env leaves pb p N ml c (Suc l) (combine env inner pb ml l r)"
proof -
  define q where "q = c div 2 ^ l"
  define m where "m = c div 2 ^ Suc l"
  have a: "2 ^ l dvd c" "N < c" "c \<le> N + 2 ^ l" "q \<le> length (tree_level env leaves l)" "mr_h r = tree_level env leaves l ! (q - 1)"
    using ok by (simp_all add: climb_ok_def q_def)
  note node = climb_node [OF inner a(1-3) b a(4) [unfolded q_def], folded q_def m_def]
  have half: "(q - 1) div 2 = m - 1" "(q - 2) div 2 = m - 1" "odd (q - 1)" "even (q - 2)" "q - 1 - 1 = q - 2" "q - 2 + 1 = q - 1" "q - 1 < q"
    using node(3,4) half_index [of q m] by auto
  have up: "p div (2 * 2 ^ l) = p div 2 ^ l div 2" by (simp add: div_mult2_eq [symmetric] mult.commute)
  have "if mr_matchh (combine env inner pb ml l r)
      then p div 2 ^ Suc l = m - 1 \<and> mr_branch (combine env inner pb ml l r) = map (sibling env leaves p) [0..<Suc l]
      else tracked env leaves p N ml (mr_branch (combine env inner pb ml l r)) (Suc l) \<and> (N \<le> p \<longrightarrow> c \<le> p)" if pb
  proof (cases "mr_matchh r")
    case True
    then have r: "p div 2 ^ l = q - 1" "mr_branch r = map (sibling env leaves p) [0..<l]" using ok that by (simp_all add: climb_ok_def q_def)
    have "sibling env leaves p l = inner ! l" using half by (simp add: sibling_def r(1) node(1))
    with True that r half(1) show ?thesis by (simp add: combine_def up)
  next
    case False
    then have t: "tracked env leaves p N ml (mr_branch r) l" "N \<le> p \<longrightarrow> c \<le> p" using ok that by (simp_all add: climb_ok_def)
    show ?thesis
    proof (cases "ml = int l")
      case True
      then have r: "p div 2 ^ l = N div 2 ^ l - 1" "mr_branch r = map (sibling env leaves p) [0..<l]"
        using t(1) by (auto simp: tracked_def split: if_splits)
      have "N div 2 ^ l = q - 1" using div_above [OF a(1-3)] by (simp add: q_def)
      then have pq: "p div 2 ^ l = q - 2" using r(1) by simp
      have "sibling env leaves p l = mr_h r" using half a(4,5) by (auto simp: sibling_def pq Let_def)
      with True that False r(2) pq half(2) show ?thesis by (simp add: combine_def up)
    next
      case ml: False
      then have "tracked env leaves p N ml (mr_branch r) (Suc l)"
        using t(1) by (auto simp: tracked_def Suc_le_eq order_le_less split: if_splits)
      with False ml that t(2) show ?thesis by (simp add: combine_def)
    qed
  qed
  moreover have "c \<le> N + 2 ^ Suc l" using a(3) by simp
  moreover have "mr_h (combine env inner pb ml l r) = tree_level env leaves (Suc l) ! (m - 1)" using node(5) a(5) by (simp add: combine_def)
  ultimately show ?thesis unfolding climb_ok_def m_def [symmetric] using a(2) node(2,6) by blast
qed

lemma climb_mutated:
  "inner_ok env leaves N inner \<Longrightarrow> climb_ok env leaves pb p N ml c l r \<Longrightarrow> \<not> bit c l \<Longrightarrow>
    mr_mutated (combine env inner pb ml l r) \<longleftrightarrow>
      mr_mutated r \<or> tree_level env leaves l ! (c div 2 ^ l - 2) = tree_level env leaves l ! (c div 2 ^ l - 1)"
  using climb_node(1) [of env leaves N inner l c] by (auto simp: climb_ok_def combine_def)

lemma level_split: "l < t \<Longrightarrow> (\<exists>j. l \<le> j \<and> j < t \<and> P j) \<longleftrightarrow> P l \<or> (\<exists>j. Suc l \<le> j \<and> j < t \<and> P j)"
  by (metis Suc_leD Suc_leI le_eq_less_or_eq)

lemma climb_result:
  assumes "inner_ok env leaves N inner" "climb_ok env leaves pb p N ml c l r" "0 < c" "c < 2 ^ 32" "climb env inner pb ml c l r = (t, r')"
  shows "climb_ok env leaves pb p N ml c t r' \<and> bit c t \<and> l \<le> t \<and> t < 32 \<and>
    (mr_mutated r' \<longleftrightarrow> mr_mutated r \<or>
      (\<exists>j. l \<le> j \<and> j < t \<and> tree_level env leaves j ! (c div 2 ^ j - 2) = tree_level env leaves j ! (c div 2 ^ j - 1)))"
  using assms(2,5)
proof (induction "32 - l" arbitrary: l r)
  case 0
  then have "32 \<le> l" "2 ^ l dvd c" by (simp_all add: climb_ok_def)
  then have "(2 :: nat) ^ 32 dvd c" by (metis dvd_trans le_imp_power_dvd)
  with assms(3,4) show ?case by (auto dest: dvd_imp_le)
next
  case (Suc d)
  show ?case
  proof (cases "bit c l")
    case True
    with Suc show ?thesis by (auto simp: climb.simps)
  next
    case False
    then have run: "climb env inner pb ml c (Suc l) (combine env inner pb ml l r) = (t, r')"
      using Suc.prems(2) Suc.hyps(2) by (subst (asm) climb.simps) (simp split: if_splits)
    have "d = 32 - Suc l" using Suc.hyps(2) by simp
    from Suc.hyps(1) [OF this climb_step [OF assms(1) Suc.prems(1) False] run]
    show ?thesis unfolding climb_mutated [OF assms(1) Suc.prems(1) False] by (auto simp: level_split [of l t])
  qed
qed

text \<open>Above the level a climb ends at, the count before the last leaf has the same bits.\<close>

lemma div_keep:
  assumes "(2 :: nat) ^ t dvd c" "N < c" "c \<le> N + 2 ^ t" "bit c t"
  shows "t < l \<Longrightarrow> N div 2 ^ l = c div 2 ^ l" and "\<not> bit N t"
proof -
  have odd: "odd (c div 2 ^ t)" using assms(4) by (simp add: bit_iff_odd)
  have N: "N div 2 ^ t = c div 2 ^ t - 1" by (rule div_above [OF assms(1-3)])
  then show "\<not> bit N t" using odd by (simp add: bit_iff_odd)
  assume "t < l"
  then have "l = Suc t + (l - Suc t)" by simp
  then have l: "(2 :: nat) ^ l = 2 ^ t * 2 * 2 ^ (l - Suc t)" by (metis power_Suc2 power_add)
  have "(c div 2 ^ t - 1) div 2 = c div 2 ^ t div 2" using odd by (auto elim: oddE)
  then show "N div 2 ^ l = c div 2 ^ l" unfolding l div_mult2_eq N by simp
qed

lemma low_bit_clear: "(2 :: nat) ^ t dvd c \<Longrightarrow> bit c l \<Longrightarrow> t \<le> l"
proof (rule ccontr)
  assume a: "(2 :: nat) ^ t dvd c" "bit c l" "\<not> t \<le> l"
  then have "(2 :: nat) ^ Suc l dvd c" by (metis dvd_trans le_imp_power_dvd not_less_eq_eq)
  then obtain k where "c = 2 ^ Suc l * k" by (auto simp: dvd_def)
  then have "c div 2 ^ l = 2 * k" by simp
  with a(2) show False by (simp add: bit_iff_odd)
qed

section \<open>The leaves\<close>

lemma repeats_Suc:
  assumes "2 ^ t dvd Suc N" "bit (Suc N) t"
  shows "repeats env leaves (Suc N) \<longleftrightarrow> repeats env leaves N \<or>
    (\<exists>j<t. tree_level env leaves j ! (Suc N div 2 ^ j - 2) = tree_level env leaves j ! (Suc N div 2 ^ j - 1))"
    (is "?lhs \<longleftrightarrow> _ \<or> (\<exists>j<t. ?eq j)")
proof -
  have pair: "(\<exists>i. (2 * i + 2) * 2 ^ j = Suc N \<and> tree_level env leaves j ! (2 * i) = tree_level env leaves j ! (2 * i + 1)) \<longleftrightarrow> j < t \<and> ?eq j" for j
  proof
    assume "\<exists>i. (2 * i + 2) * 2 ^ j = Suc N \<and> tree_level env leaves j ! (2 * i) = tree_level env leaves j ! (2 * i + 1)"
    then obtain i where i: "Suc N = (2 * i + 2) * 2 ^ j" "tree_level env leaves j ! (2 * i) = tree_level env leaves j ! (2 * i + 1)" by metis
    then have "Suc N = 2 ^ Suc j * (i + 1)" by simp
    then have "2 ^ Suc j dvd Suc N" by (metis dvd_triv_left)
    then have "j < t" using low_bit_clear [of "Suc j", OF _ assms(2)] by simp
    moreover have "Suc N div 2 ^ j = 2 * i + 2" unfolding i(1) by simp
    ultimately show "j < t \<and> ?eq j" using i(2) by simp
  next
    assume j: "j < t \<and> ?eq j"
    then have "2 ^ Suc j dvd Suc N" using assms(1) by (meson Suc_leI dvd_trans le_imp_power_dvd)
    then obtain k where k: "Suc N = 2 ^ Suc j * k" by (auto simp: dvd_def)
    then obtain i where i: "k = Suc i" by (cases k) auto
    have N: "Suc N = (2 * i + 2) * 2 ^ j" using k i by simp
    then have "Suc N div 2 ^ j = 2 * i + 2" by simp
    with j N show "\<exists>i. (2 * i + 2) * 2 ^ j = Suc N \<and> tree_level env leaves j ! (2 * i) = tree_level env leaves j ! (2 * i + 1)"
      by (intro exI [of _ i]) simp
  qed
  show ?thesis unfolding repeats_def le_Suc_eq using pair by blast
qed

lemma stored_hash:
  assumes "inner_ok env leaves N inner" "climb_ok env leaves pb p N ml (Suc N) t r" "bit (Suc N) t" "t < 32"
  shows "inner_ok env leaves (Suc N) (inner[t := mr_h r])"
proof -
  have a: "2 ^ t dvd Suc N" "Suc N \<le> N + 2 ^ t" "mr_h r = tree_level env leaves t ! (Suc N div 2 ^ t - 1)" "length inner = 32"
    using assms(1,2) by (simp_all add: climb_ok_def inner_ok_def)
  have "inner[t := mr_h r] ! l = tree_level env leaves l ! (Suc N div 2 ^ l - 1)" if l: "bit (Suc N) l" for l
  proof (cases "l = t")
    case False
    then have "t < l" using low_bit_clear [OF a(1) l] by simp
    then have e: "N div 2 ^ l = Suc N div 2 ^ l" using div_keep(1) [OF a(1) _ a(2) assms(3)] by simp
    then have "bit N l" using l by (simp add: bit_iff_odd)
    with False e assms(1) show ?thesis by (simp add: inner_ok_def)
  qed (use a assms(4) in simp)
  with a(4) show ?thesis by (simp add: inner_ok_def)
qed

lemma stored_position:
  assumes "climb_ok env leaves True p N ml (Suc N) t r" "bit (Suc N) t"
  shows "tracked env leaves p (Suc N) (if mr_matchh r then int t else ml) (mr_branch r) 0"
proof -
  have a: "2 ^ t dvd Suc N" "Suc N \<le> N + 2 ^ t" using assms(1) by (simp_all add: climb_ok_def)
  show ?thesis
  proof (cases "mr_matchh r")
    case True
    then have r: "p div 2 ^ t = Suc N div 2 ^ t - 1" "mr_branch r = map (sibling env leaves p) [0..<t]" using assms(1) by (simp_all add: climb_ok_def)
    obtain k where k: "Suc N = 2 ^ t * k" "0 < k" using a(1) by (metis dvd_def gr0I mult_0_right nat.distinct(1))
    have "p div 2 ^ t < k" using r(1) k by simp
    then have "p < Suc N" using k(1) by (simp add: div_less_iff_less_mult mult.commute)
    with True r assms(2) show ?thesis by (auto simp: tracked_def)
  next
    case False
    then have r: "tracked env leaves p N ml (mr_branch r) t" "N \<le> p \<longrightarrow> Suc N \<le> p" using assms(1) by (simp_all add: climb_ok_def)
    show ?thesis
    proof (cases "p < N")
      case True
      then obtain k where k: "t \<le> k" "ml = int k" "bit N k" "p div 2 ^ k = N div 2 ^ k - 1" "mr_branch r = map (sibling env leaves p) [0..<k]"
        using r(1) by (auto simp: tracked_def)
      have "k \<noteq> t" using div_keep(2) [OF a(1) _ a(2) assms(2)] k(3) by auto
      then have e: "N div 2 ^ k = Suc N div 2 ^ k" using div_keep(1) [OF a(1) _ a(2) assms(2), of k] k(1) by simp
      then have "bit (Suc N) k" using k(3) by (simp add: bit_iff_odd)
      with True False k e show ?thesis by (auto simp: tracked_def)
    qed (use False r in \<open>simp add: tracked_def\<close>)
  qed
qed

lemma process_leaves_result:
  assumes "inner_ok env leaves N inner" "pb \<longrightarrow> tracked env leaves p N ml br 0" "mu \<longleftrightarrow> repeats env leaves N" "xs = drop N leaves"
    "length leaves < 2 ^ 32" "N \<le> length leaves" "process_leaves env pb p xs N inner ml br mu = (inner', ml', br', mu')"
  shows "inner_ok env leaves (length leaves) inner' \<and> (pb \<longrightarrow> tracked env leaves p (length leaves) ml' br' 0) \<and>
    (mu' \<longleftrightarrow> repeats env leaves (length leaves))"
  using assms(1-4,6,7)
proof (induction xs arbitrary: N inner ml br mu)
  case (Cons x xs)
  have N: "N < length leaves" "leaves ! N = x" "xs = drop (Suc N) leaves"
    using Cons.prems(4,5) by (metis drop_eq_Nil2 leI list.distinct(1), metis nth_via_drop, metis drop_Suc list.sel(3) tl_drop)
  define r0 where "r0 = \<lparr>mr_h = x, mr_matchh = (N = p), mr_branch = br, mr_mutated = mu\<rparr>"
  have start: "climb_ok env leaves pb p N ml (Suc N) 0 r0"
    using N Cons.prems(2) by (auto simp: climb_ok_def r0_def tracked_def)
  obtain t r where t: "climb env inner pb ml (Suc N) 0 r0 = (t, r)" by fastforce
  have "Suc N < 2 ^ 32" using N(1) assms(5) by linarith
  then have c: "climb_ok env leaves pb p N ml (Suc N) t r" "bit (Suc N) t" "t < 32"
      "mr_mutated r \<longleftrightarrow> mu \<or> (\<exists>j<t. tree_level env leaves j ! (Suc N div 2 ^ j - 2) = tree_level env leaves j ! (Suc N div 2 ^ j - 1))"
    using climb_result [OF Cons.prems(1) start _ _ t] by (simp_all add: r0_def)
  have d: "2 ^ t dvd Suc N" using c(1) by (simp add: climb_ok_def)
  have tr: "pb \<longrightarrow> tracked env leaves p (Suc N) (if mr_matchh r then int t else ml) (mr_branch r) 0"
    using stored_position c(1,2) by (cases pb) auto
  have mu: "mr_mutated r \<longleftrightarrow> repeats env leaves (Suc N)" unfolding repeats_Suc [OF d c(2)] c(4) Cons.prems(3) ..
  have "process_leaves env pb p xs (Suc N) (inner[t := mr_h r]) (if mr_matchh r then int t else ml) (mr_branch r) (mr_mutated r)
      = (inner', ml', br', mu')"
    using Cons.prems(6) t by (simp add: r0_def)
  from Cons.IH [OF stored_hash [OF Cons.prems(1) c(1-3)] tr mu N(3) _ this] N(1) show ?case by simp
qed simp

section \<open>The sweep\<close>

lemma bit_power_le: "bit (c :: nat) l \<Longrightarrow> 2 ^ l \<le> c"
  by (metis bit_iff_odd div_less even_zero linorder_not_le)

lemma sweep_grows:
  assumes "(2 :: nat) ^ l dvd c" "bit c l" "c \<le> 2 ^ 31" "c \<noteq> 2 ^ l"
  shows "l < 31" and "c + 2 ^ l \<le> 2 ^ 31" and "2 ^ Suc l \<le> c"
proof -
  obtain k where k: "c = 2 ^ l * k" using assms(1) by (auto simp: dvd_def)
  then have odd: "odd k" using assms(2) by (simp add: bit_iff_odd)
  have "k \<noteq> 1" using assms(4) k by auto
  with odd have k2: "2 \<le> k" by (auto elim: oddE)
  then show c: "2 ^ Suc l \<le> c" using k by simp
  then have "(2 :: nat) ^ Suc l \<le> 2 ^ 31" using assms(3) by linarith
  then have "Suc l \<le> 31" by (rule power_le_imp_le_exp [rotated]) simp
  then show l: "l < 31" by simp
  then have two: "(2 :: nat) ^ 31 = 2 ^ l * (2 * 2 ^ (30 - l))" by (simp flip: power_Suc power_add)
  have "k \<le> 2 * 2 ^ (30 - l)" using assms(3) unfolding k two by simp
  moreover have "k \<noteq> 2 * 2 ^ (30 - l)" using odd by auto
  ultimately have "k + 1 \<le> 2 * 2 ^ (30 - l)" by simp
  then have "2 ^ l * (k + 1) \<le> 2 ^ l * (2 * 2 ^ (30 - l))" by (rule mult_le_mono2)
  then show "c + 2 ^ l \<le> 2 ^ 31" unfolding k two by simp
qed

lemma sweep_double:
  assumes ok: "sweep_ok env leaves pb p ml c l r" and ne: "c \<noteq> 2 ^ l" and pb: "pb \<Longrightarrow> p < length leaves"
  shows "climb_ok env leaves pb p (length leaves) ml (c + 2 ^ l) (Suc l) (double_up env pb r)"
proof -
  define q where "q = c div 2 ^ l"
  have a: "2 ^ l dvd c" "bit c l" "length leaves \<le> c" "c < length leaves + 2 ^ l" "mr_h r = tree_level env leaves l ! (q - 1)"
    using ok by (simp_all add: sweep_ok_def q_def)
  have len: "length (tree_level env leaves l) = q" using rounded_up [OF a(1,3,4)] by (simp add: q_def)
  have "odd q" using a(2) by (simp add: bit_iff_odd q_def)
  then obtain m where m: "q = 2 * m + 1" by (rule oddE)
  have c: "c = 2 ^ l * (2 * m + 1)" using a(1) m by (metis dvd_mult_div_cancel q_def)
  then have c': "c + 2 ^ l = 2 ^ Suc l * (m + 1)" by simp
  have up: "p div (2 * 2 ^ l) = p div 2 ^ l div 2" by (simp add: div_mult2_eq [symmetric] mult.commute)
  have h: "mr_h (double_up env pb r) = tree_level env leaves (Suc l) ! m"
    using nth_next_level_last [of "tree_level env leaves l" m env] len m a(5) by (simp add: double_up_def)
  have br: "if mr_matchh (double_up env pb r)
      then p div 2 ^ Suc l = m \<and> mr_branch (double_up env pb r) = map (sibling env leaves p) [0..<Suc l]
      else tracked env leaves p (length leaves) ml (mr_branch (double_up env pb r)) (Suc l)" if pb
  proof (cases "mr_matchh r")
    case True
    then have r: "p div 2 ^ l = q - 1" "mr_branch r = map (sibling env leaves p) [0..<l]" using ok that by (simp_all add: sweep_ok_def q_def)
    have "sibling env leaves p l = mr_h r" using len a(5) m by (simp add: sibling_def r(1))
    with True that r m show ?thesis by (simp add: double_up_def up)
  qed (use ok that in \<open>simp add: sweep_ok_def double_up_def\<close>)
  have "length leaves < c + 2 ^ l" "c + 2 ^ l \<le> length leaves + 2 ^ Suc l" using a(3,4) by (auto simp: le_imp_less_Suc add_strict_increasing2 intro: order_le_less_trans)
  moreover have "m + 1 \<le> length (tree_level env leaves (Suc l))" by (simp add: length_next_level len m)
  moreover have "(c + 2 ^ l) div 2 ^ Suc l = m + 1" "2 ^ Suc l dvd c + 2 ^ l" unfolding c' by simp_all
  ultimately show ?thesis using h br pb by (auto simp: climb_ok_def)
qed

lemma sweep_again:
  assumes ok: "climb_ok env leaves pb p (length leaves) ml c t r" "bit c t" "c \<le> 2 ^ 31" "l < t" "2 ^ l < length leaves"
    and c: "c < length leaves + 2 ^ Suc l" and pb: "pb \<Longrightarrow> p < length leaves"
  shows "sweep_ok env leaves pb p ml c t r"
proof -
  have a: "2 ^ t dvd c" "length leaves < c" "c \<le> length leaves + 2 ^ t" using ok(1) by (simp_all add: climb_ok_def)
  have top: "2 ^ (t - 1) < length leaves"
  proof (cases "t = Suc l")
    case False
    then obtain k where k: "t = Suc k" "Suc l \<le> k" using ok(4) by (cases t) auto
    then have "(2 :: nat) ^ Suc l \<le> 2 ^ k" by (intro power_increasing) auto
    then show ?thesis using bit_power_le [OF ok(2)] c k(1) by simp
  qed (use ok(5) in simp)
  have below: "2 ^ j < length leaves" if "j < t" for j
    by (rule order_le_less_trans [OF power_increasing top]) (use that in auto)
  have "(2 :: nat) ^ Suc l \<le> 2 ^ t" using ok(4) by (intro power_increasing) auto
  then have "c < length leaves + 2 ^ t" using c by linarith
  moreover have "tracked env leaves p (length leaves) ml (mr_branch r) (Suc t)" if tr: pb "\<not> mr_matchh r"
  proof -
    obtain k where k: "t \<le> k" "ml = int k" "bit (length leaves) k" "p div 2 ^ k = length leaves div 2 ^ k - 1"
        "mr_branch r = map (sibling env leaves p) [0..<k]"
      using ok(1) tr pb by (auto simp: climb_ok_def tracked_def)
    have "k \<noteq> t" using div_keep(2) [OF a ok(2)] k(3) by auto
    then have "Suc t \<le> k" using k(1) by simp
    with k tr(1) pb show ?thesis unfolding tracked_def by auto
  qed
  ultimately show ?thesis using ok(1-3) a below by (simp add: sweep_ok_def climb_ok_def)
qed

lemma FromBranch_append:
  "ComputeMerkleRootFromBranch env h (xs @ [s]) i =
    (let h' = ComputeMerkleRootFromBranch env h xs i in if odd (i div 2 ^ length xs) then merkle_hash env s h' else merkle_hash env h' s)"
  by (induction xs arbitrary: h i) (simp_all add: Let_def div_mult2_eq)

lemma branch_node:
  assumes "p < length leaves"
  shows "ComputeMerkleRootFromBranch env (leaves ! p) (map (sibling env leaves p) [0..<l]) p = tree_level env leaves l ! (p div 2 ^ l) \<and>
    p div 2 ^ l < length (tree_level env leaves l)"
proof (induction l)
  case (Suc l)
  define i where "i = p div 2 ^ l"
  define xs where "xs = tree_level env leaves l"
  have i: "i < length xs" using Suc by (simp add: i_def xs_def)
  have up: "p div (2 * 2 ^ l) = i div 2" by (simp add: i_def div_mult2_eq [symmetric] mult.commute)
  have "(if odd i then merkle_hash env (sibling env leaves p l) (xs ! i) else merkle_hash env (xs ! i) (sibling env leaves p l))
      = next_level env xs ! (i div 2)"
  proof (cases "odd i")
    case True
    then obtain k where k: "i = 2 * k + 1" by (rule oddE)
    with True i show ?thesis using nth_next_level [of k xs env] by (simp add: sibling_def flip: i_def xs_def)
  next
    case False
    then obtain k where k: "i = 2 * k" by (auto elim: evenE)
    show ?thesis
    proof (cases "i + 1 < length xs")
      case True
      with k show ?thesis using nth_next_level [of k xs env] by (simp add: sibling_def flip: i_def xs_def)
    next
      case odd: False
      with i k have "length xs = 2 * k + 1" by simp
      with k show ?thesis using nth_next_level_last [of xs k env] by (simp add: sibling_def flip: i_def xs_def)
    qed
  qed
  moreover have "i div 2 < length (next_level env xs)" using i by (simp add: length_next_level)
  ultimately show ?case using Suc by (simp add: FromBranch_append up Let_def flip: i_def xs_def)
qed (use assms in simp)

lemma sweep_end:
  assumes ok: "sweep_ok env leaves pb p ml (2 ^ l) l r" and pb: "pb \<Longrightarrow> p < length leaves" and n: "0 < length leaves"
  shows "mr_h r = merkle_root env leaves \<and> (pb \<longrightarrow> ComputeMerkleRootFromBranch env (leaves ! p) (mr_branch r) p = merkle_root env leaves)"
proof -
  have a: "length leaves \<le> 2 ^ l" "2 ^ l < length leaves + 2 ^ l" "\<And>j. j < l \<Longrightarrow> 2 ^ j < length leaves" "mr_h r = tree_level env leaves l ! 0"
    using ok n by (simp_all add: sweep_ok_def)
  have len: "length (tree_level env leaves l) = 1" using rounded_up [of l "2 ^ l", OF _ a(1,2)] by simp
  have "merkle_root env (tree_level env leaves l) = tree_level env leaves l ! 0"
    using len by (subst merkle_root.simps) (simp add: hd_conv_nth [symmetric] flip: length_greater_0_conv)
  then have root: "merkle_root env leaves = tree_level env leaves l ! 0" using merkle_root_level [OF n a(3)] by simp
  have "mr_branch r = map (sibling env leaves p) [0..<l]" if b: pb
  proof (cases "mr_matchh r")
    case False
    then obtain k where k: "Suc l \<le> k" "bit (length leaves) k" using ok b pb [OF b] by (auto simp: sweep_ok_def tracked_def)
    have "(2 :: nat) ^ l < 2 ^ k" using k(1) by (intro power_strict_increasing) auto
    with bit_power_le [OF k(2)] a(1) show ?thesis by linarith
  qed (use ok b in \<open>simp add: sweep_ok_def\<close>)
  with branch_node [of p leaves env l] pb len root a(4) show ?thesis by auto
qed

lemma sweep_result:
  assumes "inner_ok env leaves (length leaves) inner" "sweep_ok env leaves pb p ml c l r" "pb \<Longrightarrow> p < length leaves" "0 < length leaves"
    "33 \<le> fuel + l"
  shows "\<exists>r'. sweep fuel env inner pb ml c l r = Some r' \<and> mr_h r' = merkle_root env leaves \<and>
    (pb \<longrightarrow> ComputeMerkleRootFromBranch env (leaves ! p) (mr_branch r') p = merkle_root env leaves)"
  using assms(2,5)
proof (induction fuel arbitrary: c l r)
  case 0
  then have "2 ^ l \<le> c" "c \<le> 2 ^ 31" by (simp_all add: sweep_ok_def bit_power_le)
  then have "(2 :: nat) ^ l \<le> 2 ^ 31" by linarith
  then have "l \<le> 31" by (rule power_le_imp_le_exp [rotated]) simp
  with 0 show ?case by simp
next
  case (Suc fuel)
  have a: "2 ^ l dvd c" "bit c l" "c \<le> 2 ^ 31" "c < length leaves + 2 ^ l" using Suc.prems(1) by (simp_all add: sweep_ok_def)
  show ?case
  proof (cases "c = 2 ^ l")
    case True
    then have "(2 :: nat) ^ l \<le> 2 ^ 31" using a(3) by simp
    then have "l \<le> 31" by (rule power_le_imp_le_exp [rotated]) simp
    with True sweep_end [OF _ assms(3,4)] Suc.prems(1) show ?thesis by simp
  next
    case False
    note g = sweep_grows [OF a(1-3) False]
    have m: "(c + 2 ^ l) mod 2 ^ 32 = c + 2 ^ l" using g(2) by simp
    obtain t r' where t: "climb env inner pb ml (c + 2 ^ l) (Suc l) (double_up env pb r) = (t, r')" by fastforce
    have up: "climb_ok env leaves pb p (length leaves) ml (c + 2 ^ l) t r'" "bit (c + 2 ^ l) t" "Suc l \<le> t"
      using climb_result [OF assms(1) sweep_double [OF Suc.prems(1) False assms(3)] _ _ t] g(2) by simp_all
    have "sweep_ok env leaves pb p ml (c + 2 ^ l) t r'"
      using g(3) a(4) up(3) by (intro sweep_again [OF up(1,2) g(2), of l] assms(3)) auto
    from Suc.IH [OF this] Suc.prems(2) up(3) False g(1) t m show ?thesis by simp
  qed
qed

section \<open>Root and branch\<close>

lemma lowest_bit_result:
  "0 < c \<Longrightarrow> c < 2 ^ 32 \<Longrightarrow> 2 ^ l dvd c \<Longrightarrow> bit c (lowest_bit c l) \<and> 2 ^ lowest_bit c l dvd c"
proof (induction "32 - l" arbitrary: l)
  case 0
  then have "(2 :: nat) ^ 32 dvd c" by (metis diff_is_0_eq dvd_trans le_imp_power_dvd)
  with 0 show ?case by (auto dest: dvd_imp_le)
next
  case (Suc d)
  show ?case
  proof (cases "bit c l")
    case False
    obtain k where k: "c = 2 ^ l * k" using Suc.prems(3) by (auto simp: dvd_def)
    then have "even k" using False by (simp add: bit_iff_odd)
    then have "2 ^ Suc l dvd c" unfolding k by auto
    with Suc False show ?thesis by (subst (1 2) lowest_bit.simps) (simp add: Suc.hyps(1))
  qed (use Suc.prems in \<open>simp add: lowest_bit.simps\<close>)
qed

lemma MerkleComputation_result:
  assumes n: "0 < length leaves" "length leaves \<le> 2 ^ 31" and pb: "pb \<Longrightarrow> p < length leaves"
  shows "\<exists>br. MerkleComputation env leaves p pb = Some (merkle_root env leaves, repeats env leaves (length leaves), br) \<and>
    (pb \<longrightarrow> ComputeMerkleRootFromBranch env (leaves ! p) br p = merkle_root env leaves)"
proof -
  define l where "l = lowest_bit (length leaves) 0"
  have n32: "length leaves < 2 ^ 32" using n(2) by simp
  have l: "bit (length leaves) l" "2 ^ l dvd length leaves" using lowest_bit_result [OF n(1) n32, of 0] by (simp_all add: l_def)
  obtain inner ml br mu where leaves: "process_leaves env pb p leaves 0 (replicate 32 []) (- 1) [] False = (inner, ml, br, mu)"
    by (metis prod_cases4)
  have "inner_ok env leaves 0 (replicate 32 [])" "pb \<longrightarrow> tracked env leaves p 0 (- 1) [] 0" "False \<longleftrightarrow> repeats env leaves 0"
    by (simp_all add: inner_ok_def tracked_def repeats_def)
  note fin = process_leaves_result [OF this _ n32 _ leaves, simplified]
  define r where "r = \<lparr>mr_h = inner ! l, mr_matchh = (ml = int l), mr_branch = br, mr_mutated = mu\<rparr>"
  have below: "2 ^ j < length leaves" if "j < l" for j
    by (rule order_less_le_trans [OF power_strict_increasing bit_power_le [OF l(1)]]) (use that in auto)
  have tr: "if ml = int l then p div 2 ^ l = length leaves div 2 ^ l - 1 \<and> br = map (sibling env leaves p) [0..<l]
      else tracked env leaves p (length leaves) ml br (Suc l)" if b: pb
  proof -
    obtain k where k: "ml = int k" "bit (length leaves) k" "p div 2 ^ k = length leaves div 2 ^ k - 1" "br = map (sibling env leaves p) [0..<k]"
      using fin b pb [OF b] by (auto simp: tracked_def)
    moreover have "l \<le> k" by (rule low_bit_clear [OF l(2) k(2)])
    ultimately show ?thesis using pb [OF b] by (auto simp: tracked_def)
  qed
  have "sweep_ok env leaves pb p ml (length leaves) l r"
    using l n below tr fin by (auto simp: sweep_ok_def r_def inner_ok_def)
  from sweep_result [OF _ this pb n(1), of inner 33] fin n n32 leaves show ?thesis
    by (auto simp: MerkleComputation_def r_def Let_def simp flip: l_def)
qed

text \<open>
  For one to \<open>2\<^sup>3\<^sup>1\<close> leaves the constant-space computation returns the root of the tree computed level by level,
  and reports a mutation exactly if two equal hashes stand next to each other, as children of one
  node, over complete parts of the tree; and the branch it returns for a position leads from the leaf back to the root.
\<close>

theorem merkle_correct:
  assumes "0 < length leaves" "length leaves \<le> 2 ^ 31" "p < length leaves"
  shows "ComputeMerkleRoot env leaves = Some (merkle_root env leaves, repeats env leaves (length leaves)) \<and>
    (\<exists>branch. ComputeMerkleBranch env leaves p = Some branch \<and> ComputeMerkleRootFromBranch env (leaves ! p) branch p = merkle_root env leaves)"
  using MerkleComputation_result [OF assms(1,2), of False "2 ^ 32 - 1" env] MerkleComputation_result [OF assms(1,2), of True p env] assms(3)
  by (auto simp: ComputeMerkleRoot_def ComputeMerkleBranch_def)

lemma merkle_correct_example:
  "\<exists>branch. ComputeMerkleBranch checksum_env [replicate 32 1, replicate 32 2, replicate 32 3] 1 = Some branch \<and>
    ComputeMerkleRootFromBranch checksum_env (replicate 32 2) branch 1 = merkle_root checksum_env [replicate 32 1, replicate 32 2, replicate 32 3]"
  using merkle_correct [of "[replicate 32 1, replicate 32 2, replicate 32 3]" 1 checksum_env] by simp

section \<open>Repeated leaves\<close>

lemma next_level_append: "even (length xs) \<Longrightarrow> next_level env (xs @ ys) = next_level env xs @ next_level env ys"
  by (induction env xs rule: next_level.induct) auto

lemma tree_level_append: "2 ^ l dvd length xs \<Longrightarrow> tree_level env (xs @ ys) l = tree_level env xs l @ tree_level env ys l"
proof (induction l)
  case (Suc l)
  then obtain k where k: "length xs = 2 ^ Suc l * k" by (auto simp: dvd_def)
  then have d: "2 ^ l dvd length xs" by simp
  have "length (tree_level env xs l) = 2 * k" using rounded_up [OF d] k by simp
  with Suc.IH [OF d] show ?case by (simp add: next_level_append)
qed simp

text \<open>
  The flaw of the tree and its detection: repeating the last \<open>2\<^sup>l\<close> leaves, where they are a
  complete subtree without a sibling, gives the same root, and the computation on the longer list
  reports the mutation.
\<close>

theorem repeated_tail_detected:
  assumes "2 ^ l dvd length leaves" "odd (length leaves div 2 ^ l)" "2 ^ l < length leaves" "length leaves + 2 ^ l \<le> 2 ^ 31"
  shows "ComputeMerkleRoot env (leaves @ drop (length leaves - 2 ^ l) leaves) = Some (merkle_root env leaves, True)"
proof -
  let ?n = "length leaves"
  let ?ys = "leaves @ drop (?n - 2 ^ l) leaves"
  obtain m where m: "?n div 2 ^ l = 2 * m + 1" using assms(2) by (rule oddE)
  then have n: "?n = 2 ^ l * (2 * m + 1)" using assms(1) by (metis dvd_mult_div_cancel)
  define a where "a = take (2 ^ l * (2 * m)) leaves"
  define b where "b = drop (2 ^ l * (2 * m)) leaves"
  have ab: "leaves = a @ b" "length a = 2 ^ l * (2 * m)" "length b = 2 ^ l" "drop (?n - 2 ^ l) leaves = b"
    by (simp_all add: a_def b_def n)
  have la: "length (tree_level env a l) = 2 * m" using rounded_up [of l "length a" a] ab(2) by simp
  have "length (tree_level env b l) = 1" using rounded_up [of l "length b" b] ab(3) by simp
  then obtain h where h: "tree_level env b l = [h]" by (auto simp: length_Suc_conv)
  have lev: "tree_level env leaves l = tree_level env a l @ [h]" "tree_level env ?ys l = tree_level env a l @ [h, h]"
    using tree_level_append [of l a env b] tree_level_append [of l leaves env b] assms(1) ab h by simp_all
  then have "tree_level env ?ys (Suc l) = tree_level env leaves (Suc l)" using la by (simp add: next_level_append)
  moreover have below: "2 ^ j < ?n" if "j < Suc l" for j
    by (rule order_le_less_trans [OF power_increasing assms(3)]) (use that in auto)
  moreover have len: "length ?ys = (2 * m + 2) * 2 ^ l" "0 < ?n" using n ab(3,4) assms(3) by (simp_all add: algebra_simps)
  moreover have "2 ^ j < length ?ys" if "j < Suc l" for j using below [OF that] by simp
  ultimately have root: "merkle_root env ?ys = merkle_root env leaves"
    using merkle_root_level [of leaves "Suc l" env] merkle_root_level [of ?ys "Suc l" env] by simp
  have "tree_level env ?ys l ! (2 * m) = h" "tree_level env ?ys l ! (2 * m + 1) = h" using lev(2) la by (simp_all add: nth_append)
  then have "repeats env ?ys (length ?ys)" unfolding repeats_def len(1) by (intro exI [of _ l] exI [of _ m]) simp
  moreover have "length ?ys \<le> 2 ^ 31" using assms(4) ab(3,4) by simp
  moreover have "0 < length ?ys" using len by simp
  ultimately show ?thesis using MerkleComputation_result [of ?ys False "2 ^ 32 - 1" env] root by (auto simp: ComputeMerkleRoot_def)
qed

lemma repeated_tail_example:
  "ComputeMerkleRoot checksum_env [[1], [2], [3], [4], [5], [6], [5], [6]] = Some (merkle_root checksum_env [[1], [2], [3], [4], [5], [6]], True)"
proof -
  let ?l = "[[1], [2], [3], [4], [5], [6]] :: bytes list"
  have n: "length ?l = 6" "drop (length ?l - 2 ^ 1) ?l = [[5], [6]]" by simp_all
  have "2 ^ 1 dvd length ?l" "odd (length ?l div 2 ^ 1)" "2 ^ 1 < length ?l" "length ?l + 2 ^ 1 \<le> 2 ^ 31" unfolding n by simp_all
  from repeated_tail_detected [OF this, of checksum_env] show ?thesis unfolding n(2) by simp
qed

end
