(* ===== verification/Spec2Isabelle.thy ===== *)
theory Spec2Isabelle
  imports AesCbc Field Scalar VersionBits Interpreter_Softfork Compressor ConnectBlock Merkle
begin

text \<open>
  \<^bold>\<open>Sigecoin: a verification development.\<close>

  Sigecoin (\<^verbatim>\<open>src/\<close>) is a full node, miner and wallet of a cryptocurrency derived from Litecoin.
  Its own code is \<^verbatim>\<open>sige/\<close>; \<^verbatim>\<open>secp256k1/\<close> is the elliptic-curve library the node's signatures
  rest on; \<^verbatim>\<open>db-4.8.30/\<close>, \<^verbatim>\<open>leveldb/\<close>, \<^verbatim>\<open>libevent/\<close> and \<^verbatim>\<open>univalue/\<close> are storage, event and JSON
  libraries.  A node keeps a tree of block headers (\<^verbatim>\<open>chain.cpp\<close>), of which one branch is the active
  chain; a header is accepted when its difficulty field is the one the retargeting rule asks for
  and its hash meets the target (\<^verbatim>\<open>pow.cpp\<close>, on the 256-bit integers of \<^verbatim>\<open>baseuint.h\<close> and
  \<^verbatim>\<open>uint256.cpp\<close>), and the rules that are in force follow from the version bits of the headers
  (\<^verbatim>\<open>versionbits.cpp\<close>).  The transactions of a block (\<^verbatim>\<open>primitives/transaction.h\<close>, in the byte format of
  \<^verbatim>\<open>serialize.h\<close>) spend outputs of earlier ones: a block is connected (\<^verbatim>\<open>validation.cpp\<close>) when the coins its
  inputs name are unspent in the coin view (\<^verbatim>\<open>coins.cpp\<close>, over the database of \<^verbatim>\<open>txdb.cpp\<close>), the lock times
  and amounts are right, and the scripts of the inputs satisfy those of the coins
  (\<^verbatim>\<open>script/interpreter.cpp\<close>) with signatures over the hash of the transaction; connecting it updates the
  coins and writes the undo records that disconnecting it uses.  The wallet encrypts its keys with AES in
  CBC mode (\<^verbatim>\<open>crypto/aes.cpp\<close> over the constant-time cipher \<^verbatim>\<open>crypto/ctaes\<close>).  Signatures are computed
  over the field and the group order of secp256k1.

  \<^bold>\<open>Theories.\<close>
  \<^item> \<open>Prelude\<close>: names of the C integer types, byte strings and their numeric value, the rules that
    read words as natural numbers, list lemmas; the collections of named facts.
  \<^item> \<open>Interfaces\<close>: the contracts between components as locales: \<open>block_cipher\<close> (what the CBC
    template needs of a cipher; interpreted in \<open>AesCbc\<close> on AES-128 and AES-256) and \<open>mod_mult\<close> (what the
    addition chains need of a modular multiplication; interpreted in \<open>Field\<close> and \<open>Scalar\<close>).
  \<^item> \<open>CtAes\<close>, \<open>CtAes_Fips\<close>, \<open>AesCbc\<close>: \<^verbatim>\<open>sige/crypto/ctaes/ctaes.c\<close> and \<^verbatim>\<open>sige/crypto/aes.cpp\<close>.  The
    bit-sliced cipher is proved to compute the cipher of FIPS 197 (written as a reference in
    \<open>CtAes_Fips\<close>), decryption to invert encryption, and CBC mode to round trip with an exact padding
    check.
  \<^item> \<open>Field5x52\<close> (definitions), \<open>Field5x52_Mul\<close>, \<open>Field5x52_Norm\<close>, \<open>Field5x52_Bytes\<close>, \<open>Field\<close>:
    \<^verbatim>\<open>secp256k1/src/field_5x52_impl.h\<close>, \<^verbatim>\<open>field_5x52_int128_impl.h\<close>, \<^verbatim>\<open>field_impl.h\<close>: arithmetic modulo the
    field prime with magnitude bounds under which no word wraps, normal forms, serialization,
    inverse and square root.
  \<^item> \<open>Scalar4x64\<close> (definitions), \<open>Scalar4x64_Mul\<close>, \<open>Scalar4x64_Red\<close>, \<open>Scalar4x64_Ops\<close>, \<open>Scalar\<close>:
    \<^verbatim>\<open>secp256k1/src/scalar_4x64_impl.h\<close> and \<^verbatim>\<open>scalar_impl.h\<close>: arithmetic modulo the group order.
  \<^item> \<open>BaseUint\<close> (definitions and additive operators), \<open>BaseUint_Mul\<close>, \<open>BaseUint_Div\<close>:
    \<^verbatim>\<open>sige/src/baseuint.h\<close>.  An object is the list of its 32-bit words; each operator is proved to
    compute its function of the numbers modulo two to the width.
  \<^item> \<open>Uint256\<close>: \<^verbatim>\<open>sige/src/uint256.h\<close> and \<^verbatim>\<open>uint256.cpp\<close>: the compact encoding of targets.
  \<^item> \<open>Chain\<close>: \<^verbatim>\<open>sige/src/chain.h\<close> and \<^verbatim>\<open>chain.cpp\<close>.  Objects live in a store from addresses to records,
    pointers are addresses or \<open>None\<close>.  \<open>wf_index\<close> is the invariant of the header tree and \<open>chain_ok\<close>
    that of the active chain; the skip-list walk is proved equal to following parents.
  \<^item> \<open>Pow\<close>: \<^verbatim>\<open>sige/src/pow.cpp\<close>, \<^verbatim>\<open>consensus/params.h\<close> and the parameters of the main network.
  \<^item> \<open>VersionBits\<close>: \<^verbatim>\<open>sige/src/versionbits.cpp\<close>: the cached threshold state machine is proved to refine
    the recursion of BIP 9 over period boundaries (\<open>bip9_state\<close>, a chain of \<open>vb_step\<close> transitions).
  \<^item> \<open>Endian\<close>, \<open>Serialize\<close>, \<open>Transaction\<close>, \<open>Compressor\<close>: \<^verbatim>\<open>crypto/common.h\<close>, \<^verbatim>\<open>serialize.h\<close>, \<^verbatim>\<open>streams.h\<close>,
    \<^verbatim>\<open>primitives/transaction.h\<close> and \<^verbatim>\<open>compressor.cpp\<close>.  The locale \<open>codec\<close> is the contract of a writer and a
    reader (the reader accepts exactly what the writer produces, and leaves the rest of the stream); it is
    interpreted on every format from bytes to vectors of inputs, and gives the formats of transactions
    and of compressed outputs.
  \<^item> \<open>ScriptNum\<close>, \<open>Script\<close>, \<open>Interpreter\<close>, \<open>Interpreter_Limits\<close>, \<open>Interpreter_Softfork\<close>, \<open>Standard\<close>, \<open>SigHash\<close>:
    \<^verbatim>\<open>script/script.h\<close>, \<^verbatim>\<open>script.cpp\<close>, \<^verbatim>\<open>interpreter.cpp\<close>, \<^verbatim>\<open>standard.cpp\<close>.  The interpreter is a step function on a
    record of stacks; its limits are an invariant of the reachable states, its assertions never fail, and
    more verification flags accept less (the locale \<open>softfork\<close>, interpreted on the mandatory and the
    standard flags).  The signature hashes are proved to commit to the signed parts of a transaction.
  \<^item> \<open>CoinsSerialize\<close>, \<open>Coins\<close>: \<^verbatim>\<open>coins.h\<close>, \<^verbatim>\<open>coins.cpp\<close> and the coin database of \<^verbatim>\<open>txdb.cpp\<close>.  The coins of a
    transaction are written to the database as bytes, with a mask of unspent outputs and compressed
    outputs; \<open>stored\<close> is what is read back, which is the coins themselves unless the version or height is
    negative or a script is too long.  A view is the database or a cache
    over a view; \<open>coins_of\<close> is the map of unspent coins it stands for, and \<open>view_ok\<close> the meaning of the flags
    \<open>DIRTY\<close> and \<open>FRESH\<close>.  The locale \<open>coins_backend\<close> is what a cache relies on in the view below, with what that view
    keeps of the coins written into it.
  \<^item> \<open>Undo\<close>: \<open>UpdateCoins\<close>, \<open>ApplyTxInUndo\<close> and \<open>DisconnectBlock\<close> of \<^verbatim>\<open>validation.cpp\<close> with \<^verbatim>\<open>undo.h\<close>: the
    change of the set of unspent outputs (\<open>utxo\<close>), and that undoing reverts it.
  \<^item> \<open>TxVerify\<close>: the rules for one transaction in \<^verbatim>\<open>validation.cpp\<close>: finality and relative lock times (with
    the script operations that rely on them), signature operation counts, \<open>CheckTransaction\<close>,
    \<open>CheckTxInputs\<close> and the block subsidy.
  \<^item> \<open>ConnectBlock\<close>: \<open>ConnectBlock\<close> with \<open>CheckInputs\<close> and the checks of transactions in \<open>CheckBlock\<close>: the
    composition of scripts, coins, amounts and lock times.  Connecting a block creates no more money than
    the subsidy, and disconnecting it restores the coins.
  \<^item> \<open>Merkle\<close>: \<^verbatim>\<open>consensus/merkle.cpp\<close>.  The computation with one hash per level returns the root of the tree
    computed level by level and branches that lead to it, and reports the repetitions that leave the root
    unchanged.  Its sweep has 33 rounds, one more than the levels of a tree of 32-bit counts.

  \<^bold>\<open>Conventions.\<close>  Unsigned C integers are words of their width; \<^verbatim>\<open>int\<close> and \<^verbatim>\<open>int64_t\<close> heights and times
  are integers, since their sums stay far inside the C range for the values the code sees; amounts are
  64-bit words, and that their sums do not wrap is proved.  Hash functions and the verification of
  signatures are arguments (\<open>script_env\<close>, \<open>Verify\<close>).  Operations of a coin view that fill caches
  return the view.  A failed
  assertion, a null dereference or a thrown exception is \<open>None\<close> or a value of an error type.  The
  loops that follow pointers (\<open>SetTip_loop\<close>, \<open>FindFork_loop\<close>, \<open>GetLocator_loop\<close>, \<open>walk_back\<close>, \<open>since_loop\<close>,
  \<open>last_non_special\<close>) carry a bound of one more round than the height of the block they start from, and
  the theorems show that on a well-formed store they return before it is used up.

  \<^bold>\<open>Not modelled.\<close>  Networking, storage, RPC, wallet files and the user interface (input and output,
  threads, third-party libraries); the memory pool, fee estimates and the choice of the active chain; the
  hash functions, the elliptic-curve group and signatures of secp256k1; the byte format of undo
  records and of blocks on disk; memory accounting of the coin caches and script-checking threads.
\<close>

end
